(* ===== verification/Prelude.thy ===== *)
theory Prelude
  imports Main "HOL-Library.Word"
begin

text \<open>
  Shared vocabulary of the development: the machine types of the C++ sources, the arithmetic of
  \<open>size_t\<close> and \<open>int\<close> with its wrap-around written out, the errors that stand for undefined
  behaviour of memory accesses, byte-wise \<open>memcpy\<close>, and the list and arithmetic lemmas that the
  component theories use.
\<close>

unbundle bit_operations_syntax

named_theorems word_arith \<open>facts that move machine words to natural numbers\<close>
named_theorems mem_simps \<open>facts about byte copies between lists\<close>

section \<open>Machine types\<close>

type_synonym byte = "8 word"
type_synonym u16 = "16 word"
type_synonym u32 = "32 word"
type_synonym u64 = "64 word"

text \<open>
  Undefined behaviour and failed assertions: accesses outside an object or through a null pointer, of an object
  that was deleted, and through an iterator that does not belong to the list it is used with.
\<close>

datatype mem_error = OutOfBounds | AssertFailed | NullPointer | UseAfterFree | BadIterator

text \<open>Sequencing of fallible steps: the first error ends the sequence.\<close>

definition bindE :: "'e + 'a \<Rightarrow> ('a \<Rightarrow> 'e + 'b) \<Rightarrow> 'e + 'b" where
  "bindE m f = (case m of Inl e \<Rightarrow> Inl e | Inr x \<Rightarrow> f x)"

lemma bindE_simps [simp]: "bindE (Inl e) f = Inl e" "bindE (Inr x) f = f x"
  by (simp_all add: bindE_def)

lemma bindE_Inr_iff: "bindE m f = Inr y \<longleftrightarrow> (\<exists>x. m = Inr x \<and> f x = Inr y)"
  by (cases m) auto

section \<open>size_t and int\<close>

text \<open>
  A \<open>size_t\<close> is a natural number below \<open>2 ^ 64\<close>; subtraction wraps around. Conversion to
  \<open>int\<close> keeps the low 32 bits and reads them as two's complement.
\<close>

definition sz_sub :: "nat \<Rightarrow> nat \<Rightarrow> nat" where
  "sz_sub a b = (a + 2 ^ 64 - b) mod 2 ^ 64"

definition sz_add :: "nat \<Rightarrow> nat \<Rightarrow> nat" where
  "sz_add a b = (a + b) mod 2 ^ 64"

definition to_int32 :: "nat \<Rightarrow> int" where
  "to_int32 n = (let k = int (n mod 2 ^ 32) in if k < 2 ^ 31 then k else k - 2 ^ 32)"

lemma sz_sub_le [simp]: "b \<le> a \<Longrightarrow> a < 2 ^ 64 \<Longrightarrow> sz_sub a b = a - b"
proof -
  assume "b \<le> a" "a < 2 ^ 64"
  then have "a + 2 ^ 64 - b = (a - b) + 2 ^ 64" and "a - b < 2 ^ 64" by auto
  then show "sz_sub a b = a - b" unfolding sz_sub_def by (metis mod_add_self2 mod_less)
qed

lemma sz_sub_gt: "a < b \<Longrightarrow> b < 2 ^ 64 \<Longrightarrow> sz_sub a b = a + 2 ^ 64 - b"
  unfolding sz_sub_def by simp

lemma sz_add_le [simp]: "a + b < 2 ^ 64 \<Longrightarrow> sz_add a b = a + b"
  unfolding sz_add_def by simp

lemma to_int32_small [simp]: "n < 2 ^ 31 \<Longrightarrow> to_int32 n = int n"
proof -
  assume n: "n < 2 ^ 31"
  then have "n mod 2 ^ 32 = n" by simp
  with n show ?thesis unfolding to_int32_def by simp
qed

lemma to_int32_neg: "a < b \<Longrightarrow> b - a \<le> 2 ^ 31 \<Longrightarrow> b < 2 ^ 64 \<Longrightarrow> to_int32 (sz_sub a b) < 0"
proof -
  assume h: "a < b" "b - a \<le> 2 ^ 31" "b < 2 ^ 64"
  define d where "d = b - a"
  have d: "0 < d" "d \<le> 2 ^ 31" using h by (auto simp: d_def)
  have "sz_sub a b = 2 ^ 64 - d" using h by (simp add: sz_sub_gt d_def)
  also have "(2 ^ 64 - d) mod 2 ^ 32 = 2 ^ 32 - d"
  proof -
    have "(2::nat) ^ 64 - d = (2 ^ 32 - d) + (2 ^ 32 - 1) * 2 ^ 32" using d by simp
    then show ?thesis using d by (metis diff_less mod_less mod_mult_self1 zero_less_numeral zero_less_power)
  qed
  finally have "to_int32 (sz_sub a b) = (let k = int (2 ^ 32 - d) in if k < 2 ^ 31 then k else k - 2 ^ 32)"
    by (simp add: to_int32_def \<open>sz_sub a b = 2 ^ 64 - d\<close>)
  moreover have "int (2 ^ 32 - d) = 2 ^ 32 - int d" using d by (simp add: of_nat_diff)
  ultimately show ?thesis using d by (simp add: Let_def)
qed

section \<open>Words as numbers\<close>

lemma unat_u8_less [word_arith]: "unat (x :: byte) < 2 ^ 8"
  using unsigned_less [of x, where ?'a = nat] by simp

lemma unat_u16_less [word_arith]: "unat (x :: u16) < 2 ^ 16"
  using unsigned_less [of x, where ?'a = nat] by simp

lemma unat_u32_less [word_arith]: "unat (x :: u32) < 2 ^ 32"
  using unsigned_less [of x, where ?'a = nat] by simp

lemma unat_u64_less [word_arith]: "unat (x :: u64) < 2 ^ 64"
  using unsigned_less [of x, where ?'a = nat] by simp

lemma unat_min [word_arith]: "unat (min a b) = min (unat a) (unat b)" for a b :: "'a::len word"
  by (simp add: min_def word_le_nat_alt)

lemma unat_push_bit_small:
  "unat x * 2 ^ j < 2 ^ LENGTH('a) \<Longrightarrow> unat (push_bit j x) = unat x * 2 ^ j" for x :: "'a::len word"
  by (simp add: unsigned_push_bit_eq push_bit_nat_def take_bit_nat_eq_self)

lemma unat_ucast_u32_u64 [word_arith]: "unat (ucast x :: u64) = unat x" for x :: u32
  using unat_u32_less [of x] by (simp add: unsigned_ucast_eq take_bit_nat_eq_self)

lemma ucast_u64_u32 [word_arith]: "ucast (ucast x :: u64) = x" for x :: u32
  by (rule bit_word_eqI) (simp add: bit_simps)

lemma sint_of_nat_small [word_arith]: "n < 2 ^ 31 \<Longrightarrow> sint (of_nat n :: u32) = int n"
  by (simp add: signed_of_nat signed_take_bit_int_eq_self)

section \<open>Byte copies\<close>

text \<open>
  \<open>copy_in dst off src\<close> is \<open>memcpy(dst + off, src, |src|)\<close>, \<open>copy_out src off n\<close> reads \<open>n\<close>
  bytes at \<open>src + off\<close>; both are errors when a non-empty access leaves the object.
\<close>

definition copy_in :: "'a list \<Rightarrow> nat \<Rightarrow> 'a list \<Rightarrow> mem_error + 'a list" where
  "copy_in dst off src =
     (if src = [] then Inr dst
      else if off + length src \<le> length dst
      then Inr (take off dst @ src @ drop (off + length src) dst)
      else Inl OutOfBounds)"

definition copy_out :: "'a list \<Rightarrow> nat \<Rightarrow> nat \<Rightarrow> mem_error + 'a list" where
  "copy_out src off n =
     (if n = 0 then Inr []
      else if off + n \<le> length src then Inr (take n (drop off src)) else Inl OutOfBounds)"

lemma copy_in_length [mem_simps]: "copy_in dst off src = Inr dst' \<Longrightarrow> length dst' = length dst"
  by (auto simp: copy_in_def split: if_splits)

lemma copy_out_length [mem_simps]: "copy_out src off n = Inr xs \<Longrightarrow> length xs = n"
  by (auto simp: copy_out_def split: if_splits)

lemma copy_in_ok [mem_simps]:
  "off + length src \<le> length dst \<Longrightarrow>
     copy_in dst off src = Inr (take off dst @ src @ drop (off + length src) dst)"
  by (auto simp: copy_in_def)

lemma copy_out_ok [mem_simps]:
  "off + n \<le> length src \<Longrightarrow> copy_out src off n = Inr (take n (drop off src))"
  by (auto simp: copy_out_def)

lemma copy_in_0 [mem_simps]:
  "length src \<le> length dst \<Longrightarrow> copy_in dst 0 src = Inr (src @ drop (length src) dst)"
  by (auto simp: copy_in_def)

section \<open>Lists and arithmetic\<close>

lemma mod_add_wrap: "(a::nat) < m \<Longrightarrow> b \<le> m \<Longrightarrow> (a + b) mod m = (if a + b < m then a + b else a + b - m)"
  by (cases "a + b < m") (auto simp: le_mod_geq not_less)

text \<open>Places of a ring of \<open>S\<close> cells.\<close>

lemma ring_dist:
  assumes "h < S" "n < S"
  shows "((h + n) mod S + S - h) mod S = (n :: nat)"
proof (cases "h + n < S")
  case True
  then have "(h + n) mod S + S - h = n + S" by simp
  then show ?thesis using assms by simp
next
  case False
  then have "(h + n) mod S = h + n - S" using assms by (simp add: mod_add_wrap)
  then have "(h + n) mod S + S - h = n" using False by simp
  then show ?thesis using assms by simp
qed

lemma ring_inj: "h < S \<Longrightarrow> i < S \<Longrightarrow> j < S \<Longrightarrow> (h + i) mod S = (h + j) mod S \<Longrightarrow> i = (j :: nat)"
  by (auto simp: mod_add_wrap split: if_splits)

lemma sum_list_map_length_concat: "sum_list (map length xss) = length (concat xss)"
  by (induction xss) auto

lemma nth_update_map_eq:
  "distinct xs \<Longrightarrow> i < length xs \<Longrightarrow> map (f(xs ! i := y)) xs = (map f xs)[i := y]"
  by (rule nth_equalityI) (auto simp: nth_list_update nth_eq_iff_index_eq)

lemma map_fun_upd_notin [simp]: "a \<notin> set xs \<Longrightarrow> map (f(a := y)) xs = map f xs"
  by (induction xs) auto

lemma distinct_single: "set xs = {k} \<Longrightarrow> distinct xs \<Longrightarrow> xs = [k]"
  by (cases xs; cases "tl xs") auto

lemma foldl_snoc_id: "foldl (\<lambda>ys x. ys @ [x]) acc xs = acc @ xs"
  by (induction xs arbitrary: acc) auto

lemma take_append_drop_eq: "n \<le> length xs \<Longrightarrow> xs = take n xs @ drop n xs"
  by simp

end
