(* ===== verification/Ring_Buffer.thy ===== *)
theory Ring_Buffer
  imports Prelude
begin

text \<open>
  The byte ring buffer of \<open>lib_bsp/eventservice/mem/ring_buffer.cpp\<close>. \<open>in\<close>, \<open>out\<close> and \<open>size\<close> are
  32-bit and wrap around; the allocation is a list of bytes, and a \<open>memcpy\<close> that leaves the
  allocation, the source or the destination is \<open>Inl OutOfBounds\<close>. The pointer arithmetic is the
  one of the code, which casts \<open>void *\<close> to \<open>uint32_t *\<close> before adding a byte count, so that every
  offset is scaled by four.
\<close>

section \<open>Rounding to a power of two\<close>

definition is_power_of_2 :: "u32 \<Rightarrow> bool" where
  "is_power_of_2 x \<longleftrightarrow> x \<noteq> 0 \<and> x AND (x - 1) = 0"

definition fls_step :: "u32 \<Rightarrow> nat \<Rightarrow> u32 \<times> int \<Rightarrow> u32 \<times> int" where
  "fls_step hi j = (\<lambda>(x, r). if x AND hi = 0 then (push_bit j x, r - int j) else (x, r))"

definition fls :: "u32 \<Rightarrow> int" where
  "fls x =
     (if x = 0 then 0
      else snd (fls_step 0x80000000 1
                 (fls_step 0xc0000000 2
                   (fls_step 0xf0000000 4
                     (fls_step 0xff000000 8
                       (fls_step 0xffff0000 16 (x, 32)))))))"

definition fls64 :: "u64 \<Rightarrow> int" where
  "fls64 x =
     (let h = (ucast (drop_bit 32 x) :: u32)
      in if h \<noteq> 0 then fls h + 32 else fls (ucast x))"

definition roundup_pow_of_two :: "u64 \<Rightarrow> u64" where
  "roundup_pow_of_two x = push_bit (nat (fls64 (x - 1))) 1"

section \<open>The buffer and its operations\<close>

record ring_buffer =
  rb_buffer :: "byte list"
  rb_size :: u32
  rb_in :: u32
  rb_out :: u32

definition ring_buffer_init :: "byte list \<Rightarrow> u32 \<Rightarrow> ring_buffer option" where
  "ring_buffer_init buffer sz =
     (if \<not> is_power_of_2 sz then None
      else Some \<lparr>rb_buffer = buffer, rb_size = sz, rb_in = 0, rb_out = 0\<rparr>)"

text \<open>
  \<open>malloc\<close> is a parameter: it returns the bytes of the fresh block, or \<open>None\<close>.
\<close>

definition ring_buffer_alloc :: "(u32 \<Rightarrow> byte list option) \<Rightarrow> u32 \<Rightarrow> ring_buffer option" where
  "ring_buffer_alloc malloc sz0 =
     (let sz = (if sz0 AND (sz0 - 1) \<noteq> 0
                  then (ucast (roundup_pow_of_two (ucast sz0)) :: u32) else sz0)
      in case malloc sz of
           None \<Rightarrow> None
         | Some buffer \<Rightarrow> ring_buffer_init buffer sz)"

definition ring_buffer_len' :: "ring_buffer \<Rightarrow> u32" where
  "ring_buffer_len' rb = rb_in rb - rb_out rb"

text \<open>
  \<open>__ring_buffer_get\<close> into a destination of \<open>n\<close> bytes: the destination's new contents, the state
  and the number of bytes reported.
\<close>

definition ring_buffer_get' ::
  "ring_buffer \<Rightarrow> byte list \<Rightarrow> u32 \<Rightarrow> mem_error + (byte list \<times> ring_buffer \<times> u32)" where
  "ring_buffer_get' rb dst sz0 =
     (let sz = min sz0 (rb_in rb - rb_out rb);
          pos = rb_out rb AND (rb_size rb - 1);
          len = min sz (rb_size rb - pos)
      in case copy_out (rb_buffer rb) (4 * unat pos) (unat len) of
           Inl e \<Rightarrow> Inl e
         | Inr part1 \<Rightarrow>
        (case copy_in dst 0 part1 of
           Inl e \<Rightarrow> Inl e
         | Inr dst1 \<Rightarrow>
        (case copy_out (rb_buffer rb) 0 (unat (sz - len)) of
           Inl e \<Rightarrow> Inl e
         | Inr part2 \<Rightarrow>
        (case copy_in dst1 (4 * unat len) part2 of
           Inl e \<Rightarrow> Inl e
         | Inr dst2 \<Rightarrow> Inr (dst2, rb\<lparr>rb_out := rb_out rb + sz\<rparr>, sz)))))"

definition ring_buffer_put' ::
  "ring_buffer \<Rightarrow> byte list \<Rightarrow> u32 \<Rightarrow> mem_error + (ring_buffer \<times> u32)" where
  "ring_buffer_put' rb src sz0 =
     (let sz = min sz0 (rb_size rb - rb_in rb + rb_out rb);
          pos = rb_in rb AND (rb_size rb - 1);
          len = min sz (rb_size rb - pos)
      in case copy_out src 0 (unat len) of
           Inl e \<Rightarrow> Inl e
         | Inr part1 \<Rightarrow>
        (case copy_in (rb_buffer rb) (4 * unat pos) part1 of
           Inl e \<Rightarrow> Inl e
         | Inr buf1 \<Rightarrow>
        (case copy_out src (4 * unat len) (unat (sz - len)) of
           Inl e \<Rightarrow> Inl e
         | Inr part2 \<Rightarrow>
        (case copy_in buf1 0 part2 of
           Inl e \<Rightarrow> Inl e
         | Inr buf2 \<Rightarrow> Inr (rb\<lparr>rb_buffer := buf2, rb_in := rb_in rb + sz\<rparr>, sz)))))"

definition ring_buffer_len :: "ring_buffer \<Rightarrow> u32" where
  "ring_buffer_len rb = ring_buffer_len' rb"

definition ring_buffer_get ::
  "ring_buffer \<Rightarrow> byte list \<Rightarrow> u32 \<Rightarrow> mem_error + (byte list \<times> ring_buffer \<times> u32)" where
  "ring_buffer_get rb dst sz =
     (case ring_buffer_get' rb dst sz of
        Inl e \<Rightarrow> Inl e
      | Inr (dst', rb', ret) \<Rightarrow>
          Inr (dst', (if rb_in rb' = rb_out rb' then rb'\<lparr>rb_in := 0, rb_out := 0\<rparr> else rb'), ret))"

definition ring_buffer_put ::
  "ring_buffer \<Rightarrow> byte list \<Rightarrow> u32 \<Rightarrow> mem_error + (ring_buffer \<times> u32)" where
  "ring_buffer_put rb src sz = ring_buffer_put' rb src sz"

section \<open>Powers of two and the highest bit\<close>

lemma nat_pow2_and: "0 < n \<Longrightarrow> n AND (n - 1) = 0 \<Longrightarrow> \<exists>k. n = 2 ^ k" for n :: nat
proof (induction n rule: less_induct)
  case (less n)
  show ?case
  proof (cases "even n")
    case True
    then obtain m where m: "n = 2 * m" by (auto elim: evenE)
    with less.prems have "0 < m" by simp
    with m have "n - 1 = 2 * (m - 1) + 1" by simp
    with m have "n AND (n - 1) = 2 * (m AND (m - 1))"
      by (simp add: and_rec [of "2 * m"])
    with less.prems have "m AND (m - 1) = 0" by simp
    with less.IH [of m] \<open>0 < m\<close> m obtain k where "m = 2 ^ k" by auto
    with m have "n = 2 ^ Suc k" by simp
    then show ?thesis by blast
  next
    case False
    then obtain m where m: "n = 2 * m + 1" by (auto elim: oddE)
    then have "n AND (n - 1) = 2 * m" by (simp add: and_rec [of "Suc (2 * m)"])
    with less.prems m have "n = 2 ^ 0" by simp
    then show ?thesis by blast
  qed
qed

lemma is_power_of_2D: "is_power_of_2 x \<Longrightarrow> \<exists>k<32. unat x = 2 ^ k"
proof -
  assume p: "is_power_of_2 x"
  then have x: "x \<noteq> 0" "x AND (x - 1) = 0" by (auto simp: is_power_of_2_def)
  have "unat x AND (unat x - 1) = unat (x AND (x - 1))"
    by (simp add: unsigned_and_eq unat_minus_one [OF x(1)])
  with x have "unat x AND (unat x - 1) = 0" "0 < unat x" by (simp_all add: unat_gt_0)
  then obtain k where k: "unat x = 2 ^ k" using nat_pow2_and by blast
  moreover have "k < 32"
  proof (rule ccontr)
    assume "\<not> k < 32"
    then have "(2::nat) ^ 32 \<le> 2 ^ k" by (intro power_increasing) auto
    with k unat_u32_less [of x] show False by linarith
  qed
  ultimately show ?thesis by blast
qed

lemma is_power_of_2I: "unat x = 2 ^ k \<Longrightarrow> is_power_of_2 x"
proof -
  assume k: "unat x = 2 ^ k"
  have "unat x AND (unat x - 1) = take_bit k (unat x)"
    by (simp add: k take_bit_eq_mask mask_eq_exp_minus_1 and.commute)
  also have "\<dots> = 0" by (simp add: k take_bit_eq_mod)
  finally have "unat (x AND (x - 1)) = 0"
    using k by (cases "x = 0") (auto simp: unsigned_and_eq unat_minus_one)
  then have "x AND (x - 1) = 0" by (simp only: unat_eq_zero)
  with k show ?thesis by (auto simp: is_power_of_2_def)
qed

lemma and_high_mask: "x AND NOT (mask n) = 0 \<longleftrightarrow> unat x < 2 ^ n" if "n < 32" for x :: u32
proof -
  have "x AND NOT (mask n) = 0 \<longleftrightarrow> take_bit n x = x"
    by (auto simp: bit_eq_iff bit_simps)
  also have "\<dots> \<longleftrightarrow> unat x < 2 ^ n"
    using that by (metis take_bit_nat_eq_self_iff unsigned_take_bit_eq word_unat_eq_iff)
  finally show ?thesis .
qed


text \<open>One stage of \<open>fls\<close>: the value is shifted while its top bits are clear.\<close>

lemma fls_step_inv:
  assumes "fls_step hi j (x, r) = (x', r')" "hi = NOT (mask (32 - j))" "0 < j" "2 * j \<le> 32"
    and "unat x = n * 2 ^ nat (32 - r)" "r \<le> 32" "2 ^ (32 - 2 * j) \<le> unat x"
  shows "unat x' = n * 2 ^ nat (32 - r') \<and> r' \<le> 32 \<and> 2 ^ (32 - j) \<le> unat x'"
proof (cases "unat x < 2 ^ (32 - j)")
  case True
  then have "x AND hi = 0" using assms(2-4) and_high_mask [of "32 - j" x] by simp
  with assms(1) have x': "x' = push_bit j x" and r': "r' = r - int j"
    by (auto simp: fls_step_def)
  have "unat x * 2 ^ j < 2 ^ (32 - j) * 2 ^ j" using True by simp
  also have "\<dots> = 2 ^ 32" using assms(4) by (simp flip: power_add)
  finally have ux': "unat x' = unat x * 2 ^ j" by (simp add: x' unat_push_bit_small)
  have "nat (32 - r') = nat (32 - r) + j" using assms(6) r' by simp
  then have "unat x' = n * 2 ^ nat (32 - r')" by (simp add: ux' assms(5) power_add)
  moreover have "(2::nat) ^ (32 - j) = 2 ^ (32 - 2 * j) * 2 ^ j"
    using assms(4) by (simp flip: power_add)
  then have "2 ^ (32 - j) \<le> unat x'" using assms(7) ux' by simp
  ultimately show ?thesis using assms(6) r' by simp
next
  case False
  then have "x AND hi \<noteq> 0" using assms(2-4) and_high_mask [of "32 - j" x] by simp
  with assms(1) have "x' = x" "r' = r" by (auto simp: fls_step_def)
  with False assms(5,6) show ?thesis by auto
qed

lemma fls_bounds:
  assumes "0 < unat x"
  shows "1 \<le> fls x \<and> fls x \<le> 32 \<and> 2 ^ nat (fls x - 1) \<le> unat x \<and> unat x < 2 ^ nat (fls x)"
proof -
  obtain x1 r1 where s1: "fls_step 0xffff0000 16 (x, 32) = (x1, r1)" by fastforce
  obtain x2 r2 where s2: "fls_step 0xff000000 8 (x1, r1) = (x2, r2)" by fastforce
  obtain x3 r3 where s3: "fls_step 0xf0000000 4 (x2, r2) = (x3, r3)" by fastforce
  obtain x4 r4 where s4: "fls_step 0xc0000000 2 (x3, r3) = (x4, r4)" by fastforce
  obtain x5 r5 where s5: "fls_step 0x80000000 1 (x4, r4) = (x5, r5)" by fastforce
  have r: "fls x = r5" using assms s1 s2 s3 s4 s5 by (auto simp: fls_def)
  have m: "NOT (mask 16) = (0xffff0000 :: u32)" "NOT (mask 24) = (0xff000000 :: u32)"
    "NOT (mask 28) = (0xf0000000 :: u32)" "NOT (mask 30) = (0xc0000000 :: u32)"
    "NOT (mask 31) = (0x80000000 :: u32)"
    by (simp_all add: mask_eq_exp_minus_1)
  have "unat x1 = unat x * 2 ^ nat (32 - r1) \<and> r1 \<le> 32 \<and> 2 ^ (32 - 16) \<le> unat x1"
    by (rule fls_step_inv [OF s1]) (use assms m in simp_all)
  then have "unat x2 = unat x * 2 ^ nat (32 - r2) \<and> r2 \<le> 32 \<and> 2 ^ (32 - 8) \<le> unat x2"
    by (intro fls_step_inv [OF s2]) (use m in simp_all)
  then have "unat x3 = unat x * 2 ^ nat (32 - r3) \<and> r3 \<le> 32 \<and> 2 ^ (32 - 4) \<le> unat x3"
    by (intro fls_step_inv [OF s3]) (use m in simp_all)
  then have "unat x4 = unat x * 2 ^ nat (32 - r4) \<and> r4 \<le> 32 \<and> 2 ^ (32 - 2) \<le> unat x4"
    by (intro fls_step_inv [OF s4]) (use m in simp_all)
  then have "unat x5 = unat x * 2 ^ nat (32 - r5) \<and> r5 \<le> 32 \<and> 2 ^ (32 - 1) \<le> unat x5"
    by (intro fls_step_inv [OF s5]) (use m in simp_all)
  then have h: "unat x5 = unat x * 2 ^ nat (32 - r5)" "r5 \<le> 32" "2 ^ 31 \<le> unat x5" by simp_all
  have up: "unat x5 < 2 ^ 32" by (rule unat_u32_less)
  have r5: "1 \<le> r5"
  proof (rule ccontr)
    assume "\<not> 1 \<le> r5"
    then have "(2::nat) ^ 32 \<le> 2 ^ nat (32 - r5)" by (intro power_increasing) auto
    also have "\<dots> \<le> unat x * 2 ^ nat (32 - r5)" using assms by simp
    finally show False using up h by simp
  qed
  have e1: "(2::nat) ^ 31 = 2 ^ nat (r5 - 1) * 2 ^ nat (32 - r5)"
    and e2: "(2::nat) ^ 32 = 2 ^ nat r5 * 2 ^ nat (32 - r5)"
    using r5 h(2) by (simp_all flip: power_add nat_add_distrib)
  have "2 ^ nat (r5 - 1) * 2 ^ nat (32 - r5) \<le> unat x * 2 ^ nat (32 - r5)"
    using h e1 by simp
  then have lo: "2 ^ nat (r5 - 1) \<le> unat x" by simp
  have "unat x * 2 ^ nat (32 - r5) < 2 ^ nat r5 * 2 ^ nat (32 - r5)"
    using h up e2 by simp
  then have "unat x < 2 ^ nat r5" by simp
  with lo show ?thesis using r r5 h by simp
qed


section \<open>The invariant and the accounting of bytes\<close>

definition rb_inv :: "ring_buffer \<Rightarrow> bool" where
  "rb_inv rb \<longleftrightarrow> is_power_of_2 (rb_size rb) \<and> length (rb_buffer rb) = unat (rb_size rb)
     \<and> unat (ring_buffer_len rb) \<le> unat (rb_size rb)"

text \<open>Bytes a put of \<open>n\<close> stores, bytes a get of \<open>n\<close> takes, and where in the buffer they start.\<close>

definition rb_free :: "ring_buffer \<Rightarrow> nat" where
  "rb_free rb = unat (rb_size rb) - unat (ring_buffer_len rb)"

definition rb_pos :: "ring_buffer \<Rightarrow> u32 \<Rightarrow> nat" where
  "rb_pos rb x = unat x mod unat (rb_size rb)"

lemma unat_and_size:
  "is_power_of_2 s \<Longrightarrow> unat (x AND (s - 1)) = unat x mod unat s"
proof -
  assume p: "is_power_of_2 s"
  then obtain k where k: "unat s = 2 ^ k" using is_power_of_2D by blast
  have "s \<noteq> 0" using p by (simp add: is_power_of_2_def)
  then have "unat (x AND (s - 1)) = unat x AND (2 ^ k - 1)"
    by (simp add: unsigned_and_eq unat_minus_one k)
  also have "\<dots> = take_bit k (unat x)" by (simp only: take_bit_eq_mask mask_eq_exp_minus_1)
  finally show ?thesis by (simp add: k take_bit_eq_mod)
qed

lemma rb_free_word:
  "rb_inv rb \<Longrightarrow> unat (rb_size rb - rb_in rb + rb_out rb) = rb_free rb"
proof -
  assume "rb_inv rb"
  then have "rb_in rb - rb_out rb \<le> rb_size rb"
    by (simp add: rb_inv_def ring_buffer_len_def ring_buffer_len'_def word_le_nat_alt)
  moreover have "rb_size rb - rb_in rb + rb_out rb = rb_size rb - (rb_in rb - rb_out rb)" by simp
  ultimately show ?thesis
    by (simp only: unat_sub rb_free_def ring_buffer_len_def ring_buffer_len'_def)
qed

lemma rb_size_pos: "rb_inv rb \<Longrightarrow> 0 < unat (rb_size rb)"
  by (auto simp: rb_inv_def is_power_of_2_def unat_gt_0)

lemma rb_pos_less: "rb_inv rb \<Longrightarrow> rb_pos rb x < unat (rb_size rb)"
  by (simp add: rb_pos_def rb_size_pos)

lemma rb_tail_room:
  "rb_inv rb \<Longrightarrow> unat (rb_size rb - (x AND (rb_size rb - 1))) = unat (rb_size rb) - rb_pos rb x"
proof -
  assume i: "rb_inv rb"
  then have u: "unat (x AND (rb_size rb - 1)) = rb_pos rb x"
    by (simp add: rb_inv_def unat_and_size rb_pos_def)
  then have "x AND (rb_size rb - 1) \<le> rb_size rb"
    using rb_pos_less [OF i, of x] by (simp add: word_le_nat_alt)
  then show ?thesis by (simp only: unat_sub u)
qed

lemma put_not_wrapping:
  assumes i: "rb_inv rb" and src: "unat n \<le> length src"
    and fit: "4 * rb_pos rb (rb_in rb) + min (unat n) (rb_free rb) \<le> unat (rb_size rb)"
  shows "ring_buffer_put rb src n =
    Inr (rb\<lparr>rb_buffer :=
              take (4 * rb_pos rb (rb_in rb)) (rb_buffer rb)
              @ take (min (unat n) (rb_free rb)) src
              @ drop (4 * rb_pos rb (rb_in rb) + min (unat n) (rb_free rb)) (rb_buffer rb),
            rb_in := rb_in rb + min n (rb_size rb - rb_in rb + rb_out rb)\<rparr>,
         min n (rb_size rb - rb_in rb + rb_out rb))"
proof -
  define stored where "stored = min n (rb_size rb - rb_in rb + rb_out rb)"
  define pos where "pos = rb_in rb AND (rb_size rb - 1)"
  have st: "unat stored = min (unat n) (rb_free rb)"
    by (simp add: stored_def unat_min rb_free_word [OF i])
  have p: "unat pos = rb_pos rb (rb_in rb)"
    using i by (simp add: pos_def rb_inv_def unat_and_size rb_pos_def)
  have "unat stored \<le> unat (rb_size rb - pos)"
    using fit st rb_tail_room [OF i, of "rb_in rb"] by (simp add: pos_def)
  then have len: "min stored (rb_size rb - pos) = stored"
    by (simp add: min_def word_le_nat_alt)
  have b: "length (rb_buffer rb) = unat (rb_size rb)" using i by (simp add: rb_inv_def)
  have "copy_out src 0 (unat stored) = Inr (take (unat stored) src)"
    using src st by (simp add: copy_out_ok)
  moreover have "copy_in (rb_buffer rb) (4 * unat pos) (take (unat stored) src) =
      Inr (take (4 * unat pos) (rb_buffer rb) @ take (unat stored) src
           @ drop (4 * unat pos + unat stored) (rb_buffer rb))"
    using fit st p b src by (subst copy_in_ok) auto
  ultimately show ?thesis
    unfolding ring_buffer_put_def ring_buffer_put'_def stored_def [symmetric] pos_def [symmetric] Let_def len
    by (simp add: copy_out_def copy_in_def p st)
qed


lemma put_out_of_bounds:
  assumes i: "rb_inv rb" and src: "unat n \<le> length src"
    and some: "0 < min (unat n) (rb_free rb)"
    and over: "unat (rb_size rb) < 4 * rb_pos rb (rb_in rb) + min (unat n) (rb_free rb)"
  shows "ring_buffer_put rb src n = Inl OutOfBounds"
proof -
  define stored where "stored = min n (rb_size rb - rb_in rb + rb_out rb)"
  define pos where "pos = rb_in rb AND (rb_size rb - 1)"
  define len where "len = min stored (rb_size rb - pos)"
  have st: "unat stored = min (unat n) (rb_free rb)"
    by (simp add: stored_def unat_min rb_free_word [OF i])
  have p: "unat pos = rb_pos rb (rb_in rb)" "unat pos < unat (rb_size rb)"
    using i rb_pos_less [OF i] by (simp_all add: pos_def rb_inv_def unat_and_size rb_pos_def)
  have l: "unat len = min (unat stored) (unat (rb_size rb) - unat pos)"
    using rb_tail_room [OF i, of "rb_in rb"] p by (simp add: len_def unat_min pos_def)
  have free: "rb_free rb \<le> unat (rb_size rb)" by (simp add: rb_free_def)
  have b: "length (rb_buffer rb) = unat (rb_size rb)" using i by (simp add: rb_inv_def)
  have bad: "unat (rb_size rb) < 4 * unat pos + unat len"
    using over st p l free by (auto simp: min_def split: if_splits)
  have "0 < unat len" using some st l p by simp
  then have "copy_out src 0 (unat len) = Inr (take (unat len) src)" "take (unat len) src \<noteq> []"
    using src st l by (auto simp: copy_out_ok)
  moreover have "copy_in (rb_buffer rb) (4 * unat pos) (take (unat len) src) = Inl OutOfBounds"
    using calculation(2) bad b src st l by (auto simp: copy_in_def)
  ultimately show ?thesis
    unfolding ring_buffer_put_def ring_buffer_put'_def stored_def [symmetric] pos_def [symmetric]
      len_def [symmetric] Let_def
    by simp
qed

lemma put_nothing:
  assumes i: "rb_inv rb" and none: "min (unat n) (rb_free rb) = 0"
  shows "ring_buffer_put rb src n = Inr (rb, 0)"
proof -
  define stored where "stored = min n (rb_size rb - rb_in rb + rb_out rb)"
  have "unat stored = 0" using none by (simp add: stored_def unat_min rb_free_word [OF i])
  then have "stored = 0" by (simp only: unat_eq_zero)
  then show ?thesis
    unfolding ring_buffer_put_def ring_buffer_put'_def stored_def [symmetric] Let_def
    by (simp add: copy_out_def copy_in_def)
qed

section \<open>Properties\<close>

text \<open>
  A put from a source of at least \<open>n\<close> bytes into a well-formed buffer stays inside the
  allocation exactly when it stores nothing or when four times the write position plus the bytes
  stored still fits: the write offset is scaled by the size of \<open>uint32_t\<close>.
\<close>

theorem ring_buffer_put_safe_iff:
  assumes "rb_inv rb" and "unat n \<le> length src"
  shows "(\<exists>rb' ret. ring_buffer_put rb src n = Inr (rb', ret)) \<longleftrightarrow>
    min (unat n) (rb_free rb) = 0 \<or>
    4 * rb_pos rb (rb_in rb) + min (unat n) (rb_free rb) \<le> unat (rb_size rb)"
proof (cases "min (unat n) (rb_free rb) = 0")
  case True
  with put_nothing [OF assms(1), of n src] show ?thesis by simp
next
  case False
  then have some: "0 < min (unat n) (rb_free rb)" by simp
  show ?thesis
  proof (cases "4 * rb_pos rb (rb_in rb) + min (unat n) (rb_free rb) \<le> unat (rb_size rb)")
    case True
    with put_not_wrapping [OF assms] show ?thesis by simp
  next
    case False
    then have "ring_buffer_put rb src n = Inl OutOfBounds"
      using put_out_of_bounds [OF assms some] by simp
    with False some show ?thesis by simp
  qed
qed


theorem ring_buffer_put_safe_iff_witness:
  "rb_inv \<lparr>rb_buffer = replicate 4 0, rb_size = 4, rb_in = 2, rb_out = 0\<rparr> \<and>
   ring_buffer_put \<lparr>rb_buffer = replicate 4 0, rb_size = 4, rb_in = 2, rb_out = 0\<rparr> [7] 1
     = Inl OutOfBounds"
proof -
  let ?rb = "\<lparr>rb_buffer = replicate 4 0, rb_size = 4, rb_in = 2, rb_out = 0\<rparr>"
  have i: "rb_inv ?rb"
    by (simp add: rb_inv_def is_power_of_2_def ring_buffer_len_def ring_buffer_len'_def)
  have n: "unat (1 :: u32) \<le> length [7 :: byte]" by simp
  have "\<not> (\<exists>rb' ret. ring_buffer_put ?rb [7] 1 = Inr (rb', ret))"
    unfolding ring_buffer_put_safe_iff [OF i n]
    by (simp add: rb_free_def rb_pos_def ring_buffer_len_def ring_buffer_len'_def)
  with put_out_of_bounds [OF i n] i show ?thesis
    by (simp add: rb_free_def rb_pos_def ring_buffer_len_def ring_buffer_len'_def)
qed

lemma put_inv:
  assumes i: "rb_inv rb" and src: "unat n \<le> length src"
    and put: "ring_buffer_put rb src n = Inr (rb', ret)"
  shows "rb_inv rb' \<and> rb_size rb' = rb_size rb \<and> rb_out rb' = rb_out rb \<and>
    unat ret = min (unat n) (rb_free rb) \<and>
    unat (ring_buffer_len rb') = unat (ring_buffer_len rb) + unat ret"
proof (cases "min (unat n) (rb_free rb) = 0")
  case True
  with put_nothing [OF i True, of src] put i show ?thesis by auto
next
  case False
  have fit: "4 * rb_pos rb (rb_in rb) + min (unat n) (rb_free rb) \<le> unat (rb_size rb)"
    using put_out_of_bounds [OF i src] put False by (simp add: not_less [symmetric]) blast
  note p = put_not_wrapping [OF i src fit]
  have ret: "ret = min n (rb_size rb - rb_in rb + rb_out rb)"
    and len: "length (rb_buffer rb') = length (rb_buffer rb)"
    and io: "rb_in rb' = rb_in rb + ret" "rb_out rb' = rb_out rb" "rb_size rb' = rb_size rb"
    using p put fit src i by (auto simp: rb_inv_def)
  have u: "unat ret = min (unat n) (rb_free rb)"
    by (simp add: ret unat_min rb_free_word [OF i])
  have l: "ring_buffer_len rb' = ring_buffer_len rb + ret"
    by (simp add: ring_buffer_len_def ring_buffer_len'_def io)
  have le: "unat (ring_buffer_len rb) + unat ret \<le> unat (rb_size rb)"
    using i u by (auto simp: rb_inv_def rb_free_def)
  then have "unat (ring_buffer_len rb') = unat (ring_buffer_len rb) + unat ret"
    using unat_u32_less [of "rb_size rb"] by (simp add: l unat_word_ariths)
  with le i u len io show ?thesis by (simp add: rb_inv_def)
qed

lemma get_front:
  assumes i: "rb_inv rb" and o: "rb_out rb = 0" and inn: "unat (rb_in rb) \<le> unat n"
    and dst: "unat (rb_in rb) \<le> length dst"
  shows "ring_buffer_get rb dst n =
    Inr (take (unat (rb_in rb)) (rb_buffer rb) @ drop (unat (rb_in rb)) dst,
         rb\<lparr>rb_in := 0, rb_out := 0\<rparr>, rb_in rb)"
proof -
  have m: "min n (rb_in rb) = rb_in rb" using inn by (simp add: min_absorb2 word_le_nat_alt)
  have le: "unat (rb_in rb) \<le> unat (rb_size rb)"
    using i o by (simp add: rb_inv_def ring_buffer_len_def ring_buffer_len'_def)
  then have m2: "min (rb_in rb) (rb_size rb) = rb_in rb" by (simp add: min_def word_le_nat_alt)
  have b: "length (rb_buffer rb) = unat (rb_size rb)" using i by (simp add: rb_inv_def)
  have "copy_out (rb_buffer rb) 0 (unat (rb_in rb)) = Inr (take (unat (rb_in rb)) (rb_buffer rb))"
    using le b by (simp add: copy_out_ok)
  moreover have "copy_in dst 0 (take (unat (rb_in rb)) (rb_buffer rb)) =
      Inr (take (unat (rb_in rb)) (rb_buffer rb) @ drop (unat (rb_in rb)) dst)"
    using dst le b by (subst copy_in_0) auto
  ultimately show ?thesis
    unfolding ring_buffer_get_def ring_buffer_get'_def Let_def
    by (simp add: o m m2 copy_out_def copy_in_def)
qed

text \<open>
  On a drained buffer the pair works: a put of at most \<open>size\<close> bytes stores all of them, and
  one get that asks for at least as many returns exactly these bytes, in order, and drains the
  buffer again.
\<close>

theorem ring_buffer_put_get:
  assumes i: "rb_inv rb" and drained: "rb_in rb = 0" "rb_out rb = 0"
    and xs: "length xs = unat n" "unat n \<le> unat (rb_size rb)"
    and get: "unat n \<le> unat m" "unat n \<le> length dst"
  shows "\<exists>rb'. ring_buffer_put rb xs n = Inr (rb', n) \<and> unat (ring_buffer_len rb') = unat n \<and>
    ring_buffer_get rb' dst m = Inr (xs @ drop (unat n) dst, rb'\<lparr>rb_in := 0, rb_out := 0\<rparr>, n) \<and>
    rb_inv (rb'\<lparr>rb_in := 0, rb_out := 0\<rparr>)"
proof -
  have free: "rb_free rb = unat (rb_size rb)" "rb_pos rb (rb_in rb) = 0"
    using drained by (simp_all add: rb_free_def rb_pos_def ring_buffer_len_def ring_buffer_len'_def)
  have m: "min n (rb_size rb) = n" using xs(2) by (simp add: min_def word_le_nat_alt)
  obtain rb' where put: "ring_buffer_put rb xs n = Inr (rb', n)"
    and rb': "rb_in rb' = n" "take (unat n) (rb_buffer rb') = xs"
    using put_not_wrapping [OF i, of n xs] xs free m drained by simp
  have inv: "rb_inv rb'" "rb_size rb' = rb_size rb" "rb_out rb' = 0"
    "unat (ring_buffer_len rb') = unat (ring_buffer_len rb) + unat n"
    using put_inv [OF i _ put] xs drained by auto
  have "ring_buffer_get rb' dst m = Inr (xs @ drop (unat n) dst, rb'\<lparr>rb_in := 0, rb_out := 0\<rparr>, n)"
    using get_front [OF inv(1,3), of m dst] rb' get by simp
  moreover have "rb_inv (rb'\<lparr>rb_in := 0, rb_out := 0\<rparr>)"
    using inv(1) by (simp add: rb_inv_def ring_buffer_len_def ring_buffer_len'_def)
  ultimately show ?thesis
    using put inv(4) drained by (simp add: ring_buffer_len_def ring_buffer_len'_def)
qed

theorem ring_buffer_put_get_witness:
  "\<exists>rb'. ring_buffer_put \<lparr>rb_buffer = replicate 4 0, rb_size = 4, rb_in = 0, rb_out = 0\<rparr> [5, 6, 7] 3
       = Inr (rb', 3) \<and> unat (ring_buffer_len rb') = unat (3 :: u32) \<and>
     ring_buffer_get rb' [0, 0, 0, 9] 4 =
       Inr ([5, 6, 7] @ drop (unat (3 :: u32)) [0, 0, 0, 9], rb'\<lparr>rb_in := 0, rb_out := 0\<rparr>, 3) \<and>
     rb_inv (rb'\<lparr>rb_in := 0, rb_out := 0\<rparr>)"
  by (rule ring_buffer_put_get)
     (simp_all add: rb_inv_def is_power_of_2_def ring_buffer_len_def ring_buffer_len'_def)


lemma not_power_of_2:
  "x AND (x - 1) \<noteq> 0 \<Longrightarrow> 2 \<le> unat (x - 1) \<and> unat x = unat (x - 1) + 1" for x :: u32
proof -
  assume nz: "x AND (x - 1) \<noteq> 0"
  then have "x \<noteq> 0" by auto
  then have u: "unat x = unat (x - 1) + 1" using unat_gt_0 [of x] by (simp add: unat_minus_one)
  have "x \<noteq> 1" "x \<noteq> 2" using nz by auto
  then have "unat x \<noteq> unat (1 :: u32)" "unat x \<noteq> unat (2 :: u32)"
    by (simp_all only: word_unat_eq_iff simp_thms)
  then have "unat x \<noteq> 1" "unat x \<noteq> 2" by simp_all
  with u \<open>x \<noteq> 0\<close> show ?thesis by simp
qed

lemma roundup_u32:
  assumes "x AND (x - 1) \<noteq> 0"
  shows "unat (ucast (roundup_pow_of_two (ucast x)) :: u32) =
      (if unat x \<le> 2 ^ 31 then 2 ^ nat (fls (x - 1)) else 0) \<and>
    unat x \<le> 2 ^ nat (fls (x - 1)) \<and> 2 ^ nat (fls (x - 1)) < 2 * unat x"
proof -
  note x = not_power_of_2 [OF assms]
  have e: "(ucast x :: u64) - 1 = ucast (x - 1)"
  proof -
    have "unat ((ucast x :: u64) - 1) = unat x - 1"
      using x by (subst unat_minus_one) (auto simp: unat_ucast_u32_u64 simp flip: unat_eq_zero)
    also have "\<dots> = unat (ucast (x - 1) :: u64)" using x by (simp add: unat_ucast_u32_u64)
    finally show ?thesis by (simp only: word_unat_eq_iff)
  qed
  have "unat (drop_bit 32 (ucast (x - 1) :: u64)) = 0"
    using unat_u32_less [of "x - 1"]
    by (simp add: unsigned_drop_bit_eq drop_bit_nat_def unat_ucast_u32_u64 take_bit_eq_mod)
  then have "drop_bit 32 (ucast (x - 1) :: u64) = 0" by (simp only: unat_eq_zero)
  then have f: "fls64 ((ucast x :: u64) - 1) = fls (x - 1)"
    by (simp add: fls64_def Let_def e ucast_u64_u32)
  have fb: "1 \<le> fls (x - 1)" "fls (x - 1) \<le> 32" "2 ^ nat (fls (x - 1) - 1) \<le> unat (x - 1)"
    "unat (x - 1) < 2 ^ nat (fls (x - 1))" using fls_bounds [of "x - 1"] x by auto
  define r where "r = nat (fls (x - 1))"
  have r: "1 \<le> r" "r \<le> 32" "2 ^ (r - 1) \<le> unat (x - 1)" "unat (x - 1) < 2 ^ r"
    using fb by (auto simp: r_def nat_diff_distrib)
  have "(2::nat) ^ r \<le> 2 ^ 32" using r by (intro power_increasing) auto
  then have "unat (push_bit r (1 :: u64)) = 2 ^ r" by (subst unat_push_bit_small) auto
  then have c: "unat (ucast (roundup_pow_of_two (ucast x)) :: u32) = 2 ^ r mod 2 ^ 32"
    by (simp add: roundup_pow_of_two_def f r_def unsigned_ucast_eq take_bit_eq_mod)
  have d: "(2::nat) ^ r = 2 * 2 ^ (r - 1)" using r(1) by (cases r) auto
  have "2 ^ r mod (2::nat) ^ 32 = (if unat x \<le> 2 ^ 31 then 2 ^ r else 0)"
  proof (cases "unat x \<le> 2 ^ 31")
    case True
    then have "(2::nat) ^ (r - 1) < 2 ^ 31" using r x by simp
    then have "r - 1 < 31" using power_less_imp_less_exp [of "2::nat" "r - 1" 31] by simp
    then have "(2::nat) ^ r < 2 ^ 32" by (intro power_strict_increasing) auto
    with True show ?thesis by simp
  next
    case False
    then have "(2::nat) ^ 31 < 2 ^ r" using r x by simp
    then have "31 < r" using power_less_imp_less_exp [of "2::nat" 31 r] by simp
    with r have "r = 32" by simp
    with False show ?thesis by simp
  qed
  with c r x d show ?thesis by (auto simp: r_def)
qed


text \<open>
  \<open>ring_buffer_alloc\<close> with a \<open>malloc\<close> that succeeds returns a well-formed, empty buffer for
  every request between 1 and \<open>2 ^ 31\<close> bytes, its size the request rounded up to a power of two
  and below twice the request; every other request is refused.
\<close>

theorem ring_buffer_alloc_rounds:
  assumes malloc: "\<forall>k. \<exists>bs. malloc k = Some bs \<and> length bs = unat k"
  shows "(0 < unat n \<and> unat n \<le> 2 ^ 31 \<longrightarrow>
      (\<exists>rb. ring_buffer_alloc malloc n = Some rb \<and> rb_inv rb \<and> ring_buffer_len rb = 0 \<and>
         unat n \<le> unat (rb_size rb) \<and> unat (rb_size rb) < 2 * unat n)) \<and>
    (unat n = 0 \<or> 2 ^ 31 < unat n \<longrightarrow> ring_buffer_alloc malloc n = None)"
proof -
  define m :: u32 where
    "m = (if n AND (n - 1) \<noteq> 0 then ucast (roundup_pow_of_two (ucast n)) else n)"
  from malloc obtain bs where bs: "malloc m = Some bs" "length bs = unat m" by blast
  have alloc: "ring_buffer_alloc malloc n = ring_buffer_init bs m"
    using bs by (simp add: ring_buffer_alloc_def Let_def m_def)
  have refuse: "m = 0" if "unat n = 0 \<or> 2 ^ 31 < unat n"
  proof (cases "n AND (n - 1) \<noteq> 0")
    case True
    with roundup_u32 [of n] that have "unat m = 0" by (auto simp: m_def)
    then show ?thesis by (simp only: unat_eq_zero)
  next
    case False
    have "\<not> is_power_of_2 n"
    proof
      assume "is_power_of_2 n"
      then obtain k where "k < 32" "unat n = 2 ^ k" using is_power_of_2D by blast
      moreover have "(2::nat) ^ k \<le> 2 ^ 31" using \<open>k < 32\<close> by (intro power_increasing) auto
      ultimately show False using that by auto
    qed
    with False have "n = 0" by (simp add: is_power_of_2_def)
    with False show ?thesis by (simp add: m_def)
  qed
  have grant: "is_power_of_2 m \<and> unat n \<le> unat m \<and> unat m < 2 * unat n"
    if "0 < unat n" "unat n \<le> 2 ^ 31"
  proof (cases "n AND (n - 1) \<noteq> 0")
    case True
    with roundup_u32 [of n] that have "unat m = 2 ^ nat (fls (n - 1))" "unat n \<le> unat m" "unat m < 2 * unat n"
      by (auto simp: m_def)
    with is_power_of_2I show ?thesis by blast
  next
    case False
    with that show ?thesis by (auto simp: m_def is_power_of_2_def)
  qed
  show ?thesis
    using grant refuse bs
    by (auto simp: alloc ring_buffer_init_def rb_inv_def ring_buffer_len_def ring_buffer_len'_def
        is_power_of_2_def)
qed

theorem ring_buffer_alloc_rounds_witness:
  "\<exists>rb. ring_buffer_alloc (\<lambda>k. Some (replicate (unat k) 0)) 5 = Some rb \<and> rb_inv rb \<and>
     ring_buffer_len rb = 0 \<and> unat (5 :: u32) \<le> unat (rb_size rb) \<and> unat (rb_size rb) < 2 * unat (5 :: u32)"
  using ring_buffer_alloc_rounds [of "\<lambda>k. Some (replicate (unat k) 0)" 5] by simp

end
