(* ===== verification/Fifo_Spec.thy ===== *)
theory Fifo_Spec
  imports Prelude
begin

text \<open>
  The contract of the queues of the system: an abstraction to the list of waiting items, a
  \<open>push\<close> that may refuse, a \<open>pop\<close> that fails exactly on an empty queue. The client lemma runs any
  interleaving of pushes and pops: what went in is, in order, what came out followed by what still
  waits. It is interpreted by the fixed-size cycle queue, by the linked message queue of the navigation
  threads and by the message queue of the event service.
\<close>

datatype 'a fifo_op = Push 'a | Pop

fun fifo_run :: "('a \<Rightarrow> 'q \<Rightarrow> 'q option) \<Rightarrow> ('q \<Rightarrow> ('a \<times> 'q) option) \<Rightarrow> 'a fifo_op list \<Rightarrow> 'q
    \<Rightarrow> 'a list \<times> 'a list \<times> 'q" where
  "fifo_run push pop [] q = ([], [], q)"
| "fifo_run push pop (Push x # ops) q =
     (case push x q of
        None \<Rightarrow> fifo_run push pop ops q
      | Some q' \<Rightarrow> (case fifo_run push pop ops q' of (acc, out, r) \<Rightarrow> (x # acc, out, r)))"
| "fifo_run push pop (Pop # ops) q =
     (case pop q of
        None \<Rightarrow> fifo_run push pop ops q
      | Some (x, q') \<Rightarrow> (case fifo_run push pop ops q' of (acc, out, r) \<Rightarrow> (acc, x # out, r)))"

locale fifo =
  fixes invar :: "'q \<Rightarrow> bool"
    and items :: "'q \<Rightarrow> 'a list"
    and push :: "'a \<Rightarrow> 'q \<Rightarrow> 'q option"
    and pop :: "'q \<Rightarrow> ('a \<times> 'q) option"
  assumes push_invar: "invar q \<Longrightarrow> push x q = Some q' \<Longrightarrow> invar q'"
    and push_items: "invar q \<Longrightarrow> push x q = Some q' \<Longrightarrow> items q' = items q @ [x]"
    and pop_invar: "invar q \<Longrightarrow> pop q = Some (x, q') \<Longrightarrow> invar q'"
    and pop_items: "invar q \<Longrightarrow> pop q = Some (x, q') \<Longrightarrow> items q = x # items q'"
    and pop_None: "invar q \<Longrightarrow> pop q = None \<longleftrightarrow> items q = []"
begin

lemma run_fifo:
  "invar q \<Longrightarrow> fifo_run push pop ops q = (acc, out, q') \<Longrightarrow>
     invar q' \<and> items q @ acc = out @ items q'"
proof (induction ops arbitrary: q acc out)
  case Nil
  then show ?case by simp
next
  case (Cons op ops)
  show ?case
  proof (cases op)
    case (Push x)
    show ?thesis
    proof (cases "push x q")
      case None
      with Cons Push show ?thesis by simp
    next
      case (Some q1)
      from Cons.prems(2) Push Some obtain acc1
        where r: "fifo_run push pop ops q1 = (acc1, out, q')" and acc: "acc = x # acc1"
        by (auto split: prod.splits)
      from Cons.IH [OF push_invar [OF Cons.prems(1) Some] r] push_items [OF Cons.prems(1) Some] acc
      show ?thesis by simp
    qed
  next
    case Pop
    show ?thesis
    proof (cases "pop q")
      case None
      with Cons Pop show ?thesis by simp
    next
      case (Some p)
      obtain x q1 where p: "p = (x, q1)" by (cases p)
      from Cons.prems(2) Pop Some p obtain out1
        where r: "fifo_run push pop ops q1 = (acc, out1, q')" and out: "out = x # out1"
        by (auto split: prod.splits)
      from Cons.IH [OF pop_invar [OF Cons.prems(1) Some [unfolded p]] r]
        pop_items [OF Cons.prems(1) Some [unfolded p]] out
      show ?thesis by simp
    qed
  qed
qed

end

end
