(* ===== verification/Cycle_Queue.thy ===== *)
theory Cycle_Queue
  imports Fifo_Spec
begin

text \<open>
  The fixed-size queue template \<open>CycleQueue<T, S>\<close> of \<open>lib_bsp/eventservice/base/cyclequeue.h\<close>. The
  template argument \<open>S\<close> is a parameter; an array of \<open>S\<close> slots holds at most \<open>S - 1\<close> items. The
  indices stay in \<open>0 ..< S\<close>, so the sums of the code never leave the range of \<open>int32\<close> for
  \<open>S < 2 ^ 30\<close> and are natural numbers here.
\<close>

record 'a CycleQueue =
  cq_queue :: "'a list"
  cq_head :: nat
  cq_tail :: nat

text \<open>The constructor leaves the array uninitialised: its contents are a parameter.\<close>

definition cq_new :: "'a list \<Rightarrow> 'a CycleQueue" where
  "cq_new mem = \<lparr>cq_queue = mem, cq_head = 0, cq_tail = 0\<rparr>"

definition cq_empty :: "'a CycleQueue \<Rightarrow> bool" where
  "cq_empty q \<longleftrightarrow> cq_head q = cq_tail q"

definition cq_size :: "nat \<Rightarrow> 'a CycleQueue \<Rightarrow> nat" where
  "cq_size S q = (cq_tail q + S - cq_head q) mod S"

definition cq_push :: "nat \<Rightarrow> 'a \<Rightarrow> bool \<Rightarrow> 'a CycleQueue \<Rightarrow> bool \<times> 'a CycleQueue" where
  "cq_push S a force q =
     (let full = (cq_tail q + S - cq_head q) mod S = S - 1
      in if full \<and> \<not> force then (False, q)
         else
           let q1 = (if full then q\<lparr>cq_head := (cq_head q + 1) mod S\<rparr> else q)
           in (True, q1\<lparr>cq_queue := (cq_queue q1)[cq_tail q1 := a], cq_tail := (cq_tail q1 + 1) mod S\<rparr>))"

definition cq_pop :: "nat \<Rightarrow> 'a CycleQueue \<Rightarrow> bool \<times> 'a CycleQueue" where
  "cq_pop S q =
     (if (cq_tail q + S - cq_head q) mod S = 0 then (False, q)
      else (True, q\<lparr>cq_head := (cq_head q + 1) mod S\<rparr>))"

definition cq_top :: "nat \<Rightarrow> 'a CycleQueue \<Rightarrow> 'a" where
  "cq_top S q = cq_queue q ! (cq_head q mod S)"

section \<open>Invariant and abstraction\<close>

definition cq_inv :: "nat \<Rightarrow> 'a CycleQueue \<Rightarrow> bool" where
  "cq_inv S q \<longleftrightarrow> length (cq_queue q) = S \<and> cq_head q < S \<and> cq_tail q < S"

definition cq_items :: "nat \<Rightarrow> 'a CycleQueue \<Rightarrow> 'a list" where
  "cq_items S q = map (\<lambda>i. cq_queue q ! ((cq_head q + i) mod S)) [0..<cq_size S q]"

lemma tail_from_size: "cq_inv S q \<Longrightarrow> cq_tail q = (cq_head q + cq_size S q) mod S"
proof -
  assume "cq_inv S q"
  then have "cq_head q < S" "cq_tail q < S" by (auto simp: cq_inv_def)
  then show ?thesis
    unfolding cq_size_def mod_add_right_eq by simp
qed

lemma cq_size_less: "cq_inv S q \<Longrightarrow> cq_size S q < S"
  by (auto simp: cq_inv_def cq_size_def)

lemma length_cq_items [simp]: "length (cq_items S q) = cq_size S q"
  by (simp add: cq_items_def)

lemma cq_append:
  fixes a :: 'a and q :: "'a CycleQueue"
  assumes i: "cq_inv S q" and room: "cq_size S q < S - 1"
  defines "q' \<equiv> q\<lparr>cq_queue := (cq_queue q)[cq_tail q := a], cq_tail := (cq_tail q + 1) mod S\<rparr>"
  shows "cq_inv S q' \<and> cq_items S q' = cq_items S q @ [a]"
proof -
  let ?n = "cq_size S q"
  have h: "cq_head q < S" "length (cq_queue q) = S" "cq_tail q < S" using i by (auto simp: cq_inv_def)
  have t: "cq_tail q = (cq_head q + ?n) mod S" by (rule tail_from_size [OF i])
  have "cq_tail q' = (cq_head q + Suc ?n) mod S" unfolding q'_def t by (simp add: mod_Suc_eq)
  then have n: "cq_size S q' = Suc ?n"
    using h room ring_dist [of "cq_head q" S "Suc ?n"] by (simp add: cq_size_def q'_def)
  have "cq_queue q' ! ((cq_head q + j) mod S) = cq_queue q ! ((cq_head q + j) mod S)" if "j < ?n" for j
  proof -
    have "(cq_head q + j) mod S \<noteq> cq_tail q"
      using ring_inj [of "cq_head q" S j ?n] that h(1) room cq_size_less [OF i] t by (metis less_trans less_irrefl)
    then show ?thesis by (simp add: q'_def)
  qed
  moreover have "cq_queue q' ! ((cq_head q + ?n) mod S) = a"
    unfolding t [symmetric] using h by (simp add: q'_def)
  ultimately have "cq_items S q' = cq_items S q @ [a]"
    by (simp add: cq_items_def n) (simp add: q'_def)
  then show ?thesis using h by (simp add: cq_inv_def q'_def)
qed

lemma cq_drop:
  assumes i: "cq_inv S q" and some: "0 < cq_size S q"
  defines "q' \<equiv> q\<lparr>cq_head := (cq_head q + 1) mod S\<rparr>"
  shows "cq_inv S q' \<and> cq_items S q = cq_top S q # cq_items S q' \<and> cq_size S q' = cq_size S q - 1"
proof -
  obtain m where m: "cq_size S q = Suc m" using some by (cases "cq_size S q") auto
  have h: "cq_head q < S" "length (cq_queue q) = S" "cq_tail q < S" using i by (auto simp: cq_inv_def)
  have "cq_tail q = ((cq_head q + 1) mod S + m) mod S"
    using tail_from_size [OF i] m by (simp add: mod_add_left_eq)
  then have n: "cq_size S q' = m"
    using ring_dist [of "(cq_head q + 1) mod S" S m] h cq_size_less [OF i] m
    by (simp add: cq_size_def q'_def)
  have "cq_items S q = cq_queue q ! (cq_head q mod S) # map (\<lambda>i. cq_queue q ! ((cq_head q + i) mod S)) [1..<Suc m]"
    by (simp add: cq_items_def m upt_conv_Cons del: upt_Suc)
  also have "map (\<lambda>i. cq_queue q ! ((cq_head q + i) mod S)) [1..<Suc m] =
      map (\<lambda>i. cq_queue q ! (((cq_head q + 1) mod S + i) mod S)) [0..<m]"
    by (rule nth_equalityI) (auto simp: mod_add_left_eq simp del: upt_Suc)
  finally show ?thesis using h n m by (simp add: cq_items_def cq_top_def q'_def cq_inv_def)
qed

lemma cq_push_step:
  assumes i: "cq_inv S q" and S: "2 \<le> S" and p: "cq_push S a force q = (ok, q')"
  shows "cq_inv S q' \<and>
    ok = (length (cq_items S q) < S - 1 \<or> force) \<and>
    cq_items S q' =
      (if length (cq_items S q) < S - 1 then cq_items S q @ [a]
       else if force then tl (cq_items S q) @ [a] else cq_items S q)"
proof (cases "cq_size S q = S - 1")
  case True
  let ?q1 = "q\<lparr>cq_head := (cq_head q + 1) mod S\<rparr>"
  have d: "cq_inv S ?q1" "cq_items S q = cq_top S q # cq_items S ?q1" "cq_size S ?q1 < S - 1"
    using cq_drop [OF i] True S by auto
  show ?thesis
  proof (cases force)
    case f: True
    then have "q' = ?q1\<lparr>cq_queue := (cq_queue ?q1)[cq_tail ?q1 := a], cq_tail := (cq_tail ?q1 + 1) mod S\<rparr>" "ok"
      using p True by (auto simp: cq_push_def cq_size_def Let_def)
    moreover have "tl (cq_items S q) = cq_items S ?q1" using d(2) by simp
    ultimately show ?thesis using cq_append [OF d(1,3), of a] True f by simp
  next
    case False
    then show ?thesis using p True i by (auto simp: cq_push_def cq_size_def Let_def)
  qed
next
  case False
  then have room: "cq_size S q < S - 1" using cq_size_less [OF i] S by simp
  then have "q' = q\<lparr>cq_queue := (cq_queue q)[cq_tail q := a], cq_tail := (cq_tail q + 1) mod S\<rparr>" "ok"
    using p False by (auto simp: cq_push_def cq_size_def Let_def)
  with cq_append [OF i room, of a] room show ?thesis by simp
qed

text \<open>
  Every push refines the bounded list: it appends when there is room; on a full queue it
  refuses, or with \<open>force\<close> drops the oldest item and appends; the invariant is kept.
\<close>

theorem cq_push_refines:
  assumes i: "cq_inv S q" and S: "2 \<le> S" and p: "cq_push S a force q = (ok, q')"
  shows "cq_inv S q' \<and>
    ok = (length (cq_items S q) < S - 1 \<or> force) \<and>
    cq_items S q' =
      (if length (cq_items S q) < S - 1 then cq_items S q @ [a]
       else if force then tl (cq_items S q) @ [a] else cq_items S q)"
  using assms by (rule cq_push_step)

theorem cq_push_refines_witness:
  "cq_items 3 (snd (cq_push 3 9 True (snd (cq_push 3 8 False (snd (cq_push 3 (7::nat) False
     (cq_new [0, 0, 0]))))))) = [8, 9]"
proof -
  let ?q = "\<lparr>cq_queue = [7, 8, 0], cq_head = 0, cq_tail = 2\<rparr> :: nat CycleQueue"
  have q: "snd (cq_push 3 8 False (snd (cq_push 3 (7::nat) False (cq_new [0, 0, 0])))) = ?q"
    by (simp add: cq_push_def cq_new_def)
  obtain ok q' where p: "cq_push 3 9 True ?q = (ok, q')" by (cases "cq_push 3 9 True ?q")
  have "cq_inv 3 ?q" by (simp add: cq_inv_def)
  moreover have "cq_items 3 ?q = [7, 8]" by code_simp
  ultimately have "cq_items 3 q' = [8, 9]" using cq_push_refines [OF _ _ p] by simp
  then show ?thesis by (simp add: q p)
qed

section \<open>The queue contract\<close>

definition cq_offer :: "nat \<Rightarrow> 'a \<Rightarrow> 'a CycleQueue \<Rightarrow> 'a CycleQueue option" where
  "cq_offer S a q = (case cq_push S a False q of (ok, q') \<Rightarrow> if ok then Some q' else None)"

definition cq_poll :: "nat \<Rightarrow> 'a CycleQueue \<Rightarrow> ('a \<times> 'a CycleQueue) option" where
  "cq_poll S q = (case cq_pop S q of (ok, q') \<Rightarrow> if ok then Some (cq_top S q, q') else None)"

interpretation cqf: fifo "\<lambda>q. 2 \<le> S \<and> cq_inv S q" "cq_items S" "cq_offer S" "cq_poll S" for S
proof
  fix q q' :: "'a CycleQueue" and x :: 'a
  assume i: "2 \<le> S \<and> cq_inv S q" and o: "cq_offer S x q = Some q'"
  obtain ok q1 where p: "cq_push S x False q = (ok, q1)" by fastforce
  with o have "ok" "q1 = q'" by (auto simp: cq_offer_def split: if_splits)
  with cq_push_step [OF conjunct2 [OF i] conjunct1 [OF i] p] i
  show "2 \<le> S \<and> cq_inv S q'" "cq_items S q' = cq_items S q @ [x]" by auto
next
  fix q q' :: "'a CycleQueue" and x :: 'a
  assume i: "2 \<le> S \<and> cq_inv S q" and o: "cq_poll S q = Some (x, q')"
  then have "0 < cq_size S q" "x = cq_top S q" "q' = q\<lparr>cq_head := (cq_head q + 1) mod S\<rparr>"
    by (auto simp: cq_poll_def cq_pop_def cq_size_def split: if_splits)
  with cq_drop [OF conjunct2 [OF i]] i
  show "2 \<le> S \<and> cq_inv S q'" "cq_items S q = x # cq_items S q'" by auto
next
  fix q :: "'a CycleQueue"
  assume i: "2 \<le> S \<and> cq_inv S q"
  show "(cq_poll S q = None) = (cq_items S q = [])"
    by (simp add: cq_poll_def cq_pop_def cq_items_def cq_size_def)
qed

text \<open>
  Any interleaving of (non-forced) pushes and of reads of \<open>top\<close> followed by \<open>pop\<close> on a fresh
  queue delivers the accepted items in the order they were pushed, and never more than were accepted.
\<close>

theorem cq_fifo_order:
  assumes "2 \<le> S" "length mem = S" "fifo_run (cq_offer S) (cq_poll S) ops (cq_new mem) = (acc, out, q')"
  shows "acc = out @ cq_items S q' \<and> cq_inv S q'"
proof -
  have "2 \<le> S \<and> cq_inv S (cq_new mem)" "cq_items S (cq_new mem) = []"
    using assms(1,2) by (auto simp: cq_inv_def cq_new_def cq_items_def cq_size_def)
  then show ?thesis using cqf.run_fifo [OF _ assms(3)] by simp
qed

theorem cq_fifo_order_witness:
  "\<exists>q'. fifo_run (cq_offer 3) (cq_poll 3) [Push 1, Push 2, Push 3, Pop, Push (4::nat)] (cq_new [0, 0, 0])
     = ([1, 2, 4], [1], q') \<and> [1, 2, 4] = [1] @ cq_items 3 q' \<and> cq_inv 3 q'"
proof -
  have "fifo_run (cq_offer 3) (cq_poll 3) [Push 1, Push 2, Push 3, Pop, Push (4::nat)] (cq_new [0, 0, 0])
     = ([1, 2, 4], [1], \<lparr>cq_queue = [1, 2, 4], cq_head = 1, cq_tail = 0\<rparr>)"
    by (simp add: cq_offer_def cq_poll_def cq_push_def cq_pop_def cq_top_def cq_new_def)
  then show ?thesis using cq_fifo_order [of 3 "[0, 0, 0]"] by fastforce
qed

end
