(* ===== verification/Msg_Queue.thy ===== *)
theory Msg_Queue
  imports Fifo_Spec
begin

text \<open>
  The linked message queue between the navigation threads,
  \<open>lib_app/robot_schedule/socket/msgqueue.cpp\<close>. The nodes live in an explicit store from addresses
  to nodes; \<open>malloc\<close> hands out the next unused address or fails; nodes are never freed, as in the
  code. Following a null or dangling pointer is \<open>Inl NullPointer\<close>.
\<close>

type_synonym addr = nat

record MSG_STRUCT =
  msg_id :: byte
  msg_type :: byte
  msg_data :: "byte list"

definition NULL_TYPE :: byte where
  "NULL_TYPE = 6"

record QUEUE_NODE =
  qn_node :: MSG_STRUCT
  qn_next :: "addr option"

record MSGQUEUE =
  mq_front :: "addr option"
  mq_rear :: "addr option"
  mq_store :: "addr \<rightharpoonup> QUEUE_NODE"
  mq_brk :: addr

definition init_queue :: "MSGQUEUE \<Rightarrow> MSGQUEUE" where
  "init_queue que = que\<lparr>mq_front := None, mq_rear := None\<rparr>"

definition queue_empty :: "MSGQUEUE \<Rightarrow> bool" where
  "queue_empty que \<longleftrightarrow> mq_front que = None \<and> mq_rear que = None"

definition set_next :: "MSGQUEUE \<Rightarrow> addr \<Rightarrow> addr option \<Rightarrow> mem_error + MSGQUEUE" where
  "set_next que a nx =
     (case mq_store que a of
        None \<Rightarrow> Inl NullPointer
      | Some n \<Rightarrow> Inr (que\<lparr>mq_store := (mq_store que)(a \<mapsto> n\<lparr>qn_next := nx\<rparr>)\<rparr>))"

text \<open>\<open>enqueue\<close>; \<open>ok\<close> says whether \<open>malloc\<close> succeeded.\<close>

definition enqueue :: "bool \<Rightarrow> MSG_STRUCT \<Rightarrow> MSGQUEUE \<Rightarrow> mem_error + MSGQUEUE" where
  "enqueue ok msg que =
     (if \<not> ok then Inr que
      else
        let a = mq_brk que;
            que1 = que\<lparr>mq_store := (mq_store que)(a \<mapsto> \<lparr>qn_node = msg, qn_next = None\<rparr>),
                      mq_brk := a + 1\<rparr>;
            linked = (if mq_front que1 = None \<and> mq_rear que1 = None
                      then Inr (que1\<lparr>mq_front := Some a, mq_rear := Some a\<rparr>)
                      else (case mq_rear que1 of
                              None \<Rightarrow> Inl NullPointer
                            | Some rearold \<Rightarrow> set_next (que1\<lparr>mq_rear := Some a\<rparr>) rearold (Some a)))
        in case linked of Inl e \<Rightarrow> Inl e | Inr que2 \<Rightarrow> set_next que2 a None)"

text \<open>
  \<open>dequeue\<close> in the two parts that the code executes: \<open>dequeue_read\<close> up to the copy of the first node
  and its successor, \<open>dequeue_write\<close> the assignment of the new front. \<open>junk\<close> is the uninitialised
  local node, whose type alone is set.
\<close>

datatype deq_local = DeqNone | DeqLast QUEUE_NODE | DeqFirst QUEUE_NODE

definition dequeue_read :: "MSGQUEUE \<Rightarrow> mem_error + deq_local" where
  "dequeue_read que =
     (if queue_empty que then Inr DeqNone
      else (case mq_front que of
              None \<Rightarrow> Inl NullPointer
            | Some f \<Rightarrow>
           (case mq_store que f of
              None \<Rightarrow> Inl NullPointer
            | Some n \<Rightarrow> Inr (if mq_front que = mq_rear que then DeqLast n else DeqFirst n))))"

definition dequeue_write :: "MSG_STRUCT \<Rightarrow> deq_local \<Rightarrow> MSGQUEUE \<Rightarrow> mem_error + (MSG_STRUCT \<times> MSGQUEUE)" where
  "dequeue_write junk l que =
     (case l of
        DeqNone \<Rightarrow> Inr (junk\<lparr>msg_type := NULL_TYPE\<rparr>, que)
      | DeqLast n \<Rightarrow> Inr (qn_node n, que\<lparr>mq_front := None, mq_rear := None\<rparr>)
      | DeqFirst n \<Rightarrow>
          (if mq_front que = mq_rear que then Inr (qn_node n, que\<lparr>mq_front := mq_rear que\<rparr>)
           else (case qn_next n of
                   None \<Rightarrow> Inl NullPointer
                 | Some second \<Rightarrow>
                (case mq_store que second of
                   None \<Rightarrow> Inl NullPointer
                 | Some n2 \<Rightarrow>
                (case set_next (que\<lparr>mq_front := Some second\<rparr>) second (qn_next n2) of
                   Inl e \<Rightarrow> Inl e
                 | Inr que' \<Rightarrow> Inr (qn_node n, que'))))))"

definition dequeue :: "MSG_STRUCT \<Rightarrow> MSGQUEUE \<Rightarrow> mem_error + (MSG_STRUCT \<times> MSGQUEUE)" where
  "dequeue junk que =
     (case dequeue_read que of Inl e \<Rightarrow> Inl e | Inr l \<Rightarrow> dequeue_write junk l que)"

section \<open>Chains of nodes\<close>

fun first_of :: "addr list \<Rightarrow> addr option" where
  "first_of [] = None"
| "first_of (a # as) = Some a"

fun chain :: "(addr \<rightharpoonup> QUEUE_NODE) \<Rightarrow> addr list \<Rightarrow> MSG_STRUCT list \<Rightarrow> bool" where
  "chain h [] [] \<longleftrightarrow> True"
| "chain h (a # as) (m # ms) \<longleftrightarrow>
     h a = Some \<lparr>qn_node = m, qn_next = first_of as\<rparr> \<and> chain h as ms"
| "chain h _ _ \<longleftrightarrow> False"

fun walk :: "nat \<Rightarrow> (addr \<rightharpoonup> QUEUE_NODE) \<Rightarrow> addr option \<Rightarrow> MSG_STRUCT list" where
  "walk 0 h p = []"
| "walk (Suc k) h None = []"
| "walk (Suc k) h (Some a) =
     (case h a of None \<Rightarrow> [] | Some n \<Rightarrow> qn_node n # walk k h (qn_next n))"

definition last_of :: "addr list \<Rightarrow> addr option" where
  "last_of as = (if as = [] then None else Some (last as))"

definition mq_rep :: "MSGQUEUE \<Rightarrow> addr list \<Rightarrow> MSG_STRUCT list \<Rightarrow> bool" where
  "mq_rep que as ms \<longleftrightarrow> mq_front que = first_of as \<and> mq_rear que = last_of as
     \<and> chain (mq_store que) as ms \<and> distinct as \<and> set as \<subseteq> {..<mq_brk que}"

definition mq_inv :: "MSGQUEUE \<Rightarrow> bool" where
  "mq_inv que \<longleftrightarrow> (\<exists>as ms. mq_rep que as ms)"

text \<open>The waiting messages: follow the links, at most once per allocated node.\<close>

definition mq_items :: "MSGQUEUE \<Rightarrow> MSG_STRUCT list" where
  "mq_items que = walk (Suc (mq_brk que)) (mq_store que) (mq_front que)"

lemma walk_chain: "chain h as ms \<Longrightarrow> length as < k \<Longrightarrow> walk k h (first_of as) = ms"
proof (induction as arbitrary: ms k)
  case Nil
  then show ?case by (cases k; cases ms) auto
next
  case (Cons a as)
  then obtain m ms' k' where ms: "ms = m # ms'" "k = Suc k'"
    by (cases ms; cases k) auto
  with Cons.prems have "chain h as ms'" "length as < k'" by auto
  from Cons.IH [OF this] Cons.prems ms show ?case by auto
qed

lemma mq_items_rep: "mq_rep que as ms \<Longrightarrow> mq_items que = ms"
proof -
  assume r: "mq_rep que as ms"
  then have "card (set as) \<le> card {..<mq_brk que}" by (intro card_mono) (auto simp: mq_rep_def)
  with r have "length as < Suc (mq_brk que)" by (auto simp: mq_rep_def distinct_card)
  with r walk_chain [of "mq_store que" as ms "Suc (mq_brk que)"]
  show ?thesis by (simp add: mq_rep_def mq_items_def del: walk.simps)
qed

lemma chain_frame: "chain h as ms \<Longrightarrow> (\<And>a. a \<in> set as \<Longrightarrow> h' a = h a) \<Longrightarrow> chain h' as ms"
  by (induction h as ms rule: chain.induct) auto

lemma chain_snoc:
  "chain h as ms \<Longrightarrow> as \<noteq> [] \<Longrightarrow> distinct (as @ [b]) \<Longrightarrow> h (last as) = Some n \<Longrightarrow>
     chain (h(b \<mapsto> \<lparr>qn_node = m, qn_next = None\<rparr>, last as \<mapsto> n\<lparr>qn_next := Some b\<rparr>)) (as @ [b]) (ms @ [m])"
proof (induction as arbitrary: ms)
  case Nil
  then show ?case by simp
next
  case (Cons a as)
  obtain m1 ms1 where ms: "ms = m1 # ms1" using Cons.prems(1) by (cases ms) auto
  show ?case
  proof (cases "as = []")
    case True
    with Cons.prems ms show ?thesis by (cases ms1) auto
  next
    case False
    with Cons.prems ms have "chain h as ms1" "distinct (as @ [b])" "h (last as) = Some n"
      by auto
    from Cons.IH [OF this(1) False this(2,3)] False Cons.prems ms
    show ?thesis by (cases as) auto
  qed
qed

lemma chain_last: "chain h as ms \<Longrightarrow> as \<noteq> [] \<Longrightarrow> \<exists>n. h (last as) = Some n"
  by (induction h as ms rule: chain.induct) auto

lemma chain_length: "chain h as ms \<Longrightarrow> length ms = length as"
  by (induction h as ms rule: chain.induct) auto

section \<open>The operations on a represented queue\<close>

lemma enqueue_rep:
  assumes r: "mq_rep que as ms"
  shows "\<exists>que'. enqueue True m que = Inr que' \<and> mq_rep que' (as @ [mq_brk que]) (ms @ [m])"
proof (cases "as = []")
  case True
  with r have "ms = []" by (cases ms) (auto simp: mq_rep_def)
  with True show ?thesis using r
    by (auto simp: enqueue_def mq_rep_def last_of_def set_next_def Let_def)
next
  case False
  let ?b = "mq_brk que"
  from r False obtain n where n: "mq_store que (last as) = Some n"
    using chain_last unfolding mq_rep_def by blast
  have in_range: "last as < ?b" using r last_in_set [OF False] by (auto simp: mq_rep_def)
  then have l: "last as \<noteq> ?b" "?b \<notin> set as" "mq_front que = first_of as" "mq_rear que = Some (last as)"
    using r False in_range by (auto simp: mq_rep_def last_of_def)
  have c: "chain ((mq_store que)(?b \<mapsto> \<lparr>qn_node = m, qn_next = None\<rparr>, last as \<mapsto> n\<lparr>qn_next := Some ?b\<rparr>))
      (as @ [?b]) (ms @ [m])"
    using r False l n by (intro chain_snoc) (auto simp: mq_rep_def)
  have upd: "(mq_store que)(?b \<mapsto> x, last as \<mapsto> y, ?b \<mapsto> x) = (mq_store que)(?b \<mapsto> x, last as \<mapsto> y)" for x y
    using l(1) by auto
  have "enqueue True m que = Inr (que\<lparr>mq_rear := Some ?b, mq_brk := Suc ?b, mq_store :=
      (mq_store que)(?b \<mapsto> \<lparr>qn_node = m, qn_next = None\<rparr>, last as \<mapsto> n\<lparr>qn_next := Some ?b\<rparr>)\<rparr>)"
    using l n by (simp add: enqueue_def Let_def set_next_def upd)
  with c r l False show ?thesis
    by (cases as) (auto simp: mq_rep_def last_of_def)
qed

lemma dequeue_rep:
  assumes r: "mq_rep que (a # as) (m # ms)"
  shows "\<exists>que'. dequeue junk que = Inr (m, que') \<and> mq_rep que' as ms"
proof (cases as)
  case Nil
  with r show ?thesis
    by (auto simp: dequeue_def dequeue_read_def dequeue_write_def queue_empty_def mq_rep_def
        last_of_def)
next
  case (Cons b bs)
  with r obtain m2 ms2 nx where ms: "ms = m2 # ms2"
    and st: "mq_store que a = Some \<lparr>qn_node = m, qn_next = Some b\<rparr>"
      "mq_store que b = Some \<lparr>qn_node = m2, qn_next = nx\<rparr>"
    by (cases ms) (auto simp: mq_rep_def)
  have fr: "mq_front que = Some a" "mq_rear que = Some (last as)" "a \<noteq> last as"
    using r Cons by (auto simp: mq_rep_def last_of_def)
  have id: "(mq_store que)(b \<mapsto> \<lparr>qn_node = m2, qn_next = nx\<rparr>) = mq_store que" using st by auto
  have "dequeue junk que = Inr (m, que\<lparr>mq_front := Some b\<rparr>)"
    using st fr by (simp add: dequeue_def dequeue_read_def dequeue_write_def queue_empty_def set_next_def id)
  moreover have "mq_rep (que\<lparr>mq_front := Some b\<rparr>) as ms"
    using r Cons ms by (auto simp: mq_rep_def last_of_def)
  ultimately show ?thesis by blast
qed


section \<open>The queue contract\<close>

definition mq_offer :: "MSG_STRUCT \<Rightarrow> MSGQUEUE \<Rightarrow> MSGQUEUE option" where
  "mq_offer m que = (case enqueue True m que of Inl _ \<Rightarrow> None | Inr que' \<Rightarrow> Some que')"

definition mq_poll :: "MSG_STRUCT \<Rightarrow> MSGQUEUE \<Rightarrow> (MSG_STRUCT \<times> MSGQUEUE) option" where
  "mq_poll junk que =
     (if queue_empty que then None
      else case dequeue junk que of Inl _ \<Rightarrow> None | Inr r \<Rightarrow> Some r)"

lemma mq_rep_empty: "mq_rep que as ms \<Longrightarrow> queue_empty que \<longleftrightarrow> ms = []"
  by (cases as; cases ms) (auto simp: mq_rep_def queue_empty_def last_of_def)

lemma mq_poll_rep:
  "mq_rep que as ms \<Longrightarrow>
     (case ms of [] \<Rightarrow> mq_poll junk que = None
      | m # ms' \<Rightarrow> (\<exists>que'. mq_poll junk que = Some (m, que') \<and> mq_rep que' (tl as) ms'))"
proof -
  assume r: "mq_rep que as ms"
  show ?thesis
  proof (cases ms)
    case Nil
    then show ?thesis using mq_rep_empty [OF r] by (simp add: mq_poll_def)
  next
    case (Cons m ms')
    with r obtain a as' where "as = a # as'" by (cases as) (auto simp: mq_rep_def)
    with r Cons dequeue_rep [of que a as' m ms' junk] mq_rep_empty [OF r]
    show ?thesis by (auto simp: mq_poll_def)
  qed
qed

interpretation mqf: fifo mq_inv mq_items mq_offer "mq_poll junk" for junk
proof
  fix q q' x
  assume i: "mq_inv q" and o: "mq_offer x q = Some q'"
  then obtain as ms where r: "mq_rep q as ms" by (auto simp: mq_inv_def)
  with enqueue_rep [OF r, of x] o have r': "mq_rep q' (as @ [mq_brk q]) (ms @ [x])"
    by (auto simp: mq_offer_def)
  then show "mq_inv q'" by (auto simp: mq_inv_def)
  show "mq_items q' = mq_items q @ [x]" using mq_items_rep [OF r] mq_items_rep [OF r'] by simp
next
  fix q q' x
  assume i: "mq_inv q" and o: "mq_poll junk q = Some (x, q')"
  then obtain as ms where r: "mq_rep q as ms" by (auto simp: mq_inv_def)
  from mq_poll_rep [OF r, of junk] o obtain ms' where ms: "ms = x # ms'" "mq_rep q' (tl as) ms'"
    by (cases ms) auto
  then show "mq_inv q'" by (auto simp: mq_inv_def)
  show "mq_items q = x # mq_items q'"
    using ms mq_items_rep [OF r] mq_items_rep [OF ms(2)] by simp
next
  fix q
  assume "mq_inv q"
  then obtain as ms where r: "mq_rep q as ms" by (auto simp: mq_inv_def)
  show "(mq_poll junk q = None) = (mq_items q = [])"
    using mq_poll_rep [OF r, of junk] mq_items_rep [OF r] by (cases ms) auto
qed

definition mq_start :: MSGQUEUE where
  "mq_start = init_queue \<lparr>mq_front = None, mq_rear = None, mq_store = Map.empty, mq_brk = 0\<rparr>"

lemma mq_start_rep: "mq_rep mq_start [] []"
  by (simp add: mq_start_def init_queue_def mq_rep_def last_of_def)

lemma mq_offer_total: "mq_inv q \<Longrightarrow> \<exists>q'. mq_offer m q = Some q'"
proof -
  assume "mq_inv q"
  then obtain as ms where "mq_rep q as ms" by (auto simp: mq_inv_def)
  from enqueue_rep [OF this, of m] show ?thesis by (auto simp: mq_offer_def)
qed

lemma mq_run_accepts:
  "mq_inv q \<Longrightarrow> fifo_run mq_offer (mq_poll junk) ops q = (acc, out, q') \<Longrightarrow>
     acc = concat (map (\<lambda>op. case op of Push x \<Rightarrow> [x] | Pop \<Rightarrow> []) ops)"
proof (induction ops arbitrary: q acc out)
  case Nil
  then show ?case by simp
next
  case (Cons op ops)
  show ?case
  proof (cases op)
    case (Push x)
    with Cons.prems mq_offer_total obtain q1 where q1: "mq_offer x q = Some q1" by blast
    with Cons.prems Push show ?thesis
      using Cons.IH [OF mqf.push_invar [OF Cons.prems(1) q1]] by (auto split: prod.splits)
  next
    case Pop
    with Cons.prems show ?thesis
      using Cons.IH mqf.pop_invar [OF Cons.prems(1)]
      by (fastforce split: prod.splits option.splits)
  qed
qed

text \<open>
  C29. Started empty, and with every \<open>malloc\<close> succeeding, any sequence of enqueues and dequeues
  that do not overlap delivers the messages in the order they were enqueued; every enqueue is
  accepted, and no step follows a null pointer.
\<close>

theorem mq_fifo_order:
  assumes "fifo_run mq_offer (mq_poll junk) ops mq_start = (acc, out, q')"
  shows "acc = concat (map (\<lambda>op. case op of Push x \<Rightarrow> [x] | Pop \<Rightarrow> []) ops) \<and>
    acc = out @ mq_items q' \<and> mq_inv q'"
proof -
  have i: "mq_inv mq_start" using mq_start_rep by (auto simp: mq_inv_def)
  show ?thesis
    using mqf.run_fifo [OF i assms] mq_run_accepts [OF i assms] mq_items_rep [OF mq_start_rep]
    by simp
qed

theorem mq_fifo_order_witness:
  "\<exists>q'. fifo_run mq_offer (mq_poll \<lparr>msg_id = 0, msg_type = 0, msg_data = []\<rparr>)
      [Push \<lparr>msg_id = 1, msg_type = 3, msg_data = []\<rparr>, Push \<lparr>msg_id = 2, msg_type = 4, msg_data = []\<rparr>, Pop] mq_start
    = ([\<lparr>msg_id = 1, msg_type = 3, msg_data = []\<rparr>, \<lparr>msg_id = 2, msg_type = 4, msg_data = []\<rparr>],
       [\<lparr>msg_id = 1, msg_type = 3, msg_data = []\<rparr>], q') \<and>
    mq_items q' = [\<lparr>msg_id = 2, msg_type = 4, msg_data = []\<rparr>]"
proof -
  let ?j = "\<lparr>msg_id = 0, msg_type = 0, msg_data = []\<rparr> :: MSG_STRUCT"
  let ?m1 = "\<lparr>msg_id = 1, msg_type = 3, msg_data = []\<rparr> :: MSG_STRUCT"
  let ?m2 = "\<lparr>msg_id = 2, msg_type = 4, msg_data = []\<rparr> :: MSG_STRUCT"
  obtain q' where r: "fifo_run mq_offer (mq_poll ?j) [Push ?m1, Push ?m2, Pop] mq_start =
      ([?m1, ?m2], [?m1], q')"
    by (simp add: mq_offer_def mq_poll_def mq_start_def init_queue_def enqueue_def dequeue_def
        dequeue_read_def dequeue_write_def queue_empty_def set_next_def)
  from mq_fifo_order [OF r] have "[?m1, ?m2] = [?m1] @ mq_items q'" by (elim conjE)
  then have "mq_items q' = [?m2]" by (simp only: append_Cons append_Nil list.inject)
  with r show ?thesis by (intro exI conjI)
qed

text \<open>
  \<open>enqueue\<close> and \<open>dequeue\<close> take different locks, so an enqueue may run between the reading and
  the writing part of a dequeue. When one message waits, the message enqueued in that window is
  lost: the queue ends empty although the message was never delivered.
\<close>

theorem mq_race_loses_message:
  assumes "mq_rep que [a] [m1]"
  shows "\<exists>l que1 que2. dequeue_read que = Inr l \<and> enqueue True m2 que = Inr que1 \<and>
    dequeue_write junk l que1 = Inr (m1, que2) \<and> mq_items que1 = [m1, m2] \<and> mq_items que2 = []"
proof -
  have r: "dequeue_read que = Inr (DeqLast \<lparr>qn_node = m1, qn_next = None\<rparr>)"
    using assms by (auto simp: dequeue_read_def queue_empty_def mq_rep_def last_of_def)
  obtain que1 where e: "enqueue True m2 que = Inr que1" "mq_rep que1 ([a] @ [mq_brk que]) ([m1] @ [m2])"
    using enqueue_rep [OF assms, of m2] by blast
  then have "mq_items que1 = [m1, m2]" using mq_items_rep by fastforce
  moreover have "dequeue_write junk (DeqLast \<lparr>qn_node = m1, qn_next = None\<rparr>) que1 =
      Inr (m1, que1\<lparr>mq_front := None, mq_rear := None\<rparr>)"
    by (simp add: dequeue_write_def)
  moreover have "mq_items (que1\<lparr>mq_front := None, mq_rear := None\<rparr>) = []"
    by (simp add: mq_items_def)
  ultimately show ?thesis using r e(1) by blast
qed

theorem mq_race_loses_message_witness:
  "\<exists>que m1 m2 l que1 que2. enqueue True m1 mq_start = Inr que \<and> dequeue_read que = Inr l \<and>
     enqueue True m2 que = Inr que1 \<and> dequeue_write m1 l que1 = Inr (m1, que2) \<and>
     mq_items que1 = [m1, m2] \<and> mq_items que2 = []"
proof -
  let ?m = "\<lparr>msg_id = 1, msg_type = 3, msg_data = []\<rparr> :: MSG_STRUCT"
  obtain que where e: "enqueue True ?m mq_start = Inr que" "mq_rep que [0] [?m]"
    using enqueue_rep [OF mq_start_rep, of ?m] by (auto simp: mq_start_def init_queue_def)
  show ?thesis using e(1) mq_race_loses_message [OF e(2), of ?m ?m] by blast
qed

end
