(* ===== verification/Array_Heap.thy ===== *)
theory Array_Heap
  imports Prelude "HOL-Library.Multiset"
begin

text \<open>
  Binary heaps in an array, ordered by a key: the loops \<open>UpHeap\<close> and \<open>DownHeap\<close> of
  \<open>lib_app/robot_schedule/schedule/heap_timer.cpp\<close> on the bare array of entries, and the facts that
  they repair a heap whose order is broken at one position.
\<close>

definition swap_at :: "'a list \<Rightarrow> nat \<Rightarrow> nat \<Rightarrow> 'a list" where
  "swap_at xs i j = xs[i := xs ! j, j := xs ! i]"

definition parent :: "nat \<Rightarrow> nat" where
  "parent i = (i - 1) div 2"

lemma length_swap_at [simp]: "length (swap_at xs i j) = length xs"
  by (simp add: swap_at_def)

lemma nth_swap_at:
  "i < length xs \<Longrightarrow> j < length xs \<Longrightarrow> k < length xs \<Longrightarrow>
     swap_at xs i j ! k = (if k = j then xs ! i else if k = i then xs ! j else xs ! k)"
  by (auto simp: swap_at_def nth_list_update)

lemma swap_at_same [simp]: "swap_at xs i i = xs"
  by (simp add: swap_at_def)

lemma mset_swap_at [simp]: "i < length xs \<Longrightarrow> j < length xs \<Longrightarrow> mset (swap_at xs i j) = mset xs"
  unfolding swap_at_def by (rule mset_swap)

lemma set_swap_at [simp]: "i < length xs \<Longrightarrow> j < length xs \<Longrightarrow> set (swap_at xs i j) = set xs"
  by (metis mset_swap_at set_mset_mset)

lemma distinct_swap_at [simp]:
  "i < length xs \<Longrightarrow> j < length xs \<Longrightarrow> distinct (swap_at xs i j) = distinct xs"
  unfolding swap_at_def by (rule distinct_swap)

lemma parent_less: "0 < i \<Longrightarrow> parent i < i"
  by (simp add: parent_def)

lemma parent_eq_iff: "0 < j \<Longrightarrow> parent j = i \<longleftrightarrow> j = 2 * i + 1 \<or> j = 2 * i + 2"
  by (auto simp: parent_def)

section \<open>The loops\<close>

function up_heap :: "('a \<Rightarrow> nat) \<Rightarrow> 'a list \<Rightarrow> nat \<Rightarrow> 'a list" where
  "up_heap f xs i =
     (if 0 < i \<and> f (xs ! i) < f (xs ! parent i) then up_heap f (swap_at xs i (parent i)) (parent i)
      else xs)"
  by pat_completeness auto
termination by (relation "measure (\<lambda>(f, xs, i). i)") (auto simp: parent_less)

definition min_child :: "('a \<Rightarrow> nat) \<Rightarrow> 'a list \<Rightarrow> nat \<Rightarrow> nat" where
  "min_child f xs c = (if c + 1 = length xs \<or> f (xs ! c) < f (xs ! (c + 1)) then c else c + 1)"

function down_heap :: "('a \<Rightarrow> nat) \<Rightarrow> 'a list \<Rightarrow> nat \<Rightarrow> 'a list" where
  "down_heap f xs i =
     (if 2 * i + 1 < length xs
      then let m = min_child f xs (2 * i + 1)
           in if f (xs ! i) < f (xs ! m) then xs else down_heap f (swap_at xs i m) m
      else xs)"
  by pat_completeness auto
termination
  by (relation "measure (\<lambda>(f, xs, i). length xs - i)") (auto simp: min_child_def)

declare up_heap.simps [simp del] down_heap.simps [simp del]

section \<open>Heap order\<close>

definition is_heap :: "('a \<Rightarrow> nat) \<Rightarrow> 'a list \<Rightarrow> bool" where
  "is_heap f xs \<longleftrightarrow> (\<forall>j. 0 < j \<and> j < length xs \<longrightarrow> f (xs ! parent j) \<le> f (xs ! j))"

text \<open>The order may be broken between \<open>i\<close> and its parent only; between \<open>i\<close> and its children only.\<close>

definition heap_up_to :: "('a \<Rightarrow> nat) \<Rightarrow> 'a list \<Rightarrow> nat \<Rightarrow> bool" where
  "heap_up_to f xs i \<longleftrightarrow>
     (\<forall>j. 0 < j \<and> j < length xs \<and> j \<noteq> i \<longrightarrow> f (xs ! parent j) \<le> f (xs ! j)) \<and>
     (\<forall>j. 0 < j \<and> j < length xs \<and> parent j = i \<and> 0 < i \<longrightarrow> f (xs ! parent i) \<le> f (xs ! j))"

definition heap_down_from :: "('a \<Rightarrow> nat) \<Rightarrow> 'a list \<Rightarrow> nat \<Rightarrow> bool" where
  "heap_down_from f xs i \<longleftrightarrow>
     (\<forall>j. 0 < j \<and> j < length xs \<and> parent j \<noteq> i \<longrightarrow> f (xs ! parent j) \<le> f (xs ! j)) \<and>
     (\<forall>j. 0 < j \<and> j < length xs \<and> parent j = i \<and> 0 < i \<longrightarrow> f (xs ! parent i) \<le> f (xs ! j))"

lemma is_heap_min:
  assumes "is_heap f xs" "i < length xs"
  shows "f (xs ! 0) \<le> f (xs ! i)"
  using assms(2)
proof (induction i rule: less_induct)
  case (less i)
  show ?case
  proof (cases "i = 0")
    case False
    then have "f (xs ! 0) \<le> f (xs ! parent i)" using less parent_less [of i] by simp
    also have "\<dots> \<le> f (xs ! i)" using assms(1) less.prems False by (simp add: is_heap_def)
    finally show ?thesis .
  qed simp
qed

lemma heap_up_step:
  assumes h: "heap_up_to f xs i" and i: "0 < i" "i < length xs"
    and less: "f (xs ! i) < f (xs ! parent i)"
  shows "heap_up_to f (swap_at xs i (parent i)) (parent i)"
proof -
  let ?p = "parent i" and ?ys = "swap_at xs i (parent i)"
  have p: "?p < i" "?p < length xs" using parent_less [OF i(1)] i by auto
  have ys: "?ys ! k = (if k = ?p then xs ! i else if k = i then xs ! ?p else xs ! k)"
    if "k < length xs" for k using that p i by (simp add: nth_swap_at)
  have ord: "f (xs ! parent j) \<le> f (xs ! j)" if "0 < j" "j < length xs" "j \<noteq> i" for j
    using h that by (simp add: heap_up_to_def)
  have grand: "f (xs ! ?p) \<le> f (xs ! j)" if "0 < j" "j < length xs" "parent j = i" for j
    using h that i by (simp add: heap_up_to_def)
  have A: "f (?ys ! parent j) \<le> f (?ys ! j)" if j: "0 < j" "j < length xs" "j \<noteq> ?p" for j
  proof (cases "j = i")
    case True
    then show ?thesis using ys [of i] ys [of ?p] p i less by simp
  next
    case ji: False
    have pj: "parent j < length xs" using parent_less [OF j(1)] j by simp
    consider "parent j = ?p" | "parent j = i" | "parent j \<noteq> ?p" "parent j \<noteq> i" by blast
    then show ?thesis
    proof cases
      case 1
      then show ?thesis using ys [OF pj] ys [OF j(2)] ord [OF j(1,2) ji] less ji j by simp
    next
      case 2
      then show ?thesis using ys [OF pj] ys [OF j(2)] grand [OF j(1,2)] ji j p by simp
    next
      case 3
      then show ?thesis using ys [OF pj] ys [OF j(2)] ord [OF j(1,2) ji] ji j by simp
    qed
  qed
  have B: "f (?ys ! parent ?p) \<le> f (?ys ! j)"
    if j: "0 < j" "j < length xs" "parent j = ?p" and pp: "0 < ?p" for j
  proof -
    have q: "parent ?p < ?p" using parent_less [OF pp] .
    then have yq: "?ys ! parent ?p = xs ! parent ?p" using ys [of "parent ?p"] p by simp
    have o: "f (xs ! parent ?p) \<le> f (xs ! ?p)" using ord [of ?p] pp p by simp
    show ?thesis
    proof (cases "j = i")
      case True
      then show ?thesis using ys [of i] yq o i p by simp
    next
      case False
      moreover have "j \<noteq> ?p" using j q by auto
      ultimately have "?ys ! j = xs ! j" using ys [of j] j by simp
      then show ?thesis using yq o ord [OF j(1,2) False] j by simp
    qed
  qed
  show ?thesis using A B by (auto simp: heap_up_to_def)
qed

lemma up_heap_correct:
  "i < length xs \<Longrightarrow> heap_up_to f xs i \<Longrightarrow>
     is_heap f (up_heap f xs i) \<and> mset (up_heap f xs i) = mset xs"
proof (induction f xs i rule: up_heap.induct)
  case (1 f xs i)
  show ?case
  proof (cases "0 < i \<and> f (xs ! i) < f (xs ! parent i)")
    case True
    then have p: "parent i < length xs" using parent_less [of i] 1 by simp
    show ?thesis
      using 1 True heap_up_step [of f xs i] p by (simp add: up_heap.simps [of f xs i])
  next
    case False
    then have "is_heap f xs" using 1 by (auto simp: is_heap_def heap_up_to_def not_less)
    with False show ?thesis by (auto simp: up_heap.simps [of f xs i])
  qed
qed


lemma min_child_props:
  fixes f :: "'a \<Rightarrow> nat"
  assumes "2 * i + 1 < length xs"
  defines "m \<equiv> min_child f xs (2 * i + 1)"
  shows "m < length xs \<and> i < m \<and> parent m = i \<and>
    (\<forall>j. 0 < j \<and> j < length xs \<and> parent j = i \<longrightarrow> f (xs ! m) \<le> f (xs ! j))"
proof -
  have "m < length xs" "i < m" "parent m = i"
    using assms(1) by (auto simp: m_def min_child_def parent_def)
  moreover have "f (xs ! m) \<le> f (xs ! j)" if "0 < j" "j < length xs" "parent j = i" for j
    using that assms(1) by (auto simp: m_def min_child_def parent_eq_iff)
  ultimately show ?thesis by blast
qed

lemma heap_down_step:
  assumes h: "heap_down_from f xs i" and c: "2 * i + 1 < length xs"
    and ge: "\<not> f (xs ! i) < f (xs ! min_child f xs (2 * i + 1))"
  shows "heap_down_from f (swap_at xs i (min_child f xs (2 * i + 1))) (min_child f xs (2 * i + 1))"
proof -
  let ?m = "min_child f xs (2 * i + 1)"
  let ?ys = "swap_at xs i ?m"
  have m: "?m < length xs" "i < ?m" "parent ?m = i"
    and least: "\<And>j. 0 < j \<Longrightarrow> j < length xs \<Longrightarrow> parent j = i \<Longrightarrow> f (xs ! ?m) \<le> f (xs ! j)"
    using min_child_props [OF c, of f] by auto
  have ys: "?ys ! k = (if k = ?m then xs ! i else if k = i then xs ! ?m else xs ! k)"
    if "k < length xs" for k using that m by (simp add: nth_swap_at)
  have ord: "f (xs ! parent j) \<le> f (xs ! j)" if "0 < j" "j < length xs" "parent j \<noteq> i" for j
    using h that by (simp add: heap_down_from_def)
  have grand: "f (xs ! parent i) \<le> f (xs ! ?m)" if "0 < i"
    using h that m by (simp add: heap_down_from_def)
  have A: "f (?ys ! parent j) \<le> f (?ys ! j)" if j: "0 < j" "j < length xs" "parent j \<noteq> ?m" for j
  proof -
    have pj: "parent j < length xs" "parent j < j" using parent_less [OF j(1)] j by auto
    consider "j = i" | "j = ?m" | "j \<noteq> i" "j \<noteq> ?m" "parent j = i" | "j \<noteq> i" "j \<noteq> ?m" "parent j \<noteq> i"
      by blast
    then show ?thesis
    proof cases
      case 1
      then show ?thesis using ys [OF pj(1)] ys [OF j(2)] grand j pj m by simp
    next
      case 2
      then show ?thesis using ys [OF pj(1)] ys [OF j(2)] ge j pj m by simp
    next
      case 3
      then show ?thesis using ys [OF pj(1)] ys [OF j(2)] least [OF j(1,2)] j m by simp
    next
      case 4
      then show ?thesis using ys [OF pj(1)] ys [OF j(2)] ord [OF j(1,2)] j by simp
    qed
  qed
  have B: "f (?ys ! parent ?m) \<le> f (?ys ! j)" if j: "0 < j" "j < length xs" "parent j = ?m" for j
  proof -
    have "?m < j" using parent_less [OF j(1)] j by simp
    then have "?ys ! j = xs ! j" "?ys ! i = xs ! ?m" using ys [of j] ys [of i] j m by auto
    then show ?thesis using ord [OF j(1,2)] j m by simp
  qed
  show ?thesis using A B by (auto simp: heap_down_from_def)
qed

lemma down_heap_correct:
  "heap_down_from f xs i \<Longrightarrow>
     is_heap f (down_heap f xs i) \<and> mset (down_heap f xs i) = mset xs"
proof (induction f xs i rule: down_heap.induct)
  case (1 f xs i)
  let ?m = "min_child f xs (2 * i + 1)"
  show ?case
  proof (cases "2 * i + 1 < length xs")
    case c: True
    note m = min_child_props [OF c, of f]
    show ?thesis
    proof (cases "f (xs ! i) < f (xs ! ?m)")
      case True
      have "f (xs ! parent j) \<le> f (xs ! j)" if j: "0 < j" "j < length xs" for j
      proof (cases "parent j = i")
        case True
        with m j have "f (xs ! ?m) \<le> f (xs ! j)" by blast
        with \<open>f (xs ! i) < f (xs ! ?m)\<close> True show ?thesis by simp
      next
        case False
        with "1.prems" j show ?thesis by (simp add: heap_down_from_def)
      qed
      then have "is_heap f xs" by (simp add: is_heap_def)
      with True c show ?thesis by (simp add: down_heap.simps [of f xs i] Let_def)
    next
      case False
      with "1.IH" [OF c refl] heap_down_step [OF "1.prems" c] m c
      show ?thesis by (simp add: down_heap.simps [of f xs i] Let_def)
    qed
  next
    case False
    have "f (xs ! parent j) \<le> f (xs ! j)" if j: "0 < j" "j < length xs" for j
    proof -
      have "parent j \<noteq> i" using False j by (auto simp: parent_eq_iff)
      with "1.prems" j show ?thesis by (simp add: heap_down_from_def)
    qed
    then have "is_heap f xs" by (simp add: is_heap_def)
    with False show ?thesis by (auto simp: down_heap.simps [of f xs i])
  qed
qed

lemma heap_append: "is_heap f xs \<Longrightarrow> heap_up_to f (xs @ [x]) (length xs)"
proof -
  assume h: "is_heap f xs"
  have "parent j < length xs" if "0 < j" "j < length xs" for j
    using parent_less [OF that(1)] that by simp
  moreover have "parent j \<noteq> length xs" if "0 < j" "j < Suc (length xs)" for j
    using parent_less [OF that(1)] that by simp
  ultimately show ?thesis using h by (auto simp: heap_up_to_def is_heap_def nth_append)
qed

text \<open>Raising the key of one entry breaks the order towards its children at most.\<close>

lemma heap_raise_key:
  assumes h: "is_heap f xs" and d: "distinct xs" and i: "i < length xs" and le: "f (xs ! i) \<le> k"
  shows "heap_down_from (f(xs ! i := k)) xs i"
proof -
  have other: "(f(xs ! i := k)) (xs ! j) = (if j = i then k else f (xs ! j))" if "j < length xs" for j
    using d i that by (simp add: nth_eq_iff_index_eq)
  have pl: "parent j < length xs" if "0 < j" "j < length xs" for j
    using parent_less [OF that(1)] that by simp
  have ord: "f (xs ! parent j) \<le> f (xs ! j)" if "0 < j" "j < length xs" for j
    using h that by (simp add: is_heap_def)
  have "(f(xs ! i := k)) (xs ! parent j) \<le> (f(xs ! i := k)) (xs ! j)"
    if "0 < j" "j < length xs" "parent j \<noteq> i" for j
    using that other [of j] other [OF pl] ord [of j] le by auto
  moreover have "(f(xs ! i := k)) (xs ! parent i) \<le> (f(xs ! i := k)) (xs ! j)"
    if "0 < j" "j < length xs" "parent j = i" "0 < i" for j
    using that other [of j] other [OF pl [OF that(4) i]] ord [of j] ord [OF that(4) i]
      parent_less [of i] parent_less [of j] by auto
  ultimately show ?thesis by (simp add: heap_down_from_def)
qed

text \<open>
  Removing position \<open>i\<close> by moving the last entry there: the order is broken at \<open>i\<close> only, upwards
  when the moved entry is below its new parent, otherwise downwards.
\<close>

lemma heap_remove:
  assumes h: "is_heap f xs" and i: "i < length xs - 1"
  defines "ys \<equiv> butlast (swap_at xs i (length xs - 1))"
  shows "(0 < i \<and> f (ys ! i) < f (ys ! parent i) \<longrightarrow> heap_up_to f ys i) \<and>
    (\<not> (0 < i \<and> f (ys ! i) < f (ys ! parent i)) \<longrightarrow> heap_down_from f ys i)"
proof -
  have len: "length ys = length xs - 1" by (simp add: ys_def)
  have ne: "xs \<noteq> []" using i by auto
  have ys: "ys ! k = (if k = i then last xs else xs ! k)" if "k < length ys" for k
    using that i by (auto simp: ys_def nth_butlast nth_swap_at last_conv_nth [OF ne])
  have ord: "f (xs ! parent j) \<le> f (xs ! j)" if "0 < j" "j < length ys" for j
    using h that len by (simp add: is_heap_def)
  have pl: "parent j < length ys" "parent j < j" if "0 < j" "j < length ys" for j
    using parent_less [OF that(1)] that by auto
  have A: "f (ys ! parent j) \<le> f (ys ! j)" if "0 < j" "j < length ys" "j \<noteq> i" "parent j \<noteq> i" for j
    using that ys [of j] ys [OF pl(1) [OF that(1,2)]] ord [of j] by simp
  have B: "f (ys ! parent i) \<le> f (ys ! j)" if "0 < j" "j < length ys" "parent j = i" "0 < i" for j
  proof -
    have "f (xs ! parent i) \<le> f (xs ! j)" using ord [of j] ord [of i] that i len by force
    then show ?thesis using ys [of j] ys [of "parent i"] pl [of i] pl [of j] that i len by auto
  qed
  show ?thesis
  proof (cases "0 < i \<and> f (ys ! i) < f (ys ! parent i)")
    case True
    have "f (ys ! parent j) \<le> f (ys ! j)" if "0 < j" "j < length ys" "j \<noteq> i" for j
      using A [OF that] B [of j] that True by fastforce
    with B True show ?thesis by (auto simp: heap_up_to_def)
  next
    case False
    have "f (ys ! parent j) \<le> f (ys ! j)" if "0 < j" "j < length ys" "parent j \<noteq> i" for j
      using A [OF that(1,2)] that False by (cases "j = i") auto
    with B False show ?thesis by (auto simp: heap_down_from_def)
  qed
qed


text \<open>Only the keys of the entries in the array matter.\<close>

lemma heap_cong:
  assumes "\<And>x. x \<in> set xs \<Longrightarrow> f x = g x"
  shows "is_heap f xs = is_heap g xs"
    and "i < length xs \<Longrightarrow> heap_up_to f xs i = heap_up_to g xs i"
    and "i < length xs \<Longrightarrow> heap_down_from f xs i = heap_down_from g xs i"
proof -
  have k: "f (xs ! j) = g (xs ! j)" if "j < length xs" for j using assms that by simp
  have pl: "parent j < length xs" if "0 < j" "j < length xs" for j
    using parent_less [OF that(1)] that by simp
  show "is_heap f xs = is_heap g xs" by (auto simp: is_heap_def k pl)
  show "heap_up_to f xs i = heap_up_to g xs i" if "i < length xs"
    using that by (auto simp: heap_up_to_def k pl)
  show "heap_down_from f xs i = heap_down_from g xs i" if "i < length xs"
    using that by (auto simp: heap_down_from_def k pl)
qed

end
