(* ===== verification/Heap_Timer.thy ===== *)
theory Heap_Timer
  imports Array_Heap
begin

text \<open>
  The heap timer of \<open>lib_app/robot_schedule/schedule/heap_timer.cpp\<close>. The map \<open>timers\<close> owns the
  entries; \<open>heap_\<close> is the vector of pointers to them, here the vector of their ids, ordered by
  expiry. Times are milliseconds since the epoch and never come near \<open>2 ^ 64\<close>, so they are natural
  numbers; the conversion of the heap index to \<open>size_t\<close> is written out, because the code converts
  \<open>-1\<close>. The clock is an argument. A callback is an arbitrary function on the timer's state, as the
  code's \<open>std::function\<close> may register and cancel timers, and on the rest of the program.
\<close>

record HeapEntry =
  he_func :: nat
  he_timerId :: int
  he_interval :: nat
  he_expires :: nat
  he_repeat :: int
  he_heapIndex :: int

record HeapTimer =
  ht_timers :: "int \<rightharpoonup> HeapEntry"
  ht_heap :: "int list"
  ht_timerId :: int

definition ht_new :: HeapTimer where
  "ht_new = \<lparr>ht_timers = Map.empty, ht_heap = [], ht_timerId = 0\<rparr>"

text \<open>\<open>heap_[i]->expires_\<close> and updates of the entry with a given id.\<close>

definition ht_key :: "HeapTimer \<Rightarrow> int \<Rightarrow> nat" where
  "ht_key t k = (case ht_timers t k of None \<Rightarrow> 0 | Some e \<Rightarrow> he_expires e)"

definition upd_entry :: "int \<Rightarrow> (HeapEntry \<Rightarrow> HeapEntry) \<Rightarrow> HeapTimer \<Rightarrow> HeapTimer" where
  "upd_entry k f t = t\<lparr>ht_timers := (ht_timers t)(k := map_option f (ht_timers t k))\<rparr>"

definition SwapHeap :: "nat \<Rightarrow> nat \<Rightarrow> HeapTimer \<Rightarrow> HeapTimer" where
  "SwapHeap i j t =
     (let h = swap_at (ht_heap t) i j
      in upd_entry (h ! j) (he_heapIndex_update (\<lambda>_. int j))
           (upd_entry (h ! i) (he_heapIndex_update (\<lambda>_. int i)) (t\<lparr>ht_heap := h\<rparr>)))"

function UpHeap :: "nat \<Rightarrow> HeapTimer \<Rightarrow> HeapTimer" where
  "UpHeap i t =
     (if 0 < i \<and> ht_key t (ht_heap t ! i) < ht_key t (ht_heap t ! parent i)
      then UpHeap (parent i) (SwapHeap i (parent i) t)
      else t)"
  by pat_completeness auto
termination by (relation "measure (\<lambda>(i, t). i)") (auto simp: parent_less)

lemma SwapHeap_heap [simp]: "ht_heap (SwapHeap i j t) = swap_at (ht_heap t) i j"
  by (simp add: SwapHeap_def upd_entry_def Let_def)

lemma SwapHeap_timerId [simp]: "ht_timerId (SwapHeap i j t) = ht_timerId t"
  by (simp add: SwapHeap_def upd_entry_def Let_def)

function DownHeap :: "nat \<Rightarrow> HeapTimer \<Rightarrow> HeapTimer" where
  "DownHeap i t =
     (let child = 2 * i + 1
      in if child < length (ht_heap t)
         then
           let minChild =
                 (if child + 1 = length (ht_heap t) \<or>
                     ht_key t (ht_heap t ! child) < ht_key t (ht_heap t ! (child + 1))
                  then child else child + 1)
           in if ht_key t (ht_heap t ! i) < ht_key t (ht_heap t ! minChild) then t
              else DownHeap minChild (SwapHeap i minChild t)
         else t)"
  by pat_completeness auto
termination by (relation "measure (\<lambda>(i, t). length (ht_heap t) - i)") (auto split: if_splits)

declare UpHeap.simps [simp del] DownHeap.simps [simp del]

definition register_timer :: "nat \<Rightarrow> nat \<Rightarrow> nat \<Rightarrow> nat \<Rightarrow> int \<Rightarrow> HeapTimer \<Rightarrow> int \<times> HeapTimer" where
  "register_timer now func interval delay0 expired_times t =
     (let delay = (if delay0 = 0 then interval else delay0);
          curHeapIndex = length (ht_heap t);
          cur_id = ht_timerId t + 1;
          entry = \<lparr>he_func = func, he_timerId = cur_id, he_interval = interval,
                   he_expires = delay + now, he_repeat = expired_times,
                   he_heapIndex = int curHeapIndex\<rparr>;
          t1 = \<lparr>ht_timers = (ht_timers t)(cur_id \<mapsto> entry), ht_heap = ht_heap t @ [cur_id],
                ht_timerId = cur_id\<rparr>
      in (cur_id, UpHeap curHeapIndex t1))"

definition erase_timer :: "int \<Rightarrow> HeapTimer \<Rightarrow> HeapTimer" where
  "erase_timer k t = t\<lparr>ht_timers := (ht_timers t)(k := None)\<rparr>"

definition pop_back :: "HeapTimer \<Rightarrow> HeapTimer" where
  "pop_back t = t\<lparr>ht_heap := butlast (ht_heap t)\<rparr>"

text \<open>\<open>(size_t)entry->heapIndex_\<close> and \<open>heap_.size() - 1\<close> wrap around.\<close>

definition to_size_t :: "int \<Rightarrow> nat" where
  "to_size_t k = nat (k mod 2 ^ 64)"

definition unregister_timer :: "int \<Rightarrow> HeapTimer \<Rightarrow> mem_error + HeapTimer" where
  "unregister_timer k t =
     (case ht_timers t k of
        None \<Rightarrow> Inr t
      | Some entry \<Rightarrow>
          let curIndex = to_size_t (he_heapIndex entry);
              lastIndex = sz_sub (length (ht_heap t)) 1
          in if curIndex = lastIndex
             then (if ht_heap t = [] then Inl OutOfBounds
                   else Inr (erase_timer k (pop_back t)))
             else if curIndex < length (ht_heap t) \<and> lastIndex < length (ht_heap t)
             then
               let t1 = erase_timer k (pop_back (SwapHeap curIndex lastIndex t))
               in Inr (if 0 < curIndex \<and>
                          ht_key t1 (ht_heap t1 ! curIndex) < ht_key t1 (ht_heap t1 ! parent curIndex)
                       then UpHeap curIndex t1 else DownHeap curIndex t1)
             else Inl OutOfBounds)"

text \<open>
  \<open>do expires_ += interval_; while (expires_ <= now)\<close>: \<open>None\<close> when the loop does not end.
\<close>

partial_function (option) advance :: "nat \<Rightarrow> nat \<Rightarrow> nat \<Rightarrow> nat option" where
  "advance expires interval now =
     (if expires + interval \<le> now then advance (expires + interval) interval now
      else Some (expires + interval))"

text \<open>One round of the first loop of \<open>DetectTimers\<close>: the top entry is due.\<close>

definition detect_round :: "nat \<Rightarrow> HeapTimer \<Rightarrow> (int \<times> HeapTimer) option" where
  "detect_round now t =
     (let k = ht_heap t ! 0
      in case ht_timers t k of
           None \<Rightarrow> None
         | Some entry \<Rightarrow>
             if he_repeat entry = 1
             then
               let lastIndex = length (ht_heap t) - 1;
                   dead = upd_entry k (he_heapIndex_update (\<lambda>_. - 1))
               in if lastIndex = 0 then Some (k, pop_back (dead t))
                  else Some (k, DownHeap 0 (pop_back (dead (SwapHeap 0 lastIndex t))))
             else
               let rep = (if he_repeat entry > 0 then he_repeat entry - 1 else he_repeat entry)
               in (case advance (he_expires entry) (he_interval entry) now of
                     None \<Rightarrow> None
                   | Some e \<Rightarrow>
                       Some (k, DownHeap 0 (upd_entry k (\<lambda>x. x\<lparr>he_repeat := rep, he_expires := e\<rparr>) t))))"

partial_function (option) detect_loop :: "nat \<Rightarrow> HeapTimer \<Rightarrow> int list \<Rightarrow> (int list \<times> HeapTimer) option" where
  "detect_loop now t expired =
     (if ht_heap t \<noteq> [] \<and> ht_key t (ht_heap t ! 0) \<le> now
      then (case detect_round now t of
              None \<Rightarrow> None
            | Some (k, t') \<Rightarrow> detect_loop now t' (expired @ [k]))
      else Some (expired, t))"

text \<open>
  The second loop: entries that left the heap are erased, then each callback runs. A callback acts on the timer and on
  the rest of the program, \<open>'w\<close>.
\<close>

fun run_callbacks :: "(nat \<Rightarrow> nat \<Rightarrow> HeapTimer \<times> 'w \<Rightarrow> mem_error + HeapTimer \<times> 'w) \<Rightarrow> nat \<Rightarrow> int list \<Rightarrow> HeapTimer \<times> 'w
    \<Rightarrow> mem_error + HeapTimer \<times> 'w" where
  "run_callbacks call now [] s = Inr s"
| "run_callbacks call now (k # ks) s =
     (case ht_timers (fst s) k of
        None \<Rightarrow> run_callbacks call now ks s
      | Some entry \<Rightarrow>
          let t1 = (if he_heapIndex entry = - 1 then erase_timer k (fst s) else fst s)
          in (case call (he_func entry) now (t1, snd s) of
                Inl e \<Rightarrow> Inl e
              | Inr s2 \<Rightarrow> run_callbacks call now ks s2))"

definition DetectTimers :: "(nat \<Rightarrow> nat \<Rightarrow> HeapTimer \<times> 'w \<Rightarrow> mem_error + HeapTimer \<times> 'w) \<Rightarrow> nat \<Rightarrow> HeapTimer \<times> 'w
    \<Rightarrow> (mem_error + HeapTimer \<times> 'w) option" where
  "DetectTimers call now s =
     (case detect_loop now (fst s) [] of
        None \<Rightarrow> None
      | Some (expired, t') \<Rightarrow> Some (run_callbacks call now expired (t', snd s)))"

text \<open>
  Callbacks as the code has them: a callback registers and cancels timers of this timer object. \<open>acts f\<close> is what
  callback \<open>f\<close> does, and the calls are recorded in the order in which they are made.
\<close>

datatype timer_act = Act_register nat nat nat int | Act_cancel int

fun do_acts :: "nat \<Rightarrow> timer_act list \<Rightarrow> HeapTimer \<Rightarrow> mem_error + HeapTimer" where
  "do_acts now [] t = Inr t"
| "do_acts now (Act_register func interval delay reps # as) t = do_acts now as (snd (register_timer now func interval delay reps t))"
| "do_acts now (Act_cancel k # as) t = bindE (unregister_timer k t) (do_acts now as)"

definition acting :: "(nat \<Rightarrow> timer_act list) \<Rightarrow> nat \<Rightarrow> nat \<Rightarrow> HeapTimer \<times> nat list \<Rightarrow> mem_error + HeapTimer \<times> nat list" where
  "acting acts f now s = bindE (do_acts now (acts f) (fst s)) (\<lambda>t. Inr (t, snd s @ [f]))"


section \<open>Links between the map and the vector\<close>

definition ht_links :: "HeapTimer \<Rightarrow> bool" where
  "ht_links t \<longleftrightarrow> distinct (ht_heap t) \<and>
     (\<forall>i < length (ht_heap t). \<exists>e. ht_timers t (ht_heap t ! i) = Some e \<and> he_heapIndex e = int i)"

text \<open>
  What the heap loops leave alone: everything but the heap indices of the entries in the vector.
\<close>

definition ht_frame :: "HeapTimer \<Rightarrow> HeapTimer \<Rightarrow> bool" where
  "ht_frame t t' \<longleftrightarrow> ht_timerId t' = ht_timerId t \<and> mset (ht_heap t') = mset (ht_heap t) \<and>
     (\<forall>k. map_option (he_heapIndex_update (\<lambda>_. 0)) (ht_timers t' k)
        = map_option (he_heapIndex_update (\<lambda>_. 0)) (ht_timers t k)) \<and>
     (\<forall>k. k \<notin> set (ht_heap t) \<longrightarrow> ht_timers t' k = ht_timers t k)"

lemma ht_frame_refl [simp]: "ht_frame t t"
  by (simp add: ht_frame_def)

lemma ht_frame_trans: "ht_frame t t1 \<Longrightarrow> ht_frame t1 t2 \<Longrightarrow> ht_frame t t2"
  by (auto simp: ht_frame_def dest: mset_eq_setD)

lemma ht_frame_entry:
  "ht_frame t t' \<Longrightarrow> ht_timers t k = Some e \<Longrightarrow> \<exists>j. ht_timers t' k = Some (e\<lparr>he_heapIndex := j\<rparr>)"
proof -
  assume f: "ht_frame t t'" and e: "ht_timers t k = Some e"
  then have "map_option (he_heapIndex_update (\<lambda>_. 0)) (ht_timers t' k) = Some (e\<lparr>he_heapIndex := 0\<rparr>)"
    unfolding ht_frame_def by (metis option.map(2))
  then obtain e' where e': "ht_timers t' k = Some e'" "e'\<lparr>he_heapIndex := 0\<rparr> = e\<lparr>he_heapIndex := 0\<rparr>"
    by auto
  then have "e' = e\<lparr>he_heapIndex := he_heapIndex e'\<rparr>" by (cases e, cases e') simp
  with e'(1) show ?thesis by metis
qed

lemma ht_frame_None: "ht_frame t t' \<Longrightarrow> ht_timers t k = None \<longleftrightarrow> ht_timers t' k = None"
  unfolding ht_frame_def by (metis map_option_is_None)

lemma ht_frame_key: "ht_frame t t' \<Longrightarrow> ht_key t' = ht_key t"
proof
  fix k assume f: "ht_frame t t'"
  show "ht_key t' k = ht_key t k"
    using ht_frame_entry [OF f, of k] ht_frame_None [OF f, of k]
    by (cases "ht_timers t k") (auto simp: ht_key_def)
qed

lemma SwapHeap_links:
  assumes l: "ht_links t" and ij: "i < length (ht_heap t)" "j < length (ht_heap t)"
  shows "ht_links (SwapHeap i j t) \<and> ht_frame t (SwapHeap i j t)"
proof -
  let ?h = "ht_heap t" and ?h' = "swap_at (ht_heap t) i j"
  have d: "distinct ?h" using l by (simp add: ht_links_def)
  have hij: "?h' ! j = ?h ! i" "?h' ! i = ?h ! j" using ij by (auto simp: nth_swap_at)
  have tm: "ht_timers (SwapHeap i j t) k =
      (if k = ?h ! i then map_option (he_heapIndex_update (\<lambda>_. int j)) (ht_timers t k)
       else if k = ?h ! j then map_option (he_heapIndex_update (\<lambda>_. int i)) (ht_timers t k)
       else ht_timers t k)" for k
    using d ij by (auto simp: SwapHeap_def upd_entry_def Let_def hij option.map_comp o_def nth_eq_iff_index_eq)
  have "\<exists>e. ht_timers (SwapHeap i j t) (?h' ! k) = Some e \<and> he_heapIndex e = int k"
    if k: "k < length ?h" for k
  proof -
    have ex: "\<exists>e. ht_timers t (?h ! m) = Some e \<and> he_heapIndex e = int m" if "m < length ?h" for m
      using l that by (simp add: ht_links_def)
    from ex [OF ij(1)] obtain e1 where "ht_timers t (?h ! i) = Some e1" by blast
    moreover from ex [OF ij(2)] obtain e2 where "ht_timers t (?h ! j) = Some e2" by blast
    moreover from ex [OF k] obtain e3 where "ht_timers t (?h ! k) = Some e3" "he_heapIndex e3 = int k" by blast
    ultimately show ?thesis using d ij k
      by (auto simp: tm nth_swap_at nth_eq_iff_index_eq)
  qed
  then have "ht_links (SwapHeap i j t)" using d ij by (simp add: ht_links_def)
  moreover have "ht_frame t (SwapHeap i j t)"
    using ij by (auto simp: ht_frame_def tm option.map_comp o_def)
  ultimately show ?thesis ..
qed

lemma UpHeap_links:
  "ht_links t \<Longrightarrow> i < length (ht_heap t) \<Longrightarrow>
     ht_links (UpHeap i t) \<and> ht_frame t (UpHeap i t) \<and>
     ht_heap (UpHeap i t) = up_heap (ht_key t) (ht_heap t) i"
proof (induction i t rule: UpHeap.induct)
  case (1 i t)
  show ?case
  proof (cases "0 < i \<and> ht_key t (ht_heap t ! i) < ht_key t (ht_heap t ! parent i)")
    case True
    then have p: "parent i < length (ht_heap t)" using parent_less [of i] 1 by simp
    note s = SwapHeap_links [OF "1.prems" p]
    have IH: "ht_links (UpHeap (parent i) (SwapHeap i (parent i) t)) \<and>
        ht_frame (SwapHeap i (parent i) t) (UpHeap (parent i) (SwapHeap i (parent i) t)) \<and>
        ht_heap (UpHeap (parent i) (SwapHeap i (parent i) t)) =
          up_heap (ht_key t) (swap_at (ht_heap t) i (parent i)) (parent i)"
      using "1.IH" [OF True] s p ht_frame_key [of t "SwapHeap i (parent i) t"] by simp
    with s ht_frame_trans True show ?thesis
      by (auto simp: UpHeap.simps [of i t] up_heap.simps [of "ht_key t" "ht_heap t" i])
  next
    case False
    with 1 show ?thesis
      by (auto simp: UpHeap.simps [of i t] up_heap.simps [of "ht_key t" "ht_heap t" i])
  qed
qed

lemma DownHeap_links:
  "ht_links t \<Longrightarrow>
     ht_links (DownHeap i t) \<and> ht_frame t (DownHeap i t) \<and>
     ht_heap (DownHeap i t) = down_heap (ht_key t) (ht_heap t) i"
proof (induction i t rule: DownHeap.induct)
  case (1 i t)
  let ?m = "min_child (ht_key t) (ht_heap t) (2 * i + 1)"
  show ?case
  proof (cases "2 * i + 1 < length (ht_heap t) \<and> \<not> ht_key t (ht_heap t ! i) < ht_key t (ht_heap t ! ?m)")
    case True
    then have m: "?m < length (ht_heap t)" "i < ?m"
      using min_child_props [of i "ht_heap t" "ht_key t"] by auto
    have s: "ht_links (SwapHeap i ?m t) \<and> ht_frame t (SwapHeap i ?m t)"
      using SwapHeap_links [OF "1.prems"] m by simp
    have eq: "DownHeap i t = DownHeap ?m (SwapHeap i ?m t)"
      using True by (subst DownHeap.simps) (simp add: Let_def min_child_def)
    have eq2: "down_heap (ht_key t) (ht_heap t) i = down_heap (ht_key t) (swap_at (ht_heap t) i ?m) ?m"
      using True by (subst down_heap.simps) (simp add: Let_def)
    have "ht_links (DownHeap ?m (SwapHeap i ?m t)) \<and> ht_frame (SwapHeap i ?m t) (DownHeap ?m (SwapHeap i ?m t)) \<and>
      ht_heap (DownHeap ?m (SwapHeap i ?m t)) = down_heap (ht_key t) (swap_at (ht_heap t) i ?m) ?m"
      using "1.IH" [OF refl conjunct1 [OF True] min_child_def conjunct2 [OF True] conjunct1 [OF s]]
        ht_frame_key [OF conjunct2 [OF s]] by simp
    with s ht_frame_trans show ?thesis unfolding eq eq2 by blast
  next
    case False
    then have "DownHeap i t = t" "down_heap (ht_key t) (ht_heap t) i = ht_heap t"
      by (subst DownHeap.simps, simp add: Let_def min_child_def, subst down_heap.simps, auto simp: Let_def)
    with "1.prems" show ?thesis by simp
  qed
qed

lemma UpHeap_ok:
  assumes "ht_links t" "i < length (ht_heap t)" "heap_up_to (ht_key t) (ht_heap t) i"
  shows "ht_links (UpHeap i t) \<and> ht_frame t (UpHeap i t) \<and> is_heap (ht_key (UpHeap i t)) (ht_heap (UpHeap i t))"
  using UpHeap_links [OF assms(1,2)] up_heap_correct [OF assms(2,3)] ht_frame_key by metis

lemma DownHeap_ok:
  assumes "ht_links t" "heap_down_from (ht_key t) (ht_heap t) i"
  shows "ht_links (DownHeap i t) \<and> ht_frame t (DownHeap i t) \<and> is_heap (ht_key (DownHeap i t)) (ht_heap (DownHeap i t))"
  using DownHeap_links [OF assms(1)] down_heap_correct [OF assms(2)] ht_frame_key by metis


section \<open>The invariant\<close>

definition ht_inv :: "HeapTimer \<Rightarrow> bool" where
  "ht_inv t \<longleftrightarrow> ht_links t \<and> is_heap (ht_key t) (ht_heap t) \<and> length (ht_heap t) < 2 ^ 31 \<and>
     (\<forall>k e. ht_timers t k = Some e \<longrightarrow>
        k \<le> ht_timerId t \<and> he_timerId e = k \<and> (k \<in> set (ht_heap t) \<or> he_heapIndex e = - 1))"

lemma ht_inv_frame:
  assumes "ht_frame t t'" "ht_links t'" "is_heap (ht_key t') (ht_heap t')" "length (ht_heap t) < 2 ^ 31"
    and e: "\<And>k e. ht_timers t k = Some e \<Longrightarrow>
        k \<le> ht_timerId t \<and> he_timerId e = k \<and> (k \<in> set (ht_heap t) \<or> he_heapIndex e = - 1)"
  shows "ht_inv t'"
proof -
  have f: "ht_timerId t' = ht_timerId t" "set (ht_heap t') = set (ht_heap t)"
    "length (ht_heap t') = length (ht_heap t)"
    using assms(1) by (auto simp: ht_frame_def dest: mset_eq_setD mset_eq_length)
  have "k \<le> ht_timerId t' \<and> he_timerId e' = k \<and> (k \<in> set (ht_heap t') \<or> he_heapIndex e' = - 1)"
    if k: "ht_timers t' k = Some e'" for k e'
  proof -
    obtain e0 where e0: "ht_timers t k = Some e0"
      using k ht_frame_None [OF assms(1), of k] by (cases "ht_timers t k") auto
    with ht_frame_entry [OF assms(1) e0] k have "he_timerId e' = he_timerId e0" by auto
    moreover have "k \<notin> set (ht_heap t) \<Longrightarrow> e' = e0"
      using assms(1) k e0 by (simp add: ht_frame_def)
    ultimately show ?thesis using e [OF e0] f by auto
  qed
  with assms f show ?thesis by (simp add: ht_inv_def)
qed

lemma ht_inv_entry: "ht_inv t \<Longrightarrow> k \<in> set (ht_heap t) \<Longrightarrow> \<exists>e. ht_timers t k = Some e"
  by (auto simp: ht_inv_def ht_links_def in_set_conv_nth)

text \<open>Registration, with the entry it creates.\<close>

lemma register_ok:
  assumes i: "ht_inv t" and room: "length (ht_heap t) + 1 < 2 ^ 31"
    and r: "register_timer now func interval delay reps t = (k, t')"
  shows "ht_inv t' \<and> k \<notin> dom (ht_timers t) \<and>
    mset (ht_heap t') = add_mset k (mset (ht_heap t)) \<and>
    ht_key t' k = (if delay = 0 then interval else delay) + now \<and>
    (\<forall>j \<in> dom (ht_timers t). ht_key t' j = ht_key t j)"
proof -
  let ?k = "ht_timerId t + 1"
  define entry where "entry = \<lparr>he_func = func, he_timerId = ?k, he_interval = interval,
    he_expires = (if delay = 0 then interval else delay) + now, he_repeat = reps,
    he_heapIndex = int (length (ht_heap t))\<rparr>"
  define t1 where "t1 = \<lparr>ht_timers = (ht_timers t)(?k \<mapsto> entry), ht_heap = ht_heap t @ [?k], ht_timerId = ?k\<rparr>"
  have k: "k = ?k" "t' = UpHeap (length (ht_heap t)) t1"
    using r unfolding register_timer_def Let_def t1_def entry_def by (auto simp only: prod.inject)
  have fresh: "ht_timers t ?k = None"
    using i by (cases "ht_timers t ?k") (fastforce simp: ht_inv_def)+
  then have nin: "?k \<notin> set (ht_heap t)" using ht_inv_entry [OF i, of ?k] by auto
  have key: "ht_key t1 j = (if j = ?k then he_expires entry else ht_key t j)" for j
    by (simp add: t1_def ht_key_def)
  have links: "ht_links t1"
    using i nin nth_mem [of _ "ht_heap t"]
    by (fastforce simp: ht_inv_def ht_links_def t1_def entry_def nth_append less_Suc_eq)
  have same: "ht_key t1 x = ht_key t x" if "x \<in> set (ht_heap t)" for x using nin key that by metis
  have "is_heap (ht_key t1) (ht_heap t)"
    using i heap_cong(1) [of "ht_heap t" "ht_key t1" "ht_key t", OF same] by (simp add: ht_inv_def)
  then have up: "heap_up_to (ht_key t1) (ht_heap t1) (length (ht_heap t))"
    using heap_append by (simp add: t1_def)
  have "length (ht_heap t) < length (ht_heap t1)" by (simp add: t1_def)
  note u = UpHeap_ok [OF links this up]
  have ent: "j \<le> ht_timerId t1 \<and> he_timerId e = j \<and> (j \<in> set (ht_heap t1) \<or> he_heapIndex e = - 1)"
    if "ht_timers t1 j = Some e" for j e
  proof (cases "j = ?k")
    case True
    then show ?thesis using that by (auto simp: t1_def entry_def)
  next
    case False
    then have "ht_timers t j = Some e" using that by (simp add: t1_def)
    then have "j \<le> ht_timerId t \<and> he_timerId e = j \<and> (j \<in> set (ht_heap t) \<or> he_heapIndex e = - 1)"
      using i by (simp add: ht_inv_def)
    then show ?thesis by (auto simp: t1_def)
  qed
  have "length (ht_heap t1) < 2 ^ 31" using room by (simp add: t1_def)
  with u ent have "ht_inv t'" unfolding k using ht_inv_frame by blast
  moreover have "mset (ht_heap t') = add_mset ?k (mset (ht_heap t))"
    using u by (simp add: k ht_frame_def t1_def)
  moreover have "ht_key t' = ht_key t1" unfolding k using u ht_frame_key by blast
  ultimately show ?thesis using fresh key by (auto simp: k entry_def)
qed


text \<open>Cancelling a timer that is in the heap.\<close>

lemma ht_links_index:
  "ht_links t \<Longrightarrow> i < length (ht_heap t) \<Longrightarrow> ht_timers t (ht_heap t ! i) = Some e \<Longrightarrow> he_heapIndex e = int i"
  by (auto simp: ht_links_def)

lemma to_size_t_nat [simp]: "n < 2 ^ 31 \<Longrightarrow> to_size_t (int n) = n"
  by (simp add: to_size_t_def)

lemma remove_links:
  assumes l: "ht_links t" and n: "ht_heap t = h @ [k]"
    and t1: "ht_heap t1 = h" "\<And>j. j \<noteq> k \<Longrightarrow> ht_timers t1 j = ht_timers t j"
  shows "ht_links t1"
proof -
  have "h ! i \<noteq> k" if "i < length h" for i
    using l n that by (auto simp: ht_links_def in_set_conv_nth)
  moreover have "\<exists>e. ht_timers t (h ! i) = Some e \<and> he_heapIndex e = int i" if "i < length h" for i
    using l that unfolding ht_links_def n by (metis length_append_singleton less_SucI nth_append)
  ultimately show ?thesis using l n t1 by (simp add: ht_links_def)
qed

lemma butlast_snoc_conv: "xs \<noteq> [] \<Longrightarrow> xs ! (length xs - 1) = k \<Longrightarrow> xs = butlast xs @ [k]"
  by (metis append_butlast_last_id last_conv_nth)

text \<open>Moving entry \<open>i\<close> to the end of the vector and dropping it: what \<open>unregister_timer\<close> and the last
  round of a one-shot timer share.\<close>

lemma take_out:
  assumes l: "ht_links t" and i: "i < length (ht_heap t) - 1" and k: "ht_heap t ! i = k"
    and hp: "is_heap (ht_key t) (ht_heap t)"
    and t1: "ht_heap t1 = butlast (swap_at (ht_heap t) i (length (ht_heap t) - 1))"
      "\<And>j. j \<noteq> k \<Longrightarrow> ht_timers t1 j = ht_timers (SwapHeap i (length (ht_heap t) - 1) t) j"
  shows "ht_links t1 \<and> k \<notin> set (ht_heap t1) \<and> mset (ht_heap t) = add_mset k (mset (ht_heap t1)) \<and>
    (0 < i \<and> ht_key t1 (ht_heap t1 ! i) < ht_key t1 (ht_heap t1 ! parent i) \<longrightarrow>
       heap_up_to (ht_key t1) (ht_heap t1) i) \<and>
    (\<not> (0 < i \<and> ht_key t1 (ht_heap t1 ! i) < ht_key t1 (ht_heap t1 ! parent i)) \<longrightarrow>
       heap_down_from (ht_key t1) (ht_heap t1) i)"
proof -
  let ?n = "length (ht_heap t) - 1"
  let ?s = "SwapHeap i ?n t"
  have n: "i < length (ht_heap t)" "?n < length (ht_heap t)" using i by auto
  have s: "ht_links ?s" "ht_frame t ?s" using SwapHeap_links [OF l n] by auto
  have "swap_at (ht_heap t) i ?n ! ?n = k" using n k by (simp add: nth_swap_at)
  moreover have "swap_at (ht_heap t) i ?n \<noteq> []" using n by (metis length_swap_at less_nat_zero_code list.size(3))
  ultimately have sn: "swap_at (ht_heap t) i ?n = ht_heap t1 @ [k]"
    using butlast_snoc_conv [of "swap_at (ht_heap t) i ?n" k] t1(1) by simp
  have links: "ht_links t1"
    by (rule remove_links [OF s(1), of _ k]) (use sn t1(2) in auto)
  have m: "mset (ht_heap t) = add_mset k (mset (ht_heap t1))"
    using mset_swap_at [OF n] sn by simp
  have d: "k \<notin> set (ht_heap t1)" using l m by (metis distinct.simps(2) ht_links_def mset.simps(2) mset_eq_imp_distinct_iff)
  have key: "ht_key t1 j = ht_key t j" if "j \<noteq> k" for j
    using t1(2) [OF that] ht_frame_key [OF s(2)] by (metis ht_key_def)
  have same: "ht_key t1 j = ht_key t j" if "j \<in> set (ht_heap t1)" for j using d key that by metis
  define ys where "ys = butlast (swap_at (ht_heap t) i ?n)"
  have ys: "ys = ht_heap t1" by (simp add: ys_def t1(1))
  note hr = heap_remove [OF hp i, folded ys_def, unfolded ys]
  have il: "i < length (ht_heap t1)" using i by (simp add: t1(1))
  note up = heap_cong(2) [OF same il] and dn = heap_cong(3) [OF same il]
  have pl: "0 < i \<Longrightarrow> parent i < length (ht_heap t1)" using parent_less [of i] il by simp
  have cond: "(0 < i \<and> ht_key t1 (ht_heap t1 ! i) < ht_key t1 (ht_heap t1 ! parent i)) =
      (0 < i \<and> ht_key t (ht_heap t1 ! i) < ht_key t (ht_heap t1 ! parent i))"
    using same [OF nth_mem [OF il]] same [OF nth_mem [OF pl]] by auto
  show ?thesis using links d m hr up dn cond by simp
qed


lemma unregister_ok:
  assumes i: "ht_inv t" and k: "k \<in> set (ht_heap t)"
  shows "\<exists>t'. unregister_timer k t = Inr t' \<and> ht_inv t' \<and> ht_timers t' k = None \<and>
    mset (ht_heap t) = add_mset k (mset (ht_heap t')) \<and> (\<forall>j. j \<noteq> k \<longrightarrow> ht_key t' j = ht_key t j)"
proof -
  have l: "ht_links t" "is_heap (ht_key t) (ht_heap t)" "length (ht_heap t) < 2 ^ 31"
    using i by (auto simp: ht_inv_def)
  obtain c where c: "c < length (ht_heap t)" "ht_heap t ! c = k" using k by (auto simp: in_set_conv_nth)
  obtain e where e: "ht_timers t k = Some e" using ht_inv_entry [OF i k] by blast
  have idx: "to_size_t (he_heapIndex e) = c"
    using ht_links_index [OF l(1) c(1)] c e l(3) by simp
  let ?n = "length (ht_heap t) - 1"
  have ne: "ht_heap t \<noteq> []" using c by auto
  have n: "sz_sub (length (ht_heap t)) 1 = ?n" using c l(3) by (intro sz_sub_le) auto
  have ent: "j \<le> ht_timerId t \<and> he_timerId e' = j \<and> (j \<in> set (ht_heap t) \<or> he_heapIndex e' = - 1)"
    if "ht_timers t j = Some e'" for j e' using i that by (simp add: ht_inv_def)
  show ?thesis
  proof (cases "c = ?n")
    case True
    let ?t1 = "erase_timer k (pop_back t)"
    have u: "unregister_timer k t = Inr ?t1"
      using e idx n True ne by (simp add: unregister_timer_def Let_def)
    have sn: "ht_heap t = butlast (ht_heap t) @ [k]" using butlast_snoc_conv [OF ne] c True by simp
    have m: "mset (ht_heap t) = add_mset k (mset (butlast (ht_heap t)))"
      by (subst sn) simp
    have set: "set (ht_heap t) = insert k (set (butlast (ht_heap t)))" by (subst sn) simp
    have links: "ht_links ?t1"
      by (rule remove_links [OF l(1) sn]) (auto simp: erase_timer_def pop_back_def)
    have d: "k \<notin> set (butlast (ht_heap t))"
      using l(1) sn by (metis ht_links_def distinct_append disjoint_iff list.set_intros(1) distinct_butlast)
    have key: "ht_key ?t1 j = ht_key t j" if "j \<noteq> k" for j
      using that by (simp add: ht_key_def erase_timer_def pop_back_def)
    have "is_heap (ht_key t) (butlast (ht_heap t))"
    proof -
      have "parent j < length (ht_heap t) - 1" if "0 < j" "j < length (ht_heap t) - 1" for j
        using parent_less [OF that(1)] that by simp
      then show ?thesis using l(2) by (auto simp: is_heap_def nth_butlast)
    qed
    then have "is_heap (ht_key ?t1) (butlast (ht_heap t))"
      using heap_cong(1) [of "butlast (ht_heap t)" "ht_key ?t1" "ht_key t"] key d by metis
    with links l(3) ent set have "ht_inv ?t1"
      by (auto simp: ht_inv_def erase_timer_def pop_back_def split: if_splits)
    then show ?thesis using u m key by (auto simp: erase_timer_def pop_back_def)
  next
    case False
    let ?t1 = "erase_timer k (pop_back (SwapHeap c ?n t))"
    have cn: "c < ?n" using False c by simp
    have t1: "ht_heap ?t1 = butlast (swap_at (ht_heap t) c ?n)"
      "\<And>j. j \<noteq> k \<Longrightarrow> ht_timers ?t1 j = ht_timers (SwapHeap c ?n t) j"
      by (simp_all add: erase_timer_def pop_back_def)
    note o = take_out [OF l(1) cn c(2) l(2) t1]
    have s: "ht_frame t (SwapHeap c ?n t)" using SwapHeap_links [OF l(1)] c ne by simp
    define t2 where "t2 = (if 0 < c \<and> ht_key ?t1 (ht_heap ?t1 ! c) < ht_key ?t1 (ht_heap ?t1 ! parent c)
      then UpHeap c ?t1 else DownHeap c ?t1)"
    have u: "unregister_timer k t = Inr t2"
      unfolding t2_def using e idx n cn c ne by (simp add: unregister_timer_def Let_def)
    have cl: "c < length (ht_heap ?t1)" using cn unfolding t1(1) by simp
    have t2: "ht_links t2 \<and> ht_frame ?t1 t2 \<and> is_heap (ht_key t2) (ht_heap t2)"
      using UpHeap_ok [of ?t1 c] DownHeap_ok [of ?t1 c] o cl by (auto simp: t2_def)
    have m: "mset (ht_heap t) = add_mset k (mset (ht_heap ?t1))" using o by blast
    have "set (ht_heap t) = insert k (set (ht_heap ?t1))" using m by (metis set_mset_add_mset_insert set_mset_mset)
    moreover have "\<exists>e0 x. ht_timers t j = Some e0 \<and> e1 = e0\<lparr>he_heapIndex := x\<rparr> \<and> (j \<notin> set (ht_heap t) \<longrightarrow> e1 = e0) \<and> j \<noteq> k"
      if "ht_timers ?t1 j = Some e1" for j e1
    proof -
      have j: "j \<noteq> k" "ht_timers (SwapHeap c ?n t) j = Some e1"
        using that by (auto simp: erase_timer_def pop_back_def split: if_splits)
      then obtain e0 where e0: "ht_timers t j = Some e0" using ht_frame_None [OF s, of j] by (cases "ht_timers t j") auto
      with ht_frame_entry [OF s e0] j obtain x where "e1 = e0\<lparr>he_heapIndex := x\<rparr>" by auto
      moreover have "j \<notin> set (ht_heap t) \<longrightarrow> e1 = e0" using s j e0 unfolding ht_frame_def by (metis option.inject)
      ultimately show ?thesis using e0 j by blast
    qed
    ultimately have "j \<le> ht_timerId ?t1 \<and> he_timerId e1 = j \<and> (j \<in> set (ht_heap ?t1) \<or> he_heapIndex e1 = - 1)"
      if "ht_timers ?t1 j = Some e1" for j e1
      using ent that s by (fastforce simp: erase_timer_def pop_back_def ht_frame_def)
    moreover have "length (ht_heap ?t1) < 2 ^ 31" using l(3) unfolding t1(1) by simp
    ultimately have inv: "ht_inv t2" using t2 ht_inv_frame by blast
    have key: "ht_key t2 j = ht_key t j" if "j \<noteq> k" for j
      using ht_frame_key [OF s] ht_frame_key [of ?t1 t2] t2 t1(2) [OF that] by (metis ht_key_def)
    have "ht_timers t2 k = None"
      using t2 ht_frame_None [of ?t1 t2 k] by (auto simp: erase_timer_def)
    moreover have "mset (ht_heap t2) = mset (ht_heap ?t1)" using t2 by (simp add: ht_frame_def)
    ultimately show ?thesis using u inv m key by metis
  qed
qed

lemma unregister_pending:
  assumes "ht_inv t" "ht_timers t k = Some e" "he_heapIndex e = - 1"
  shows "unregister_timer k t = Inl OutOfBounds"
proof -
  have n: "length (ht_heap t) < 2 ^ 31" using assms by (simp add: ht_inv_def)
  show ?thesis
  proof (cases "ht_heap t = []")
    case True
    then show ?thesis using assms by (simp add: unregister_timer_def to_size_t_def sz_sub_gt)
  next
    case False
    then have "sz_sub (length (ht_heap t)) 1 = length (ht_heap t) - 1" using n by (intro sz_sub_le) (auto simp: Suc_le_eq)
    then show ?thesis using assms n False by (simp add: unregister_timer_def to_size_t_def Let_def)
  qed
qed


section \<open>Detection of the expired timers\<close>

lemma advance_pos:
  "0 < i \<Longrightarrow> \<exists>n > 0. advance x i now = Some (x + n * i) \<and> now < x + n * i \<and> (x \<le> now \<longrightarrow> x + n * i \<le> now + i)"
proof (induction "now + 1 - x" arbitrary: x rule: less_induct)
  case less
  show ?case
  proof (cases "x + i \<le> now")
    case True
    have "now + 1 - (x + i) < now + 1 - x" using True less.prems by simp
    from less.hyps [OF this less.prems] obtain n where n: "n > 0"
      "advance (x + i) i now = Some (x + i + n * i)" "now < x + i + n * i" "x + i + n * i \<le> now + i"
      using True by auto
    then show ?thesis using True
      by (intro exI [of _ "Suc n"]) (subst advance.simps, simp add: add.assoc)
  next
    case False
    then show ?thesis by (intro exI [of _ 1]) (subst advance.simps, simp)
  qed
qed

lemma advance_zero_interval:
  assumes "x \<le> now" shows "advance x 0 now = None"
proof (rule ccontr)
  assume "advance x 0 now \<noteq> None"
  then obtain y where "advance x 0 now = Some y" by auto
  then have "\<not> (x \<le> now \<and> (0::nat) = 0)"
    by (rule advance.raw_induct [where P = "\<lambda>x i now y. \<not> (x \<le> now \<and> i = 0)", rotated])
      (auto split: if_splits)
  with assms show False by simp
qed

definition ht_interval :: "HeapTimer \<Rightarrow> int \<Rightarrow> nat" where
  "ht_interval t k = (case ht_timers t k of None \<Rightarrow> 0 | Some e \<Rightarrow> he_interval e)"

definition due :: "nat \<Rightarrow> HeapTimer \<Rightarrow> int multiset" where
  "due now t = filter_mset (\<lambda>k. ht_key t k \<le> now) (mset (ht_heap t))"

lemma ht_frame_interval: "ht_frame t t' \<Longrightarrow> ht_interval t' = ht_interval t"
proof
  fix k assume f: "ht_frame t t'"
  show "ht_interval t' k = ht_interval t k"
    using ht_frame_entry [OF f, of k] ht_frame_None [OF f, of k]
    by (cases "ht_timers t k") (auto simp: ht_interval_def)
qed

lemma due_step:
  assumes "mset (ht_heap t) = add_mset k M" "k \<notin># M" "ht_key t k \<le> now"
    and "\<And>j. j \<noteq> k \<Longrightarrow> ht_key t' j = ht_key t j"
    and "mset (ht_heap t') = M \<or> mset (ht_heap t') = add_mset k M \<and> now < ht_key t' k"
  shows "due now t = add_mset k (due now t')"
proof -
  have "filter_mset (\<lambda>j. ht_key t' j \<le> now) M = filter_mset (\<lambda>j. ht_key t j \<le> now) M"
    using assms(2,4) by (intro filter_mset_cong) metis+
  then show ?thesis using assms(1,3,5) by (auto simp: due_def)
qed

lemma ht_inv_DownHeap:
  assumes "ht_links t1" "heap_down_from (ht_key t1) (ht_heap t1) 0" "length (ht_heap t1) < 2 ^ 31"
    and "\<And>k e. ht_timers t1 k = Some e \<Longrightarrow>
        k \<le> ht_timerId t1 \<and> he_timerId e = k \<and> (k \<in> set (ht_heap t1) \<or> he_heapIndex e = - 1)"
  shows "ht_inv (DownHeap 0 t1) \<and> ht_frame t1 (DownHeap 0 t1)"
  using DownHeap_ok [OF assms(1,2)] ht_inv_frame [OF _ _ _ assms(3,4)] by blast

text \<open>The outcome of a round: the id it reports and the state it leaves.\<close>

definition round_outcome :: "nat \<Rightarrow> HeapTimer \<Rightarrow> int \<Rightarrow> HeapTimer \<Rightarrow> bool" where
  "round_outcome now t k t' \<longleftrightarrow> ht_inv t' \<and> (\<forall>j. j \<noteq> k \<longrightarrow> ht_key t' j = ht_key t j) \<and>
     ht_interval t' = ht_interval t \<and> set (ht_heap t') \<subseteq> set (ht_heap t) \<and>
     set (ht_heap t) \<subseteq> insert k (set (ht_heap t')) \<and> due now t = add_mset k (due now t')"

lemma round_last:
  assumes i: "ht_inv t" and ne: "ht_heap t \<noteq> []" and k: "k = ht_heap t ! 0" and top: "ht_key t k \<le> now"
    and e: "ht_timers t k = Some e" "he_repeat e = 1"
  shows "\<exists>t'. detect_round now t = Some (k, t') \<and> round_outcome now t k t' \<and> k \<notin> set (ht_heap t')"
proof -
  let ?dead = "upd_entry k (he_heapIndex_update (\<lambda>_. - 1))"
  have l: "ht_links t" "is_heap (ht_key t) (ht_heap t)" "length (ht_heap t) < 2 ^ 31"
    using i by (auto simp: ht_inv_def)
  have ent: "j \<le> ht_timerId t \<and> he_timerId e' = j \<and> (j \<in> set (ht_heap t) \<or> he_heapIndex e' = - 1)"
    if "ht_timers t j = Some e'" for j e' using i that by (simp add: ht_inv_def)
  show ?thesis
  proof (cases "length (ht_heap t) = 1")
    case True
    then have h: "ht_heap t = [k]" using k by (cases "ht_heap t") auto
    let ?t' = "pop_back (?dead t)"
    have r: "detect_round now t = Some (k, ?t')"
      using e h by (simp add: detect_round_def Let_def)
    have key: "ht_key ?t' j = ht_key t j" for j
      by (auto simp: ht_key_def pop_back_def upd_entry_def split: option.splits)
    have iv: "ht_interval ?t' = ht_interval t"
      by (rule ext) (auto simp: ht_interval_def pop_back_def upd_entry_def split: option.splits)
    have hp: "ht_heap ?t' = []" by (simp add: pop_back_def upd_entry_def h)
    have "j \<le> ht_timerId ?t' \<and> he_timerId e' = j \<and> he_heapIndex e' = - 1"
      if "ht_timers ?t' j = Some e'" for j e'
      using ent that h e by (auto simp: pop_back_def upd_entry_def split: if_splits)
    then have "ht_inv ?t'" using hp by (simp add: ht_inv_def ht_links_def is_heap_def)
    moreover have "due now t = add_mset k (due now ?t')"
      by (rule due_step [where M = "{#}"]) (use h hp top key in auto)
    ultimately show ?thesis using r key iv hp h by (auto simp: round_outcome_def)
  next
    case False
    let ?n = "length (ht_heap t) - 1"
    let ?s = "SwapHeap 0 ?n t" and ?t1 = "pop_back (?dead (SwapHeap 0 (length (ht_heap t) - 1) t))"
    let ?t' = "DownHeap 0 ?t1"
    have n: "0 < ?n" using False ne by (cases "ht_heap t") auto
    have r: "detect_round now t = Some (k, ?t')"
      using e k n by (simp add: detect_round_def Let_def)
    have t1: "ht_heap ?t1 = butlast (swap_at (ht_heap t) 0 ?n)"
      "\<And>j. j \<noteq> k \<Longrightarrow> ht_timers ?t1 j = ht_timers ?s j"
      by (simp_all add: pop_back_def upd_entry_def)
    note o = take_out [OF l(1) n k [symmetric] l(2) t1]
    have s: "ht_frame t ?s" using SwapHeap_links [OF l(1), of 0 ?n] n ne by simp
    have ent1: "j \<le> ht_timerId ?t1 \<and> he_timerId e' = j \<and> (j \<in> set (ht_heap ?t1) \<or> he_heapIndex e' = - 1)"
      if j: "ht_timers ?t1 j = Some e'" for j e'
    proof -
      obtain e1 where e1: "ht_timers ?s j = Some e1"
        "e' = (if j = k then e1\<lparr>he_heapIndex := - 1\<rparr> else e1)"
        using j by (auto simp: pop_back_def upd_entry_def split: if_splits)
      then obtain e0 where e0: "ht_timers t j = Some e0" using ht_frame_None [OF s, of j] by (cases "ht_timers t j") auto
      obtain x where x: "e1 = e0\<lparr>he_heapIndex := x\<rparr>" using ht_frame_entry [OF s e0] e1 by auto
      have out: "j \<notin> set (ht_heap t) \<longrightarrow> e1 = e0" using s e1(1) e0 unfolding ht_frame_def by (metis option.inject)
      have mem: "j \<in> set (ht_heap t) \<longleftrightarrow> j = k \<or> j \<in> set (ht_heap ?t1)"
        using o by (metis insert_iff set_mset_add_mset_insert set_mset_mset)
      have tid: "ht_timerId ?t1 = ht_timerId t" by (simp add: pop_back_def upd_entry_def)
      show ?thesis
      proof (cases "j \<in> set (ht_heap t)")
        case True
        then show ?thesis using ent [OF e0] x mem e1(2) unfolding tid by (cases "j = k") auto
      next
        case False
        then show ?thesis using ent [OF e0] out mem e1(2) unfolding tid by simp
      qed
    qed
    have len: "length (ht_heap ?t1) < 2 ^ 31" using l(3) unfolding t1(1) by simp
    have dn: "heap_down_from (ht_key ?t1) (ht_heap ?t1) 0" using o by blast
    have D: "ht_inv ?t' \<and> ht_frame ?t1 ?t'"
      by (rule ht_inv_DownHeap [OF _ dn len ent1]) (use o in blast)+
    have key1: "ht_key ?t1 j = ht_key ?s j" for j
      by (auto simp: ht_key_def pop_back_def upd_entry_def split: option.splits)
    have key: "ht_key ?t' j = ht_key t j" for j
      using ht_frame_key [OF s] ht_frame_key [of ?t1 ?t'] D key1 by metis
    have "ht_interval ?t1 = ht_interval ?s"
      by (rule ext) (auto simp: ht_interval_def pop_back_def upd_entry_def split: option.splits)
    then have iv: "ht_interval ?t' = ht_interval t"
      using ht_frame_interval [OF s] ht_frame_interval [of ?t1 ?t'] D by metis
    have m: "mset (ht_heap t) = add_mset k (mset (ht_heap ?t'))" "k \<notin># mset (ht_heap ?t')"
      using o D by (auto simp: ht_frame_def dest: mset_eq_setD)
    have "set (ht_heap t) = insert k (set (ht_heap ?t'))" using m(1) by (metis set_mset_add_mset_insert set_mset_mset)
    moreover have "due now t = add_mset k (due now ?t')" by (rule due_step [OF m top]) (use key in auto)
    ultimately show ?thesis using r D key iv m by (auto simp: round_outcome_def)
  qed
qed

lemma round_repeat:
  assumes i: "ht_inv t" and ne: "ht_heap t \<noteq> []" and k: "k = ht_heap t ! 0" and top: "ht_key t k \<le> now"
    and e: "ht_timers t k = Some e" "he_repeat e \<noteq> 1" "0 < he_interval e"
  shows "\<exists>t'. detect_round now t = Some (k, t') \<and> round_outcome now t k t' \<and>
    now < ht_key t' k \<and> ht_key t' k \<le> now + he_interval e \<and> k \<in> set (ht_heap t')"
proof -
  have l: "ht_links t" "is_heap (ht_key t) (ht_heap t)" "length (ht_heap t) < 2 ^ 31"
    using i by (auto simp: ht_inv_def)
  have kin: "k \<in> set (ht_heap t)" using k ne by simp
  have kx: "ht_key t k = he_expires e" by (simp add: ht_key_def e)
  obtain x where x: "advance (he_expires e) (he_interval e) now = Some x" "now < x" "x \<le> now + he_interval e"
    using advance_pos [OF e(3), of "he_expires e" now] top kx by auto
  define rep where "rep = (if he_repeat e > 0 then he_repeat e - 1 else he_repeat e)"
  define t1 where "t1 = upd_entry k (\<lambda>y. y\<lparr>he_repeat := rep, he_expires := x\<rparr>) t"
  have r: "detect_round now t = Some (k, DownHeap 0 t1)"
    using e x k by (simp add: detect_round_def Let_def t1_def rep_def)
  have t1: "ht_heap t1 = ht_heap t" "ht_timerId t1 = ht_timerId t"
    "ht_timers t1 = (ht_timers t)(k \<mapsto> e\<lparr>he_repeat := rep, he_expires := x\<rparr>)"
    by (simp_all add: t1_def upd_entry_def e)
  have key1: "ht_key t1 = (ht_key t)(k := x)" by (rule ext) (simp add: ht_key_def t1)
  have iv1: "ht_interval t1 = ht_interval t" by (rule ext) (auto simp: ht_interval_def t1 e)
  have "\<exists>e'. ht_timers t1 (ht_heap t ! j) = Some e' \<and> he_heapIndex e' = int j" if "j < length (ht_heap t)" for j
    using l(1) e(1) that by (cases "ht_heap t ! j = k") (auto simp: t1 ht_links_def)
  then have links: "ht_links t1" using l(1) by (simp add: ht_links_def t1(1))
  have "heap_down_from ((ht_key t)(ht_heap t ! 0 := x)) (ht_heap t) 0"
    by (rule heap_raise_key [OF l(2)]) (use l ne top x kx k in \<open>auto simp: ht_links_def\<close>)
  then have dn: "heap_down_from (ht_key t1) (ht_heap t1) 0" by (simp add: key1 t1 k)
  have ent: "j \<le> ht_timerId t1 \<and> he_timerId e' = j \<and> (j \<in> set (ht_heap t1) \<or> he_heapIndex e' = - 1)"
    if "ht_timers t1 j = Some e'" for j e'
    using i that e kin unfolding ht_inv_def t1 by (cases "j = k") auto
  have D: "ht_inv (DownHeap 0 t1) \<and> ht_frame t1 (DownHeap 0 t1)"
    by (rule ht_inv_DownHeap [OF links dn _ ent]) (use l(3) t1 in auto)
  have key: "ht_key (DownHeap 0 t1) = (ht_key t)(k := x)" using D ht_frame_key key1 by metis
  have iv: "ht_interval (DownHeap 0 t1) = ht_interval t" using D ht_frame_interval iv1 by metis
  have m: "mset (ht_heap (DownHeap 0 t1)) = mset (ht_heap t)" using D t1 by (simp add: ht_frame_def)
  obtain h where h: "ht_heap t = k # h" using ne k by (cases "ht_heap t") auto
  have "due now t = add_mset k (due now (DownHeap 0 t1))"
    by (rule due_step [where M = "mset h"]) (use h l(1) top key m x in \<open>auto simp: ht_links_def\<close>)
  then show ?thesis using r D key iv m x kin mset_eq_setD [OF m] by (auto simp: round_outcome_def)
qed

lemma due_empty_iff: "ht_inv t \<Longrightarrow> due now t = {#} \<longleftrightarrow> ht_heap t = [] \<or> now < ht_key t (ht_heap t ! 0)"
proof -
  assume i: "ht_inv t"
  have min: "ht_key t (ht_heap t ! 0) \<le> ht_key t j" if "j \<in> set (ht_heap t)" for j
    using is_heap_min [of "ht_key t" "ht_heap t"] i that by (auto simp: ht_inv_def in_set_conv_nth)
  have "due now t = {#} \<longleftrightarrow> (\<forall>j \<in> set (ht_heap t). now < ht_key t j)"
    by (auto simp: due_def filter_mset_eq_mempty_iff)
  also have "\<dots> \<longleftrightarrow> ht_heap t = [] \<or> now < ht_key t (ht_heap t ! 0)"
    using min nth_mem [of 0 "ht_heap t"] by (cases "ht_heap t = []") fastforce+
  finally show ?thesis .
qed

lemma due_min: "ht_inv t \<Longrightarrow> j \<in># due now t \<Longrightarrow> ht_key t (ht_heap t ! 0) \<le> ht_key t j"
  using is_heap_min [of "ht_key t" "ht_heap t"] by (fastforce simp: ht_inv_def due_def in_set_conv_nth)

lemma detect_loop_ok:
  assumes "ht_inv t" "\<And>k. k \<in> set (ht_heap t) \<Longrightarrow> 0 < ht_interval t k"
  shows "\<exists>ks t'. detect_loop now t acc = Some (acc @ ks, t') \<and> mset ks = due now t \<and>
    sorted (map (ht_key t) ks) \<and> ht_inv t' \<and> due now t' = {#}"
  using assms
proof (induction "size (due now t)" arbitrary: t acc)
  case 0
  then have "due now t = {#}" by simp
  moreover from this have "detect_loop now t acc = Some (acc, t)"
    using due_empty_iff [OF "0.prems"(1), of now] by (subst detect_loop.simps) auto
  ultimately show ?case using 0 by (intro exI [of _ "[]"] exI [of _ t]) simp
next
  case (Suc n)
  let ?k = "ht_heap t ! 0"
  have ne: "ht_heap t \<noteq> []" "ht_key t ?k \<le> now"
    using Suc.hyps(2) due_empty_iff [OF Suc.prems(1), of now] by auto
  obtain e where e: "ht_timers t ?k = Some e" using ht_inv_entry [OF Suc.prems(1)] ne by (metis nth_mem length_greater_0_conv)
  have "0 < he_interval e" using Suc.prems(2) [of ?k] ne e by (simp add: ht_interval_def)
  then obtain t1 where t1: "detect_round now t = Some (?k, t1)" "round_outcome now t ?k t1"
    using round_last [OF Suc.prems(1) ne(1) refl ne(2) e] round_repeat [OF Suc.prems(1) ne(1) refl ne(2) e] by blast
  have d: "due now t = add_mset ?k (due now t1)" using t1(2) by (simp add: round_outcome_def)
  then have "n = size (due now t1)" using Suc.hyps(2) by simp
  moreover have "0 < ht_interval t1 j" if "j \<in> set (ht_heap t1)" for j
    using that t1(2) Suc.prems(2) by (auto simp: round_outcome_def)
  moreover have "ht_inv t1" using t1(2) by (simp add: round_outcome_def)
  ultimately obtain ks t' where IH: "detect_loop now t1 (acc @ [?k]) = Some (acc @ ?k # ks, t')" "mset ks = due now t1"
    "sorted (map (ht_key t1) ks)" "ht_inv t'" "due now t' = {#}"
    using Suc.hyps(1) [of t1 "acc @ [?k]"] by auto
  have dist: "?k \<notin># due now t1"
  proof -
    have "distinct (ht_heap t)" using Suc.prems(1) by (simp add: ht_inv_def ht_links_def)
    then have "count (due now t) ?k \<le> 1" by (simp add: due_def distinct_count_atmost_1)
    then show ?thesis by (simp add: d count_eq_zero_iff)
  qed
  have key: "ht_key t1 j = ht_key t j" if "j \<in> set ks" for j
    using that dist IH(2) t1(2) by (metis round_outcome_def set_mset_mset)
  have "ht_key t ?k \<le> ht_key t j" if "j \<in> set ks" for j
    using that due_min [OF Suc.prems(1)] d IH(2) by (metis insert_iff set_mset_add_mset_insert set_mset_mset)
  then have "sorted (map (ht_key t) (?k # ks))"
    using IH(3) key by (simp cong: map_cong)
  moreover have "detect_loop now t acc = Some (acc @ ?k # ks, t')"
    using ne t1(1) IH(1) by (subst detect_loop.simps) simp
  ultimately show ?case using IH d by (intro exI [of _ "?k # ks"] exI [of _ t']) simp
qed

lemma detect_loop_zero_interval:
  assumes "ht_heap t \<noteq> []" "ht_timers t (ht_heap t ! 0) = Some e"
    and "he_expires e \<le> now" "he_interval e = 0" "he_repeat e \<noteq> 1"
  shows "detect_loop now t acc = None"
  using assms advance_zero_interval [OF assms(3)]
  by (subst detect_loop.simps) (simp add: detect_round_def Let_def ht_key_def)

text \<open>The callbacks: entries that left the heap are erased first, so the invariant is what each callback sees.\<close>

lemma erase_pending_inv:
  assumes "ht_inv t" "ht_timers t k = Some e" "he_heapIndex e = - 1"
  shows "ht_inv (erase_timer k t)"
proof -
  have out: "k \<notin> set (ht_heap t)"
    using assms by (auto simp: ht_inv_def ht_links_def in_set_conv_nth)
  then have nth: "ht_heap t ! i \<noteq> k" if "i < length (ht_heap t)" for i using that nth_mem by metis
  have "ht_key (erase_timer k t) j = ht_key t j" if "j \<in> set (ht_heap t)" for j
    using that out by (auto simp: ht_key_def erase_timer_def)
  then have "is_heap (ht_key (erase_timer k t)) (ht_heap t)"
    using assms(1) heap_cong(1) [of "ht_heap t" "ht_key (erase_timer k t)" "ht_key t"] by (simp add: ht_inv_def)
  moreover have "ht_links (erase_timer k t)"
    using assms(1) nth by (simp add: ht_inv_def ht_links_def erase_timer_def)
  ultimately show ?thesis using assms(1) by (auto simp: ht_inv_def erase_timer_def split: if_splits)
qed

text \<open>What the heap operations do to the entries apart from their heap indices.\<close>

definition body :: "HeapTimer \<Rightarrow> int \<Rightarrow> HeapEntry option" where
  "body t k = map_option (he_heapIndex_update (\<lambda>_. 0)) (ht_timers t k)"

definition fn :: "HeapTimer \<Rightarrow> int \<Rightarrow> nat option" where
  "fn t k = map_option he_func (ht_timers t k)"

definition waiting :: "HeapTimer \<Rightarrow> int set" where
  "waiting t = dom (ht_timers t) - set (ht_heap t)"

definition last_time :: "HeapTimer \<Rightarrow> int \<Rightarrow> bool" where
  "last_time t k \<longleftrightarrow> (\<exists>e. ht_timers t k = Some e \<and> he_repeat e = 1)"

lemma body_facts:
  assumes "body t' k = body t k"
  shows "fn t' k = fn t k" "last_time t' k = last_time t k" "k \<in> dom (ht_timers t') \<longleftrightarrow> k \<in> dom (ht_timers t)"
proof -
  have "map_option he_func (body u k) = fn u k" "(\<exists>e. body u k = Some e \<and> he_repeat e = 1) = last_time u k" "(k \<in> dom (body u)) = (k \<in> dom (ht_timers u))" for u
    by (auto simp: body_def fn_def last_time_def option.map_comp comp_def)
  then show "fn t' k = fn t k" "last_time t' k = last_time t k" "k \<in> dom (ht_timers t') \<longleftrightarrow> k \<in> dom (ht_timers t)"
    using assms by (metis, metis, metis domIff)
qed

lemma body_index [simp]: "body (upd_entry k (he_heapIndex_update (\<lambda>_. j)) t) = body t"
  by (rule ext) (simp add: body_def upd_entry_def option.map_comp comp_def)

lemma body_heap [simp]: "body (t\<lparr>ht_heap := h\<rparr>) = body t"
  by (rule ext) (simp add: body_def)

lemma body_Swap [simp]: "body (SwapHeap i j t) = body t"
  by (simp add: SwapHeap_def Let_def)

lemma body_Up [simp]: "body (UpHeap i t) = body t \<and> ht_timerId (UpHeap i t) = ht_timerId t"
proof (induction i t rule: UpHeap.induct)
  case (1 i t) then show ?case by (subst (1 2) UpHeap.simps) simp
qed

lemma body_Down [simp]: "body (DownHeap i t) = body t \<and> ht_timerId (DownHeap i t) = ht_timerId t"
proof (induction i t rule: DownHeap.induct)
  case (1 i t) then show ?case by (subst (1 2) DownHeap.simps) (simp add: Let_def)
qed

lemma register_body:
  assumes "register_timer now func interval delay reps t = (k, t')"
  shows "k = ht_timerId t + 1 \<and> ht_timerId t' = k \<and> (\<forall>j. j \<noteq> k \<longrightarrow> body t' j = body t j) \<and> k \<in> dom (ht_timers t')"
proof -
  let ?e = "\<lparr>he_func = func, he_timerId = ht_timerId t + 1, he_interval = interval, he_expires = (if delay = 0 then interval else delay) + now,
    he_repeat = reps, he_heapIndex = int (length (ht_heap t))\<rparr>"
  let ?t1 = "\<lparr>ht_timers = (ht_timers t)(ht_timerId t + 1 \<mapsto> ?e), ht_heap = ht_heap t @ [ht_timerId t + 1], ht_timerId = ht_timerId t + 1\<rparr>"
  have k: "k = ht_timerId t + 1" "t' = UpHeap (length (ht_heap t)) ?t1"
    using assms unfolding register_timer_def Let_def by auto
  have "body t' = body ?t1" "ht_timerId t' = ht_timerId t + 1" unfolding k(2) by simp_all
  moreover have "k \<in> dom (ht_timers t')" using body_facts(3) [of t' k ?t1] calculation k(1) by auto
  ultimately show ?thesis using k(1) by (simp add: body_def)
qed

lemma unregister_body:
  assumes "unregister_timer k t = Inr t'"
  shows "body t' = (body t)(k := None) \<and> ht_timerId t' = ht_timerId t"
proof -
  have er: "body (erase_timer k u) = (body u)(k := None)" "body (pop_back u) = body u" "ht_timerId (erase_timer k u) = ht_timerId u"
    "ht_timerId (pop_back u) = ht_timerId u" for u
    by (auto simp: body_def erase_timer_def pop_back_def fun_eq_iff)
  show ?thesis
  proof (cases "ht_timers t k")
    case None
    then show ?thesis using assms by (auto simp: unregister_timer_def body_def fun_eq_iff)
  next
    case (Some e)
    then show ?thesis using assms by (auto simp: unregister_timer_def Let_def er split: if_splits)
  qed
qed

lemma round_body:
  assumes "detect_round now t = Some (k, t')"
  shows "(\<forall>j. j \<noteq> k \<longrightarrow> body t' j = body t j) \<and> fn t' k = fn t k \<and> ht_timerId t' = ht_timerId t"
proof -
  have pop: "body (pop_back u) = body u" "ht_timerId (pop_back u) = ht_timerId u" for u by (auto simp: body_def pop_back_def fun_eq_iff)
  have upd: "body (upd_entry k f u) j = body u j" if "j \<noteq> k" for f u j using that by (simp add: body_def upd_entry_def)
  have fnu: "fn (upd_entry k (\<lambda>x. x\<lparr>he_repeat := a, he_expires := b\<rparr>) u) k = fn u k" for a b u
    by (simp add: fn_def upd_entry_def option.map_comp comp_def)
  have tid: "ht_timerId (upd_entry j f u) = ht_timerId u" for j f u by (simp add: upd_entry_def)
  show ?thesis
  proof (cases "ht_timers t (ht_heap t ! 0)")
    case (Some e)
    show ?thesis
    proof (cases "he_repeat e = 1")
      case True
      then have "body t' = body t \<and> ht_timerId t' = ht_timerId t"
        using assms Some by (auto simp: detect_round_def Let_def pop tid split: if_splits)
      then show ?thesis using body_facts(1) [of t' k t] by auto
    next
      case False
      then obtain a b where t': "t' = DownHeap 0 (upd_entry k (\<lambda>x. x\<lparr>he_repeat := a, he_expires := b\<rparr>) t)"
        using assms Some by (auto simp: detect_round_def Let_def split: option.splits)
      then have "fn t' k = fn t k" using body_facts(1) [of t' k "upd_entry k (\<lambda>x. x\<lparr>he_repeat := a, he_expires := b\<rparr>) t"] fnu by simp
      then show ?thesis using upd tid t' by simp
    qed
  qed (use assms in \<open>simp add: detect_round_def Let_def\<close>)
qed

text \<open>The detection loop takes out of the heap exactly those of the due timers that are due for the last time.\<close>

lemma detect_loop_waiting:
  assumes "ht_inv t" "\<And>k. k \<in> set (ht_heap t) \<Longrightarrow> 0 < ht_interval t k" "detect_loop now t acc = Some (ks, t')"
  shows "fn t' = fn t \<and> ht_timerId t' = ht_timerId t \<and> set (ht_heap t') \<subseteq> set (ht_heap t) \<and>
    waiting t' \<subseteq> waiting t \<union> {k. k \<in># due now t \<and> last_time t k}"
  using assms
proof (induction "size (due now t)" arbitrary: t acc)
  case 0
  then have "due now t = {#}" by simp
  then have "detect_loop now t acc = Some (acc, t)"
    using due_empty_iff [OF "0.prems"(1), of now] by (subst detect_loop.simps) auto
  then show ?case using "0.prems"(3) by simp
next
  case (Suc n)
  let ?k = "ht_heap t ! 0"
  have ne: "ht_heap t \<noteq> []" "ht_key t ?k \<le> now"
    using Suc.hyps(2) due_empty_iff [OF Suc.prems(1), of now] by auto
  obtain e where e: "ht_timers t ?k = Some e" using ht_inv_entry [OF Suc.prems(1)] ne by (metis nth_mem length_greater_0_conv)
  have iv: "0 < he_interval e" using Suc.prems(2) [of ?k] ne e by (simp add: ht_interval_def)
  obtain t1 where t1: "detect_round now t = Some (?k, t1)" "round_outcome now t ?k t1" "?k \<notin> set (ht_heap t1) \<longrightarrow> he_repeat e = 1"
    using round_last [OF Suc.prems(1) ne(1) refl ne(2) e] round_repeat [OF Suc.prems(1) ne(1) refl ne(2) e _ iv] by blast
  have d: "due now t = add_mset ?k (due now t1)" using t1(2) by (simp add: round_outcome_def)
  have "distinct (ht_heap t)" using Suc.prems(1) by (simp add: ht_inv_def ht_links_def)
  then have "count (due now t) ?k \<le> 1" by (simp add: due_def distinct_count_atmost_1)
  then have dist: "?k \<notin># due now t1" by (simp add: d count_eq_zero_iff)
  note b = round_body [OF t1(1)]
  have "n = size (due now t1)" using d Suc.hyps(2) by simp
  moreover have "0 < ht_interval t1 j" if "j \<in> set (ht_heap t1)" for j
    using that t1(2) Suc.prems(2) by (auto simp: round_outcome_def)
  moreover have "ht_inv t1" using t1(2) by (simp add: round_outcome_def)
  moreover have "detect_loop now t1 (acc @ [?k]) = Some (ks, t')" using Suc.prems(3) ne t1(1) by (subst (asm) detect_loop.simps) simp
  ultimately have IH: "fn t' = fn t1" "ht_timerId t' = ht_timerId t1" "set (ht_heap t') \<subseteq> set (ht_heap t1)"
    "waiting t' \<subseteq> waiting t1 \<union> {k. k \<in># due now t1 \<and> last_time t1 k}" using Suc.hyps(1) [of t1 "acc @ [?k]"] by auto
  have fn: "fn t1 = fn t" using b body_facts(1) [of t1 _ t] by (intro ext) (metis)
  have dom: "dom (ht_timers t1) = dom (ht_timers t)" 
  proof (rule set_eqI)
    fix x show "x \<in> dom (ht_timers t1) \<longleftrightarrow> x \<in> dom (ht_timers t)"
      using fun_cong [OF fn, of x] by (cases "ht_timers t1 x"; cases "ht_timers t x") (auto simp: fn_def)
  qed
  have "last_time t ?k" if "?k \<notin> set (ht_heap t1)" using that t1(3) e by (simp add: last_time_def)
  then have "waiting t1 \<subseteq> waiting t \<union> {k. k \<in># due now t \<and> last_time t k}"
    using t1(2) dom d by (auto simp: waiting_def round_outcome_def)
  moreover have "last_time t1 j = last_time t j" if "j \<in># due now t1" for j
    using b body_facts(2) [of t1 j t] that dist by metis
  ultimately have "waiting t' \<subseteq> waiting t \<union> {k. k \<in># due now t \<and> last_time t k}" using IH(4) d by auto
  then show ?case using IH fn b t1(2) by (auto simp: round_outcome_def)
qed

lemma do_acts_ok:
  assumes "ht_inv t" "\<And>j. Act_cancel j \<in> set as \<Longrightarrow> j \<notin> waiting t" "length (ht_heap t) + length as < 2 ^ 31"
  shows "\<exists>t'. do_acts now as t = Inr t' \<and> ht_inv t' \<and> waiting t' = waiting t \<and> length (ht_heap t') \<le> length (ht_heap t) + length as \<and>
    ht_timerId t \<le> ht_timerId t' \<and> (\<forall>j \<le> ht_timerId t. fn t' j = (if Act_cancel j \<in> set as then None else fn t j))"
  using assms
proof (induction now as t rule: do_acts.induct)
  case (2 now func interval delay reps as t)
  obtain k t1 where r: "register_timer now func interval delay reps t = (k, t1)" by fastforce
  note ok = register_ok [OF "2.prems"(1) _ r] and b = register_body [OF r]
  have t1: "ht_inv t1" "mset (ht_heap t1) = add_mset k (mset (ht_heap t))" "k \<notin> dom (ht_timers t)" using ok "2.prems"(3) by auto
  have len: "length (ht_heap t1) = length (ht_heap t) + 1" using t1(2) by (metis size_mset size_add_mset Suc_eq_plus1)
  have set: "set (ht_heap t1) = insert k (set (ht_heap t))" using t1(2) by (metis set_mset_add_mset_insert set_mset_mset)
  have dom: "j \<in> dom (ht_timers t1) \<longleftrightarrow> j = k \<or> j \<in> dom (ht_timers t)" for j using b body_facts(3) [of t1 j t] by (cases "j = k") auto
  have w: "waiting t1 = waiting t" using dom set t1(3) by (auto simp: waiting_def)
  have f: "fn t1 j = fn t j" if "j \<le> ht_timerId t" for j using b body_facts(1) [of t1 j t] that by auto
  have IH: "\<exists>t'. do_acts now as t1 = Inr t' \<and> ht_inv t' \<and> waiting t' = waiting t1 \<and> length (ht_heap t') \<le> length (ht_heap t1) + length as \<and>
    ht_timerId t1 \<le> ht_timerId t' \<and> (\<forall>j \<le> ht_timerId t1. fn t' j = (if Act_cancel j \<in> set as then None else fn t1 j))"
    using "2.IH" [unfolded r snd_conv, OF t1(1)] "2.prems"(2,3) w len by simp
  then show ?case using w f len b by (auto simp: r)
next
  case (3 now k as t)
  have "k \<notin> waiting t" using "3.prems"(2) by simp
  then consider "ht_timers t k = None" | "k \<in> set (ht_heap t)" by (auto simp: waiting_def)
  then obtain t1 where t1: "unregister_timer k t = Inr t1" "ht_inv t1" "waiting t1 = waiting t" "length (ht_heap t1) \<le> length (ht_heap t)"
  proof cases
    case 1 then show thesis using that [of t] "3.prems"(1) by (simp add: unregister_timer_def)
  next
    case 2
    from unregister_ok [OF "3.prems"(1) 2] obtain t1 where u: "unregister_timer k t = Inr t1" "ht_inv t1" "ht_timers t1 k = None"
      "mset (ht_heap t) = add_mset k (mset (ht_heap t1))" by blast
    have "distinct (ht_heap t)" using "3.prems"(1) by (simp add: ht_inv_def ht_links_def)
    then have "count (mset (ht_heap t)) k \<le> 1" by (simp add: distinct_count_atmost_1)
    then have "count (mset (ht_heap t1)) k = 0" unfolding u(4) by simp
    then have k: "k \<notin> set (ht_heap t1)" by (simp add: count_eq_zero_iff)
    have set: "set (ht_heap t) = insert k (set (ht_heap t1))" using u(4) by (metis set_mset_add_mset_insert set_mset_mset)
    have "j \<in> dom (ht_timers t1) \<longleftrightarrow> j \<noteq> k \<and> j \<in> dom (ht_timers t)" for j
      using unregister_body [OF u(1)] body_facts(3) [of t1 j t] u(3) by (cases "j = k") auto
    then have "waiting t1 = waiting t" using set k by (auto simp: waiting_def)
    moreover have "length (ht_heap t1) \<le> length (ht_heap t)" using u(4) by (metis le_add1 size_mset size_add_mset Suc_eq_plus1)
    ultimately show thesis using that u by blast
  qed
  have f: "fn t1 j = (if j = k then None else fn t j)" for j
    using unregister_body [OF t1(1)] body_facts(1) [of t1 j t] by (cases "j = k") (auto simp: body_def fn_def dest!: fun_cong [of _ _ k])
  have tid: "ht_timerId t1 = ht_timerId t" using unregister_body [OF t1(1)] by simp
  have "\<exists>t'. do_acts now as t1 = Inr t' \<and> ht_inv t' \<and> waiting t' = waiting t1 \<and> length (ht_heap t') \<le> length (ht_heap t1) + length as \<and>
    ht_timerId t1 \<le> ht_timerId t' \<and> (\<forall>j \<le> ht_timerId t1. fn t' j = (if Act_cancel j \<in> set as then None else fn t1 j))"
    by (rule "3.IH" [OF t1(2)]) (use t1 "3.prems" in auto)
  then show ?case using t1 f tid by auto
qed simp

text \<open>
  The callbacks that a round makes, for the timers \<open>ks\<close> in their order with callbacks \<open>F\<close>: a timer that an
  earlier callback of the round has cancelled (\<open>C\<close>) is not called.
\<close>

fun called :: "(nat \<Rightarrow> timer_act list) \<Rightarrow> (int \<Rightarrow> nat) \<Rightarrow> int list \<Rightarrow> int set \<Rightarrow> nat list" where
  "called acts F [] C = []"
| "called acts F (k # ks) C =
     (if k \<in> C then called acts F ks C
      else F k # called acts F ks (C \<union> {j. Act_cancel j \<in> set (acts (F k))}))"

lemma erase_waiting:
  assumes "ht_inv t" "ht_timers t k = Some e" "he_heapIndex e = - 1"
  shows "waiting (erase_timer k t) = waiting t - {k}" "ht_heap (erase_timer k t) = ht_heap t" "ht_timerId (erase_timer k t) = ht_timerId t"
    "j \<noteq> k \<Longrightarrow> fn (erase_timer k t) j = fn t j"
  by (auto simp: waiting_def erase_timer_def fn_def)

lemma index_waiting:
  assumes "ht_inv t" "ht_timers t k = Some e" "he_heapIndex e \<noteq> - 1"
  shows "k \<notin> waiting t"
  using assms by (auto simp: ht_inv_def waiting_def)

lemma run_callbacks_ok:
  assumes "ht_inv t" "distinct ks" "waiting t \<subseteq> set ks" "\<forall>k \<in> set ks. k \<le> ht_timerId t"
    and "\<forall>k \<in> set ks. fn t k = (if k \<in> C then None else Some (F k))"
    and "\<forall>k \<in> set ks. \<forall>j. Act_cancel j \<in> set (acts (F k)) \<and> j \<in> waiting t \<longrightarrow> j = k"
    and "\<forall>f. length (acts f) \<le> B" "length (ht_heap t) + B * length ks < 2 ^ 31"
  shows "\<exists>t'. run_callbacks (acting acts) now ks (t, w) = Inr (t', w @ called acts F ks C) \<and> ht_inv t' \<and> waiting t' = {}"
  using assms
proof (induction ks arbitrary: t C w)
  case (Cons k ks)
  show ?case
  proof (cases "k \<in> C")
    case True
    then have "ht_timers t k = None" using Cons.prems(5) by (auto simp: fn_def)
    moreover from this have "waiting t \<subseteq> set ks" using Cons.prems(3) by (auto simp: waiting_def)
    ultimately show ?thesis using Cons.IH [of t C w] Cons.prems True by auto
  next
    case False
    let ?C = "C \<union> {j. Act_cancel j \<in> set (acts (F k))}"
    obtain e where e: "ht_timers t k = Some e" "he_func e = F k" using Cons.prems(5) False by (auto simp: fn_def)
    define t1 where "t1 = (if he_heapIndex e = - 1 then erase_timer k t else t)"
    have t1: "ht_inv t1" "waiting t1 = waiting t - {k}" "ht_heap t1 = ht_heap t" "ht_timerId t1 = ht_timerId t" "\<And>j. j \<noteq> k \<Longrightarrow> fn t1 j = fn t j"
      using erase_pending_inv [OF Cons.prems(1) e(1)] erase_waiting [OF Cons.prems(1) e(1)] index_waiting [OF Cons.prems(1) e(1)] Cons.prems(1)
      by (auto simp: t1_def)
    have B: "length (acts (F k)) \<le> B" using Cons.prems(7) by simp
    have len: "length (ht_heap t1) + length (acts (F k)) < 2 ^ 31" using B Cons.prems(8) unfolding t1(3) by simp
    have safe: "j \<notin> waiting t1" if "Act_cancel j \<in> set (acts (F k))" for j using that Cons.prems(6) t1(2) by auto
    from do_acts_ok [OF t1(1) safe len, of now] obtain t2 where t2: "do_acts now (acts (F k)) t1 = Inr t2" "ht_inv t2" "waiting t2 = waiting t1"
      "length (ht_heap t2) \<le> length (ht_heap t) + length (acts (F k))" "ht_timerId t \<le> ht_timerId t2"
      "\<forall>j \<le> ht_timerId t. fn t2 j = (if Act_cancel j \<in> set (acts (F k)) then None else fn t1 j)"
      unfolding t1(3,4) by blast
    have step: "run_callbacks (acting acts) now (k # ks) (t, w) = run_callbacks (acting acts) now ks (t2, w @ [F k])"
      using e t2(1) by (auto simp: t1_def acting_def split: if_splits)
    have w2: "waiting t2 = waiting t - {k}" using t2(3) t1(2) by simp
    have f2: "\<forall>j \<in> set ks. fn t2 j = (if j \<in> ?C then None else Some (F j))"
    proof
      fix j assume j: "j \<in> set ks"
      then have "j \<noteq> k" "j \<le> ht_timerId t" using Cons.prems(2,4) by auto
      then have "fn t2 j = (if Act_cancel j \<in> set (acts (F k)) then None else fn t j)" using t2(6) t1(5) by simp
      then show "fn t2 j = (if j \<in> ?C then None else Some (F j))" using Cons.prems(5) j by simp
    qed
    have "\<exists>t'. run_callbacks (acting acts) now ks (t2, w @ [F k]) = Inr (t', (w @ [F k]) @ called acts F ks ?C) \<and> ht_inv t' \<and> waiting t' = {}"
    proof (rule Cons.IH [OF t2(2)])
      show "distinct ks" "\<forall>k \<in> set ks. k \<le> ht_timerId t2" using Cons.prems(2,4) t2(5) by auto
      show "waiting t2 \<subseteq> set ks" using Cons.prems(3) w2 by auto
      show "\<forall>k \<in> set ks. \<forall>j. Act_cancel j \<in> set (acts (F k)) \<and> j \<in> waiting t2 \<longrightarrow> j = k" using Cons.prems(6) w2 by auto
      show "\<forall>f. length (acts f) \<le> B" by (rule Cons.prems(7))
      show "length (ht_heap t2) + B * length ks < 2 ^ 31" using Cons.prems(8) t2(4) B by simp
    qed (rule f2)
    then show ?thesis unfolding step using False by simp
  qed
qed (auto)

subsection \<open>Sample states\<close>

definition ht_sample :: HeapTimer where
  "ht_sample = \<lparr>ht_timers =
     [1 \<mapsto> \<lparr>he_func = 7, he_timerId = 1, he_interval = 10, he_expires = 10, he_repeat = 0, he_heapIndex = 0\<rparr>,
      2 \<mapsto> \<lparr>he_func = 8, he_timerId = 2, he_interval = 30, he_expires = 30, he_repeat = 1, he_heapIndex = 1\<rparr>],
     ht_heap = [1, 2], ht_timerId = 2\<rparr>"

text \<open>Two one-shot timers that expired in the same round, before their callbacks ran.\<close>

definition ht_expired :: HeapTimer where
  "ht_expired = \<lparr>ht_timers =
     [1 \<mapsto> \<lparr>he_func = 7, he_timerId = 1, he_interval = 10, he_expires = 10, he_repeat = 1, he_heapIndex = - 1\<rparr>,
      2 \<mapsto> \<lparr>he_func = 8, he_timerId = 2, he_interval = 30, he_expires = 30, he_repeat = 1, he_heapIndex = - 1\<rparr>],
     ht_heap = [], ht_timerId = 2\<rparr>"

lemma ht_sample_inv: "ht_inv ht_sample"
  by (auto simp: ht_inv_def ht_links_def is_heap_def ht_sample_def ht_key_def parent_def less_Suc_eq
      split: if_splits)

lemma ht_expired_inv: "ht_inv ht_expired"
  by (auto simp: ht_inv_def ht_links_def is_heap_def ht_expired_def split: if_splits)

lemma ht_sample_intervals: "k \<in> set (ht_heap ht_sample) \<Longrightarrow> 0 < ht_interval ht_sample k"
  by (auto simp: ht_sample_def ht_interval_def)


section \<open>Properties\<close>

text \<open>C32. Registering a timer returns a fresh id, inserts exactly that timer, due after \<open>delay\<close> (or
  \<open>interval\<close> when no delay is given), leaves every other timer's expiry alone and keeps the invariant:
  entry and vector point at each other and the vector is a min-heap on the expiry times.\<close>

theorem register_timer_correct:
  assumes "ht_inv t" "length (ht_heap t) + 1 < 2 ^ 31"
    and "register_timer now func interval delay reps t = (k, t')"
  shows "ht_inv t' \<and> k \<notin> dom (ht_timers t) \<and>
    mset (ht_heap t') = add_mset k (mset (ht_heap t)) \<and>
    ht_key t' k = (if delay = 0 then interval else delay) + now \<and>
    (\<forall>j \<in> dom (ht_timers t). ht_key t' j = ht_key t j)"
  by (rule register_ok [OF assms])

theorem register_timer_correct_witness:
  "ht_inv (snd (register_timer 100 9 50 5 3 ht_sample))"
  using register_timer_correct [OF ht_sample_inv, of 100 9 50 5 3] 
  by (cases "register_timer 100 9 50 5 3 ht_sample") (simp add: ht_sample_def)

text \<open>Cancelling a timer that is still in the heap succeeds, removes exactly that timer, leaves the
  other expiry times alone and keeps the invariant.\<close>

theorem unregister_timer_correct:
  assumes "ht_inv t" "k \<in> set (ht_heap t)"
  shows "\<exists>t'. unregister_timer k t = Inr t' \<and> ht_inv t' \<and> ht_timers t' k = None \<and>
    mset (ht_heap t) = add_mset k (mset (ht_heap t')) \<and> (\<forall>j. j \<noteq> k \<longrightarrow> ht_key t' j = ht_key t j)"
  by (rule unregister_ok [OF assms])

theorem unregister_timer_correct_witness:
  "\<exists>t'. unregister_timer 1 ht_sample = Inr t' \<and> ht_timers t' 1 = None"
  using unregister_timer_correct [OF ht_sample_inv, of 1] by (auto simp: ht_sample_def)

text \<open>C28. When every interval is positive, the detection loop of \<open>DetectTimers\<close> ends, reports every due
  timer exactly once and in the order of expiry, and leaves no due timer in a well-formed heap.\<close>

theorem detect_loop_exact:
  assumes "ht_inv t" "\<And>k. k \<in> set (ht_heap t) \<Longrightarrow> 0 < ht_interval t k"
  shows "\<exists>ks t'. detect_loop now t [] = Some (ks, t') \<and> mset ks = due now t \<and>
    sorted (map (ht_key t) ks) \<and> ht_inv t' \<and> due now t' = {#}"
  using detect_loop_ok [OF assms, of now "[]"] by simp

theorem detect_loop_exact_witness:
  "\<exists>t'. detect_loop 45 ht_sample [] = Some ([1, 2], t') \<and> due 45 t' = {#}"
proof -
  obtain ks t' where d: "detect_loop 45 ht_sample [] = Some (ks, t')" "mset ks = due 45 ht_sample"
    "sorted (map (ht_key ht_sample) ks)" "due 45 t' = {#}"
    using detect_loop_exact [OF ht_sample_inv ht_sample_intervals, of 45] by blast
  have m: "mset ks = mset [1, 2]" using d(2) by (simp add: due_def ht_sample_def ht_key_def)
  then have "length ks = Suc (Suc 0)" "set ks = {1, 2}" using mset_eq_length [OF m] mset_eq_setD [OF m] by simp_all
  moreover have "ht_key ht_sample 1 = 10" "ht_key ht_sample 2 = 30" by (simp_all add: ht_sample_def ht_key_def)
  ultimately have "ks = [1, 2]" using d(3)
    by (auto simp: length_Suc_conv doubleton_eq_iff)
  with d show ?thesis by blast
qed

text \<open>C33. \<open>DetectTimers\<close> returns, and it calls the callback of every due timer exactly once, in the order of the expiry times,
  except for timers that an earlier callback of the same round has cancelled; the callbacks may register timers and cancel timers. Afterwards
  the heap is well formed again and every timer that is left is in it. Before the call the timers are as they are
  between two rounds (every timer is in the heap) and intervals are positive. A callback is a fixed sequence of registrations and
  cancellations; it may cancel its own timer, repeating timers and unknown ids, but not another timer that is due for
  the last time in this round: the code then reads outside its heap (theorem \<open>cancel_expired_out_of_bounds\<close>). The heap
  stays below \<open>2 ^ 31\<close> timers.\<close>

theorem DetectTimers_calls:
  assumes "ht_inv t" "dom (ht_timers t) = set (ht_heap t)" "\<And>k. k \<in> set (ht_heap t) \<Longrightarrow> 0 < ht_interval t k"
    and "\<And>k e j d. \<lbrakk>ht_timers t k = Some e; he_expires e \<le> now; Act_cancel j \<in> set (acts (he_func e));
        ht_timers t j = Some d; he_expires d \<le> now; he_repeat d = 1\<rbrakk> \<Longrightarrow> j = k"
    and "\<And>f. length (acts f) \<le> B" "length (ht_heap t) * (B + 1) < 2 ^ 31"
  shows "\<exists>ks t'. mset ks = due now t \<and> sorted (map (ht_key t) ks) \<and>
    DetectTimers (acting acts) now (t, w) = Some (Inr (t', w @ called acts (\<lambda>k. the (fn t k)) ks {})) \<and>
    ht_inv t' \<and> dom (ht_timers t') = set (ht_heap t')"
proof -
  let ?F = "\<lambda>k. the (fn t k)"
  obtain ks t1 where l: "detect_loop now t [] = Some (ks, t1)" "mset ks = due now t" "sorted (map (ht_key t) ks)" "ht_inv t1"
    using detect_loop_ok [OF assms(1,3), of now "[]"] by auto
  have w: "fn t1 = fn t" "ht_timerId t1 = ht_timerId t" "set (ht_heap t1) \<subseteq> set (ht_heap t)" "waiting t1 \<subseteq> {k. k \<in># due now t \<and> last_time t k}"
    using detect_loop_waiting [OF assms(1,3) l(1)] assms(2) by (auto simp: waiting_def)
  have dist: "distinct (ht_heap t)" "distinct (ht_heap t1)" using assms(1) l(4) by (simp_all add: ht_inv_def ht_links_def)
  have eq: "mset ks = mset (filter (\<lambda>k. ht_key t k \<le> now) (ht_heap t))" using l(2) by (simp add: due_def mset_filter)
  have ks: "distinct ks" "set ks \<subseteq> set (ht_heap t)" "length ks \<le> length (ht_heap t)"
    using mset_eq_imp_distinct_iff [OF eq] mset_eq_setD [OF eq] mset_eq_length [OF eq] dist(1) by auto
  have key: "\<exists>e. ht_timers t k = Some e \<and> he_expires e \<le> now" if "k \<in> set ks" for k
  proof -
    have "k \<in># due now t" using that l(2) by (metis set_mset_mset)
    then show ?thesis using ht_inv_entry [OF assms(1), of k] by (auto simp: due_def ht_key_def)
  qed
  have "length (ht_heap t1) \<le> length (ht_heap t)" using dist w(3) by (metis card_mono distinct_card finite_set)
  moreover have "B * length ks \<le> B * length (ht_heap t)" using ks(3) by simp
  ultimately have "length (ht_heap t1) + B * length ks \<le> length (ht_heap t) + B * length (ht_heap t)" by (rule add_mono)
  then have len: "length (ht_heap t1) + B * length ks < 2 ^ 31" using assms(6) by (simp add: algebra_simps)
  have "\<exists>t'. run_callbacks (acting acts) now ks (t1, w) = Inr (t', w @ called acts ?F ks {}) \<and> ht_inv t' \<and> waiting t' = {}"
  proof (rule run_callbacks_ok [OF l(4) ks(1)])
    show "waiting t1 \<subseteq> set ks" using w(4) l(2) by (metis (mono_tags, lifting) mem_Collect_eq set_mset_mset subset_eq)
    show "\<forall>k \<in> set ks. k \<le> ht_timerId t1" using key assms(1) w(2) by (fastforce simp: ht_inv_def)
    show "\<forall>k \<in> set ks. fn t1 k = (if k \<in> {} then None else Some (?F k))" using key w(1) by (fastforce simp: fn_def)
    show "\<forall>k \<in> set ks. \<forall>j. Act_cancel j \<in> set (acts (?F k)) \<and> j \<in> waiting t1 \<longrightarrow> j = k"
    proof (intro ballI allI impI)
      fix k j assume k: "k \<in> set ks" and j: "Act_cancel j \<in> set (acts (?F k)) \<and> j \<in> waiting t1"
      obtain e where e: "ht_timers t k = Some e" "he_expires e \<le> now" using key [OF k] by blast
      have jd: "j \<in> set ks" "last_time t j" using j w(4) l(2) by (auto simp flip: set_mset_mset)
      obtain d where "ht_timers t j = Some d" "he_expires d \<le> now" "he_repeat d = 1" using key [OF jd(1)] jd(2) by (auto simp: last_time_def)
      then show "j = k" using assms(4) [OF e, of j d] j e(1) by (simp add: fn_def)
    qed
    show "\<forall>f. length (acts f) \<le> B" using assms(5) by blast
  qed (rule len)
  then obtain t' where t': "run_callbacks (acting acts) now ks (t1, w) = Inr (t', w @ called acts ?F ks {})" "ht_inv t'" "waiting t' = {}" by blast
  have "dom (ht_timers t') = set (ht_heap t')" using t'(3) ht_inv_entry [OF t'(2)] by (auto simp: waiting_def)
  then show ?thesis using l t' by (intro exI [of _ ks] exI [of _ t']) (simp add: DetectTimers_def)
qed

text \<open>Two timers are due; the callback of the first registers a timer and cancels itself.\<close>

theorem DetectTimers_calls_witness:
  "\<exists>t'. DetectTimers (acting (\<lambda>f. if f = 7 then [Act_register 9 5 0 1, Act_cancel 1] else [])) 45 (ht_sample, []) = Some (Inr (t', [7, 8])) \<and>
     ht_inv t' \<and> dom (ht_timers t') = set (ht_heap t')"
proof -
  let ?acts = "\<lambda>f :: nat. if f = 7 then [Act_register 9 5 0 1, Act_cancel 1] else []"
  have dom: "dom (ht_timers ht_sample) = set (ht_heap ht_sample)" by (auto simp: ht_sample_def)
  have "\<exists>ks t'. mset ks = due 45 ht_sample \<and> sorted (map (ht_key ht_sample) ks) \<and>
      DetectTimers (acting ?acts) 45 (ht_sample, []) = Some (Inr (t', [] @ called ?acts (\<lambda>k. the (fn ht_sample k)) ks {})) \<and>
      ht_inv t' \<and> dom (ht_timers t') = set (ht_heap t')"
    by (rule DetectTimers_calls [OF ht_sample_inv dom ht_sample_intervals, where B = 2]) (auto simp: ht_sample_def split: if_splits)
  then obtain ks t' where r: "mset ks = due 45 ht_sample" "sorted (map (ht_key ht_sample) ks)"
    "DetectTimers (acting ?acts) 45 (ht_sample, []) = Some (Inr (t', called ?acts (\<lambda>k. the (fn ht_sample k)) ks {}))"
    "ht_inv t'" "dom (ht_timers t') = set (ht_heap t')" by auto
  have m: "mset ks = mset [1, 2]" using r(1) by (simp add: due_def ht_sample_def ht_key_def)
  then have "length ks = Suc (Suc 0)" "set ks = {1, 2}" using mset_eq_length [OF m] mset_eq_setD [OF m] by simp_all
  moreover have "ht_key ht_sample 1 = 10" "ht_key ht_sample 2 = 30" by (simp_all add: ht_sample_def ht_key_def)
  ultimately have ks: "ks = [1, 2]" using r(2) by (auto simp: length_Suc_conv doubleton_eq_iff)
  have "called ?acts (\<lambda>k. the (fn ht_sample k)) ks {} = [7, 8]" unfolding ks by (simp add: fn_def ht_sample_def)
  then show ?thesis using r(3-5) by auto
qed

text \<open>A callback that cancels another one-shot timer that expired in the same round reads outside the
  heap vector: the entry's heap index is \<open>-1\<close>, which the cast turns into the largest index.\<close>

theorem cancel_expired_out_of_bounds:
  assumes "ht_inv t" "ht_timers t j = Some d" "ht_timers t k = Some e" "j \<noteq> k" "he_heapIndex e = - 1"
  shows "run_callbacks (acting (\<lambda>f. [Act_cancel k])) now (j # ks) (t, w) = Inl OutOfBounds"
proof -
  define t1 where "t1 = (if he_heapIndex d = - 1 then erase_timer j t else t)"
  have "ht_inv t1" using erase_pending_inv [OF assms(1,2)] assms(1) by (simp add: t1_def)
  moreover have "ht_timers t1 k = Some e" using assms by (simp add: t1_def erase_timer_def)
  ultimately have "unregister_timer k t1 = Inl OutOfBounds" using unregister_pending assms(5) by blast
  then show ?thesis using assms(2) by (auto simp: t1_def acting_def split: if_splits)
qed

theorem cancel_expired_out_of_bounds_witness:
  "run_callbacks (acting (\<lambda>f. [Act_cancel 2])) 45 [1, 2] (ht_expired, []) = Inl OutOfBounds"
  by (rule cancel_expired_out_of_bounds [OF ht_expired_inv]) (simp add: ht_expired_def, simp add: ht_expired_def, simp_all)

text \<open>A due repeating timer with interval \<open>0\<close> makes \<open>DetectTimers\<close> loop forever.\<close>

theorem zero_interval_hangs:
  assumes "ht_heap t \<noteq> []" "ht_timers t (ht_heap t ! 0) = Some e"
    and "he_expires e \<le> now" "he_interval e = 0" "he_repeat e \<noteq> 1"
  shows "DetectTimers call now (t, w) = None"
  using detect_loop_zero_interval [OF assms] by (simp add: DetectTimers_def)

theorem zero_interval_hangs_witness:
  "DetectTimers (\<lambda>f now s. Inr s) 45 (snd (register_timer 3 7 0 0 0 ht_new), ()) = None"
  by (rule zero_interval_hangs)
    (simp add: register_timer_def ht_new_def UpHeap.simps Let_def,
     simp add: register_timer_def ht_new_def UpHeap.simps Let_def, simp_all)

end
