(* ===== verification/Byte_Order.thy ===== *)
theory Byte_Order
  imports Prelude
begin

text \<open>
  Fixed-width integers in memory, from \<open>lib_bsp/eventservice/base/byteorder.h\<close>. A \<open>void *\<close> is the
  optional list of the bytes it points to, \<open>None\<close> for the null pointer: the code tests for null in
  \<open>Set8\<close> and \<open>Get8\<close> and nowhere checks the length, so an access past the end is an error. The
  interface \<open>byte_codec\<close> states what a setter and getter of one width promise; it is interpreted for
  the six pairs of the file. Host byte order is a flag.
\<close>

section \<open>Single bytes\<close>

definition Set8 :: "byte list option \<Rightarrow> nat \<Rightarrow> byte \<Rightarrow> mem_error + byte list option" where
  "Set8 memory offset v =
     (case memory of
        None \<Rightarrow> Inr None
      | Some bs \<Rightarrow> if offset < length bs then Inr (Some (bs[offset := v])) else Inl OutOfBounds)"

definition Get8 :: "byte list option \<Rightarrow> nat \<Rightarrow> mem_error + byte" where
  "Get8 memory offset =
     (case memory of
        None \<Rightarrow> Inr (- 1)
      | Some bs \<Rightarrow> if offset < length bs then Inr (bs ! offset) else Inl OutOfBounds)"

section \<open>Big endian\<close>

definition SetBE16 :: "byte list option \<Rightarrow> u16 \<Rightarrow> mem_error + byte list option" where
  "SetBE16 memory v =
     bindE (Set8 memory 0 (ucast (drop_bit 8 v))) (\<lambda>m0.
     Set8 m0 1 (ucast (drop_bit 0 v)))"

definition SetBE32 :: "byte list option \<Rightarrow> u32 \<Rightarrow> mem_error + byte list option" where
  "SetBE32 memory v =
     bindE (Set8 memory 0 (ucast (drop_bit 24 v))) (\<lambda>m0.
     bindE (Set8 m0 1 (ucast (drop_bit 16 v))) (\<lambda>m1.
     bindE (Set8 m1 2 (ucast (drop_bit 8 v))) (\<lambda>m2.
     Set8 m2 3 (ucast (drop_bit 0 v)))))"

definition SetBE64 :: "byte list option \<Rightarrow> u64 \<Rightarrow> mem_error + byte list option" where
  "SetBE64 memory v =
     bindE (Set8 memory 0 (ucast (drop_bit 56 v))) (\<lambda>m0.
     bindE (Set8 m0 1 (ucast (drop_bit 48 v))) (\<lambda>m1.
     bindE (Set8 m1 2 (ucast (drop_bit 40 v))) (\<lambda>m2.
     bindE (Set8 m2 3 (ucast (drop_bit 32 v))) (\<lambda>m3.
     bindE (Set8 m3 4 (ucast (drop_bit 24 v))) (\<lambda>m4.
     bindE (Set8 m4 5 (ucast (drop_bit 16 v))) (\<lambda>m5.
     bindE (Set8 m5 6 (ucast (drop_bit 8 v))) (\<lambda>m6.
     Set8 m6 7 (ucast (drop_bit 0 v)))))))))"

definition GetBE16 :: "byte list option \<Rightarrow> mem_error + u16" where
  "GetBE16 memory =
     bindE (Get8 memory 0) (\<lambda>b0.
     bindE (Get8 memory 1) (\<lambda>b1.
     Inr (ucast ((push_bit 8 (ucast b0) OR push_bit 0 (ucast b1)) :: u32))))"

definition GetBE32 :: "byte list option \<Rightarrow> mem_error + u32" where
  "GetBE32 memory =
     bindE (Get8 memory 0) (\<lambda>b0.
     bindE (Get8 memory 1) (\<lambda>b1.
     bindE (Get8 memory 2) (\<lambda>b2.
     bindE (Get8 memory 3) (\<lambda>b3.
     Inr (push_bit 24 (ucast b0) OR push_bit 16 (ucast b1) OR push_bit 8 (ucast b2) OR push_bit 0 (ucast b3))))))"

definition GetBE64 :: "byte list option \<Rightarrow> mem_error + u64" where
  "GetBE64 memory =
     bindE (Get8 memory 0) (\<lambda>b0.
     bindE (Get8 memory 1) (\<lambda>b1.
     bindE (Get8 memory 2) (\<lambda>b2.
     bindE (Get8 memory 3) (\<lambda>b3.
     bindE (Get8 memory 4) (\<lambda>b4.
     bindE (Get8 memory 5) (\<lambda>b5.
     bindE (Get8 memory 6) (\<lambda>b6.
     bindE (Get8 memory 7) (\<lambda>b7.
     Inr (push_bit 56 (ucast b0) OR push_bit 48 (ucast b1) OR push_bit 40 (ucast b2) OR push_bit 32 (ucast b3) OR push_bit 24 (ucast b4) OR push_bit 16 (ucast b5) OR push_bit 8 (ucast b6) OR push_bit 0 (ucast b7))))))))))"

section \<open>Little endian\<close>

definition SetLE16 :: "byte list option \<Rightarrow> u16 \<Rightarrow> mem_error + byte list option" where
  "SetLE16 memory v =
     bindE (Set8 memory 0 (ucast (drop_bit 0 v))) (\<lambda>m0.
     Set8 m0 1 (ucast (drop_bit 8 v)))"

definition SetLE32 :: "byte list option \<Rightarrow> u32 \<Rightarrow> mem_error + byte list option" where
  "SetLE32 memory v =
     bindE (Set8 memory 0 (ucast (drop_bit 0 v))) (\<lambda>m0.
     bindE (Set8 m0 1 (ucast (drop_bit 8 v))) (\<lambda>m1.
     bindE (Set8 m1 2 (ucast (drop_bit 16 v))) (\<lambda>m2.
     Set8 m2 3 (ucast (drop_bit 24 v)))))"

definition SetLE64 :: "byte list option \<Rightarrow> u64 \<Rightarrow> mem_error + byte list option" where
  "SetLE64 memory v =
     bindE (Set8 memory 0 (ucast (drop_bit 0 v))) (\<lambda>m0.
     bindE (Set8 m0 1 (ucast (drop_bit 8 v))) (\<lambda>m1.
     bindE (Set8 m1 2 (ucast (drop_bit 16 v))) (\<lambda>m2.
     bindE (Set8 m2 3 (ucast (drop_bit 24 v))) (\<lambda>m3.
     bindE (Set8 m3 4 (ucast (drop_bit 32 v))) (\<lambda>m4.
     bindE (Set8 m4 5 (ucast (drop_bit 40 v))) (\<lambda>m5.
     bindE (Set8 m5 6 (ucast (drop_bit 48 v))) (\<lambda>m6.
     Set8 m6 7 (ucast (drop_bit 56 v)))))))))"

definition GetLE16 :: "byte list option \<Rightarrow> mem_error + u16" where
  "GetLE16 memory =
     bindE (Get8 memory 0) (\<lambda>b0.
     bindE (Get8 memory 1) (\<lambda>b1.
     Inr (ucast ((push_bit 0 (ucast b0) OR push_bit 8 (ucast b1)) :: u32))))"

definition GetLE32 :: "byte list option \<Rightarrow> mem_error + u32" where
  "GetLE32 memory =
     bindE (Get8 memory 0) (\<lambda>b0.
     bindE (Get8 memory 1) (\<lambda>b1.
     bindE (Get8 memory 2) (\<lambda>b2.
     bindE (Get8 memory 3) (\<lambda>b3.
     Inr (push_bit 0 (ucast b0) OR push_bit 8 (ucast b1) OR push_bit 16 (ucast b2) OR push_bit 24 (ucast b3))))))"

definition GetLE64 :: "byte list option \<Rightarrow> mem_error + u64" where
  "GetLE64 memory =
     bindE (Get8 memory 0) (\<lambda>b0.
     bindE (Get8 memory 1) (\<lambda>b1.
     bindE (Get8 memory 2) (\<lambda>b2.
     bindE (Get8 memory 3) (\<lambda>b3.
     bindE (Get8 memory 4) (\<lambda>b4.
     bindE (Get8 memory 5) (\<lambda>b5.
     bindE (Get8 memory 6) (\<lambda>b6.
     bindE (Get8 memory 7) (\<lambda>b7.
     Inr (push_bit 0 (ucast b0) OR push_bit 8 (ucast b1) OR push_bit 16 (ucast b2) OR push_bit 24 (ucast b3) OR push_bit 32 (ucast b4) OR push_bit 40 (ucast b5) OR push_bit 48 (ucast b6) OR push_bit 56 (ucast b7))))))))))"

section \<open>Specification: bytes of a word\<close>

definition le_bytes :: "nat \<Rightarrow> 'a::len word \<Rightarrow> byte list" where
  "le_bytes k v = map (\<lambda>i. ucast (drop_bit (8 * i) v)) [0..<k]"

definition be_bytes :: "nat \<Rightarrow> 'a::len word \<Rightarrow> byte list" where
  "be_bytes k v = rev (le_bytes k v)"

fun le_word :: "byte list \<Rightarrow> 'a::len word" where
  "le_word [] = 0"
| "le_word (b # bs) = ucast b OR push_bit 8 (le_word bs)"

definition be_word :: "byte list \<Rightarrow> 'a::len word" where
  "be_word bs = le_word (rev bs)"

text \<open>The object representation of an integer on the host, and the conversions that reinterpret it.\<close>

definition host_bytes :: "bool \<Rightarrow> nat \<Rightarrow> 'a::len word \<Rightarrow> byte list" where
  "host_bytes big k v = (if big then be_bytes k v else le_bytes k v)"

definition host_word :: "bool \<Rightarrow> byte list \<Rightarrow> 'a::len word" where
  "host_word big bs = (if big then be_word bs else le_word bs)"

definition IsHostBigEndian :: "bool \<Rightarrow> bool" where
  "IsHostBigEndian big \<longleftrightarrow> host_bytes big 4 (1 :: u32) ! 0 = 0"

definition HostToNetwork16 :: "bool \<Rightarrow> u16 \<Rightarrow> mem_error + u16" where
  "HostToNetwork16 big n = bindE (SetBE16 (Some (replicate 2 0)) n)
     (\<lambda>m. case m of None \<Rightarrow> Inl NullPointer | Some bs \<Rightarrow> Inr (host_word big bs))"

definition HostToNetwork32 :: "bool \<Rightarrow> u32 \<Rightarrow> mem_error + u32" where
  "HostToNetwork32 big n = bindE (SetBE32 (Some (replicate 4 0)) n)
     (\<lambda>m. case m of None \<Rightarrow> Inl NullPointer | Some bs \<Rightarrow> Inr (host_word big bs))"

definition HostToNetwork64 :: "bool \<Rightarrow> u64 \<Rightarrow> mem_error + u64" where
  "HostToNetwork64 big n = bindE (SetBE64 (Some (replicate 8 0)) n)
     (\<lambda>m. case m of None \<Rightarrow> Inl NullPointer | Some bs \<Rightarrow> Inr (host_word big bs))"

definition NetworkToHost16 :: "bool \<Rightarrow> u16 \<Rightarrow> mem_error + u16" where
  "NetworkToHost16 big n = GetBE16 (Some (host_bytes big 2 n))"

definition NetworkToHost32 :: "bool \<Rightarrow> u32 \<Rightarrow> mem_error + u32" where
  "NetworkToHost32 big n = GetBE32 (Some (host_bytes big 4 n))"

definition NetworkToHost64 :: "bool \<Rightarrow> u64 \<Rightarrow> mem_error + u64" where
  "NetworkToHost64 big n = GetBE64 (Some (host_bytes big 8 n))"

lemma length_le_bytes [simp]: "length (le_bytes k v) = k"
  by (simp add: le_bytes_def)

lemma length_be_bytes [simp]: "length (be_bytes k v) = k"
  by (simp add: be_bytes_def)

lemma bit_le_word:
  "bit (le_word bs :: 'a::len word) n \<longleftrightarrow>
     n < LENGTH('a) \<and> n div 8 < length bs \<and> bit (bs ! (n div 8)) (n mod 8)"
proof (induction bs arbitrary: n)
  case (Cons b bs)
  have b: "\<not> bit b n" if "8 \<le> n" using that bit_imp_le_length [of b n] by auto
  show ?case
  proof (cases "n < 8")
    case True
    then show ?thesis by (auto simp: bit_simps)
  next
    case False
    then have "n div 8 = Suc ((n - 8) div 8)" "n mod 8 = (n - 8) mod 8"
      by (simp_all add: le_div_geq le_mod_geq)
    then show ?thesis using False b Cons.IH [of "n - 8"] by (auto simp: bit_simps)
  qed
qed simp

lemma le_word_bytes: "LENGTH('a) \<le> 8 * k \<Longrightarrow> le_word (le_bytes k v) = v" for v :: "'a::len word"
proof (rule bit_word_eqI)
  fix n assume k: "LENGTH('a) \<le> 8 * k" and n: "n < LENGTH('a)"
  then have "n div 8 < k" by linarith
  then show "bit (le_word (le_bytes k v) :: 'a word) n = bit v n"
    using n by (simp add: bit_le_word le_bytes_def bit_simps)
qed

lemma le_bytes_word:
  "length bs = k \<Longrightarrow> 8 * k \<le> LENGTH('a) \<Longrightarrow> le_bytes k (le_word bs :: 'a::len word) = bs"
proof (rule nth_equalityI)
  fix i assume h: "length bs = k" "8 * k \<le> LENGTH('a)" "i < length (le_bytes k (le_word bs :: 'a word))"
  show "le_bytes k (le_word bs :: 'a word) ! i = bs ! i"
  proof (rule bit_word_eqI)
    fix n assume "n < LENGTH(8)"
    then have n: "n < 8" by simp
    then have "8 * i + n < LENGTH('a)" using h by simp
    then show "bit (le_bytes k (le_word bs :: 'a word) ! i) n = bit (bs ! i) n"
      using h n by (simp add: le_bytes_def bit_simps bit_le_word)
  qed
qed simp

lemma be_word_bytes: "LENGTH('a) \<le> 8 * k \<Longrightarrow> be_word (be_bytes k v) = v" for v :: "'a::len word"
  by (simp add: be_word_def be_bytes_def le_word_bytes)

lemma be_bytes_word:
  "length bs = k \<Longrightarrow> 8 * k \<le> LENGTH('a) \<Longrightarrow> be_bytes k (be_word bs :: 'a::len word) = bs"
  by (simp add: be_word_def be_bytes_def le_bytes_word)

lemma host_bytes_word:
  "length bs = k \<Longrightarrow> 8 * k \<le> LENGTH('a) \<Longrightarrow> host_bytes big k (host_word big bs :: 'a::len word) = bs"
  by (simp add: host_bytes_def host_word_def be_bytes_word le_bytes_word)

lemma host_word_bytes: "LENGTH('a) \<le> 8 * k \<Longrightarrow> host_word big (host_bytes big k v) = v" for v :: "'a::len word"
  by (simp add: host_bytes_def host_word_def be_word_bytes le_word_bytes)

lemma length_host_bytes [simp]: "length (host_bytes big k v) = k"
  by (simp add: host_bytes_def)


section \<open>Interface: a setter and a getter of one width\<close>

locale byte_codec =
  fixes width :: nat
    and setf :: "byte list option \<Rightarrow> 'w \<Rightarrow> mem_error + byte list option"
    and getf :: "byte list option \<Rightarrow> mem_error + 'w"
    and enc :: "'w \<Rightarrow> byte list"
    and dec :: "byte list \<Rightarrow> 'w"
  assumes length_enc: "length (enc v) = width"
    and dec_enc: "dec (enc v) = v"
    and enc_dec: "length bs = width \<Longrightarrow> enc (dec bs) = bs"
    and set_some: "width \<le> length bs \<Longrightarrow> setf (Some bs) v = Inr (Some (enc v @ drop width bs))"
    and set_short: "length bs < width \<Longrightarrow> setf (Some bs) v = Inl OutOfBounds"
    and set_null: "setf None v = Inr None"
    and get_some: "width \<le> length bs \<Longrightarrow> getf (Some bs) = Inr (dec (take width bs))"
    and get_short: "length bs < width \<Longrightarrow> getf (Some bs) = Inl OutOfBounds"
begin

lemma set_get: "width \<le> length bs \<Longrightarrow> bindE (setf (Some bs) v) getf = Inr v"
  by (simp add: set_some get_some length_enc dec_enc)

lemma get_set: "width \<le> length bs \<Longrightarrow> bindE (getf (Some bs)) (setf (Some bs)) = Inr (Some bs)"
  by (simp add: set_some get_some enc_dec)

lemma set_safe_iff: "(\<exists>m. setf (Some bs) v = Inr m) \<longleftrightarrow> width \<le> length bs"
  by (cases "width \<le> length bs") (auto simp: set_some set_short)

lemma set_frame:
  "setf (Some bs) v = Inr m \<Longrightarrow> \<exists>cs. m = Some cs \<and> length cs = length bs \<and> drop width cs = drop width bs"
  by (cases "width \<le> length bs") (auto simp: set_some set_short length_enc)

lemma enc_eq_iff: "enc v = enc w \<longleftrightarrow> v = w"
  by (metis dec_enc)

end

text \<open>The setters and getters of the file meet the interface.\<close>

lemmas codec_defs =
  Set8_def Get8_def SetBE16_def SetBE32_def SetBE64_def GetBE16_def GetBE32_def GetBE64_def
  SetLE16_def SetLE32_def SetLE64_def GetLE16_def GetLE32_def GetLE64_def

lemma at_least_2: "2 \<le> length bs \<Longrightarrow> \<exists>b0 b1 r. bs = b0 # b1 # r"
  by (auto simp: numeral_eq_Suc Suc_le_length_iff)

lemma at_least_4: "4 \<le> length bs \<Longrightarrow> \<exists>b0 b1 b2 b3 r. bs = b0 # b1 # b2 # b3 # r"
  by (auto simp: numeral_eq_Suc Suc_le_length_iff)

lemma at_least_8: "8 \<le> length bs \<Longrightarrow> \<exists>b0 b1 b2 b3 b4 b5 b6 b7 r. bs = b0 # b1 # b2 # b3 # b4 # b5 # b6 # b7 # r"
  by (auto simp: numeral_eq_Suc Suc_le_length_iff)

text \<open>Words from two, four and eight bytes, as the getters write them.\<close>

lemma le_word_push:
  "le_word [a, b] = (push_bit 0 (ucast a) OR push_bit 8 (ucast b) :: 'a::len word)"
  "le_word [a, b, c, d] = (push_bit 0 (ucast a) OR push_bit 8 (ucast b) OR push_bit 16 (ucast c) OR
     push_bit 24 (ucast d) :: 'a::len word)"
  "le_word [a, b, c, d, e, f, g, h] = (push_bit 0 (ucast a) OR push_bit 8 (ucast b) OR push_bit 16 (ucast c) OR
     push_bit 24 (ucast d) OR push_bit 32 (ucast e) OR push_bit 40 (ucast f) OR push_bit 48 (ucast g) OR
     push_bit 56 (ucast h) :: 'a::len word)"
  by (simp_all add: push_bit_or push_bit_push_bit or.assoc)

lemma le_bytes_drop:
  "le_bytes 2 v = [ucast (drop_bit 0 v), ucast (drop_bit 8 v)]"
  "le_bytes 4 v = [ucast (drop_bit 0 v), ucast (drop_bit 8 v), ucast (drop_bit 16 v), ucast (drop_bit 24 v)]"
  "le_bytes 8 v = [ucast (drop_bit 0 v), ucast (drop_bit 8 v), ucast (drop_bit 16 v), ucast (drop_bit 24 v),
     ucast (drop_bit 32 v), ucast (drop_bit 40 v), ucast (drop_bit 48 v), ucast (drop_bit 56 v)]"
  by (simp_all add: le_bytes_def upt_rec)

lemma ucast_u32_u16 [simp]:
  "ucast (push_bit 0 (ucast (a :: byte)) OR push_bit 8 (ucast (b :: byte)) :: u32)
     = (push_bit 0 (ucast a) OR push_bit 8 (ucast b) :: u16)"
  by (rule bit_word_eqI) (auto simp: bit_simps)

interpretation be16: byte_codec 2 SetBE16 GetBE16 "be_bytes 2" be_word
proof
  fix bs :: "byte list" and v :: u16
  show "2 \<le> length bs \<Longrightarrow> SetBE16 (Some bs) v = Inr (Some (be_bytes 2 v @ drop 2 bs))"
    by (drule at_least_2) (auto simp: codec_defs be_bytes_def le_bytes_drop)
  show "2 \<le> length bs \<Longrightarrow> GetBE16 (Some bs) = Inr (be_word (take 2 bs))"
    by (drule at_least_2) (auto simp: codec_defs be_word_def le_word_push or.commute or.left_commute simp del: push_bit_0_id le_word.simps)
qed (auto simp: codec_defs be_word_bytes be_bytes_word)

interpretation be32: byte_codec 4 SetBE32 GetBE32 "be_bytes 4" be_word
proof
  fix bs :: "byte list" and v :: u32
  show "4 \<le> length bs \<Longrightarrow> SetBE32 (Some bs) v = Inr (Some (be_bytes 4 v @ drop 4 bs))"
    by (drule at_least_4) (auto simp: codec_defs be_bytes_def le_bytes_drop)
  show "4 \<le> length bs \<Longrightarrow> GetBE32 (Some bs) = Inr (be_word (take 4 bs))"
    by (drule at_least_4) (auto simp: codec_defs be_word_def le_word_push or.commute or.left_commute simp del: push_bit_0_id le_word.simps)
qed (auto simp: codec_defs be_word_bytes be_bytes_word)

interpretation be64: byte_codec 8 SetBE64 GetBE64 "be_bytes 8" be_word
proof
  fix bs :: "byte list" and v :: u64
  show "8 \<le> length bs \<Longrightarrow> SetBE64 (Some bs) v = Inr (Some (be_bytes 8 v @ drop 8 bs))"
    by (drule at_least_8) (auto simp: codec_defs be_bytes_def le_bytes_drop)
  show "8 \<le> length bs \<Longrightarrow> GetBE64 (Some bs) = Inr (be_word (take 8 bs))"
    by (drule at_least_8) (auto simp: codec_defs be_word_def le_word_push or.commute or.left_commute simp del: push_bit_0_id le_word.simps)
qed (auto simp: codec_defs be_word_bytes be_bytes_word)

interpretation le16: byte_codec 2 SetLE16 GetLE16 "le_bytes 2" le_word
proof
  fix bs :: "byte list" and v :: u16
  show "2 \<le> length bs \<Longrightarrow> SetLE16 (Some bs) v = Inr (Some (le_bytes 2 v @ drop 2 bs))"
    by (drule at_least_2) (auto simp: codec_defs le_bytes_drop)
  show "2 \<le> length bs \<Longrightarrow> GetLE16 (Some bs) = Inr (le_word (take 2 bs))"
    by (drule at_least_2) (auto simp: codec_defs le_word_push simp del: push_bit_0_id le_word.simps)
qed (auto simp: codec_defs le_word_bytes le_bytes_word)

interpretation le32: byte_codec 4 SetLE32 GetLE32 "le_bytes 4" le_word
proof
  fix bs :: "byte list" and v :: u32
  show "4 \<le> length bs \<Longrightarrow> SetLE32 (Some bs) v = Inr (Some (le_bytes 4 v @ drop 4 bs))"
    by (drule at_least_4) (auto simp: codec_defs le_bytes_drop)
  show "4 \<le> length bs \<Longrightarrow> GetLE32 (Some bs) = Inr (le_word (take 4 bs))"
    by (drule at_least_4) (auto simp: codec_defs le_word_push simp del: push_bit_0_id le_word.simps)
qed (auto simp: codec_defs le_word_bytes le_bytes_word)

interpretation le64: byte_codec 8 SetLE64 GetLE64 "le_bytes 8" le_word
proof
  fix bs :: "byte list" and v :: u64
  show "8 \<le> length bs \<Longrightarrow> SetLE64 (Some bs) v = Inr (Some (le_bytes 8 v @ drop 8 bs))"
    by (drule at_least_8) (auto simp: codec_defs le_bytes_drop)
  show "8 \<le> length bs \<Longrightarrow> GetLE64 (Some bs) = Inr (le_word (take 8 bs))"
    by (drule at_least_8) (auto simp: codec_defs le_word_push simp del: push_bit_0_id le_word.simps)
qed (auto simp: codec_defs le_word_bytes le_bytes_word)


section \<open>Properties\<close>

text \<open>Every getter returns what the setter of its width and byte order stored, and storing what a
  getter read leaves the memory as it was, for every object that is long enough.\<close>

theorem byteorder_roundtrip:
  "2 \<le> length bs \<Longrightarrow> bindE (SetBE16 (Some bs) a) GetBE16 = Inr a \<and>
     bindE (GetBE16 (Some bs)) (SetBE16 (Some bs)) = Inr (Some bs) \<and>
     bindE (SetLE16 (Some bs) a) GetLE16 = Inr a \<and>
     bindE (GetLE16 (Some bs)) (SetLE16 (Some bs)) = Inr (Some bs) \<and>
     (4 \<le> length bs \<longrightarrow> bindE (SetBE32 (Some bs) b) GetBE32 = Inr b \<and>
       bindE (GetBE32 (Some bs)) (SetBE32 (Some bs)) = Inr (Some bs) \<and>
       bindE (SetLE32 (Some bs) b) GetLE32 = Inr b \<and>
       bindE (GetLE32 (Some bs)) (SetLE32 (Some bs)) = Inr (Some bs)) \<and>
     (8 \<le> length bs \<longrightarrow> bindE (SetBE64 (Some bs) c) GetBE64 = Inr c \<and>
       bindE (GetBE64 (Some bs)) (SetBE64 (Some bs)) = Inr (Some bs) \<and>
       bindE (SetLE64 (Some bs) c) GetLE64 = Inr c \<and>
       bindE (GetLE64 (Some bs)) (SetLE64 (Some bs)) = Inr (Some bs))"
  by (simp add: be16.set_get be16.get_set le16.set_get le16.get_set be32.set_get be32.get_set
      le32.set_get le32.get_set be64.set_get be64.get_set le64.set_get le64.get_set)

theorem byteorder_roundtrip_witness:
  "bindE (SetBE32 (Some [9, 9, 9, 9]) 0x12345678) GetBE32 = Inr 0x12345678 \<and>
   SetBE32 (Some [9, 9, 9, 9]) 0x12345678 = Inr (Some [0x12, 0x34, 0x56, 0x78])"
proof -
  have "bindE (SetBE32 (Some [9, 9, 9, 9]) 0x12345678) GetBE32 = Inr 0x12345678"
    using byteorder_roundtrip [where bs = "[9, 9, 9, 9]" and b = "0x12345678"] by simp
  moreover have "SetBE32 (Some [9, 9, 9, 9]) 0x12345678 = Inr (Some [0x12, 0x34, 0x56, 0x78])"
    by (simp add: SetBE32_def Set8_def)
  ultimately show ?thesis by blast
qed

lemma HostToNetwork_eq:
  "HostToNetwork16 big a = Inr (host_word big (be_bytes 2 a))" "HostToNetwork32 big b = Inr (host_word big (be_bytes 4 b))"
  by (simp_all add: HostToNetwork16_def HostToNetwork32_def be16.set_some be32.set_some)

lemma NetworkToHost_eq:
  "length bs = 2 \<Longrightarrow> NetworkToHost16 big (host_word big bs) = Inr (be_word bs)"
  "length bs = 4 \<Longrightarrow> NetworkToHost32 big (host_word big bs) = Inr (be_word bs)"
  by (simp_all add: NetworkToHost16_def NetworkToHost32_def host_bytes_word be16.get_some be32.get_some)

text \<open>On a host of either byte order \<open>IsHostBigEndian\<close> tells which, \<open>NetworkToHost\<close> undoes
  \<open>HostToNetwork\<close>, and the bytes of the converted integer are the big-endian bytes of the number.\<close>

theorem host_network_roundtrip:
  "IsHostBigEndian big = big \<and>
   bindE (HostToNetwork16 big a) (NetworkToHost16 big) = Inr a \<and>
   bindE (HostToNetwork32 big b) (NetworkToHost32 big) = Inr b \<and>
   bindE (HostToNetwork64 big c) (NetworkToHost64 big) = Inr c \<and>
   bindE (HostToNetwork32 big b) (\<lambda>w. Inr (host_bytes big 4 w)) = (Inr (be_bytes 4 b) :: mem_error + byte list)"
  by (simp add: HostToNetwork16_def HostToNetwork32_def HostToNetwork64_def NetworkToHost16_def
      NetworkToHost32_def NetworkToHost64_def be16.set_some be32.set_some be64.set_some host_bytes_word
      be16.get_some be32.get_some be64.get_some be_word_bytes)
    (simp add: IsHostBigEndian_def host_bytes_def be_bytes_def le_bytes_drop)

end
