(* ===== verification/Serialize.thy ===== *)
theory Serialize
  imports Byte_Order
begin

text \<open>
  The wire format of the navigation sockets: \<open>lib_app/robot_schedule/socket/serialize.cpp\<close> with the
  packed structs of \<open>clean/apptypes.hpp\<close>, and the checksum functions of \<open>socket/navigate.cpp\<close>. A
  serializer returns the bytes it writes to \<open>out\<close> and the length it stores in \<open>*len\<close>. Fields copied by
  \<open>memcpy\<close> have the byte order of the host (\<open>big\<close>); a \<open>double\<close> is its 64-bit pattern.
\<close>

record Point =
  pt_x :: u32
  pt_y :: u32

record BLOCK_DATA =
  bd_point :: Point
  bd_type :: byte

record ROBOT_POSE =
  rp_point :: Point
  rp_yaw :: u32
  rp_robot_device :: Point
  rp_robot_angle :: u32

record IMU_DATA =
  imu_vel_angle_x :: u64
  imu_vel_angle_y :: u64
  imu_vel_angle_z :: u64
  imu_acc_x :: u64
  imu_acc_y :: u64
  imu_acc_z :: u64

record ODOM_DATA =
  od_speed_left :: u32
  od_speed_right :: u32

record SOCKET_MAP_DATA =
  sm_head :: u16
  sm_length :: u32
  sm_data :: "BLOCK_DATA list"
  sm_check :: u16

record SOCKET_POSE_DATA =
  sp_head :: u16
  sp_data :: ROBOT_POSE
  sp_check :: u16

record SOCKET_ZONE_DATA =
  sz_head :: u16
  sz_initPose :: ROBOT_POSE
  sz_rect0 :: Point
  sz_rect1 :: Point
  sz_check :: u16

record SOCKET_IMU_DATA =
  si_head :: u16
  si_data :: IMU_DATA
  si_timestamp :: u64
  si_check :: u16

record SOCKET_ODOM_DATA =
  so_head :: u16
  so_data :: ODOM_DATA
  so_timestamp :: u64
  so_check :: u16

section \<open>Fields\<close>

definition serialize_short :: "u16 \<Rightarrow> byte list \<times> nat" where
  "serialize_short data = ([ucast (data AND 0xff), ucast (drop_bit 8 data AND 0xff)], 2)"

definition serialize_int :: "u32 \<Rightarrow> byte list \<times> nat" where
  "serialize_int data =
     ([ucast (data AND 0xff), ucast (drop_bit 8 data AND 0xff), ucast (drop_bit 16 data AND 0xff),
       ucast (drop_bit 24 data AND 0xff)], 4)"

definition serialize_imu_data :: "bool \<Rightarrow> IMU_DATA \<Rightarrow> byte list \<times> nat" where
  "serialize_imu_data big data =
     (host_bytes big 8 (imu_vel_angle_x data) @ host_bytes big 8 (imu_vel_angle_y data) @
      host_bytes big 8 (imu_vel_angle_z data) @ host_bytes big 8 (imu_acc_x data) @
      host_bytes big 8 (imu_acc_y data) @ host_bytes big 8 (imu_acc_z data), 6 * 8)"

definition serialize_odom_data :: "bool \<Rightarrow> ODOM_DATA \<Rightarrow> byte list \<times> nat" where
  "serialize_odom_data big data =
     (host_bytes big 4 (od_speed_left data) @ host_bytes big 4 (od_speed_right data), 2 * 4)"

definition serialize_point_data :: "Point \<Rightarrow> byte list \<times> nat" where
  "serialize_point_data data =
     (let (outx, ix) = serialize_int (pt_x data); (outy, iy) = serialize_int (pt_y data)
      in (take ix outx @ take iy outy, 2 * 4))"

definition serialize_block_data :: "BLOCK_DATA \<Rightarrow> byte list \<times> nat" where
  "serialize_block_data data =
     (let (outp, intp) = serialize_point_data (bd_point data)
      in (take intp outp @ [bd_type data], intp + 1))"

text \<open>\<open>sizeof(BLOCK_DATA)\<close> of the packed struct.\<close>

definition sizeof_BLOCK_DATA :: nat where
  "sizeof_BLOCK_DATA = 9"

definition serialize_blocks_data :: "BLOCK_DATA list \<Rightarrow> byte list \<times> nat" where
  "serialize_blocks_data data =
     (concat (map (\<lambda>d. let (outx, outlen) = serialize_block_data d in take outlen outx) data),
      length data * sizeof_BLOCK_DATA)"

definition serialize_pose_data :: "bool \<Rightarrow> ROBOT_POSE \<Rightarrow> byte list \<times> nat" where
  "serialize_pose_data big data =
     (let (outp, intp) = serialize_point_data (rp_point data)
      in (take intp outp @ host_bytes big 4 (rp_yaw data), 12))"

definition serialize_zone_data :: "bool \<Rightarrow> ROBOT_POSE \<Rightarrow> Point \<Rightarrow> Point \<Rightarrow> byte list \<times> nat" where
  "serialize_zone_data big data0 rect0 rect1 =
     (let (out0, ipose) = serialize_pose_data big data0;
          (out1, irect1) = serialize_point_data rect0;
          (out2, irect2) = serialize_point_data rect1
      in (take ipose out0 @ take irect1 out1 @ take irect2 out2, ipose + irect1 + irect2))"

section \<open>Frames\<close>

definition serialize_socket_map_data :: "SOCKET_MAP_DATA \<Rightarrow> byte list \<times> nat" where
  "serialize_socket_map_data d =
     (let (head, hlen) = serialize_short (sm_head d);
          (len, llen) = serialize_int (sm_length d);
          blockcnt = unat (sm_length d) div sizeof_BLOCK_DATA;
          (check, clen) = serialize_short (sm_check d)
      in (take hlen head @ take llen len @
          concat (map (\<lambda>b. let (tmp, tmp_len) = serialize_block_data b in take tmp_len tmp) (take blockcnt (sm_data d))) @
          take clen check,
          hlen + llen + blockcnt * sizeof_BLOCK_DATA + clen))"

definition serialize_socket_pose_data :: "bool \<Rightarrow> SOCKET_POSE_DATA \<Rightarrow> byte list \<times> nat" where
  "serialize_socket_pose_data big d =
     (let (head, hlen) = serialize_short (sp_head d);
          (check, clen) = serialize_short (sp_check d);
          (pp, plen) = serialize_pose_data big (sp_data d)
      in (take hlen head @ take plen pp @ take clen check, hlen + clen + plen))"

definition serialize_socket_zone_data :: "bool \<Rightarrow> SOCKET_ZONE_DATA \<Rightarrow> byte list \<times> nat" where
  "serialize_socket_zone_data big d =
     (let (head, hlen) = serialize_short (sz_head d);
          (check, clen) = serialize_short (sz_check d);
          (initPose, ilen) = serialize_pose_data big (sz_initPose d);
          (rect0, r0len) = serialize_point_data (sz_rect0 d);
          (rect1, r1len) = serialize_point_data (sz_rect1 d)
      in (take hlen head @ take ilen initPose @ take r0len rect0 @ take r1len rect1 @ take clen check,
          hlen + clen + ilen + r0len + r1len))"

definition serialize_socket_imu_data :: "bool \<Rightarrow> SOCKET_IMU_DATA \<Rightarrow> byte list \<times> nat" where
  "serialize_socket_imu_data big d =
     (let (head, hlen) = serialize_short (si_head d);
          (check, clen) = serialize_short (si_check d);
          (imu, ilen) = serialize_imu_data big (si_data d)
      in (take hlen head @ take ilen imu @ take clen check, hlen + clen + ilen))"

definition serialize_socket_odom_data :: "bool \<Rightarrow> SOCKET_ODOM_DATA \<Rightarrow> byte list \<times> nat" where
  "serialize_socket_odom_data big d =
     (let (head, hlen) = serialize_short (so_head d);
          (check, clen) = serialize_short (so_check d);
          (odom, olen) = serialize_odom_data big (so_data d)
      in (take hlen head @ take olen odom @ take clen check, hlen + clen + olen))"

section \<open>Checksums\<close>

definition u8_to_u16 :: "byte \<Rightarrow> byte \<Rightarrow> u16" where
  "u8_to_u16 front behind = push_bit 8 (0 OR ucast front) OR ucast behind"

definition crc_bit :: "u16 \<Rightarrow> u16" where
  "crc_bit crc = (if crc AND 1 = 1 then drop_bit 1 crc XOR 0xa001 else drop_bit 1 crc)"

definition crc_byte :: "u16 \<Rightarrow> u16 \<Rightarrow> u16" where
  "crc_byte crc d = (crc_bit ^^ 8) (crc XOR d)"

text \<open>\<open>(U16)(data[i])\<close> of a \<open>char\<close>, which extends the sign where \<open>char\<close> is signed, and of a \<open>U8\<close>.\<close>

definition crc16check :: "bool \<Rightarrow> byte list \<Rightarrow> u16" where
  "crc16check char_signed data =
     foldl (\<lambda>crc b. crc_byte crc (if char_signed then scast b else ucast b)) 0xffff data"

definition crc16check8 :: "byte list \<Rightarrow> u16" where
  "crc16check8 data = foldl (\<lambda>crc b. crc_byte crc (ucast b)) 0xffff data"

section \<open>Facts\<close>

lemma crc_byte_unfold: "crc_byte crc d = crc_bit (crc_bit (crc_bit (crc_bit (crc_bit (crc_bit (crc_bit (crc_bit (crc XOR d))))))))"
  by (simp add: crc_byte_def eval_nat_numeral)

lemmas crc_eval = crc16check_def crc16check8_def crc_byte_unfold crc_bit_def

lemma ff_mask: "(0xff :: 'a::len word) = mask 8"
  by (simp add: mask_eq_exp_minus_1)

lemma serialize_short_le: "serialize_short v = (le_bytes 2 v, 2)"
  unfolding serialize_short_def le_bytes_drop ff_mask by (auto simp: bit_simps intro!: bit_word_eqI)

lemma serialize_int_le: "serialize_int v = (le_bytes 4 v, 4)"
  unfolding serialize_int_def le_bytes_drop ff_mask by (auto simp: bit_simps intro!: bit_word_eqI)

lemma serialize_point_le: "serialize_point_data p = (le_bytes 4 (pt_x p) @ le_bytes 4 (pt_y p), 8)"
  by (simp add: serialize_point_data_def serialize_int_le)

lemma serialize_block_le:
  "serialize_block_data d = (le_bytes 4 (pt_x (bd_point d)) @ le_bytes 4 (pt_y (bd_point d)) @ [bd_type d], 9)"
  by (simp add: serialize_block_data_def serialize_point_le)

lemma serialize_pose_le:
  "serialize_pose_data big d =
     (le_bytes 4 (pt_x (rp_point d)) @ le_bytes 4 (pt_y (rp_point d)) @ host_bytes big 4 (rp_yaw d), 12)"
  by (simp add: serialize_pose_data_def serialize_point_le)

lemmas serialize_le = serialize_short_le serialize_int_le serialize_point_le serialize_block_le serialize_pose_le

lemma u8_to_u16_le: "u8_to_u16 b a = le_word [a, b]"
  by (simp add: u8_to_u16_def or.commute)

lemma scast_small: "unat (b :: byte) < 128 \<Longrightarrow> (scast b :: u16) = ucast b"
proof -
  assume h: "unat b < 128"
  have "\<not> bit b 7"
  proof
    assume "bit b 7"
    then have "bit (unat b) 7" by (simp add: bit_simps)
    with h show False by (simp add: bit_iff_odd)
  qed
  then have "bit (scast b :: u16) n = bit (ucast b :: u16) n" if "n < 16" for n
    using that bit_imp_le_length [of b n] by (cases "n \<le> 7") (auto simp: bit_simps min_def)
  then show ?thesis by (intro bit_word_eqI) simp
qed

lemma crc16check_agree:
  "\<not> char_signed \<or> (\<forall>b \<in> set data. unat b < 128) \<Longrightarrow> crc16check char_signed data = crc16check8 data"
  unfolding crc16check_def crc16check8_def
  by (rule foldl_cong) (auto simp: scast_small)

text \<open>What a receiver casts out of the bytes of a block.\<close>

definition block_at_bytes :: "bool \<Rightarrow> byte list \<Rightarrow> BLOCK_DATA" where
  "block_at_bytes big bs =
     \<lparr>bd_point = \<lparr>pt_x = host_word big (take 4 bs), pt_y = host_word big (take 4 (drop 4 bs))\<rparr>, bd_type = bs ! 8\<rparr>"

lemma block_roundtrip: "block_at_bytes False (fst (serialize_block_data d) @ rest) = d"
  by (cases d, cases "bd_point d")
    (simp add: block_at_bytes_def serialize_block_le host_word_def le_word_bytes nth_append)

definition all_blocks :: "BLOCK_DATA list \<Rightarrow> byte list" where
  "all_blocks ds = concat (map (\<lambda>d. fst (serialize_block_data d)) ds)"

lemma serialize_blocks_le: "serialize_blocks_data ds = (all_blocks ds, length ds * 9)"
  by (induction ds) (auto simp: serialize_blocks_data_def all_blocks_def serialize_block_le sizeof_BLOCK_DATA_def)

lemma length_all_blocks [simp]: "length (all_blocks ds) = length ds * 9"
  by (induction ds) (auto simp: all_blocks_def serialize_block_le)

lemma drop_all_blocks: "i < length ds \<Longrightarrow> drop (i * 9) (all_blocks ds) = fst (serialize_block_data (ds ! i)) @ all_blocks (drop (Suc i) ds)"
proof (induction ds arbitrary: i)
  case (Cons d ds)
  have c: "all_blocks (d # ds) = fst (serialize_block_data d) @ all_blocks ds" by (simp add: all_blocks_def)
  have l: "length (fst (serialize_block_data d)) = 9" by (simp add: serialize_block_le)
  show ?case
  proof (cases i)
    case 0
    then show ?thesis by (simp add: c)
  next
    case (Suc j)
    then show ?thesis using Cons by (simp add: c l)
  qed
qed simp


section \<open>Properties\<close>

text \<open>Every serializer stores in \<open>*len\<close> exactly the number of bytes it wrote.\<close>

theorem serialize_lengths:
  "(\<forall>r \<in> {serialize_short h, serialize_int n, serialize_point_data p, serialize_block_data b,
       serialize_blocks_data bs, serialize_pose_data big rp, serialize_zone_data big rp p q,
       serialize_imu_data big imu, serialize_odom_data big od,
       serialize_socket_pose_data big spd, serialize_socket_zone_data big szd,
       serialize_socket_imu_data big sid, serialize_socket_odom_data big sod}. snd r = length (fst r)) \<and>
   (unat (sm_length smd) \<le> 9 * length (sm_data smd) \<longrightarrow>
     snd (serialize_socket_map_data smd) = length (fst (serialize_socket_map_data smd)))"
proof -
  have c: "concat (map (\<lambda>b. let (tmp, tmp_len) = serialize_block_data b in take tmp_len tmp) ds) = all_blocks ds" for ds
    by (induction ds) (auto simp: serialize_le all_blocks_def)
  have "unat (sm_length smd) div 9 \<le> length (sm_data smd)" if "unat (sm_length smd) \<le> 9 * length (sm_data smd)"
    using div_le_mono [OF that, of 9] by simp
  then have "unat (sm_length smd) \<le> 9 * length (sm_data smd) \<longrightarrow>
     snd (serialize_socket_map_data smd) = length (fst (serialize_socket_map_data smd))"
    unfolding serialize_socket_map_data_def c by (auto simp: serialize_le sizeof_BLOCK_DATA_def Let_def min_def)
  then show ?thesis
    by (auto simp: serialize_le serialize_blocks_le serialize_zone_data_def serialize_imu_data_def serialize_odom_data_def
        serialize_socket_pose_data_def serialize_socket_zone_data_def serialize_socket_imu_data_def serialize_socket_odom_data_def)
qed

theorem serialize_lengths_witness:
  "snd (serialize_block_data \<lparr>bd_point = \<lparr>pt_x = 1, pt_y = 2\<rparr>, bd_type = 3\<rparr>) =
   length (fst (serialize_block_data \<lparr>bd_point = \<lparr>pt_x = 1, pt_y = 2\<rparr>, bd_type = 3\<rparr>))"
  using serialize_lengths [where b = "\<lparr>bd_point = \<lparr>pt_x = 1, pt_y = 2\<rparr>, bd_type = 3\<rparr>"] by blast

text \<open>On a little-endian receiver, casting the bytes of a map upload at offset \<open>9 i\<close> to a block gives back the
  \<open>i\<close>-th block that was serialized.\<close>

theorem blocks_roundtrip:
  assumes "i < length ds"
  shows "block_at_bytes False (drop (i * sizeof_BLOCK_DATA) (fst (serialize_blocks_data ds))) = ds ! i"
  using drop_all_blocks [OF assms] by (simp add: serialize_blocks_le sizeof_BLOCK_DATA_def block_roundtrip)

theorem blocks_roundtrip_witness:
  "block_at_bytes False (drop (1 * sizeof_BLOCK_DATA) (fst (serialize_blocks_data
     [\<lparr>bd_point = \<lparr>pt_x = 1, pt_y = 2\<rparr>, bd_type = 3\<rparr>, \<lparr>bd_point = \<lparr>pt_x = 258, pt_y = - 1\<rparr>, bd_type = 7\<rparr>])))
   = \<lparr>bd_point = \<lparr>pt_x = 258, pt_y = - 1\<rparr>, bd_type = 7\<rparr>"
  using blocks_roundtrip [of 1 "[\<lparr>bd_point = \<lparr>pt_x = 1, pt_y = 2\<rparr>, bd_type = 3\<rparr>, \<lparr>bd_point = \<lparr>pt_x = 258, pt_y = - 1\<rparr>, bd_type = 7\<rparr>]"]
  by simp

text \<open>The sender's and the receiver's checksum agree when \<open>char\<close> is unsigned or all bytes are below 128; where
  \<open>char\<close> is signed they differ on the first head byte of a map frame alone.\<close>

theorem crc16check_char:
  "(\<not> char_signed \<or> (\<forall>b \<in> set data. unat b < 128) \<longrightarrow> crc16check char_signed data = crc16check8 data) \<and>
   crc16check True [0xaa] \<noteq> crc16check8 [0xaa]"
proof -
  have "crc16check True [0xaa] \<noteq> crc16check8 [0xaa]" by (simp add: crc_eval)
  then show ?thesis using crc16check_agree by blast
qed

theorem crc16check_char_witness: "crc16check True [0x12, 0x34, 0x05] = crc16check8 [0x12, 0x34, 0x05]"
  using crc16check_char [of True "[0x12, 0x34, 0x05]"] by simp

end
