(* ===== verification/Nav_Link.thy ===== *)
theory Nav_Link
  imports Serialize
begin

text \<open>
  The socket client of \<open>lib_app/robot_schedule/socket/navigate.cpp\<close>: the frames it sends and the two reader
  threads, one for the pose socket and one for the low-rate socket. The kernel's side of a socket is the
  list of what \<open>read\<close> will find: bytes, the end of the stream, or an error; an empty list is a reader
  that waits. The handlers run over byte buffers of the sizes the code declares, and an access outside a
  buffer is a fault. Callbacks into other parts of the program are recorded in \<open>nr_out\<close>.
\<close>

section \<open>Frames sent\<close>

definition MAP_HEAD :: "byte \<times> byte" where "MAP_HEAD = (0xaa, 0xbb)"
definition POSE_HEAD :: "byte \<times> byte" where "POSE_HEAD = (0xcc, 0xdd)"
definition POINT_HEAD :: "byte \<times> byte" where "POINT_HEAD = (0xee, 0xff)"
definition IMU_HEAD :: "byte \<times> byte" where "IMU_HEAD = (0xab, 0xcd)"
definition ODOM_HEAD :: "byte \<times> byte" where "ODOM_HEAD = (0xbc, 0xde)"
definition CMD_HEAD :: "byte \<times> byte" where "CMD_HEAD = (0x12, 0x34)"
definition LINE_HEAD :: "byte \<times> byte" where "LINE_HEAD = (0x56, 0x78)"
definition DIST_HEAD :: "byte \<times> byte" where "DIST_HEAD = (0x9a, 0xbc)"
definition PATH_HEAD :: "byte \<times> byte" where "PATH_HEAD = (0x9b, 0xac)"
definition TOF_HEAD :: "byte \<times> byte" where "TOF_HEAD = (0x3a, 0x3b)"

text \<open>The package lengths; the struct sizes are those of the packed structs.\<close>

definition POSE_PACKAGE_LEN :: nat where "POSE_PACKAGE_LEN = 2 + 24 + 2"
definition ZONE_PACKAGE_LEN :: nat where "ZONE_PACKAGE_LEN = 2 + 12 + 2 * 8 + 2"
definition CMD_PACKAGE_LEN :: nat where "CMD_PACKAGE_LEN = 2 + 1 + 2"
definition LINE_PACKAGE_LEN :: nat where "LINE_PACKAGE_LEN = 8"
definition DIST_PACKAGE_LEN :: nat where "DIST_PACKAGE_LEN = 2 + 4 + 2"

text \<open>The head is serialized from \<open>u8_to_u16(CHAR2, CHAR1)\<close>, the body follows, then the checksum of both.\<close>

definition head_bytes :: "byte \<times> byte \<Rightarrow> byte list" where
  "head_bytes h = fst (serialize_short (u8_to_u16 (snd h) (fst h)))"

definition with_check :: "bool \<Rightarrow> byte list \<Rightarrow> byte list" where
  "with_check char_signed bs = bs @ fst (serialize_short (crc16check char_signed bs))"

text \<open>The upload of the wall-following map goes through a buffer of 50000 bytes.\<close>

definition followwall_maps_upload :: "bool \<Rightarrow> BLOCK_DATA list \<Rightarrow> mem_error + byte list" where
  "followwall_maps_upload char_signed data =
     (let blength = of_nat (9 * length data) :: u32;
          frame = with_check char_signed
            (head_bytes MAP_HEAD @ fst (serialize_int blength) @ fst (serialize_blocks_data data))
      in if length frame \<le> 50000 then Inr frame else Inl OutOfBounds)"

definition get_route :: "bool \<Rightarrow> Point \<Rightarrow> Point \<Rightarrow> byte list" where
  "get_route char_signed start end =
     with_check char_signed
       (head_bytes PATH_HEAD @ fst (serialize_point_data start) @ fst (serialize_point_data end))"

definition imu_callback :: "bool \<Rightarrow> bool \<Rightarrow> IMU_DATA \<Rightarrow> u64 \<Rightarrow> byte list" where
  "imu_callback char_signed big imu timestamp =
     with_check char_signed
       (head_bytes IMU_HEAD @ fst (serialize_imu_data big imu) @ host_bytes big 8 timestamp)"

definition odom_callback :: "bool \<Rightarrow> bool \<Rightarrow> u32 \<Rightarrow> u32 \<Rightarrow> u64 \<Rightarrow> byte list" where
  "odom_callback char_signed big speed_left speed_right timestamp =
     with_check char_signed
       (head_bytes ODOM_HEAD @
        fst (serialize_odom_data big \<lparr>od_speed_left = speed_left, od_speed_right = speed_right\<rparr>) @
        host_bytes big 8 timestamp)"

definition send_cmd :: "bool \<Rightarrow> byte \<Rightarrow> byte list" where
  "send_cmd char_signed cmd = with_check char_signed (head_bytes CMD_HEAD @ [cmd])"

section \<open>The reader's state\<close>

datatype rd_event = Byte byte | Closed | Failed

text \<open>What the reader hands on; \<open>AstarPlan\<close> is the broadcast of the points as a JSON document, whose text is left out.\<close>

datatype nav_out =
    ZoneDownload u32 u32 u32 Point Point
  | PathDownload "Point list"
  | AstarPlan "Point list"
  | CmdPublish byte
  | PoseDownload u32 u32 u32
  | PoseDownNet u32 u32 u32

record nav_reader =
  nr_input :: "rd_event list"
  nr_low_conn :: bool
  nr_pose_conn :: bool
  nr_readBuf :: byte
  nr_contBuf :: "byte list"
  nr_mapBuf :: "byte list"
  nr_mapbBuf :: "byte list"
  nr_pathBuf :: "byte list"
  nr_pathbBuf :: "byte list"
  nr_map_finish :: bool
  nr_robot_X :: int
  nr_robot_Y :: int
  nr_out :: "nav_out list"

datatype 'a nav_res = Waits | Fault mem_error | Ret 'a

fun bindR :: "'a nav_res \<Rightarrow> ('a \<Rightarrow> 'b nav_res) \<Rightarrow> 'b nav_res" where
  "bindR Waits f = Waits"
| "bindR (Fault e) f = Fault e"
| "bindR (Ret x) f = f x"

datatype loop_next = Continue | Break

section \<open>Reading\<close>

fun take_bytes :: "nat \<Rightarrow> rd_event list \<Rightarrow> byte list \<times> rd_event list" where
  "take_bytes (Suc n) (Byte b # es) = (let (bs, r) = take_bytes n es in (b # bs, r))"
| "take_bytes n es = ([], es)"

text \<open>
  \<open>nread\<close>: the bytes that \<open>read\<close> stored. It returns as soon as the result is not zero, so on an error it
  does nothing, and on the end of the stream it closes the low-rate connection whichever socket it read.
\<close>

definition nread :: "nat \<Rightarrow> nav_reader \<Rightarrow> (byte list \<times> nav_reader) nav_res" where
  "nread len s =
     (case nr_input s of
        [] \<Rightarrow> Waits
      | Closed # es \<Rightarrow> Ret ([], s\<lparr>nr_input := es, nr_low_conn := False\<rparr>)
      | Failed # es \<Rightarrow> Ret ([], s\<lparr>nr_input := es\<rparr>)
      | Byte b # es \<Rightarrow> let (bs, r) = take_bytes len (nr_input s) in Ret (bs, s\<lparr>nr_input := r\<rparr>))"

definition read_one :: "nav_reader \<Rightarrow> nav_reader nav_res" where
  "read_one s = bindR (nread 1 s) (\<lambda>(bs, s). Ret (case bs of [] \<Rightarrow> s | b # _ \<Rightarrow> s\<lparr>nr_readBuf := b\<rparr>))"

text \<open>\<open>for (i = 0; i < n; i++) nread(fd, &buf[i], 1)\<close>, from index \<open>i\<close> on.\<close>

fun read_each :: "nat \<Rightarrow> nat \<Rightarrow> byte list \<Rightarrow> nav_reader \<Rightarrow> (byte list \<times> nav_reader) nav_res" where
  "read_each 0 i buf s = Ret (buf, s)"
| "read_each (Suc n) i buf s =
     bindR (nread 1 s) (\<lambda>(bs, s).
       case bs of
         [] \<Rightarrow> read_each n (i + 1) buf s
       | b # _ \<Rightarrow> if i < length buf then read_each n (i + 1) (buf[i := b]) s else Fault OutOfBounds)"

text \<open>A fixed-length frame whose head has been read: the message and whether its checksum is right.\<close>

definition fixed_frame :: "byte \<times> byte \<Rightarrow> nat \<Rightarrow> nav_reader \<Rightarrow> (byte list \<times> bool \<times> nav_reader) nav_res" where
  "fixed_frame h n s =
     bindR (read_each (n - 2) 0 (nr_contBuf s) s) (\<lambda>(cont, s).
       let msg = fst h # snd h # take (n - 2) cont;
           pack_code = u8_to_u16 (msg ! (n - 1)) (msg ! (n - 2));
           checkcode = crc16check8 (take (n - 2) msg)
       in Ret (msg, pack_code = checkcode, s\<lparr>nr_contBuf := cont\<rparr>))"

definition emit :: "nav_out \<Rightarrow> nav_reader \<Rightarrow> nav_reader" where
  "emit x s = s\<lparr>nr_out := nr_out s @ [x]\<rparr>"

definition point_at :: "byte list \<Rightarrow> nat \<Rightarrow> Point" where
  "point_at bs i = \<lparr>pt_x = le_word (take 4 (drop i bs)), pt_y = le_word (take 4 (drop (i + 4) bs))\<rparr>"

section \<open>Handlers of the low-rate socket\<close>

text \<open>The length field: four bytes over a zeroed \<open>int\<close>, of which a short read fills a part.\<close>

definition read_length :: "nav_reader \<Rightarrow> (u32 \<times> nav_reader) nav_res" where
  "read_length s = bindR (nread 4 s) (\<lambda>(bs, s). Ret (le_word (bs @ drop (length bs) [0, 0, 0, 0]), s))"

definition map_frame :: "nav_reader \<Rightarrow> nav_reader nav_res" where
  "map_frame s =
     bindR (read_length s) (\<lambda>(data_length, s).
       let dc_len = sint data_length + 2; total_len = 2 + 4 + dc_len
       in bindR (read_each (nat dc_len) 0 (nr_mapbBuf s) s) (\<lambda>(mapb, s).
         if dc_len < 0 \<or> total_len > int (length (nr_mapBuf s)) \<or> dc_len > int (length mapb) then Fault OutOfBounds
         else
           let mapBuf = fst MAP_HEAD # snd MAP_HEAD # le_bytes 4 data_length @ take (nat dc_len) mapb @
                  drop (nat total_len) (nr_mapBuf s);
               pack_code = u8_to_u16 (mapBuf ! nat (total_len - 1)) (mapBuf ! nat (total_len - 2));
               checkcode = crc16check8 (take (nat (total_len - 2)) mapBuf)
           in Ret (s\<lparr>nr_mapbBuf := mapb, nr_mapBuf := replicate (length (nr_mapBuf s)) 0,
                     nr_map_finish := (if pack_code = checkcode then True else nr_map_finish s)\<rparr>)))"

definition zone_frame :: "nav_reader \<Rightarrow> nav_reader nav_res" where
  "zone_frame s =
     bindR (fixed_frame POINT_HEAD ZONE_PACKAGE_LEN s) (\<lambda>(msg, ok, s).
       Ret (if ok
            then emit (ZoneDownload (pt_x (point_at msg 2)) (pt_y (point_at msg 2)) (le_word (take 4 (drop 10 msg)))
                   (point_at msg 14) (point_at msg 22)) s
            else s))"

definition line_frame :: "nav_reader \<Rightarrow> nav_reader nav_res" where
  "line_frame s = bindR (fixed_frame LINE_HEAD LINE_PACKAGE_LEN s) (\<lambda>(msg, ok, s). Ret s)"

text \<open>
  The loop over the coordinates of a path: \<open>j\<close> counts them, \<open>path\<close> has \<open>data_length / 8\<close> points, and a store
  at index \<open>j / 2\<close> past its end is a fault.
\<close>

function path_loop :: "byte list \<Rightarrow> nat \<Rightarrow> nat \<Rightarrow> nat \<Rightarrow> Point list \<Rightarrow> Point list nav_res" where
  "path_loop pathBuf data_length i j path =
     (if i < data_length
      then
        if length pathBuf < 6 + i + 4 \<or> length path \<le> j div 2 then Fault OutOfBounds
        else
          let coord = le_word (take 4 (drop (6 + i) pathBuf));
              p = path ! (j div 2)
          in path_loop pathBuf data_length (i + 4) (j + 1)
               (path[j div 2 := (if j mod 2 = 0 then p\<lparr>pt_x := coord\<rparr> else p\<lparr>pt_y := coord\<rparr>)])
      else Ret path)"
  by pat_completeness auto
termination by (relation "measure (\<lambda>(b, n, i, j, p). n - i)") auto

declare path_loop.simps [simp del]

definition path_frame :: "nav_reader \<Rightarrow> nav_reader nav_res" where
  "path_frame s =
     bindR (read_length s) (\<lambda>(data_length, s).
       let dc_len = sint data_length + 2; total_len = 2 + 4 + dc_len
       in bindR (read_each (nat dc_len) 0 (nr_pathbBuf s) s) (\<lambda>(pathb, s).
         if dc_len < 0 \<or> total_len > int (length (nr_pathBuf s)) \<or> dc_len > int (length pathb) then Fault OutOfBounds
         else
           let pathBuf = fst PATH_HEAD # snd PATH_HEAD # le_bytes 4 data_length @ take (nat dc_len) pathb @
                  drop (nat total_len) (nr_pathBuf s);
               pack_code = u8_to_u16 (pathBuf ! nat (total_len - 1)) (pathBuf ! nat (total_len - 2));
               checkcode = crc16check8 (take (nat (total_len - 2)) pathBuf);
               s1 = s\<lparr>nr_pathbBuf := pathb, nr_pathBuf := pathBuf, nr_mapBuf := replicate (length (nr_mapBuf s)) 0\<rparr>
           in if pack_code = checkcode
              then bindR (path_loop pathBuf (nat (sint data_length)) 0 0
                     (replicate (nat (sint data_length) div 8) \<lparr>pt_x = 0, pt_y = 0\<rparr>))
                   (\<lambda>path. Ret (emit (AstarPlan path) (emit (PathDownload path) s1)))
              else Ret s1))"

definition cmd_frame :: "nav_reader \<Rightarrow> nav_reader nav_res" where
  "cmd_frame s =
     bindR (fixed_frame CMD_HEAD CMD_PACKAGE_LEN s) (\<lambda>(msg, ok, s).
       Ret (if ok then emit (CmdPublish (msg ! 2)) s else s))"

definition dist_frame :: "nav_reader \<Rightarrow> nav_reader nav_res" where
  "dist_frame s = bindR (fixed_frame DIST_HEAD DIST_PACKAGE_LEN s) (\<lambda>(msg, ok, s). Ret s)"

definition tof_frame :: "nav_reader \<Rightarrow> nav_reader nav_res" where
  "tof_frame s = bindR (fixed_frame TOF_HEAD CMD_PACKAGE_LEN s) (\<lambda>(msg, ok, s). Ret s)"

text \<open>
  One \<open>if (readBuf[0] == CHAR1)\<close> block: when the second byte does not match, control falls through to the
  next block with the second byte in \<open>readBuf\<close>.
\<close>

definition on_head :: "byte \<times> byte \<Rightarrow> (nav_reader \<Rightarrow> nav_reader nav_res) \<Rightarrow>
    (nav_reader \<Rightarrow> (loop_next \<times> nav_reader) nav_res) \<Rightarrow> nav_reader \<Rightarrow> (loop_next \<times> nav_reader) nav_res" where
  "on_head h handler otherwise s =
     (if nr_readBuf s = fst h
      then bindR (read_one s) (\<lambda>s.
             if nr_readBuf s = snd h then bindR (handler s) (\<lambda>s. Ret (Continue, s)) else otherwise s)
      else otherwise s)"

definition tof_or_unknown :: "nav_reader \<Rightarrow> (loop_next \<times> nav_reader) nav_res" where
  "tof_or_unknown s =
     (if nr_readBuf s = fst TOF_HEAD
      then bindR (read_one s) (\<lambda>s.
             if nr_readBuf s = snd TOF_HEAD then bindR (tof_frame s) (\<lambda>s. Ret (Continue, s))
             else Ret (Continue, s))
      else if \<not> nr_low_conn s then Ret (Break, s) else Ret (Continue, s))"

definition client_low_read :: "nav_reader \<Rightarrow> (loop_next \<times> nav_reader) nav_res" where
  "client_low_read s =
     (if \<not> nr_low_conn s then Ret (Continue, s)
      else bindR (read_one s)
        (on_head MAP_HEAD map_frame
        (on_head POINT_HEAD zone_frame
        (on_head LINE_HEAD line_frame
        (on_head PATH_HEAD path_frame
        (on_head CMD_HEAD cmd_frame
        (on_head DIST_HEAD dist_frame
         tof_or_unknown)))))))"

section \<open>The pose socket\<close>

definition pose_frame :: "nav_reader \<Rightarrow> nav_reader nav_res" where
  "pose_frame s =
     bindR (fixed_frame POSE_HEAD POSE_PACKAGE_LEN s) (\<lambda>(msg, ok, s).
       Ret (if ok
            then
              let p = point_at msg 2; yaw = le_word (take 4 (drop 10 msg));
                  s1 = emit (PoseDownload (pt_x p) (pt_y p) yaw) s
              in if \<bar>sint (pt_x p) - nr_robot_X s\<bar> \<ge> 4 \<or> \<bar>sint (pt_y p) - nr_robot_Y s\<bar> \<ge> 4
                 then (emit (PoseDownNet (pt_x p) (pt_y p) yaw) s1)\<lparr>nr_robot_X := sint (pt_x p), nr_robot_Y := sint (pt_y p)\<rparr>
                 else s1
            else s))"

text \<open>After a wrong second byte the pass ends; an unknown first byte ends the thread once the connection is gone.\<close>

definition client_pose_read :: "nav_reader \<Rightarrow> (loop_next \<times> nav_reader) nav_res" where
  "client_pose_read s =
     (if \<not> nr_pose_conn s then Ret (Continue, s)
      else bindR (read_one s) (\<lambda>s.
        if nr_readBuf s = fst POSE_HEAD
        then bindR (read_one s) (\<lambda>s.
               if nr_readBuf s = snd POSE_HEAD then bindR (pose_frame s) (\<lambda>s. Ret (Continue, s))
               else Ret (Continue, s))
        else if \<not> nr_pose_conn s then Ret (Break, s) else Ret (Continue, s)))"


section \<open>Reading bytes that are there\<close>

lemma nread_byte: "nr_input s = Byte b # r \<Longrightarrow> nread (Suc 0) s = Ret ([b], s\<lparr>nr_input := r\<rparr>)"
  by (simp add: nread_def)

lemma read_one_byte: "nr_input s = Byte b # r \<Longrightarrow> read_one s = Ret (s\<lparr>nr_input := r, nr_readBuf := b\<rparr>)"
  by (simp add: read_one_def nread_def)

lemma take_bytes_all: "take_bytes (length bs) (map Byte bs @ r) = (bs, r)"
  by (induction bs) (auto simp: take_bytes.simps(2))

lemma nread_bytes: "bs \<noteq> [] \<Longrightarrow> nr_input s = map Byte bs @ r \<Longrightarrow> nread (length bs) s = Ret (bs, s\<lparr>nr_input := r\<rparr>)"
  using take_bytes_all [of bs r] by (cases bs) (auto simp: nread_def)

lemma read_length_ok:
  "nr_input s = map Byte (le_bytes 4 v) @ r \<Longrightarrow> read_length s = Ret (v, s\<lparr>nr_input := r\<rparr>)"
proof -
  assume i: "nr_input s = map Byte (le_bytes 4 v) @ r"
  have "le_bytes 4 v \<noteq> []" by (simp add: le_bytes_drop)
  from nread_bytes [OF this i] show ?thesis by (simp add: read_length_def le_word_bytes)
qed

lemma read_each_ok:
  "nr_input s = map Byte bs @ r \<Longrightarrow> i + length bs \<le> length buf \<Longrightarrow>
     read_each (length bs) i buf s = Ret (take i buf @ bs @ drop (i + length bs) buf, s\<lparr>nr_input := r\<rparr>)"
proof (induction bs arbitrary: i buf s)
  case (Cons b bs)
  have n: "nread (Suc 0) s = Ret ([b], s\<lparr>nr_input := map Byte bs @ r\<rparr>)" using Cons.prems by (simp add: nread_byte)
  have "read_each (length bs) (i + 1) (buf[i := b]) (s\<lparr>nr_input := map Byte bs @ r\<rparr>) =
      Ret (take (i + 1) (buf[i := b]) @ bs @ drop (i + 1 + length bs) (buf[i := b]), s\<lparr>nr_input := r\<rparr>)"
    using Cons.IH [of "s\<lparr>nr_input := map Byte bs @ r\<rparr>" "i + 1" "buf[i := b]"] Cons.prems by simp
  moreover have "take (i + 1) (buf[i := b]) = take i buf @ [b]" using Cons.prems(2)
    by (simp add: take_Suc_conv_app_nth)
  ultimately show ?case using Cons.prems(2) by (simp add: n)
qed simp

lemma read_each_prefix:
  assumes "nr_input s = map Byte body @ r" "k \<le> length body" "k \<le> length buf"
  shows "read_each k 0 buf s = Ret (take k body @ drop k buf, s\<lparr>nr_input := map Byte (drop k body) @ r\<rparr>)"
proof -
  have i: "nr_input s = map Byte (take k body) @ map Byte (drop k body) @ r"
    using assms(1) by (simp flip: map_append append_assoc)
  have k: "length (take k body) = k" using assms(2) by simp
  show ?thesis using read_each_ok [OF i, of 0 buf] assms(3) unfolding k by simp
qed

lemma read_each_overflow:
  "nr_input s = map Byte bs @ r \<Longrightarrow> length bs = length buf - i + 1 \<Longrightarrow> i \<le> length buf \<Longrightarrow> length bs \<le> n \<Longrightarrow>
     read_each n i buf s = Fault OutOfBounds"
proof (induction bs arbitrary: n i buf s)
  case (Cons b bs)
  obtain k where k: "n = Suc k" using Cons.prems(4) by (cases n) auto
  have n: "nread (Suc 0) s = Ret ([b], s\<lparr>nr_input := map Byte bs @ r\<rparr>)" using Cons.prems by (simp add: nread_byte)
  show ?case
  proof (cases "i < length buf")
    case True
    then show ?thesis using Cons.IH [of "s\<lparr>nr_input := map Byte bs @ r\<rparr>" "buf[i := b]" "i + 1" k] Cons.prems
      by (simp add: k n)
  next
    case False
    then show ?thesis by (simp add: k n)
  qed
qed simp

lemma fixed_frame_ok:
  assumes "nr_input s = map Byte (body @ [lo, hi]) @ r" "length body = n - 4" "4 \<le> n" "n - 2 \<le> length (nr_contBuf s)"
  shows "fixed_frame h n s = Ret (fst h # snd h # body @ [lo, hi],
    le_word [lo, hi] = crc16check8 (fst h # snd h # body),
    s\<lparr>nr_input := r, nr_contBuf := body @ [lo, hi] @ drop (n - 2) (nr_contBuf s)\<rparr>)"
proof -
  have len: "length (body @ [lo, hi]) = n - 2" using assms(2,3) by simp
  have r: "read_each (n - 2) 0 (nr_contBuf s) s =
      Ret (body @ [lo, hi] @ drop (n - 2) (nr_contBuf s), s\<lparr>nr_input := r\<rparr>)"
    using read_each_ok [OF assms(1), of 0 "nr_contBuf s"] assms(4) unfolding len by simp
  let ?msg = "fst h # snd h # body @ [lo, hi]"
  have t: "fst h # snd h # take (n - 2) (body @ [lo, hi] @ drop (n - 2) (nr_contBuf s)) = ?msg"
    using len by (simp add: take_Cons')
  have e: "?msg ! (n - 1) = hi" "?msg ! (n - 2) = lo" "take (n - 2) ?msg = fst h # snd h # body"
  proof -
    obtain k where k: "n = k + 4" using assms(3) by (metis add.commute le_Suc_ex)
    then have "length body = k" using assms(2) by simp
    then show "?msg ! (n - 1) = hi" "?msg ! (n - 2) = lo" "take (n - 2) ?msg = fst h # snd h # body"
      by (auto simp: k nth_append numeral_eq_Suc)
  qed
  show ?thesis unfolding fixed_frame_def r bindR.simps prod.case Let_def t e u8_to_u16_le
    by simp
qed

lemma with_check_frame: "with_check cs bs = bs @ le_bytes 2 (crc16check cs bs)"
  by (simp add: with_check_def serialize_le)

lemma head_bytes_eq: "head_bytes h = [fst h, snd h]"
  using le_bytes_word [of "[fst h, snd h]" 2, where ?'a = 16]
  by (simp add: head_bytes_def serialize_le u8_to_u16_le del: le_word.simps)

lemma le_bytes2: "\<exists>lo hi. le_bytes 2 v = [lo, hi] \<and> le_word [lo, hi] = v" for v :: u16
  using le_word_bytes [of 2 v] by (simp add: le_bytes_drop del: le_word.simps)

lemmas head_defs = MAP_HEAD_def POSE_HEAD_def POINT_HEAD_def LINE_HEAD_def CMD_HEAD_def DIST_HEAD_def PATH_HEAD_def TOF_HEAD_def

lemma low_cmd_frame:
  assumes "nr_low_conn s" "nr_input s = map Byte ([0x12, 0x34, c, lo, hi]) @ r" "length (nr_contBuf s) = 50"
  shows "\<exists>s'. client_low_read s = Ret (Continue, s') \<and> nr_input s' = r \<and> length (nr_contBuf s') = 50 \<and> nr_low_conn s' \<and>
    nr_out s' = (if le_word [lo, hi] = crc16check8 [0x12, 0x34, c] then nr_out s @ [CmdPublish c] else nr_out s)"
proof -
  define s1 where "s1 = s\<lparr>nr_input := map Byte ([0x34, c, lo, hi]) @ r, nr_readBuf := 0x12\<rparr>"
  define s2 where "s2 = s1\<lparr>nr_input := map Byte ([c] @ [lo, hi]) @ r, nr_readBuf := 0x34\<rparr>"
  have r1: "read_one s = Ret s1" using assms(2) by (simp add: read_one_byte s1_def)
  have r2: "read_one s1 = Ret s2" by (simp add: read_one_byte s1_def s2_def)
  have f: "fixed_frame CMD_HEAD CMD_PACKAGE_LEN s2 = Ret ([0x12, 0x34, c, lo, hi], le_word [lo, hi] = crc16check8 [0x12, 0x34, c],
      s2\<lparr>nr_input := r, nr_contBuf := [c] @ [lo, hi] @ drop (CMD_PACKAGE_LEN - 2) (nr_contBuf s2)\<rparr>)"
    by (subst fixed_frame_ok [of s2 "[c]" lo hi r])
      (auto simp: s2_def s1_def CMD_PACKAGE_LEN_def CMD_HEAD_def assms(3))
  have rb: "nr_readBuf s1 = 0x12" "nr_readBuf s2 = 0x34" by (simp_all add: s1_def s2_def)
  have "client_low_read s = bindR (cmd_frame s2) (\<lambda>s. Ret (Continue, s))"
    using assms(1) by (simp add: client_low_read_def r1 on_head_def head_defs rb r2)
  then show ?thesis
    by (simp add: cmd_frame_def f emit_def)
      (simp add: s2_def s1_def assms CMD_PACKAGE_LEN_def)
qed

lemma low_map_frame_start:
  fixes n :: u32
  assumes "nr_low_conn s" "nr_input s = map Byte (0xaa # 0xbb # le_bytes 4 n @ body) @ r"
  shows "client_low_read s = bindR (map_frame (s\<lparr>nr_input := map Byte (le_bytes 4 n @ body) @ r, nr_readBuf := 0xbb\<rparr>))
    (\<lambda>s. Ret (Continue, s))"
proof -
  define s1 where "s1 = s\<lparr>nr_input := map Byte (0xbb # le_bytes 4 n @ body) @ r, nr_readBuf := 0xaa\<rparr>"
  have r1: "read_one s = Ret s1" using assms(2) by (simp add: read_one_byte s1_def)
  have r2: "read_one s1 = Ret (s\<lparr>nr_input := map Byte (le_bytes 4 n @ body) @ r, nr_readBuf := 0xbb\<rparr>)"
    by (simp add: read_one_byte s1_def)
  have rb: "nr_readBuf s1 = 0xaa" by (simp add: s1_def)
  show ?thesis using assms(1) by (simp add: client_low_read_def r1 on_head_def head_defs rb r2)
qed

lemma low_path_frame_start:
  fixes n :: u32
  assumes "nr_low_conn s" "nr_input s = map Byte (0x9b # 0xac # le_bytes 4 n @ body) @ r"
  shows "client_low_read s = bindR (path_frame (s\<lparr>nr_input := map Byte (le_bytes 4 n @ body) @ r, nr_readBuf := 0xac\<rparr>))
    (\<lambda>s. Ret (Continue, s))"
proof -
  define s1 where "s1 = s\<lparr>nr_input := map Byte (0xac # le_bytes 4 n @ body) @ r, nr_readBuf := 0x9b\<rparr>"
  have r1: "read_one s = Ret s1" using assms(2) by (simp add: read_one_byte s1_def)
  have r2: "read_one s1 = Ret (s\<lparr>nr_input := map Byte (le_bytes 4 n @ body) @ r, nr_readBuf := 0xac\<rparr>)"
    by (simp add: read_one_byte s1_def)
  have rb: "nr_readBuf s1 = 0x9b" by (simp add: s1_def)
  show ?thesis using assms(1) by (simp add: client_low_read_def r1 on_head_def head_defs rb r2)
qed

lemma map_frame_oversize:
  fixes n :: u32
  assumes i: "nr_input s = map Byte (le_bytes 4 n @ body) @ r" and b: "length (nr_mapbBuf s) = 40000" "length (nr_mapBuf s) = 40000"
    and n: "39992 < sint n" and body: "nat (sint n + 2) \<le> length body"
  shows "map_frame s = Fault OutOfBounds"
proof -
  have rl: "read_length s = Ret (n, s\<lparr>nr_input := map Byte body @ r\<rparr>)" using i by (simp add: read_length_ok)
  let ?s = "s\<lparr>nr_input := map Byte body @ r\<rparr>"
  let ?k = "nat (sint n + 2)"
  show ?thesis
  proof (cases "?k \<le> 40000")
    case True
    then have "read_each ?k 0 (nr_mapbBuf s) ?s =
        Ret (take ?k body @ drop ?k (nr_mapbBuf s), s\<lparr>nr_input := map Byte (drop ?k body) @ r\<rparr>)"
      using read_each_prefix [of ?s body r ?k "nr_mapbBuf s"] b body by simp
    then show ?thesis using n b by (simp add: map_frame_def rl)
  next
    case False
    then have "nr_input ?s = map Byte (take 40001 body) @ map Byte (drop 40001 body) @ r"
      by (simp flip: map_append append_assoc)
    from read_each_overflow [OF this, of "nr_mapbBuf s" 0 ?k] False b body
    have "read_each ?k 0 (nr_mapbBuf s) ?s = Fault OutOfBounds" by simp
    then show ?thesis by (simp add: map_frame_def rl)
  qed
qed

text \<open>A complete frame with a length field, as a receiver assembles it.\<close>

lemma assembled:
  fixes n :: u32 and a b lo hi :: byte and buf body :: "byte list"
  assumes n: "sint n = int (length body)" and h: "length buf = length body + 8 + k"
  defines "full \<equiv> a # b # le_bytes 4 n @ body @ [lo, hi] @ drop (length body + 8) buf"
  shows "full ! nat (int (length body) + 7) = hi" "full ! nat (int (length body) + 6) = lo"
    "take (nat (int (length body) + 6)) full = a # b # le_bytes 4 n @ body"
proof -
  have l: "nat (int (length body) + 7) = length (a # b # le_bytes 4 n @ body) + 1"
    "nat (int (length body) + 6) = length (a # b # le_bytes 4 n @ body)" by simp_all
  have f: "full = (a # b # le_bytes 4 n @ body) @ lo # hi # drop (length body + 8) buf" by (simp add: full_def)
  show "full ! nat (int (length body) + 7) = hi" unfolding f l by (simp add: nth_append)
  show "full ! nat (int (length body) + 6) = lo" unfolding f l by (simp add: nth_append)
  show "take (nat (int (length body) + 6)) full = a # b # le_bytes 4 n @ body" unfolding f l by (metis append_eq_conv_conj)
qed

lemma frame_len:
  fixes n :: u32
  assumes "sint n = int k"
  shows "nat (sint n + 2) = k + 2" "nat (2 + 4 + (sint n + 2)) = k + 8"
    "nat (2 + 4 + (sint n + 2) - 1) = nat (int k + 7)" "nat (2 + 4 + (sint n + 2) - 2) = nat (int k + 6)"
  using assms by (simp_all add: add.commute)

lemma map_frame_ok:
  fixes n :: u32
  assumes i: "nr_input s = map Byte (le_bytes 4 n @ body @ [lo, hi]) @ r"
    and b: "length (nr_mapbBuf s) = 40000" "length (nr_mapBuf s) = 40000"
    and n: "sint n = int (length body)" "length body + 8 \<le> 40000"
  shows "\<exists>s'. map_frame s = Ret s' \<and> nr_input s' = r \<and> nr_out s' = nr_out s \<and>
    nr_map_finish s' = (nr_map_finish s \<or> le_word [lo, hi] = crc16check8 (0xaa # 0xbb # le_bytes 4 n @ body))"
proof -
  let ?s = "s\<lparr>nr_input := map Byte (body @ [lo, hi]) @ r\<rparr>" and ?k = "length body + 2"
  have rl: "read_length s = Ret (n, ?s)" using i by (simp add: read_length_ok)
  have k: "nat (sint n + 2) = ?k" using n by simp
  have re: "read_each ?k 0 (nr_mapbBuf ?s) ?s = Ret (body @ [lo, hi] @ drop ?k (nr_mapbBuf s), s\<lparr>nr_input := r\<rparr>)"
    using read_each_prefix [of ?s "body @ [lo, hi]" r ?k "nr_mapbBuf s"] n(2) b by simp
  obtain j where j: "length (nr_mapBuf s) = length body + 8 + j" using n(2) b by (metis le_Suc_ex)
  note as = assembled [OF n(1) j, where a = "0xaa" and b = "0xbb" and lo = lo and hi = hi]
  show ?thesis
    unfolding map_frame_def rl bindR.simps prod.case Let_def frame_len(1) [OF n(1)] re
    unfolding frame_len [OF n(1)] MAP_HEAD_def fst_conv snd_conv
    using n b as by (simp add: u8_to_u16_le del: le_word.simps)
qed

section \<open>Paths\<close>

lemma path_loop_pair:
  assumes "8 * m + 8 \<le> dl" "m < length path" "6 + 8 * m + 8 \<le> length b"
  shows "path_loop b dl (8 * m) (2 * m) path = path_loop b dl (8 * Suc m) (2 * Suc m) (path[m := point_at b (6 + 8 * m)])"
proof -
  let ?x = "le_word (take 4 (drop (6 + 8 * m) b)) :: u32" and ?y = "le_word (take 4 (drop (6 + (8 * m + 4)) b)) :: u32"
  have 1: "path_loop b dl (8 * m) (2 * m) path = path_loop b dl (8 * m + 4) (2 * m + 1) (path[m := (path ! m)\<lparr>pt_x := ?x\<rparr>])"
    using assms by (subst path_loop.simps) (simp add: Let_def)
  have d: "(2 * m + 1) div 2 = m" "(2 * m + 1) mod 2 \<noteq> 0" by auto
  have 2: "path_loop b dl (8 * m + 4) (2 * m + 1) q = path_loop b dl (8 * m + 4 + 4) (2 * m + 1 + 1) (q[m := (q ! m)\<lparr>pt_y := ?y\<rparr>])"
    if "length q = length path" for q
    using assms that by (subst path_loop.simps) (simp only: d Let_def, simp)
  have p: "(path ! m)\<lparr>pt_x := ?x, pt_y := ?y\<rparr> = point_at b (6 + 8 * m)"
    by (simp add: point_at_def add.assoc)
  have e: "8 * m + 4 + 4 = 8 * Suc m" "2 * m + 1 + 1 = 2 * Suc m" by simp_all
  show ?thesis unfolding 1 2 [OF length_list_update] e using assms(2) p by simp
qed

lemma path_loop_points:
  assumes "m \<le> n" "length path = n" "6 + 8 * n \<le> length b" "8 * n \<le> dl"
  shows "path_loop b dl (8 * m) (2 * m) path =
    path_loop b dl (8 * n) (2 * n) (take m path @ map (\<lambda>i. point_at b (6 + 8 * i)) [m..<n])"
  using assms
proof (induction "n - m" arbitrary: m path)
  case (Suc k)
  then have m: "m < n" by simp
  have "path_loop b dl (8 * m) (2 * m) path = path_loop b dl (8 * Suc m) (2 * Suc m) (path[m := point_at b (6 + 8 * m)])"
    using path_loop_pair [of m dl path b] m Suc.prems by simp
  also have "\<dots> = path_loop b dl (8 * n) (2 * n) (take (Suc m) (path[m := point_at b (6 + 8 * m)]) @
      map (\<lambda>i. point_at b (6 + 8 * i)) [Suc m..<n])"
    by (rule Suc.hyps(1)) (use Suc m in auto)
  also have "take (Suc m) (path[m := point_at b (6 + 8 * m)]) @ map (\<lambda>i. point_at b (6 + 8 * i)) [Suc m..<n] =
      take m path @ map (\<lambda>i. point_at b (6 + 8 * i)) [m..<n]"
    using m Suc.prems(2) by (simp add: take_Suc_conv_app_nth upt_conv_Cons)
  finally show ?case .
qed simp

lemma path_loop_aligned:
  "length path = n \<Longrightarrow> 6 + 8 * n \<le> length b \<Longrightarrow>
     path_loop b (8 * n) 0 0 path = Ret (map (\<lambda>i. point_at b (6 + 8 * i)) [0..<n])"
  using path_loop_points [of 0 n path b "8 * n"] path_loop.simps [of b "8 * n" "8 * n"] by simp

lemma path_loop_misaligned:
  "length path = dl div 8 \<Longrightarrow> dl mod 8 \<noteq> 0 \<Longrightarrow> 6 + dl \<le> length b \<Longrightarrow> path_loop b dl 0 0 path = Fault OutOfBounds"
proof -
  assume h: "length path = dl div 8" "dl mod 8 \<noteq> 0" "6 + dl \<le> length b"
  have q: "8 * (dl div 8) < dl" using h(2) div_mult_mod_eq [of dl 8] by linarith
  let ?p = "map (\<lambda>i. point_at b (6 + 8 * i)) [0..<dl div 8]"
  have "path_loop b dl 0 0 path = path_loop b dl (8 * (dl div 8)) (2 * (dl div 8)) ?p"
    using path_loop_points [of 0 "dl div 8" path b dl] h q by simp
  also have "\<dots> = Fault OutOfBounds" using q by (subst path_loop.simps) simp
  finally show ?thesis .
qed

definition all_points :: "Point list \<Rightarrow> byte list" where
  "all_points ps = concat (map (\<lambda>p. fst (serialize_point_data p)) ps)"

lemma length_all_points [simp]: "length (all_points ps) = 8 * length ps"
  by (induction ps) (auto simp: all_points_def serialize_le)

lemma point_at_points: "i < length ps \<Longrightarrow> point_at (all_points ps @ r) (8 * i) = ps ! i"
proof (induction ps arbitrary: i)
  case (Cons p ps)
  have c: "all_points (p # ps) = le_bytes 4 (pt_x p) @ le_bytes 4 (pt_y p) @ all_points ps"
    by (simp add: all_points_def serialize_le)
  show ?case
  proof (cases i)
    case 0
    then show ?thesis by (simp add: c point_at_def le_word_bytes)
  next
    case (Suc j)
    have "point_at (all_points (p # ps) @ r) (8 * i) = point_at (all_points ps @ r) (8 * j)"
      by (simp add: c point_at_def Suc add.commute)
    then show ?thesis using Cons Suc by simp
  qed
qed simp

lemma point_at_prefix: "length h = k \<Longrightarrow> point_at (h @ b) (k + i) = point_at b i"
  by (simp add: point_at_def add.assoc)

text \<open>A path frame with the right checksum, up to the loop over its coordinates.\<close>

lemma path_frame_loop:
  fixes n :: u32
  assumes i: "nr_input s = map Byte (le_bytes 4 n @ body @ [lo, hi]) @ r"
    and b: "length (nr_pathbBuf s) = 10000" "length (nr_pathBuf s) = 10000"
    and n: "sint n = int (length body)" "length body + 8 \<le> 10000"
    and crc: "le_word [lo, hi] = crc16check8 (0x9b # 0xac # le_bytes 4 n @ body)"
  shows "\<exists>s1 rest. nr_input s1 = r \<and> nr_out s1 = nr_out s \<and> path_frame s =
    bindR (path_loop (0x9b # 0xac # le_bytes 4 n @ body @ rest) (length body) 0 0
       (replicate (length body div 8) \<lparr>pt_x = 0, pt_y = 0\<rparr>)) (\<lambda>path. Ret (emit (AstarPlan path) (emit (PathDownload path) s1)))"
proof -
  let ?s = "s\<lparr>nr_input := map Byte (body @ [lo, hi]) @ r\<rparr>" and ?k = "length body + 2"
  have rl: "read_length s = Ret (n, ?s)" using i by (simp add: read_length_ok)
  have re: "read_each ?k 0 (nr_pathbBuf ?s) ?s = Ret (body @ [lo, hi] @ drop ?k (nr_pathbBuf s), s\<lparr>nr_input := r\<rparr>)"
    using read_each_prefix [of ?s "body @ [lo, hi]" r ?k "nr_pathbBuf s"] n(2) b by simp
  obtain j where j: "length (nr_pathBuf s) = length body + 8 + j" using n(2) b by (metis le_Suc_ex)
  note as = assembled [OF n(1) j, where a = "0x9b" and b = "0xac" and lo = lo and hi = hi]
  let ?full = "0x9b # 0xac # le_bytes 4 n @ body @ [lo, hi] @ drop (length body + 8) (nr_pathBuf s)"
  let ?s1 = "s\<lparr>nr_input := r, nr_pathbBuf := body @ [lo, hi] @ drop ?k (nr_pathbBuf s), nr_pathBuf := ?full,
    nr_mapBuf := replicate (length (nr_mapBuf s)) 0\<rparr>"
  have "path_frame s = bindR (path_loop ?full (length body) 0 0 (replicate (length body div 8) \<lparr>pt_x = 0, pt_y = 0\<rparr>))
      (\<lambda>path. Ret (emit (AstarPlan path) (emit (PathDownload path) ?s1)))"
    unfolding path_frame_def rl bindR.simps prod.case Let_def frame_len(1) [OF n(1)] re
    unfolding frame_len [OF n(1)] PATH_HEAD_def fst_conv snd_conv
    using n b as crc by (simp add: u8_to_u16_le del: le_word.simps)
  then show ?thesis by (intro exI [of _ ?s1] exI [of _ "[lo, hi] @ drop (length body + 8) (nr_pathBuf s)"]) simp
qed

section \<open>Properties\<close>

definition nr_start :: "rd_event list \<Rightarrow> nav_reader" where
  "nr_start es = \<lparr>nr_input = es, nr_low_conn = True, nr_pose_conn = True, nr_readBuf = 0,
     nr_contBuf = replicate 50 0, nr_mapBuf = replicate 40000 0, nr_mapbBuf = replicate 40000 0,
     nr_pathBuf = replicate 10000 0, nr_pathbBuf = replicate 10000 0, nr_map_finish = False,
     nr_robot_X = - 1, nr_robot_Y = - 1, nr_out = []\<rparr>"

lemma nr_start_simps [simp]:
  "nr_input (nr_start es) = es" "nr_low_conn (nr_start es)" "nr_pose_conn (nr_start es)"
  "length (nr_contBuf (nr_start es)) = 50" "length (nr_mapBuf (nr_start es)) = 40000"
  "length (nr_mapbBuf (nr_start es)) = 40000" "length (nr_pathBuf (nr_start es)) = 10000"
  "length (nr_pathbBuf (nr_start es)) = 10000" "nr_out (nr_start es) = []" "nr_readBuf (nr_start es) = 0"
  by (simp_all only: nr_start_def nav_reader.simps length_replicate)

text \<open>C7. A command frame as \<open>send_cmd\<close> builds it is taken whole by one pass of the low-rate reader, which
  publishes exactly that command, when \<open>char\<close> is unsigned or the command is below 128.\<close>

theorem cmd_frame_roundtrip:
  assumes "nr_low_conn s" "length (nr_contBuf s) = 50" "nr_input s = map Byte (send_cmd char_signed cmd) @ r"
    and "\<not> char_signed \<or> unat cmd < 128"
  shows "\<exists>s'. client_low_read s = Ret (Continue, s') \<and> nr_out s' = nr_out s @ [CmdPublish cmd] \<and> nr_input s' = r"
proof -
  have h: "head_bytes CMD_HEAD = [0x12, 0x34]" by (simp add: head_bytes_eq CMD_HEAD_def)
  have crc: "crc16check char_signed [0x12, 0x34, cmd] = crc16check8 [0x12, 0x34, cmd]"
    using assms(4) by (intro crc16check_agree) auto
  obtain lo hi where l: "le_bytes 2 (crc16check8 [0x12, 0x34, cmd]) = [lo, hi]" "le_word [lo, hi] = crc16check8 [0x12, 0x34, cmd]"
    using le_bytes2 by blast
  have "nr_input s = map Byte [0x12, 0x34, cmd, lo, hi] @ r"
    using assms(3) by (simp add: send_cmd_def with_check_frame h crc l)
  from low_cmd_frame [OF assms(1) this assms(2)] l(2) show ?thesis by auto
qed

theorem cmd_frame_roundtrip_witness:
  "\<exists>s'. client_low_read (nr_start (map Byte (send_cmd True 5) @ [Closed])) = Ret (Continue, s') \<and>
     nr_out s' = [CmdPublish 5] \<and> nr_input s' = [Closed]"
  using cmd_frame_roundtrip [of "nr_start (map Byte (send_cmd True 5) @ [Closed])" True 5 "[Closed]"] by simp

text \<open>A command frame with a wrong checksum is consumed and publishes nothing.\<close>

theorem cmd_frame_bad_check:
  assumes "nr_low_conn s" "length (nr_contBuf s) = 50" "nr_input s = map Byte [0x12, 0x34, cmd, lo, hi] @ r"
    and "le_word [lo, hi] \<noteq> crc16check8 [0x12, 0x34, cmd]"
  shows "\<exists>s'. client_low_read s = Ret (Continue, s') \<and> nr_out s' = nr_out s \<and> nr_input s' = r"
  using low_cmd_frame [OF assms(1,3,2)] assms(4) by auto

theorem cmd_frame_bad_check_witness:
  "\<exists>s'. client_low_read (nr_start (map Byte [0x12, 0x34, 5, 0, 0] @ [])) = Ret (Continue, s') \<and> nr_out s' = []"
proof -
  have "le_word [0, 0] \<noteq> crc16check8 [0x12, 0x34, 5]" by (simp add: crc_eval)
  from cmd_frame_bad_check [OF _ _ _ this, of "nr_start (map Byte [0x12, 0x34, 5, 0, 0] @ [])" "[]"]
  show ?thesis by auto
qed

text \<open>A map upload built by \<open>followwall_maps_upload\<close> that fits the receiver's buffer passes the receiver's
  length and checksum handling when \<open>char\<close> is unsigned: it is consumed whole and marks the map as received.\<close>

theorem map_frame_accepted:
  assumes "nr_low_conn s" "length (nr_mapbBuf s) = 40000" "length (nr_mapBuf s) = 40000"
    and "9 * length ds + 8 \<le> 40000" "followwall_maps_upload False ds = Inr frame" "nr_input s = map Byte frame @ r"
  shows "\<exists>s'. client_low_read s = Ret (Continue, s') \<and> nr_map_finish s' \<and> nr_input s' = r"
proof -
  let ?n = "of_nat (9 * length ds) :: u32"
  let ?body = "all_blocks ds"
  let ?pre = "0xaa # 0xbb # le_bytes 4 ?n @ ?body"
  obtain lo hi where l: "le_bytes 2 (crc16check8 ?pre) = [lo, hi]" "le_word [lo, hi] = crc16check8 ?pre" using le_bytes2 by blast
  have h: "head_bytes MAP_HEAD = [0xaa, 0xbb]" by (simp add: head_bytes_eq MAP_HEAD_def)
  have f: "frame = 0xaa # 0xbb # le_bytes 4 ?n @ ?body @ [lo, hi]"
    using assms(5) crc16check_agree [of False ?pre] l(1)
    by (simp add: followwall_maps_upload_def with_check_frame h serialize_le serialize_blocks_le Let_def split: if_splits)
  let ?s = "s\<lparr>nr_input := map Byte (le_bytes 4 ?n @ ?body @ [lo, hi]) @ r, nr_readBuf := 0xbb\<rparr>"
  have st: "client_low_read s = bindR (map_frame ?s) (\<lambda>s. Ret (Continue, s))"
    using low_map_frame_start [OF assms(1), of ?n "?body @ [lo, hi]" r] assms(6) f by simp
  have n: "sint ?n = int (length ?body)"
    using assms(4) by (subst sint_of_nat_small) auto
  obtain s' where "map_frame ?s = Ret s'" "nr_input s' = r" "nr_map_finish s'"
    using map_frame_ok [of ?s ?n ?body lo hi r] n assms(2,3,4) l(2) by (auto simp: mult.commute)
  then show ?thesis using st by simp
qed

theorem map_frame_accepted_witness:
  "\<exists>frame s'. followwall_maps_upload False [\<lparr>bd_point = \<lparr>pt_x = 1, pt_y = 2\<rparr>, bd_type = 3\<rparr>] = Inr frame \<and>
     client_low_read (nr_start (map Byte frame @ [])) = Ret (Continue, s') \<and> nr_map_finish s'"
proof -
  let ?ds = "[\<lparr>bd_point = \<lparr>pt_x = 1, pt_y = 2\<rparr>, bd_type = 3\<rparr>]"
  obtain frame where f: "followwall_maps_upload False ?ds = Inr frame"
    by (simp add: followwall_maps_upload_def with_check_frame serialize_le serialize_blocks_le head_bytes_eq Let_def)
  from map_frame_accepted [OF _ _ _ _ f, of "nr_start (map Byte frame @ [])" "[]"] show ?thesis using f by auto
qed

text \<open>The reader trusts the length field of a map frame: a length above 39992 makes it write past its 40000-byte
  buffers.\<close>

theorem map_frame_length_overflow:
  assumes "nr_low_conn s" "length (nr_mapbBuf s) = 40000" "length (nr_mapBuf s) = 40000"
    and "nr_input s = map Byte (0xaa # 0xbb # le_bytes 4 (n :: u32) @ body) @ r"
    and "39992 < sint n" "nat (sint n + 2) \<le> length body"
  shows "client_low_read s = Fault OutOfBounds"
  using low_map_frame_start [OF assms(1,4)] map_frame_oversize [of _ n body r] assms by simp

theorem map_frame_length_overflow_witness:
  "client_low_read (nr_start (map Byte (0xaa # 0xbb # le_bytes 4 (39993 :: u32) @ replicate 39995 0) @ [])) = Fault OutOfBounds"
proof (rule map_frame_length_overflow)
  show "39992 < sint (39993 :: u32)" by simp
  show "nat (sint (39993 :: u32) + 2) \<le> length (replicate 39995 (0 :: byte))" unfolding length_replicate by simp
qed (simp_all only: nr_start_simps)

text \<open>C26. A path frame with a right checksum whose length is not a multiple of eight makes the reader store a
  coordinate past the end of its array of points; with a multiple of eight the points arrive as sent, and are
  announced to the bus as they are.\<close>

theorem path_frame_alignment:
  assumes "nr_low_conn s" "length (nr_pathbBuf s) = 10000" "length (nr_pathBuf s) = 10000"
    and "nr_input s = map Byte (0x9b # 0xac # le_bytes 4 n @ body @ [lo, hi]) @ r"
    and "sint (n :: u32) = int (length body)" "length body + 8 \<le> 10000"
    and "le_word [lo, hi] = crc16check8 (0x9b # 0xac # le_bytes 4 n @ body)"
  shows "(length body mod 8 \<noteq> 0 \<longrightarrow> client_low_read s = Fault OutOfBounds) \<and>
    (\<forall>ps. body = all_points ps \<longrightarrow>
      (\<exists>s'. client_low_read s = Ret (Continue, s') \<and> nr_out s' = nr_out s @ [PathDownload ps, AstarPlan ps] \<and> nr_input s' = r))"
proof -
  let ?s = "s\<lparr>nr_input := map Byte (le_bytes 4 n @ body @ [lo, hi]) @ r, nr_readBuf := 0xac\<rparr>"
  have st: "client_low_read s = bindR (path_frame ?s) (\<lambda>s. Ret (Continue, s))"
    using low_path_frame_start [OF assms(1), of n "body @ [lo, hi]" r] assms(4) by simp
  obtain s1 rest where p: "nr_input s1 = r" "nr_out s1 = nr_out s" "path_frame ?s =
    bindR (path_loop (0x9b # 0xac # le_bytes 4 n @ body @ rest) (length body) 0 0
       (replicate (length body div 8) \<lparr>pt_x = 0, pt_y = 0\<rparr>)) (\<lambda>path. Ret (emit (AstarPlan path) (emit (PathDownload path) s1)))"
    using path_frame_loop [of ?s n body lo hi r] assms(2,3,5,6,7) by auto
  have "client_low_read s = Fault OutOfBounds" if "length body mod 8 \<noteq> 0"
    using path_loop_misaligned [of "replicate (length body div 8) \<lparr>pt_x = 0, pt_y = 0\<rparr>" "length body"] that
    unfolding st p(3) by simp
  moreover have "\<exists>s'. client_low_read s = Ret (Continue, s') \<and> nr_out s' = nr_out s @ [PathDownload ps, AstarPlan ps] \<and> nr_input s' = r"
    if b: "body = all_points ps" for ps
  proof -
    let ?h = "0x9b # 0xac # le_bytes 4 n"
    have len: "length body = 8 * length ps" by (simp add: b)
    have "path_loop (?h @ body @ rest) (8 * length ps) 0 0 (replicate (length ps) \<lparr>pt_x = 0, pt_y = 0\<rparr>) =
        Ret (map (\<lambda>i. point_at (?h @ body @ rest) (6 + 8 * i)) [0..<length ps])"
      by (rule path_loop_aligned) (simp_all add: len)
    moreover have "map (\<lambda>i. point_at (?h @ body @ rest) (6 + 8 * i)) [0..<length ps] = ps"
      by (rule nth_equalityI) (simp_all add: point_at_prefix [of ?h 6, simplified] b point_at_points)
    ultimately show ?thesis unfolding st p(3) len using p(1,2) by (simp add: emit_def)
  qed
  ultimately show ?thesis by blast
qed

theorem path_frame_alignment_witness:
  "\<exists>lo hi. client_low_read (nr_start (map Byte (0x9b # 0xac # le_bytes 4 (12 :: u32) @ replicate 12 1 @ [lo, hi]) @ [])) = Fault OutOfBounds"
proof -
  let ?pre = "0x9b # 0xac # le_bytes 4 (12 :: u32) @ replicate 12 (1 :: byte)"
  obtain lo hi where l: "le_word [lo, hi] = crc16check8 ?pre" using le_bytes2 by blast
  from path_frame_alignment [of "nr_start (map Byte (0x9b # 0xac # le_bytes 4 (12 :: u32) @ replicate 12 1 @ [lo, hi]) @ [])" 12
      "replicate 12 1" lo hi "[]"] l
  show ?thesis by (intro exI [of _ lo] exI [of _ hi]) (simp del: le_word.simps)
qed

text \<open>At the end of the pose stream \<open>nread\<close> marks the low-rate connection closed and leaves the pose connection
  marked open; on a read error neither is closed.\<close>

theorem nread_closes_wrong_socket:
  "(nr_input s = Closed # r \<longrightarrow> nread n s = Ret ([], s\<lparr>nr_input := r, nr_low_conn := False\<rparr>)) \<and>
   (nr_input s = Failed # r \<longrightarrow> nread n s = Ret ([], s\<lparr>nr_input := r\<rparr>)) \<and>
   (nr_pose_conn s \<and> nr_input s = Closed # r \<and> nr_readBuf s \<noteq> 0xcc \<longrightarrow>
     client_pose_read s = Ret (Continue, s\<lparr>nr_input := r, nr_low_conn := False\<rparr>))"
  by (auto simp: nread_def client_pose_read_def read_one_def POSE_HEAD_def)

theorem nread_closes_wrong_socket_witness:
  "client_pose_read (nr_start [Closed]) = Ret (Continue, (nr_start [Closed])\<lparr>nr_input := [], nr_low_conn := False\<rparr>)"
  using nread_closes_wrong_socket [of "nr_start [Closed]" "[]" 1] by simp

end
