(* ===== verification/Byte_Stream_Spec.thy ===== *)
theory Byte_Stream_Spec
  imports Prelude
begin

text \<open>
  Interface of a byte stream: writes of the sizes the provider takes (\<open>ok\<close>) append to the content, and a read either refuses, because fewer
  bytes are left than it asks for, or takes exactly that many from the front. The client lemma says
  that any sequence of writes and reads delivers a prefix of what was written, in order.
\<close>

datatype stream_op = Put "byte list" | Get nat

fun put_bytes :: "stream_op list \<Rightarrow> byte list" where
  "put_bytes [] = []"
| "put_bytes (Put bs # ops) = bs @ put_bytes ops"
| "put_bytes (Get n # ops) = put_bytes ops"

text \<open>The bytes delivered by the reads that succeed, and the final state.\<close>

fun stream_run :: "(byte list \<Rightarrow> 's \<Rightarrow> 's option) \<Rightarrow> (nat \<Rightarrow> 's \<Rightarrow> byte list option \<times> 's) \<Rightarrow> stream_op list \<Rightarrow> 's
    \<Rightarrow> (byte list \<times> 's) option" where
  "stream_run wr rd [] s = Some ([], s)"
| "stream_run wr rd (Put bs # ops) s =
     (case wr bs s of None \<Rightarrow> None | Some s' \<Rightarrow> stream_run wr rd ops s')"
| "stream_run wr rd (Get n # ops) s =
     (case rd n s of
        (None, s') \<Rightarrow> stream_run wr rd ops s'
      | (Some bs, s') \<Rightarrow> map_option (\<lambda>(out, t). (bs @ out, t)) (stream_run wr rd ops s'))"

locale byte_stream =
  fixes inv :: "'s \<Rightarrow> bool"
    and cont :: "'s \<Rightarrow> byte list"
    and ok :: "byte list \<Rightarrow> bool"
    and wr :: "byte list \<Rightarrow> 's \<Rightarrow> 's option"
    and rd :: "nat \<Rightarrow> 's \<Rightarrow> byte list option \<times> 's"
  assumes wr_appends: "inv s \<Longrightarrow> ok bs \<Longrightarrow> \<exists>s'. wr bs s = Some s' \<and> inv s' \<and> cont s' = cont s @ bs"
    and rd_refuses: "inv s \<Longrightarrow> length (cont s) < n \<Longrightarrow> rd n s = (None, s)"
    and rd_takes: "inv s \<Longrightarrow> n \<le> length (cont s) \<Longrightarrow>
      \<exists>s'. rd n s = (Some (take n (cont s)), s') \<and> inv s' \<and> cont s' = drop n (cont s)"
begin

lemma run_stream:
  "inv s \<Longrightarrow> \<forall>bs. Put bs \<in> set ops \<longrightarrow> ok bs \<Longrightarrow>
     \<exists>out s'. stream_run wr rd ops s = Some (out, s') \<and> inv s' \<and> cont s @ put_bytes ops = out @ cont s'"
proof (induction ops arbitrary: s)
  case (Cons op ops)
  have ok: "\<forall>bs. Put bs \<in> set ops \<longrightarrow> ok bs" using Cons.prems(2) by simp
  show ?case
  proof (cases op)
    case (Put bs)
    obtain s1 where s1: "wr bs s = Some s1" "inv s1" "cont s1 = cont s @ bs"
      using wr_appends [OF Cons.prems(1), of bs] Cons.prems(2) Put by auto
    then show ?thesis using Cons.IH [OF s1(2) ok] by (auto simp: Put)
  next
    case (Get n)
    show ?thesis
    proof (cases "n \<le> length (cont s)")
      case True
      obtain s1 where s1: "rd n s = (Some (take n (cont s)), s1)" "inv s1" "cont s1 = drop n (cont s)"
        using rd_takes [OF Cons.prems(1) True] by blast
      obtain out s' where r: "stream_run wr rd ops s1 = Some (out, s')" "inv s'" "cont s1 @ put_bytes ops = out @ cont s'"
        using Cons.IH [OF s1(2) ok] by blast
      have "cont s @ put_bytes ops = take n (cont s) @ cont s1 @ put_bytes ops" by (simp add: s1(3) flip: append_assoc)
      with r s1 show ?thesis by (simp add: Get)
    next
      case False
      then show ?thesis using rd_refuses [OF Cons.prems(1)] Cons.IH [OF Cons.prems(1) ok] by (simp add: Get)
    qed
  qed
qed simp

end

end
