(* ===== verification/Mem_Buffer.thy ===== *)
theory Mem_Buffer
  imports Byte_Order Byte_Stream_Spec
begin

text \<open>
  The chained byte buffer of \<open>lib_bsp/eventservice/mem/membuffer.cpp\<close>. Blocks live in a store,
  because a \<open>MemBuffer\<close> holds shared pointers to them and \<open>AppendBuffer\<close> makes two buffers share
  blocks; a \<open>MemBuffer\<close> is its byte count and the list of the addresses of its blocks. Of the array
  of a block only the first \<open>buffer_size\<close> bytes are ever read, so a block keeps that prefix. A
  destination pointer of a read is modelled by the bytes written through it, in order. A
  \<open>shared_ptr\<close> keeps its block alive, so blocks stay in the store; recycling is an operation of its
  own.
\<close>

section \<open>Blocks\<close>

definition DEFAULT_BLOCK_SIZE :: nat where
  "DEFAULT_BLOCK_SIZE = 4608"

record Block =
  bk_buffer :: "byte list"
  bk_big_mem :: "nat option"
  bk_encode_flag :: bool

abbreviation buffer_size :: "Block \<Rightarrow> nat" where
  "buffer_size b \<equiv> length (bk_buffer b)"

definition new_block :: Block where
  "new_block = \<lparr>bk_buffer = [], bk_big_mem = None, bk_encode_flag = False\<rparr>"

definition RemainSize :: "Block \<Rightarrow> nat" where
  "RemainSize b = sz_sub DEFAULT_BLOCK_SIZE (buffer_size b)"

definition blk_WriteBytes :: "byte list \<Rightarrow> Block \<Rightarrow> nat \<times> Block" where
  "blk_WriteBytes val b =
     (if buffer_size b = DEFAULT_BLOCK_SIZE \<or> val = [] then (0, b)
      else
        let remain_size = sz_sub DEFAULT_BLOCK_SIZE (buffer_size b);
            write_size = (if remain_size > length val then length val else remain_size)
        in (write_size, b\<lparr>bk_buffer := bk_buffer b @ take write_size val\<rparr>))"

definition blk_ReadBytes :: "nat \<Rightarrow> Block \<Rightarrow> byte list \<times> Block" where
  "blk_ReadBytes len b =
     (if buffer_size b = 0 \<or> len = 0 then ([], b)
      else if buffer_size b > DEFAULT_BLOCK_SIZE then ([], b)
      else
        let read_size = (if buffer_size b > len then len else buffer_size b)
        in (take read_size (bk_buffer b), b\<lparr>bk_buffer := drop read_size (bk_buffer b)\<rparr>))"

definition blk_ReadString :: "nat \<Rightarrow> Block \<Rightarrow> byte list \<times> Block" where
  "blk_ReadString len b =
     (if buffer_size b = 0 \<or> len = 0 then ([], b)
      else
        let read_size = (if buffer_size b > len then len else buffer_size b)
        in (take read_size (bk_buffer b), b\<lparr>bk_buffer := drop read_size (bk_buffer b)\<rparr>))"

definition blk_CopyBytes :: "nat \<Rightarrow> nat \<Rightarrow> Block \<Rightarrow> byte list" where
  "blk_CopyBytes pos len b =
     (if pos > buffer_size b \<or> len = 0 then []
      else
        let remain_size = buffer_size b - pos;
            copy_size = (if remain_size > len then len else remain_size)
        in take copy_size (drop pos (bk_buffer b)))"

definition blk_CopyString :: "nat \<Rightarrow> nat \<Rightarrow> Block \<Rightarrow> byte list" where
  "blk_CopyString pos len b =
     (if pos > buffer_size b \<or> len = 0 then []
      else
        let remain_size = buffer_size b - pos;
            copy_size = (if remain_size > len then len else remain_size)
        in take copy_size (drop pos (bk_buffer b)))"

section \<open>The block manager\<close>

record BlockManager =
  bm_store :: "nat \<rightharpoonup> Block"
  bm_next :: nat
  bm_blocks :: "nat list"
  bm_big_mem_map :: "nat \<rightharpoonup> u32"
  g_block_count :: u32
  g_block_count_max :: u32
  g_membuffer_count :: u32

definition block_at :: "BlockManager \<Rightarrow> nat \<Rightarrow> Block" where
  "block_at m a = (case bm_store m a of None \<Rightarrow> new_block | Some b \<Rightarrow> b)"

definition put_block :: "nat \<Rightarrow> Block \<Rightarrow> BlockManager \<Rightarrow> BlockManager" where
  "put_block a b m = m\<lparr>bm_store := (bm_store m)(a \<mapsto> b)\<rparr>"

definition alloc_block :: "BlockManager \<Rightarrow> nat \<times> BlockManager" where
  "alloc_block m =
     (let cnt = g_block_count m + 1
      in (bm_next m,
          m\<lparr>bm_store := (bm_store m)(bm_next m \<mapsto> new_block), bm_next := bm_next m + 1,
            g_block_count := cnt,
            g_block_count_max := (if cnt > g_block_count_max m then cnt else g_block_count_max m)\<rparr>))"

definition TakeBlock :: "BlockManager \<Rightarrow> nat \<times> BlockManager" where
  "TakeBlock m =
     (case bm_blocks m of
        a # as \<Rightarrow> (a, m\<lparr>bm_blocks := as\<rparr>)
      | [] \<Rightarrow> alloc_block m)"

text \<open>\<open>cache_size\<close> is \<open>BLOCK_CACHE_SIZE\<close>, which a build option sets to 1024 or 0.\<close>

definition InternalRecyleBlock :: "nat \<Rightarrow> nat \<Rightarrow> BlockManager \<Rightarrow> BlockManager" where
  "InternalRecyleBlock cache_size a m =
     (let m1 = put_block a ((block_at m a)\<lparr>bk_buffer := [], bk_encode_flag := False\<rparr>) m
      in if length (bm_blocks m1) < cache_size
         then m1\<lparr>bm_blocks := bm_blocks m1 @ [a]\<rparr>
         else m1\<lparr>bm_store := (bm_store m1)(a := None), g_block_count := g_block_count m1 - 1\<rparr>)"

definition BigBlockRef :: "nat \<Rightarrow> u32 \<Rightarrow> BlockManager \<Rightarrow> BlockManager" where
  "BigBlockRef pmem cnt m =
     m\<lparr>bm_big_mem_map := (bm_big_mem_map m)(pmem \<mapsto> (case bm_big_mem_map m pmem of None \<Rightarrow> 0 | Some c \<Rightarrow> c) + cnt)\<rparr>"

text \<open>
  The array allocation \<open>new Block[n]\<close> starts at address \<open>pmem\<close> and its blocks follow; \<open>delete[]\<close> removes
  the blocks whose \<open>big_mem\<close> is \<open>pmem\<close> (the destructor of each counts down).
\<close>

fun delete_blocks :: "nat \<Rightarrow> nat \<Rightarrow> BlockManager \<Rightarrow> BlockManager" where
  "delete_blocks pmem 0 m = m"
| "delete_blocks pmem (Suc n) m =
     delete_blocks pmem n
       (case bm_store m (pmem + n) of
          None \<Rightarrow> m
        | Some b \<Rightarrow>
            if bk_big_mem b = Some pmem
            then m\<lparr>bm_store := (bm_store m)(pmem + n := None), g_block_count := g_block_count m - 1\<rparr>
            else m)"

definition BigBlockUnRef :: "nat \<Rightarrow> BlockManager \<Rightarrow> mem_error + BlockManager" where
  "BigBlockUnRef a m =
     (case bk_big_mem (block_at m a) of
        None \<Rightarrow> Inl AssertFailed
      | Some pmem \<Rightarrow>
          (case bm_big_mem_map m pmem of
             None \<Rightarrow> Inl AssertFailed
           | Some c \<Rightarrow>
               let m1 = m\<lparr>bm_big_mem_map := (bm_big_mem_map m)(pmem \<mapsto> c - 1)\<rparr>
               in if c - 1 = 0
                  then Inr (delete_blocks pmem (bm_next m1 - pmem)
                         (m1\<lparr>bm_big_mem_map := (bm_big_mem_map m1)(pmem := None)\<rparr>))
                  else Inr m1))"

section \<open>Buffers\<close>

record MemBuffer =
  mb_size :: nat
  mb_blocks :: "nat list"

definition CreateMemBuffer :: "BlockManager \<Rightarrow> MemBuffer \<times> BlockManager" where
  "CreateMemBuffer m = (\<lparr>mb_size = 0, mb_blocks = []\<rparr>, m\<lparr>g_membuffer_count := g_membuffer_count m + 1\<rparr>)"

definition Length :: "MemBuffer \<Rightarrow> nat" where
  "Length mb = mb_size mb"

definition AppendBlock :: "BlockManager \<Rightarrow> nat \<Rightarrow> MemBuffer \<Rightarrow> MemBuffer" where
  "AppendBlock m a mb = \<lparr>mb_size = mb_size mb + buffer_size (block_at m a), mb_blocks = mb_blocks mb @ [a]\<rparr>"

definition AppendBuffer :: "MemBuffer \<Rightarrow> MemBuffer \<Rightarrow> MemBuffer" where
  "AppendBuffer buffer mb = \<lparr>mb_size = mb_size mb + mb_size buffer, mb_blocks = mb_blocks mb @ mb_blocks buffer\<rparr>"

definition ReduceSize :: "nat \<Rightarrow> MemBuffer \<Rightarrow> MemBuffer" where
  "ReduceSize n mb = mb\<lparr>mb_size := sz_sub (mb_size mb) n\<rparr>"

definition Clear :: "MemBuffer \<Rightarrow> MemBuffer" where
  "Clear mb = \<lparr>mb_size = 0, mb_blocks = []\<rparr>"

definition EnableEncode :: "bool \<Rightarrow> MemBuffer \<Rightarrow> BlockManager \<Rightarrow> bool \<times> BlockManager" where
  "EnableEncode enable mb m =
     (if mb_blocks mb = [] then (False, m)
      else (True, fold (\<lambda>a m. put_block a ((block_at m a)\<lparr>bk_encode_flag := enable\<rparr>) m) (mb_blocks mb) m))"

subsection \<open>Writing\<close>

text \<open>
  \<open>new Block[n]\<close>, filled in order with chunks of the data, each block naming the array. The length is a
  \<open>size_t\<close>, but the blocks and the bytes written are counted in \<open>uint32_t\<close>, which wraps for data of
  \<open>2 ^ 32\<close> bytes and more. The assertion \<open>wr_size < len\<close> holds in every turn: by the count of the blocks
  for shorter data, and because \<open>wr_size\<close> is a \<open>uint32_t\<close> for longer data.
\<close>

fun big_loop :: "nat \<Rightarrow> byte list \<Rightarrow> u32 \<Rightarrow> nat \<Rightarrow> BlockManager \<Rightarrow> nat list \<times> BlockManager" where
  "big_loop pmem val wr_size 0 m = ([], m)"
| "big_loop pmem val wr_size (Suc n) m =
     (let (a, m1) = alloc_block m;
          rest = drop (unat wr_size) val;
          chunk = (if length val - unat wr_size \<ge> DEFAULT_BLOCK_SIZE then take DEFAULT_BLOCK_SIZE rest else rest);
          b = (snd (blk_WriteBytes chunk (block_at m1 a)))\<lparr>bk_big_mem := Some pmem\<rparr>;
          (as, m2) = big_loop pmem val (wr_size + of_nat (length chunk)) n (put_block a b m1)
      in (a # as, m2))"

definition blk_cnt :: "nat \<Rightarrow> u32" where
  "blk_cnt len = of_nat (len div DEFAULT_BLOCK_SIZE) + (if len mod DEFAULT_BLOCK_SIZE > 0 then 1 else 0)"

definition WriteBigBytes :: "byte list \<Rightarrow> MemBuffer \<Rightarrow> BlockManager \<Rightarrow> MemBuffer \<times> BlockManager" where
  "WriteBigBytes val mb m =
     (let n = blk_cnt (length val); pmem = bm_next m; (as, m1) = big_loop pmem val 0 (unat n) m
      in (\<lparr>mb_size = mb_size mb + length val, mb_blocks = mb_blocks mb @ as\<rparr>,
          BigBlockRef pmem n m1))"

text \<open>
  The loop \<open>while (true)\<close> of \<open>WriteNewBytes\<close>; \<open>None\<close> would be a loop that never ends. A block from
  \<open>TakeBlock\<close> is empty, so every turn but the last writes a full block.
\<close>

partial_function (option) new_loop :: "byte list \<Rightarrow> MemBuffer \<Rightarrow> BlockManager \<Rightarrow> (MemBuffer \<times> BlockManager) option" where
  "new_loop val mb m =
     (case TakeBlock m of (a, m1) \<Rightarrow>
      case blk_WriteBytes val (block_at m1 a) of (ws, b) \<Rightarrow>
        let m2 = put_block a b m1;
            mb1 = \<lparr>mb_size = mb_size mb + ws, mb_blocks = mb_blocks mb @ [a]\<rparr>
        in if ws = length val then Some (mb1, m2)
           else new_loop (drop ws val) mb1 m2)"

definition WriteNewBytes :: "byte list \<Rightarrow> MemBuffer \<Rightarrow> BlockManager \<Rightarrow> (MemBuffer \<times> BlockManager) option" where
  "WriteNewBytes val mb m =
     (if length val > 32 * 1024 then Some (WriteBigBytes val mb m)
      else new_loop val mb m)"

definition WriteBytes :: "byte list \<Rightarrow> MemBuffer \<Rightarrow> BlockManager \<Rightarrow> (MemBuffer \<times> BlockManager) option" where
  "WriteBytes val mb m =
     (if length val > 32 * 1024 then Some (WriteBigBytes val mb m)
      else if mb_blocks mb = [] then WriteNewBytes val mb m
      else
        let a = last (mb_blocks mb);
            (ws, b) = (if RemainSize (block_at m a) \<noteq> 0 then blk_WriteBytes val (block_at m a)
                       else (0, block_at m a));
            mb1 = mb\<lparr>mb_size := mb_size mb + ws\<rparr>;
            m1 = put_block a b m
        in if length val > ws then WriteNewBytes (drop ws val) mb1 m1 else Some (mb1, m1))"

text \<open>The integer writers store the object representation of a little-endian host.\<close>

definition WriteUInt8 :: "byte \<Rightarrow> MemBuffer \<Rightarrow> BlockManager \<Rightarrow> (MemBuffer \<times> BlockManager) option" where
  "WriteUInt8 v = WriteBytes [v]"

definition WriteUInt16 :: "bool \<Rightarrow> u16 \<Rightarrow> MemBuffer \<Rightarrow> BlockManager \<Rightarrow> (MemBuffer \<times> BlockManager) option" where
  "WriteUInt16 big v = WriteBytes (host_bytes big 2 v)"

definition WriteUInt32 :: "bool \<Rightarrow> u32 \<Rightarrow> MemBuffer \<Rightarrow> BlockManager \<Rightarrow> (MemBuffer \<times> BlockManager) option" where
  "WriteUInt32 big v = WriteBytes (host_bytes big 4 v)"

definition WriteUInt64 :: "bool \<Rightarrow> u64 \<Rightarrow> MemBuffer \<Rightarrow> BlockManager \<Rightarrow> (MemBuffer \<times> BlockManager) option" where
  "WriteUInt64 big v = WriteBytes (host_bytes big 8 v)"

definition WriteString :: "byte list \<Rightarrow> MemBuffer \<Rightarrow> BlockManager \<Rightarrow> (MemBuffer \<times> BlockManager) option" where
  "WriteString val = WriteBytes val"

subsection \<open>Reading\<close>

text \<open>
  The loop that \<open>ReadBytes\<close>, \<open>ReadString\<close> and \<open>ReadAllBytes\<close> share; \<open>rd\<close> is the read of a block and
  \<open>len\<close> what is still to be read. It returns the bytes, the blocks that stay and the store.
\<close>

fun read_loop :: "(nat \<Rightarrow> Block \<Rightarrow> byte list \<times> Block) \<Rightarrow> nat \<Rightarrow> nat list \<Rightarrow> BlockManager
    \<Rightarrow> byte list \<times> nat list \<times> BlockManager" where
  "read_loop rd len [] m = ([], [], m)"
| "read_loop rd len (a # as) m =
     (let (bs, b) = rd len (block_at m a);
          m1 = put_block a b m;
          keep = (if buffer_size b = 0 then [] else [a])
      in if length bs = len then (bs, keep @ as, m1)
         else let (bs', ks, m2) = read_loop rd (len - length bs) as m1
              in (bs @ bs', keep @ ks, m2))"

definition ReadBytes :: "nat \<Rightarrow> MemBuffer \<Rightarrow> BlockManager \<Rightarrow> byte list option \<times> MemBuffer \<times> BlockManager" where
  "ReadBytes len mb m =
     (if mb_size mb < len then (None, mb, m)
      else let (bs, ks, m1) = read_loop blk_ReadBytes len (mb_blocks mb) m
           in (Some bs, \<lparr>mb_size = mb_size mb - len, mb_blocks = ks\<rparr>, m1))"

definition ReadString :: "nat \<Rightarrow> MemBuffer \<Rightarrow> BlockManager \<Rightarrow> byte list option \<times> MemBuffer \<times> BlockManager" where
  "ReadString len mb m =
     (if mb_size mb < len then (None, mb, m)
      else let (bs, ks, m1) = read_loop blk_ReadString len (mb_blocks mb) m
           in (Some bs, \<lparr>mb_size = mb_size mb - len, mb_blocks = ks\<rparr>, m1))"

text \<open>\<open>-1\<close> as a \<open>size_t\<close> when the destination is too short.\<close>

definition ReadAllBytes :: "nat \<Rightarrow> MemBuffer \<Rightarrow> BlockManager \<Rightarrow> nat \<times> byte list \<times> MemBuffer \<times> BlockManager" where
  "ReadAllBytes len mb m =
     (if len < mb_size mb then (2 ^ 64 - 1, [], mb, m)
      else let (bs, ks, m1) = read_loop blk_ReadBytes len (mb_blocks mb) m
           in (length bs, bs, \<lparr>mb_size = sz_sub (mb_size mb) (length bs), mb_blocks = ks\<rparr>, m1))"

definition ReadUInt8 :: "MemBuffer \<Rightarrow> BlockManager \<Rightarrow> byte option \<times> MemBuffer \<times> BlockManager" where
  "ReadUInt8 mb m = (let (r, mb1, m1) = ReadBytes 1 mb m in (map_option hd r, mb1, m1))"

definition ReadUInt16 :: "bool \<Rightarrow> MemBuffer \<Rightarrow> BlockManager \<Rightarrow> u16 option \<times> MemBuffer \<times> BlockManager" where
  "ReadUInt16 big mb m = (let (r, mb1, m1) = ReadBytes 2 mb m in (map_option (host_word big) r, mb1, m1))"

definition ReadUInt32 :: "bool \<Rightarrow> MemBuffer \<Rightarrow> BlockManager \<Rightarrow> u32 option \<times> MemBuffer \<times> BlockManager" where
  "ReadUInt32 big mb m = (let (r, mb1, m1) = ReadBytes 4 mb m in (map_option (host_word big) r, mb1, m1))"

definition ReadUInt64 :: "bool \<Rightarrow> MemBuffer \<Rightarrow> BlockManager \<Rightarrow> u64 option \<times> MemBuffer \<times> BlockManager" where
  "ReadUInt64 big mb m = (let (r, mb1, m1) = ReadBytes 8 mb m in (map_option (host_word big) r, mb1, m1))"

text \<open>\<open>ReadBuffer\<close> moves whole blocks to the other buffer and copies the front of the last one.\<close>

fun read_buffer_loop :: "nat \<Rightarrow> nat list \<Rightarrow> MemBuffer \<Rightarrow> BlockManager
    \<Rightarrow> (nat list \<times> MemBuffer \<times> BlockManager) option" where
  "read_buffer_loop len [] dst m = Some ([], dst, m)"
| "read_buffer_loop len (a # as) dst m =
     (let b = block_at m a
      in if len \<ge> buffer_size b
         then let dst1 = AppendBlock m a dst
              in if buffer_size b = len then Some (as, dst1, m)
                 else read_buffer_loop (len - buffer_size b) as dst1 m
         else (case WriteBytes (take len (bk_buffer b)) dst m of
                 None \<Rightarrow> None
               | Some (dst1, m1) \<Rightarrow> Some (a # as, dst1, put_block a (snd (blk_ReadBytes len (block_at m1 a))) m1)))"

definition ReadBuffer :: "nat \<Rightarrow> MemBuffer \<Rightarrow> MemBuffer \<Rightarrow> BlockManager
    \<Rightarrow> (bool \<times> MemBuffer \<times> MemBuffer \<times> BlockManager) option" where
  "ReadBuffer len dst mb m =
     (if mb_size mb < len then Some (False, dst, mb, m)
      else map_option (\<lambda>(ks, dst1, m1). (True, dst1, \<lparr>mb_size = mb_size mb - len, mb_blocks = ks\<rparr>, m1))
             (read_buffer_loop len (mb_blocks mb) dst m))"

subsection \<open>Copying\<close>

text \<open>The block and the offset in it of position \<open>pos\<close>; the difference is narrowed to \<open>int\<close>.\<close>

fun position_loop :: "BlockManager \<Rightarrow> nat \<Rightarrow> nat list \<Rightarrow> nat \<times> nat list" where
  "position_loop m remain_pos [] = (0, [])"
| "position_loop m remain_pos (a # as) =
     (if to_int32 (sz_sub (buffer_size (block_at m a)) remain_pos) > 0 then (remain_pos, a # as)
      else position_loop m (sz_sub remain_pos (buffer_size (block_at m a))) as)"

definition GetPostion :: "nat \<Rightarrow> MemBuffer \<Rightarrow> BlockManager \<Rightarrow> nat \<times> nat list" where
  "GetPostion pos mb m = (if pos \<ge> mb_size mb then (0, []) else position_loop m pos (mb_blocks mb))"

fun copy_loop :: "(nat \<Rightarrow> nat \<Rightarrow> Block \<Rightarrow> byte list) \<Rightarrow> nat \<Rightarrow> nat \<Rightarrow> nat list \<Rightarrow> BlockManager \<Rightarrow> byte list" where
  "copy_loop cp block_pos len [] m = []"
| "copy_loop cp block_pos len (a # as) m =
     (let cs = cp block_pos len (block_at m a)
      in if length cs = len then cs else cs @ copy_loop cp 0 (len - length cs) as m)"

text \<open>The two overloads of \<open>CopyBytes\<close>: the count of bytes and the bytes, and the checked one.\<close>

definition CopyBytes_upto :: "nat \<Rightarrow> nat \<Rightarrow> MemBuffer \<Rightarrow> BlockManager \<Rightarrow> nat \<times> byte list" where
  "CopyBytes_upto pos len mb m =
     (if pos \<ge> mb_size mb then (0, [])
      else
        let act_len = (if sz_add pos len > mb_size mb then mb_size mb - pos else len);
            (block_pos, as) = GetPostion pos mb m
        in (act_len, copy_loop blk_CopyBytes block_pos act_len as m))"

definition CopyBytes :: "nat \<Rightarrow> nat \<Rightarrow> MemBuffer \<Rightarrow> BlockManager \<Rightarrow> byte list option" where
  "CopyBytes pos len mb m =
     (if sz_sub (mb_size mb) pos < len then None else Some (snd (CopyBytes_upto pos len mb m)))"

definition CopyString :: "nat \<Rightarrow> nat \<Rightarrow> MemBuffer \<Rightarrow> BlockManager \<Rightarrow> byte list option" where
  "CopyString pos len mb m =
     (if sz_sub (mb_size mb) pos < len then None
      else let (block_pos, as) = GetPostion pos mb m in Some (copy_loop blk_CopyString block_pos len as m))"

text \<open>The value an integer copy leaves in \<open>*val\<close>; bytes not written keep those of the old value.\<close>

definition CopyUInt32 :: "bool \<Rightarrow> u32 \<Rightarrow> nat \<Rightarrow> MemBuffer \<Rightarrow> BlockManager \<Rightarrow> bool \<times> u32" where
  "CopyUInt32 big old pos mb m =
     (case CopyBytes pos 4 mb m of
        None \<Rightarrow> (False, old)
      | Some bs \<Rightarrow> (True, host_word big (bs @ drop (length bs) (host_bytes big 4 old))))"

definition CopyUInt16 :: "bool \<Rightarrow> u16 \<Rightarrow> nat \<Rightarrow> MemBuffer \<Rightarrow> BlockManager \<Rightarrow> bool \<times> u16" where
  "CopyUInt16 big old pos mb m =
     (case CopyBytes pos 2 mb m of
        None \<Rightarrow> (False, old)
      | Some bs \<Rightarrow> (True, host_word big (bs @ drop (length bs) (host_bytes big 2 old))))"

definition CopyUInt64 :: "bool \<Rightarrow> u64 \<Rightarrow> nat \<Rightarrow> MemBuffer \<Rightarrow> BlockManager \<Rightarrow> bool \<times> u64" where
  "CopyUInt64 big old pos mb m =
     (case CopyBytes pos 8 mb m of
        None \<Rightarrow> (False, old)
      | Some bs \<Rightarrow> (True, host_word big (bs @ drop (length bs) (host_bytes big 8 old))))"

definition CopyUInt8 :: "byte \<Rightarrow> nat \<Rightarrow> MemBuffer \<Rightarrow> BlockManager \<Rightarrow> bool \<times> byte" where
  "CopyUInt8 old pos mb m =
     (case CopyBytes pos 1 mb m of
        None \<Rightarrow> (False, old)
      | Some bs \<Rightarrow> (True, hd (bs @ [old])))"

fun copy_buffer_loop :: "nat \<Rightarrow> nat list \<Rightarrow> MemBuffer \<Rightarrow> BlockManager \<Rightarrow> (MemBuffer \<times> BlockManager) option" where
  "copy_buffer_loop len [] dst m = Some (dst, m)"
| "copy_buffer_loop len (a # as) dst m =
     (let rs = min len (buffer_size (block_at m a))
      in case WriteBytes (take rs (bk_buffer (block_at m a))) dst m of
           None \<Rightarrow> None
         | Some (dst1, m1) \<Rightarrow> if rs = len then Some (dst1, m1) else copy_buffer_loop (len - rs) as dst1 m1)"

definition CopyBuffer :: "nat \<Rightarrow> MemBuffer \<Rightarrow> MemBuffer \<Rightarrow> BlockManager \<Rightarrow> (bool \<times> MemBuffer \<times> BlockManager) option" where
  "CopyBuffer len dst mb m =
     (if mb_size mb < len then Some (False, dst, m)
      else map_option (\<lambda>(dst1, m1). (True, dst1, m1)) (copy_buffer_loop len (mb_blocks mb) dst m))"

subsection \<open>Reading a file\<close>

text \<open>
  The file system is the environment: \<open>file\<close> is \<open>None\<close> when \<open>open\<close> fails and otherwise the result of the
  \<open>lseek\<close> to the end, \<open>seek_ok\<close> the success of the second \<open>lseek\<close>, and \<open>rd i n\<close> the bytes the \<open>i\<close>-th
  \<open>read\<close> delivers when asked for \<open>n\<close> (none when it fails).
\<close>

fun file_loop :: "(nat \<Rightarrow> nat \<Rightarrow> byte list) \<Rightarrow> nat \<Rightarrow> nat \<Rightarrow> nat \<Rightarrow> u32 \<Rightarrow> nat \<Rightarrow> BlockManager
    \<Rightarrow> (nat list \<times> BlockManager) option" where
  "file_loop rd pmem len i wr_size 0 m = Some ([], m)"
| "file_loop rd pmem len i wr_size (Suc n) m =
     (let (a, m1) = alloc_block m;
          rest = sz_sub len (unat wr_size);
          want = (if rest \<ge> DEFAULT_BLOCK_SIZE then DEFAULT_BLOCK_SIZE else rest);
          bs = take want (rd i want)
      in if bs = [] then None
         else map_option (\<lambda>(as, m2). (a # as, m2))
                (file_loop rd pmem len (i + 1) (wr_size + of_nat DEFAULT_BLOCK_SIZE) n
                   (put_block a \<lparr>bk_buffer = bs, bk_big_mem = Some pmem, bk_encode_flag = False\<rparr> m1)))"

definition mb_ReadFile :: "int option \<Rightarrow> bool \<Rightarrow> (nat \<Rightarrow> nat \<Rightarrow> byte list) \<Rightarrow> nat \<Rightarrow> nat \<Rightarrow> MemBuffer \<Rightarrow> BlockManager
    \<Rightarrow> bool \<times> MemBuffer \<times> BlockManager" where
  "mb_ReadFile file seek_ok rd off len mb m =
     (case file of
        None \<Rightarrow> (False, mb, m)
      | Some file_size \<Rightarrow>
          if file_size \<le> 0 \<or> int off + int len > file_size \<or> \<not> seek_ok then (False, mb, m)
          else
            (case file_loop rd (bm_next m) len 0 0 (unat (blk_cnt len)) m of
               None \<Rightarrow>
                 (let cnt = g_block_count m + blk_cnt len
                  in (False, mb, m\<lparr>g_block_count_max := (if cnt > g_block_count_max m then cnt else g_block_count_max m)\<rparr>))
             | Some (as, m1) \<Rightarrow>
                 (True, \<lparr>mb_size = mb_size mb + len, mb_blocks = mb_blocks mb @ as\<rparr>,
                  BigBlockRef (bm_next m) (blk_cnt len) m1)))"


section \<open>Contents and invariants\<close>

definition live :: "BlockManager \<Rightarrow> nat \<Rightarrow> bool" where
  "live m a \<longleftrightarrow> a \<in> dom (bm_store m) \<and> a \<notin> set (bm_blocks m)"

definition bm_inv :: "BlockManager \<Rightarrow> bool" where
  "bm_inv m \<longleftrightarrow>
     (\<forall>a b. bm_store m a = Some b \<longrightarrow> a < bm_next m \<and> buffer_size b \<le> DEFAULT_BLOCK_SIZE) \<and>
     distinct (bm_blocks m) \<and>
     (\<forall>a \<in> set (bm_blocks m). \<exists>b. bm_store m a = Some b \<and> bk_buffer b = [])"

definition bytes_of :: "BlockManager \<Rightarrow> nat list \<Rightarrow> byte list" where
  "bytes_of m as = concat (map (\<lambda>a. bk_buffer (block_at m a)) as)"

abbreviation content :: "MemBuffer \<Rightarrow> BlockManager \<Rightarrow> byte list" where
  "content mb m \<equiv> bytes_of m (mb_blocks mb)"

definition mb_inv :: "MemBuffer \<Rightarrow> BlockManager \<Rightarrow> bool" where
  "mb_inv mb m \<longleftrightarrow> mb_size mb = length (content mb m) \<and> distinct (mb_blocks mb) \<and>
     (\<forall>a \<in> set (mb_blocks mb). live m a)"

text \<open>\<open>keeps S m m'\<close>: live blocks stay live, and those outside \<open>S\<close> keep their bytes.\<close>

definition keeps :: "nat set \<Rightarrow> BlockManager \<Rightarrow> BlockManager \<Rightarrow> bool" where
  "keeps S m m' \<longleftrightarrow> (\<forall>a. live m a \<longrightarrow> live m' a \<and> (a \<notin> S \<longrightarrow> bm_store m' a = bm_store m a))"

lemma bytes_of_simps [simp]:
  "bytes_of m [] = []" "bytes_of m (a # as) = bk_buffer (block_at m a) @ bytes_of m as"
  "bytes_of m (as @ bs) = bytes_of m as @ bytes_of m bs"
  by (simp_all add: bytes_of_def)

lemma keeps_refl [simp]: "keeps S m m"
  by (simp add: keeps_def)

lemma keeps_trans: "keeps S m m1 \<Longrightarrow> keeps T m1 m2 \<Longrightarrow> keeps (S \<union> T) m m2"
  by (simp add: keeps_def)

lemma keeps_mono: "keeps S m m1 \<Longrightarrow> S \<subseteq> T \<Longrightarrow> keeps T m m1"
  by (auto simp: keeps_def)

lemma keeps_bytes:
  "keeps S m m' \<Longrightarrow> (\<And>a. a \<in> set as \<Longrightarrow> live m a \<and> a \<notin> S) \<Longrightarrow> bytes_of m' as = bytes_of m as"
  by (induction as) (auto simp: keeps_def block_at_def)

lemma block_at_put [simp]: "block_at (put_block a b m) c = (if c = a then b else block_at m c)"
  by (simp add: block_at_def put_block_def)

lemma live_put [simp]: "live m a \<Longrightarrow> live (put_block a b m) c = live m c"
  by (auto simp: live_def put_block_def)

lemma live_le: "bm_inv m \<Longrightarrow> live m a \<Longrightarrow> buffer_size (block_at m a) \<le> DEFAULT_BLOCK_SIZE"
  by (auto simp: bm_inv_def live_def block_at_def)

lemma put_block_ok:
  assumes "bm_inv m" "live m a" "buffer_size b \<le> DEFAULT_BLOCK_SIZE"
  shows "bm_inv (put_block a b m) \<and> keeps {a} m (put_block a b m)"
  using assms by (auto simp: bm_inv_def live_def keeps_def put_block_def)

text \<open>A block that has just been taken: empty, live, and new to everyone.\<close>

definition fresh_block :: "BlockManager \<Rightarrow> nat \<Rightarrow> BlockManager \<Rightarrow> bool" where
  "fresh_block m a m1 \<longleftrightarrow> bm_inv m1 \<and> live m1 a \<and> \<not> live m a \<and> bk_buffer (block_at m1 a) = [] \<and> keeps {} m m1"

lemma alloc_block_fresh:
  assumes i: "bm_inv m" and a: "alloc_block m = (a, m1)"
  shows "fresh_block m a m1"
proof -
  have a: "a = bm_next m" "bm_store m1 = (bm_store m)(bm_next m \<mapsto> new_block)" "bm_next m1 = bm_next m + 1"
    "bm_blocks m1 = bm_blocks m"
    using a by (auto simp: alloc_block_def Let_def)
  have n: "bm_store m (bm_next m) = None"
    using i by (cases "bm_store m (bm_next m)") (auto simp: bm_inv_def)
  then have nc: "bm_next m \<notin> set (bm_blocks m)" using i by (auto simp: bm_inv_def)
  have "bm_inv m1"
    using i nc by (auto simp: bm_inv_def a new_block_def less_Suc_eq split: if_splits)
  then show ?thesis using n nc by (auto simp: fresh_block_def live_def keeps_def block_at_def a new_block_def)
qed

lemma TakeBlock_fresh: "bm_inv m \<Longrightarrow> TakeBlock m = (a, m1) \<Longrightarrow> fresh_block m a m1"
proof (cases "bm_blocks m")
  case (Cons c cs)
  assume i: "bm_inv m" "TakeBlock m = (a, m1)"
  then have t: "a = c" "m1 = m\<lparr>bm_blocks := cs\<rparr>" by (auto simp: TakeBlock_def Cons)
  obtain b where "bm_store m c = Some b" "bk_buffer b = []" using i(1) by (auto simp: bm_inv_def Cons)
  then show ?thesis using i(1) by (auto simp: t fresh_block_def bm_inv_def live_def keeps_def block_at_def Cons)
qed (auto simp: TakeBlock_def alloc_block_fresh)

text \<open>A buffer only grows by blocks that nobody held.\<close>

definition fresh_ext :: "MemBuffer \<Rightarrow> BlockManager \<Rightarrow> MemBuffer \<Rightarrow> bool" where
  "fresh_ext mb m mb' \<longleftrightarrow> set (mb_blocks mb') \<subseteq> set (mb_blocks mb) \<union> {x. \<not> live m x}"

lemma fresh_ext_trans: "fresh_ext mb m mb1 \<Longrightarrow> keeps S m m1 \<Longrightarrow> fresh_ext mb1 m1 mb2 \<Longrightarrow> fresh_ext mb m mb2"
  by (auto simp: fresh_ext_def keeps_def)

lemma append_fresh:
  assumes i: "mb_inv mb m" and f: "fresh_block m a m1" and b: "buffer_size b \<le> DEFAULT_BLOCK_SIZE"
  defines "m2 \<equiv> put_block a b m1"
    and "mb1 \<equiv> \<lparr>mb_size = mb_size mb + buffer_size b, mb_blocks = mb_blocks mb @ [a]\<rparr>"
  shows "bm_inv m2 \<and> mb_inv mb1 m2 \<and> content mb1 m2 = content mb m @ bk_buffer b \<and> keeps {} m m2 \<and>
    fresh_ext mb m mb1"
proof -
  have p: "bm_inv m2" "keeps {a} m1 m2" using put_block_ok [of m1 a b] f b by (auto simp: m2_def fresh_block_def)
  have k: "keeps {} m m2"
    using f p(2) by (auto simp: fresh_block_def keeps_def)
  have na: "a \<notin> set (mb_blocks mb)" using i f by (auto simp: mb_inv_def fresh_block_def)
  have c: "bytes_of m2 (mb_blocks mb) = content mb m"
    using i by (intro keeps_bytes [OF k]) (auto simp: mb_inv_def)
  have "live m2 x" if "x \<in> set (mb_blocks mb)" for x using that k i by (auto simp: keeps_def mb_inv_def)
  moreover have "live m2 a" using f by (simp add: m2_def fresh_block_def)
  ultimately show ?thesis using p k na c i f
    by (auto simp: mb1_def m2_def mb_inv_def fresh_ext_def fresh_block_def)
qed

section \<open>Writes append\<close>

lemma blk_WriteBytes_eq:
  "buffer_size b \<le> DEFAULT_BLOCK_SIZE \<Longrightarrow>
     blk_WriteBytes val b =
       (min (length val) (DEFAULT_BLOCK_SIZE - buffer_size b),
        b\<lparr>bk_buffer := bk_buffer b @ take (DEFAULT_BLOCK_SIZE - buffer_size b) val\<rparr>)"
  by (auto simp: blk_WriteBytes_def Let_def DEFAULT_BLOCK_SIZE_def min_def)

lemma RemainSize_eq: "buffer_size b \<le> DEFAULT_BLOCK_SIZE \<Longrightarrow> RemainSize b = DEFAULT_BLOCK_SIZE - buffer_size b"
  by (simp add: RemainSize_def DEFAULT_BLOCK_SIZE_def)

lemma new_loop_ok:
  assumes "bm_inv m" "mb_inv mb m"
  shows "\<exists>mb' m'. new_loop val mb m = Some (mb', m') \<and> bm_inv m' \<and> mb_inv mb' m' \<and>
    content mb' m' = content mb m @ val \<and> keeps {} m m' \<and> fresh_ext mb m mb'"
  using assms
proof (induction val arbitrary: mb m rule: length_induct)
  case (1 val)
  obtain a m1 where t: "TakeBlock m = (a, m1)" by (cases "TakeBlock m")
  have f: "fresh_block m a m1" using TakeBlock_fresh [OF "1.prems"(1) t] .
  define b where "b = (block_at m1 a)\<lparr>bk_buffer := take DEFAULT_BLOCK_SIZE val\<rparr>"
  define ws where "ws = min (length val) DEFAULT_BLOCK_SIZE"
  have w: "blk_WriteBytes val (block_at m1 a) = (ws, b)"
    using f by (subst blk_WriteBytes_eq) (auto simp: fresh_block_def ws_def b_def)
  have bs: "buffer_size b = ws" by (simp add: b_def ws_def min_def)
  define mb1 where "mb1 = \<lparr>mb_size = mb_size mb + ws, mb_blocks = mb_blocks mb @ [a]\<rparr>"
  have ap: "bm_inv (put_block a b m1) \<and> mb_inv mb1 (put_block a b m1) \<and>
      content mb1 (put_block a b m1) = content mb m @ take DEFAULT_BLOCK_SIZE val \<and> keeps {} m (put_block a b m1) \<and>
      fresh_ext mb m mb1"
    using append_fresh [OF "1.prems"(2) f, of b] by (simp add: bs mb1_def ws_def b_def)
  have step: "new_loop val mb m = (if ws = length val then Some (mb1, put_block a b m1)
      else new_loop (drop ws val) mb1 (put_block a b m1))"
    by (subst new_loop.simps) (simp add: t w mb1_def)
  show ?case
  proof (cases "ws = length val")
    case True
    then have "take DEFAULT_BLOCK_SIZE val = val" by (simp add: ws_def min_def split: if_splits)
    then show ?thesis unfolding step using ap True by simp
  next
    case False
    then have ws: "ws = DEFAULT_BLOCK_SIZE" "ws < length val" by (auto simp: ws_def min_def split: if_splits)
    then have "length (drop ws val) < length val" by (simp add: DEFAULT_BLOCK_SIZE_def)
    with "1.IH" ap have "\<exists>mb' m'. new_loop (drop ws val) mb1 (put_block a b m1) = Some (mb', m') \<and> bm_inv m' \<and>
        mb_inv mb' m' \<and> content mb' m' = content mb1 (put_block a b m1) @ drop ws val \<and>
        keeps {} (put_block a b m1) m' \<and> fresh_ext mb1 (put_block a b m1) mb'"
      by blast
    then obtain mb' m' where "new_loop (drop ws val) mb1 (put_block a b m1) = Some (mb', m')"
      "bm_inv m'" "mb_inv mb' m'" "content mb' m' = content mb m @ val" "keeps {} (put_block a b m1) m'" "fresh_ext mb1 (put_block a b m1) mb'"
      using ap ws(1) by auto
    moreover from this ap have "keeps {} m m'" using keeps_trans [of "{}" m _ "{}" m'] by auto
    moreover have "fresh_ext mb m mb'" using ap calculation fresh_ext_trans by blast
    ultimately show ?thesis unfolding step using False by simp
  qed
qed

lemma unat_of_small: "n < 2 ^ 32 \<Longrightarrow> unat (of_nat n :: u32) = n"
  by (simp add: unat_of_nat take_bit_nat_eq_self)

lemma unat_plus_small: "unat w + n < 2 ^ 32 \<Longrightarrow> unat (w + of_nat n) = unat w + n" for w :: u32
  using unat_of_small [of "unat w + n"] by simp

text \<open>Below \<open>2 ^ 32\<close> bytes the counter of the written bytes does not wrap.\<close>

lemma big_loop_ok:
  assumes "bm_inv m" "mb_inv mb m" "length val < 2 ^ 32" "unat wr \<le> length val"
    "length (drop (unat wr) val) \<le> n * DEFAULT_BLOCK_SIZE"
  shows "\<exists>as m'. big_loop pmem val wr n m = (as, m') \<and> bm_inv m' \<and> keeps {} m m' \<and>
    mb_inv \<lparr>mb_size = mb_size mb + length (drop (unat wr) val), mb_blocks = mb_blocks mb @ as\<rparr> m' \<and>
    bytes_of m' (mb_blocks mb @ as) = content mb m @ drop (unat wr) val \<and> (\<forall>x \<in> set as. \<not> live m x)"
  using assms
proof (induction n arbitrary: wr mb m)
  case (Suc n)
  obtain a m1 where t: "alloc_block m = (a, m1)" by (cases "alloc_block m")
  have f: "fresh_block m a m1" using alloc_block_fresh [OF Suc.prems(1) t] .
  define rest where "rest = drop (unat wr) val"
  define chunk where "chunk = take DEFAULT_BLOCK_SIZE rest"
  define b where "b = (block_at m1 a)\<lparr>bk_buffer := chunk, bk_big_mem := Some pmem\<rparr>"
  define wr1 where "wr1 = wr + of_nat (length chunk)"
  have ch: "(if length val - unat wr \<ge> DEFAULT_BLOCK_SIZE then take DEFAULT_BLOCK_SIZE rest else rest) = chunk"
    by (simp add: chunk_def rest_def)
  have w: "(snd (blk_WriteBytes chunk (block_at m1 a)))\<lparr>bk_big_mem := Some pmem\<rparr> = b"
    using f by (subst blk_WriteBytes_eq) (auto simp: fresh_block_def b_def chunk_def)
  have lc: "unat wr + length chunk \<le> length val" using Suc.prems(4) by (auto simp: chunk_def rest_def min_def)
  then have wr1: "unat wr1 = unat wr + length chunk"
    using Suc.prems(3) unfolding wr1_def by (intro unat_plus_small) simp
  have dr: "drop (unat wr1) val = drop (length chunk) rest" by (simp add: wr1 rest_def add.commute)
  define mb1 where "mb1 = \<lparr>mb_size = mb_size mb + length chunk, mb_blocks = mb_blocks mb @ [a]\<rparr>"
  have ap: "bm_inv (put_block a b m1) \<and> mb_inv mb1 (put_block a b m1) \<and>
      content mb1 (put_block a b m1) = content mb m @ chunk \<and> keeps {} m (put_block a b m1)"
    using append_fresh [OF Suc.prems(2) f, of b] by (simp add: mb1_def b_def chunk_def)
  have le: "length (drop (unat wr1) val) \<le> n * DEFAULT_BLOCK_SIZE"
    using Suc.prems(5) unfolding dr by (auto simp: chunk_def rest_def min_def)
  have w1: "unat wr1 \<le> length val" using lc by (simp add: wr1)
  from Suc.IH [OF _ _ Suc.prems(3) w1 le, of "put_block a b m1" mb1] ap
  obtain as m' where IH: "big_loop pmem val wr1 n (put_block a b m1) = (as, m')" "bm_inv m'"
    "keeps {} (put_block a b m1) m'"
    "mb_inv \<lparr>mb_size = mb_size mb1 + length (drop (unat wr1) val), mb_blocks = mb_blocks mb1 @ as\<rparr> m'"
    "bytes_of m' (mb_blocks mb1 @ as) = content mb m @ chunk @ drop (unat wr1) val"
    "\<And>x. x \<in> set as \<Longrightarrow> \<not> live (put_block a b m1) x"
    by auto
  have cl: "chunk @ drop (unat wr1) val = rest" unfolding dr chunk_def by (simp add: min_def)
  then have len: "length chunk + length (drop (unat wr1) val) = length rest" by (metis length_append)
  have "keeps {} m m'" using ap IH(3) keeps_trans [of "{}" m _ "{}" m'] by auto
  moreover have "big_loop pmem val wr (Suc n) m = (a # as, m')"
    by (simp only: big_loop.simps t Let_def prod.case rest_def [symmetric] ch w wr1_def [symmetric] IH(1))
  moreover have "\<not> live m x" if "x \<in> set (a # as)" for x
    using that f IH(6) ap by (auto simp: fresh_block_def keeps_def)
  moreover have "mb_inv \<lparr>mb_size = mb_size mb + length rest, mb_blocks = mb_blocks mb @ a # as\<rparr> m'"
    using IH(4) unfolding mb1_def len [symmetric] by (simp add: add.assoc)
  moreover have "bytes_of m' (mb_blocks mb @ a # as) = content mb m @ rest"
    using IH(5) unfolding cl by (simp add: mb1_def)
  ultimately show ?case using IH(2) unfolding rest_def by blast
qed (auto simp: mb_inv_def)

lemma blk_cnt_nat:
  assumes "len < 2 ^ 32"
  shows "unat (blk_cnt len) = len div DEFAULT_BLOCK_SIZE + (if len mod DEFAULT_BLOCK_SIZE > 0 then 1 else 0)"
proof -
  let ?n = "len div DEFAULT_BLOCK_SIZE + (if len mod DEFAULT_BLOCK_SIZE > 0 then 1 else 0)"
  have "blk_cnt len = of_nat ?n" by (simp add: blk_cnt_def)
  moreover have "?n < 2 ^ 32" using assms by (auto simp: DEFAULT_BLOCK_SIZE_def less_mult_imp_div_less)
  ultimately show ?thesis using unat_of_small [of ?n] by simp
qed

lemma blk_cnt_enough:
  assumes "n < 2 ^ 32" shows "n \<le> unat (blk_cnt n) * DEFAULT_BLOCK_SIZE"
proof -
  have "n mod DEFAULT_BLOCK_SIZE < DEFAULT_BLOCK_SIZE" by (simp add: DEFAULT_BLOCK_SIZE_def)
  moreover have "n = n div DEFAULT_BLOCK_SIZE * DEFAULT_BLOCK_SIZE + n mod DEFAULT_BLOCK_SIZE" by simp
  ultimately show ?thesis
    unfolding blk_cnt_nat [OF assms] add_mult_distrib
    by (cases "n mod DEFAULT_BLOCK_SIZE > 0") (simp only: if_True if_False mult_1_left mult_0, linarith)+
qed

lemma BigBlockRef_same [simp]:
  "live (BigBlockRef p c m) = live m" "block_at (BigBlockRef p c m) = block_at m"
  "bm_inv (BigBlockRef p c m) = bm_inv m" "mb_inv mb (BigBlockRef p c m) = mb_inv mb m"
  "bytes_of (BigBlockRef p c m) = bytes_of m" "keeps S m' (BigBlockRef p c m) = keeps S m' m"
  by (auto simp: BigBlockRef_def live_def block_at_def bm_inv_def mb_inv_def bytes_of_def keeps_def fun_eq_iff)

text \<open>The outcome of a write into a buffer whose blocks may change are those of \<open>S\<close>.\<close>

definition write_outcome :: "nat set \<Rightarrow> byte list \<Rightarrow> MemBuffer \<Rightarrow> BlockManager \<Rightarrow> (MemBuffer \<times> BlockManager) option \<Rightarrow> bool" where
  "write_outcome S val mb m r \<longleftrightarrow> (\<exists>mb' m'. r = Some (mb', m') \<and> bm_inv m' \<and> mb_inv mb' m' \<and>
     content mb' m' = content mb m @ val \<and> keeps S m m' \<and> fresh_ext mb m mb')"

lemma WriteBigBytes_ok:
  assumes "bm_inv m" "mb_inv mb m" and len: "length val < 2 ^ 32"
  shows "write_outcome {} val mb m (Some (WriteBigBytes val mb m))"
proof -
  obtain as m' where "big_loop (bm_next m) val 0 (unat (blk_cnt (length val))) m = (as, m')" "bm_inv m'" "keeps {} m m'"
    "mb_inv \<lparr>mb_size = mb_size mb + length val, mb_blocks = mb_blocks mb @ as\<rparr> m'"
    "bytes_of m' (mb_blocks mb @ as) = content mb m @ val" "\<forall>x \<in> set as. \<not> live m x"
    using big_loop_ok [OF assms, of 0 "unat (blk_cnt (length val))" "bm_next m"] blk_cnt_enough [OF len] by auto
  then show ?thesis by (auto simp: WriteBigBytes_def write_outcome_def fresh_ext_def Let_def)
qed

lemma WriteNewBytes_ok:
  assumes "bm_inv m" "mb_inv mb m" "length val < 2 ^ 32"
  shows "write_outcome {} val mb m (WriteNewBytes val mb m)"
proof (cases "length val > 32 * 1024")
  case True
  then show ?thesis using WriteBigBytes_ok [OF assms] by (simp add: WriteNewBytes_def)
next
  case False
  then show ?thesis using new_loop_ok [OF assms(1,2), of val]
    by (simp add: WriteNewBytes_def write_outcome_def)
qed

lemma WriteBytes_ok:
  assumes i: "bm_inv m" "mb_inv mb m" and len: "length val < 2 ^ 32"
  shows "write_outcome (set (mb_blocks mb)) val mb m (WriteBytes val mb m)"
proof (cases "length val > 32 * 1024 \<or> mb_blocks mb = []")
  case True
  have "write_outcome {} val mb m (WriteBytes val mb m)"
    using True WriteBigBytes_ok [OF i len] WriteNewBytes_ok [OF i len] by (auto simp: WriteBytes_def)
  then show ?thesis using keeps_mono [of "{}"] unfolding write_outcome_def by blast
next
  case False
  define a where "a = last (mb_blocks mb)"
  have a: "a \<in> set (mb_blocks mb)" "live m a" using False i(2) by (auto simp: a_def mb_inv_def)
  have le: "buffer_size (block_at m a) \<le> DEFAULT_BLOCK_SIZE" using live_le [OF i(1) a(2)] .
  define r where "r = DEFAULT_BLOCK_SIZE - buffer_size (block_at m a)"
  define b where "b = (block_at m a)\<lparr>bk_buffer := bk_buffer (block_at m a) @ take r val\<rparr>"
  define ws where "ws = min (length val) r"
  define mb1 where "mb1 = mb\<lparr>mb_size := mb_size mb + ws\<rparr>"
  define m1 where "m1 = put_block a b m"
  have w: "(if RemainSize (block_at m a) \<noteq> 0 then blk_WriteBytes val (block_at m a) else (0, block_at m a)) = (ws, b)"
    by (simp add: RemainSize_eq [OF le] blk_WriteBytes_eq [OF le] ws_def b_def r_def)
  have step: "WriteBytes val mb m = (if length val > ws then WriteNewBytes (drop ws val) mb1 m1 else Some (mb1, m1))"
    using False unfolding WriteBytes_def Let_def a_def [symmetric] w mb1_def m1_def by simp
  have p: "bm_inv m1" "keeps {a} m m1"
    using put_block_ok [OF i(1) a(2), of b] le by (auto simp: m1_def b_def r_def)
  obtain as where as: "mb_blocks mb = as @ [a]" using False by (metis a_def append_butlast_last_id)
  then have d: "a \<notin> set as" using i(2) by (auto simp: mb_inv_def)
  have "bytes_of m1 as = bytes_of m as"
    using i(2) d as by (intro keeps_bytes [OF p(2)]) (auto simp: mb_inv_def)
  then have c: "content mb1 m1 = content mb m @ take r val"
    by (simp add: mb1_def as m1_def b_def)
  have mi: "mb_inv mb1 m1"
    using i(2) c a(2) by (auto simp: mb_inv_def mb1_def m1_def ws_def min_def)
  show ?thesis
  proof (cases "length val > ws")
    case True
    then have ws: "ws = r" by (auto simp: ws_def)
    have "length (drop ws val) < 2 ^ 32" using len by simp
    from WriteNewBytes_ok [OF p(1) mi this]
    obtain mb' m' where n: "WriteNewBytes (drop ws val) mb1 m1 = Some (mb', m')" "bm_inv m'" "mb_inv mb' m'"
      "content mb' m' = content mb m @ val" "keeps {} m1 m'" "fresh_ext mb1 m1 mb'"
      by (auto simp: write_outcome_def c ws)
    have "keeps (set (mb_blocks mb)) m m'"
      using keeps_mono [OF keeps_trans [OF p(2) n(5)]] a(1) by auto
    moreover have "fresh_ext mb m mb'"
      using n(6) p(2) by (auto simp: fresh_ext_def mb1_def keeps_def)
    ultimately show ?thesis using n True by (simp add: step write_outcome_def)
  next
    case f: False
    then have "take r val = val" by (auto simp: ws_def min_def split: if_splits)
    then show ?thesis using f p c mi keeps_mono [OF p(2), of "set (mb_blocks mb)"] a(1)
      by (simp add: step write_outcome_def fresh_ext_def mb1_def)
  qed
qed

section \<open>Reads take from the front\<close>

text \<open>Interface of the reader of one block, met by \<open>Block::ReadBytes\<close> and \<open>Block::ReadString\<close>.\<close>

locale block_reader =
  fixes rd :: "nat \<Rightarrow> Block \<Rightarrow> byte list \<times> Block"
  assumes rd_front: "buffer_size b \<le> DEFAULT_BLOCK_SIZE \<Longrightarrow>
    rd len b = (take len (bk_buffer b), b\<lparr>bk_buffer := drop len (bk_buffer b)\<rparr>)"
begin

lemma read_loop_ok:
  assumes "bm_inv m" "distinct as" "\<And>a. a \<in> set as \<Longrightarrow> live m a"
  shows "\<exists>ks m'. read_loop rd len as m = (take len (bytes_of m as), ks, m') \<and>
    bytes_of m' ks = drop len (bytes_of m as) \<and> distinct ks \<and> set ks \<subseteq> set as \<and>
    bm_inv m' \<and> keeps (set as) m m'"
  using assms
proof (induction as arbitrary: len m)
  case (Cons a as)
  let ?buf = "bk_buffer (block_at m a)"
  have la: "live m a" using Cons.prems(3) by simp
  have le: "length ?buf \<le> DEFAULT_BLOCK_SIZE" using live_le [OF Cons.prems(1) la] .
  define b where "b = (block_at m a)\<lparr>bk_buffer := drop len ?buf\<rparr>"
  have rd: "rd len (block_at m a) = (take len ?buf, b)" using rd_front [OF le] by (simp add: b_def)
  define m1 where "m1 = put_block a b m"
  have p: "bm_inv m1" "keeps {a} m m1"
    using put_block_ok [OF Cons.prems(1) la, of b] le by (auto simp: m1_def b_def)
  have same: "bytes_of m1 as = bytes_of m as"
    using Cons.prems by (intro keeps_bytes [OF p(2)]) auto
  have lv: "live m1 x" if "x \<in> set as" for x using Cons.prems(3) that la by (simp add: m1_def)
  show ?case
  proof (cases "len \<le> length ?buf")
    case True
    let ?ks = "(if buffer_size b = 0 then [] else [a]) @ as"
    have r: "read_loop rd len (a # as) m = (take len ?buf, ?ks, m1)"
      using True by (simp add: rd m1_def Let_def)
    have "block_at m1 a = b" by (simp add: m1_def)
    then have "bytes_of m1 ?ks = drop len ?buf @ bytes_of m as" using same by (simp add: b_def)
    then show ?thesis using r True p Cons.prems(2) keeps_mono [OF p(2), of "set (a # as)"] by auto
  next
    case False
    then have b0: "buffer_size b = 0" by (simp add: b_def)
    obtain ks m' where IH: "read_loop rd (len - length ?buf) as m1 = (take (len - length ?buf) (bytes_of m as), ks, m')"
      "bytes_of m' ks = drop (len - length ?buf) (bytes_of m as)" "distinct ks" "set ks \<subseteq> set as"
      "bm_inv m'" "keeps (set as) m1 m'"
      using Cons.IH [OF p(1) _ lv, of "len - length ?buf"] Cons.prems(2) same by auto
    have "read_loop rd len (a # as) m = (take len (bytes_of m (a # as)), ks, m')"
      using False b0 IH(1) by (simp add: rd m1_def Let_def)
    moreover have "keeps (set (a # as)) m m'" using keeps_mono [OF keeps_trans [OF p(2) IH(6)]] by auto
    ultimately show ?thesis using IH False by auto
  qed
qed simp

end

interpretation rd_bytes: block_reader blk_ReadBytes
  by unfold_locales (auto simp: blk_ReadBytes_def Let_def)

interpretation rd_string: block_reader blk_ReadString
  by unfold_locales (auto simp: blk_ReadString_def Let_def)

lemma ReadBytes_ok:
  assumes i: "bm_inv m" "mb_inv mb m" and len: "len \<le> mb_size mb"
  shows "\<exists>mb' m'. ReadBytes len mb m = (Some (take len (content mb m)), mb', m') \<and> bm_inv m' \<and> mb_inv mb' m' \<and>
    content mb' m' = drop len (content mb m) \<and> set (mb_blocks mb') \<subseteq> set (mb_blocks mb) \<and>
    keeps (set (mb_blocks mb)) m m'"
proof -
  have d: "distinct (mb_blocks mb)" "\<And>a. a \<in> set (mb_blocks mb) \<Longrightarrow> live m a" "mb_size mb = length (content mb m)"
    using i(2) by (auto simp: mb_inv_def)
  obtain ks m' where r: "read_loop blk_ReadBytes len (mb_blocks mb) m = (take len (content mb m), ks, m')"
    "bytes_of m' ks = drop len (content mb m)" "distinct ks" "set ks \<subseteq> set (mb_blocks mb)"
    "bm_inv m'" "keeps (set (mb_blocks mb)) m m'"
    using rd_bytes.read_loop_ok [OF i(1) d(1,2)] by blast
  then have "mb_inv \<lparr>mb_size = mb_size mb - len, mb_blocks = ks\<rparr> m'"
    using d by (auto simp: mb_inv_def keeps_def)
  then show ?thesis using r len by (simp add: ReadBytes_def)
qed

lemma ReadString_ok:
  assumes i: "bm_inv m" "mb_inv mb m" and len: "len \<le> mb_size mb"
  shows "\<exists>mb' m'. ReadString len mb m = (Some (take len (content mb m)), mb', m') \<and> bm_inv m' \<and> mb_inv mb' m' \<and>
    content mb' m' = drop len (content mb m) \<and> set (mb_blocks mb') \<subseteq> set (mb_blocks mb) \<and>
    keeps (set (mb_blocks mb)) m m'"
proof -
  have d: "distinct (mb_blocks mb)" "\<And>a. a \<in> set (mb_blocks mb) \<Longrightarrow> live m a" "mb_size mb = length (content mb m)"
    using i(2) by (auto simp: mb_inv_def)
  obtain ks m' where r: "read_loop blk_ReadString len (mb_blocks mb) m = (take len (content mb m), ks, m')"
    "bytes_of m' ks = drop len (content mb m)" "distinct ks" "set ks \<subseteq> set (mb_blocks mb)"
    "bm_inv m'" "keeps (set (mb_blocks mb)) m m'"
    using rd_string.read_loop_ok [OF i(1) d(1,2)] by blast
  then have "mb_inv \<lparr>mb_size = mb_size mb - len, mb_blocks = ks\<rparr> m'"
    using d by (auto simp: mb_inv_def keeps_def)
  then show ?thesis using r len by (simp add: ReadString_def)
qed

section \<open>Copies read a slice\<close>

lemma position_loop_ok:
  assumes "pos < length (bytes_of m as)" "length (bytes_of m as) < 2 ^ 31"
  shows "\<exists>pre a suf bp. position_loop m pos as = (bp, a # suf) \<and> as = pre @ a # suf \<and>
    bp < buffer_size (block_at m a) \<and> pos = length (bytes_of m pre) + bp"
  using assms
proof (induction as arbitrary: pos)
  case (Cons a as)
  let ?n = "buffer_size (block_at m a)"
  have sm: "?n < 2 ^ 31" "pos < 2 ^ 31" using Cons.prems by auto
  show ?case
  proof (cases "pos < ?n")
    case True
    then have "to_int32 (sz_sub ?n pos) > 0" using sm by simp
    then show ?thesis using True by (intro exI [of _ "[]"]) simp
  next
    case False
    have "\<not> to_int32 (sz_sub ?n pos) > 0"
    proof (cases "pos = ?n")
      case False
      then have "to_int32 (sz_sub ?n pos) < 0" using \<open>\<not> pos < ?n\<close> sm by (intro to_int32_neg) auto
      then show ?thesis by linarith
    qed (use sm in simp)
    moreover have "sz_sub pos ?n = pos - ?n" using False sm by simp
    ultimately have step: "position_loop m pos (a # as) = position_loop m (pos - ?n) as" by simp
    have "pos - ?n < length (bytes_of m as)" "length (bytes_of m as) < 2 ^ 31" using Cons.prems False by auto
    from Cons.IH [OF this] obtain pre c suf bp where
      "position_loop m (pos - ?n) as = (bp, c # suf)" "as = pre @ c # suf"
      "bp < buffer_size (block_at m c)" "pos - ?n = length (bytes_of m pre) + bp" by blast
    then show ?thesis unfolding step using False
      by (intro exI [of _ "a # pre"] exI [of _ c] exI [of _ suf] exI [of _ bp]) auto
  qed
qed simp

locale block_copier =
  fixes cp :: "nat \<Rightarrow> nat \<Rightarrow> Block \<Rightarrow> byte list"
  assumes cp_slice: "pos \<le> buffer_size b \<Longrightarrow> cp pos len b = take len (drop pos (bk_buffer b))"
begin

lemma copy_loop_0: "copy_loop cp 0 len as m = take len (bytes_of m as)"
  by (induction as arbitrary: len) (auto simp: cp_slice Let_def min_def split: if_splits)

lemma copy_loop_ok:
  "bp \<le> buffer_size (block_at m a) \<Longrightarrow>
     copy_loop cp bp len (a # suf) m = take len (drop bp (bytes_of m (a # suf)))"
  by (auto simp: cp_slice Let_def copy_loop_0 min_def split: if_splits)

lemma copy_from:
  assumes "pos < length (bytes_of m as)" "length (bytes_of m as) < 2 ^ 31"
  shows "(let (bp, rest) = position_loop m pos as in copy_loop cp bp len rest m) = take len (drop pos (bytes_of m as))"
proof -
  obtain pre a suf bp where p: "position_loop m pos as = (bp, a # suf)" "as = pre @ a # suf"
    "bp < buffer_size (block_at m a)" "pos = length (bytes_of m pre) + bp"
    using position_loop_ok [OF assms] by blast
  then have "drop pos (bytes_of m as) = drop bp (bytes_of m (a # suf))" by simp
  then show ?thesis using p copy_loop_ok [of bp m a len suf] by simp
qed

end

interpretation cp_bytes: block_copier blk_CopyBytes
  by unfold_locales (auto simp: blk_CopyBytes_def Let_def)

interpretation cp_string: block_copier blk_CopyString
  by unfold_locales (auto simp: blk_CopyString_def Let_def)

lemma CopyBytes_ok:
  assumes i: "mb_inv mb m" and s: "mb_size mb < 2 ^ 31" and b: "pos + len \<le> mb_size mb"
  shows "CopyBytes pos len mb m = Some (take len (drop pos (content mb m)))"
proof (cases "pos = mb_size mb")
  case True
  then show ?thesis using i b s by (simp add: CopyBytes_def CopyBytes_upto_def)
next
  case False
  then have "pos < length (content mb m)" "length (content mb m) < 2 ^ 31" "mb_size mb = length (content mb m)"
    using b i s by (auto simp: mb_inv_def)
  then show ?thesis using cp_bytes.copy_from [of pos m "mb_blocks mb" len] b s
    by (simp add: CopyBytes_def CopyBytes_upto_def GetPostion_def Let_def split: prod.splits)
qed

lemma CopyString_ok:
  assumes i: "mb_inv mb m" and s: "mb_size mb < 2 ^ 31" and b: "pos + len \<le> mb_size mb"
  shows "CopyString pos len mb m = Some (take len (drop pos (content mb m)))"
proof (cases "pos = mb_size mb")
  case True
  then show ?thesis using i b s by (simp add: CopyString_def GetPostion_def)
next
  case False
  then have "pos < length (content mb m)" "length (content mb m) < 2 ^ 31" "mb_size mb = length (content mb m)"
    using b i s by (auto simp: mb_inv_def)
  then show ?thesis using cp_string.copy_from [of pos m "mb_blocks mb" len] b s
    by (simp add: CopyString_def GetPostion_def Let_def split: prod.splits)
qed

lemma Copy_past_end:
  assumes "mb_size mb < pos" "pos < 2 ^ 64" "len \<le> 2 ^ 64 - (pos - mb_size mb)"
  shows "CopyBytes pos len mb m = Some [] \<and> CopyString pos len mb m = Some []"
proof -
  have "\<not> sz_sub (mb_size mb) pos < len" using assms by (simp add: sz_sub_gt)
  then show ?thesis using assms by (simp add: CopyBytes_def CopyBytes_upto_def CopyString_def GetPostion_def)
qed

section \<open>Moving and sharing blocks\<close>

lemma AppendBlock_ok:
  assumes "mb_inv dst m" "live m a" "a \<notin> set (mb_blocks dst)"
  shows "mb_inv (AppendBlock m a dst) m \<and> content (AppendBlock m a dst) m = content dst m @ bk_buffer (block_at m a)"
  using assms by (auto simp: AppendBlock_def mb_inv_def)

lemma read_buffer_loop_ok:
  assumes "bm_inv m" "mb_inv dst m" "distinct as" "\<And>a. a \<in> set as \<Longrightarrow> live m a \<and> a \<notin> set (mb_blocks dst)"
  shows "\<exists>ks dst' m'. read_buffer_loop len as dst m = Some (ks, dst', m') \<and> bm_inv m' \<and> mb_inv dst' m' \<and>
    content dst' m' = content dst m @ take len (bytes_of m as) \<and> bytes_of m' ks = drop len (bytes_of m as) \<and>
    distinct ks \<and> (\<forall>a \<in> set ks. live m' a \<and> a \<notin> set (mb_blocks dst'))"
  using assms
proof (induction as arbitrary: len dst)
  case (Cons a as)
  let ?buf = "bk_buffer (block_at m a)"
  have la: "live m a" "a \<notin> set (mb_blocks dst)" using Cons.prems(4) by auto
  have ap: "mb_inv (AppendBlock m a dst) m" "content (AppendBlock m a dst) m = content dst m @ ?buf"
    using AppendBlock_ok [OF Cons.prems(2) la] by auto
  have bl: "mb_blocks (AppendBlock m a dst) = mb_blocks dst @ [a]" by (simp add: AppendBlock_def)
  consider (whole) "len = length ?buf" | (more) "len > length ?buf" | (part) "len < length ?buf" by linarith
  then show ?case
  proof cases
    case whole
    then have "read_buffer_loop len (a # as) dst m = Some (as, AppendBlock m a dst, m)" by (simp add: Let_def)
    moreover have "live m x \<and> x \<notin> set (mb_blocks dst @ [a])" if "x \<in> set as" for x using Cons.prems that by auto
    ultimately show ?thesis using ap Cons.prems whole by (auto simp: bl)
  next
    case more
    then have r: "read_buffer_loop len (a # as) dst m = read_buffer_loop (len - length ?buf) as (AppendBlock m a dst) m"
      by (simp add: Let_def)
    have "live m x \<and> x \<notin> set (mb_blocks (AppendBlock m a dst))" if "x \<in> set as" for x
      using Cons.prems that by (auto simp: bl)
    with Cons.IH [OF Cons.prems(1) ap(1), of "len - length ?buf"] Cons.prems(3) more
    show ?thesis unfolding r by (simp add: ap(2))
  next
    case part
    have small: "length (take len ?buf) < 2 ^ 32" using live_le [OF Cons.prems(1), of a] la by (simp add: DEFAULT_BLOCK_SIZE_def)
    obtain dst1 m1 where w: "WriteBytes (take len ?buf) dst m = Some (dst1, m1)" "bm_inv m1" "mb_inv dst1 m1"
      "content dst1 m1 = content dst m @ take len ?buf" "keeps (set (mb_blocks dst)) m m1" "fresh_ext dst m dst1"
      using WriteBytes_ok [OF Cons.prems(1,2), of "take len ?buf"] small
      by (auto simp: write_outcome_def)
    have same: "live m1 x \<and> bm_store m1 x = bm_store m x \<and> x \<notin> set (mb_blocks dst1)" if "x \<in> set (a # as)" for x
      using Cons.prems(4) [OF that] w(5,6) by (auto simp: keeps_def fresh_ext_def)
    then have blk: "block_at m1 a = block_at m a" by (simp add: block_at_def)
    let ?b = "(block_at m a)\<lparr>bk_buffer := drop len ?buf\<rparr>"
    have le: "length ?buf \<le> DEFAULT_BLOCK_SIZE" using live_le [OF Cons.prems(1) la(1)] .
    have rd: "snd (blk_ReadBytes len (block_at m1 a)) = ?b" using rd_bytes.rd_front [OF le] by (simp add: blk)
    define m2 where "m2 = put_block a ?b m1"
    have p: "bm_inv m2" "keeps {a} m1 m2"
      using put_block_ok [OF w(2), of a ?b] same le by (auto simp: m2_def)
    have r: "read_buffer_loop len (a # as) dst m = Some (a # as, dst1, m2)"
      using part by (simp add: Let_def w(1) rd m2_def)
    have c1: "content dst1 m2 = content dst1 m1"
      using w(3) same by (intro keeps_bytes [OF p(2)]) (auto simp: mb_inv_def)
    have "bytes_of m2 as = bytes_of m1 as"
      using Cons.prems(3) same by (intro keeps_bytes [OF p(2)]) auto
    moreover have "bytes_of m1 as = bytes_of m as"
      using Cons.prems(4) by (intro keeps_bytes [OF w(5)]) auto
    moreover have "block_at m2 a = ?b" by (simp add: m2_def)
    ultimately have c2: "bytes_of m2 (a # as) = drop len (bytes_of m (a # as))" using part by simp
    have lv: "live m2 x" if "live m1 x" for x using p(2) that by (simp add: keeps_def)
    have "mb_inv dst1 m2" using w(3) lv c1 by (simp add: mb_inv_def)
    moreover have "content dst1 m2 = content dst m @ take len (bytes_of m (a # as))"
      using c1 w(4) part by simp
    ultimately show ?thesis unfolding r using p(1) c2 same lv Cons.prems(3) by blast
  qed
qed simp

lemma ReadBuffer_ok:
  assumes i: "bm_inv m" "mb_inv mb m" "mb_inv dst m" and d: "set (mb_blocks mb) \<inter> set (mb_blocks dst) = {}"
    and len: "len \<le> mb_size mb"
  shows "\<exists>dst' mb' m'. ReadBuffer len dst mb m = Some (True, dst', mb', m') \<and>
    bm_inv m' \<and> mb_inv mb' m' \<and> mb_inv dst' m' \<and> content dst' m' = content dst m @ take len (content mb m) \<and>
    content mb' m' = drop len (content mb m) \<and> set (mb_blocks mb') \<inter> set (mb_blocks dst') = {}"
proof -
  have mb: "distinct (mb_blocks mb)" "mb_size mb = length (content mb m)"
    "\<And>a. a \<in> set (mb_blocks mb) \<Longrightarrow> live m a \<and> a \<notin> set (mb_blocks dst)"
    using i(2) d by (auto simp: mb_inv_def)
  obtain ks dst' m' where r: "read_buffer_loop len (mb_blocks mb) dst m = Some (ks, dst', m')" "bm_inv m'" "mb_inv dst' m'"
    "content dst' m' = content dst m @ take len (content mb m)" "bytes_of m' ks = drop len (content mb m)"
    "distinct ks" "\<And>a. a \<in> set ks \<Longrightarrow> live m' a \<and> a \<notin> set (mb_blocks dst')"
    using read_buffer_loop_ok [OF i(1,3) mb(1,3), of len] by blast
  then have "mb_inv \<lparr>mb_size = mb_size mb - len, mb_blocks = ks\<rparr> m'"
    using mb(2) by (auto simp: mb_inv_def)
  with r len show ?thesis by (auto simp: ReadBuffer_def)
qed

text \<open>After \<open>AppendBuffer\<close> the two buffers share blocks, and a write into one shows in the other.\<close>

lemma AppendBuffer_content:
  "mb_inv a m \<Longrightarrow> mb_inv b m \<Longrightarrow> set (mb_blocks a) \<inter> set (mb_blocks b) = {} \<Longrightarrow>
     mb_inv (AppendBuffer a b) m \<and> content (AppendBuffer a b) m = content b m @ content a m"
  by (auto simp: AppendBuffer_def mb_inv_def)

lemma AppendBuffer_shared_write:
  assumes i: "bm_inv m" "mb_inv a m" and ne: "mb_blocks a \<noteq> []"
    and fits: "buffer_size (block_at m (last (mb_blocks a))) + length val \<le> DEFAULT_BLOCK_SIZE"
  shows "\<exists>b' m'. WriteBytes val (AppendBuffer a b) m = Some (b', m') \<and>
    content a m' = content a m @ val \<and> mb_size a + length val = length (content a m')"
proof -
  define l where "l = last (mb_blocks a)"
  let ?b = "(block_at m l)\<lparr>bk_buffer := bk_buffer (block_at m l) @ val\<rparr>"
  let ?mb = "AppendBuffer a b"
  have lst: "mb_blocks ?mb \<noteq> []" "last (mb_blocks ?mb) = l" using ne by (auto simp: AppendBuffer_def l_def)
  have le: "buffer_size (block_at m l) \<le> DEFAULT_BLOCK_SIZE" using fits by (simp add: l_def)
  have w: "(if RemainSize (block_at m l) \<noteq> 0 then blk_WriteBytes val (block_at m l) else (0, block_at m l)) = (length val, ?b)"
  proof (cases "val = []")
    case False
    then have "0 < length val" by simp
    then have "buffer_size (block_at m l) < DEFAULT_BLOCK_SIZE" using fits unfolding l_def by linarith
    then show ?thesis using fits by (simp add: l_def [symmetric] RemainSize_eq [OF le] blk_WriteBytes_eq [OF le])
  qed (simp add: RemainSize_eq [OF le] blk_WriteBytes_eq [OF le])
  have r: "WriteBytes val ?mb m = Some (?mb\<lparr>mb_size := mb_size ?mb + length val\<rparr>, put_block l ?b m)"
    using lst fits unfolding WriteBytes_def lst(2) Let_def w by (simp add: DEFAULT_BLOCK_SIZE_def)
  obtain as where as: "mb_blocks a = as @ [l]" using ne by (metis append_butlast_last_id l_def)
  then have "l \<notin> set as" using i(2) unfolding mb_inv_def by (metis distinct_append disjoint_iff list.set_intros(1))
  then have "bytes_of (put_block l ?b m) as = bytes_of m as"
    by (auto simp: bytes_of_def intro!: arg_cong [where f = concat])
  then have "content a (put_block l ?b m) = content a m @ val" by (simp add: as)
  then show ?thesis using r i(2) by (simp add: mb_inv_def)
qed

text \<open>A \<open>read\<close> that delivers fewer bytes than asked for leaves the byte count of the buffer too high.\<close>

lemma mb_ReadFile_short:
  assumes "0 < len" "len < DEFAULT_BLOCK_SIZE" "int (off + len) \<le> file_size"
    and "rd 0 len \<noteq> []" "length (rd 0 len) < len" "mb_blocks mb = []" "mb_size mb = 0"
  shows "\<exists>mb' m'. mb_ReadFile (Some file_size) True rd off len mb m = (True, mb', m') \<and>
    mb_size mb' = len \<and> content mb' m' = rd 0 len"
proof -
  have c: "unat (blk_cnt len) = Suc 0" using assms(1,2) by (simp add: blk_cnt_def)
  have w: "\<not> len - 0 \<ge> DEFAULT_BLOCK_SIZE" "take len (rd 0 len) = rd 0 len" using assms(2,5) by auto
  have z: "sz_sub len 0 = len" using assms(2) by (simp add: DEFAULT_BLOCK_SIZE_def)
  show ?thesis using assms w
    by (auto simp: mb_ReadFile_def c z alloc_block_def Let_def BigBlockRef_def block_at_def put_block_def)
qed


section \<open>The buffer as a byte stream\<close>

definition mbs_inv :: "MemBuffer \<times> BlockManager \<Rightarrow> bool" where
  "mbs_inv s \<longleftrightarrow> bm_inv (snd s) \<and> mb_inv (fst s) (snd s)"

definition mbs_content :: "MemBuffer \<times> BlockManager \<Rightarrow> byte list" where
  "mbs_content s = content (fst s) (snd s)"

interpretation mbs: byte_stream mbs_inv mbs_content "\<lambda>bs. length bs < 2 ^ 32"
  "\<lambda>bs s. WriteBytes bs (fst s) (snd s)" "\<lambda>n s. ReadBytes n (fst s) (snd s)"
proof
  fix s and bs :: "byte list"
  assume "mbs_inv s" "length bs < 2 ^ 32"
  then show "\<exists>s'. WriteBytes bs (fst s) (snd s) = Some s' \<and> mbs_inv s' \<and> mbs_content s' = mbs_content s @ bs"
    using WriteBytes_ok [of "snd s" "fst s" bs] by (auto simp: mbs_inv_def mbs_content_def write_outcome_def)
next
  fix s n
  assume i: "mbs_inv s"
  then have sz: "mb_size (fst s) = length (mbs_content s)" by (simp add: mbs_inv_def mbs_content_def mb_inv_def)
  show "length (mbs_content s) < n \<Longrightarrow> ReadBytes n (fst s) (snd s) = (None, s)"
    using sz by (simp add: ReadBytes_def)
  show "n \<le> length (mbs_content s) \<Longrightarrow> \<exists>s'. ReadBytes n (fst s) (snd s) = (Some (take n (mbs_content s)), s') \<and>
      mbs_inv s' \<and> mbs_content s' = drop n (mbs_content s)"
    using ReadBytes_ok [of "snd s" "fst s" n] i sz by (fastforce simp: mbs_inv_def mbs_content_def)
qed

definition bm_start :: BlockManager where
  "bm_start = \<lparr>bm_store = Map.empty, bm_next = 1, bm_blocks = [], bm_big_mem_map = Map.empty,
     g_block_count = 0, g_block_count_max = 0, g_membuffer_count = 0\<rparr>"

lemma bm_start_inv: "bm_inv bm_start"
  by (simp add: bm_inv_def bm_start_def)

lemma create_inv: "bm_inv m \<Longrightarrow> mbs_inv (CreateMemBuffer m) \<and> mbs_content (CreateMemBuffer m) = []"
  by (simp add: CreateMemBuffer_def mbs_inv_def mbs_content_def mb_inv_def bm_inv_def)


section \<open>Properties\<close>

text \<open>C1. Any sequence of \<open>WriteBytes\<close> of less than \<open>2 ^ 32\<close> bytes each and of \<open>ReadBytes\<close> on a new buffer
  runs to its end, and the bytes read, followed by the content that is left, are the bytes written, in
  order: no byte is lost, doubled or reordered, whatever the block boundaries and the large-write path.
  The bound is that of the \<open>uint32_t\<close> counters of \<open>WriteBigBytes\<close>, which wrap in a single larger write;
  the number of writes and their total are not bounded.\<close>

theorem membuffer_stream:
  assumes "bm_inv m" and "\<forall>bs. Put bs \<in> set ops \<longrightarrow> length bs < 2 ^ 32"
  shows "\<exists>out s. stream_run (\<lambda>bs s. WriteBytes bs (fst s) (snd s)) (\<lambda>n s. ReadBytes n (fst s) (snd s)) ops
      (CreateMemBuffer m) = Some (out, s) \<and>
    put_bytes ops = out @ content (fst s) (snd s) \<and> mb_size (fst s) = length (content (fst s) (snd s))"
proof -
  obtain out s where "stream_run (\<lambda>bs s. WriteBytes bs (fst s) (snd s)) (\<lambda>n s. ReadBytes n (fst s) (snd s)) ops
      (CreateMemBuffer m) = Some (out, s)" "mbs_inv s" "put_bytes ops = out @ mbs_content s"
    using mbs.run_stream [of "CreateMemBuffer m" ops] create_inv [OF assms(1)] assms(2) by auto
  then show ?thesis by (auto simp: mbs_inv_def mbs_content_def mb_inv_def)
qed

theorem membuffer_stream_witness:
  "\<exists>out s. stream_run (\<lambda>bs s. WriteBytes bs (fst s) (snd s)) (\<lambda>n s. ReadBytes n (fst s) (snd s))
      [Put [1, 2], Put (replicate 40000 3), Get 2] (CreateMemBuffer bm_start) = Some (out, s) \<and>
    [1, 2] @ replicate 40000 3 = out @ content (fst s) (snd s)"
proof -
  let ?ops = "[Put [1, 2], Put (replicate 40000 3), Get 2]"
  have "put_bytes ?ops = [1, 2] @ replicate 40000 3" by (simp only: put_bytes.simps append_Nil2)
  moreover have "\<forall>bs. Put bs \<in> set ?ops \<longrightarrow> length bs < 2 ^ 32"
    by (auto simp only: list.set insert_iff stream_op.inject stream_op.distinct length_replicate) simp_all
  ultimately show ?thesis using membuffer_stream [OF bm_start_inv, of ?ops] by auto
qed

text \<open>Writing to one buffer appends to its content and leaves every other buffer that shares no block with
  it alone; both stay well formed.\<close>

theorem WriteBytes_frame:
  assumes "bm_inv m" "mb_inv mb m" "mb_inv other m" "set (mb_blocks mb) \<inter> set (mb_blocks other) = {}"
    and len: "length val < 2 ^ 32"
  shows "\<exists>mb' m'. WriteBytes val mb m = Some (mb', m') \<and> bm_inv m' \<and> mb_inv mb' m' \<and> mb_inv other m' \<and>
    content mb' m' = content mb m @ val \<and> content other m' = content other m \<and>
    set (mb_blocks mb') \<inter> set (mb_blocks other) = {}"
proof -
  obtain mb' m' where w: "WriteBytes val mb m = Some (mb', m')" "bm_inv m'" "mb_inv mb' m'"
    "content mb' m' = content mb m @ val" "keeps (set (mb_blocks mb)) m m'" "fresh_ext mb m mb'"
    using WriteBytes_ok [OF assms(1,2) len] by (auto simp: write_outcome_def)
  have "content other m' = content other m"
    using assms(3,4) by (intro keeps_bytes [OF w(5)]) (auto simp: mb_inv_def)
  moreover from this have "mb_inv other m'" using assms(3) w(5) by (auto simp: mb_inv_def keeps_def)
  moreover have "set (mb_blocks mb') \<inter> set (mb_blocks other) = {}"
    using w(6) assms(3,4) by (auto simp: fresh_ext_def mb_inv_def)
  ultimately show ?thesis using w by blast
qed

theorem WriteBytes_frame_witness:
  "\<exists>mb' m'. WriteBytes [7, 8] \<lparr>mb_size = 0, mb_blocks = []\<rparr> bm_start = Some (mb', m') \<and> content mb' m' = [7, 8]"
  using WriteBytes_frame [OF bm_start_inv, of "\<lparr>mb_size = 0, mb_blocks = []\<rparr>" "\<lparr>mb_size = 0, mb_blocks = []\<rparr>" "[7, 8]"]
  by (auto simp: mb_inv_def)

text \<open>\<open>ReadBuffer\<close> into a buffer with other blocks moves exactly the first \<open>len\<close> bytes, by relinking whole
  blocks and copying the front of the last one; afterwards the two buffers still share no block.\<close>

theorem ReadBuffer_moves:
  assumes "bm_inv m" "mb_inv mb m" "mb_inv dst m" "set (mb_blocks mb) \<inter> set (mb_blocks dst) = {}"
    and "len \<le> mb_size mb"
  shows "\<exists>dst' mb' m'. ReadBuffer len dst mb m = Some (True, dst', mb', m') \<and>
    bm_inv m' \<and> mb_inv mb' m' \<and> mb_inv dst' m' \<and> content dst' m' = content dst m @ take len (content mb m) \<and>
    content mb' m' = drop len (content mb m) \<and> set (mb_blocks mb') \<inter> set (mb_blocks dst') = {}"
  by (rule ReadBuffer_ok [OF assms])

definition bm_sample :: BlockManager where
  "bm_sample = bm_start\<lparr>bm_store := [1 \<mapsto> new_block\<lparr>bk_buffer := [1, 2, 3]\<rparr>, 2 \<mapsto> new_block\<lparr>bk_buffer := [4, 5]\<rparr>],
     bm_next := 3, g_block_count := 2, g_block_count_max := 2\<rparr>"

lemma bm_sample_inv:
  "bm_inv bm_sample" "mb_inv \<lparr>mb_size = 5, mb_blocks = [1, 2]\<rparr> bm_sample" "mb_inv \<lparr>mb_size = 0, mb_blocks = []\<rparr> bm_sample"
  by (auto simp: bm_sample_def bm_start_def bm_inv_def mb_inv_def live_def bytes_of_def block_at_def new_block_def
      DEFAULT_BLOCK_SIZE_def split: if_splits)

theorem ReadBuffer_moves_witness:
  "\<exists>dst' mb' m'. ReadBuffer 4 \<lparr>mb_size = 0, mb_blocks = []\<rparr> \<lparr>mb_size = 5, mb_blocks = [1, 2]\<rparr> bm_sample
      = Some (True, dst', mb', m') \<and> content dst' m' = [1, 2, 3, 4] \<and> content mb' m' = [5]"
  using ReadBuffer_moves [OF bm_sample_inv, of 4]
  by (auto simp: bm_sample_def bm_start_def bytes_of_def block_at_def new_block_def)

text \<open>Within the buffer, \<open>CopyBytes\<close> and \<open>CopyString\<close> return the slice at \<open>pos\<close>, for buffers below 2 GB (the
  block search narrows differences to \<open>int\<close>).\<close>

theorem Copy_slice:
  assumes "mb_inv mb m" "mb_size mb < 2 ^ 31" "pos + len \<le> mb_size mb"
  shows "CopyBytes pos len mb m = Some (take len (drop pos (content mb m))) \<and>
    CopyString pos len mb m = Some (take len (drop pos (content mb m)))"
  using CopyBytes_ok [OF assms] CopyString_ok [OF assms] by simp

theorem Copy_slice_witness:
  "CopyBytes 2 3 \<lparr>mb_size = 5, mb_blocks = [1, 2]\<rparr> bm_sample = Some [3, 4, 5]"
  using Copy_slice [OF bm_sample_inv(2), of 2 3]
  by (simp add: bm_sample_def bm_start_def bytes_of_def block_at_def new_block_def)

text \<open>Past the end the length check wraps around: \<open>CopyBytes\<close> and \<open>CopyString\<close> report success without
  copying a byte, and an integer copy returns \<open>true\<close> with the caller's old value.\<close>

theorem Copy_past_end_succeeds:
  assumes "mb_size mb < pos" "pos < 2 ^ 64" "len \<le> 2 ^ 64 - (pos - mb_size mb)" "4 \<le> 2 ^ 64 - (pos - mb_size mb)"
  shows "CopyBytes pos len mb m = Some [] \<and> CopyString pos len mb m = Some [] \<and>
    CopyUInt32 big old pos mb m = (True, old)"
  using Copy_past_end [OF assms(1,2,3)] Copy_past_end [OF assms(1,2,4)]
  by (simp add: CopyUInt32_def host_word_bytes)

theorem Copy_past_end_succeeds_witness:
  "CopyUInt32 False 42 9 \<lparr>mb_size = 5, mb_blocks = [1, 2]\<rparr> bm_sample = (True, 42)"
  using Copy_past_end_succeeds [of "\<lparr>mb_size = 5, mb_blocks = [1, 2]\<rparr>" 9 1 bm_sample False 42] by simp

text \<open>\<open>AppendBuffer\<close> makes the two buffers share blocks: a later small write into the target also grows the
  content of the source, whose byte count no longer matches it.\<close>

theorem AppendBuffer_aliases:
  assumes "bm_inv m" "mb_inv a m" "mb_blocks a \<noteq> []"
    and "buffer_size (block_at m (last (mb_blocks a))) + length val \<le> DEFAULT_BLOCK_SIZE" "val \<noteq> []"
  shows "\<exists>b' m'. WriteBytes val (AppendBuffer a b) m = Some (b', m') \<and>
    content a m' = content a m @ val \<and> \<not> mb_inv a m'"
proof -
  obtain b' m' where "WriteBytes val (AppendBuffer a b) m = Some (b', m')" "content a m' = content a m @ val"
    "mb_size a + length val = length (content a m')"
    using AppendBuffer_shared_write [OF assms(1-4)] by blast
  moreover from this have "\<not> mb_inv a m'" using assms(5) by (auto simp: mb_inv_def)
  ultimately show ?thesis by blast
qed

theorem AppendBuffer_aliases_witness:
  "\<exists>b' m'. WriteBytes [9] (AppendBuffer \<lparr>mb_size = 5, mb_blocks = [1, 2]\<rparr> \<lparr>mb_size = 0, mb_blocks = []\<rparr>) bm_sample
      = Some (b', m') \<and> content \<lparr>mb_size = 5, mb_blocks = [1, 2]\<rparr> m' = [1, 2, 3, 4, 5, 9]"
  using AppendBuffer_aliases [OF bm_sample_inv(1,2), of "[9]" "\<lparr>mb_size = 0, mb_blocks = []\<rparr>"]
  by (auto simp: bm_sample_def bm_start_def bytes_of_def block_at_def new_block_def DEFAULT_BLOCK_SIZE_def)

text \<open>An integer written with \<open>WriteUInt32\<close> is what the next \<open>ReadUInt32\<close> of an empty buffer returns, on hosts
  of either byte order.\<close>

theorem UInt32_roundtrip:
  assumes "bm_inv m" "mb_inv mb m" "content mb m = []"
  shows "\<exists>mb' m' mb'' m''. WriteUInt32 big v mb m = Some (mb', m') \<and> ReadUInt32 big mb' m' = (Some v, mb'', m'') \<and>
    content mb'' m'' = []"
proof -
  obtain mb' m' where w: "WriteUInt32 big v mb m = Some (mb', m')" "bm_inv m'" "mb_inv mb' m'"
    "content mb' m' = host_bytes big 4 v"
    using WriteBytes_ok [OF assms(1,2), of "host_bytes big 4 v"] assms(3) by (auto simp: write_outcome_def WriteUInt32_def)
  then have "mb_size mb' = 4" by (simp add: mb_inv_def)
  then show ?thesis using w ReadBytes_ok [OF w(2,3), of 4]
    by (auto simp: ReadUInt32_def host_word_bytes)
qed

theorem UInt32_roundtrip_witness:
  "\<exists>mb' m' mb'' m''. WriteUInt32 False 0xCAFE \<lparr>mb_size = 0, mb_blocks = []\<rparr> bm_start = Some (mb', m') \<and>
     ReadUInt32 False mb' m' = (Some 0xCAFE, mb'', m'')"
  using UInt32_roundtrip [OF bm_start_inv, of "\<lparr>mb_size = 0, mb_blocks = []\<rparr>" False "0xCAFE"]
  by (fastforce simp: mb_inv_def)

end
