(* ===== verification/Packet_Socket.thy ===== *)
theory Packet_Socket
  imports Mem_Buffer "HOL-Library.Sublist"
begin

text \<open>
  The packet framing of the event service, \<open>lib_bsp/eventservice/net/asyncpacketsocket.cpp\<close>: every message on
  the message bus travels in a packet of this format. The receive buffer is a \<open>MemBuffer\<close> of the theory
  \<open>Mem_Buffer\<close>; the packets handed to \<open>SignalPacketEvent\<close> are logged with their flags in \<open>pk_events\<close>. The
  operating-system socket below it is the environment: chunks of bytes arrive in fresh buffers. \<open>big\<close> is the
  byte order of the host.
\<close>

section \<open>Packet headers\<close>

record PacketHeader =
  ph_m :: byte
  ph_l :: byte
  ph_flag :: u16
  ph_data_size :: u32

definition PACKET_HEADER_SIZE :: u32 where "PACKET_HEADER_SIZE = 8"

definition new_header :: "bool \<Rightarrow> u16 \<Rightarrow> u32 \<Rightarrow> mem_error + PacketHeader" where
  "new_header big flag n =
     bindE (HostToNetwork16 big flag) (\<lambda>f. bindE (HostToNetwork32 big n) (\<lambda>d.
       Inr \<lparr>ph_m = of_char CHR ''M'', ph_l = of_char CHR ''L'', ph_flag = f, ph_data_size = d\<rparr>))"

definition is_valid :: "PacketHeader \<Rightarrow> bool" where
  "is_valid h \<longleftrightarrow> of_char CHR ''M'' = ph_m h \<and> of_char CHR ''L'' = ph_l h"

definition Flag :: "bool \<Rightarrow> PacketHeader \<Rightarrow> mem_error + u16" where
  "Flag big h = NetworkToHost16 big (ph_flag h)"

definition DataSize :: "bool \<Rightarrow> PacketHeader \<Rightarrow> mem_error + u32" where
  "DataSize big h = NetworkToHost32 big (ph_data_size h)"

text \<open>The object representation of a header, and the header that eight bytes represent.\<close>

definition header_bytes :: "bool \<Rightarrow> PacketHeader \<Rightarrow> byte list" where
  "header_bytes big h = [ph_m h, ph_l h] @ host_bytes big 2 (ph_flag h) @ host_bytes big 4 (ph_data_size h)"

definition header_of :: "bool \<Rightarrow> byte list \<Rightarrow> PacketHeader" where
  "header_of big bs = \<lparr>ph_m = bs ! 0, ph_l = bs ! 1, ph_flag = host_word big (take 2 (drop 2 bs)),
     ph_data_size = host_word big (take 4 (drop 4 bs))\<rparr>"

section \<open>The socket\<close>

record PacketSocket =
  pk_recv :: MemBuffer
  pk_mem :: BlockManager
  pk_events :: "(byte list \<times> u16) list"
  pk_open :: bool

text \<open>The two writers: what they hand to the socket below, and the store.\<close>

definition AsyncWritePacket_bytes :: "bool \<Rightarrow> bool \<Rightarrow> byte list \<Rightarrow> u16 \<Rightarrow> BlockManager
    \<Rightarrow> mem_error + (MemBuffer \<times> BlockManager) option" where
  "AsyncWritePacket_bytes big is_open data flag m =
     (if \<not> is_open then Inr None
      else bindE (new_header big flag (of_nat (length data))) (\<lambda>h.
        let (mb, m1) = CreateMemBuffer m
        in Inr (case WriteBytes (header_bytes big h) mb m1 of
             None \<Rightarrow> None
           | Some (mb1, m2) \<Rightarrow> if data \<noteq> [] then WriteBytes data mb1 m2 else Some (mb1, m2))))"

definition AsyncWritePacket :: "bool \<Rightarrow> MemBuffer \<Rightarrow> u16 \<Rightarrow> BlockManager \<Rightarrow> mem_error + MemBuffer \<times> BlockManager" where
  "AsyncWritePacket big buffer flag m =
     bindE (new_header big flag (of_nat (mb_size buffer))) (\<lambda>h.
       let (send_buffer, m1) = CreateMemBuffer m;
           (block, m2) = TakeBlock m1;
           m3 = put_block block (snd (blk_WriteBytes (header_bytes big h) (block_at m2 block))) m2
       in Inr (AppendBuffer buffer (AppendBlock m3 block send_buffer), m3))"

text \<open>
  A turn of the loop of \<open>AnalysisPacket\<close>: the function returns (\<open>Inl\<close>) or goes on (\<open>Inr\<close>). Sizes are \<open>uint32\<close>, so
  the size of a packet wraps around.
\<close>

definition analysis_turn :: "bool \<Rightarrow> PacketSocket \<Rightarrow> ((mem_error + bool \<times> PacketSocket) + PacketSocket) option" where
  "analysis_turn big s =
     (let recv_size = of_nat (mb_size (pk_recv s)) :: u32
      in if recv_size < PACKET_HEADER_SIZE then Some (Inl (Inr (True, s)))
         else case CopyBytes 0 8 (pk_recv s) (pk_mem s) of
           None \<Rightarrow> Some (Inl (Inr (False, s)))
         | Some hb \<Rightarrow>
             if \<not> is_valid (header_of big hb) then Some (Inl (Inr (False, s)))
             else case DataSize big (header_of big hb) of
               Inl e \<Rightarrow> Some (Inl (Inl e))
             | Inr data_size \<Rightarrow>
                 let pack_size = data_size + PACKET_HEADER_SIZE
                 in if pack_size > recv_size then Some (Inl (Inr (True, s)))
                    else
                      let (usr_buff, m1) = CreateMemBuffer (pk_mem s)
                      in case ReadBuffer (unat pack_size) usr_buff (pk_recv s) m1 of
                           None \<Rightarrow> None
                         | Some (bret, usr1, recv1, m2) \<Rightarrow>
                             if bret
                             then let (_, usr2, m3) = ReadBytes 8 usr1 m2
                                  in case Flag big (header_of big hb) of
                                       Inl e \<Rightarrow> Some (Inl (Inl e))
                                     | Inr flag \<Rightarrow> Some (Inr (s\<lparr>pk_recv := recv1, pk_mem := m3,
                                         pk_events := pk_events s @ [(content usr2 m3, flag)]\<rparr>))
                             else Some (Inr (s\<lparr>pk_recv := recv1, pk_mem := m2\<rparr>)))"

text \<open>The loop may run forever, which is \<open>None\<close>.\<close>

partial_function (option) analysis_loop :: "bool \<Rightarrow> PacketSocket \<Rightarrow> (mem_error + bool \<times> PacketSocket) option" where
  "analysis_loop big s =
     (case analysis_turn big s of
        None \<Rightarrow> None
      | Some (Inl r) \<Rightarrow> Some r
      | Some (Inr s1) \<Rightarrow> analysis_loop big s1)"

definition AnalysisPacket :: "bool \<Rightarrow> MemBuffer \<Rightarrow> PacketSocket \<Rightarrow> (mem_error + bool \<times> PacketSocket) option" where
  "AnalysisPacket big buffer s = analysis_loop big (s\<lparr>pk_recv := AppendBuffer buffer (pk_recv s)\<rparr>)"

definition OnAsyncSocketReadEvent :: "bool \<Rightarrow> MemBuffer \<Rightarrow> PacketSocket \<Rightarrow> (mem_error + PacketSocket) option" where
  "OnAsyncSocketReadEvent big data_buffer s =
     (if \<not> pk_open s then Some (Inr s)
      else map_option (\<lambda>r. bindE r (\<lambda>(ok, s1). if \<not> ok then Inr (s1\<lparr>pk_open := False\<rparr>) else Inr s1))
             (AnalysisPacket big data_buffer s))"

text \<open>A chunk arrives: the socket below writes it into a fresh buffer and signals it.\<close>

definition chunk_arrives :: "bool \<Rightarrow> byte list \<Rightarrow> PacketSocket \<Rightarrow> (mem_error + PacketSocket) option" where
  "chunk_arrives big bs s =
     (let (mb, m1) = CreateMemBuffer (pk_mem s)
      in case WriteBytes bs mb m1 of
           None \<Rightarrow> None
         | Some (mb1, m2) \<Rightarrow> OnAsyncSocketReadEvent big mb1 (s\<lparr>pk_mem := m2\<rparr>))"

fun chunks_arrive :: "bool \<Rightarrow> byte list list \<Rightarrow> PacketSocket \<Rightarrow> (mem_error + PacketSocket) option" where
  "chunks_arrive big [] s = Some (Inr s)"
| "chunks_arrive big (bs # bss) s =
     (case chunk_arrives big bs s of
        None \<Rightarrow> None
      | Some (Inl e) \<Rightarrow> Some (Inl e)
      | Some (Inr s1) \<Rightarrow> chunks_arrive big bss s1)"

section \<open>The format\<close>

text \<open>
  The reference: a packet on the wire, and the parser of a byte string into packets. The parser says whether
  the stream is still well formed, which packets are complete, and what is left.
\<close>

definition frame :: "byte list \<times> u16 \<Rightarrow> byte list" where
  "frame p = [of_char CHR ''M'', of_char CHR ''L''] @ be_bytes 2 (snd p) @ be_bytes 4 (of_nat (length (fst p)) :: u32) @ fst p"

definition body_size :: "byte list \<Rightarrow> nat" where
  "body_size bs = unat (be_word (take 4 (drop 4 bs)) :: u32)"

function deframe :: "byte list \<Rightarrow> (bool \<times> (byte list \<times> u16) list \<times> byte list) option" where
  "deframe bs =
     (if length bs < 8 then Some (True, [], bs)
      else if take 2 bs \<noteq> [of_char CHR ''M'', of_char CHR ''L''] then Some (False, [], bs)
      else if 2 ^ 32 \<le> body_size bs + 8 then None
      else if length bs < body_size bs + 8 then Some (True, [], bs)
      else map_option (\<lambda>(ok, ps, r). (ok, (take (body_size bs) (drop 8 bs), be_word (take 2 (drop 2 bs))) # ps, r))
             (deframe (drop (body_size bs + 8) bs)))"
  by pat_completeness auto
termination by (relation "measure length") auto

declare deframe.simps [simp del]

lemma header_front:
  assumes "8 \<le> length bs"
  shows "take 2 (bs @ ys) = take 2 bs" "body_size (bs @ ys) = body_size bs" "take 2 (drop 2 (bs @ ys)) = take 2 (drop 2 bs)"
  using assms by (simp_all add: body_size_def)

text \<open>Parsing is incremental: what was left of a first part is parsed again with what follows.\<close>

lemma deframe_append:
  "deframe xs = Some (True, ps, r) \<Longrightarrow>
     deframe (xs @ ys) = map_option (\<lambda>(ok, qs, t). (ok, ps @ qs, t)) (deframe (r @ ys))"
proof (induction xs arbitrary: ps r rule: deframe.induct)
  case (1 xs)
  consider (short) "length xs < 8" | (bad) "\<not> length xs < 8" "take 2 xs \<noteq> [of_char CHR ''M'', of_char CHR ''L'']"
    | (over) "\<not> length xs < 8" "take 2 xs = [of_char CHR ''M'', of_char CHR ''L'']" "2 ^ 32 \<le> body_size xs + 8"
    | (part) "\<not> length xs < 8" "take 2 xs = [of_char CHR ''M'', of_char CHR ''L'']" "\<not> 2 ^ 32 \<le> body_size xs + 8" "length xs < body_size xs + 8"
    | (full) "\<not> length xs < 8" "take 2 xs = [of_char CHR ''M'', of_char CHR ''L'']" "\<not> 2 ^ 32 \<le> body_size xs + 8" "\<not> length xs < body_size xs + 8"
    by blast
  then show ?case
  proof cases
    case full
    let ?p = "(take (body_size xs) (drop 8 xs), be_word (take 2 (drop 2 xs)))"
    have h: "8 \<le> length xs" using full(1) by simp
    from 1(2) full obtain ps' where ps': "deframe (drop (body_size xs + 8) xs) = Some (True, ps', r)" "ps = ?p # ps'"
      by (subst (asm) deframe.simps) auto
    have "deframe (xs @ ys) = map_option (\<lambda>(ok, qs, t). (ok, ?p # qs, t)) (deframe (drop (body_size xs + 8) xs @ ys))"
      using full header_front [OF h] by (subst deframe.simps) (simp add: not_less)
    also have "deframe (drop (body_size xs + 8) xs @ ys) = map_option (\<lambda>(ok, qs, t). (ok, ps' @ qs, t)) (deframe (r @ ys))"
      using 1(1) [OF full(1) _ full(3,4) ps'(1)] full(2) by simp
    finally show ?thesis by (simp add: option.map_comp comp_def case_prod_beta ps'(2))
  qed (use 1(2) in \<open>simp_all add: deframe.simps [of xs] option.map_ident_strong case_prod_beta\<close>)
qed

lemma deframe_prefix: "deframe (xs @ ys) = Some (True, ps, r) \<Longrightarrow> \<exists>qs t. deframe xs = Some (True, qs, t)"
proof (induction xs arbitrary: ps rule: deframe.induct)
  case (1 xs)
  show ?case
  proof (cases "length xs < 8")
    case True
    then show ?thesis by (simp add: deframe.simps [of xs])
  next
    case False
    then have h: "8 \<le> length xs" by simp
    from 1(2) False have g: "take 2 xs = [of_char CHR ''M'', of_char CHR ''L'']" "\<not> 2 ^ 32 \<le> body_size xs + 8"
      unfolding deframe.simps [of "xs @ ys"] header_front [OF h] by (auto split: if_splits)
    show ?thesis
    proof (cases "length xs < body_size xs + 8")
      case True
      with False g show ?thesis by (simp add: deframe.simps [of xs])
    next
      case full: False
      with 1(2) False g header_front [OF h] have "\<exists>ps'. deframe (drop (body_size xs + 8) xs @ ys) = Some (True, ps', r)"
        unfolding deframe.simps [of "xs @ ys"] by (auto split: if_splits)
      with 1(1) [OF False _ g(2) full] g(1) obtain qs t where "deframe (drop (body_size xs + 8) xs) = Some (True, qs, t)" by auto
      with False g full show ?thesis by (simp add: deframe.simps [of xs])
    qed
  qed
qed

lemma frame_length: "length (frame p) = length (fst p) + 8"
  by (simp add: frame_def)

lemma frame_header:
  "take 2 (frame p) = [of_char CHR ''M'', of_char CHR ''L'']" "be_word (take 2 (drop 2 (frame p))) = snd p"
  "length (fst p) < 2 ^ 32 \<Longrightarrow> body_size (frame p) = length (fst p)" "drop 8 (frame p) = fst p"
proof -
  have "drop 2 (frame p) = be_bytes 2 (snd p) @ be_bytes 4 (of_nat (length (fst p)) :: u32) @ fst p"
    by (simp add: frame_def)
  then show "be_word (take 2 (drop 2 (frame p))) = snd p" by (simp add: be_word_bytes)
  have "drop 4 (frame p) = be_bytes 4 (of_nat (length (fst p)) :: u32) @ fst p" by (simp add: frame_def)
  then show "body_size (frame p) = length (fst p)" if "length (fst p) < 2 ^ 32"
    using that by (simp add: body_size_def be_word_bytes unsigned_of_nat take_bit_nat_eq_self)
  show "take 2 (frame p) = [of_char CHR ''M'', of_char CHR ''L'']" by (simp add: frame_def)
  show "drop 8 (frame p) = fst p" by (simp add: frame_def)
qed

lemma deframe_frames:
  assumes "\<forall>p \<in> set ps. length (fst p) + 8 < 2 ^ 32"
  shows "deframe (concat (map frame ps) @ r) = map_option (\<lambda>(ok, qs, t). (ok, ps @ qs, t)) (deframe r)"
  using assms
proof (induction ps)
  case Nil
  show ?case by (simp add: option.map_ident_strong case_prod_beta)
next
  case (Cons p ps)
  let ?rest = "concat (map frame ps) @ r"
  let ?bs = "frame p @ ?rest"
  have len: "8 \<le> length (frame p)" by (simp add: frame_length)
  have b: "body_size ?bs = length (fst p)" using Cons.prems by (simp add: header_front(2) [OF len] frame_header(3))
  have t: "take 2 ?bs = [of_char CHR ''M'', of_char CHR ''L'']" "be_word (take 2 (drop 2 ?bs)) = snd p"
    by (simp_all only: header_front [OF len] frame_header)
  have d: "drop (length (fst p) + 8) ?bs = ?rest" "take (length (fst p)) (drop 8 ?bs) = fst p"
    using len by (simp_all add: frame_length frame_header(4))
  have l: "\<not> length ?bs < 8" "\<not> 2 ^ 32 \<le> length (fst p) + 8" "\<not> length ?bs < length (fst p) + 8"
    using Cons.prems by (simp_all add: frame_length)
  have "deframe ?bs = map_option (\<lambda>(ok, qs, t). (ok, p # qs, t)) (deframe ?rest)"
    unfolding deframe.simps [of ?bs] b t d using l by simp
  moreover have "deframe ?rest = map_option (\<lambda>(ok, qs, t). (ok, ps @ qs, t)) (deframe r)" using Cons by simp
  ultimately show ?case by (simp add: option.map_comp comp_def case_prod_beta)
qed

lemma deframe_partial:
  assumes "length (fst p) + 8 < 2 ^ 32" "k < length (frame p)"
  shows "deframe (take k (frame p)) = Some (True, [], take k (frame p))"
proof (cases "k < 8")
  case True
  then have "length (take k (frame p)) < 8" by simp
  then show ?thesis by (subst deframe.simps) (simp only: if_True)
next
  case False
  let ?bs = "take k (frame p)"
  have len: "8 \<le> length ?bs" using assms False by (simp add: frame_length)
  note h = header_front [OF this, of "drop k (frame p)", unfolded append_take_drop_id]
  have "take 2 ?bs = [of_char CHR ''M'', of_char CHR ''L'']" "body_size ?bs = length (fst p)"
    using h frame_header(1,3) [of p] assms(1) by simp_all
  moreover have "\<not> length ?bs < 8" "\<not> 2 ^ 32 \<le> length (fst p) + 8" "length ?bs < length (fst p) + 8"
    using assms len by (simp_all add: frame_length)
  ultimately show ?thesis by (subst deframe.simps) simp
qed

section \<open>The loop implements the format\<close>

definition pk_inv :: "PacketSocket \<Rightarrow> bool" where
  "pk_inv s \<longleftrightarrow> bm_inv (pk_mem s) \<and> mb_inv (pk_recv s) (pk_mem s)"

definition pending :: "PacketSocket \<Rightarrow> byte list" where
  "pending s = content (pk_recv s) (pk_mem s)"

lemma header_of_front:
  assumes "8 \<le> length bs"
  shows "is_valid (header_of big (take 8 bs)) \<longleftrightarrow> take 2 bs = [of_char CHR ''M'', of_char CHR ''L'']"
    and "DataSize big (header_of big (take 8 bs)) = Inr (be_word (take 4 (drop 4 bs)))"
    and "Flag big (header_of big (take 8 bs)) = Inr (be_word (take 2 (drop 2 bs)))"
proof -
  obtain a b cs where bs: "bs = a # b # cs" using assms by (cases bs; cases "tl bs") auto
  show "is_valid (header_of big (take 8 bs)) \<longleftrightarrow> take 2 bs = [of_char CHR ''M'', of_char CHR ''L'']"
    by (auto simp: is_valid_def header_of_def bs)
  have "take 4 (drop 4 (take 8 bs)) = take 4 (drop 4 bs)" "take 2 (drop 2 (take 8 bs)) = take 2 (drop 2 bs)"
    by (simp_all add: drop_take min_def)
  moreover have "length (take 4 (drop 4 bs)) = 4" "length (take 2 (drop 2 bs)) = 2" using assms by simp_all
  ultimately show "DataSize big (header_of big (take 8 bs)) = Inr (be_word (take 4 (drop 4 bs)))"
    "Flag big (header_of big (take 8 bs)) = Inr (be_word (take 2 (drop 2 bs)))"
    by (simp_all add: DataSize_def Flag_def header_of_def NetworkToHost_eq)
qed

text \<open>One turn of the loop that finds a complete packet: the bytes are taken and the packet is signalled.\<close>

lemma take_packet:
  assumes i: "pk_inv s" and n: "n \<le> length (pending s)"
  shows "\<exists>usr1 recv1 m2 usr2 m3 x. ReadBuffer n (fst (CreateMemBuffer (pk_mem s))) (pk_recv s) (snd (CreateMemBuffer (pk_mem s)))
       = Some (True, usr1, recv1, m2) \<and> ReadBytes 8 usr1 m2 = (x, usr2, m3) \<and> bm_inv m3 \<and> mb_inv recv1 m3 \<and>
     content recv1 m3 = drop n (pending s) \<and> content usr2 m3 = (if n < 8 then take n (pending s) else drop 8 (take n (pending s)))"
proof -
  let ?usr = "fst (CreateMemBuffer (pk_mem s))" and ?m1 = "snd (CreateMemBuffer (pk_mem s))"
  have m1: "bm_inv ?m1" "mb_inv (pk_recv s) ?m1" "mb_inv ?usr ?m1" "content (pk_recv s) ?m1 = pending s" "content ?usr ?m1 = []"
    "set (mb_blocks (pk_recv s)) \<inter> set (mb_blocks ?usr) = {}"
    using i by (auto simp: pk_inv_def pending_def CreateMemBuffer_def bm_inv_def mb_inv_def live_def bytes_of_def block_at_def)
  then have "n \<le> mb_size (pk_recv s)" using n by (simp add: mb_inv_def)
  from ReadBuffer_ok [OF m1(1,2,3,6) this] obtain usr1 recv1 m2 where
    rb: "ReadBuffer n ?usr (pk_recv s) ?m1 = Some (True, usr1, recv1, m2)" "bm_inv m2" "mb_inv recv1 m2" "mb_inv usr1 m2"
      "content usr1 m2 = take n (pending s)" "content recv1 m2 = drop n (pending s)"
      "set (mb_blocks recv1) \<inter> set (mb_blocks usr1) = {}"
    by (auto simp: m1)
  then have sz: "mb_size usr1 = n" using n by (simp add: mb_inv_def)
  show ?thesis
  proof (cases "n < 8")
    case True
    with rb sz show ?thesis by (auto simp: ReadBytes_def)
  next
    case False
    with sz have "8 \<le> mb_size usr1" by simp
    from ReadBytes_ok [OF rb(2,4) this] obtain x usr2 m3 where
      rd: "ReadBytes 8 usr1 m2 = (x, usr2, m3)" "bm_inv m3" "content usr2 m3 = drop 8 (take n (pending s))"
        "keeps (set (mb_blocks usr1)) m2 m3"
      by (auto simp: rb)
    have lv: "live m2 a \<and> a \<notin> set (mb_blocks usr1)" if "a \<in> set (mb_blocks recv1)" for a
      using rb(3,7) that by (auto simp: mb_inv_def)
    then have c: "content recv1 m3 = drop n (pending s)" using keeps_bytes [OF rd(4)] rb(6) by metis
    moreover have "mb_inv recv1 m3" using rb(3,6) lv c rd(4) by (auto simp: mb_inv_def keeps_def)
    ultimately show ?thesis using rb(1) rd False by auto
  qed
qed

definition pack_size :: "byte list \<Rightarrow> nat" where
  "pack_size bs = unat (be_word (take 4 (drop 4 bs)) + PACKET_HEADER_SIZE)"

lemma pack_size_small: "body_size bs + 8 < 2 ^ 32 \<Longrightarrow> pack_size bs = body_size bs + 8"
  by (simp add: pack_size_def body_size_def PACKET_HEADER_SIZE_def unat_word_ariths)

lemma loop_turn:
  assumes i: "pk_inv s" and small: "length (pending s) < 2 ^ 31"
  defines "bs \<equiv> pending s"
  shows "length bs < 8 \<Longrightarrow> analysis_turn big s = Some (Inl (Inr (True, s)))"
    and "8 \<le> length bs \<Longrightarrow> take 2 bs \<noteq> [of_char CHR ''M'', of_char CHR ''L''] \<Longrightarrow> analysis_turn big s = Some (Inl (Inr (False, s)))"
    and "8 \<le> length bs \<Longrightarrow> take 2 bs = [of_char CHR ''M'', of_char CHR ''L''] \<Longrightarrow> length bs < pack_size bs \<Longrightarrow>
       analysis_turn big s = Some (Inl (Inr (True, s)))"
    and "8 \<le> length bs \<Longrightarrow> take 2 bs = [of_char CHR ''M'', of_char CHR ''L''] \<Longrightarrow> pack_size bs \<le> length bs \<Longrightarrow>
       \<exists>s1. analysis_turn big s = Some (Inr s1) \<and> pk_inv s1 \<and> pending s1 = drop (pack_size bs) bs \<and>
         pk_open s1 = pk_open s \<and> pk_events s1 = pk_events s @
           [(if pack_size bs < 8 then take (pack_size bs) bs else drop 8 (take (pack_size bs) bs), be_word (take 2 (drop 2 bs)))]"
proof -
  have sz: "mb_size (pk_recv s) = length bs" using i by (simp add: pk_inv_def mb_inv_def bs_def pending_def)
  then have u: "unat (of_nat (mb_size (pk_recv s)) :: u32) = length bs"
    using small by (simp add: unsigned_of_nat take_bit_nat_eq_self bs_def)
  have lt: "(of_nat (mb_size (pk_recv s)) :: u32) < w \<longleftrightarrow> length bs < unat w" for w by (simp add: word_less_nat_alt u)
  have p8: "unat PACKET_HEADER_SIZE = 8" by (simp add: PACKET_HEADER_SIZE_def)
  have cp: "CopyBytes 0 8 (pk_recv s) (pk_mem s) = Some (take 8 bs)" if "8 \<le> length bs"
    using CopyBytes_ok [of "pk_recv s" "pk_mem s" 0 8] i small that sz by (simp add: pk_inv_def bs_def pending_def)
  show "analysis_turn big s = Some (Inl (Inr (True, s)))" if "length bs < 8"
    using that by (subst analysis_turn_def) (simp only: Let_def lt p8 if_True)
  show "analysis_turn big s = Some (Inl (Inr (False, s)))" if "8 \<le> length bs" "take 2 bs \<noteq> [of_char CHR ''M'', of_char CHR ''L'']"
    using that by (subst analysis_turn_def)
      (simp only: Let_def lt p8 not_less [symmetric] if_False cp [OF that(1)] option.case header_of_front(1) [OF that(1)] if_True not_False_eq_True)
  show "analysis_turn big s = Some (Inl (Inr (True, s)))"
    if h: "8 \<le> length bs" and "take 2 bs = [of_char CHR ''M'', of_char CHR ''L'']" "length bs < pack_size bs"
    using that by (subst analysis_turn_def) (simp add: lt p8 cp [OF h] header_of_front [OF h] Let_def flip: pack_size_def)
  show "\<exists>s1. analysis_turn big s = Some (Inr s1) \<and> pk_inv s1 \<and> pending s1 = drop (pack_size bs) bs \<and>
         pk_open s1 = pk_open s \<and> pk_events s1 = pk_events s @
           [(if pack_size bs < 8 then take (pack_size bs) bs else drop 8 (take (pack_size bs) bs), be_word (take 2 (drop 2 bs)))]"
    if h: "8 \<le> length bs" and ml: "take 2 bs = [of_char CHR ''M'', of_char CHR ''L'']" and le: "pack_size bs \<le> length bs"
  proof -
    obtain usr1 recv1 m2 usr2 m3 x where t: "ReadBuffer (pack_size bs) (fst (CreateMemBuffer (pk_mem s))) (pk_recv s)
        (snd (CreateMemBuffer (pk_mem s))) = Some (True, usr1, recv1, m2)" "ReadBytes 8 usr1 m2 = (x, usr2, m3)"
      "bm_inv m3" "mb_inv recv1 m3" "content recv1 m3 = drop (pack_size bs) bs"
      "content usr2 m3 = (if pack_size bs < 8 then take (pack_size bs) bs else drop 8 (take (pack_size bs) bs))"
      using take_packet [OF i, of "pack_size bs"] le unfolding bs_def by blast
    let ?s1 = "s\<lparr>pk_recv := recv1, pk_mem := m3, pk_events := pk_events s @ [(content usr2 m3, be_word (take 2 (drop 2 bs)))]\<rparr>"
    have "analysis_turn big s = Some (Inr ?s1)"
      by (subst analysis_turn_def) (use h le in \<open>simp add: lt p8 cp [OF h] header_of_front [OF h] ml Let_def
          case_prod_beta t(1,2) flip: pack_size_def\<close>)
    then show ?thesis using t by (intro exI [of _ ?s1]) (simp add: pk_inv_def pending_def)
  qed
qed

lemma loop_refines:
  "deframe bs = Some (ok, ps, r) \<Longrightarrow> pk_inv s \<Longrightarrow> pending s = bs \<Longrightarrow> length bs < 2 ^ 31 \<Longrightarrow>
     \<exists>s'. analysis_loop big s = Some (Inr (ok, s')) \<and> pk_inv s' \<and> pending s' = r \<and> pk_events s' = pk_events s @ ps \<and>
       pk_open s' = pk_open s"
proof (induction bs arbitrary: s ps rule: deframe.induct)
  case (1 bs)
  note turn = loop_turn [OF 1(3), unfolded 1(4), OF 1(5)]
  show ?case
  proof (cases "length bs < 8 \<or> take 2 bs \<noteq> [of_char CHR ''M'', of_char CHR ''L''] \<or> length bs < body_size bs + 8")
    case True
    with 1(2) have nw: "length bs < 8 \<or> take 2 bs \<noteq> [of_char CHR ''M'', of_char CHR ''L''] \<or> body_size bs + 8 < 2 ^ 32"
      by (subst (asm) deframe.simps) (auto split: if_splits)
    have d: "ps = []" "r = bs" "ok \<longleftrightarrow> length bs < 8 \<or> take 2 bs = [of_char CHR ''M'', of_char CHR ''L'']"
      using 1(2) True nw by (subst (asm) deframe.simps, auto split: if_splits)+
    have "analysis_loop big s = Some (Inr (ok, s))"
      using True nw turn(1-3) [of big] pack_size_small [of bs] d(3)
      by (subst analysis_loop.simps) (cases "length bs < 8"; cases "take 2 bs = [of_char CHR ''M'', of_char CHR ''L'']"; simp)
    with 1 d show ?thesis by simp
  next
    case False
    let ?p = "(take (body_size bs) (drop 8 bs), be_word (take 2 (drop 2 bs)))"
    from 1(2) False have nw: "body_size bs + 8 < 2 ^ 32" by (subst (asm) deframe.simps) (auto split: if_splits)
    with 1(2) False obtain ps' where ps': "deframe (drop (body_size bs + 8) bs) = Some (ok, ps', r)" "ps = ?p # ps'"
      by (subst (asm) deframe.simps) auto
    note n = pack_size_small [OF nw]
    obtain s1 where s1: "analysis_turn big s = Some (Inr s1)" "pk_inv s1" "pending s1 = drop (body_size bs + 8) bs"
      "pk_open s1 = pk_open s" "pk_events s1 = pk_events s @ [?p]"
      using turn(4) [of big] False by (auto simp: n drop_take not_less)
    have "length (drop (body_size bs + 8) bs) < 2 ^ 31" using 1(5) by simp
    with 1(1) [OF _ _ _ _ ps'(1) s1(2,3)] False nw s1 show ?thesis
      unfolding analysis_loop.simps [of big s] by (auto simp: ps'(2) not_less not_le)
  qed
qed

section \<open>Chunks\<close>

lemma chunk_buffered:
  assumes "pk_inv s" and len: "length bs < 2 ^ 32"
  shows "\<exists>mb1 m2. WriteBytes bs (fst (CreateMemBuffer (pk_mem s))) (snd (CreateMemBuffer (pk_mem s))) = Some (mb1, m2) \<and>
     pk_inv (s\<lparr>pk_mem := m2, pk_recv := AppendBuffer mb1 (pk_recv s)\<rparr>) \<and>
     pending (s\<lparr>pk_mem := m2, pk_recv := AppendBuffer mb1 (pk_recv s)\<rparr>) = pending s @ bs"
proof -
  let ?mb = "fst (CreateMemBuffer (pk_mem s))" and ?m1 = "snd (CreateMemBuffer (pk_mem s))"
  have m1: "bm_inv ?m1" "mb_inv (pk_recv s) ?m1" "mb_inv ?mb ?m1" "content (pk_recv s) ?m1 = pending s" "mb_blocks ?mb = []"
    using assms(1) by (auto simp: pk_inv_def pending_def CreateMemBuffer_def bm_inv_def mb_inv_def live_def bytes_of_def block_at_def)
  from WriteBytes_ok [OF m1(1,3) len] obtain mb1 m2 where w: "WriteBytes bs ?mb ?m1 = Some (mb1, m2)" "bm_inv m2"
    "mb_inv mb1 m2" "content mb1 m2 = bs" "keeps {} ?m1 m2" "fresh_ext ?mb ?m1 mb1"
    by (auto simp: write_outcome_def m1(5))
  have lv: "live ?m1 a" if "a \<in> set (mb_blocks (pk_recv s))" for a using m1(2) that by (simp add: mb_inv_def)
  then have c: "content (pk_recv s) m2 = pending s" using keeps_bytes [OF w(5)] m1(4) by (metis empty_iff)
  have "mb_inv (pk_recv s) m2" using m1(2,4) c lv w(5) by (auto simp: mb_inv_def keeps_def)
  moreover have "set (mb_blocks mb1) \<inter> set (mb_blocks (pk_recv s)) = {}"
    using w(6) lv by (auto simp: fresh_ext_def m1(5))
  ultimately have "mb_inv (AppendBuffer mb1 (pk_recv s)) m2 \<and> content (AppendBuffer mb1 (pk_recv s)) m2 = pending s @ bs"
    using AppendBuffer_content [OF w(3)] w(4) c by simp
  with w show ?thesis by (simp add: pk_inv_def pending_def)
qed

lemma chunk_step:
  assumes "pk_inv s" "pk_open s" "deframe (pending s @ bs) = Some (ok, ps, r)" "length (pending s @ bs) < 2 ^ 31"
  shows "\<exists>s'. chunk_arrives big bs s = Some (Inr s') \<and> pk_inv s' \<and> pending s' = r \<and> pk_events s' = pk_events s @ ps \<and>
     pk_open s' = ok"
proof -
  obtain mb1 m2 where c: "WriteBytes bs (fst (CreateMemBuffer (pk_mem s))) (snd (CreateMemBuffer (pk_mem s))) = Some (mb1, m2)"
    "pk_inv (s\<lparr>pk_mem := m2, pk_recv := AppendBuffer mb1 (pk_recv s)\<rparr>)"
    "pending (s\<lparr>pk_mem := m2, pk_recv := AppendBuffer mb1 (pk_recv s)\<rparr>) = pending s @ bs"
    using chunk_buffered [OF assms(1), of bs] assms(4) by auto
  from loop_refines [OF assms(3) c(2,3) assms(4), of big] obtain s' where
    "analysis_loop big (s\<lparr>pk_mem := m2, pk_recv := AppendBuffer mb1 (pk_recv s)\<rparr>) = Some (Inr (ok, s'))"
    "pk_inv s'" "pending s' = r" "pk_events s' = pk_events s @ ps" "pk_open s' = pk_open s" by auto
  then show ?thesis using c(1) assms(2)
    by (cases ok) (simp_all add: chunk_arrives_def OnAsyncSocketReadEvent_def AnalysisPacket_def case_prod_beta pk_inv_def pending_def)
qed

lemma deframe_rest: "deframe xs = Some (ok, ps, r) \<Longrightarrow> length r \<le> length xs"
proof (induction xs arbitrary: ps rule: deframe.induct)
  case (1 xs)
  have "length r \<le> length xs" if "deframe (drop (body_size xs + 8) xs) = Some (ok, ps', r)" "8 \<le> length xs"
    "take 2 xs = [of_char CHR ''M'', of_char CHR ''L'']" "body_size xs + 8 < 2 ^ 32" "body_size xs + 8 \<le> length xs" for ps'
    using 1(1) [OF _ _ _ _ that(1)] that(2-) by simp
  with 1(2) show ?case by (subst (asm) deframe.simps) (auto simp: not_less not_le split: if_splits)
qed

lemma deframe_settled: "deframe xs = Some (True, ps, r) \<Longrightarrow> deframe r = Some (True, [], r)"
  using deframe_append [of xs ps r "[]"] by (auto simp: map_option_case split: option.splits)

lemma chunks_deframe:
  "pk_inv s \<Longrightarrow> pk_open s \<Longrightarrow> deframe (pending s) = Some (True, [], pending s) \<Longrightarrow>
     deframe (pending s @ concat cs) = Some (True, ps, r) \<Longrightarrow> length (pending s @ concat cs) < 2 ^ 31 \<Longrightarrow>
     \<exists>s'. chunks_arrive big cs s = Some (Inr s') \<and> pk_inv s' \<and> pk_open s' \<and> pending s' = r \<and> pk_events s' = pk_events s @ ps"
proof (induction cs arbitrary: s ps)
  case (Cons c cs)
  have "deframe ((pending s @ c) @ concat cs) = Some (True, ps, r)" using Cons.prems(4) by simp
  from deframe_prefix [OF this] obtain qs t where q: "deframe (pending s @ c) = Some (True, qs, t)" by blast
  obtain s1 where s1: "chunk_arrives big c s = Some (Inr s1)" "pk_inv s1" "pending s1 = t" "pk_events s1 = pk_events s @ qs" "pk_open s1"
    using chunk_step [OF Cons.prems(1,2) q] Cons.prems(5) by auto
  from deframe_append [OF q, of "concat cs"] Cons.prems(4) obtain ps' where
    p: "deframe (pending s1 @ concat cs) = Some (True, ps', r)" "ps = qs @ ps'" by (auto simp: s1(3))
  have "length (pending s1 @ concat cs) < 2 ^ 31" using deframe_rest [OF q] Cons.prems(5) by (simp add: s1(3))
  from Cons.IH [OF s1(2,5) _ p(1) this] deframe_settled [OF q] s1 p(2) show ?case by auto
qed simp

section \<open>Properties\<close>

definition pk_start :: "BlockManager \<Rightarrow> PacketSocket" where
  "pk_start m = \<lparr>pk_recv = fst (CreateMemBuffer m), pk_mem = snd (CreateMemBuffer m), pk_events = [], pk_open = True\<rparr>"

lemma pk_start_ok: "bm_inv m \<Longrightarrow> pk_inv (pk_start m) \<and> pending (pk_start m) = [] \<and> pk_open (pk_start m) \<and> pk_events (pk_start m) = []"
  by (simp add: pk_start_def pk_inv_def pending_def CreateMemBuffer_def mb_inv_def bm_inv_def)

lemma frame_le: "p \<in> set ps \<Longrightarrow> length (frame p) \<le> length (concat (map frame ps))"
  by (induction ps) auto

text \<open>C5. However the stream of packets is cut into chunks by the network, the socket signals exactly the packets
  that have arrived completely, with their flags and in order, keeps the bytes of the incomplete one, and stays
  open: for streams below 2 GB, on hosts of either byte order.\<close>

theorem packets_reassembled:
  assumes "bm_inv m" and "concat cs = concat (map frame ps) @ take k (frame q)" and "k < length (frame q)"
    and "length (concat cs) < 2 ^ 31" and "length (fst q) < 2 ^ 31"
  shows "\<exists>s. chunks_arrive big cs (pk_start m) = Some (Inr s) \<and> pk_events s = ps \<and> pending s = take k (frame q) \<and> pk_open s"
proof -
  have "length (fst p) + 8 < 2 ^ 32" if "p \<in> set ps" for p
    using frame_le [OF that] assms(2,4) by (simp add: frame_length)
  then have "deframe (concat cs) = Some (True, ps, take k (frame q))"
    using deframe_frames [of ps "take k (frame q)"] deframe_partial [of q k] assms by simp
  then show ?thesis using chunks_deframe [of "pk_start m" cs ps "take k (frame q)" big] pk_start_ok [OF assms(1)] assms(4)
    by (auto simp: deframe.simps [of "[]"])
qed

lemma frame_samples: "frame ([9, 8], 5) = [77, 76, 0, 5, 0, 0, 0, 2, 9, 8]" "frame ([], 0) = [77, 76, 0, 0, 0, 0, 0, 0]"
  by code_simp+

theorem packets_reassembled_witness:
  "\<exists>s. chunks_arrive False [[77, 76, 0], [5, 0, 0, 0, 2, 9], [8, 77]] (pk_start bm_start) = Some (Inr s) \<and>
     pk_events s = [([9, 8], 5)] \<and> pending s = [77] \<and> pk_open s"
  using packets_reassembled [OF bm_start_inv, of "[[77, 76, 0], [5, 0, 0, 0, 2, 9], [8, 77]]" "[([9, 8], 5)]" 1 "([], 0)" False]
  by (simp add: frame_samples)

text \<open>C34. A stream with complete packets followed by eight or more bytes that do not start with the mark: the packets
  before it are signalled and the connection is closed.\<close>

theorem malformed_stream_closes:
  assumes "bm_inv m" and "length (concat (map frame ps) @ r) < 2 ^ 31"
    and "8 \<le> length r" and "take 2 r \<noteq> [of_char CHR ''M'', of_char CHR ''L'']"
  shows "\<exists>s. chunk_arrives big (concat (map frame ps) @ r) (pk_start m) = Some (Inr s) \<and> pk_events s = ps \<and> \<not> pk_open s"
proof -
  have "length (fst p) + 8 < 2 ^ 32" if "p \<in> set ps" for p using frame_le [OF that] assms(2) by (simp add: frame_length)
  then have "deframe (concat (map frame ps) @ r) = Some (False, ps, r)"
    using deframe_frames [of ps r] assms(3,4) by (simp add: deframe.simps [of r])
  then show ?thesis using chunk_step [of "pk_start m" "concat (map frame ps) @ r" False ps r big] pk_start_ok [OF assms(1)] assms(2) by auto
qed

theorem malformed_stream_closes_witness:
  "\<exists>s. chunk_arrives True [77, 76, 0, 5, 0, 0, 0, 2, 9, 8, 1, 2, 3, 4, 5, 6, 7, 8] (pk_start bm_start) = Some (Inr s) \<and>
     pk_events s = [([9, 8], 5)] \<and> \<not> pk_open s"
  using malformed_stream_closes [OF bm_start_inv, of "[([9, 8], 5)]" "[1, 2, 3, 4, 5, 6, 7, 8]" True]
  by (simp add: frame_samples)

lemma loop_hangs:
  assumes "pk_inv s" "length (pending s) < 2 ^ 31" "8 \<le> length (pending s)"
    "take 2 (pending s) = [of_char CHR ''M'', of_char CHR ''L'']" "pack_size (pending s) = 0"
  shows "analysis_loop big s = None"
proof -
  let ?stuck = "\<lambda>s. pk_inv s \<and> length (pending s) < 2 ^ 31 \<and> 8 \<le> length (pending s) \<and>
    take 2 (pending s) = [of_char CHR ''M'', of_char CHR ''L''] \<and> pack_size (pending s) = 0"
  have "\<not> ?stuck s" if "analysis_loop big s = Some y" for y
  proof (rule analysis_loop.raw_induct [where P = "\<lambda>big s y. \<not> ?stuck s", rotated, OF that], rule notI)
    fix rec big s y
    assume rec: "\<And>big s y. rec big s = Some y \<Longrightarrow> \<not> ?stuck s"
      and turn: "(case analysis_turn big s of None \<Rightarrow> None | Some (Inl r) \<Rightarrow> Some r | Some (Inr s1) \<Rightarrow> rec big s1) = Some y"
      and st: "?stuck s"
    obtain s1 where "analysis_turn big s = Some (Inr s1)" "pk_inv s1" "pending s1 = pending s"
      using loop_turn(4) [of s big] st by auto
    with rec [of big s1 y] turn st show False by simp
  qed
  with assms show ?thesis by (cases "analysis_loop big s") auto
qed

text \<open>C35. A header whose length field is \<open>2 ^ 32 - 8\<close> makes the size of the packet wrap to 0: the receiver signals an
  empty packet and finds the same header again, so the handler of the read event never returns.\<close>

theorem oversized_packet_hangs:
  assumes "bm_inv m" and "length rest + 8 < 2 ^ 31"
  shows "chunk_arrives big ([77, 76, a, b, 255, 255, 255, 248] @ rest) (pk_start m) = None"
proof -
  let ?bs = "[77, 76, a, b, 255, 255, 255, 248] @ rest"
  note i = pk_start_ok [OF assms(1)]
  obtain mb1 m2 where c: "WriteBytes ?bs (fst (CreateMemBuffer (pk_mem (pk_start m)))) (snd (CreateMemBuffer (pk_mem (pk_start m)))) = Some (mb1, m2)"
    "pk_inv ((pk_start m)\<lparr>pk_mem := m2, pk_recv := AppendBuffer mb1 (pk_recv (pk_start m))\<rparr>)"
    "pending ((pk_start m)\<lparr>pk_mem := m2, pk_recv := AppendBuffer mb1 (pk_recv (pk_start m))\<rparr>) = ?bs"
    using chunk_buffered [of "pk_start m" ?bs] i assms(2) by auto
  have "(be_word [255, 255, 255, 248] :: u32) + PACKET_HEADER_SIZE = 0" by code_simp
  then have "pack_size ?bs = 0" by (simp add: pack_size_def numeral_eq_Suc)
  then have "analysis_loop big ((pk_start m)\<lparr>pk_mem := m2, pk_recv := AppendBuffer mb1 (pk_recv (pk_start m))\<rparr>) = None"
    using loop_hangs [OF c(2), of big] assms(2) unfolding c(3) by simp
  then show ?thesis using c(1) i
    by (simp add: chunk_arrives_def OnAsyncSocketReadEvent_def AnalysisPacket_def case_prod_beta)
qed

theorem oversized_packet_hangs_witness:
  "chunk_arrives False [77, 76, 0, 0, 255, 255, 255, 248] (pk_start bm_start) = None"
  using oversized_packet_hangs [OF bm_start_inv, of "[]" False 0 0] by simp

text \<open>Both writers put the same bytes on the wire.\<close>

lemma new_header_bytes: "\<exists>h. new_header big flag n = Inr h \<and>
    header_bytes big h = [of_char CHR ''M'', of_char CHR ''L''] @ be_bytes 2 flag @ be_bytes 4 n"
  by (simp add: new_header_def HostToNetwork_eq header_bytes_def host_bytes_word)

lemma header_length: "new_header big flag n = Inr h \<Longrightarrow> length (header_bytes big h) = 8"
  using new_header_bytes [of big flag n] by auto

lemma write_bytes_frame:
  assumes "bm_inv m" and len: "length data < 2 ^ 32"
  shows "\<exists>mb m'. AsyncWritePacket_bytes big True data flag m = Inr (Some (mb, m')) \<and> mb_inv mb m' \<and>
     content mb m' = frame (data, flag)"
proof -
  let ?c = "CreateMemBuffer m"
  obtain h where h: "new_header big flag (of_nat (length data)) = Inr h"
    "header_bytes big h = [of_char CHR ''M'', of_char CHR ''L''] @ be_bytes 2 flag @ be_bytes 4 (of_nat (length data) :: u32)"
    using new_header_bytes by blast
  have c: "bm_inv (snd ?c)" "mb_inv (fst ?c) (snd ?c)" "content (fst ?c) (snd ?c) = []"
    using create_inv [OF assms(1)] by (simp_all add: mbs_inv_def mbs_content_def)
  from WriteBytes_ok [OF c(1,2), of "header_bytes big h"] header_length [OF h(1)] obtain mb1 m2 where
    w: "WriteBytes (header_bytes big h) (fst ?c) (snd ?c) = Some (mb1, m2)" "bm_inv m2" "mb_inv mb1 m2" "content mb1 m2 = header_bytes big h"
    by (auto simp: write_outcome_def c(3))
  from WriteBytes_ok [OF w(2,3) len] w h show ?thesis
    by (cases "data = []") (auto simp: AsyncWritePacket_bytes_def case_prod_beta frame_def write_outcome_def)
qed

lemma write_buffer_frame:
  assumes i: "bm_inv m" and b: "mb_inv buffer m"
  shows "\<exists>mb m'. AsyncWritePacket big buffer flag m = Inr (mb, m') \<and> mb_inv mb m' \<and>
     content mb m' = frame (content buffer m, flag) \<and> content buffer m' = content buffer m"
proof -
  let ?c = "CreateMemBuffer m"
  obtain h where h: "new_header big flag (of_nat (mb_size buffer)) = Inr h"
    "header_bytes big h = [of_char CHR ''M'', of_char CHR ''L''] @ be_bytes 2 flag @ be_bytes 4 (of_nat (mb_size buffer) :: u32)"
    using new_header_bytes by blast
  have c: "bm_inv (snd ?c)" "mb_inv buffer (snd ?c)" "content buffer (snd ?c) = content buffer m" "mb_blocks (fst ?c) = []" "mb_size (fst ?c) = 0"
    using i b by (auto simp: CreateMemBuffer_def bm_inv_def mb_inv_def live_def bytes_of_def block_at_def)
  obtain a m2 where t: "TakeBlock (snd ?c) = (a, m2)" by (cases "TakeBlock (snd ?c)")
  have f: "bm_inv m2" "live m2 a" "\<not> live (snd ?c) a" "bk_buffer (block_at m2 a) = []" "keeps {} (snd ?c) m2"
    using TakeBlock_fresh [OF c(1) t] by (auto simp: fresh_block_def)
  define blk where "blk = snd (blk_WriteBytes (header_bytes big h) (block_at m2 a))"
  have blk: "bk_buffer blk = header_bytes big h"
    using header_length [OF h(1)] f(4) by (simp add: blk_def blk_WriteBytes_def DEFAULT_BLOCK_SIZE_def)
  define m3 where "m3 = put_block a blk m2"
  have m3: "bm_inv m3" "keeps {a} m2 m3" "live m3 a" "block_at m3 a = blk"
    using put_block_ok [OF f(1,2), of blk] blk header_length [OF h(1)] f(2) by (auto simp: m3_def DEFAULT_BLOCK_SIZE_def)
  have lv: "live (snd ?c) x" "x \<noteq> a" if "x \<in> set (mb_blocks buffer)" for x using c(2) f(3) that by (auto simp: mb_inv_def)
  have k: "keeps {a} (snd ?c) m3" using keeps_trans [OF f(5) m3(2)] by simp
  then have cb: "content buffer m3 = content buffer m" using keeps_bytes [OF k] lv c(3) by (metis singletonD)
  have mb: "mb_inv buffer m3" using c(2,3) cb lv k by (auto simp: mb_inv_def keeps_def)
  have s: "mb_inv (AppendBlock m3 a (fst ?c)) m3" "content (AppendBlock m3 a (fst ?c)) m3 = header_bytes big h"
      "mb_blocks (AppendBlock m3 a (fst ?c)) = [a]"
    using m3 blk c(4,5) by (auto simp: AppendBlock_def mb_inv_def)
  have "set (mb_blocks buffer) \<inter> set (mb_blocks (AppendBlock m3 a (fst ?c))) = {}" using lv s(3) by auto
  from AppendBuffer_content [OF mb s(1) this] have
    "mb_inv (AppendBuffer buffer (AppendBlock m3 a (fst ?c))) m3 \<and>
     content (AppendBuffer buffer (AppendBlock m3 a (fst ?c))) m3 = frame (content buffer m, flag)"
    using b by (simp add: s(2) cb h(2) frame_def mb_inv_def)
  moreover have "AsyncWritePacket big buffer flag m = Inr (AppendBuffer buffer (AppendBlock m3 a (fst ?c)), m3)"
    by (simp add: AsyncWritePacket_def h(1) case_prod_beta t m3_def blk_def Let_def)
  ultimately show ?thesis using cb by auto
qed

text \<open>Both overloads of \<open>AsyncWritePacket\<close> hand the socket a buffer whose content is the framed message (with
  the size cut to 32 bits); the shared blocks of the message are not changed.\<close>

theorem AsyncWritePacket_frames:
  assumes "bm_inv m" and "mb_inv buffer m" and "length data < 2 ^ 32"
  shows "(\<exists>mb m'. AsyncWritePacket big buffer flag m = Inr (mb, m') \<and> mb_inv mb m' \<and>
       content mb m' = frame (content buffer m, flag) \<and> content buffer m' = content buffer m) \<and>
     (\<exists>mb m'. AsyncWritePacket_bytes big True data flag m = Inr (Some (mb, m')) \<and> mb_inv mb m' \<and>
       content mb m' = frame (data, flag))"
  using write_buffer_frame [OF assms(1,2)] write_bytes_frame [OF assms(1,3)] by blast

theorem AsyncWritePacket_frames_witness:
  "\<exists>mb m'. AsyncWritePacket False \<lparr>mb_size = 5, mb_blocks = [1, 2]\<rparr> 7 bm_sample = Inr (mb, m') \<and>
     content mb m' = frame (content \<lparr>mb_size = 5, mb_blocks = [1, 2]\<rparr> bm_sample, 7)"
  using AsyncWritePacket_frames [OF bm_sample_inv(1,2), of "[]" False 7] by auto

end
