(* ===== verification/Message_Queue.thy ===== *)
theory Message_Queue
  imports Fifo_Spec "HOL-Library.Multiset"
begin

text \<open>
  The event loop's message queue, \<open>lib_bsp/eventservice/event/messagequeue.cpp\<close>, with the clock arithmetic of
  \<open>base/timeutils.cpp\<close>. The standard library's priority queue is a list kept in the order of
  \<open>DelayedMessage::operator<\<close>, greatest first. The socket server's \<open>Wait\<close> and the clock are the
  environment of \<open>Get\<close>: for each wait, whether it succeeded, the time after it, and what other threads did
  to the queue meanwhile. Handlers and message data are identified by numbers.
\<close>

section \<open>Time\<close>

definition TimeDiff32 :: "u32 \<Rightarrow> u32 \<Rightarrow> int" where
  "TimeDiff32 later earlier = sint (later - earlier)"

definition TimeIsLater :: "u32 \<Rightarrow> u32 \<Rightarrow> bool" where
  "TimeIsLater earlier later =
     (let diff = sint (later - earlier) in diff > 0 \<and> (word_of_int diff :: u32) < 0x80000000)"

text \<open>\<open>TimeMillis()\<close> is a 64-bit count; \<open>Time()\<close> is its low half.\<close>

definition Time32 :: "int \<Rightarrow> u32" where
  "Time32 millis = word_of_int millis"

definition TimeAfter :: "int \<Rightarrow> int \<Rightarrow> int" where
  "TimeAfter millis elapsed = millis + elapsed"

definition TimeUntil :: "int \<Rightarrow> int \<Rightarrow> int" where
  "TimeUntil millis later = later - millis"

section \<open>Messages\<close>

record Message =
  ms_phandler :: "nat option"
  ms_message_id :: u32
  ms_pdata :: "nat option"
  ms_ts_sensitive :: u32

definition MQID_ANY :: u32 where "MQID_ANY = - 1"
definition MQID_DISPOSE :: u32 where "MQID_DISPOSE = - 2"

definition Match :: "Message \<Rightarrow> nat option \<Rightarrow> u32 \<Rightarrow> bool" where
  "Match msg handler mid \<longleftrightarrow>
     (handler = None \<or> handler = ms_phandler msg) \<and> (mid = MQID_ANY \<or> mid = ms_message_id msg)"

record DelayedMessage =
  dm_cmsDelay :: int
  dm_msTrigger :: u32
  dm_num :: u32
  dm_msg :: Message

text \<open>\<open>operator<\<close>: the lesser message is the one to be handled later.\<close>

definition dm_less :: "DelayedMessage \<Rightarrow> DelayedMessage \<Rightarrow> bool" where
  "dm_less a b \<longleftrightarrow> dm_msTrigger b < dm_msTrigger a \<or> (dm_msTrigger b = dm_msTrigger a \<and> dm_num b < dm_num a)"

section \<open>The queue\<close>

record MessageQueue =
  mq_fStop :: bool
  mq_fPeekKeep :: bool
  mq_msgPeek :: Message
  mq_active :: bool
  mq_msgq :: "Message list"
  mq_dmsgq :: "DelayedMessage list"
  mq_dmsgq_next_num :: u32
  mq_msgq_in :: u32
  mq_msgq_out :: u32

definition empty_message :: Message where
  "empty_message = \<lparr>ms_phandler = None, ms_message_id = 0, ms_pdata = None, ms_ts_sensitive = 0\<rparr>"

definition mq_new :: MessageQueue where
  "mq_new = \<lparr>mq_fStop = False, mq_fPeekKeep = False, mq_msgPeek = empty_message, mq_active = False, mq_msgq = [],
     mq_dmsgq = [], mq_dmsgq_next_num = 0, mq_msgq_in = 0, mq_msgq_out = 0\<rparr>"

definition Quit :: "MessageQueue \<Rightarrow> MessageQueue" where
  "Quit q = q\<lparr>mq_fStop := True\<rparr>"

definition Restart :: "MessageQueue \<Rightarrow> MessageQueue" where
  "Restart q = q\<lparr>mq_fStop := False\<rparr>"

definition kMaxMsgLatency :: u32 where "kMaxMsgLatency = 150"

definition Post :: "u32 \<Rightarrow> nat option \<Rightarrow> u32 \<Rightarrow> nat option \<Rightarrow> bool \<Rightarrow> MessageQueue \<Rightarrow> MessageQueue" where
  "Post now phandler mid pdata time_sensitive q =
     (if mq_fStop q then q
      else
        let msg = \<lparr>ms_phandler = phandler, ms_message_id = mid, ms_pdata = pdata,
                   ms_ts_sensitive = (if time_sensitive then now + kMaxMsgLatency else 0)\<rparr>
        in q\<lparr>mq_active := True, mq_msgq := mq_msgq q @ [msg], mq_msgq_in := mq_msgq_in q + 1\<rparr>)"

fun pq_push :: "DelayedMessage \<Rightarrow> DelayedMessage list \<Rightarrow> DelayedMessage list" where
  "pq_push d [] = [d]"
| "pq_push d (e # es) = (if dm_less e d then d # e # es else e # pq_push d es)"

definition DoDelayPost :: "int \<Rightarrow> u32 \<Rightarrow> nat option \<Rightarrow> u32 \<Rightarrow> nat option \<Rightarrow> MessageQueue \<Rightarrow> MessageQueue" where
  "DoDelayPost cmsDelay tstamp phandler mid pdata q =
     (if mq_fStop q then q
      else
        let msg = \<lparr>ms_phandler = phandler, ms_message_id = mid, ms_pdata = pdata, ms_ts_sensitive = 0\<rparr>;
            dmsg = \<lparr>dm_cmsDelay = cmsDelay, dm_msTrigger = tstamp, dm_num = mq_dmsgq_next_num q, dm_msg = msg\<rparr>
        in q\<lparr>mq_active := True, mq_dmsgq := pq_push dmsg (mq_dmsgq q), mq_dmsgq_next_num := mq_dmsgq_next_num q + 1\<rparr>)"

definition PostDelayed :: "int \<Rightarrow> int \<Rightarrow> nat option \<Rightarrow> u32 \<Rightarrow> nat option \<Rightarrow> MessageQueue \<Rightarrow> MessageQueue" where
  "PostDelayed millis cmsDelay = DoDelayPost cmsDelay (word_of_int (TimeAfter millis cmsDelay))"

definition PostAt :: "int \<Rightarrow> u32 \<Rightarrow> nat option \<Rightarrow> u32 \<Rightarrow> nat option \<Rightarrow> MessageQueue \<Rightarrow> MessageQueue" where
  "PostAt millis tstamp = DoDelayPost (sint (word_of_int (TimeUntil millis (uint tstamp)) :: u32)) tstamp"

section \<open>Get and Peek\<close>

text \<open>The first pass: due messages move to the queue; the wait until the next one, \<open>kForever = -1\<close> for none.\<close>

fun move_due :: "u32 \<Rightarrow> DelayedMessage list \<Rightarrow> Message list \<times> DelayedMessage list \<times> int" where
  "move_due now [] = ([], [], - 1)"
| "move_due now (d # ds) =
     (if TimeIsLater now (dm_msTrigger d) then ([], d # ds, TimeDiff32 (dm_msTrigger d) now)
      else let (ms, rest, nxt) = move_due now ds in (dm_msg d # ms, rest, nxt))"

text \<open>Pulling: dispose messages are dropped. The number of messages taken and the first that is not dropped.\<close>

fun pull :: "Message list \<Rightarrow> nat \<times> Message option \<times> Message list" where
  "pull [] = (0, None, [])"
| "pull (m # ms) =
     (if ms_message_id m = MQID_DISPOSE then let (n, r, rest) = pull ms in (Suc n, r, rest)
      else (1, Some m, ms))"

definition get_pass :: "u32 \<Rightarrow> MessageQueue \<Rightarrow> Message option \<times> int \<times> MessageQueue" where
  "get_pass now q =
     (let (ms, rest, nxt) = move_due now (mq_dmsgq q);
          (n, r, left) = pull (mq_msgq q @ ms)
      in (r, nxt, q\<lparr>mq_dmsgq := rest, mq_msgq := left, mq_msgq_in := mq_msgq_in q + of_nat (length ms),
                   mq_msgq_out := mq_msgq_out q + of_nat n\<rparr>))"

record wait_event =
  we_ok :: bool
  we_time :: u32
  we_others :: "MessageQueue \<Rightarrow> MessageQueue"

datatype get_result = StillWaiting | GotNothing | Got Message

text \<open>
  The outer loop: one element of the environment per \<open>Wait\<close>. The wait time asked for is recorded by
  \<open>next_wait\<close>; it does not influence the state.
\<close>

definition next_wait :: "int \<Rightarrow> int \<Rightarrow> int \<Rightarrow> int" where
  "next_wait cmsWait cmsElapsed cmsDelayNext =
     (if cmsWait = - 1 then cmsDelayNext
      else let n = max 0 (cmsWait - cmsElapsed)
           in if cmsDelayNext \<noteq> - 1 \<and> cmsDelayNext < n then cmsDelayNext else n)"

fun get_loop :: "int \<Rightarrow> u32 \<Rightarrow> u32 \<Rightarrow> wait_event list \<Rightarrow> MessageQueue \<Rightarrow> get_result \<times> MessageQueue" where
  "get_loop cmsWait msStart msCurrent env q =
     (case get_pass msCurrent q of
        (Some m, _, q1) \<Rightarrow> (Got m, q1)
      | (None, _, q1) \<Rightarrow>
          if mq_fStop q1 then (GotNothing, q1)
          else (case env of
                  [] \<Rightarrow> (StillWaiting, q1)
                | w # env' \<Rightarrow>
                    let q2 = we_others w q1
                    in if \<not> we_ok w then (GotNothing, q2)
                       else if cmsWait \<noteq> - 1 \<and> TimeDiff32 (we_time w) msStart \<ge> cmsWait then (GotNothing, q2)
                       else get_loop cmsWait msStart (we_time w) env' q2))"

declare get_loop.simps [simp del]

definition mqGet :: "int \<Rightarrow> u32 \<Rightarrow> wait_event list \<Rightarrow> MessageQueue \<Rightarrow> get_result \<times> MessageQueue" where
  "mqGet cmsWait now env q =
     (if mq_fPeekKeep q then (Got (mq_msgPeek q), q\<lparr>mq_fPeekKeep := False\<rparr>)
      else get_loop cmsWait now now env q)"

definition mqPeek :: "int \<Rightarrow> u32 \<Rightarrow> wait_event list \<Rightarrow> MessageQueue \<Rightarrow> get_result \<times> MessageQueue" where
  "mqPeek cmsWait now env q =
     (if mq_fPeekKeep q then (Got (mq_msgPeek q), q)
      else (case mqGet cmsWait now env q of
              (Got m, q1) \<Rightarrow> (Got m, q1\<lparr>mq_msgPeek := m, mq_fPeekKeep := True\<rparr>)
            | (r, q1) \<Rightarrow> (r, q1)))"

section \<open>Other operations\<close>

definition GetDelay :: "int \<Rightarrow> MessageQueue \<Rightarrow> int" where
  "GetDelay millis q =
     (if mq_msgq q \<noteq> [] then 0
      else case mq_dmsgq q of
             d # _ \<Rightarrow>
               let delay = TimeUntil millis (uint (dm_msTrigger d))
               in sint (word_of_int (if delay < 0 then 0 else delay) :: u32)
           | [] \<Rightarrow> - 1)"

definition mq_size :: "MessageQueue \<Rightarrow> nat" where
  "mq_size q = length (mq_msgq q) + length (mq_dmsgq q) + (if mq_fPeekKeep q then 1 else 0)"

text \<open>
  \<open>Clear\<close> and the messages it removed. The delayed ones are listed in the order of the queue here; the
  code lists them in the order of the heap's array, which nothing relies on.
\<close>

definition mqClear :: "nat option \<Rightarrow> u32 \<Rightarrow> MessageQueue \<Rightarrow> Message list \<times> MessageQueue" where
  "mqClear phandler mid q =
     (let hit = (\<lambda>m. Match m phandler mid);
          peeked = mq_fPeekKeep q \<and> hit (mq_msgPeek q)
      in ((if peeked then [mq_msgPeek q] else []) @ filter hit (mq_msgq q) @
            map dm_msg (filter (\<lambda>d. hit (dm_msg d)) (mq_dmsgq q)),
          q\<lparr>mq_fPeekKeep := (if peeked then False else mq_fPeekKeep q),
            mq_msgq := filter (\<lambda>m. \<not> hit m) (mq_msgq q),
            mq_dmsgq := filter (\<lambda>d. \<not> hit (dm_msg d)) (mq_dmsgq q)\<rparr>))"

text \<open>The manager: the registered queues, \<open>None\<close> while no instance exists.\<close>

definition mgr_Add :: "nat \<Rightarrow> nat list option \<Rightarrow> nat list option" where
  "mgr_Add k mgr = Some ((case mgr of None \<Rightarrow> [] | Some ks \<Rightarrow> ks) @ [k])"

definition mgr_Remove :: "nat \<Rightarrow> nat list option \<Rightarrow> nat list option" where
  "mgr_Remove k mgr =
     (case mgr of None \<Rightarrow> None | Some ks \<Rightarrow> let r = remove1 k ks in if r = [] then None else Some r)"

definition mgr_Clear :: "nat option \<Rightarrow> nat list option \<Rightarrow> (nat \<Rightarrow> MessageQueue) \<Rightarrow> (nat \<Rightarrow> MessageQueue)" where
  "mgr_Clear handler mgr qs =
     (case mgr of None \<Rightarrow> qs | Some ks \<Rightarrow> fold (\<lambda>k qs. qs(k := snd (mqClear handler MQID_ANY (qs k)))) ks qs)"


section \<open>Order of the delayed messages\<close>

definition dq_sorted :: "DelayedMessage list \<Rightarrow> bool" where
  "dq_sorted = sorted_wrt (\<lambda>a b. \<not> dm_less a b)"

lemma dm_less_trans: "\<not> dm_less a b \<Longrightarrow> \<not> dm_less b c \<Longrightarrow> \<not> dm_less a c"
  by (auto simp: dm_less_def)

lemma dm_less_asym: "dm_less a b \<Longrightarrow> \<not> dm_less b a"
  by (auto simp: dm_less_def)

lemma pq_push_set [simp]: "set (pq_push d ds) = insert d (set ds)"
  by (induction ds) auto

lemma pq_push_split: "\<exists>xs ys. pq_push d ds = xs @ d # ys \<and> ds = xs @ ys"
proof (induction ds)
  case (Cons e es)
  then obtain xs ys where "pq_push d es = xs @ d # ys" "es = xs @ ys" by blast
  then have "\<not> dm_less e d \<Longrightarrow> pq_push d (e # es) = (e # xs) @ d # ys \<and> e # es = (e # xs) @ ys" by simp
  moreover have "dm_less e d \<Longrightarrow> pq_push d (e # es) = [] @ d # e # es" by simp
  ultimately show ?case by (metis append_Nil)
qed simp

lemma pq_push_sorted: "dq_sorted ds \<Longrightarrow> dq_sorted (pq_push d ds)"
proof (induction ds)
  case (Cons e es)
  then show ?case
    using dm_less_asym [of e d] dm_less_trans [of d e] by (auto simp: dq_sorted_def)
qed (simp add: dq_sorted_def)

section \<open>What a client sees\<close>

text \<open>
  The abstract queue: whether it is stopped, the message kept by \<open>Peek\<close>, the messages that are ready, and the delayed ones
  with their trigger times, which are those of a clock that does not wrap. A delayed message goes behind those that
  trigger no later. \<open>Get\<close> and \<open>Peek\<close> first make the delayed messages ready whose time has come, unless a message was kept.
  Messages of the kind \<open>MQID_DISPOSE\<close> only delete their data and are never returned.
\<close>

record queue_spec =
  sq_stop :: bool
  sq_kept :: "Message option"
  sq_ready :: "Message list"
  sq_delayed :: "(int \<times> Message) list"

datatype queue_op =
    Op_post u32 "nat option" u32 "nat option" bool
  | Op_delayed int int "nat option" u32 "nat option"
  | Op_get int nat
  | Op_peek int nat
  | Op_clear "nat option" u32
  | Op_quit
  | Op_restart

definition shown :: "Message \<Rightarrow> bool" where
  "shown m \<longleftrightarrow> ms_message_id m \<noteq> MQID_DISPOSE"

definition spec_insert :: "int \<times> Message \<Rightarrow> (int \<times> Message) list \<Rightarrow> (int \<times> Message) list" where
  "spec_insert x ys = takeWhile (\<lambda>y. fst y \<le> fst x) ys @ x # dropWhile (\<lambda>y. fst y \<le> fst x) ys"

definition spec_collect :: "int \<Rightarrow> queue_spec \<Rightarrow> queue_spec" where
  "spec_collect now a = a\<lparr>sq_ready := sq_ready a @ filter shown (map snd (filter (\<lambda>y. fst y \<le> now) (sq_delayed a))),
     sq_delayed := filter (\<lambda>y. now < fst y) (sq_delayed a)\<rparr>"

definition spec_get :: "int \<Rightarrow> queue_spec \<Rightarrow> get_result \<times> queue_spec" where
  "spec_get now a =
     (case sq_kept a of
        Some m \<Rightarrow> (Got m, a\<lparr>sq_kept := None\<rparr>)
      | None \<Rightarrow> let b = spec_collect now a
                in case sq_ready b of [] \<Rightarrow> (GotNothing, b) | m # ms \<Rightarrow> (Got m, b\<lparr>sq_ready := ms\<rparr>))"

fun spec_op :: "queue_op \<Rightarrow> queue_spec \<Rightarrow> get_result list \<times> queue_spec" where
  "spec_op (Op_post now h i x sens) a =
     ([], if sq_stop a \<or> i = MQID_DISPOSE then a
          else a\<lparr>sq_ready := sq_ready a @ [\<lparr>ms_phandler = h, ms_message_id = i, ms_pdata = x,
                   ms_ts_sensitive = (if sens then now + kMaxMsgLatency else 0)\<rparr>]\<rparr>)"
| "spec_op (Op_delayed t delay h i x) a =
     ([], if sq_stop a then a
          else a\<lparr>sq_delayed := spec_insert (t + delay, \<lparr>ms_phandler = h, ms_message_id = i, ms_pdata = x, ms_ts_sensitive = 0\<rparr>) (sq_delayed a)\<rparr>)"
| "spec_op (Op_get now e) a = (let (r, b) = spec_get now a in ([r], b))"
| "spec_op (Op_peek now e) a =
     (case spec_get now a of
        (Got m, b) \<Rightarrow> ([Got m], b\<lparr>sq_kept := Some m\<rparr>)
      | (r, b) \<Rightarrow> ([r], b))"
| "spec_op (Op_clear h i) a =
     ([], a\<lparr>sq_kept := (case sq_kept a of None \<Rightarrow> None | Some m \<Rightarrow> if Match m h i then None else Some m),
            sq_ready := filter (\<lambda>m. \<not> Match m h i) (sq_ready a),
            sq_delayed := filter (\<lambda>y. \<not> Match (snd y) h i) (sq_delayed a)\<rparr>)"
| "spec_op Op_quit a = ([], a\<lparr>sq_stop := True\<rparr>)"
| "spec_op Op_restart a = ([], a\<lparr>sq_stop := False\<rparr>)"

fun spec_ops :: "queue_op list \<Rightarrow> queue_spec \<Rightarrow> get_result list \<times> queue_spec" where
  "spec_ops [] a = ([], a)"
| "spec_ops (op # ops) a = (let (rs, b) = spec_op op a; (rs', c) = spec_ops ops b in (rs @ rs', c))"

text \<open>
  The operations on the queue of the code. \<open>Get\<close> and \<open>Peek\<close> are called with the wait time 0; the wait of the socket server
  that they make when there is nothing takes \<open>e\<close> milliseconds.
\<close>

definition poll :: "int \<Rightarrow> nat \<Rightarrow> wait_event list" where
  "poll now e = [\<lparr>we_ok = True, we_time = Time32 (now + int e), we_others = (\<lambda>q. q)\<rparr>]"

fun run_op :: "queue_op \<Rightarrow> MessageQueue \<Rightarrow> get_result list \<times> MessageQueue" where
  "run_op (Op_post now h i x sens) q = ([], Post now h i x sens q)"
| "run_op (Op_delayed t delay h i x) q = ([], PostDelayed t delay h i x q)"
| "run_op (Op_get now e) q = (let (r, q1) = mqGet 0 (Time32 now) (poll now e) q in ([r], q1))"
| "run_op (Op_peek now e) q = (let (r, q1) = mqPeek 0 (Time32 now) (poll now e) q in ([r], q1))"
| "run_op (Op_clear h i) q = ([], snd (mqClear h i q))"
| "run_op Op_quit q = ([], Quit q)"
| "run_op Op_restart q = ([], Restart q)"

fun run_ops :: "queue_op list \<Rightarrow> MessageQueue \<Rightarrow> get_result list \<times> MessageQueue" where
  "run_ops [] q = ([], q)"
| "run_ops (op # ops) q = (let (rs, q1) = run_op op q; (rs', q2) = run_ops ops q1 in (rs @ rs', q2))"

text \<open>
  The times of the operations: triggers lie in one period of the 32-bit clock, because the delayed queue compares them
  without regard to the wrap-around, and less than \<open>2 ^ 31\<close> ms from the times of the gets, which may be in another period.
\<close>

definition in_period :: "int \<Rightarrow> int \<Rightarrow> bool" where
  "in_period k t \<longleftrightarrow> k * 2 ^ 32 \<le> t \<and> t < (k + 1) * 2 ^ 32"

fun op_times :: "int set \<Rightarrow> int set \<Rightarrow> queue_op \<Rightarrow> bool" where
  "op_times TS NS (Op_delayed t delay h i x) = (t + delay \<in> TS)"
| "op_times TS NS (Op_get now e) = (now \<in> NS \<and> e < 2 ^ 31)"
| "op_times TS NS (Op_peek now e) = (now \<in> NS \<and> e < 2 ^ 31)"
| "op_times TS NS _ = True"

definition times_ok :: "int set \<Rightarrow> int set \<Rightarrow> bool" where
  "times_ok TS NS \<longleftrightarrow> (\<exists>k. \<forall>t \<in> TS. in_period k t) \<and> (\<forall>t \<in> TS. \<forall>now \<in> NS. \<bar>t - now\<bar> < 2 ^ 31)"

section \<open>The clock\<close>

lemma sint_small: "\<bar>d\<bar> < 2 ^ 31 \<Longrightarrow> sint (word_of_int d :: u32) = d"
  by (simp add: signed_of_int signed_take_bit_int_eq_self_iff abs_less_iff)

lemma uint_small: "0 \<le> d \<Longrightarrow> d < 2 ^ 32 \<Longrightarrow> uint (word_of_int d :: u32) = d"
  by (simp add: take_bit_int_eq_self uint_word_of_int_eq)

lemma Time32_later:
  assumes "\<bar>t - now\<bar> < 2 ^ 31" shows "TimeIsLater (Time32 now) (Time32 t) \<longleftrightarrow> now < t"
proof -
  have "Time32 t - Time32 now = word_of_int (t - now)" by (simp add: Time32_def)
  then have d: "sint (Time32 t - Time32 now) = t - now" using sint_small [OF assms] by simp
  have "(word_of_int (t - now) :: u32) < 0x80000000" if "now < t"
  proof -
    have "uint (word_of_int (t - now) :: u32) = t - now" using that assms by (intro uint_small) auto
    then show ?thesis using assms by (simp add: word_less_def)
  qed
  then show ?thesis by (auto simp: TimeIsLater_def d Let_def)
qed

lemma Time32_le:
  assumes "in_period k a" "in_period k b" shows "Time32 a \<le> Time32 b \<longleftrightarrow> a \<le> b"
proof -
  have u: "uint (Time32 t) = t - k * 2 ^ 32" if "in_period k t" for t
  proof -
    have "uint (Time32 t) = t mod 2 ^ 32" by (simp add: Time32_def take_bit_int_def uint_word_of_int_eq)
    also have "t mod 2 ^ 32 = (t - k * 2 ^ 32) mod 2 ^ 32" using mod_mult_self1 [of t "- k" "2 ^ 32"] by (simp only: mult_minus_left diff_conv_add_uminus)
    also have "\<dots> = t - k * 2 ^ 32" using that by (intro mod_pos_pos_trivial) (auto simp: in_period_def algebra_simps)
    finally show ?thesis .
  qed
  show ?thesis using u [OF assms(1)] u [OF assms(2)] by (simp add: word_le_def)
qed

section \<open>The queue refines what the client sees\<close>

definition corr :: "DelayedMessage \<Rightarrow> int \<times> Message \<Rightarrow> bool" where
  "corr e y \<longleftrightarrow> dm_msTrigger e = Time32 (fst y) \<and> dm_msg e = snd y"

text \<open>\<open>c\<close> is the number of delayed messages posted so far, which numbers the next one.\<close>

definition queue_sim :: "int set \<Rightarrow> nat \<Rightarrow> MessageQueue \<Rightarrow> queue_spec \<Rightarrow> bool" where
  "queue_sim TS c q a \<longleftrightarrow> mq_fStop q = sq_stop a \<and> sq_kept a = (if mq_fPeekKeep q then Some (mq_msgPeek q) else None) \<and>
     sq_ready a = filter shown (mq_msgq q) \<and> list_all2 corr (mq_dmsgq q) (sq_delayed a) \<and>
     sorted (map fst (sq_delayed a)) \<and> fst ` set (sq_delayed a) \<subseteq> TS \<and>
     mq_dmsgq_next_num q = of_nat c \<and> (\<forall>e \<in> set (mq_dmsgq q). unat (dm_num e) < c)"

lemma pull_shown:
  "pull ms = (n, r, rest) \<Longrightarrow> r = (case filter shown ms of [] \<Rightarrow> None | m # _ \<Rightarrow> Some m) \<and> filter shown rest = tl (filter shown ms)"
  by (induction ms arbitrary: n r rest) (auto simp: shown_def split: prod.splits if_splits)

lemma pq_push_after:
  "\<forall>e \<in> set es. dm_num e < dm_num d \<Longrightarrow>
     pq_push d es = takeWhile (\<lambda>e. dm_msTrigger e \<le> dm_msTrigger d) es @ d # dropWhile (\<lambda>e. dm_msTrigger e \<le> dm_msTrigger d) es"
  by (induction es) (auto simp: dm_less_def)

lemma takeWhile_corr:
  assumes "list_all2 corr es ys" "\<And>e y. corr e y \<Longrightarrow> y \<in> set ys \<Longrightarrow> P e = Q y"
  shows "list_all2 corr (takeWhile P es) (takeWhile Q ys)" "list_all2 corr (dropWhile P es) (dropWhile Q ys)"
  using assms by (induction rule: list_all2_induct) auto

lemma spec_insert_sorted: "sorted (map fst ys) \<Longrightarrow> sorted (map fst (spec_insert x ys))"
proof (induction ys)
  case (Cons y ys)
  have "set (spec_insert x ys) = insert x (set ys)"
    unfolding spec_insert_def by (metis Un_insert_right list.simps(15) set_append takeWhile_dropWhile_id)
  then show ?case using Cons by (auto simp: spec_insert_def not_le)
qed (simp add: spec_insert_def)

lemma spec_insert_set: "set (spec_insert x ys) = insert x (set ys)"
  unfolding spec_insert_def by (metis Un_insert_right list.simps(15) set_append takeWhile_dropWhile_id)

lemma delayed_sim:
  assumes sim: "queue_sim TS c q a" and c: "c + 1 < 2 ^ 32" and t: "t + delay \<in> TS" "\<forall>t \<in> TS. in_period k t"
  shows "\<exists>c' \<le> c + 1. queue_sim TS c' (PostDelayed t delay h i x q) (snd (spec_op (Op_delayed t delay h i x) a))"
proof (cases "mq_fStop q")
  case True
  then show ?thesis using sim by (intro exI [of _ c]) (simp add: PostDelayed_def DoDelayPost_def queue_sim_def)
next
  case False
  let ?m = "\<lparr>ms_phandler = h, ms_message_id = i, ms_pdata = x, ms_ts_sensitive = 0\<rparr>"
  define d where "d = \<lparr>dm_cmsDelay = delay, dm_msTrigger = Time32 (t + delay), dm_num = of_nat c, dm_msg = ?m\<rparr>"
  let ?y = "(t + delay, ?m)" and ?ys = "sq_delayed a"
  have s: "\<not> sq_stop a" "list_all2 corr (mq_dmsgq q) ?ys" "sorted (map fst ?ys)" "fst ` set ?ys \<subseteq> TS" "mq_dmsgq_next_num q = of_nat c"
    "\<forall>e \<in> set (mq_dmsgq q). unat (dm_num e) < c" using sim False by (auto simp: queue_sim_def)
  have uc: "unat (of_nat c :: u32) = c" using c by (simp add: unat_of_nat take_bit_nat_eq_self)
  have q: "PostDelayed t delay h i x q = q\<lparr>mq_active := True, mq_dmsgq := pq_push d (mq_dmsgq q), mq_dmsgq_next_num := of_nat c + 1\<rparr>"
    using False s(5) by (simp add: PostDelayed_def DoDelayPost_def TimeAfter_def Time32_def d_def Let_def)
  have cmp: "(dm_msTrigger e \<le> dm_msTrigger d) = (fst y \<le> fst ?y)" if "corr e y" "y \<in> set ?ys" for e y
    using Time32_le [of k "fst y" "t + delay"] that t s(4) by (auto simp: corr_def d_def)
  have "\<forall>e \<in> set (mq_dmsgq q). dm_num e < dm_num d" using s(6) uc by (simp add: d_def word_less_nat_alt)
  then have p: "pq_push d (mq_dmsgq q) = takeWhile (\<lambda>e. dm_msTrigger e \<le> dm_msTrigger d) (mq_dmsgq q) @ d #
      dropWhile (\<lambda>e. dm_msTrigger e \<le> dm_msTrigger d) (mq_dmsgq q)" by (rule pq_push_after)
  have "list_all2 corr (pq_push d (mq_dmsgq q)) (spec_insert ?y ?ys)"
    unfolding p spec_insert_def
    using takeWhile_corr [OF s(2) cmp] by (intro list_all2_appendI) (simp_all add: corr_def d_def)
  moreover have "\<forall>e \<in> set (pq_push d (mq_dmsgq q)). unat (dm_num e) < c + 1"
    using s(6) uc by (auto simp: d_def intro: less_SucI)
  moreover have "fst ` set (spec_insert ?y ?ys) \<subseteq> TS" using s(4) t(1) by (auto simp: spec_insert_set)
  ultimately show ?thesis unfolding q using sim s(1) spec_insert_sorted [OF s(3), of ?y]
    by (intro exI [of _ "c + 1"]) (auto simp: queue_sim_def)
qed

lemma move_due_sim:
  assumes "list_all2 corr ds ys" "sorted (map fst ys)" "\<forall>y \<in> set ys. \<bar>fst y - now\<bar> < 2 ^ 31"
  shows "\<exists>rest nxt. move_due (Time32 now) ds = (map snd (filter (\<lambda>y. fst y \<le> now) ys), rest, nxt) \<and>
    list_all2 corr rest (filter (\<lambda>y. now < fst y) ys) \<and> set rest \<subseteq> set ds"
  using assms
proof (induction rule: list_all2_induct)
  case (Cons d ds y ys)
  have later: "TimeIsLater (Time32 now) (dm_msTrigger d) \<longleftrightarrow> now < fst y"
    using Cons.hyps(1) Cons.prems(2) Time32_later [of "fst y" now] by (simp add: corr_def)
  show ?case
  proof (cases "now < fst y")
    case True
    then have "filter (\<lambda>y. now < fst y) ys = ys" "filter (\<lambda>y. fst y \<le> now) ys = []"
      using Cons.prems(1) by (auto simp: filter_empty_conv filter_id_conv)
    then show ?thesis using True later Cons.hyps by auto
  next
    case False
    then show ?thesis using Cons later by (auto simp: corr_def)
  qed
qed simp

lemma get_pass_sim:
  assumes sim: "queue_sim TS c q a" and t: "\<forall>t \<in> TS. \<bar>t - now\<bar> < 2 ^ 31"
  defines "b \<equiv> spec_collect now a"
  shows "\<exists>nxt q'. get_pass (Time32 now) q = (case sq_ready b of [] \<Rightarrow> None | m # _ \<Rightarrow> Some m, nxt, q') \<and>
    queue_sim TS c q' (b\<lparr>sq_ready := tl (sq_ready b)\<rparr>) \<and> mq_fPeekKeep q' = mq_fPeekKeep q"
proof -
  have s: "list_all2 corr (mq_dmsgq q) (sq_delayed a)" "sorted (map fst (sq_delayed a))" "fst ` set (sq_delayed a) \<subseteq> TS"
    using sim by (auto simp: queue_sim_def)
  from move_due_sim [OF s(1,2), of now] t s(3) obtain rest nxt where
    m: "move_due (Time32 now) (mq_dmsgq q) = (map snd (filter (\<lambda>y. fst y \<le> now) (sq_delayed a)), rest, nxt)"
    "list_all2 corr rest (filter (\<lambda>y. now < fst y) (sq_delayed a))" "set rest \<subseteq> set (mq_dmsgq q)" by fastforce
  let ?ms = "map snd (filter (\<lambda>y. fst y \<le> now) (sq_delayed a))"
  obtain n r left where p: "pull (mq_msgq q @ ?ms) = (n, r, left)" by (cases "pull (mq_msgq q @ ?ms)")
  have b: "sq_ready b = filter shown (mq_msgq q @ ?ms)" using sim by (simp add: b_def spec_collect_def queue_sim_def)
  have r: "r = (case sq_ready b of [] \<Rightarrow> None | m # _ \<Rightarrow> Some m)" "filter shown left = tl (sq_ready b)"
    using pull_shown [OF p] b by simp_all
  have "sorted (map fst (filter (\<lambda>y. now < fst y) (sq_delayed a)))" using s(2) by (rule sorted_filter)
  then show ?thesis using sim m r(2) s(3)
    by (auto simp: get_pass_def m(1) p r(1) queue_sim_def b_def spec_collect_def)
qed

lemma mqGet_sim:
  assumes sim: "queue_sim TS c q a" and t: "\<forall>t \<in> TS. \<bar>t - now\<bar> < 2 ^ 31" and e: "e < 2 ^ 31"
  shows "\<exists>q'. mqGet 0 (Time32 now) (poll now e) q = (fst (spec_get now a), q') \<and> queue_sim TS c q' (snd (spec_get now a)) \<and> \<not> mq_fPeekKeep q'"
proof (cases "mq_fPeekKeep q")
  case True
  then show ?thesis using sim by (auto simp: mqGet_def spec_get_def queue_sim_def)
next
  case False
  let ?b = "spec_collect now a"
  from get_pass_sim [OF sim t] obtain nxt q' where
    g: "get_pass (Time32 now) q = (case sq_ready ?b of [] \<Rightarrow> None | m # _ \<Rightarrow> Some m, nxt, q')"
    "queue_sim TS c q' (?b\<lparr>sq_ready := tl (sq_ready ?b)\<rparr>)" "\<not> mq_fPeekKeep q'" using False by auto
  have kept: "sq_kept a = None" using sim False by (simp add: queue_sim_def)
  have "Time32 (now + int e) - Time32 now = word_of_int (int e)" by (simp add: Time32_def)
  then have d: "TimeDiff32 (Time32 (now + int e)) (Time32 now) = int e" using sint_small [of "int e"] e by (simp add: TimeDiff32_def)
  show ?thesis
  proof (cases "sq_ready ?b")
    case Nil
    moreover from Nil g(2) have "queue_sim TS c q' ?b" by (metis (no_types, lifting) list.sel(2) queue_spec.surjective queue_spec.update_convs(3))
    ultimately show ?thesis using False g kept
      by (auto simp: mqGet_def get_loop.simps spec_get_def poll_def d Let_def)
  next
    case (Cons m ms)
    then show ?thesis using False g kept by (auto simp: mqGet_def get_loop.simps spec_get_def)
  qed
qed

lemma mqPeek_sim:
  assumes sim: "queue_sim TS c q a" and t: "\<forall>t \<in> TS. \<bar>t - now\<bar> < 2 ^ 31" and e: "e < 2 ^ 31"
  shows "\<exists>q'. run_op (Op_peek now e) q = (fst (spec_op (Op_peek now e) a), q') \<and> queue_sim TS c q' (snd (spec_op (Op_peek now e) a))"
proof (cases "mq_fPeekKeep q")
  case True
  then have "sq_kept a = Some (mq_msgPeek q)" using sim by (simp add: queue_sim_def)
  then show ?thesis using sim True by (auto simp: mqPeek_def spec_get_def queue_sim_def)
next
  case False
  obtain q' where g: "mqGet 0 (Time32 now) (poll now e) q = (fst (spec_get now a), q')" "queue_sim TS c q' (snd (spec_get now a))" "\<not> mq_fPeekKeep q'"
    using mqGet_sim [OF sim t e] by blast
  obtain r b where r: "spec_get now a = (r, b)" by (cases "spec_get now a")
  show ?thesis
  proof (cases r)
    case (Got m)
    then show ?thesis using g r False by (auto simp: mqPeek_def queue_sim_def)
  qed (use g r False in \<open>auto simp: mqPeek_def\<close>)
qed

lemma clear_sim: "queue_sim TS c q a \<Longrightarrow> queue_sim TS c (snd (mqClear h i q)) (snd (spec_op (Op_clear h i) a))"
proof -
  assume sim: "queue_sim TS c q a"
  have l: "list_all2 corr (filter (\<lambda>d. \<not> Match (dm_msg d) h i) ds) (filter (\<lambda>y. \<not> Match (snd y) h i) ys)"
    if "list_all2 corr ds ys" for ds ys using that by (induction rule: list_all2_induct) (auto simp: corr_def)
  have comm: "filter P (filter shown ms) = filter shown (filter P ms)" for P ms by (simp add: conj_commute)
  show ?thesis using sim l [of "mq_dmsgq q" "sq_delayed a"] comm
    by (auto simp: queue_sim_def mqClear_def Let_def sorted_filter)
qed

lemma run_op_sim:
  assumes sim: "queue_sim TS c q a" and op: "op_times TS NS op" and t: "times_ok TS NS" and c: "c + 1 < 2 ^ 32"
  shows "\<exists>c' \<le> c + 1. \<exists>q'. run_op op q = (fst (spec_op op a), q') \<and> queue_sim TS c' q' (snd (spec_op op a))"
proof -
  obtain k where k: "\<forall>t \<in> TS. in_period k t" using t by (auto simp: times_ok_def)
  have n: "\<forall>t \<in> TS. \<bar>t - now\<bar> < 2 ^ 31" if "now \<in> NS" for now using t that by (auto simp: times_ok_def)
  show ?thesis
  proof (cases op)
    case (Op_post now h i x sens)
    then show ?thesis using sim by (intro exI [of _ c]) (auto simp: queue_sim_def Post_def shown_def)
  next
    case (Op_delayed t delay h i x)
    then show ?thesis using delayed_sim [OF sim c _ k, of t delay h i x] op by auto
  next
    case (Op_get now e)
    then show ?thesis using mqGet_sim [OF sim n, of now e] op by (intro exI [of _ c]) (auto split: prod.splits)
  next
    case (Op_peek now e)
    then show ?thesis using mqPeek_sim [OF sim n, of now e] op by (intro exI [of _ c]) (auto simp del: run_op.simps spec_op.simps)
  next
    case (Op_clear h i)
    then show ?thesis using clear_sim [OF sim, of h i] by (intro exI [of _ c]) auto
  qed (use sim in \<open>auto simp: queue_sim_def Quit_def Restart_def intro!: exI [of _ c]\<close>)
qed

lemma run_ops_sim:
  assumes "queue_sim TS c q a" "\<forall>op \<in> set ops. op_times TS NS op" "times_ok TS NS" "c + length ops < 2 ^ 32"
  shows "\<exists>c' q'. run_ops ops q = (fst (spec_ops ops a), q') \<and> queue_sim TS c' q' (snd (spec_ops ops a))"
  using assms
proof (induction ops arbitrary: c q a)
  case (Cons op ops)
  from run_op_sim [OF Cons.prems(1) _ Cons.prems(3), of op] Cons.prems(2,4) obtain c1 q1 where
    s: "c1 \<le> c + 1" "run_op op q = (fst (spec_op op a), q1)" "queue_sim TS c1 q1 (snd (spec_op op a))" by auto
  from Cons.IH [OF s(3)] Cons.prems s(1) obtain c2 q2 where
    "run_ops ops q1 = (fst (spec_ops ops (snd (spec_op op a))), q2)" "queue_sim TS c2 q2 (snd (spec_ops ops (snd (spec_op op a))))" by auto
  then show ?case using s(2) by (auto simp: case_prod_beta)
qed auto

definition spec_new :: queue_spec where
  "spec_new = \<lparr>sq_stop = False, sq_kept = None, sq_ready = [], sq_delayed = []\<rparr>"

lemma new_sim: "queue_sim TS 0 mq_new spec_new"
  by (simp add: queue_sim_def mq_new_def spec_new_def)

section \<open>Properties\<close>

text \<open>C30. A message queue does what its clients see of the abstract queue: for every sequence of posts, delayed posts, gets, peeks,
  clears, quits and restarts on a new queue, each \<open>Get\<close> and \<open>Peek\<close> (called with the wait time 0) returns exactly the message that the abstract queue gives,
  and nothing when it has none. So posted messages come in the order of posting, delayed ones when due in the order of their
  times, \<open>Peek\<close> keeps its message for the next \<open>Get\<close>, and a stopped queue takes no posts but still gives what it
  has. Conditions on the times, when messages are delayed: the trigger times of a run lie in one period of the 32-bit clock
  (the current time may be in the next one), less than \<open>2 ^ 31\<close> ms from the times of the gets; across a wrap-around of the trigger times the code can hold back a due
  message (theorem \<open>delayed_wrap_blocks\<close>). Fewer than \<open>2 ^ 32\<close> operations are made.\<close>

theorem queue_refines:
  assumes "\<forall>op \<in> set ops. op_times TS NS op" and "times_ok TS NS" and "length ops < 2 ^ 32"
  shows "fst (run_ops ops mq_new) = fst (spec_ops ops spec_new)"
  using run_ops_sim [OF new_sim assms(1,2)] assms(3) by auto

theorem queue_refines_witness:
  "fst (run_ops [Op_delayed 4294967280 10 None 1 None, Op_post 0 None 2 None False, Op_delayed 4294967280 5 None 3 None, Op_peek 4294967300 1,
      Op_get 4294967300 0, Op_get 4294967300 0, Op_clear None 1, Op_get 4294967301 0] mq_new) =
   [Got (empty_message\<lparr>ms_message_id := 2\<rparr>), Got (empty_message\<lparr>ms_message_id := 2\<rparr>), Got (empty_message\<lparr>ms_message_id := 3\<rparr>), GotNothing]"
proof -
  let ?ops = "[Op_delayed 4294967280 10 None 1 None, Op_post 0 None 2 None False, Op_delayed 4294967280 5 None 3 None, Op_peek 4294967300 1,
      Op_get 4294967300 0, Op_get 4294967300 0, Op_clear None 1, Op_get 4294967301 0]"
  have "\<forall>op \<in> set ?ops. op_times {4294967285, 4294967290} {4294967300, 4294967301} op" by simp
  moreover have "times_ok {4294967285, 4294967290} {4294967300, 4294967301}"
    by (auto simp: times_ok_def in_period_def intro!: exI [of _ 0])
  ultimately have "fst (run_ops ?ops mq_new) = fst (spec_ops ?ops spec_new)" by (rule queue_refines) simp
  also have "\<dots> = [Got (empty_message\<lparr>ms_message_id := 2\<rparr>), Got (empty_message\<lparr>ms_message_id := 2\<rparr>), Got (empty_message\<lparr>ms_message_id := 3\<rparr>), GotNothing]"
    by (simp add: spec_new_def spec_get_def spec_collect_def spec_insert_def shown_def MQID_DISPOSE_def MQID_ANY_def Match_def empty_message_def)
  finally show ?thesis .
qed

text \<open>The order of delayed messages: sorted by trigger time, equal times in the order of posting.\<close>

lemma spec_insert_class:
  assumes "sorted (map fst ys)"
  shows "filter (\<lambda>y. fst y = t) (spec_insert x ys) = filter (\<lambda>y. fst y = t) ys @ (if fst x = t then [x] else [])"
proof -
  have split: "filter P ys = filter P (takeWhile (\<lambda>y. fst y \<le> fst x) ys) @ filter P (dropWhile (\<lambda>y. fst y \<le> fst x) ys)" for P
    by (metis filter_append takeWhile_dropWhile_id)
  have gt: "fst x < fst y" if "y \<in> set (dropWhile (\<lambda>y. fst y \<le> fst x) ys)" for y
    using assms that
  proof (induction ys)
    case (Cons z ys) then show ?case by (auto split: if_splits)
  qed simp
  then have "filter (\<lambda>y. fst y = fst x) (dropWhile (\<lambda>y. fst y \<le> fst x) ys) = []" unfolding filter_empty_conv using gt by (metis less_irrefl)
  then show ?thesis using split [of "\<lambda>y. fst y = t"] by (auto simp: spec_insert_def)
qed

lemma spec_inserts_sort: "fold spec_insert xs [] = sort_key fst xs"
proof -
  have "mset (fold spec_insert xs []) = mset xs \<and> sorted (map fst (fold spec_insert xs [])) \<and>
      (\<forall>t. filter (\<lambda>y. fst y = t) (fold spec_insert xs []) = filter (\<lambda>y. fst y = t) xs)"
  proof (induction xs rule: rev_induct)
    case (snoc x xs)
    let ?ys = "fold spec_insert xs []"
    have "mset (spec_insert x ys) = add_mset x (mset ys)" for ys :: "(int \<times> Message) list"
    proof -
      have "mset (takeWhile P ys) + mset (dropWhile P ys) = mset ys" for P by (metis mset_append takeWhile_dropWhile_id)
      then show ?thesis by (simp add: spec_insert_def)
    qed
    then show ?case using snoc spec_insert_sorted [of ?ys x] spec_insert_class [of ?ys _ x] by simp
  qed simp
  then show ?thesis using properties_for_sort_key [of "fold spec_insert xs []" xs fst] by (metis (mono_tags, lifting) filter_cong)
qed

definition delayed_op :: "int \<times> int \<times> nat option \<times> u32 \<times> nat option \<Rightarrow> queue_op" where
  "delayed_op p = (case p of (t, delay, h, i, x) \<Rightarrow> Op_delayed t delay h i x)"

definition trigger_time :: "int \<times> int \<times> nat option \<times> u32 \<times> nat option \<Rightarrow> int" where
  "trigger_time p = fst p + fst (snd p)"

definition delayed_message :: "int \<times> int \<times> nat option \<times> u32 \<times> nat option \<Rightarrow> Message" where
  "delayed_message p = (case p of (t, delay, h, i, x) \<Rightarrow> \<lparr>ms_phandler = h, ms_message_id = i, ms_pdata = x, ms_ts_sensitive = 0\<rparr>)"

lemma spec_delayed_posts:
  "spec_ops (map delayed_op ps) a = ([], if sq_stop a then a
     else a\<lparr>sq_delayed := fold spec_insert (map (\<lambda>p. (trigger_time p, delayed_message p)) ps) (sq_delayed a)\<rparr>)"
  by (induction ps arbitrary: a) (auto simp: delayed_op_def trigger_time_def delayed_message_def split: prod.split)

lemma spec_ops_append: "spec_ops (xs @ ys) a = (let (rs, b) = spec_ops xs a; (rs', c) = spec_ops ys b in (rs @ rs', c))"
  by (induction xs arbitrary: a) (auto simp: case_prod_beta)

text \<open>Gets at one time: the ready messages, then nothing.\<close>

lemma spec_gets:
  assumes "sq_kept a = None" "sq_ready (spec_collect now a) = ms"
  shows "fst (spec_ops (replicate (length ms + 1) (Op_get now 0)) a) = map Got ms @ [GotNothing]"
  using assms
proof (induction ms arbitrary: a)
  case (Cons m ms)
  let ?b = "(spec_collect now a)\<lparr>sq_ready := ms\<rparr>"
  have "sq_ready (spec_collect now ?b) = ms" by (simp add: spec_collect_def filter_empty_conv)
  moreover have "spec_get now a = (Got m, ?b)" using Cons.prems by (simp add: spec_get_def)
  moreover have "sq_kept ?b = None" using Cons.prems by (simp add: spec_collect_def)
  ultimately show ?case using Cons.IH [of ?b] by (simp add: case_prod_beta)
qed (simp add: spec_get_def)

lemma sort_key_map: "sort_key fst (map (\<lambda>p. (f p, g p)) ps) = map (\<lambda>p. (f p, g p)) (sort_key f ps)"
proof -
  have "insort_key fst (f p, g p) (map (\<lambda>p. (f p, g p)) ps) = map (\<lambda>p. (f p, g p)) (insort_key f p ps)" for p ps
    by (induction ps) auto
  then show ?thesis by (induction ps) auto
qed

text \<open>C31. Delayed messages come when they are due and in the order of their times: after any delayed posts to a new queue,
  gets at a time \<open>now\<close> return the messages whose trigger time (the time of the post plus the delay) is not after \<open>now\<close>, sorted by trigger
  time and in the order of posting for equal times, one message for each get, and then nothing; none is early, lost, doubled or out of order.
  None of the messages has the id \<open>MQID_DISPOSE\<close>, which \<open>Get\<close> keeps for itself. The trigger times lie in one period of the 32-bit clock
  and less than \<open>2 ^ 31\<close> ms from \<open>now\<close>, which may be in the
  next period; when trigger times span the wrap-around, a due message can be held back (theorem \<open>delayed_wrap_blocks\<close>).\<close>

theorem delayed_in_order:
  assumes "\<forall>p \<in> set ps. in_period k (trigger_time p) \<and> \<bar>trigger_time p - now\<bar> < 2 ^ 31 \<and> ms_message_id (delayed_message p) \<noteq> MQID_DISPOSE"
    and "2 * length ps + 1 < 2 ^ 32"
  defines "due \<equiv> filter (\<lambda>p. trigger_time p \<le> now) (sort_key trigger_time ps)"
  shows "fst (run_ops (map delayed_op ps @ replicate (length due + 1) (Op_get now 0)) mq_new) =
    map (\<lambda>p. Got (delayed_message p)) due @ [GotNothing]"
proof -
  let ?ops = "map delayed_op ps @ replicate (length due + 1) (Op_get now 0)" and ?TS = "trigger_time ` set ps"
  let ?f = "\<lambda>p. (trigger_time p, delayed_message p)"
  have "\<forall>op \<in> set ?ops. op_times ?TS {now} op" by (force simp: delayed_op_def trigger_time_def split: prod.split)
  moreover have "times_ok ?TS {now}" using assms(1) by (auto simp: times_ok_def)
  moreover have "length due \<le> length ps" unfolding due_def by (metis length_filter_le length_sort)
  then have "length ?ops < 2 ^ 32" using assms(2) by simp
  ultimately have r: "fst (run_ops ?ops mq_new) = fst (spec_ops ?ops spec_new)"
    using run_ops_sim [OF new_sim] by fastforce
  let ?a = "spec_new\<lparr>sq_delayed := map ?f (sort_key trigger_time ps)\<rparr>"
  have posts: "spec_ops (map delayed_op ps) spec_new = ([], ?a)"
    by (simp add: spec_delayed_posts spec_new_def spec_inserts_sort sort_key_map)
  have sh: "\<forall>p \<in> set due. shown (delayed_message p)" using assms(1) by (auto simp: due_def shown_def)
  have "map snd (filter (\<lambda>y. fst y \<le> now) (map ?f (sort_key trigger_time ps))) = map delayed_message due"
    by (simp add: filter_map comp_def due_def)
  moreover have "filter shown (map delayed_message due) = map delayed_message due" using sh by (simp add: filter_id_conv)
  ultimately have "filter shown (map snd (filter (\<lambda>y. fst y \<le> now) (map ?f (sort_key trigger_time ps)))) = map delayed_message due" by simp
  then have ready: "sq_ready (spec_collect now ?a) = map delayed_message due" by (simp add: spec_collect_def spec_new_def)
  have "sq_kept ?a = None" by (simp add: spec_new_def)
  from spec_gets [OF this ready] show ?thesis unfolding r spec_ops_append posts by (simp add: case_prod_beta)
qed

text \<open>Three delayed posts just before the 32-bit clock wraps around, and gets after it.\<close>

theorem delayed_in_order_witness:
  "fst (run_ops [Op_delayed 4294967200 90 None 1 None, Op_delayed 4294967200 80 None 2 None, Op_delayed 4294967210 80 None 3 None,
      Op_get 4294967300 0, Op_get 4294967300 0, Op_get 4294967300 0, Op_get 4294967300 0] mq_new) =
   [Got (empty_message\<lparr>ms_message_id := 2\<rparr>), Got (empty_message\<lparr>ms_message_id := 1\<rparr>), Got (empty_message\<lparr>ms_message_id := 3\<rparr>), GotNothing]"
proof -
  let ?ps = "[(4294967200, 90, None, 1, None), (4294967200, 80, None, 2, None), (4294967210, 80, None, 3, None)] :: (int \<times> int \<times> nat option \<times> u32 \<times> nat option) list"
  have "\<forall>p \<in> set ?ps. in_period 0 (trigger_time p) \<and> \<bar>trigger_time p - 4294967300\<bar> < 2 ^ 31 \<and> ms_message_id (delayed_message p) \<noteq> MQID_DISPOSE"
    by (simp add: in_period_def trigger_time_def delayed_message_def MQID_DISPOSE_def)
  note r = delayed_in_order [OF this]
  have due: "filter (\<lambda>p. trigger_time p \<le> 4294967300) (sort_key trigger_time ?ps) =
      [(4294967200, 80, None, 2, None), (4294967200, 90, None, 1, None), (4294967210, 80, None, 3, None)]"
    by (simp add: trigger_time_def)
  have rep: "replicate (length [p1, p2, p3] + 1) g = [g, g, g, g]" for p1 p2 p3 :: "int \<times> int \<times> nat option \<times> u32 \<times> nat option" and g :: queue_op
    by simp
  have ops: "map delayed_op ?ps = [Op_delayed 4294967200 90 None 1 None, Op_delayed 4294967200 80 None 2 None, Op_delayed 4294967210 80 None 3 None]"
    by (simp add: delayed_op_def)
  have msgs: "map (\<lambda>p. Got (delayed_message p)) [(4294967200, 80, None, 2, None), (4294967200, 90, None, 1, None), (4294967210, 80, None, 3, None)] =
      [Got (empty_message\<lparr>ms_message_id := 2\<rparr>), Got (empty_message\<lparr>ms_message_id := 1\<rparr>), Got (empty_message\<lparr>ms_message_id := 3\<rparr>)]"
    by (simp add: delayed_message_def empty_message_def)
  show ?thesis using r unfolding due rep ops msgs append_Cons append_Nil by simp
qed

section \<open>Posting and getting as a FIFO queue\<close>

lemma pull_plain:
  "(\<And>m. m \<in> set ms \<Longrightarrow> ms_message_id m \<noteq> MQID_DISPOSE) \<Longrightarrow>
     pull ms = (case ms of [] \<Rightarrow> (0, None, []) | m # r \<Rightarrow> (1, Some m, r))"
  by (cases ms) auto

definition plain_queue :: "MessageQueue \<Rightarrow> bool" where
  "plain_queue q \<longleftrightarrow> \<not> mq_fStop q \<and> \<not> mq_fPeekKeep q \<and> mq_dmsgq q = [] \<and>
     (\<forall>m \<in> set (mq_msgq q). ms_message_id m \<noteq> MQID_DISPOSE)"

definition post_msg :: "u32 \<Rightarrow> Message \<Rightarrow> MessageQueue \<Rightarrow> MessageQueue option" where
  "post_msg now m q =
     (if ms_message_id m = MQID_DISPOSE \<or> ms_ts_sensitive m \<noteq> 0 then None
      else Some (Post now (ms_phandler m) (ms_message_id m) (ms_pdata m) False q))"

definition get_msg :: "u32 \<Rightarrow> MessageQueue \<Rightarrow> (Message \<times> MessageQueue) option" where
  "get_msg now q = (case mqGet 0 now [] q of (Got m, q') \<Rightarrow> Some (m, q') | _ \<Rightarrow> None)"

lemma get_msg_plain:
  assumes "plain_queue q"
  shows "get_msg now q = (case mq_msgq q of [] \<Rightarrow> None
    | m # ms \<Rightarrow> Some (m, q\<lparr>mq_msgq := ms, mq_msgq_out := mq_msgq_out q + 1\<rparr>))"
proof -
  have p: "pull (mq_msgq q) = (case mq_msgq q of [] \<Rightarrow> (0, None, []) | m # r \<Rightarrow> (1, Some m, r))"
    using assms by (intro pull_plain) (auto simp: plain_queue_def)
  show ?thesis using assms
    by (simp add: get_msg_def mqGet_def plain_queue_def get_loop.simps get_pass_def p split: list.split)
qed

interpretation mqv: fifo plain_queue mq_msgq "post_msg now" "get_msg now" for now
proof
  fix q q' :: MessageQueue and x :: Message
  assume i: "plain_queue q"
  show "plain_queue q'" "mq_msgq q' = mq_msgq q @ [x]" if "post_msg now x q = Some q'"
    using i that by (auto simp: post_msg_def Post_def plain_queue_def split: if_splits)
  show "plain_queue q'" "mq_msgq q = x # mq_msgq q'" if "get_msg now q = Some (x, q')"
    using i that by (auto simp: get_msg_plain [OF i] plain_queue_def split: list.splits)
  show "get_msg now q = None \<longleftrightarrow> mq_msgq q = []"
    by (simp add: get_msg_plain [OF i] split: list.split)
qed

text \<open>With immediate posts only, the queue meets the contract of a FIFO queue: however posts and gets interleave, the
  messages got, followed by those still in the queue, are those posted.\<close>

lemma post_get_fifo:
  assumes "fifo_run (post_msg now) (get_msg now) ops mq_new = (accepted, got, q)"
  shows "accepted = got @ mq_msgq q"
  using mqv.run_fifo [OF _ assms] by (simp add: plain_queue_def mq_new_def)

section \<open>The delayed queue\<close>

text \<open>Posting a delayed message inserts it after every message that triggers no later and keeps the delayed
  queue in the order of trigger time and number; after \<open>Quit\<close> nothing is posted and \<open>Get\<close> does not wait.\<close>

theorem DoDelayPost_sorted:
  "dq_sorted (mq_dmsgq q) \<Longrightarrow>
     dq_sorted (mq_dmsgq (DoDelayPost delay t h i d q)) \<and>
     (\<not> mq_fStop q \<longrightarrow> (\<exists>xs ys e. mq_dmsgq q = xs @ ys \<and> mq_dmsgq (DoDelayPost delay t h i d q) = xs @ e # ys \<and>
        dm_msTrigger e = t \<and> dm_num e = mq_dmsgq_next_num q \<and> ms_message_id (dm_msg e) = i)) \<and>
     DoDelayPost delay t h i d (Quit q) = Quit q \<and> Post now h i d s (Quit q) = Quit q \<and>
     (\<not> mq_fPeekKeep q \<longrightarrow> fst (mqGet w now [] (Quit q)) \<noteq> StillWaiting)"
proof -
  assume s: "dq_sorted (mq_dmsgq q)"
  define e where "e = \<lparr>dm_cmsDelay = delay, dm_msTrigger = t, dm_num = mq_dmsgq_next_num q,
    dm_msg = \<lparr>ms_phandler = h, ms_message_id = i, ms_pdata = d, ms_ts_sensitive = 0\<rparr>\<rparr>"
  have dq: "mq_dmsgq (DoDelayPost delay t h i d q) = (if mq_fStop q then mq_dmsgq q else pq_push e (mq_dmsgq q))"
    by (simp add: DoDelayPost_def e_def Let_def)
  obtain xs ys where "pq_push e (mq_dmsgq q) = xs @ e # ys" "mq_dmsgq q = xs @ ys" using pq_push_split by blast
  moreover have "dm_msTrigger e = t" "dm_num e = mq_dmsgq_next_num q" "ms_message_id (dm_msg e) = i" by (simp_all add: e_def)
  ultimately have "\<not> mq_fStop q \<longrightarrow> (\<exists>xs ys e. mq_dmsgq q = xs @ ys \<and> mq_dmsgq (DoDelayPost delay t h i d q) = xs @ e # ys \<and>
        dm_msTrigger e = t \<and> dm_num e = mq_dmsgq_next_num q \<and> ms_message_id (dm_msg e) = i)"
    unfolding dq by auto
  moreover have "fst (mqGet w now [] (Quit q)) \<noteq> StillWaiting" if "\<not> mq_fPeekKeep q"
  proof -
    obtain r n q1 where g: "get_pass now (Quit q) = (r, n, q1)" by (cases "get_pass now (Quit q)")
    then have "mq_fStop q1" by (auto simp: get_pass_def Quit_def split: prod.splits)
    with g that show ?thesis by (cases r) (auto simp: mqGet_def get_loop.simps Quit_def)
  qed
  ultimately show ?thesis using pq_push_sorted [OF s, of e] s dq by (simp add: Quit_def DoDelayPost_def Post_def)
qed

theorem DoDelayPost_sorted_witness:
  "dq_sorted (mq_dmsgq (DoDelayPost 10 20 None 1 None (DoDelayPost 5 15 None 2 None mq_new)))"
  using DoDelayPost_sorted [of "DoDelayPost 5 15 None 2 None mq_new"] DoDelayPost_sorted [of mq_new]
  by (simp add: mq_new_def dq_sorted_def)

text \<open>The order of the delayed queue ignores the wrap-around of the 32-bit clock: a due message whose trigger is
  just before the wrap waits behind a message that triggers after it.\<close>

theorem delayed_wrap_blocks:
  assumes "dm_msTrigger late < dm_msTrigger dueone" "TimeIsLater now (dm_msTrigger late)"
    and "mq_dmsgq q = pq_push dueone (pq_push late [])" "mq_msgq q = []"
  shows "\<exists>nxt q'. get_pass now q = (None, nxt, q') \<and> mq_dmsgq q' = [late, dueone]"
  using assms by (auto simp: get_pass_def dm_less_def)

theorem delayed_wrap_blocks_witness:
  "\<not> TimeIsLater 0xFFFFFFF8 0xFFFFFFF0 \<and>
   (\<exists>nxt q'. get_pass 0xFFFFFFF8 (DoDelayPost 0 0xFFFFFFF0 None 1 None (DoDelayPost 0 5 None 2 None mq_new)) = (None, nxt, q'))"
proof
  show "\<not> TimeIsLater 0xFFFFFFF8 0xFFFFFFF0" by (simp add: TimeIsLater_def)
  let ?m = "\<lambda>i. \<lparr>ms_phandler = None, ms_message_id = i, ms_pdata = None, ms_ts_sensitive = 0\<rparr>"
  let ?late = "\<lparr>dm_cmsDelay = 0, dm_msTrigger = 5, dm_num = 0, dm_msg = ?m 2\<rparr>"
  let ?due = "\<lparr>dm_cmsDelay = 0, dm_msTrigger = 0xFFFFFFF0, dm_num = 1, dm_msg = ?m 1\<rparr>"
  let ?q = "DoDelayPost 0 0xFFFFFFF0 None 1 None (DoDelayPost 0 5 None 2 None mq_new)"
  have "mq_dmsgq ?q = pq_push ?due (pq_push ?late [])" "mq_msgq ?q = []" by (simp_all add: DoDelayPost_def mq_new_def Let_def)
  moreover have "TimeIsLater 0xFFFFFFF8 (dm_msTrigger ?late)" "dm_msTrigger ?late < dm_msTrigger ?due"
    by (simp_all add: TimeIsLater_def)
  ultimately show "\<exists>nxt q'. get_pass 0xFFFFFFF8 ?q = (None, nxt, q')" using delayed_wrap_blocks [of ?late ?due] by blast
qed

text \<open>What \<open>Peek\<close> returned is what the next \<open>Get\<close> returns, at any later time, and after it the queue is as if only
  the \<open>Get\<close> had happened.\<close>

theorem peek_then_get:
  assumes "mqPeek w now env q = (Got m, q1)" "\<not> mq_fPeekKeep q"
  shows "fst (mqGet w' now' env' q1) = Got m \<and>
    (\<exists>q2. mqGet w now env q = (Got m, q2) \<and> mq_msgq (snd (mqGet w' now' env' q1)) = mq_msgq q2 \<and>
       mq_dmsgq (snd (mqGet w' now' env' q1)) = mq_dmsgq q2)"
proof -
  obtain q2 where q2: "mqGet w now env q = (Got m, q2)" "q1 = q2\<lparr>mq_msgPeek := m, mq_fPeekKeep := True\<rparr>"
    using assms by (auto simp: mqPeek_def split: prod.splits get_result.splits)
  then show ?thesis by (simp add: mqGet_def [of w' now' env'])
qed

theorem peek_then_get_witness:
  "\<exists>q1. mqPeek 0 9 [] (Post 3 None 7 None False mq_new) = (Got (empty_message\<lparr>ms_message_id := 7\<rparr>), q1) \<and>
     fst (mqGet 5 20 [] q1) = Got (empty_message\<lparr>ms_message_id := 7\<rparr>)"
proof -
  let ?q = "Post 3 None 7 None False mq_new"
  obtain q1 where p: "mqPeek 0 9 [] ?q = (Got (empty_message\<lparr>ms_message_id := 7\<rparr>), q1)"
    by (simp add: mqPeek_def mqGet_def get_loop.simps get_pass_def Post_def mq_new_def MQID_DISPOSE_def empty_message_def)
  moreover have "\<not> mq_fPeekKeep ?q" by (simp add: Post_def mq_new_def)
  ultimately show ?thesis using peek_then_get [OF p] by blast
qed

definition all_messages :: "MessageQueue \<Rightarrow> Message list" where
  "all_messages q = (if mq_fPeekKeep q then [mq_msgPeek q] else []) @ mq_msgq q @ map dm_msg (mq_dmsgq q)"

text \<open>\<open>Clear\<close> removes exactly the messages that match, peeked, posted and delayed ones alike, keeps the others in
  their order, and keeps the delayed queue sorted.\<close>

theorem mqClear_exact:
  assumes "mqClear h i q = (removed, q')"
  shows "removed = filter (\<lambda>m. Match m h i) (all_messages q) \<and>
    all_messages q' = filter (\<lambda>m. \<not> Match m h i) (all_messages q) \<and> (dq_sorted (mq_dmsgq q) \<longrightarrow> dq_sorted (mq_dmsgq q'))"
proof -
  have "map f (filter (\<lambda>d. P (f d)) ds) = filter P (map f ds)" for f :: "DelayedMessage \<Rightarrow> Message" and P ds
    by (induction ds) auto
  then show ?thesis using assms by (auto simp: mqClear_def all_messages_def Let_def dq_sorted_def sorted_wrt_filter)
qed

theorem mqClear_exact_witness:
  "\<exists>r q'. mqClear None 7 (Post 3 None 8 None False (Post 3 None 7 None False mq_new)) = (r, q') \<and> r = [empty_message\<lparr>ms_message_id := 7\<rparr>]"
proof -
  let ?q = "Post 3 None 8 None False (Post 3 None 7 None False mq_new)"
  obtain r q' where c: "mqClear None 7 ?q = (r, q')" by (cases "mqClear None 7 ?q")
  have "r = [empty_message\<lparr>ms_message_id := 7\<rparr>]"
    using mqClear_exact [OF c] by (simp add: all_messages_def Post_def mq_new_def Match_def MQID_ANY_def empty_message_def Let_def)
  with c show ?thesis by blast
qed

text \<open>\<open>GetDelay\<close> subtracts the 64-bit uptime from a 32-bit trigger: once the machine has been up for \<open>2 ^ 32\<close>
  milliseconds, it reports that every delayed message is due now, however far in the future it triggers.\<close>

theorem GetDelay_after_wrap:
  assumes "2 ^ 32 \<le> millis" "mq_msgq q = []" "mq_dmsgq q \<noteq> []"
  shows "GetDelay millis q = 0"
proof -
  obtain d ds where d: "mq_dmsgq q = d # ds" using assms(3) by (cases "mq_dmsgq q") auto
  have "uint (dm_msTrigger d) < 2 ^ 32" using uint_bounded [of "dm_msTrigger d"] by simp
  then show ?thesis using assms(1,2) by (simp add: GetDelay_def d TimeUntil_def)
qed

theorem GetDelay_after_wrap_witness:
  "GetDelay (2 ^ 32 + 100) (PostDelayed (2 ^ 32 + 100) 60000 None 1 None mq_new) = 0"
  by (rule GetDelay_after_wrap) (simp_all add: PostDelayed_def DoDelayPost_def mq_new_def)

end
