(* ===== verification/Transition_Spec.thy ===== *)
theory Transition_Spec
  imports Prelude
begin

text \<open>
  The contract of a component that is driven by events: a start state, a step relation and an invariant that
  holds at the start and is kept by every step. The client lemmas carry the invariant to every reachable
  state. It is interpreted by the broker of the message bus, by its clients, by the scheduler and its
  state cells, by the watchdog and by the stacks of the log cache.
\<close>

inductive reach :: "('s \<Rightarrow> 's \<Rightarrow> bool) \<Rightarrow> 's \<Rightarrow> 's \<Rightarrow> bool" for step s0 where
  reach_refl: "reach step s0 s0"
| reach_step: "reach step s0 s \<Longrightarrow> step s t \<Longrightarrow> reach step s0 t"

lemma reach_trans: "reach step t u \<Longrightarrow> reach step s t \<Longrightarrow> reach step s u"
  by (induction rule: reach.induct) (auto intro: reach.intros)

locale transition_system =
  fixes start :: 's
    and step :: "'s \<Rightarrow> 's \<Rightarrow> bool"
    and inv :: "'s \<Rightarrow> bool"
  assumes start_inv: "inv start"
    and step_inv: "inv s \<Longrightarrow> step s t \<Longrightarrow> inv t"
begin

lemma reach_keeps: "reach step s t \<Longrightarrow> inv s \<Longrightarrow> inv t"
  by (induction rule: reach.induct) (auto intro: step_inv)

lemma reach_inv: "reach step start t \<Longrightarrow> inv t"
  using reach_keeps start_inv by blast

end

end
