(* ===== verification/Dp_Bus.thy ===== *)
theory Dp_Bus
  imports Byte_Order Transition_Spec
begin

text \<open>
  The broker of the inter-process message bus: \<open>lib_bsp/eventservice/dp/dpagent.cpp\<close> and \<open>dpserver.cpp\<close>. Each
  connected client has a \<open>DpAgent\<close>; agents live in a store and are named by their address, as the code's
  shared pointers do. The two maps of \<open>DpAgentManager\<close> are association lists. A packet is its header and the
  bytes of its body; the method name and the data are read from the body by the sizes in the header, which
  the code does not check, so a read past the body is an error. What an agent writes to its socket is
  appended to \<open>ag_sent\<close>.
\<close>

section \<open>Packets\<close>

definition TYPE_INVALID :: u32 where "TYPE_INVALID = - 1"
definition TYPE_MESSAGE :: u32 where "TYPE_MESSAGE = 0"
definition TYPE_REQUEST :: u32 where "TYPE_REQUEST = 1"
definition TYPE_REPLY :: u32 where "TYPE_REPLY = 2"
definition TYPE_SUCCEED :: u32 where "TYPE_SUCCEED = 6"
definition TYPE_FAILURE :: u32 where "TYPE_FAILURE = 7"
definition TYPE_ADD_MESSAGE :: u32 where "TYPE_ADD_MESSAGE = 8"
definition TYPE_REMOVE_MESSAGE :: u32 where "TYPE_REMOVE_MESSAGE = 9"
definition TYPE_SET_NAME :: u32 where "TYPE_SET_NAME = 11"

record DpNetMsgHeader =
  dh_type :: byte
  dh_listen_type :: byte
  dh_method_size :: u16
  dh_process_id :: u32
  dh_message_id :: u32
  dh_session_id :: u32
  dh_result :: u32
  dh_data_size :: u32
  dh_body :: "byte list"

type_synonym method_name = "byte list"

definition dp_method :: "DpNetMsgHeader \<Rightarrow> mem_error + method_name" where
  "dp_method h = copy_out (dh_body h) 0 (unat (dh_method_size h))"

text \<open>The data of the packet: its size is in network byte order.\<close>

definition dp_data :: "DpNetMsgHeader \<Rightarrow> mem_error + byte list" where
  "dp_data h = bindE (NetworkToHost32 False (dh_data_size h))
     (\<lambda>n. copy_out (dh_body h) (unat (dh_method_size h)) (unat n))"

section \<open>State\<close>

record DpAgent =
  ag_id :: u32
  ag_pid :: u32
  ag_name :: "byte list"
  ag_methods :: "(method_name \<times> u32) list"
  ag_socket :: bool
  ag_sent :: "DpNetMsgHeader list"

record dp_bus =
  db_objs :: "nat \<Rightarrow> DpAgent"
  db_agents :: "(u32 \<times> nat) list"
  db_methods :: "(method_name \<times> nat list) list"
  db_num :: u32
  db_server :: "nat list"

definition put_kv :: "'k \<Rightarrow> 'v \<Rightarrow> ('k \<times> 'v) list \<Rightarrow> ('k \<times> 'v) list" where
  "put_kv k v kvs = (k, v) # filter (\<lambda>p. fst p \<noteq> k) kvs"

definition del_kv :: "'k \<Rightarrow> ('k \<times> 'v) list \<Rightarrow> ('k \<times> 'v) list" where
  "del_kv k kvs = filter (\<lambda>p. fst p \<noteq> k) kvs"

text \<open>\<open>method_agents_[method]\<close> creates an empty list for a new key.\<close>

definition listeners :: "dp_bus \<Rightarrow> method_name \<Rightarrow> nat list" where
  "listeners b m = (case map_of (db_methods b) m of None \<Rightarrow> [] | Some as \<Rightarrow> as)"

definition upd_obj :: "nat \<Rightarrow> (DpAgent \<Rightarrow> DpAgent) \<Rightarrow> dp_bus \<Rightarrow> dp_bus" where
  "upd_obj a f b = b\<lparr>db_objs := (db_objs b)(a := f (db_objs b a))\<rparr>"

definition dp_start :: dp_bus where
  "dp_start = \<lparr>db_objs = (\<lambda>_. \<lparr>ag_id = 0, ag_pid = - 1, ag_name = [], ag_methods = [], ag_socket = False,
     ag_sent = []\<rparr>), db_agents = [], db_methods = [], db_num = 0, db_server = []\<rparr>"

section \<open>The manager\<close>

definition AddDpAgent :: "nat \<Rightarrow> dp_bus \<Rightarrow> u32 option \<times> dp_bus" where
  "AddDpAgent a b =
     (if a \<in> snd ` set (db_agents b) then (None, b)
      else let n = db_num b + 1 in (Some n, b\<lparr>db_num := n, db_agents := put_kv n a (db_agents b)\<rparr>))"

definition RemoveAgent :: "u32 \<Rightarrow> dp_bus \<Rightarrow> dp_bus" where
  "RemoveAgent i b =
     (if i = 0 then b
      else case map_of (db_agents b) i of
             None \<Rightarrow> b
           | Some _ \<Rightarrow>
               b\<lparr>db_methods := map (\<lambda>(m, as). (m, filter (\<lambda>a. ag_id (db_objs b a) \<noteq> i) as)) (db_methods b),
                 db_agents := del_kv i (db_agents b)\<rparr>)"

definition GetAgent :: "u32 \<Rightarrow> dp_bus \<Rightarrow> nat option" where
  "GetAgent i b = map_of (db_agents b) i"

definition ag_CheckMessage :: "DpAgent \<Rightarrow> method_name \<Rightarrow> u32 \<Rightarrow> bool" where
  "ag_CheckMessage ag m t =
     (case map_of (ag_methods ag) m of
        None \<Rightarrow> True
      | Some reg_type \<Rightarrow> if reg_type \<noteq> t then False else if t = TYPE_REQUEST then False else True)"

definition CheckMessage :: "method_name \<Rightarrow> u32 \<Rightarrow> dp_bus \<Rightarrow> bool" where
  "CheckMessage m t b \<longleftrightarrow> list_all (\<lambda>p. ag_CheckMessage (db_objs b (snd p)) m t) (db_agents b)"

definition AddAgentBindMethod :: "method_name \<Rightarrow> u32 \<Rightarrow> dp_bus \<Rightarrow> bool \<times> dp_bus" where
  "AddAgentBindMethod m i b =
     (case map_of (db_agents b) i of
        None \<Rightarrow> (False, b)
      | Some a \<Rightarrow>
          if \<exists>c \<in> set (listeners b m). ag_id (db_objs b c) = i
          then (True, b\<lparr>db_methods := put_kv m (listeners b m) (db_methods b)\<rparr>)
          else (True, b\<lparr>db_methods := put_kv m (listeners b m @ [a]) (db_methods b)\<rparr>))"

definition RemoveAgentBindMethod :: "method_name \<Rightarrow> u32 \<Rightarrow> dp_bus \<Rightarrow> bool \<times> dp_bus" where
  "RemoveAgentBindMethod m i b =
     (case map_of (db_agents b) i of
        None \<Rightarrow> (False, b)
      | Some _ \<Rightarrow> (True, b\<lparr>db_methods := put_kv m (filter (\<lambda>c. ag_id (db_objs b c) \<noteq> i) (listeners b m)) (db_methods b)\<rparr>))"

section \<open>Agents\<close>

definition SendMessage :: "nat \<Rightarrow> u32 \<Rightarrow> u32 \<Rightarrow> method_name \<Rightarrow> byte list \<Rightarrow> u32 \<Rightarrow> u32 \<Rightarrow> dp_bus \<Rightarrow> mem_error + bool \<times> dp_bus" where
  "SendMessage a msg_id t m data session_id result b =
     (if \<not> ag_socket (db_objs b a) then Inr (False, b)
      else bindE (HostToNetwork32 False (of_nat (length data))) (\<lambda>n.
        Inr (True, upd_obj a (\<lambda>ag. ag\<lparr>ag_sent := ag_sent ag @
          [\<lparr>dh_type = ucast t, dh_listen_type = 0, dh_method_size = of_nat (length m), dh_process_id = 0,
            dh_message_id = msg_id, dh_session_id = session_id, dh_result = result, dh_data_size = n,
            dh_body = m @ data\<rparr>]\<rparr>) b)))"

text \<open>The message id of a forwarded request: the sender's agent id in the high half, its message id in the low half.\<close>

definition tag_request :: "u32 \<Rightarrow> u32 \<Rightarrow> u32" where
  "tag_request src_id msg_id =
     (let src_agent_id = (ucast src_id :: u16); mid = (ucast (msg_id AND 0x0000ffff) :: u16)
      in push_bit 16 (ucast src_agent_id AND 0x0000ffff) OR (ucast mid AND 0x0000ffff))"

text \<open>The result is the registered type, the packet as the code has changed it, and the bus.\<close>

definition HandleDpMessage :: "nat \<Rightarrow> nat \<Rightarrow> DpNetMsgHeader \<Rightarrow> dp_bus \<Rightarrow> mem_error + u32 \<times> DpNetMsgHeader \<times> dp_bus" where
  "HandleDpMessage dst src h b =
     bindE (dp_method h) (\<lambda>m.
       case map_of (ag_methods (db_objs b dst)) m of
         None \<Rightarrow> Inr (TYPE_INVALID, h, b)
       | Some reg \<Rightarrow>
           bindE (dp_data h) (\<lambda>data.
             let t = ucast (ucast reg :: byte) :: u32;
                 h1 = (if t = TYPE_REQUEST
                       then h\<lparr>dh_message_id := tag_request (ag_id (db_objs b src)) (dh_message_id h)\<rparr> else h)
             in bindE (SendMessage dst (dh_message_id h1) t m data (dh_session_id h1) 0 b) (\<lambda>(_, b1).
                  Inr (t, h1\<lparr>dh_type := ucast t\<rparr>, b1))))"

fun process_loop :: "nat \<Rightarrow> nat list \<Rightarrow> DpNetMsgHeader \<Rightarrow> u32 \<Rightarrow> u32 \<Rightarrow> dp_bus
    \<Rightarrow> mem_error + u32 \<times> u32 \<times> DpNetMsgHeader \<times> dp_bus" where
  "process_loop src [] h num reg_type b = Inr (num, reg_type, h, b)"
| "process_loop src (a # as) h num reg_type b =
     (if a = src \<or> ag_pid (db_objs b a) = dh_process_id h then process_loop src as h num reg_type b
      else bindE (HandleDpMessage a src h b) (\<lambda>(res, h1, b1).
        if res = TYPE_MESSAGE then process_loop src as h1 (num + 1) TYPE_MESSAGE b1
        else if res = TYPE_REQUEST then Inr (1, TYPE_REQUEST, h1, b1)
        else process_loop src as h1 num reg_type b1))"

definition ProcessDpMessage :: "nat \<Rightarrow> DpNetMsgHeader \<Rightarrow> dp_bus \<Rightarrow> mem_error + u32 \<times> u32 \<times> DpNetMsgHeader \<times> dp_bus" where
  "ProcessDpMessage src h b =
     bindE (dp_method h) (\<lambda>m. process_loop src (listeners b m) h 0 TYPE_INVALID b)"

definition OnListenMessage :: "nat \<Rightarrow> DpNetMsgHeader \<Rightarrow> dp_bus \<Rightarrow> mem_error + dp_bus" where
  "OnListenMessage a h b =
     bindE (dp_method h) (\<lambda>m.
       let t = ucast (dh_listen_type h) :: u32
       in if m = [] \<or> (t \<noteq> TYPE_MESSAGE \<and> t \<noteq> TYPE_REQUEST) \<or> \<not> CheckMessage m t b
          then bindE (SendMessage a (dh_message_id h) TYPE_ADD_MESSAGE m [] (dh_session_id h) TYPE_FAILURE b) (\<lambda>(_, b1). Inr b1)
          else
            let b1 = upd_obj a (\<lambda>ag. ag\<lparr>ag_methods := put_kv m t (ag_methods ag)\<rparr>) b;
                (_, b2) = AddAgentBindMethod m (ag_id (db_objs b1 a)) b1
            in bindE (SendMessage a (dh_message_id h) TYPE_ADD_MESSAGE m [] (dh_session_id h) TYPE_SUCCEED b2) (\<lambda>(_, b3). Inr b3))"

definition OnRemoveMessage :: "nat \<Rightarrow> DpNetMsgHeader \<Rightarrow> dp_bus \<Rightarrow> mem_error + dp_bus" where
  "OnRemoveMessage a h b =
     bindE (dp_method h) (\<lambda>m.
       let (_, b1) = RemoveAgentBindMethod m (ag_id (db_objs b a)) b
       in Inr (upd_obj a (\<lambda>ag. ag\<lparr>ag_methods := del_kv m (ag_methods ag)\<rparr>) b1))"

definition OnSetClientName :: "nat \<Rightarrow> DpNetMsgHeader \<Rightarrow> dp_bus \<Rightarrow> mem_error + dp_bus" where
  "OnSetClientName a h b =
     (if unat (dh_method_size h) > 0
      then
        let len = (if unat (dh_method_size h) > 32 then 32 else unat (dh_method_size h))
        in bindE (copy_out (dh_body h) 0 len) (\<lambda>name.
             Inr (upd_obj a (\<lambda>ag. ag\<lparr>ag_pid := dh_process_id h, ag_name := name\<rparr>) b))
      else Inr b)"

definition OnRequestMessage :: "nat \<Rightarrow> DpNetMsgHeader \<Rightarrow> dp_bus \<Rightarrow> mem_error + dp_bus" where
  "OnRequestMessage a h b =
     bindE (dp_method h) (\<lambda>m.
       bindE (ProcessDpMessage a h b) (\<lambda>(num, t, h1, b1).
         if num = 0 \<or> t = TYPE_MESSAGE
         then bindE (SendMessage a (dh_message_id h1) TYPE_REPLY m [] (dh_session_id h1) num b1) (\<lambda>(_, b2). Inr b2)
         else Inr b1))"

definition OnReplayMessage :: "nat \<Rightarrow> DpNetMsgHeader \<Rightarrow> dp_bus \<Rightarrow> mem_error + dp_bus" where
  "OnReplayMessage a h b =
     (let src_msgid = dh_message_id h AND 0x0000ffff;
          src_agent_id = (ucast (drop_bit 16 (dh_message_id h AND 0xffff0000)) :: u16)
      in case GetAgent (ucast src_agent_id) b of
           None \<Rightarrow> bindE (dp_method h) (\<lambda>_. Inr b)
         | Some src \<Rightarrow>
             bindE (dp_method h) (\<lambda>m. bindE (dp_data h) (\<lambda>data.
               bindE (SendMessage src src_msgid TYPE_REPLY m data (dh_session_id h) 1 b) (\<lambda>(_, b1). Inr b1))))"

text \<open>
  A packet arrives; \<open>len\<close> is its size with the header of 24 bytes. \<open>AsyncRead\<close> only arms the read event of the
  socket, which the packet socket does after each chunk as well, so it leaves no trace in the state.
\<close>

definition OnSocketReadComplete :: "nat \<Rightarrow> nat \<Rightarrow> DpNetMsgHeader \<Rightarrow> dp_bus \<Rightarrow> mem_error + dp_bus" where
  "OnSocketReadComplete a len h b =
     (let t = ucast (dh_type h) :: u32
      in if len \<le> 24 then Inr b
         else if t = TYPE_MESSAGE then OnRequestMessage a h b
         else if t = TYPE_REPLY then OnReplayMessage a h b
         else if t = TYPE_ADD_MESSAGE then OnListenMessage a h b
         else if t = TYPE_REMOVE_MESSAGE then OnRemoveMessage a h b
         else if t = TYPE_SET_NAME then OnSetClientName a h b
         else Inr b)"

section \<open>Connections\<close>

definition unnamed :: "byte list" where "unnamed = map of_char ''unnamed''"

text \<open>\<open>OnListenerAcceptEvent\<close>: a new agent object at a fresh address is started and kept by the server.\<close>

definition dp_accept :: "nat \<Rightarrow> dp_bus \<Rightarrow> dp_bus" where
  "dp_accept a b =
     (let b0 = upd_obj a (\<lambda>_. \<lparr>ag_id = 0, ag_pid = - 1, ag_name = unnamed, ag_methods = [], ag_socket = True,
            ag_sent = []\<rparr>) b
      in case AddDpAgent a b0 of
           (None, b1) \<Rightarrow> b1\<lparr>db_server := db_server b1 @ [a]\<rparr>
         | (Some i, b1) \<Rightarrow> (upd_obj a (\<lambda>ag. ag\<lparr>ag_id := i\<rparr>) b1)\<lparr>db_server := db_server b1 @ [a]\<rparr>)"

definition dp_close :: "nat \<Rightarrow> dp_bus \<Rightarrow> dp_bus" where
  "dp_close a b =
     (let b1 = upd_obj a (\<lambda>ag. ag\<lparr>ag_socket := False\<rparr>) b in RemoveAgent (ag_id (db_objs b1 a)) b1)"

definition OnSocketErrorEvent :: "nat \<Rightarrow> dp_bus \<Rightarrow> dp_bus" where
  "OnSocketErrorEvent a b = dp_close a (b\<lparr>db_server := remove1 a (db_server b)\<rparr>)"

section \<open>The registry invariant\<close>

text \<open>
  The two maps of the manager agree with the agents: an id names exactly the connected agent that carries it,
  the listeners of a method are exactly the connected agents that registered it, a method has one type, and
  a request has at most one listener.
\<close>

definition dp_inv :: "dp_bus \<Rightarrow> bool" where
  "dp_inv b \<longleftrightarrow>
     distinct (map fst (db_agents b)) \<and>
     (\<forall>i a. map_of (db_agents b) i = Some a \<longleftrightarrow> ag_socket (db_objs b a) \<and> ag_id (db_objs b a) = i) \<and>
     (\<forall>a. ag_socket (db_objs b a) \<longrightarrow> ag_id (db_objs b a) \<noteq> 0 \<and> ag_id (db_objs b a) \<le> db_num b) \<and>
     (\<forall>m. distinct (listeners b m) \<and>
        set (listeners b m) = {a. ag_socket (db_objs b a) \<and> map_of (ag_methods (db_objs b a)) m \<noteq> None}) \<and>
     (\<forall>a m t. ag_socket (db_objs b a) \<and> map_of (ag_methods (db_objs b a)) m = Some t \<longrightarrow>
        t = TYPE_MESSAGE \<or> t = TYPE_REQUEST) \<and>
     (\<forall>a c m t u. ag_socket (db_objs b a) \<and> map_of (ag_methods (db_objs b a)) m = Some t \<and>
        ag_socket (db_objs b c) \<and> map_of (ag_methods (db_objs b c)) m = Some u \<longrightarrow>
        t = u \<and> (t = TYPE_REQUEST \<longrightarrow> a = c))"

inductive dp_step :: "dp_bus \<Rightarrow> dp_bus \<Rightarrow> bool" where
  step_accept: "\<not> ag_socket (db_objs b a) \<Longrightarrow> a \<notin> set (db_server b) \<Longrightarrow> db_num b \<noteq> - 1 \<Longrightarrow>
     dp_step b (dp_accept a b)"
| step_packet: "ag_socket (db_objs b a) \<Longrightarrow>
     OnSocketReadComplete a len h b = Inr b' \<Longrightarrow> dp_step b b'"
| step_error: "ag_socket (db_objs b a) \<Longrightarrow> dp_step b (OnSocketErrorEvent a b)"

inductive_cases dp_stepE: "dp_step b b'"

text \<open>Two buses with the same registry: they may differ in what was sent and in names.\<close>

definition reg_eq :: "dp_bus \<Rightarrow> dp_bus \<Rightarrow> bool" where
  "reg_eq b b' \<longleftrightarrow> db_agents b' = db_agents b \<and> db_methods b' = db_methods b \<and> db_num b' = db_num b \<and>
     (\<forall>a. ag_id (db_objs b' a) = ag_id (db_objs b a) \<and> ag_methods (db_objs b' a) = ag_methods (db_objs b a) \<and>
        ag_socket (db_objs b' a) = ag_socket (db_objs b a))"

lemma reg_eq_refl [simp]: "reg_eq b b"
  by (simp add: reg_eq_def)

lemma reg_eq_trans [trans]: "reg_eq a b \<Longrightarrow> reg_eq b c \<Longrightarrow> reg_eq a c"
  by (simp add: reg_eq_def)

lemma reg_eq_inv: "reg_eq b b' \<Longrightarrow> dp_inv b' = dp_inv b"
  by (simp add: reg_eq_def dp_inv_def listeners_def)

lemma upd_obj_simps [simp]:
  "db_objs (upd_obj a f b) = (db_objs b)(a := f (db_objs b a))" "db_agents (upd_obj a f b) = db_agents b"
  "db_methods (upd_obj a f b) = db_methods b" "db_num (upd_obj a f b) = db_num b"
  "db_server (upd_obj a f b) = db_server b" "listeners (upd_obj a f b) m = listeners b m"
  by (simp_all add: upd_obj_def listeners_def)

lemma reg_eq_upd:
  "(\<And>x. ag_id (f x) = ag_id x \<and> ag_methods (f x) = ag_methods x \<and> ag_socket (f x) = ag_socket x) \<Longrightarrow>
     reg_eq b (upd_obj a f b)"
  by (simp add: reg_eq_def)

text \<open>Sending is total: a packet is appended to the peer's stream when it is connected.\<close>

definition packet :: "u32 \<Rightarrow> u32 \<Rightarrow> method_name \<Rightarrow> byte list \<Rightarrow> u32 \<Rightarrow> u32 \<Rightarrow> DpNetMsgHeader" where
  "packet msg_id t m data session_id result =
     \<lparr>dh_type = ucast t, dh_listen_type = 0, dh_method_size = of_nat (length m), dh_process_id = 0,
      dh_message_id = msg_id, dh_session_id = session_id, dh_result = result,
      dh_data_size = host_word False (be_bytes 4 (of_nat (length data) :: u32)), dh_body = m @ data\<rparr>"

definition deliver :: "nat \<Rightarrow> DpNetMsgHeader \<Rightarrow> dp_bus \<Rightarrow> dp_bus" where
  "deliver a p b =
     (if ag_socket (db_objs b a) then upd_obj a (\<lambda>ag. ag\<lparr>ag_sent := ag_sent ag @ [p]\<rparr>) b else b)"

lemma SendMessage_eq:
  "SendMessage a msg_id t m data session_id result b =
     Inr (ag_socket (db_objs b a), deliver a (packet msg_id t m data session_id result) b)"
  by (simp add: SendMessage_def deliver_def packet_def HostToNetwork_eq)

lemma deliver_reg_eq [simp]: "reg_eq b (deliver a p b)"
  by (simp add: deliver_def reg_eq_upd)

lemma HandleDpMessage_reg_eq: "HandleDpMessage dst src h b = Inr (t, h1, b1) \<Longrightarrow> reg_eq b b1"
  by (auto simp: HandleDpMessage_def SendMessage_eq bindE_Inr_iff Let_def split: option.splits)

lemma process_loop_reg_eq: "process_loop src as h num t b = Inr (n, r, h', b') \<Longrightarrow> reg_eq b b'"
proof (induction as arbitrary: h num t b)
  case (Cons a as)
  show ?case
  proof (cases "a = src \<or> ag_pid (db_objs b a) = dh_process_id h")
    case True
    with Cons show ?thesis by simp
  next
    case False
    with Cons.prems obtain res h1 b1 where hm: "HandleDpMessage a src h b = Inr (res, h1, b1)"
      by (auto simp: bindE_Inr_iff)
    with False Cons.prems have "b1 = b' \<or> (\<exists>num' t'. process_loop src as h1 num' t' b1 = Inr (n, r, h', b'))"
      by (auto split: if_splits)
    with Cons.IH HandleDpMessage_reg_eq [OF hm] show ?thesis by (auto intro: reg_eq_trans)
  qed
qed simp

lemma OnRequestMessage_reg_eq: "OnRequestMessage a h b = Inr b' \<Longrightarrow> reg_eq b b'"
  by (auto simp: OnRequestMessage_def ProcessDpMessage_def bindE_Inr_iff SendMessage_eq split: if_splits
      dest!: process_loop_reg_eq intro: reg_eq_trans)

lemma OnReplayMessage_reg_eq: "OnReplayMessage a h b = Inr b' \<Longrightarrow> reg_eq b b'"
  by (auto simp: OnReplayMessage_def bindE_Inr_iff SendMessage_eq Let_def split: option.splits)

lemma OnSetClientName_reg_eq: "OnSetClientName a h b = Inr b' \<Longrightarrow> reg_eq b b'"
  by (auto simp: OnSetClientName_def bindE_Inr_iff Let_def reg_eq_upd split: if_splits)

lemma map_of_put_kv: "map_of (put_kv k v kvs) = (map_of kvs)(k \<mapsto> v)"
proof (rule ext)
  fix x show "map_of (put_kv k v kvs) x = ((map_of kvs)(k \<mapsto> v)) x"
    by (induction kvs) (auto simp: put_kv_def)
qed

lemma map_of_del_kv: "map_of (del_kv k kvs) = (map_of kvs)(k := None)"
proof (rule ext)
  fix x show "map_of (del_kv k kvs) x = ((map_of kvs)(k := None)) x"
    by (induction kvs) (auto simp: del_kv_def)
qed

lemma distinct_put_kv: "distinct (map fst kvs) \<Longrightarrow> distinct (map fst (put_kv k v kvs))"
  by (auto simp: put_kv_def distinct_map_filter)

lemma distinct_del_kv: "distinct (map fst kvs) \<Longrightarrow> distinct (map fst (del_kv k kvs))"
  by (auto simp: del_kv_def distinct_map_filter)

lemma map_of_map_val: "map_of (map (\<lambda>(m, as). (m, f as)) kvs) x = map_option f (map_of kvs x)"
  by (induction kvs) auto

lemma inv_agent:
  "dp_inv b \<Longrightarrow> map_of (db_agents b) i = Some a \<longleftrightarrow> ag_socket (db_objs b a) \<and> ag_id (db_objs b a) = i"
  unfolding dp_inv_def by blast

lemma inv_agents_set:
  assumes "dp_inv b" shows "snd ` set (db_agents b) = {a. ag_socket (db_objs b a)}"
proof -
  have "distinct (map fst (db_agents b))" using assms by (simp add: dp_inv_def)
  then have s: "(i, a) \<in> set (db_agents b) \<longleftrightarrow> ag_socket (db_objs b a) \<and> ag_id (db_objs b a) = i" for i a
    using inv_agent [OF assms] by simp
  then have "a \<in> snd ` set (db_agents b) \<longleftrightarrow> ag_socket (db_objs b a)" for a
    by (metis (no_types, lifting) imageE image_eqI prod.collapse snd_conv)
  then show ?thesis by blast
qed

lemma inv_listeners:
  assumes "dp_inv b" shows "distinct (listeners b m)"
    and "a \<in> set (listeners b m) \<longleftrightarrow> ag_socket (db_objs b a) \<and> map_of (ag_methods (db_objs b a)) m \<noteq> None"
  using assms unfolding dp_inv_def by blast+

lemma inv_type:
  "dp_inv b \<Longrightarrow> ag_socket (db_objs b a) \<Longrightarrow> map_of (ag_methods (db_objs b a)) m = Some t \<Longrightarrow>
     t = TYPE_MESSAGE \<or> t = TYPE_REQUEST"
  unfolding dp_inv_def by blast

lemma inv_same_type:
  "dp_inv b \<Longrightarrow> ag_socket (db_objs b a) \<Longrightarrow> map_of (ag_methods (db_objs b a)) m = Some t \<Longrightarrow>
     ag_socket (db_objs b c) \<Longrightarrow> map_of (ag_methods (db_objs b c)) m = Some u \<Longrightarrow>
     t = u \<and> (t = TYPE_REQUEST \<longrightarrow> a = c)"
  unfolding dp_inv_def by blast

lemma inv_ids:
  "dp_inv b \<Longrightarrow> ag_socket (db_objs b a) \<Longrightarrow> ag_id (db_objs b a) \<noteq> 0 \<and> ag_id (db_objs b a) \<le> db_num b"
  unfolding dp_inv_def by blast

lemma inv_CheckMessage:
  assumes "dp_inv b"
  shows "CheckMessage m t b \<longleftrightarrow> (\<forall>a. ag_socket (db_objs b a) \<longrightarrow> ag_CheckMessage (db_objs b a) m t)"
proof -
  have "CheckMessage m t b \<longleftrightarrow> (\<forall>a \<in> snd ` set (db_agents b). ag_CheckMessage (db_objs b a) m t)"
    by (simp add: CheckMessage_def list_all_iff)
  then show ?thesis by (simp add: inv_agents_set [OF assms])
qed

lemma dp_invI:
  assumes "distinct (map fst (db_agents b))"
    and "\<And>i a. map_of (db_agents b) i = Some a \<longleftrightarrow> ag_socket (db_objs b a) \<and> ag_id (db_objs b a) = i"
    and "\<And>a. ag_socket (db_objs b a) \<Longrightarrow> ag_id (db_objs b a) \<noteq> 0 \<and> ag_id (db_objs b a) \<le> db_num b"
    and "\<And>m. distinct (listeners b m)"
    and "\<And>m a. a \<in> set (listeners b m) \<longleftrightarrow> ag_socket (db_objs b a) \<and> map_of (ag_methods (db_objs b a)) m \<noteq> None"
    and "\<And>a m t. ag_socket (db_objs b a) \<Longrightarrow> map_of (ag_methods (db_objs b a)) m = Some t \<Longrightarrow>
        t = TYPE_MESSAGE \<or> t = TYPE_REQUEST"
    and "\<And>a c m t u. ag_socket (db_objs b a) \<Longrightarrow> map_of (ag_methods (db_objs b a)) m = Some t \<Longrightarrow>
        ag_socket (db_objs b c) \<Longrightarrow> map_of (ag_methods (db_objs b c)) m = Some u \<Longrightarrow>
        t = u \<and> (t = TYPE_REQUEST \<longrightarrow> a = c)"
  shows "dp_inv b"
proof -
  have 1: "\<forall>i a. map_of (db_agents b) i = Some a \<longleftrightarrow> ag_socket (db_objs b a) \<and> ag_id (db_objs b a) = i"
    using assms(2) by blast
  have 2: "\<forall>a. ag_socket (db_objs b a) \<longrightarrow> ag_id (db_objs b a) \<noteq> 0 \<and> ag_id (db_objs b a) \<le> db_num b"
    using assms(3) by blast
  have 3: "set (listeners b m) = {a. ag_socket (db_objs b a) \<and> map_of (ag_methods (db_objs b a)) m \<noteq> None}" for m
    using assms(5) by blast
  show ?thesis unfolding dp_inv_def
    by (intro conjI assms(1) 1 2 allI assms(4) 3) (use assms(6,7) in blast)+
qed

lemma put_kv_listeners:
  "listeners (c\<lparr>db_methods := put_kv m as (db_methods b)\<rparr>) m' = (if m' = m then as else listeners b m')"
  by (simp add: listeners_def map_of_put_kv)

text \<open>A change of the methods of one connected agent, with the listeners changed to match.\<close>

lemma methods_inv:
  assumes inv: "dp_inv b" and sock: "ag_socket (db_objs b a)"
    and agents: "db_agents b' = db_agents b" "db_num b' = db_num b"
    and same: "\<And>c. ag_id (db_objs b' c) = ag_id (db_objs b c) \<and> ag_socket (db_objs b' c) = ag_socket (db_objs b c)"
    and meths: "\<And>c. map_of (ag_methods (db_objs b' c)) =
       (if c = a then (map_of (ag_methods (db_objs b a)))(m := r) else map_of (ag_methods (db_objs b c)))"
    and others: "\<And>m'. m' \<noteq> m \<Longrightarrow> listeners b' m' = listeners b m'"
    and dist: "distinct (listeners b' m)"
    and lst: "\<And>c. c \<in> set (listeners b' m) \<longleftrightarrow> (if c = a then r \<noteq> None else c \<in> set (listeners b m))"
    and kinds: "\<And>t. r = Some t \<Longrightarrow> t = TYPE_MESSAGE \<or> t = TYPE_REQUEST"
    and uniq: "\<And>t c u. r = Some t \<Longrightarrow> c \<noteq> a \<Longrightarrow> ag_socket (db_objs b c) \<Longrightarrow>
       map_of (ag_methods (db_objs b c)) m = Some u \<Longrightarrow> u = t \<and> t \<noteq> TYPE_REQUEST"
  shows "dp_inv b'"
proof (rule dp_invI)
  show "distinct (map fst (db_agents b'))" using inv by (simp add: dp_inv_def agents)
  show "map_of (db_agents b') i = Some c \<longleftrightarrow> ag_socket (db_objs b' c) \<and> ag_id (db_objs b' c) = i" for i c
    using inv_agent [OF inv] same by (simp add: agents)
  show "ag_id (db_objs b' c) \<noteq> 0 \<and> ag_id (db_objs b' c) \<le> db_num b'" if "ag_socket (db_objs b' c)" for c
    using inv_ids [OF inv, of c] that same [of c] by (simp add: agents)
  show "distinct (listeners b' m')" for m'
    using dist others inv_listeners(1) [OF inv] by (cases "m' = m") auto
  show "c \<in> set (listeners b' m') \<longleftrightarrow>
      ag_socket (db_objs b' c) \<and> map_of (ag_methods (db_objs b' c)) m' \<noteq> None" for m' c
    using lst others same sock inv_listeners(2) [OF inv] by (cases "m' = m") (auto simp: meths)
  show "t = TYPE_MESSAGE \<or> t = TYPE_REQUEST"
    if "ag_socket (db_objs b' c)" "map_of (ag_methods (db_objs b' c)) m' = Some t" for c m' t
    using that kinds same sock inv_type [OF inv] by (auto simp: meths split: if_splits)
  show "t = u \<and> (t = TYPE_REQUEST \<longrightarrow> c = d)"
    if "ag_socket (db_objs b' c)" "map_of (ag_methods (db_objs b' c)) m' = Some t"
      "ag_socket (db_objs b' d)" "map_of (ag_methods (db_objs b' d)) m' = Some u" for c d m' t u
  proof (cases "m' = m \<and> (c = a \<or> d = a)")
    case True
    then consider "m' = m" "c = a" "d = a" | "m' = m" "c = a" "d \<noteq> a" | "m' = m" "c \<noteq> a" "d = a" by blast
    then show ?thesis
    proof cases
      case 1 with that show ?thesis by simp
    next
      case 2 with that same uniq [of t d u] show ?thesis by (simp add: meths)
    next
      case 3 with that same uniq [of u c t] show ?thesis by (auto simp: meths)
    qed
  next
    case False
    with that same inv_same_type [OF inv, of c m' t d u] show ?thesis by (auto simp: meths split: if_splits)
  qed
qed

text \<open>Registration: what \<open>OnListenMessage\<close> does to the registry once its checks have passed.\<close>

lemma listen_inv:
  assumes inv: "dp_inv b" and sock: "ag_socket (db_objs b a)" and chk: "CheckMessage m t b"
    and t: "t = TYPE_MESSAGE \<or> t = TYPE_REQUEST"
    and b1: "b1 = upd_obj a (\<lambda>ag. ag\<lparr>ag_methods := put_kv m t (ag_methods ag)\<rparr>) b"
  shows "dp_inv (snd (AddAgentBindMethod m (ag_id (db_objs b1 a)) b1))"
proof -
  let ?i = "ag_id (db_objs b a)"
  let ?as = "if a \<in> set (listeners b m) then listeners b m else listeners b m @ [a]"
  have reg: "map_of (db_agents b1) ?i = Some a" using inv_agent [OF inv] sock by (simp add: b1)
  have "(\<exists>c \<in> set (listeners b m). ag_id (db_objs b c) = ?i) \<longleftrightarrow> a \<in> set (listeners b m)"
    using inv_listeners(2) [OF inv] inv_agent [OF inv] sock by (metis option.inject)
  then have "snd (AddAgentBindMethod m (ag_id (db_objs b1 a)) b1) = b1\<lparr>db_methods := put_kv m ?as (db_methods b1)\<rparr>"
    using reg by (auto simp: AddAgentBindMethod_def b1)
  moreover have "u = t \<and> t \<noteq> TYPE_REQUEST"
    if "ag_socket (db_objs b c)" "map_of (ag_methods (db_objs b c)) m = Some u" for c u
    using chk that unfolding inv_CheckMessage [OF inv] ag_CheckMessage_def by (auto split: if_splits)
  ultimately show ?thesis using inv_listeners(1) [OF inv, of m] t
    by (intro methods_inv [OF inv sock, where m = m and r = "Some t"]) (auto simp: b1 map_of_put_kv put_kv_listeners)
qed

definition listen_ok :: "method_name \<Rightarrow> u32 \<Rightarrow> dp_bus \<Rightarrow> bool" where
  "listen_ok m t b \<longleftrightarrow> m \<noteq> [] \<and> (t = TYPE_MESSAGE \<or> t = TYPE_REQUEST) \<and> CheckMessage m t b"

lemma OnListenMessage_eq:
  assumes "dp_method h = Inr m" and t: "t = ucast (dh_listen_type h)"
    and b1: "b1 = upd_obj a (\<lambda>ag. ag\<lparr>ag_methods := put_kv m t (ag_methods ag)\<rparr>) b"
  shows "OnListenMessage a h b = Inr (if listen_ok m t b
     then deliver a (packet (dh_message_id h) TYPE_ADD_MESSAGE m [] (dh_session_id h) TYPE_SUCCEED)
            (snd (AddAgentBindMethod m (ag_id (db_objs b1 a)) b1))
     else deliver a (packet (dh_message_id h) TYPE_ADD_MESSAGE m [] (dh_session_id h) TYPE_FAILURE) b)"
  unfolding OnListenMessage_def assms(1) bindE_simps Let_def t [symmetric] b1 [symmetric] listen_ok_def
    SendMessage_eq case_prod_beta snd_conv by simp

lemma OnListenMessage_inv:
  assumes "dp_inv b" "ag_socket (db_objs b a)" "OnListenMessage a h b = Inr b'"
  shows "dp_inv b'"
proof -
  from assms(3) obtain m where m: "dp_method h = Inr m" by (auto simp: OnListenMessage_def bindE_Inr_iff)
  define t :: u32 where "t = ucast (dh_listen_type h)"
  show ?thesis
    using assms(3) listen_inv [OF assms(1,2) _ _ refl, of m t] assms(1)
    unfolding OnListenMessage_eq [OF m t_def refl]
    by (cases "listen_ok m t b") (auto simp: reg_eq_inv [OF deliver_reg_eq] listen_ok_def)
qed

lemma OnRemoveMessage_inv:
  assumes inv: "dp_inv b" and sock: "ag_socket (db_objs b a)" and r: "OnRemoveMessage a h b = Inr b'"
  shows "dp_inv b'"
proof -
  let ?i = "ag_id (db_objs b a)"
  have "map_of (db_agents b) ?i = Some a" using inv_agent [OF inv] sock by simp
  with r obtain m where b': "b' = upd_obj a (\<lambda>ag. ag\<lparr>ag_methods := del_kv m (ag_methods ag)\<rparr>)
      (b\<lparr>db_methods := put_kv m (filter (\<lambda>c. ag_id (db_objs b c) \<noteq> ?i) (listeners b m)) (db_methods b)\<rparr>)"
    by (auto simp: OnRemoveMessage_def RemoveAgentBindMethod_def bindE_Inr_iff)
  have "c \<in> set (listeners b m) \<Longrightarrow> ag_id (db_objs b c) = ?i \<longleftrightarrow> c = a" for c
    using inv_listeners(2) [OF inv] inv_agent [OF inv] sock by (metis option.inject)
  then show ?thesis using inv_listeners(1) [OF inv, of m]
    by (intro methods_inv [OF inv sock, where m = m and r = None]) (auto simp: b' map_of_del_kv put_kv_listeners)
qed

lemma OnSocketReadComplete_inv:
  assumes "dp_inv b" "ag_socket (db_objs b a)" "OnSocketReadComplete a len h b = Inr b'"
  shows "dp_inv b'"
  using assms OnListenMessage_inv [OF assms(1,2), of h b'] OnRemoveMessage_inv [OF assms(1,2), of h b']
    OnRequestMessage_reg_eq [of a h b b'] OnReplayMessage_reg_eq [of a h b b'] OnSetClientName_reg_eq [of a h b b']
    reg_eq_inv [of b b']
  unfolding OnSocketReadComplete_def Let_def by (auto split: if_split_asm)

lemma word_inc_le: "(n :: u32) \<noteq> - 1 \<Longrightarrow> i \<le> n \<Longrightarrow> i \<noteq> n + 1 \<and> i \<le> n + 1 \<and> n + 1 \<noteq> 0"
proof -
  assume n: "n \<noteq> - 1" and i: "i \<le> n"
  have z: "1 + n \<noteq> 0" using n by (metis add_eq_0_iff)
  then have "unat (n + 1) = Suc (unat n)" by (subst add.commute) (rule unatSuc)
  moreover have "unat i \<le> unat n" using i by (simp add: word_le_nat_alt)
  ultimately have "unat i \<noteq> unat (n + 1)" "unat i \<le> unat (n + 1)" by linarith+
  then show ?thesis using z by (auto simp: word_le_nat_alt add.commute)
qed

lemma dp_accept_inv:
  assumes inv: "dp_inv b" and fresh: "\<not> ag_socket (db_objs b a)" and num: "db_num b \<noteq> - 1"
  shows "dp_inv (dp_accept a b)"
proof -
  let ?n = "db_num b + 1"
  let ?b = "dp_accept a b"
  have new: "a \<notin> snd ` set (db_agents b)" using inv_agents_set [OF inv] fresh by simp
  then have agents: "db_agents ?b = put_kv ?n a (db_agents b)" "db_num ?b = ?n" and l: "\<And>m. listeners ?b m = listeners b m"
    and objs: "db_objs ?b = (db_objs b)(a := \<lparr>ag_id = ?n, ag_pid = - 1, ag_name = unnamed, ag_methods = [],
        ag_socket = True, ag_sent = []\<rparr>)"
    by (simp_all add: dp_accept_def AddDpAgent_def listeners_def Let_def)
  have ids: "ag_socket (db_objs b c) \<Longrightarrow> ag_id (db_objs b c) \<noteq> 0 \<and> ag_id (db_objs b c) \<noteq> ?n \<and> ag_id (db_objs b c) \<le> ?n" for c
    using inv_ids [OF inv, of c] word_inc_le [OF num] by blast
  show ?thesis
  proof (rule dp_invI)
    show "distinct (map fst (db_agents ?b))" unfolding agents by (rule distinct_put_kv) (use inv in \<open>simp add: dp_inv_def\<close>)
    show "map_of (db_agents ?b) i = Some c \<longleftrightarrow> ag_socket (db_objs ?b c) \<and> ag_id (db_objs ?b c) = i" for i c
      using inv_agent [OF inv] fresh ids by (auto simp: agents objs map_of_put_kv)
    show "ag_id (db_objs ?b c) \<noteq> 0 \<and> ag_id (db_objs ?b c) \<le> db_num ?b" if "ag_socket (db_objs ?b c)" for c
      using that ids [of c] word_inc_le [OF num order_refl] by (auto simp: agents objs split: if_splits)
    show "distinct (listeners ?b m)" for m using inv_listeners(1) [OF inv] by (simp add: l)
    show "c \<in> set (listeners ?b m) \<longleftrightarrow> ag_socket (db_objs ?b c) \<and> map_of (ag_methods (db_objs ?b c)) m \<noteq> None" for m c
      using inv_listeners(2) [OF inv] fresh by (auto simp: l objs)
    show "t = TYPE_MESSAGE \<or> t = TYPE_REQUEST"
      if "ag_socket (db_objs ?b c)" "map_of (ag_methods (db_objs ?b c)) m = Some t" for c m t
      using that inv_type [OF inv, of c m t] by (auto simp: objs split: if_splits)
    show "t = u \<and> (t = TYPE_REQUEST \<longrightarrow> c = d)"
      if "ag_socket (db_objs ?b c)" "map_of (ag_methods (db_objs ?b c)) m = Some t"
        "ag_socket (db_objs ?b d)" "map_of (ag_methods (db_objs ?b d)) m = Some u" for c d m t u
      using that inv_same_type [OF inv, of c m t d u] by (auto simp: objs split: if_splits)
  qed
qed

lemma dp_close_inv:
  assumes inv: "dp_inv b" and sock: "ag_socket (db_objs b a)"
  shows "dp_inv (dp_close a b)"
proof -
  let ?i = "ag_id (db_objs b a)"
  let ?b = "dp_close a b"
  have "map_of (db_agents b) ?i = Some a" "?i \<noteq> 0" using inv_agent [OF inv] sock inv_ids [OF inv] by simp_all
  then have agents: "db_agents ?b = del_kv ?i (db_agents b)" "db_num ?b = db_num b"
    and objs: "db_objs ?b = (db_objs b)(a := (db_objs b a)\<lparr>ag_socket := False\<rparr>)"
    and l: "\<And>m. listeners ?b m = filter (\<lambda>c. ag_id (db_objs b c) \<noteq> ?i) (listeners b m)"
    by (auto simp: dp_close_def RemoveAgent_def Let_def listeners_def map_of_map_val split: option.split
        intro!: filter_cong)
  have ids: "ag_socket (db_objs b c) \<Longrightarrow> ag_id (db_objs b c) = ?i \<longleftrightarrow> c = a" for c
    using inv_agent [OF inv] sock by (metis option.inject)
  show ?thesis
  proof (rule dp_invI)
    show "distinct (map fst (db_agents ?b))" unfolding agents by (rule distinct_del_kv) (use inv in \<open>simp add: dp_inv_def\<close>)
    show "map_of (db_agents ?b) i = Some c \<longleftrightarrow> ag_socket (db_objs ?b c) \<and> ag_id (db_objs ?b c) = i" for i c
      using inv_agent [OF inv] ids by (auto simp: agents objs map_of_del_kv)
    show "ag_id (db_objs ?b c) \<noteq> 0 \<and> ag_id (db_objs ?b c) \<le> db_num ?b" if "ag_socket (db_objs ?b c)" for c
      using that inv_ids [OF inv, of c] by (auto simp: agents objs split: if_splits)
    show "distinct (listeners ?b m)" for m using inv_listeners(1) [OF inv] by (simp add: l)
    show "c \<in> set (listeners ?b m) \<longleftrightarrow> ag_socket (db_objs ?b c) \<and> map_of (ag_methods (db_objs ?b c)) m \<noteq> None" for m c
      using inv_listeners(2) [OF inv] ids by (auto simp: l objs)
    show "t = TYPE_MESSAGE \<or> t = TYPE_REQUEST"
      if "ag_socket (db_objs ?b c)" "map_of (ag_methods (db_objs ?b c)) m = Some t" for c m t
      using that inv_type [OF inv, of c m t] by (auto simp: objs split: if_splits)
    show "t = u \<and> (t = TYPE_REQUEST \<longrightarrow> c = d)"
      if "ag_socket (db_objs ?b c)" "map_of (ag_methods (db_objs ?b c)) m = Some t"
        "ag_socket (db_objs ?b d)" "map_of (ag_methods (db_objs ?b d)) m = Some u" for c d m t u
      using that inv_same_type [OF inv, of c m t d u] by (auto simp: objs split: if_splits)
  qed
qed

lemma OnSocketErrorEvent_inv:
  assumes "dp_inv b" "ag_socket (db_objs b a)" shows "dp_inv (OnSocketErrorEvent a b)"
proof -
  let ?b = "b\<lparr>db_server := remove1 a (db_server b)\<rparr>"
  have "reg_eq b ?b" by (simp add: reg_eq_def)
  with assms have "dp_inv ?b" by (simp add: reg_eq_inv)
  with assms show ?thesis unfolding OnSocketErrorEvent_def by (intro dp_close_inv) auto
qed

lemma dp_start_inv: "dp_inv dp_start"
  by (simp add: dp_inv_def dp_start_def listeners_def)

interpretation bus: transition_system dp_start dp_step dp_inv
proof
  show "dp_inv dp_start" by (rule dp_start_inv)
  show "dp_inv b'" if "dp_inv b" "dp_step b b'" for b b'
    using that(2) that(1)
    by (cases rule: dp_step.cases) (auto intro: dp_accept_inv OnSocketReadComplete_inv OnSocketErrorEvent_inv)
qed

section \<open>Delivery\<close>

lemma deliver_simps [simp]:
  "ag_id (db_objs (deliver a p b) c) = ag_id (db_objs b c)" "ag_pid (db_objs (deliver a p b) c) = ag_pid (db_objs b c)"
  "ag_methods (db_objs (deliver a p b) c) = ag_methods (db_objs b c)"
  "ag_socket (db_objs (deliver a p b) c) = ag_socket (db_objs b c)"
  "db_agents (deliver a p b) = db_agents b"
  by (simp_all add: deliver_def)

lemma sent_deliver:
  "ag_socket (db_objs b a) \<Longrightarrow>
     ag_sent (db_objs (deliver a p b) c) = ag_sent (db_objs b c) @ (if c = a then [p] else [])"
  by (simp add: deliver_def)

lemma sent_deliver_all:
  "distinct as \<Longrightarrow> \<forall>a \<in> set as. ag_socket (db_objs b a) \<Longrightarrow>
     ag_sent (db_objs (fold (\<lambda>a. deliver a p) as b) c) = ag_sent (db_objs b c) @ (if c \<in> set as then [p] else [])"
  by (induction as arbitrary: b) (auto simp: sent_deliver)

lemma socket_deliver_all: "ag_socket (db_objs (fold (\<lambda>a. deliver a p) as b) c) = ag_socket (db_objs b c)"
  by (induction as arbitrary: b) auto

lemma type_casts [simp]:
  "ucast (ucast TYPE_MESSAGE :: byte) = TYPE_MESSAGE" "ucast (ucast TYPE_REQUEST :: byte) = TYPE_REQUEST"
  "TYPE_MESSAGE \<noteq> TYPE_REQUEST" "TYPE_REQUEST \<noteq> TYPE_MESSAGE" "TYPE_INVALID \<noteq> TYPE_MESSAGE" "TYPE_INVALID \<noteq> TYPE_REQUEST"
  by (simp_all add: TYPE_MESSAGE_def TYPE_REQUEST_def TYPE_INVALID_def)

lemma header_upd [simp]:
  "dp_method (h\<lparr>dh_type := x\<rparr>) = dp_method h" "dp_data (h\<lparr>dh_type := x\<rparr>) = dp_data h"
  by (simp_all add: dp_method_def dp_data_def)

lemma process_loop_broadcast:
  assumes "dp_method h = Inr m" "dp_data h = Inr data"
    and "\<forall>c \<in> set as. map_of (ag_methods (db_objs b c)) m = Some TYPE_MESSAGE"
    and "T = filter (\<lambda>c. c \<noteq> src \<and> ag_pid (db_objs b c) \<noteq> dh_process_id h) as"
  shows "\<exists>h'. process_loop src as h num t b =
       Inr (num + of_nat (length T), if T = [] then t else TYPE_MESSAGE, h',
         fold (\<lambda>c. deliver c (packet (dh_message_id h) TYPE_MESSAGE m data (dh_session_id h) 0)) T b) \<and>
     dh_message_id h' = dh_message_id h \<and> dh_session_id h' = dh_session_id h"
  using assms
proof (induction as arbitrary: h num t b T)
  case (Cons a as)
  let ?p = "packet (dh_message_id h) TYPE_MESSAGE m data (dh_session_id h) 0"
  show ?case
  proof (cases "a = src \<or> ag_pid (db_objs b a) = dh_process_id h")
    case True
    from Cons.prems True have "T = filter (\<lambda>c. c \<noteq> src \<and> ag_pid (db_objs b c) \<noteq> dh_process_id h) as" by auto
    from Cons.IH [OF Cons.prems(1,2) _ this] Cons.prems True show ?thesis by simp
  next
    case False
    let ?T = "filter (\<lambda>c. c \<noteq> src \<and> ag_pid (db_objs b c) \<noteq> dh_process_id h) as"
    have "HandleDpMessage a src h b = Inr (TYPE_MESSAGE, h\<lparr>dh_type := ucast TYPE_MESSAGE\<rparr>, deliver a ?p b)"
      using Cons.prems by (simp add: HandleDpMessage_def SendMessage_eq Let_def)
    with False have loop: "process_loop src (a # as) h num t b =
        process_loop src as (h\<lparr>dh_type := ucast TYPE_MESSAGE\<rparr>) (num + 1) TYPE_MESSAGE (deliver a ?p b)" by simp
    from Cons.IH [of "h\<lparr>dh_type := ucast TYPE_MESSAGE\<rparr>" "deliver a ?p b" ?T "num + 1" TYPE_MESSAGE] Cons.prems False
    show ?thesis unfolding loop by (simp add: add.assoc)
  qed
qed simp

text \<open>C10. A broadcast on a reachable bus: the packet of a connected client goes, once and with its message id,
  session and data, to every connected client that registered the method as a message, except the sender and
  the clients of the same process; the sender is told how many they were, and nobody else gets anything.\<close>

theorem broadcast_delivers:
  assumes "reach dp_step dp_start b" and "ag_socket (db_objs b a)"
    and "dp_method h = Inr m" and "dp_data h = Inr data"
    and "\<forall>c \<in> set (listeners b m). map_of (ag_methods (db_objs b c)) m = Some TYPE_MESSAGE"
  defines "T \<equiv> {c. ag_socket (db_objs b c) \<and> map_of (ag_methods (db_objs b c)) m \<noteq> None \<and> c \<noteq> a \<and>
      ag_pid (db_objs b c) \<noteq> dh_process_id h}"
  shows "\<exists>b'. OnRequestMessage a h b = Inr b' \<and>
     (\<forall>c. ag_sent (db_objs b' c) = ag_sent (db_objs b c) @
        (if c \<in> T then [packet (dh_message_id h) TYPE_MESSAGE m data (dh_session_id h) 0] else []) @
        (if c = a then [packet (dh_message_id h) TYPE_REPLY m [] (dh_session_id h) (of_nat (card T))] else []))"
proof -
  have inv: "dp_inv b" using assms(1) by (rule bus.reach_inv)
  define as where "as = filter (\<lambda>c. c \<noteq> a \<and> ag_pid (db_objs b c) \<noteq> dh_process_id h) (listeners b m)"
  let ?p = "packet (dh_message_id h) TYPE_MESSAGE m data (dh_session_id h) 0"
  let ?b = "fold (\<lambda>c. deliver c ?p) as b"
  have d: "distinct as" and sT: "set as = T" and sock: "\<forall>c \<in> set as. ag_socket (db_objs b c)"
    using inv_listeners [OF inv, where m = m] by (auto simp: as_def T_def inv_listeners(2) [OF inv])
  then have card: "length as = card T" by (metis distinct_card)
  from process_loop_broadcast [OF assms(3,4,5) as_def, where num = 0 and t = TYPE_INVALID] obtain h' where
    "ProcessDpMessage a h b = Inr (of_nat (length as), if as = [] then TYPE_INVALID else TYPE_MESSAGE, h', ?b)"
    and h': "dh_message_id h' = dh_message_id h" "dh_session_id h' = dh_session_id h"
    by (auto simp: ProcessDpMessage_def assms(3))
  then have "OnRequestMessage a h b =
      Inr (deliver a (packet (dh_message_id h) TYPE_REPLY m [] (dh_session_id h) (of_nat (card T))) ?b)"
    by (cases "as = []") (simp_all add: OnRequestMessage_def assms(3) SendMessage_eq card [symmetric])
  then show ?thesis using assms(2) d sock by (simp add: sent_deliver socket_deliver_all sent_deliver_all sT)
qed

text \<open>The sizes in the header are not checked against the packet: a method size past the end of the body is an
  access out of bounds for every kind of packet.\<close>

lemma oversized_method_overreads:
  assumes "24 < len" and "length (dh_body h) < unat (dh_method_size h)" and "unat (dh_method_size h) \<le> 32 \<or> dh_type h \<noteq> 11"
    and "dh_type h \<in> {0, 8, 9, 11}"
  shows "OnSocketReadComplete a len h b = Inl OutOfBounds"
  using assms by (auto simp: OnSocketReadComplete_def TYPE_MESSAGE_def TYPE_REPLY_def TYPE_ADD_MESSAGE_def
      TYPE_REMOVE_MESSAGE_def TYPE_SET_NAME_def OnRequestMessage_def OnListenMessage_def OnRemoveMessage_def
      OnSetClientName_def dp_method_def copy_out_def)

section \<open>Requests and replies\<close>

lemma mask16: "(0x0000ffff :: u32) = mask 16" "(0xffff0000 :: u32) = push_bit 16 (mask 16)"
  by (simp_all add: mask_eq_exp_minus_1 push_bit_eq_mult)

lemma tag_low: "tag_request i mid AND 0x0000ffff = mid AND 0x0000ffff"
  unfolding tag_request_def Let_def mask16(1) by (rule bit_word_eqI) (auto simp: bit_simps)

lemma tag_high: "(ucast (drop_bit 16 (tag_request i mid AND 0xffff0000)) :: u16) = ucast i"
  unfolding tag_request_def Let_def mask16 by (rule bit_word_eqI) (auto simp: bit_simps)

lemma ucast_u16_u32: "(ucast (ucast i :: u16) :: u32) = i AND 0x0000ffff"
  unfolding mask16(1) by (rule bit_word_eqI) (auto simp: bit_simps)

lemma and_mask16_eq: "i AND 0x0000ffff = i \<longleftrightarrow> unat (i :: u32) < 2 ^ 16"
  unfolding mask16(1) take_bit_eq_mask [symmetric]
  by (simp add: word_unat_eq_iff unsigned_take_bit_eq take_bit_nat_eq_self_iff)

lemma request_listener:
  assumes "dp_inv b" "ag_socket (db_objs b s)" "map_of (ag_methods (db_objs b s)) m = Some TYPE_REQUEST"
  shows "listeners b m = [s]"
proof -
  have "c = s" if "c \<in> set (listeners b m)" for c
    using that inv_same_type [OF assms] inv_listeners(2) [OF assms(1)] by blast
  moreover have "s \<in> set (listeners b m)" using assms by (simp add: inv_listeners(2))
  ultimately have "set (listeners b m) = {s}" by blast
  moreover from this have "length (listeners b m) = 1" using distinct_card [OF inv_listeners(1) [OF assms(1), of m]] by simp
  ultimately show ?thesis by (auto simp: length_Suc_conv)
qed

lemma OnRequestMessage_request:
  assumes inv: "dp_inv b" and "ag_socket (db_objs b s)" "map_of (ag_methods (db_objs b s)) m = Some TYPE_REQUEST"
    and "s \<noteq> a" "ag_pid (db_objs b s) \<noteq> dh_process_id h" and "dp_method h = Inr m" "dp_data h = Inr data"
  shows "OnRequestMessage a h b = Inr (deliver s (packet (tag_request (ag_id (db_objs b a)) (dh_message_id h))
     TYPE_REQUEST m data (dh_session_id h) 0) b)"
proof -
  have "TYPE_REQUEST \<noteq> 0" by (simp add: TYPE_REQUEST_def)
  then show ?thesis using assms request_listener [OF assms(1-3)]
    by (simp add: OnRequestMessage_def ProcessDpMessage_def HandleDpMessage_def SendMessage_eq Let_def)
qed

lemma OnReplayMessage_reply:
  assumes "dp_method r = Inr m" "dp_data r = Inr data" "dh_message_id r = tag_request i mid"
  shows "OnReplayMessage s r b = Inr (case GetAgent (i AND 0x0000ffff) b of None \<Rightarrow> b
     | Some c \<Rightarrow> deliver c (packet (mid AND 0x0000ffff) TYPE_REPLY m data (dh_session_id r) 1) b)"
  unfolding OnReplayMessage_def Let_def assms tag_low tag_high ucast_u16_u32
  by (simp add: SendMessage_eq split: option.split)

text \<open>C11. A request on a reachable bus goes to the one client that registered the method and to nobody else, and
  the sender gets no answer yet. When that client answers with the message id it was given, the answer goes
  to the sender only, with the low half of the sender's message id: provided the sender's id is below \<open>2 ^ 16\<close>.\<close>

theorem request_reply_routed:
  assumes "reach dp_step dp_start b" and "ag_socket (db_objs b a)" and "unat (ag_id (db_objs b a)) < 2 ^ 16"
    and "ag_socket (db_objs b s)" and "map_of (ag_methods (db_objs b s)) m = Some TYPE_REQUEST" and "s \<noteq> a"
    and "ag_pid (db_objs b s) \<noteq> dh_process_id h" and "dp_method h = Inr m" and "dp_data h = Inr data"
    and "dp_method r = Inr m'" and "dp_data r = Inr data'"
    and "dh_message_id r = tag_request (ag_id (db_objs b a)) (dh_message_id h)"
  shows "\<exists>b1 b2. OnRequestMessage a h b = Inr b1 \<and> OnReplayMessage s r b1 = Inr b2 \<and>
     (\<forall>c. ag_sent (db_objs b1 c) = ag_sent (db_objs b c) @
        (if c = s then [packet (dh_message_id r) TYPE_REQUEST m data (dh_session_id h) 0] else [])) \<and>
     (\<forall>c. ag_sent (db_objs b2 c) = ag_sent (db_objs b1 c) @
        (if c = a then [packet (dh_message_id h AND 0x0000ffff) TYPE_REPLY m' data' (dh_session_id r) 1] else []))"
proof -
  have inv: "dp_inv b" using assms(1) by (rule bus.reach_inv)
  have "ag_id (db_objs b a) AND 0x0000ffff = ag_id (db_objs b a)" using assms(3) by (simp add: and_mask16_eq)
  moreover have "map_of (db_agents b) (ag_id (db_objs b a)) = Some a" using inv_agent [OF inv] assms(2) by simp
  ultimately show ?thesis
    by (simp add: OnRequestMessage_request [OF inv assms(4-9)] OnReplayMessage_reply [OF assms(10-12)] GetAgent_def
        sent_deliver assms(2,4,12))
qed

text \<open>The agent id is cut to 16 bits when it is put into the message id of a request. Once 65535 clients
  have connected, the answer to a request of a later client never reaches it: it goes to the client that
  happens to carry the id modulo \<open>2 ^ 16\<close>, or nowhere.\<close>

theorem request_reply_lost:
  assumes "reach dp_step dp_start b" and "ag_socket (db_objs b a)" and "2 ^ 16 \<le> unat (ag_id (db_objs b a))"
    and "ag_socket (db_objs b s)" and "map_of (ag_methods (db_objs b s)) m = Some TYPE_REQUEST" and "s \<noteq> a"
    and "ag_pid (db_objs b s) \<noteq> dh_process_id h" and "dp_method h = Inr m" and "dp_data h = Inr data"
    and "dp_method r = Inr m'" and "dp_data r = Inr data'"
    and "dh_message_id r = tag_request (ag_id (db_objs b a)) (dh_message_id h)"
  shows "\<exists>b1 b2. OnRequestMessage a h b = Inr b1 \<and> OnReplayMessage s r b1 = Inr b2 \<and>
     ag_sent (db_objs b2 a) = ag_sent (db_objs b a) \<and>
     (\<forall>c. ag_socket (db_objs b c) \<and> unat (ag_id (db_objs b c)) = unat (ag_id (db_objs b a)) mod 2 ^ 16 \<longrightarrow>
        ag_sent (db_objs b2 c) = ag_sent (db_objs b1 c) @
          [packet (dh_message_id h AND 0x0000ffff) TYPE_REPLY m' data' (dh_session_id r) 1])"
proof -
  have inv: "dp_inv b" using assms(1) by (rule bus.reach_inv)
  let ?i = "ag_id (db_objs b a) AND 0x0000ffff"
  have ne: "?i \<noteq> ag_id (db_objs b a)" using assms(3) by (simp add: and_mask16_eq)
  have "unat ?i = unat (ag_id (db_objs b a)) mod 2 ^ 16"
    unfolding mask16(1) take_bit_eq_mask [symmetric] unsigned_take_bit_eq by (simp add: take_bit_eq_mod)
  then have eq: "unat (ag_id (db_objs b c)) = unat (ag_id (db_objs b a)) mod 2 ^ 16 \<longleftrightarrow> ag_id (db_objs b c) = ?i" for c
    by (simp add: word_unat_eq_iff)
  have g: "ag_socket (db_objs b c) \<and> ag_id (db_objs b c) = ?i \<longleftrightarrow> GetAgent ?i b = Some c" for c
    using inv_agent [OF inv, where i = ?i] by (simp add: GetAgent_def)
  have "GetAgent ?i (deliver s p b) = GetAgent ?i b" for p by (simp add: GetAgent_def)
  note run = this OnRequestMessage_request [OF inv assms(4-9)] OnReplayMessage_reply [OF assms(10-12)] sent_deliver
  show ?thesis unfolding eq g
  proof (cases "GetAgent ?i b")
    case None
    with assms(4,6) show "\<exists>b1 b2. OnRequestMessage a h b = Inr b1 \<and> OnReplayMessage s r b1 = Inr b2 \<and>
      ag_sent (db_objs b2 a) = ag_sent (db_objs b a) \<and> (\<forall>c. GetAgent ?i b = Some c \<longrightarrow> ag_sent (db_objs b2 c) =
        ag_sent (db_objs b1 c) @ [packet (dh_message_id h AND 0x0000ffff) TYPE_REPLY m' data' (dh_session_id r) 1])"
      by (simp add: run)
  next
    case (Some d)
    with g [of d] ne have "ag_socket (db_objs b d)" "d \<noteq> a" by auto
    with Some assms(4,6) show "\<exists>b1 b2. OnRequestMessage a h b = Inr b1 \<and> OnReplayMessage s r b1 = Inr b2 \<and>
      ag_sent (db_objs b2 a) = ag_sent (db_objs b a) \<and> (\<forall>c. GetAgent ?i b = Some c \<longrightarrow> ag_sent (db_objs b2 c) =
        ag_sent (db_objs b1 c) @ [packet (dh_message_id h AND 0x0000ffff) TYPE_REPLY m' data' (dh_session_id r) 1])"
      by (simp add: run)
  qed
qed

section \<open>The registry on every reachable bus\<close>

text \<open>C6. On every reachable bus (fewer than \<open>2 ^ 32\<close> connections so far) the broker's maps are exact: an id is found
  exactly when a connected client carries it, ids of connected clients differ, the clients that get a method are
  exactly the connected ones that registered it, each once, they registered it with the same type, and
  a request method has at most one of them.\<close>

theorem bus_registry_exact:
  assumes "reach dp_step dp_start b"
  shows "(\<forall>i a. GetAgent i b = Some a \<longleftrightarrow> ag_socket (db_objs b a) \<and> ag_id (db_objs b a) = i) \<and>
     (\<forall>m. distinct (listeners b m) \<and>
        set (listeners b m) = {a. ag_socket (db_objs b a) \<and> map_of (ag_methods (db_objs b a)) m \<noteq> None} \<and>
        (\<exists>t. (t = TYPE_MESSAGE \<or> t = TYPE_REQUEST \<and> length (listeners b m) \<le> 1) \<and>
           (\<forall>a \<in> set (listeners b m). map_of (ag_methods (db_objs b a)) m = Some t)))"
proof (intro conjI allI)
  have inv: "dp_inv b" using assms by (rule bus.reach_inv)
  show "GetAgent i b = Some a \<longleftrightarrow> ag_socket (db_objs b a) \<and> ag_id (db_objs b a) = i" for i a
    unfolding GetAgent_def by (rule inv_agent [OF inv])
  fix m
  show "distinct (listeners b m)" by (rule inv_listeners(1) [OF inv])
  show "set (listeners b m) = {a. ag_socket (db_objs b a) \<and> map_of (ag_methods (db_objs b a)) m \<noteq> None}"
    using inv_listeners(2) [OF inv] by blast
  show "\<exists>t. (t = TYPE_MESSAGE \<or> t = TYPE_REQUEST \<and> length (listeners b m) \<le> 1) \<and>
      (\<forall>a \<in> set (listeners b m). map_of (ag_methods (db_objs b a)) m = Some t)"
  proof (cases "\<exists>s. ag_socket (db_objs b s) \<and> map_of (ag_methods (db_objs b s)) m = Some TYPE_REQUEST")
    case True
    then obtain s where s: "ag_socket (db_objs b s)" "map_of (ag_methods (db_objs b s)) m = Some TYPE_REQUEST" by blast
    then show ?thesis using request_listener [OF inv s] by (intro exI [of _ TYPE_REQUEST]) simp
  next
    case False
    then show ?thesis using inv_listeners(2) [OF inv] inv_type [OF inv] by (intro exI [of _ TYPE_MESSAGE]) blast
  qed
qed

text \<open>Buses for the witnesses: client 4 registers a method, client 5 is connected.\<close>

definition listen_packet :: "byte \<Rightarrow> DpNetMsgHeader" where
  "listen_packet t = \<lparr>dh_type = 8, dh_listen_type = t, dh_method_size = 1, dh_process_id = 0, dh_message_id = 0,
     dh_session_id = 0, dh_result = 0, dh_data_size = 0, dh_body = [7]\<rparr>"

lemma listen_packet_method: "dp_method (listen_packet t) = Inr [7]"
  by (simp add: dp_method_def listen_packet_def copy_out_def)

lemma accept_fields:
  assumes "dp_inv b" "\<not> ag_socket (db_objs b a)"
  shows "db_objs (dp_accept a b) = (db_objs b)(a := \<lparr>ag_id = db_num b + 1, ag_pid = - 1, ag_name = unnamed,
      ag_methods = [], ag_socket = True, ag_sent = []\<rparr>)"
    "db_num (dp_accept a b) = db_num b + 1" "db_server (dp_accept a b) = db_server b @ [a]"
    "db_agents (dp_accept a b) = put_kv (db_num b + 1) a (db_agents b)"
    "listeners (dp_accept a b) m = listeners b m"
proof -
  have "a \<notin> snd ` set (db_agents b)" using inv_agents_set [OF assms(1)] assms(2) by simp
  then show "db_objs (dp_accept a b) = (db_objs b)(a := \<lparr>ag_id = db_num b + 1, ag_pid = - 1, ag_name = unnamed,
      ag_methods = [], ag_socket = True, ag_sent = []\<rparr>)"
    "db_num (dp_accept a b) = db_num b + 1" "db_server (dp_accept a b) = db_server b @ [a]"
    "db_agents (dp_accept a b) = put_kv (db_num b + 1) a (db_agents b)"
    "listeners (dp_accept a b) m = listeners b m"
    by (simp_all add: dp_accept_def AddDpAgent_def listeners_def Let_def)
qed

lemma demo_bus:
  assumes r: "reach dp_step dp_start b" and idle: "\<forall>a. \<not> ag_socket (db_objs b a)" "db_server b = []"
    and num: "db_num b \<noteq> - 1" "db_num b + 1 \<noteq> - 1" and t: "t = (0 :: byte) \<or> t = 1"
  shows "\<exists>b'. reach dp_step dp_start b' \<and> ag_socket (db_objs b' 4) \<and> ag_socket (db_objs b' 5) \<and>
     ag_id (db_objs b' 5) = db_num b + 1 + 1 \<and> ag_pid (db_objs b' 4) = - 1 \<and>
     map_of (ag_methods (db_objs b' 4)) [7] = Some (ucast t) \<and> listeners b' [7] = [4]"
proof -
  let ?b1 = "dp_accept 4 b" and ?h = "listen_packet t"
  have inv: "dp_inv b" using r by (rule bus.reach_inv)
  note f = accept_fields [OF inv idle(1) [rule_format, of 4]]
  have r1: "reach dp_step dp_start ?b1" by (rule reach_step [OF r step_accept]) (use idle num in simp_all)
  have l0: "listeners b m = []" for m using inv_listeners(2) [OF inv] idle by (metis list.set_intros(1) neq_Nil_conv)
  have type: "ucast t = TYPE_MESSAGE \<or> ucast t = TYPE_REQUEST" using t by (auto simp: TYPE_MESSAGE_def TYPE_REQUEST_def)
  have "dp_inv ?b1" using bus.reach_inv [OF r1] by simp
  then have ok: "listen_ok [7] (ucast t) ?b1"
    using type idle by (auto simp: listen_ok_def inv_CheckMessage ag_CheckMessage_def f)
  have ht: "ucast (dh_listen_type ?h) = (ucast t :: u32)" "dh_type ?h = 8" by (simp_all add: listen_packet_def)
  let ?b1q = "upd_obj 4 (\<lambda>ag. ag\<lparr>ag_methods := put_kv [7] (ucast t) (ag_methods ag)\<rparr>) ?b1"
  define b2 where "b2 = (deliver 4 (packet (dh_message_id ?h) TYPE_ADD_MESSAGE [7] [] (dh_session_id ?h) TYPE_SUCCEED)
      (snd (AddAgentBindMethod [7] (ag_id (db_objs ?b1q 4)) ?b1q)))"
  have b2: "OnSocketReadComplete 4 25 ?h ?b1 = Inr b2"
    using ok by (simp add: OnSocketReadComplete_def TYPE_MESSAGE_def TYPE_REPLY_def TYPE_ADD_MESSAGE_def ht b2_def
        OnListenMessage_eq [OF listen_packet_method refl refl])
  have b2f: "ag_socket (db_objs b2 4)" "\<not> ag_socket (db_objs b2 5)" "ag_pid (db_objs b2 4) = - 1"
    "map_of (ag_methods (db_objs b2 4)) [7] = Some (ucast t)" "db_num b2 = db_num b + 1" "db_server b2 = [4]"
    "listeners b2 [7] = [4]"
    using idle by (simp_all add: b2_def deliver_def AddAgentBindMethod_def f l0 map_of_put_kv put_kv_listeners)
  have r2: "reach dp_step dp_start b2" by (rule reach_step [OF r1 step_packet [OF _ b2]]) (simp_all add: f)
  note g = accept_fields [OF bus.reach_inv [OF r2] b2f(2)]
  have r3: "reach dp_step dp_start (dp_accept 5 b2)"
    by (rule reach_step [OF r2 step_accept]) (use b2f num in simp_all)
  show ?thesis by (rule exI [of _ "dp_accept 5 b2"]) (use r3 b2f in \<open>simp add: g\<close>)
qed

text \<open>What the broker sends is what a receiver of the same format reads.\<close>

lemma packet_method: "length m < 2 ^ 16 \<Longrightarrow> dp_method (packet i t m data s r) = Inr m"
  by (simp add: dp_method_def packet_def copy_out_def unsigned_of_nat take_bit_nat_eq_self)

lemma packet_data: "length m < 2 ^ 16 \<Longrightarrow> length data < 2 ^ 32 \<Longrightarrow> dp_data (packet i t m data s r) = Inr data"
  by (simp add: dp_data_def packet_def NetworkToHost_eq be_word_bytes copy_out_def unsigned_of_nat take_bit_nat_eq_self)

lemma packet_ids [simp]: "dh_message_id (packet i t m data s r) = i" "dh_process_id (packet i t m data s r) = 0"
  "dh_session_id (packet i t m data s r) = s"
  by (simp_all add: packet_def)

lemma error_fields:
  "db_objs (OnSocketErrorEvent a b) = (db_objs b)(a := (db_objs b a)\<lparr>ag_socket := False\<rparr>)"
  "db_num (OnSocketErrorEvent a b) = db_num b" "db_server (OnSocketErrorEvent a b) = remove1 a (db_server b)"
  by (simp_all add: OnSocketErrorEvent_def dp_close_def RemoveAgent_def Let_def split: option.split)

lemma idle_bus:
  "n < 2 ^ 32 - 1 \<Longrightarrow> \<exists>b. reach dp_step dp_start b \<and> (\<forall>a. \<not> ag_socket (db_objs b a)) \<and> db_server b = [] \<and> db_num b = of_nat n"
proof (induction n)
  case 0
  have "reach dp_step dp_start dp_start \<and> (\<forall>a. \<not> ag_socket (db_objs dp_start a)) \<and> db_server dp_start = [] \<and>
      db_num dp_start = of_nat 0" by (simp add: dp_start_def reach_refl)
  then show ?case by blast
next
  case (Suc n)
  then obtain b where b: "reach dp_step dp_start b" "\<forall>a. \<not> ag_socket (db_objs b a)" "db_server b = []" "db_num b = of_nat n"
    by auto
  have "unat (of_nat n :: u32) = n" using Suc.prems by (simp add: unsigned_of_nat take_bit_nat_eq_self)
  then have "(of_nat n :: u32) \<noteq> - 1" using Suc.prems by (auto simp: unsigned_minus_1_eq_mask mask_eq_exp_minus_1)
  then have r: "reach dp_step dp_start (dp_accept 4 b)" by (intro reach_step [OF b(1) step_accept]) (simp_all add: b)
  note f = accept_fields [OF bus.reach_inv [OF b(1)] b(2) [rule_format, of 4]]
  have "reach dp_step dp_start (OnSocketErrorEvent 4 (dp_accept 4 b))"
    by (rule reach_step [OF r step_error]) (simp add: f)
  then show ?case
    by (intro exI [of _ "OnSocketErrorEvent 4 (dp_accept 4 b)"]) (use b in \<open>simp add: error_fields f add.commute\<close>)
qed

theorem broadcast_delivers_witness:
  "\<exists>b b'. reach dp_step dp_start b \<and> OnRequestMessage 5 (packet 3 TYPE_MESSAGE [7] [1, 2] 0 0) b = Inr b' \<and>
     ag_sent (db_objs b' 4) = ag_sent (db_objs b 4) @ [packet 3 TYPE_MESSAGE [7] [1, 2] 0 0] \<and>
     ag_sent (db_objs b' 5) = ag_sent (db_objs b 5) @ [packet 3 TYPE_REPLY [7] [] 0 1]"
proof -
  obtain b0 where "reach dp_step dp_start b0" "\<forall>a. \<not> ag_socket (db_objs b0 a)" "db_server b0 = []" "db_num b0 = of_nat 0"
    using idle_bus [of 0] by auto
  with demo_bus [of b0 0] obtain b where b: "reach dp_step dp_start b" "ag_socket (db_objs b 4)" "ag_socket (db_objs b 5)"
      "ag_pid (db_objs b 4) = - 1" "map_of (ag_methods (db_objs b 4)) [7] = Some 0" "listeners b [7] = [4]"
    by (auto simp: TYPE_MESSAGE_def)
  have T: "{c. ag_socket (db_objs b c) \<and> map_of (ag_methods (db_objs b c)) [7] \<noteq> None \<and> c \<noteq> 5 \<and>
      ag_pid (db_objs b c) \<noteq> dh_process_id (packet 3 TYPE_MESSAGE [7] [1, 2] 0 0)} = {4}"
    using inv_listeners(2) [OF bus.reach_inv [OF b(1)], where m = "[7]"] b by auto
  have "\<forall>c \<in> set (listeners b [7]). map_of (ag_methods (db_objs b c)) [7] = Some TYPE_MESSAGE"
    using b by (simp add: TYPE_MESSAGE_def)
  from broadcast_delivers [OF b(1,3) _ _ this, of "packet 3 TYPE_MESSAGE [7] [1, 2] 0 0" "[1, 2]", unfolded T] b(1)
  show ?thesis by (auto simp: packet_method packet_data)
qed

theorem request_reply_routed_witness:
  "\<exists>b b1 b2. reach dp_step dp_start b \<and> OnRequestMessage 5 (packet 3 TYPE_MESSAGE [7] [1, 2] 0 0) b = Inr b1 \<and>
     OnReplayMessage 4 (packet (tag_request 2 3) TYPE_REPLY [7] [9] 0 0) b1 = Inr b2 \<and>
     ag_sent (db_objs b2 5) = ag_sent (db_objs b 5) @ [packet 3 TYPE_REPLY [7] [9] 0 1]"
proof -
  obtain b0 where "reach dp_step dp_start b0" "\<forall>a. \<not> ag_socket (db_objs b0 a)" "db_server b0 = []" "db_num b0 = of_nat 0"
    using idle_bus [of 0] by auto
  with demo_bus [of b0 1] obtain b where b: "reach dp_step dp_start b" "ag_socket (db_objs b 4)" "ag_socket (db_objs b 5)"
      "ag_id (db_objs b 5) = 2" "ag_pid (db_objs b 4) = - 1" "map_of (ag_methods (db_objs b 4)) [7] = Some TYPE_REQUEST"
    by (auto simp: TYPE_REQUEST_def)
  from request_reply_routed [OF b(1,3) _ b(2,6), of "packet 3 TYPE_MESSAGE [7] [1, 2] 0 0" "[1, 2]"
      "packet (tag_request 2 3) TYPE_REPLY [7] [9] 0 0" "[7]" "[9]"] b
  show ?thesis by (auto simp: packet_method packet_data)
qed

theorem request_reply_lost_witness:
  "\<exists>b b1 b2. reach dp_step dp_start b \<and> ag_id (db_objs b 5) = 65537 \<and>
     OnRequestMessage 5 (packet 3 TYPE_MESSAGE [7] [1, 2] 0 0) b = Inr b1 \<and>
     OnReplayMessage 4 (packet (tag_request 65537 3) TYPE_REPLY [7] [9] 0 0) b1 = Inr b2 \<and>
     ag_sent (db_objs b2 5) = ag_sent (db_objs b 5)"
proof -
  obtain b0 where b0: "reach dp_step dp_start b0" "\<forall>a. \<not> ag_socket (db_objs b0 a)" "db_server b0 = []" "db_num b0 = 65535"
    using idle_bus [of 65535] by auto
  then have "db_num b0 \<noteq> - 1" "db_num b0 + 1 \<noteq> - 1" by simp_all
  from demo_bus [OF b0(1-3) this, of 1] obtain b where b: "reach dp_step dp_start b" "ag_socket (db_objs b 4)" "ag_socket (db_objs b 5)"
      "ag_id (db_objs b 5) = 65537" "ag_pid (db_objs b 4) = - 1" "map_of (ag_methods (db_objs b 4)) [7] = Some TYPE_REQUEST"
    by (auto simp: TYPE_REQUEST_def b0(4))
  from request_reply_lost [OF b(1,3) _ b(2,6), of "packet 3 TYPE_MESSAGE [7] [1, 2] 0 0" "[1, 2]"
      "packet (tag_request 65537 3) TYPE_REPLY [7] [9] 0 0" "[7]" "[9]"] b
  show ?thesis by (auto simp: packet_method packet_data)
qed

theorem bus_registry_exact_witness:
  "\<exists>b. reach dp_step dp_start b \<and> listeners b [7] = [4] \<and> (\<exists>i. GetAgent i b = Some 4)"
proof -
  obtain b0 where "reach dp_step dp_start b0" "\<forall>a. \<not> ag_socket (db_objs b0 a)" "db_server b0 = []" "db_num b0 = of_nat 0"
    using idle_bus [of 0] by auto
  with demo_bus [of b0 1] obtain b where b: "reach dp_step dp_start b" "ag_socket (db_objs b 4)" "listeners b [7] = [4]"
    by auto
  with bus_registry_exact [OF b(1)] show ?thesis by blast
qed

end
