(* ===== verification/Data_Model.thy ===== *)
theory Data_Model
  imports Transition_Spec
begin

text \<open>
  The shared state of the robot scheduler: \<open>lib_app/robot_schedule/schedule/DateModel.cpp\<close>, the enumerations of
  \<open>DeviceStates.h\<close>, and the job queue \<open>CRobotjobEvent\<close> of \<open>RobotSchedule.cpp\<close>. A \<open>std::queue\<close> is a list with its
  front at the head; reading or popping an empty one is undefined and is an error here. Each of the three state
  cells keeps a value and a history of at most two; the locale states what their clients rely on.
\<close>

section \<open>States and commands\<close>

datatype E_MASTER_STATE =
    ESTATE_INIT | ESTATE_IDLE | ESTATE_CLEAN | ESTATE_PAUSE_CLEAN | ESTATE_BACK_CHARGE | ESTATE_BACK_WASH
  | ESTATE_OTA | ESTATE_CHAGRE | ESTATE_CHAGRE_END | ESTATE_SHELF_CLEAN | ESTATE_SHELF_CLEAN_END | ESTATE_DORMANCY
  | ESTATE_ERROR | ESTATE_CHAGRE_PAUSE | ESTATE_WASH_PAUSE | ESTATE_DUMP | ESTATE_DUMP_END | ESTATE_SHUTDOWM
  | ESTATE_FACTORY_TEST | ESTATE_FAST_BUILD_MAP | ESTATE_PAUSE_FAST_BUILD_MAP | ESTATE_FAST_BUILD_MAP_END
  | ESTATE_BACK_CHARGE_ERROR | ESTATE_BACK_WASH_ERROR | ESTATE_LOCATE_ERROR | ESTATE_DEVICE_TRAPPED

datatype CLEAN_STATE =
    CLEAN_STATE_NULL | CLEAN_STATE_AUTO | CLEAN_STATE_RECT | CLEAN_STATE_LOCATION | CLEAN_STATE_SITU
  | CLEAN_STATE_RESERVATION

datatype EJobCommand =
    EJOB_NONE | EJOB_GLOBAL_CLEAN | EJOB_LOCAL_CLEAN | EJOB_ZONE_CLEAN | EJOB_POINT_CLEAN | EJOB_RESERVE_CLEAN
  | EJOB_BACK_CHARGE | EJOB_BACK_WASH | EJOB_STOP_CLEAN | EJOB_PHOTO_PATH | EJOB_OTA_START | EJOB_BACK_DUMP
  | EJOB_FAST_BUILD_MAP | EJOB_VLOW_BACK_CHARGE | EJOB_SHUTDOWM | EJOB_RESUME_CLEAN | EJOB_PAUSE_CLEAN | EJOB_NULL

text \<open>The code compares job commands by their number.\<close>

fun job_code :: "EJobCommand \<Rightarrow> nat" where
  "job_code EJOB_NONE = 0"
| "job_code EJOB_GLOBAL_CLEAN = 1"
| "job_code EJOB_LOCAL_CLEAN = 2"
| "job_code EJOB_ZONE_CLEAN = 3"
| "job_code EJOB_POINT_CLEAN = 4"
| "job_code EJOB_RESERVE_CLEAN = 5"
| "job_code EJOB_BACK_CHARGE = 6"
| "job_code EJOB_BACK_WASH = 7"
| "job_code EJOB_STOP_CLEAN = 8"
| "job_code EJOB_PHOTO_PATH = 9"
| "job_code EJOB_OTA_START = 10"
| "job_code EJOB_BACK_DUMP = 11"
| "job_code EJOB_FAST_BUILD_MAP = 12"
| "job_code EJOB_VLOW_BACK_CHARGE = 13"
| "job_code EJOB_SHUTDOWM = 14"
| "job_code EJOB_RESUME_CLEAN = 15"
| "job_code EJOB_PAUSE_CLEAN = 16"
| "job_code EJOB_NULL = 17"

lemma job_code_inj: "job_code c = job_code d \<Longrightarrow> c = d"
  by (cases c; cases d) simp_all

instantiation EJobCommand :: linorder
begin

definition less_eq_EJobCommand :: "EJobCommand \<Rightarrow> EJobCommand \<Rightarrow> bool" where
  "less_eq_EJobCommand c d \<longleftrightarrow> job_code c \<le> job_code d"

definition less_EJobCommand :: "EJobCommand \<Rightarrow> EJobCommand \<Rightarrow> bool" where
  "less_EJobCommand c d \<longleftrightarrow> job_code c < job_code d"

instance
  by standard (auto simp: less_eq_EJobCommand_def less_EJobCommand_def intro: job_code_inj)

end

section \<open>The data model\<close>

record CDataModel =
  m_state :: E_MASTER_STATE
  clean_state :: CLEAN_STATE
  fault_state :: int
  MstateData :: "E_MASTER_STATE list"
  CstateData :: "CLEAN_STATE list"
  FstateData :: "int list"

definition new_CDataModel :: CDataModel where
  "new_CDataModel = \<lparr>m_state = ESTATE_IDLE, clean_state = CLEAN_STATE_NULL, fault_state = 0, MstateData = [],
     CstateData = [], FstateData = []\<rparr>"

text \<open>\<open>front\<close>, \<open>back\<close> and \<open>pop\<close> of a \<open>std::queue\<close>.\<close>

definition q_front :: "'a list \<Rightarrow> mem_error + 'a" where
  "q_front q = (if q = [] then Inl OutOfBounds else Inr (hd q))"

definition q_back :: "'a list \<Rightarrow> mem_error + 'a" where
  "q_back q = (if q = [] then Inl OutOfBounds else Inr (last q))"

definition q_pop :: "'a list \<Rightarrow> mem_error + 'a list" where
  "q_pop q = (if q = [] then Inl OutOfBounds else Inr (tl q))"

definition getMQueueSize :: "CDataModel \<Rightarrow> nat" where "getMQueueSize d = length (MstateData d)"
definition getMQueueFort :: "CDataModel \<Rightarrow> mem_error + E_MASTER_STATE" where "getMQueueFort d = q_front (MstateData d)"
definition getMQueueBack :: "CDataModel \<Rightarrow> mem_error + E_MASTER_STATE" where "getMQueueBack d = q_back (MstateData d)"
definition getCQueueSize :: "CDataModel \<Rightarrow> nat" where "getCQueueSize d = length (CstateData d)"
definition getCQueueFort :: "CDataModel \<Rightarrow> mem_error + CLEAN_STATE" where "getCQueueFort d = q_front (CstateData d)"
definition getCQueueBack :: "CDataModel \<Rightarrow> mem_error + CLEAN_STATE" where "getCQueueBack d = q_back (CstateData d)"

definition deletMQueue :: "CDataModel \<Rightarrow> mem_error + CDataModel" where
  "deletMQueue d = bindE (q_pop (MstateData d)) (\<lambda>q. Inr (d\<lparr>MstateData := q\<rparr>))"

definition deletCQueue :: "CDataModel \<Rightarrow> mem_error + CDataModel" where
  "deletCQueue d = bindE (q_pop (CstateData d)) (\<lambda>q. Inr (d\<lparr>CstateData := q\<rparr>))"

definition getCleanState :: "CDataModel \<Rightarrow> CLEAN_STATE" where
  "getCleanState d = (if CstateData d = [] then clean_state d else last (CstateData d))"

definition setCleanState :: "CLEAN_STATE \<Rightarrow> CDataModel \<Rightarrow> CDataModel" where
  "setCleanState cmst d =
     (if clean_state d = cmst then d
      else let q = CstateData d @ [cmst]
           in d\<lparr>clean_state := cmst, CstateData := (if length q > 2 then tl q else q)\<rparr>)"

definition setMState :: "E_MASTER_STATE \<Rightarrow> CDataModel \<Rightarrow> CDataModel" where
  "setMState mst d =
     (if m_state d = mst then d
      else let q = MstateData d @ [mst]
           in d\<lparr>m_state := mst, MstateData := (if length q > 2 then tl q else q)\<rparr>)"

definition getMState :: "CDataModel \<Rightarrow> E_MASTER_STATE" where
  "getMState d = (if MstateData d = [] then m_state d else last (MstateData d))"

definition getFaultVector :: "CDataModel \<Rightarrow> int list" where
  "getFaultVector d = FstateData d"

definition setFState :: "int \<Rightarrow> CDataModel \<Rightarrow> CDataModel" where
  "setFState fmst d = (if fault_state d = fmst then d else d\<lparr>fault_state := fmst, FstateData := FstateData d @ [fmst]\<rparr>)"

section \<open>The job queue\<close>

record CRobotjobEvent =
  job_cmd :: EJobCommand
  Ejobcmd :: "EJobCommand list"

definition new_CRobotjobEvent :: CRobotjobEvent where
  "new_CRobotjobEvent = \<lparr>job_cmd = EJOB_NONE, Ejobcmd = []\<rparr>"

definition setJobCommand :: "EJobCommand \<Rightarrow> CRobotjobEvent \<Rightarrow> CRobotjobEvent" where
  "setJobCommand cmd j =
     (if job_cmd j = cmd then j
      else let q = Ejobcmd j @ [cmd]
           in j\<lparr>job_cmd := cmd, Ejobcmd := (if length q > 2 then tl q else q)\<rparr>)"

definition getJobCommand :: "CRobotjobEvent \<Rightarrow> EJobCommand" where
  "getJobCommand j = (if Ejobcmd j = [] then job_cmd j else last (Ejobcmd j))"

section \<open>A cell with a short history\<close>

text \<open>
  The contract of the three cells: reading gives the last value written, whatever the history holds, and the
  history has at most the last two values. \<open>old v0\<close> is the value the cell starts with.
\<close>

locale history_cell =
  fixes inv :: "'s \<Rightarrow> bool"
    and get :: "'s \<Rightarrow> 'v"
    and hist :: "'s \<Rightarrow> 'v list"
    and put :: "'v \<Rightarrow> 's \<Rightarrow> 's"
  assumes put_inv: "inv s \<Longrightarrow> inv (put v s)"
    and get_put: "inv s \<Longrightarrow> get (put v s) = v"
    and hist_put: "inv s \<Longrightarrow> hist (put v s) = (if v = get s then hist s else if length (hist s) = 2 then [get s, v] else hist s @ [v])"
    and hist_get: "inv s \<Longrightarrow> hist s \<noteq> [] \<Longrightarrow> last (hist s) = get s"
    and hist_le: "inv s \<Longrightarrow> length (hist s) \<le> 2"
begin

lemma puts_inv: "inv s \<Longrightarrow> inv (fold put vs s)"
  by (induction vs arbitrary: s) (auto intro: put_inv)

lemma get_puts: "inv s \<Longrightarrow> get (fold put vs s) = last (get s # vs)"
  by (induction vs arbitrary: s) (auto simp: get_put put_inv)

text \<open>After a change of value the history ends with the new value, preceded by the old one when it was recorded.\<close>

lemma hist_change: "inv s \<Longrightarrow> v \<noteq> get s \<Longrightarrow> hist s \<noteq> [] \<Longrightarrow> hist (put v s) = [get s, v]"
  using hist_put [of s v] hist_le [of s] hist_get [of s]
  by (cases "hist s"; cases "tl (hist s)") auto

end

definition cell_inv :: "'v \<Rightarrow> 'v list \<Rightarrow> bool" where
  "cell_inv v q \<longleftrightarrow> length q \<le> 2 \<and> (q \<noteq> [] \<longrightarrow> last q = v)"

definition m_inv :: "CDataModel \<Rightarrow> bool" where "m_inv d \<longleftrightarrow> cell_inv (m_state d) (MstateData d)"
definition c_inv :: "CDataModel \<Rightarrow> bool" where "c_inv d \<longleftrightarrow> cell_inv (clean_state d) (CstateData d)"
definition j_inv :: "CRobotjobEvent \<Rightarrow> bool" where "j_inv j \<longleftrightarrow> cell_inv (job_cmd j) (Ejobcmd j)"

lemma short_list: "length q \<le> 2 \<Longrightarrow> q = [] \<or> (\<exists>a. q = [a]) \<or> (\<exists>a b. q = [a, b])"
  by (cases q; cases "tl q"; cases "tl (tl q)") auto

interpretation mcell: history_cell m_inv getMState MstateData setMState
  by unfold_locales (auto simp: m_inv_def cell_inv_def getMState_def setMState_def Let_def dest!: short_list)

interpretation ccell: history_cell c_inv getCleanState CstateData setCleanState
  by unfold_locales (auto simp: c_inv_def cell_inv_def getCleanState_def setCleanState_def Let_def dest!: short_list)

interpretation jcell: history_cell j_inv getJobCommand Ejobcmd setJobCommand
  by unfold_locales (auto simp: j_inv_def cell_inv_def getJobCommand_def setJobCommand_def Let_def dest!: short_list)

end
