(* ===== verification/Robot_Schedule.thy ===== *)
theory Robot_Schedule
  imports Data_Model
begin

text \<open>
  The scheduler of the robot application, \<open>lib_app/robot_schedule/schedule\<close>: the work loop of \<open>RobotSchedule.cpp\<close>,
  the network commands of \<open>NetserverInstruct.cpp\<close> and the keys and faults of \<open>SensorData.cpp\<close>. The singletons are
  the fields of one record. What the code tells other processes and the motion control is appended to \<open>fx\<close>, in
  order. \<open>house_clean\<close> runs the motion control until it ends: it is an argument that gives the value it returns and
  the state of the robot then, in which the handlers of the other threads have run. The values that a handler reads
  from a JSON request are its arguments.
\<close>

section \<open>State\<close>

datatype E_SLAM_STATE = SLAM_IDLE | SLAM_RUN | SLAM_PAUSE | SLAM_ERROR

datatype effect =
    SendState E_MASTER_STATE CLEAN_STATE
  | Voice string
  | CleanLog int int
  | HouseClean
  | RoomClean
  | SaveMaps
  | InterruptWork
  | PauseWork
  | ResumeWork
  | MopCtrl int

record CRobotSchedule =
  m_slamState :: E_SLAM_STATE
  slam_threads :: nat
  clean_return_value :: byte
  clean_type :: int
  clean_result :: int
  SIG_VALUE_SCHEDULE :: bool

record SensorData =
  key_value :: byte
  network_value :: int

text \<open>The coordinates of a pose are divided by 50 in floating point; the model keeps the dividends.\<close>

record robot_pose =
  pose_x50 :: int
  pose_y50 :: int
  pose_yam :: int

record robot =
  dm :: CDataModel
  je :: CRobotjobEvent
  rs :: CRobotSchedule
  sd :: SensorData
  pose_vector :: "robot_pose list"
  fx :: "effect list"

text \<open>\<open>key_value\<close> is not initialised by the constructor of \<open>SensorData\<close>: it is an argument.\<close>

definition new_robot :: "byte \<Rightarrow> robot" where
  "new_robot k =
     \<lparr>dm = new_CDataModel, je = new_CRobotjobEvent,
      rs = \<lparr>m_slamState = SLAM_IDLE, slam_threads = 0, clean_return_value = 2, clean_type = 0, clean_result = 0,
            SIG_VALUE_SCHEDULE = True\<rparr>,
      sd = \<lparr>key_value = k, network_value = - 2\<rparr>, pose_vector = [], fx = []\<rparr>"

definition on_dm :: "(CDataModel \<Rightarrow> CDataModel) \<Rightarrow> robot \<Rightarrow> robot" where "on_dm f r = r\<lparr>dm := f (dm r)\<rparr>"
definition on_je :: "(CRobotjobEvent \<Rightarrow> CRobotjobEvent) \<Rightarrow> robot \<Rightarrow> robot" where "on_je f r = r\<lparr>je := f (je r)\<rparr>"
definition on_rs :: "(CRobotSchedule \<Rightarrow> CRobotSchedule) \<Rightarrow> robot \<Rightarrow> robot" where "on_rs f r = r\<lparr>rs := f (rs r)\<rparr>"
definition on_sd :: "(SensorData \<Rightarrow> SensorData) \<Rightarrow> robot \<Rightarrow> robot" where "on_sd f r = r\<lparr>sd := f (sd r)\<rparr>"
definition emit :: "effect \<Rightarrow> robot \<Rightarrow> robot" where "emit e r = r\<lparr>fx := fx r @ [e]\<rparr>"

lemmas robot_defs = on_dm_def on_je_def on_rs_def on_sd_def emit_def

section \<open>The work loop\<close>

definition sendState :: "robot \<Rightarrow> robot" where
  "sendState r = emit (SendState (getMState (dm r)) (getCleanState (dm r))) r"

definition set_voice_play :: "string \<Rightarrow> robot \<Rightarrow> robot" where
  "set_voice_play v = emit (Voice v)"

text \<open>\<open>startSlam\<close> is empty; each call starts a thread for it and overwrites the pointer to the previous one.\<close>

definition startSlamModule :: "robot \<Rightarrow> robot" where
  "startSlamModule r =
     (if m_slamState (rs r) = SLAM_IDLE then on_rs (\<lambda>s. s\<lparr>slam_threads := slam_threads s + 1\<rparr>) r else r)"

definition startWorkSchedule :: "robot \<Rightarrow> robot" where
  "startWorkSchedule r = startSlamModule r"

definition allWorkInterface :: "E_MASTER_STATE \<Rightarrow> CLEAN_STATE \<Rightarrow> string \<Rightarrow> robot \<Rightarrow> robot" where
  "allWorkInterface e_Mstate e_Cstate play_voice r =
     (let r1 = on_dm (setMState e_Mstate) r;
          r2 = on_dm (setCleanState e_Cstate) r1;
          r3 = set_voice_play play_voice r2;
          r4 = sendState r3
      in on_je (setJobCommand EJOB_NULL) r4)"

definition cleanCommand :: "EJobCommand \<Rightarrow> robot \<Rightarrow> robot" where
  "cleanCommand cmd r =
     (let r0 = startWorkSchedule r;
          set_type = (\<lambda>t. on_rs (\<lambda>s. s\<lparr>clean_type := t\<rparr>))
      in case cmd of
           EJOB_GLOBAL_CLEAN \<Rightarrow> set_type 1 (allWorkInterface ESTATE_CLEAN CLEAN_STATE_AUTO ''Q006'' r0)
         | EJOB_LOCAL_CLEAN \<Rightarrow> set_type 2 (allWorkInterface ESTATE_CLEAN CLEAN_STATE_RECT ''Q044'' r0)
         | EJOB_ZONE_CLEAN \<Rightarrow> set_type 3 (allWorkInterface ESTATE_CLEAN CLEAN_STATE_LOCATION ''Q009'' r0)
         | EJOB_POINT_CLEAN \<Rightarrow> set_type 4 (allWorkInterface ESTATE_CLEAN CLEAN_STATE_SITU ''Q006'' r0)
         | EJOB_FAST_BUILD_MAP \<Rightarrow> allWorkInterface ESTATE_FAST_BUILD_MAP CLEAN_STATE_NULL ''Q006'' r0
         | EJOB_BACK_CHARGE \<Rightarrow> allWorkInterface ESTATE_BACK_CHARGE CLEAN_STATE_NULL ''Q006'' r0
         | _ \<Rightarrow> r0)"

definition newCommandHandle :: "robot \<Rightarrow> robot" where
  "newCommandHandle r =
     (let jobcommand = getJobCommand (je r)
      in if EJOB_GLOBAL_CLEAN \<le> jobcommand \<and> jobcommand \<le> EJOB_VLOW_BACK_CHARGE then cleanCommand jobcommand r else r)"

definition cleanWorkHandle :: "(robot \<Rightarrow> byte \<times> robot) \<Rightarrow> robot \<Rightarrow> robot" where
  "cleanWorkHandle house_clean r =
     (if getMState (dm r) = ESTATE_CLEAN
      then case getCleanState (dm r) of
             CLEAN_STATE_AUTO \<Rightarrow>
               (let (v, r1) = house_clean (emit HouseClean r)
                in emit SaveMaps (on_rs (\<lambda>s. s\<lparr>clean_return_value := v\<rparr>) r1))
           | CLEAN_STATE_LOCATION \<Rightarrow> emit RoomClean r
           | _ \<Rightarrow> r
      else r)"

definition send_clean_log :: "robot \<Rightarrow> robot" where
  "send_clean_log r = emit (CleanLog (clean_type (rs r)) (clean_result (rs r))) r"

text \<open>The body of the loop of \<open>cleanSchedule\<close>, without the sleeping.\<close>

definition schedule_pass :: "(robot \<Rightarrow> byte \<times> robot) \<Rightarrow> robot \<Rightarrow> robot" where
  "schedule_pass house_clean r =
     (let r1 = cleanWorkHandle house_clean (newCommandHandle r)
      in if clean_return_value (rs r1) = 0
         then on_rs (\<lambda>s. s\<lparr>clean_result := 1\<rparr>) (send_clean_log r1)
         else if clean_return_value (rs r1) = 1
         then
           let r2 = set_voice_play ''Q010'' (send_clean_log r1);
               r3 = sendState (on_dm (setMState ESTATE_BACK_CHARGE) r2)
           in on_rs (\<lambda>s. s\<lparr>clean_result := 2, clean_return_value := 2\<rparr>) r3
         else r1)"

text \<open>The loop itself: a list of the runs of \<open>house_clean\<close> bounds the passes; the switch ends it.\<close>

fun schedule_loop :: "(robot \<Rightarrow> byte \<times> robot) list \<Rightarrow> robot \<Rightarrow> robot" where
  "schedule_loop [] r = r"
| "schedule_loop (hc # hcs) r =
     (let r1 = schedule_pass hc r in if SIG_VALUE_SCHEDULE (rs r1) then schedule_loop hcs r1 else r1)"

definition cleanSchedule :: "(robot \<Rightarrow> byte \<times> robot) list \<Rightarrow> robot \<Rightarrow> robot" where
  "cleanSchedule hcs r = schedule_loop hcs (sendState r)"

definition setCRobotdata :: "bool \<Rightarrow> robot \<Rightarrow> robot" where
  "setCRobotdata v = on_rs (\<lambda>s. s\<lparr>SIG_VALUE_SCHEDULE := v\<rparr>)"

definition listenState :: "robot \<Rightarrow> mem_error + robot" where
  "listenState r =
     bindE
       (if getCQueueSize (dm r) = 2
        then bindE (getCQueueFort (dm r)) (\<lambda>f. bindE (getCQueueBack (dm r)) (\<lambda>b.
          if f \<noteq> b then let r1 = emit InterruptWork r in bindE (deletCQueue (dm r1)) (\<lambda>d. Inr (r1\<lparr>dm := d\<rparr>)) else Inr r))
        else Inr r)
       (\<lambda>r1.
         if getMQueueSize (dm r1) = 2
         then bindE (getMQueueBack (dm r1)) (\<lambda>back_data. bindE (getMQueueFort (dm r1)) (\<lambda>f.
           if f = ESTATE_CLEAN
           then case back_data of
                  ESTATE_BACK_CHARGE \<Rightarrow> Inr (emit InterruptWork r1)
                | ESTATE_BACK_WASH \<Rightarrow> Inr (emit InterruptWork r1)
                | _ \<Rightarrow> Inr r1
           else Inr r1))
         else Inr r1)"

section \<open>Network commands\<close>

definition netserverIntergrationHandle :: "EJobCommand \<Rightarrow> E_MASTER_STATE \<Rightarrow> string \<Rightarrow> robot \<Rightarrow> robot" where
  "netserverIntergrationHandle job m play_voice r =
     sendState (set_voice_play play_voice (on_dm (setMState m) (on_je (setJobCommand job) r)))"

text \<open>The fields of the request that \<open>work_handle\<close> reads, with the default 0 when they are absent.\<close>

record net_request =
  nr_mode :: int
  nr_wifi_state :: int

definition pause_clean :: "robot \<Rightarrow> robot" where
  "pause_clean r =
     (case getMState (dm r) of
        ESTATE_CLEAN \<Rightarrow> netserverIntergrationHandle EJOB_PAUSE_CLEAN ESTATE_PAUSE_CLEAN ''Q007'' (emit PauseWork r)
      | ESTATE_FAST_BUILD_MAP \<Rightarrow>
          netserverIntergrationHandle EJOB_PAUSE_CLEAN ESTATE_PAUSE_FAST_BUILD_MAP ''Q007'' (emit PauseWork r)
      | ESTATE_BACK_CHARGE \<Rightarrow> netserverIntergrationHandle EJOB_PAUSE_CLEAN ESTATE_CHAGRE_PAUSE ''Q007'' (emit PauseWork r)
      | ESTATE_BACK_WASH \<Rightarrow> netserverIntergrationHandle EJOB_PAUSE_CLEAN ESTATE_WASH_PAUSE ''Q007'' (emit PauseWork r)
      | _ \<Rightarrow> r)"

definition continue_clean :: "robot \<Rightarrow> robot" where
  "continue_clean r =
     (case getMState (dm r) of
        ESTATE_PAUSE_CLEAN \<Rightarrow> netserverIntergrationHandle EJOB_RESUME_CLEAN ESTATE_CLEAN ''Q008'' (emit ResumeWork r)
      | ESTATE_PAUSE_FAST_BUILD_MAP \<Rightarrow>
          netserverIntergrationHandle EJOB_RESUME_CLEAN ESTATE_FAST_BUILD_MAP ''Q008'' (emit ResumeWork r)
      | ESTATE_CHAGRE_PAUSE \<Rightarrow> netserverIntergrationHandle EJOB_RESUME_CLEAN ESTATE_BACK_CHARGE ''Q008'' (emit ResumeWork r)
      | ESTATE_WASH_PAUSE \<Rightarrow> netserverIntergrationHandle EJOB_RESUME_CLEAN ESTATE_BACK_WASH ''Q008'' (emit ResumeWork r)
      | _ \<Rightarrow> r)"

definition stop_clean :: "robot \<Rightarrow> robot" where
  "stop_clean r =
     sendState (on_dm (setMState ESTATE_IDLE) (on_je (setJobCommand EJOB_STOP_CLEAN) (emit InterruptWork r)))"

text \<open>\<open>select_map\<close> only fills a local variable.\<close>

definition work_handle :: "string \<Rightarrow> net_request \<Rightarrow> robot \<Rightarrow> bool \<times> robot" where
  "work_handle netype jreq r =
     (let r1 = (if netype = ''fast_build_map'' then on_je (setJobCommand EJOB_FAST_BUILD_MAP) r else r);
          r2 = (if netype = ''recharge'' then on_je (setJobCommand EJOB_BACK_CHARGE) r1 else r1);
          r3 = (if netype = ''start_clean'' then on_je (setJobCommand EJOB_GLOBAL_CLEAN) r2 else r2);
          r4 = (if netype = ''zoning_clean''
                then if nr_mode jreq = 1 then on_je (setJobCommand EJOB_LOCAL_CLEAN) r3
                     else if nr_mode jreq = 2 then on_je (setJobCommand EJOB_ZONE_CLEAN) r3
                     else if nr_mode jreq = 3 then on_je (setJobCommand EJOB_POINT_CLEAN) r3
                     else r3
                else r3);
          r5 = (if netype = ''pause_clean'' then pause_clean r4 else r4);
          r6 = (if netype = ''continue_clean'' then continue_clean r5 else r5);
          r7 = (if netype = ''stop_clean'' then stop_clean r6 else r6)
      in if netype = ''clear_robot_traj'' \<and> pose_vector r7 = [] then (False, r7)
         else
           let r8 = (if netype = ''clear_robot_traj'' then r7\<lparr>pose_vector := []\<rparr> else r7);
               r9 = (if netype = ''set_wifi_state'' \<and> (nr_wifi_state jreq = 1 \<or> nr_wifi_state jreq = 0)
                     then on_sd (\<lambda>s. s\<lparr>network_value := nr_wifi_state jreq\<rparr>) r8 else r8)
           in (True, r9))"

text \<open>C++ division truncates towards 0.\<close>

definition pose_down_net :: "int \<Rightarrow> int \<Rightarrow> int \<Rightarrow> robot \<Rightarrow> robot" where
  "pose_down_net x y yam r =
     (let pv = (if length (pose_vector r) > 10000 then tl (pose_vector r) else pose_vector r)
      in r\<lparr>pose_vector := pv @ [\<lparr>pose_x50 = y, pose_y50 = - x, pose_yam = (if yam \<ge> 0 then yam div 1000 else - ((- yam) div 1000))\<rparr>]\<rparr>)"

text \<open>The trail sent for \<open>update_clean_trail\<close>: the comparison converts a negative start to a huge unsigned number.\<close>

definition clean_trail :: "int \<Rightarrow> robot \<Rightarrow> (int \<times> int) list" where
  "clean_trail start_pos r =
     (if start_pos < 0 then [] else map (\<lambda>p. (pose_x50 p, pose_y50 p)) (drop (nat start_pos) (pose_vector r)))"

section \<open>Keys and faults\<close>

definition set_mop_ctrl :: "int \<Rightarrow> robot \<Rightarrow> robot" where
  "set_mop_ctrl v = emit (MopCtrl v)"

definition clear_key :: "robot \<Rightarrow> robot" where
  "clear_key = on_sd (\<lambda>s. s\<lparr>key_value := 0\<rparr>)"

text \<open>The branches of the key handler; \<open>m\<close> is the main state it read first and \<open>work\<close> says that no network is being set up.\<close>

definition key_start :: "bool \<Rightarrow> E_MASTER_STATE \<Rightarrow> robot \<Rightarrow> robot" where
  "key_start work m r =
     (if work \<and> key_value (sd r) = 1 \<and> m = ESTATE_IDLE then clear_key (on_je (setJobCommand EJOB_GLOBAL_CLEAN) r) else r)"

definition key_pause :: "bool \<Rightarrow> E_MASTER_STATE \<Rightarrow> robot \<Rightarrow> robot" where
  "key_pause work m r =
     (if work \<and> key_value (sd r) = 1 \<and> m = ESTATE_CLEAN
      then sendState (clear_key (emit PauseWork (set_voice_play ''Q007''
             (on_dm (setMState ESTATE_PAUSE_CLEAN) (on_je (setJobCommand EJOB_PAUSE_CLEAN) r)))))
      else r)"

definition key_resume :: "bool \<Rightarrow> E_MASTER_STATE \<Rightarrow> robot \<Rightarrow> robot" where
  "key_resume work m r =
     (if work \<and> key_value (sd r) = 1 \<and> m = ESTATE_PAUSE_CLEAN
      then sendState (clear_key (emit ResumeWork (set_voice_play ''Q008''
             (on_dm (setMState ESTATE_CLEAN) (on_je (setJobCommand EJOB_RESUME_CLEAN) r)))))
      else r)"

definition key_shutdown :: "robot \<Rightarrow> robot" where
  "key_shutdown r =
     (if key_value (sd r) = 2
      then sendState (clear_key (set_voice_play ''Q022''
             (on_dm (setMState ESTATE_SHUTDOWM) (on_je (setJobCommand EJOB_SHUTDOWM) (set_mop_ctrl 0 r)))))
      else r)"

definition key_network :: "robot \<Rightarrow> robot" where
  "key_network r =
     (if key_value (sd r) = 4 then on_sd (\<lambda>s. s\<lparr>network_value := - 1\<rparr>) (clear_key (emit PauseWork r)) else r)"

text \<open>\<open>buttons\<close> is the number in a \<open>trigger_data\<close> message; every other broadcast runs the handler too.\<close>

definition res_periphe_key :: "string \<Rightarrow> byte \<Rightarrow> robot \<Rightarrow> robot" where
  "res_periphe_key ksentype buttons r =
     (let r0 = (if ksentype = ''trigger_data'' then on_sd (\<lambda>s. s\<lparr>key_value := buttons\<rparr>) r else r);
          m = getMState (dm r0);
          work = network_value (sd r0) \<noteq> - 1
      in key_network (key_shutdown (key_resume work m (key_pause work m (key_start work m r0)))))"

definition res_periphe_fault :: "string \<Rightarrow> int \<Rightarrow> robot \<Rightarrow> mem_error + robot" where
  "res_periphe_fault faulttype fault r =
     (if faulttype \<noteq> ''fault_state'' then Inr r
      else
        let r1 = (if getMState (dm r) \<noteq> ESTATE_ERROR \<and> fault \<noteq> 0
                  then sendState (emit PauseWork (on_dm (setMState ESTATE_ERROR) r)) else r)
        in if getMState (dm r1) = ESTATE_ERROR
           then bindE (getMQueueFort (dm r1)) (\<lambda>first_state.
             if fault = 0
             then case first_state of
                    ESTATE_CLEAN \<Rightarrow> Inr (sendState (on_dm (setMState ESTATE_PAUSE_CLEAN) r1))
                  | ESTATE_FAST_BUILD_MAP \<Rightarrow> Inr (sendState (on_dm (setMState ESTATE_PAUSE_FAST_BUILD_MAP) r1))
                  | ESTATE_BACK_CHARGE \<Rightarrow> Inr (sendState (on_dm (setMState ESTATE_CHAGRE_PAUSE) r1))
                  | _ \<Rightarrow> Inr r1
             else Inr r1)
           else Inr r1)"

section \<open>Steps and the invariant\<close>

text \<open>The handlers of the other threads, and the passes of the work loop. A step is a whole handler or a whole pass, except
  that handlers run while \<open>house_clean\<close> does; the single steps of the cells, which the code does not lock, are in
  \<open>Cell_Threads\<close>.\<close>

inductive handler_step :: "robot \<Rightarrow> robot \<Rightarrow> bool" where
  net: "handler_step r (snd (work_handle t q r))"
| key: "handler_step r (res_periphe_key t b r)"
| fault: "res_periphe_fault t f r = Inr r' \<Longrightarrow> handler_step r r'"
| listen: "listenState r = Inr r' \<Longrightarrow> handler_step r r'"
| pose: "handler_step r (pose_down_net x y yam r)"
| switch: "handler_step r (setCRobotdata v r)"

inductive robot_step :: "robot \<Rightarrow> robot \<Rightarrow> bool" where
  handler: "handler_step r r' \<Longrightarrow> robot_step r r'"
| pass: "(\<And>s. reach handler_step s (snd (hc s))) \<Longrightarrow> robot_step r (schedule_pass hc r)"

definition robot_inv :: "robot \<Rightarrow> bool" where
  "robot_inv r \<longleftrightarrow> m_inv (dm r) \<and> c_inv (dm r) \<and> j_inv (je r) \<and> (MstateData (dm r) = [] \<longrightarrow> m_state (dm r) = ESTATE_IDLE) \<and>
     length (pose_vector r) \<le> 10001"

lemma robot_fields [simp]:
  "dm (on_dm f r) = f (dm r)" "je (on_dm f r) = je r" "rs (on_dm f r) = rs r" "sd (on_dm f r) = sd r" "pose_vector (on_dm f r) = pose_vector r" "fx (on_dm f r) = fx r"
  "dm (on_je g r) = dm r" "je (on_je g r) = g (je r)" "rs (on_je g r) = rs r" "sd (on_je g r) = sd r" "pose_vector (on_je g r) = pose_vector r" "fx (on_je g r) = fx r"
  "dm (on_rs h r) = dm r" "je (on_rs h r) = je r" "rs (on_rs h r) = h (rs r)" "sd (on_rs h r) = sd r" "pose_vector (on_rs h r) = pose_vector r" "fx (on_rs h r) = fx r"
  "dm (on_sd k r) = dm r" "je (on_sd k r) = je r" "rs (on_sd k r) = rs r" "sd (on_sd k r) = k (sd r)" "pose_vector (on_sd k r) = pose_vector r" "fx (on_sd k r) = fx r"
  "dm (emit e r) = dm r" "je (emit e r) = je r" "rs (emit e r) = rs r" "sd (emit e r) = sd r" "pose_vector (emit e r) = pose_vector r" "fx (emit e r) = fx r @ [e]"
  by (simp_all add: robot_defs)

lemma sendState_fields [simp]:
  "dm (sendState r) = dm r" "je (sendState r) = je r" "rs (sendState r) = rs r" "sd (sendState r) = sd r"
  "pose_vector (sendState r) = pose_vector r" "fx (sendState r) = fx r @ [SendState (getMState (dm r)) (getCleanState (dm r))]"
  by (simp_all add: sendState_def)

lemma voice_fields [simp]:
  "dm (set_voice_play v r) = dm r" "je (set_voice_play v r) = je r" "rs (set_voice_play v r) = rs r" "sd (set_voice_play v r) = sd r"
  "pose_vector (set_voice_play v r) = pose_vector r" "fx (set_voice_play v r) = fx r @ [Voice v]"
  by (simp_all add: set_voice_play_def)

text \<open>The two cells of the data model do not touch each other.\<close>

lemma cells_apart [simp]:
  "m_state (setCleanState c d) = m_state d" "MstateData (setCleanState c d) = MstateData d"
  "clean_state (setMState m d) = clean_state d" "CstateData (setMState m d) = CstateData d"
  "getMState (setCleanState c d) = getMState d" "getCleanState (setMState m d) = getCleanState d"
  "m_inv (setCleanState c d) = m_inv d" "c_inv (setMState m d) = c_inv d"
  by (simp_all add: setCleanState_def setMState_def getMState_def getCleanState_def m_inv_def c_inv_def Let_def)

lemma setMState_started:
  "m_inv d \<Longrightarrow> (MstateData d = [] \<longrightarrow> m_state d = ESTATE_IDLE) \<Longrightarrow>
     MstateData (setMState m d) = [] \<longrightarrow> m_state (setMState m d) = ESTATE_IDLE"
  by (auto simp: setMState_def m_inv_def cell_inv_def Let_def split: if_splits dest!: short_list)

lemma inv_setM [simp]: "robot_inv r \<Longrightarrow> robot_inv (on_dm (setMState m) r)"
  using setMState_started [of "dm r" m] by (simp add: robot_inv_def mcell.put_inv)

lemma inv_setC [simp]: "robot_inv r \<Longrightarrow> robot_inv (on_dm (setCleanState c) r)"
  by (simp add: robot_inv_def ccell.put_inv)

lemma inv_setJ [simp]: "robot_inv r \<Longrightarrow> robot_inv (on_je (setJobCommand c) r)"
  by (simp add: robot_inv_def jcell.put_inv)

lemma inv_other [simp]:
  "robot_inv (on_rs h r) = robot_inv r" "robot_inv (on_sd k r) = robot_inv r" "robot_inv (emit e r) = robot_inv r"
  "robot_inv (sendState r) = robot_inv r" "robot_inv (set_voice_play v r) = robot_inv r" "robot_inv (clear_key r) = robot_inv r"
  "robot_inv (set_mop_ctrl x r) = robot_inv r" "robot_inv (send_clean_log r) = robot_inv r" "robot_inv (startWorkSchedule r) = robot_inv r"
  by (simp_all add: robot_inv_def clear_key_def set_mop_ctrl_def send_clean_log_def startWorkSchedule_def startSlamModule_def)

lemma allWork_inv [simp]: "robot_inv r \<Longrightarrow> robot_inv (allWorkInterface m c v r)"
  by (auto simp: allWorkInterface_def Let_def)

lemma cleanCommand_inv: "robot_inv r \<Longrightarrow> robot_inv (cleanCommand cmd r)"
  by (auto simp: cleanCommand_def Let_def split: EJobCommand.split)

lemma newCommandHandle_inv: "robot_inv r \<Longrightarrow> robot_inv (newCommandHandle r)"
  by (simp add: newCommandHandle_def Let_def cleanCommand_inv)

lemma integration_inv [simp]: "robot_inv r \<Longrightarrow> robot_inv (netserverIntergrationHandle j m v r)"
  by (auto simp: netserverIntergrationHandle_def)

lemma pause_inv [simp]: "robot_inv r \<Longrightarrow> robot_inv (pause_clean r)"
  by (auto simp: pause_clean_def split: E_MASTER_STATE.split)

lemma continue_inv [simp]: "robot_inv r \<Longrightarrow> robot_inv (continue_clean r)"
  by (auto simp: continue_clean_def split: E_MASTER_STATE.split)

lemma stop_inv [simp]: "robot_inv r \<Longrightarrow> robot_inv (stop_clean r)"
  by (auto simp: stop_clean_def)

lemma clear_traj_inv [simp]: "robot_inv r \<Longrightarrow> robot_inv (r\<lparr>pose_vector := []\<rparr>)"
  by (simp add: robot_inv_def)

text \<open>A chain of lets over robots, one step at a time.\<close>

lemma let_inv: "robot_inv x \<Longrightarrow> (\<And>y. robot_inv y \<Longrightarrow> P (f y)) \<Longrightarrow> P (Let x f)"
  by simp

lemma if_inv [simp]: "(P \<Longrightarrow> robot_inv a) \<Longrightarrow> (\<not> P \<Longrightarrow> robot_inv b) \<Longrightarrow> robot_inv (if P then a else b)"
  by simp

lemma work_handle_inv: "robot_inv r \<Longrightarrow> robot_inv (snd (work_handle t q r))"
  unfolding work_handle_def
  by (rule let_inv [where P = "\<lambda>z. robot_inv (snd z)"], simp)+ (simp add: Let_def)

lemma key_branch_inv [simp]:
  "robot_inv r \<Longrightarrow> robot_inv (key_start w m r)" "robot_inv r \<Longrightarrow> robot_inv (key_pause w m r)"
  "robot_inv r \<Longrightarrow> robot_inv (key_resume w m r)" "robot_inv r \<Longrightarrow> robot_inv (key_shutdown r)" "robot_inv r \<Longrightarrow> robot_inv (key_network r)"
  by (simp_all add: key_start_def key_pause_def key_resume_def key_shutdown_def key_network_def)

lemma key_inv: "robot_inv r \<Longrightarrow> robot_inv (res_periphe_key t b r)"
  by (simp add: res_periphe_key_def Let_def)

lemma fault_inv:
  assumes "robot_inv r" "res_periphe_fault t f r = Inr r'" shows "robot_inv r'"
proof -
  define r1 where "r1 = (if getMState (dm r) \<noteq> ESTATE_ERROR \<and> f \<noteq> 0
    then sendState (emit PauseWork (on_dm (setMState ESTATE_ERROR) r)) else r)"
  have "robot_inv r1" using assms(1) by (simp add: r1_def)
  with assms show ?thesis unfolding res_periphe_fault_def r1_def [symmetric] Let_def
    by (auto simp: bindE_Inr_iff split: if_splits E_MASTER_STATE.splits)
qed

lemma pose_inv: "robot_inv r \<Longrightarrow> robot_inv (pose_down_net x y yam r)"
  by (auto simp: pose_down_net_def robot_inv_def Let_def)

lemma listen_ok:
  assumes "robot_inv r"
  shows "\<exists>r'. listenState r = Inr r' \<and> robot_inv r'"
proof -
  have pop: "c_inv (d\<lparr>CstateData := [y]\<rparr>)" if "c_inv d" "CstateData d = [x, y]" for d x y
    using that by (simp add: c_inv_def cell_inv_def)
  obtain r1 where r1: "(if getCQueueSize (dm r) = 2
        then bindE (getCQueueFort (dm r)) (\<lambda>f. bindE (getCQueueBack (dm r)) (\<lambda>b.
          if f \<noteq> b then let r1 = emit InterruptWork r in bindE (deletCQueue (dm r1)) (\<lambda>d. Inr (r1\<lparr>dm := d\<rparr>)) else Inr r))
        else Inr r) = Inr r1" "robot_inv r1"
  proof (cases "length (CstateData (dm r)) = 2")
    case True
    then obtain x y where q: "CstateData (dm r) = [x, y]" by (cases "CstateData (dm r)"; cases "tl (CstateData (dm r))") auto
    show thesis
    proof (rule that)
      show "(if getCQueueSize (dm r) = 2
        then bindE (getCQueueFort (dm r)) (\<lambda>f. bindE (getCQueueBack (dm r)) (\<lambda>b.
          if f \<noteq> b then let r1 = emit InterruptWork r in bindE (deletCQueue (dm r1)) (\<lambda>d. Inr (r1\<lparr>dm := d\<rparr>)) else Inr r))
        else Inr r) = Inr (if x \<noteq> y then (emit InterruptWork r)\<lparr>dm := (dm r)\<lparr>CstateData := [y]\<rparr>\<rparr> else r)"
        by (simp add: getCQueueSize_def getCQueueFort_def getCQueueBack_def deletCQueue_def q_front_def q_back_def q_pop_def q)
      show "robot_inv (if x \<noteq> y then (emit InterruptWork r)\<lparr>dm := (dm r)\<lparr>CstateData := [y]\<rparr>\<rparr> else r)"
        using assms pop [of "dm r" x y] q by (auto simp: robot_inv_def m_inv_def)
    qed
  next
    case False
    then show thesis using assms by (intro that) (auto simp: getCQueueSize_def)
  qed
  show ?thesis unfolding listenState_def r1(1) bindE_simps using r1(2)
    by (auto simp: getMQueueSize_def getMQueueBack_def getMQueueFort_def q_back_def q_front_def split: E_MASTER_STATE.split)
qed

lemma switch_inv: "robot_inv r \<Longrightarrow> robot_inv (setCRobotdata v r)"
  by (simp add: setCRobotdata_def)

lemma handler_inv: "robot_inv r \<Longrightarrow> handler_step r r' \<Longrightarrow> robot_inv r'"
  by (erule handler_step.cases)
    (auto intro: work_handle_inv key_inv fault_inv pose_inv switch_inv dest: listen_ok)

lemma new_robot_inv: "robot_inv (new_robot k)"
  by (simp add: robot_inv_def new_robot_def new_CDataModel_def new_CRobotjobEvent_def m_inv_def c_inv_def j_inv_def cell_inv_def)

interpretation handlers: transition_system "new_robot k" handler_step robot_inv
  by unfold_locales (auto intro: new_robot_inv handler_inv)

lemma schedule_pass_inv:
  assumes "robot_inv r" and "\<And>s. reach handler_step s (snd (hc s))"
  shows "robot_inv (schedule_pass hc r)"
proof -
  let ?r = "newCommandHandle r"
  have n: "robot_inv ?r" using assms(1) by (rule newCommandHandle_inv)
  have "robot_inv (snd (hc (emit HouseClean ?r)))" using handlers.reach_keeps [OF assms(2)] n by simp
  with n have "robot_inv (cleanWorkHandle hc ?r)"
    by (auto simp: cleanWorkHandle_def split: CLEAN_STATE.split prod.split)
  then show ?thesis by (simp add: schedule_pass_def Let_def)
qed

interpretation robots: transition_system "new_robot k" robot_step robot_inv
proof
  show "robot_inv (new_robot k)" by (rule new_robot_inv)
  show "robot_inv r'" if "robot_inv r" "robot_step r r'" for r r'
    using that(2,1) by cases (auto intro: handler_inv schedule_pass_inv)
qed

lemma inv_getters:
  "robot_inv r \<Longrightarrow> getMState (dm r) = m_state (dm r) \<and> getCleanState (dm r) = clean_state (dm r) \<and> getJobCommand (je r) = job_cmd (je r)"
  by (auto simp: robot_inv_def m_inv_def c_inv_def j_inv_def cell_inv_def getMState_def getCleanState_def getJobCommand_def)

section \<open>Properties\<close>

lemma work_handle_pause: "snd (work_handle ''pause_clean'' q r) = pause_clean r"
  by (simp add: work_handle_def)

lemma work_handle_continue: "snd (work_handle ''continue_clean'' q r) = continue_clean r"
  by (simp add: work_handle_def)

lemma work_handle_stop: "snd (work_handle ''stop_clean'' q r) = stop_clean r"
  by (simp add: work_handle_def)

text \<open>When the handlers and passes run one after the other: in every state the scheduler reaches, whatever network commands,
  keys, faults, timer events and cleaning passes came before, the three readers return the value written last, the histories
  have at most two entries, the pose trail at most 10001, and neither the fault handler nor the state listener ever touches an
  empty queue. The code takes no lock around them; what the single steps of concurrent calls keep is in \<open>Cell_Threads\<close>.\<close>

theorem scheduler_state_safe:
  assumes "reach robot_step (new_robot k) r"
  shows "getMState (dm r) = m_state (dm r) \<and> getCleanState (dm r) = clean_state (dm r) \<and> getJobCommand (je r) = job_cmd (je r) \<and>
     length (MstateData (dm r)) \<le> 2 \<and> length (CstateData (dm r)) \<le> 2 \<and> length (Ejobcmd (je r)) \<le> 2 \<and>
     length (pose_vector r) \<le> 10001 \<and> (\<exists>r'. listenState r = Inr r') \<and> (\<exists>r'. res_periphe_fault t f r = Inr r')"
proof -
  have inv: "robot_inv r" using assms by (rule robots.reach_inv)
  have q: "MstateData d \<noteq> []" if "m_inv d" "MstateData d = [] \<longrightarrow> m_state d = ESTATE_IDLE" "getMState d = ESTATE_ERROR" for d
    using that by (auto simp: getMState_def)
  have "\<exists>r'. res_periphe_fault t f r = Inr r'"
  proof (cases "getMState (dm r) = ESTATE_ERROR")
    case True
    with q [of "dm r"] inv show ?thesis
      by (auto simp: res_periphe_fault_def getMQueueFort_def q_front_def robot_inv_def split: E_MASTER_STATE.split)
  next
    case False
    have "m_inv (setMState ESTATE_ERROR (dm r))" "getMState (setMState ESTATE_ERROR (dm r)) = ESTATE_ERROR"
      using inv by (simp_all add: robot_inv_def mcell.put_inv mcell.get_put)
    with q [of "setMState ESTATE_ERROR (dm r)"] setMState_started [of "dm r" ESTATE_ERROR] inv False show ?thesis
      by (auto simp: res_periphe_fault_def getMQueueFort_def q_front_def robot_inv_def split: E_MASTER_STATE.split)
  qed
  then show ?thesis using inv_getters [OF inv] listen_ok [OF inv] inv
    by (auto simp: robot_inv_def m_inv_def c_inv_def j_inv_def cell_inv_def)
qed

theorem scheduler_state_safe_witness:
  "\<exists>r. reach robot_step (new_robot 0) r \<and> getMState (dm r) = ESTATE_IDLE \<and> getJobCommand (je r) = EJOB_STOP_CLEAN \<and>
     (\<exists>r'. listenState r = Inr r')"
proof -
  define r where "r = snd (work_handle ''stop_clean'' \<lparr>nr_mode = 0, nr_wifi_state = 0\<rparr> (new_robot 0))"
  have "handler_step (new_robot 0) r" unfolding r_def by (rule net)
  then have reach: "reach robot_step (new_robot 0) r" by (intro reach_step [OF reach_refl] handler)
  have "m_state (dm r) = ESTATE_IDLE" "job_cmd (je r) = EJOB_STOP_CLEAN"
    by (simp_all add: r_def work_handle_stop stop_clean_def new_robot_def new_CDataModel_def new_CRobotjobEvent_def
        setMState_def setJobCommand_def Let_def)
  with scheduler_state_safe [OF reach, of "[]" 0] reach show ?thesis by (intro exI [of _ r]) simp
qed

text \<open>The work that a network command asks for: the main state, the clean state and the type in the log.\<close>

definition command_work :: "string \<Rightarrow> int \<Rightarrow> (E_MASTER_STATE \<times> CLEAN_STATE \<times> int option) option" where
  "command_work netype mode =
     (if netype = ''start_clean'' then Some (ESTATE_CLEAN, CLEAN_STATE_AUTO, Some 1)
      else if netype = ''zoning_clean'' \<and> mode = 1 then Some (ESTATE_CLEAN, CLEAN_STATE_RECT, Some 2)
      else if netype = ''zoning_clean'' \<and> mode = 2 then Some (ESTATE_CLEAN, CLEAN_STATE_LOCATION, Some 3)
      else if netype = ''zoning_clean'' \<and> mode = 3 then Some (ESTATE_CLEAN, CLEAN_STATE_SITU, Some 4)
      else if netype = ''fast_build_map'' then Some (ESTATE_FAST_BUILD_MAP, CLEAN_STATE_NULL, None)
      else if netype = ''recharge'' then Some (ESTATE_BACK_CHARGE, CLEAN_STATE_NULL, None)
      else None)"

lemma allWork_result:
  assumes "robot_inv r"
  shows "getMState (dm (allWorkInterface m c v r)) = m" "getCleanState (dm (allWorkInterface m c v r)) = c"
    "getJobCommand (je (allWorkInterface m c v r)) = EJOB_NULL" "fx (allWorkInterface m c v r) = fx r @ [Voice v, SendState m c]"
    "rs (allWorkInterface m c v r) = rs r"
  using assms by (simp_all add: allWorkInterface_def Let_def robot_inv_def mcell.get_put ccell.get_put jcell.get_put)

definition command_job :: "string \<Rightarrow> int \<Rightarrow> EJobCommand option" where
  "command_job netype mode =
     (if netype = ''start_clean'' then Some EJOB_GLOBAL_CLEAN
      else if netype = ''zoning_clean'' \<and> mode = 1 then Some EJOB_LOCAL_CLEAN
      else if netype = ''zoning_clean'' \<and> mode = 2 then Some EJOB_ZONE_CLEAN
      else if netype = ''zoning_clean'' \<and> mode = 3 then Some EJOB_POINT_CLEAN
      else if netype = ''fast_build_map'' then Some EJOB_FAST_BUILD_MAP
      else if netype = ''recharge'' then Some EJOB_BACK_CHARGE
      else None)"

lemma work_handle_job: "command_job t (nr_mode q) = Some j \<Longrightarrow> work_handle t q r = (True, on_je (setJobCommand j) r)"
  by (simp add: command_job_def split: if_split_asm) (simp_all add: work_handle_def)

lemma job_order [simp]: "(c :: EJobCommand) \<le> d \<longleftrightarrow> job_code c \<le> job_code d"
  by (simp add: less_eq_EJobCommand_def)

lemma newCommandHandle_job:
  assumes "robot_inv r" "command_work t md = Some (m, c, ty)" "command_job t md = Some j"
  defines "r1 \<equiv> newCommandHandle (on_je (setJobCommand j) r)"
  shows "getMState (dm r1) = m \<and> getCleanState (dm r1) = c \<and> getJobCommand (je r1) = EJOB_NULL \<and>
     (\<exists>v. fx r1 = fx r @ [Voice v, SendState m c]) \<and> (\<forall>x. ty = Some x \<longrightarrow> clean_type (rs r1) = x)"
proof -
  let ?r = "startWorkSchedule (on_je (setJobCommand j) r)"
  have i: "robot_inv ?r" using assms(1) by simp
  have fx: "fx ?r = fx r" by (simp add: startWorkSchedule_def startSlamModule_def)
  have "getJobCommand (setJobCommand j (je r)) = j" using assms(1) by (simp add: robot_inv_def jcell.get_put)
  then show ?thesis unfolding r1_def using assms(2,3) allWork_result [OF i] fx
    by (auto simp: command_work_def command_job_def newCommandHandle_def cleanCommand_def Let_def split: if_splits)
qed

text \<open>C13. A cleaning, mapping or charging command from the network, in any reachable state, is carried out by the next
  command step of the scheduler: the main and the clean state become those of the command, they are announced
  after the voice prompt, the type for the log is set, and the command is consumed.\<close>

theorem command_carried_out:
  assumes "reach robot_step (new_robot k) r" and "command_work t (nr_mode q) = Some (m, c, ty)"
  shows "let r1 = newCommandHandle (snd (work_handle t q r))
     in getMState (dm r1) = m \<and> getCleanState (dm r1) = c \<and> getJobCommand (je r1) = EJOB_NULL \<and>
        (\<exists>v. fx r1 = fx r @ [Voice v, SendState m c]) \<and> (\<forall>x. ty = Some x \<longrightarrow> clean_type (rs r1) = x)"
proof -
  have inv: "robot_inv r" using assms(1) by (rule robots.reach_inv)
  from assms(2) obtain j where j: "command_job t (nr_mode q) = Some j"
    by (auto simp: command_work_def command_job_def split: if_splits)
  from newCommandHandle_job [OF inv assms(2) j] show ?thesis by (simp add: work_handle_job [OF j])
qed

theorem command_carried_out_witness:
  "let r1 = newCommandHandle (snd (work_handle ''zoning_clean'' \<lparr>nr_mode = 2, nr_wifi_state = 0\<rparr> (new_robot 0)))
   in getMState (dm r1) = ESTATE_CLEAN \<and> getCleanState (dm r1) = CLEAN_STATE_LOCATION \<and> clean_type (rs r1) = 3"
  using command_carried_out [OF reach_refl, of "''zoning_clean''" "\<lparr>nr_mode = 2, nr_wifi_state = 0\<rparr>"
      ESTATE_CLEAN CLEAN_STATE_LOCATION "Some 3" 0]
  by (simp add: command_work_def Let_def)

lemma integration_result:
  assumes "robot_inv r"
  shows "getMState (dm (netserverIntergrationHandle j m v r)) = m"
    "getCleanState (dm (netserverIntergrationHandle j m v r)) = getCleanState (dm r)"
    "fx (netserverIntergrationHandle j m v r) = fx r @ [Voice v, SendState m (getCleanState (dm r))]"
  using assms by (simp_all add: netserverIntergrationHandle_def robot_inv_def mcell.get_put)

text \<open>C27. Pausing and continuing from the network restores the main state in each of the four working states, tells the
  motion control to pause and then to resume, and announces both states.\<close>

theorem pause_continue_roundtrip:
  fixes q :: net_request
  assumes "reach robot_step (new_robot k) r"
    and "getMState (dm r) \<in> {ESTATE_CLEAN, ESTATE_FAST_BUILD_MAP, ESTATE_BACK_CHARGE, ESTATE_BACK_WASH}"
  defines "r1 \<equiv> snd (work_handle ''pause_clean'' q r)"
  defines "r2 \<equiv> snd (work_handle ''continue_clean'' q r1)"
  shows "getMState (dm r1) \<notin> {ESTATE_CLEAN, ESTATE_FAST_BUILD_MAP, ESTATE_BACK_CHARGE, ESTATE_BACK_WASH} \<and>
     getMState (dm r2) = getMState (dm r) \<and> getCleanState (dm r2) = getCleanState (dm r) \<and>
     fx r2 = fx r @ [PauseWork, Voice ''Q007'', SendState (getMState (dm r1)) (getCleanState (dm r)),
                     ResumeWork, Voice ''Q008'', SendState (getMState (dm r)) (getCleanState (dm r))]"
proof -
  have inv: "robot_inv (emit PauseWork r)" using robots.reach_inv [OF assms(1)] by simp
  note p = integration_result [OF inv]
  have inv2: "robot_inv (emit ResumeWork (netserverIntergrationHandle j m v (emit PauseWork r)))" for j m v
    using inv by simp
  note c = integration_result [OF inv2]
  show ?thesis unfolding r2_def r1_def work_handle_pause work_handle_continue
    using assms(2) by (auto simp: pause_clean_def continue_clean_def p c)
qed

lemma getMState_setM: "robot_inv r \<Longrightarrow> getMState (setMState m (dm r)) = m"
  by (simp add: robot_inv_def mcell.get_put)

text \<open>A robot that has been told to clean, for the witnesses.\<close>

definition plain_request :: net_request where
  "plain_request = \<lparr>nr_mode = 0, nr_wifi_state = 1\<rparr>"

definition cleaning_robot :: robot where
  "cleaning_robot = schedule_pass (\<lambda>s. (2, s)) (snd (work_handle ''start_clean'' plain_request (new_robot 0)))"

lemma cleaning_robot_reach: "reach robot_step (new_robot 0) cleaning_robot"
proof -
  have 1: "robot_step (new_robot 0) (snd (work_handle ''start_clean'' plain_request (new_robot 0)))"
    by (rule handler, rule net)
  have 2: "robot_step (snd (work_handle ''start_clean'' plain_request (new_robot 0))) cleaning_robot"
    unfolding cleaning_robot_def by (rule pass) (simp add: reach_refl)
  from 1 have "reach robot_step (new_robot 0) (snd (work_handle ''start_clean'' plain_request (new_robot 0)))"
    by (rule reach_step [OF reach_refl])
  then show ?thesis using 2 by (rule reach_step)
qed

lemma cleaning_robot_state: "getMState (dm cleaning_robot) = ESTATE_CLEAN" "network_value (sd cleaning_robot) = - 2"
  "job_cmd (je cleaning_robot) = EJOB_NULL"
  by code_simp+

theorem pause_continue_roundtrip_witness:
  "getMState (dm (snd (work_handle ''continue_clean'' plain_request
     (snd (work_handle ''pause_clean'' plain_request cleaning_robot))))) = ESTATE_CLEAN"
  using pause_continue_roundtrip [OF cleaning_robot_reach, of plain_request] by (simp add: cleaning_robot_state)

text \<open>A fault and its end: when the fault clears, a robot that was cleaning, mapping or going to charge is left
  paused, so that it can be continued; from every other state it stays in the error state.\<close>

theorem fault_recovery:
  assumes "reach robot_step (new_robot k) r" and "getMState (dm r) \<noteq> ESTATE_ERROR" and "f \<noteq> 0"
  shows "\<exists>r1 r2. res_periphe_fault ''fault_state'' f r = Inr r1 \<and> getMState (dm r1) = ESTATE_ERROR \<and>
     res_periphe_fault ''fault_state'' 0 r1 = Inr r2 \<and>
     getMState (dm r2) = (case getMState (dm r) of ESTATE_CLEAN \<Rightarrow> ESTATE_PAUSE_CLEAN
        | ESTATE_FAST_BUILD_MAP \<Rightarrow> ESTATE_PAUSE_FAST_BUILD_MAP | ESTATE_BACK_CHARGE \<Rightarrow> ESTATE_CHAGRE_PAUSE
        | _ \<Rightarrow> ESTATE_ERROR)"
proof -
  have inv: "robot_inv r" using assms(1) by (rule robots.reach_inv)
  let ?d = "setMState ESTATE_ERROR (dm r)"
  let ?r = "sendState (emit PauseWork (on_dm (setMState ESTATE_ERROR) r))"
  have i: "robot_inv ?r" "getMState ?d = ESTATE_ERROR" using inv by (simp_all add: getMState_setM)
  have q: "MstateData ?d = (if MstateData (dm r) = [] then [ESTATE_ERROR] else [getMState (dm r), ESTATE_ERROR])"
    "MstateData (dm r) = [] \<Longrightarrow> getMState (dm r) = ESTATE_IDLE"
    using inv mcell.hist_change [of "dm r" ESTATE_ERROR] mcell.hist_put [of "dm r" ESTATE_ERROR] assms(2) inv_getters [OF inv]
    by (auto simp: robot_inv_def)
  have s: "getMState (setMState m ?d) = m" for m using getMState_setM [OF i(1)] by simp
  have "res_periphe_fault ''fault_state'' f r = Inr ?r"
    using assms(2,3) i(2) q(1) by (simp add: res_periphe_fault_def getMQueueFort_def q_front_def)
  moreover have "\<exists>r2. res_periphe_fault ''fault_state'' 0 ?r = Inr r2 \<and> getMState (dm r2) =
      (case getMState (dm r) of ESTATE_CLEAN \<Rightarrow> ESTATE_PAUSE_CLEAN
        | ESTATE_FAST_BUILD_MAP \<Rightarrow> ESTATE_PAUSE_FAST_BUILD_MAP | ESTATE_BACK_CHARGE \<Rightarrow> ESTATE_CHAGRE_PAUSE | _ \<Rightarrow> ESTATE_ERROR)"
  proof (cases "MstateData (dm r) = []")
    case True
    with q i(2) show ?thesis by (simp add: res_periphe_fault_def getMQueueFort_def q_front_def)
  next
    case False
    with q(1) i(2) s show ?thesis
      by (cases "getMState (dm r)") (simp_all add: res_periphe_fault_def getMQueueFort_def q_front_def)
  qed
  ultimately show ?thesis using i(2) by auto
qed

theorem fault_recovery_witness:
  "\<exists>r1 r2. res_periphe_fault ''fault_state'' 3 cleaning_robot = Inr r1 \<and> res_periphe_fault ''fault_state'' 0 r1 = Inr r2 \<and>
     getMState (dm r2) = ESTATE_PAUSE_CLEAN"
  using fault_recovery [OF cleaning_robot_reach, of 3] by (auto simp: cleaning_robot_state)

text \<open>The work loop reads the command, carries it out and clears the command queue, without a lock. A stop from
  the network between the reading and the carrying out is lost: the robot ends up cleaning, the stop command is
  gone, and so is the idle state that was announced.\<close>

theorem stop_lost_in_race:
  assumes "reach robot_step (new_robot k) r" and "command_job t (nr_mode q) = Some EJOB_GLOBAL_CLEAN"
  defines "r1 \<equiv> snd (work_handle t q r)"
  defines "r2 \<equiv> snd (work_handle ''stop_clean'' q r1)"
  defines "r3 \<equiv> cleanCommand (getJobCommand (je r1)) r2"
  shows "getMState (dm r2) = ESTATE_IDLE \<and> getJobCommand (je r2) = EJOB_STOP_CLEAN \<and>
     getMState (dm r3) = ESTATE_CLEAN \<and> getCleanState (dm r3) = CLEAN_STATE_AUTO \<and> getJobCommand (je r3) = EJOB_NULL \<and>
     newCommandHandle r3 = r3"
proof -
  have inv: "robot_inv r" using assms(1) by (rule robots.reach_inv)
  have r1: "r1 = on_je (setJobCommand EJOB_GLOBAL_CLEAN) r" unfolding r1_def using work_handle_job [OF assms(2)] by simp
  have i1: "robot_inv r1" "robot_inv (emit InterruptWork r1)" using inv by (simp_all add: r1)
  have j1: "getJobCommand (je r1) = EJOB_GLOBAL_CLEAN" using inv by (simp add: r1 robot_inv_def jcell.get_put)
  have r2: "r2 = stop_clean r1" unfolding r2_def by (rule work_handle_stop)
  have i2: "robot_inv (startWorkSchedule r2)" using i1 by (simp add: r2)
  have s2: "getMState (dm r2) = ESTATE_IDLE" "getJobCommand (je r2) = EJOB_STOP_CLEAN"
    using i1 by (simp_all add: r2 stop_clean_def robot_inv_def mcell.get_put jcell.get_put)
  have "r3 = on_rs (\<lambda>s. s\<lparr>clean_type := 1\<rparr>) (allWorkInterface ESTATE_CLEAN CLEAN_STATE_AUTO ''Q006'' (startWorkSchedule r2))"
    by (simp add: r3_def j1 cleanCommand_def)
  with s2 allWork_result [OF i2] show ?thesis by (simp add: newCommandHandle_def)
qed

theorem stop_lost_in_race_witness:
  "let r1 = snd (work_handle ''start_clean'' plain_request (new_robot 0));
       r2 = snd (work_handle ''stop_clean'' plain_request r1)
   in getMState (dm r2) = ESTATE_IDLE \<and> getMState (dm (cleanCommand (getJobCommand (je r1)) r2)) = ESTATE_CLEAN"
  using stop_lost_in_race [OF reach_refl, of "''start_clean''" plain_request 0] by (simp add: command_job_def Let_def)

lemma pass_after_stop:
  fixes hc :: "robot \<Rightarrow> byte \<times> robot"
  assumes "robot_inv r" "getJobCommand (je r) = EJOB_STOP_CLEAN" "getMState (dm r) \<noteq> ESTATE_CLEAN" "m_slamState (rs r) = SLAM_IDLE"
  defines "r' \<equiv> schedule_pass hc r"
  shows "robot_inv r'" "getJobCommand (je r') = EJOB_STOP_CLEAN" "getMState (dm r') \<noteq> ESTATE_CLEAN" "m_slamState (rs r') = SLAM_IDLE"
    "slam_threads (rs r') = slam_threads (rs r) + 1" "SIG_VALUE_SCHEDULE (rs r') = SIG_VALUE_SCHEDULE (rs r)"
proof -
  have c: "cleanWorkHandle hc (newCommandHandle r) = on_rs (\<lambda>s. s\<lparr>slam_threads := slam_threads s + 1\<rparr>) r"
    using assms(2-4) by (simp add: newCommandHandle_def cleanCommand_def startWorkSchedule_def startSlamModule_def cleanWorkHandle_def)
  show "robot_inv r'" "getJobCommand (je r') = EJOB_STOP_CLEAN" "getMState (dm r') \<noteq> ESTATE_CLEAN" "m_slamState (rs r') = SLAM_IDLE"
    "slam_threads (rs r') = slam_threads (rs r) + 1" "SIG_VALUE_SCHEDULE (rs r') = SIG_VALUE_SCHEDULE (rs r)"
    using assms(1-4) unfolding r'_def schedule_pass_def c
    by (simp_all add: Let_def send_clean_log_def getMState_setM)
qed

text \<open>After a stop from the network the command is never consumed: every pass of the work loop finds it again and
  starts one more thread, whose handle overwrites the one before, so after \<open>n\<close> passes \<open>n\<close> threads were started.\<close>

theorem stop_leaks_threads:
  assumes "reach robot_step (new_robot k) r" and "SIG_VALUE_SCHEDULE (rs r)" and "m_slamState (rs r) = SLAM_IDLE"
  shows "slam_threads (rs (schedule_loop hcs (snd (work_handle ''stop_clean'' q r)))) = slam_threads (rs r) + length hcs"
proof -
  have loop: "slam_threads (rs (schedule_loop hcs s)) = slam_threads (rs s) + length hcs"
    if "robot_inv s" "getJobCommand (je s) = EJOB_STOP_CLEAN" "getMState (dm s) \<noteq> ESTATE_CLEAN" "m_slamState (rs s) = SLAM_IDLE"
      "SIG_VALUE_SCHEDULE (rs s)" for s
    using that
  proof (induction hcs arbitrary: s)
    case (Cons hc hcs)
    note p = pass_after_stop [OF Cons.prems(1-4), of hc]
    from Cons.IH [OF p(1-4)] p(5,6) Cons.prems(5) show ?case by (simp add: Let_def)
  qed simp
  have inv: "robot_inv (emit InterruptWork r)" using robots.reach_inv [OF assms(1)] by simp
  then have "getJobCommand (je (stop_clean r)) = EJOB_STOP_CLEAN" "getMState (dm (stop_clean r)) = ESTATE_IDLE"
    by (simp_all add: stop_clean_def robot_inv_def mcell.get_put jcell.get_put)
  moreover have "robot_inv (stop_clean r)" using inv by simp
  ultimately have "getJobCommand (je (stop_clean r)) = EJOB_STOP_CLEAN" "getMState (dm (stop_clean r)) = ESTATE_IDLE"
    "robot_inv (stop_clean r)" by simp_all
  then show ?thesis using loop [of "stop_clean r"] assms(2,3) unfolding work_handle_stop by (simp add: stop_clean_def)
qed

theorem stop_leaks_threads_witness:
  "slam_threads (rs (schedule_loop (replicate 5 (\<lambda>s. (2, s))) (snd (work_handle ''stop_clean'' plain_request (new_robot 0))))) = 5"
  using stop_leaks_threads [OF reach_refl, of 0 "replicate 5 (\<lambda>s. (2, s))" plain_request] by (simp add: new_robot_def)

text \<open>While a network is being set up the start key is ignored, as the comment in the code says, but the press stays
  latched: as soon as the set-up ends, the next broadcast of any kind starts a cleaning.\<close>

theorem latched_key_starts_clean:
  assumes "reach robot_step (new_robot k) r" and "network_value (sd r) = - 1" and "getMState (dm r) = ESTATE_IDLE"
    and "nr_wifi_state q = 0 \<or> nr_wifi_state q = 1" and "t \<noteq> ''trigger_data''"
  defines "r1 \<equiv> res_periphe_key ''trigger_data'' 1 r"
  defines "r2 \<equiv> snd (work_handle ''set_wifi_state'' q r1)"
  shows "je r1 = je r \<and> dm r1 = dm r \<and> fx r1 = fx r \<and> getJobCommand (je (res_periphe_key t b r2)) = EJOB_GLOBAL_CLEAN"
proof -
  have inv: "robot_inv r" using assms(1) by (rule robots.reach_inv)
  have r1: "r1 = on_sd (\<lambda>s. s\<lparr>key_value := 1\<rparr>) r"
    using assms(2) by (simp add: r1_def res_periphe_key_def key_start_def key_pause_def key_resume_def key_shutdown_def key_network_def)
  have r2: "r2 = on_sd (\<lambda>s. s\<lparr>network_value := nr_wifi_state q\<rparr>) r1"
    using assms(4) by (auto simp: r2_def work_handle_def)
  have "getJobCommand (je (res_periphe_key t b r2)) = EJOB_GLOBAL_CLEAN"
    using assms(3-5) inv by (auto simp: res_periphe_key_def r2 r1 key_start_def key_pause_def key_resume_def key_shutdown_def
        key_network_def clear_key_def Let_def robot_inv_def jcell.get_put)
  then show ?thesis by (simp add: r1)
qed

definition provisioning_robot :: robot where
  "provisioning_robot = res_periphe_key ''trigger_data'' 4 (new_robot 0)"

theorem latched_key_starts_clean_witness:
  "let r2 = snd (work_handle ''set_wifi_state'' plain_request (res_periphe_key ''trigger_data'' 1 provisioning_robot))
   in getJobCommand (je (res_periphe_key ''sensor_data'' 0 r2)) = EJOB_GLOBAL_CLEAN"
proof -
  have "robot_step (new_robot 0) provisioning_robot" unfolding provisioning_robot_def by (rule handler, rule key)
  then have r: "reach robot_step (new_robot 0) provisioning_robot" by (rule reach_step [OF reach_refl])
  have "network_value (sd provisioning_robot) = - 1" "getMState (dm provisioning_robot) = ESTATE_IDLE" by code_simp+
  from latched_key_starts_clean [OF r this, of plain_request "''sensor_data''" 0] show ?thesis
    by (simp add: plain_request_def Let_def)
qed

end
