(* ===== verification/Wheel_Timer.thy ===== *)
theory Wheel_Timer
  imports Prelude
begin

text \<open>
  The hierarchical timing wheel of \<open>lib_app/robot_schedule/schedule/wheel_timer.cpp\<close>. The map \<open>timers\<close> owns the
  entries; \<open>wheels_\<close> is the vector of 512 slots, each a list of pointers to entries, here of their ids: 256 slots
  for single milliseconds and four levels of 64 slots for ever longer spans. Times are 64-bit words, because the
  code recognises an overdue entry by the sign of a wrapped difference. A callback is an arbitrary function on the
  timer's state. Reading an entry that a callback erased is an error, as is erasing through an iterator that is not
  in the list; ids count up from 1 and stay below \<open>2 ^ 31\<close>.

  The reference is a timer that looks at every entry in every millisecond. The lemmas show that the wheel calls the
  same timers at the same ticks.
\<close>

record WheelEntry =
  we_func :: nat
  we_timerId :: int
  we_interval :: u32
  we_expires :: u64
  we_repeat :: int
  we_wheelIndex :: int

record WheelTimer =
  wt_timers :: "int \<rightharpoonup> WheelEntry"
  wt_wheels :: "int list list"
  wt_checkTime :: u64
  wt_timerId :: int

type_synonym wheel_callback = "nat \<Rightarrow> u64 \<Rightarrow> WheelTimer \<Rightarrow> mem_error + WheelTimer"

definition OFFSET :: "nat \<Rightarrow> nat" where
  "OFFSET n = 256 + n * 64"

definition INDEX :: "u64 \<Rightarrow> nat \<Rightarrow> nat" where
  "INDEX v n = unat (drop_bit (8 + n * 6) v AND 63)"

definition WheelTimer_new :: "u64 \<Rightarrow> WheelTimer" where
  "WheelTimer_new now =
     \<lparr>wt_timers = Map.empty, wt_wheels = replicate (256 + 4 * 64) [], wt_checkTime = now, wt_timerId = 0\<rparr>"

text \<open>The slot that \<open>AddEntryToWheel\<close> chooses.\<close>

definition wheel_slot :: "u64 \<Rightarrow> u64 \<Rightarrow> nat" where
  "wheel_slot expires checkTime =
     (let idx = expires - checkTime
      in if idx < 256 then unat (expires AND 255)
         else if idx < 2 ^ 14 then OFFSET 0 + INDEX expires 0
         else if idx < 2 ^ 20 then OFFSET 1 + INDEX expires 1
         else if idx < 2 ^ 26 then OFFSET 2 + INDEX expires 2
         else if sint idx < 0 then unat (checkTime AND 255)
         else OFFSET 3 + INDEX (if idx > 0xffffffff then 0xffffffff + checkTime else expires) 3)"

definition AddEntryToWheel :: "int \<Rightarrow> WheelTimer \<Rightarrow> mem_error + WheelTimer" where
  "AddEntryToWheel k t =
     (case wt_timers t k of
        None \<Rightarrow> Inl UseAfterFree
      | Some e \<Rightarrow>
          let w = wheel_slot (we_expires e) (wt_checkTime t)
          in Inr (t\<lparr>wt_timers := (wt_timers t)(k \<mapsto> e\<lparr>we_wheelIndex := int w\<rparr>),
                    wt_wheels := (wt_wheels t)[w := wt_wheels t ! w @ [k]]\<rparr>))"

fun add_entries :: "int list \<Rightarrow> WheelTimer \<Rightarrow> mem_error + WheelTimer" where
  "add_entries [] t = Inr t"
| "add_entries (k # ks) t = bindE (AddEntryToWheel k t) (add_entries ks)"

text \<open>\<open>temp.splice(temp.end(), tlist)\<close> empties a slot.\<close>

definition clear_slot :: "nat \<Rightarrow> WheelTimer \<Rightarrow> WheelTimer" where
  "clear_slot i t = t\<lparr>wt_wheels := (wt_wheels t)[i := []]\<rparr>"

definition Cascade :: "nat \<Rightarrow> nat \<Rightarrow> WheelTimer \<Rightarrow> mem_error + nat \<times> WheelTimer" where
  "Cascade offset index t =
     bindE (add_entries (wt_wheels t ! (offset + index)) (clear_slot (offset + index) t)) (\<lambda>t1. Inr (index, t1))"

definition wheel_register_timer :: "u64 \<Rightarrow> nat \<Rightarrow> u32 \<Rightarrow> u32 \<Rightarrow> int \<Rightarrow> WheelTimer \<Rightarrow> mem_error + int \<times> WheelTimer" where
  "wheel_register_timer now func interval delay0 expired_times t =
     (let delay = (if delay0 = 0 then interval else delay0);
          cur_id = wt_timerId t + 1;
          entry = \<lparr>we_func = func, we_timerId = cur_id, we_interval = interval, we_expires = ucast delay + now,
                   we_repeat = expired_times, we_wheelIndex = 0\<rparr>
      in bindE (AddEntryToWheel cur_id (t\<lparr>wt_timers := (wt_timers t)(cur_id \<mapsto> entry), wt_timerId := cur_id\<rparr>))
           (\<lambda>t1. Inr (cur_id, t1)))"

definition wheel_unregister_timer :: "int \<Rightarrow> WheelTimer \<Rightarrow> mem_error + WheelTimer" where
  "wheel_unregister_timer k t =
     (case wt_timers t k of
        None \<Rightarrow> Inr t
      | Some entry \<Rightarrow>
          bindE (if we_wheelIndex entry \<noteq> - 1
                 then let w = nat (we_wheelIndex entry)
                      in if k \<in> set (wt_wheels t ! w) then Inr (t\<lparr>wt_wheels := (wt_wheels t)[w := remove1 k (wt_wheels t ! w)]\<rparr>)
                         else Inl BadIterator
                 else Inr t)
            (\<lambda>t1. Inr (t1\<lparr>wt_timers := (wt_timers t1)(k := None)\<rparr>)))"

text \<open>The loop over the entries of the current slot: the ids whose callbacks ran, and the state.\<close>

definition wheel_again :: "int \<Rightarrow> WheelTimer \<Rightarrow> mem_error + WheelTimer" where
  "wheel_again k t =
     (case wt_timers t k of
        None \<Rightarrow> Inl UseAfterFree
      | Some e \<Rightarrow>
          if we_repeat e = 1 then Inr (t\<lparr>wt_timers := (wt_timers t)(k := None)\<rparr>)
          else AddEntryToWheel k (t\<lparr>wt_timers := (wt_timers t)(k \<mapsto>
                 e\<lparr>we_repeat := (if we_repeat e > 0 then we_repeat e - 1 else we_repeat e),
                   we_expires := we_expires e + ucast (we_interval e)\<rparr>)\<rparr>))"

fun fire_entries :: "wheel_callback \<Rightarrow> u64 \<Rightarrow> int list \<Rightarrow> WheelTimer \<Rightarrow> mem_error + WheelTimer" where
  "fire_entries cb now [] t = Inr t"
| "fire_entries cb now (k # ks) t =
     (case wt_timers t k of
        None \<Rightarrow> Inl UseAfterFree
      | Some e \<Rightarrow>
          bindE (cb (we_func e) now (t\<lparr>wt_timers := (wt_timers t)(k \<mapsto> e\<lparr>we_wheelIndex := - 1\<rparr>)\<rparr>)) (\<lambda>t1.
          bindE (wheel_again k t1) (fire_entries cb now ks)))"

text \<open>One round of the \<open>while\<close> loop. The result names the ids whose callbacks ran.\<close>

definition cascades :: "WheelTimer \<Rightarrow> mem_error + WheelTimer" where
  "cascades t =
     (let T = wt_checkTime t
      in if T AND 255 \<noteq> 0 then Inr t
         else bindE (Cascade (OFFSET 0) (INDEX T 0) t) (\<lambda>(r, t). if r \<noteq> 0 then Inr t
         else bindE (Cascade (OFFSET 1) (INDEX T 1) t) (\<lambda>(r, t). if r \<noteq> 0 then Inr t
         else bindE (Cascade (OFFSET 2) (INDEX T 2) t) (\<lambda>(r, t). if r \<noteq> 0 then Inr t
         else bindE (Cascade (OFFSET 3) (INDEX T 3) t) (\<lambda>(r, t). Inr t)))))"

definition wheel_tick :: "wheel_callback \<Rightarrow> u64 \<Rightarrow> WheelTimer \<Rightarrow> mem_error + int list \<times> WheelTimer" where
  "wheel_tick cb now t =
     (let index = unat (wt_checkTime t AND 255)
      in bindE (cascades t) (\<lambda>t1.
           let temp = wt_wheels t1 ! index
           in bindE (fire_entries cb now temp (clear_slot index (t1\<lparr>wt_checkTime := wt_checkTime t1 + 1\<rparr>)))
                (\<lambda>t2. Inr (temp, t2))))"

partial_function (option) wheel_loop ::
  "wheel_callback \<Rightarrow> u64 \<Rightarrow> (u64 \<times> int) list \<Rightarrow> WheelTimer \<Rightarrow> (mem_error + (u64 \<times> int) list \<times> WheelTimer) option" where
  "wheel_loop cb now calls t =
     (if wt_checkTime t \<le> now
      then (case wheel_tick cb now t of
              Inl e \<Rightarrow> Some (Inl e)
            | Inr (ks, t1) \<Rightarrow> wheel_loop cb now (calls @ map (Pair (wt_checkTime t)) ks) t1)
      else Some (Inr (calls, t)))"

definition wheel_DetectTimers :: "wheel_callback \<Rightarrow> u64 \<Rightarrow> WheelTimer \<Rightarrow> (mem_error + (u64 \<times> int) list \<times> WheelTimer) option" where
  "wheel_DetectTimers cb now t = wheel_loop cb now [] t"

section \<open>Where an entry may be\<close>

text \<open>
  Slot \<open>i\<close> can hold an entry that expires at \<open>e\<close> when the next tick is \<open>c\<close>: in the first level when the slot is
  next visited at the expiry, or at \<open>c\<close> for an overdue entry; in the other levels when the slot is next emptied at
  some \<open>b * 2 ^ s\<close> that is not past the expiry. \<open>slot_ahead\<close> excludes that it is emptied in this very tick.
\<close>

definition level_shift :: "nat \<Rightarrow> nat" where
  "level_shift i = 8 + 6 * ((i - 256) div 64)"

definition first_ok :: "nat \<Rightarrow> nat \<Rightarrow> nat \<Rightarrow> bool" where
  "first_ok i e c \<longleftrightarrow> max e c < c + 256 \<and> i = max e c mod 256"

definition slot_ok :: "nat \<Rightarrow> nat \<Rightarrow> nat \<Rightarrow> bool" where
  "slot_ok i e c \<longleftrightarrow>
     (if i < 256 then first_ok i e c
      else \<exists>b. (i - 256) mod 64 = b mod 64 \<and> c \<le> b * 2 ^ level_shift i \<and> b * 2 ^ level_shift i < c + 2 ^ (level_shift i + 6) \<and>
             b * 2 ^ level_shift i \<le> e)"

definition slot_ahead :: "nat \<Rightarrow> nat \<Rightarrow> nat \<Rightarrow> bool" where
  "slot_ahead i e c \<longleftrightarrow>
     (if i < 256 then first_ok i e c
      else \<exists>b. (i - 256) mod 64 = b mod 64 \<and> c < b * 2 ^ level_shift i \<and> b * 2 ^ level_shift i < c + 2 ^ (level_shift i + 6) \<and>
             b * 2 ^ level_shift i \<le> e)"

lemma nat_and_63: "(x :: nat) AND 63 = x mod 64" and nat_and_255: "x AND 255 = x mod 256"
  using take_bit_eq_mask [of 6 x] take_bit_eq_mask [of 8 x] by (simp_all add: take_bit_eq_mod mask_eq_exp_minus_1)

lemma INDEX_nat: "INDEX v n = unat v div 2 ^ (8 + n * 6) mod 64"
proof -
  have "unat (drop_bit (8 + n * 6) v) = unat v div 2 ^ (8 + n * 6)"
    using unat_u64_less [of v] by (simp add: unsigned_drop_bit_eq take_bit_nat_eq_self flip: drop_bit_eq_div)
  then show ?thesis by (simp add: INDEX_def unsigned_and_eq nat_and_63)
qed

lemma low_byte_nat: "unat (v AND 255) = unat v mod 256" for v :: u64
  by (simp add: unsigned_and_eq nat_and_255)

lemma level_block:
  fixes c e s :: nat
  assumes "c + 2 ^ s \<le> e" "e < c + 2 ^ (s + 6)"
  shows "c < e div 2 ^ s * 2 ^ s \<and> e div 2 ^ s * 2 ^ s < c + 2 ^ (s + 6) \<and> e div 2 ^ s * 2 ^ s \<le> e"
proof -
  have "e mod 2 ^ s < 2 ^ s" by simp
  moreover have "e = e div 2 ^ s * 2 ^ s + e mod 2 ^ s" by (rule div_mult_mod_eq [symmetric])
  ultimately show ?thesis using assms by linarith
qed

lemma level_slot:
  assumes "n < 4" "c + 2 ^ (8 + n * 6) \<le> v" "v < c + 2 ^ (8 + n * 6 + 6)" "v \<le> e"
  shows "slot_ahead (OFFSET n + v div 2 ^ (8 + n * 6) mod 64) e c"
proof -
  let ?i = "OFFSET n + v div 2 ^ (8 + n * 6) mod 64"
  have "\<not> ?i < 256" by (simp add: OFFSET_def)
  moreover have i: "?i - 256 = n * 64 + v div 2 ^ (8 + n * 6) mod 64" by (simp add: OFFSET_def)
  then have "level_shift ?i = 8 + n * 6" by (simp add: level_shift_def)
  moreover have "(?i - 256) mod 64 = v div 2 ^ (8 + n * 6) mod 64" by (simp add: i)
  moreover have "v div 2 ^ (8 + n * 6) * 2 ^ (8 + n * 6) \<le> e"
    using level_block [OF assms(2,3)] assms(4) by linarith
  ultimately show ?thesis using level_block [OF assms(2,3)] unfolding slot_ahead_def
    by (intro if_not_P [THEN iffD2] exI [of _ "v div 2 ^ (8 + n * 6)"]) auto
qed

lemma unat_diff64: "unat (a - b) = (if unat b \<le> unat a then unat a - unat b else 2 ^ 64 + unat a - unat b)" for a b :: u64
  by (auto simp: unat_sub_if_size word_size)

lemma sint_neg_iff: "sint a < 0 \<longleftrightarrow> 2 ^ 63 \<le> unat a" for a :: u64
proof -
  have "unat a div 2 ^ 63 < 2" using unat_u64_less [of a] by (simp add: less_mult_imp_div_less)
  then have "odd (unat a div 2 ^ 63) \<longleftrightarrow> 0 < unat a div 2 ^ 63" by (cases "unat a div 2 ^ 63") auto
  also have "\<dots> \<longleftrightarrow> 2 ^ 63 \<le> unat a" by (simp add: div_greater_zero_iff)
  finally have "bit (unat a) 63 \<longleftrightarrow> 2 ^ 63 \<le> unat a" by (simp add: bit_iff_odd)
  then show ?thesis using bit_last_iff [of a] by (simp add: bit_unsigned_iff)
qed

text \<open>The slot that is chosen for an entry is good, whatever the time.\<close>

lemma wheel_slot_ahead:
  assumes "unat e < 2 ^ 63" "unat c < 2 ^ 63"
  shows "slot_ahead (wheel_slot e c) (unat e) (unat c)"
proof (cases "unat c \<le> unat e")
  case True
  define d where "d = unat e - unat c"
  have e: "unat e = unat c + d" and d: "unat (e - c) = d" using True by (simp_all add: d_def unat_diff64)
  have "\<not> sint (e - c) < 0" using assms d_def by (simp add: sint_neg_iff d)
  moreover have "INDEX (0xffffffff + c) 3 = (0xffffffff + unat c) div 2 ^ (8 + 3 * 6) mod 64" if "d > 0xffffffff"
    using assms(2) by (simp add: INDEX_nat unat_word_ariths)
  ultimately have w: "wheel_slot e c =
    (if d < 256 then unat e mod 256 else if d < 2 ^ 14 then OFFSET 0 + unat e div 2 ^ (8 + 0 * 6) mod 64
     else if d < 2 ^ 20 then OFFSET 1 + unat e div 2 ^ (8 + 1 * 6) mod 64
     else if d < 2 ^ 26 then OFFSET 2 + unat e div 2 ^ (8 + 2 * 6) mod 64
     else OFFSET 3 + (if d > 0xffffffff then 0xffffffff + unat c else unat e) div 2 ^ (8 + 3 * 6) mod 64)"
    by (simp add: wheel_slot_def Let_def word_less_nat_alt d low_byte_nat INDEX_nat)
  consider "d < 256" | "256 \<le> d" "d < 2 ^ 14" | "2 ^ 14 \<le> d" "d < 2 ^ 20" | "2 ^ 20 \<le> d" "d < 2 ^ 26"
    | "2 ^ 26 \<le> d" "d \<le> 0xffffffff" | "0xffffffff < d" by linarith
  then show ?thesis
  proof cases
    case 1
    then have "unat e mod 256 < 256" "max (unat e) (unat c) = unat e" using e by simp_all
    with 1 show ?thesis using e by (simp add: w slot_ahead_def first_ok_def)
  next
    case 2
    with level_slot [of 0 "unat c" "unat e" "unat e"] show ?thesis unfolding w using e by simp
  next
    case 3
    with level_slot [of 1 "unat c" "unat e" "unat e"] show ?thesis unfolding w using e by simp
  next
    case 4
    with level_slot [of 2 "unat c" "unat e" "unat e"] show ?thesis unfolding w using e by simp
  next
    case 5
    with level_slot [of 3 "unat c" "unat e" "unat e"] show ?thesis unfolding w using e by simp
  next
    case 6
    with level_slot [of 3 "unat c" "0xffffffff + unat c" "unat e"] show ?thesis unfolding w using e by simp
  qed
next
  case False
  then have d: "unat (e - c) = 2 ^ 64 + unat e - unat c" by (simp add: unat_diff64)
  then have "2 ^ 63 \<le> unat (e - c)" using assms by simp
  then have "wheel_slot e c = unat c mod 256"
    by (simp add: wheel_slot_def Let_def word_less_nat_alt sint_neg_iff low_byte_nat)
  moreover have "unat c mod 256 < 256" "max (unat e) (unat c) = unat c" using False by simp_all
  ultimately show ?thesis by (simp add: slot_ahead_def first_ok_def)
qed

lemma wheel_slot_less: "wheel_slot e c < 512"
proof -
  have "INDEX v n < m" if "64 \<le> m" for v n m using that by (simp add: INDEX_nat less_le_trans [OF mod_less_divisor])
  moreover have "unat (v AND 255) < 512" for v :: u64
    using mod_less_divisor [of 256 "unat v"] unfolding low_byte_nat by linarith
  ultimately show ?thesis by (simp add: wheel_slot_def Let_def OFFSET_def)
qed

section \<open>The invariant\<close>

text \<open>
  The entries outside \<open>L\<close> are each in one slot, which can hold it; the entries of \<open>L\<close> are in no slot, as those that
  \<open>Cascade\<close> and \<open>DetectTimers\<close> have moved to their local list. Slots outside \<open>D\<close> are not due to be emptied in this
  tick.
\<close>

definition slot_good :: "nat set \<Rightarrow> nat \<Rightarrow> nat \<Rightarrow> nat \<Rightarrow> bool" where
  "slot_good D i e c \<longleftrightarrow> (if i \<in> D then slot_ok i e c else slot_ahead i e c)"

definition wt_ok :: "nat set \<Rightarrow> int set \<Rightarrow> WheelTimer \<Rightarrow> bool" where
  "wt_ok D L t \<longleftrightarrow>
     length (wt_wheels t) = 512 \<and> unat (wt_checkTime t) < 2 ^ 63 \<and> L \<subseteq> dom (wt_timers t) \<and>
     (\<forall>i < 512. distinct (wt_wheels t ! i)) \<and>
     (\<forall>i < 512. \<forall>k \<in> set (wt_wheels t ! i). k \<notin> L \<and>
        (\<exists>e. wt_timers t k = Some e \<and> we_wheelIndex e = int i \<and> slot_good D i (unat (we_expires e)) (unat (wt_checkTime t)))) \<and>
     (\<forall>k e. wt_timers t k = Some e \<longrightarrow> unat (we_expires e) < 2 ^ 63 \<and> (k \<in> L \<or> (\<exists>i < 512. k \<in> set (wt_wheels t ! i))))"

definition wt_inv :: "WheelTimer \<Rightarrow> bool" where
  "wt_inv t \<longleftrightarrow> wt_ok UNIV {} t \<and> (\<forall>k \<in> dom (wt_timers t). k \<le> wt_timerId t)"

text \<open>What the reference timer keeps of an entry: expiry, interval and the remaining repetitions.\<close>

type_synonym spec_timers = "int \<rightharpoonup> nat \<times> nat \<times> int"

definition wt_abs :: "WheelTimer \<Rightarrow> spec_timers" where
  "wt_abs t k = map_option (\<lambda>e. (unat (we_expires e), unat (we_interval e), we_repeat e)) (wt_timers t k)"

lemma wt_okD:
  assumes "wt_ok D L t"
  shows "length (wt_wheels t) = 512" "unat (wt_checkTime t) < 2 ^ 63" "L \<subseteq> dom (wt_timers t)"
    and "i < 512 \<Longrightarrow> distinct (wt_wheels t ! i)"
    and "i < 512 \<Longrightarrow> k \<in> set (wt_wheels t ! i) \<Longrightarrow> k \<notin> L \<and> (\<exists>e. wt_timers t k = Some e \<and> we_wheelIndex e = int i \<and>
           slot_good D i (unat (we_expires e)) (unat (wt_checkTime t)))"
    and "wt_timers t k = Some e \<Longrightarrow> unat (we_expires e) < 2 ^ 63 \<and> (k \<in> L \<or> (\<exists>i < 512. k \<in> set (wt_wheels t ! i)))"
  using assms unfolding wt_ok_def by blast+

lemma wt_okI:
  assumes "length (wt_wheels t) = 512" "unat (wt_checkTime t) < 2 ^ 63" "L \<subseteq> dom (wt_timers t)"
    and "\<And>i. i < 512 \<Longrightarrow> distinct (wt_wheels t ! i)"
    and "\<And>i k. i < 512 \<Longrightarrow> k \<in> set (wt_wheels t ! i) \<Longrightarrow> k \<notin> L \<and> (\<exists>e. wt_timers t k = Some e \<and> we_wheelIndex e = int i \<and>
           slot_good D i (unat (we_expires e)) (unat (wt_checkTime t)))"
    and "\<And>k e. wt_timers t k = Some e \<Longrightarrow> unat (we_expires e) < 2 ^ 63 \<and> (k \<in> L \<or> (\<exists>i < 512. k \<in> set (wt_wheels t ! i)))"
  shows "wt_ok D L t"
  using assms unfolding wt_ok_def by blast

lemma slot_ahead_ok: "slot_ahead i e c \<Longrightarrow> slot_ok i e c"
  unfolding slot_ahead_def slot_ok_def by (metis less_imp_le)

lemma slot_ahead_good: "slot_ahead i e c \<Longrightarrow> slot_good D i e c"
  by (simp add: slot_good_def slot_ahead_ok)

lemma add_entry_ok:
  assumes "wt_ok D L t" "k \<in> L"
  shows "\<exists>t'. AddEntryToWheel k t = Inr t' \<and> wt_ok D (L - {k}) t' \<and> wt_abs t' = wt_abs t \<and>
    wt_checkTime t' = wt_checkTime t \<and> wt_timerId t' = wt_timerId t"
proof -
  obtain e where e: "wt_timers t k = Some e" using wt_okD(3) [OF assms(1)] assms(2) by auto
  let ?w = "wheel_slot (we_expires e) (wt_checkTime t)"
  let ?t = "t\<lparr>wt_timers := (wt_timers t)(k \<mapsto> e\<lparr>we_wheelIndex := int ?w\<rparr>),
      wt_wheels := (wt_wheels t)[?w := wt_wheels t ! ?w @ [k]]\<rparr>"
  note ok = wt_okD [OF assms(1)]
  have a: "slot_good D ?w (unat (we_expires e)) (unat (wt_checkTime t))"
    using wheel_slot_ahead ok(2) ok(6) [OF e] by (auto intro: slot_ahead_good)
  have nk: "k \<notin> set (wt_wheels t ! i)" if "i < 512" for i using ok(5) [OF that] assms(2) by blast
  have nth: "wt_wheels ?t ! i = (if i = ?w then wt_wheels t ! ?w @ [k] else wt_wheels t ! i)" if "i < 512" for i
    using that ok(1) wheel_slot_less by (simp add: nth_list_update)
  have "wt_ok D (L - {k}) ?t"
    unfolding wt_ok_def
  proof (intro conjI allI ballI impI)
    show "length (wt_wheels ?t) = 512" "unat (wt_checkTime ?t) < 2 ^ 63" "L - {k} \<subseteq> dom (wt_timers ?t)"
      using ok(1-3) by auto
    show "distinct (wt_wheels ?t ! i)" if "i < 512" for i
      unfolding nth [OF that] using ok(4) [OF that] nk [OF that] by auto
    fix i j assume i: "i < 512" and j: "j \<in> set (wt_wheels ?t ! i)"
    then have "j = k \<and> i = ?w \<or> j \<in> set (wt_wheels t ! i)" unfolding nth [OF i] by (auto split: if_splits)
    then show "\<exists>e. wt_timers ?t j = Some e \<and> we_wheelIndex e = int i \<and> slot_good D i (unat (we_expires e)) (unat (wt_checkTime ?t))"
      and "j \<notin> L - {k}" using ok(5) [OF i, of j] nk [OF i] a by auto
  next
    fix j x assume x: "wt_timers ?t j = Some x"
    show "unat (we_expires x) < 2 ^ 63" using x ok(6) e by (auto split: if_splits)
    show "j \<in> L - {k} \<or> (\<exists>i<512. j \<in> set (wt_wheels ?t ! i))"
    proof (cases "j = k")
      case True
      then have "?w < 512 \<and> j \<in> set (wt_wheels ?t ! ?w)" using wheel_slot_less nth by simp
      then show ?thesis by blast
    next
      case False
      with x ok(6) consider "j \<in> L" | i where "i < 512" "j \<in> set (wt_wheels t ! i)" by fastforce
      then show ?thesis
      proof cases
        case 2
        then have "j \<in> set (wt_wheels ?t ! i)" unfolding nth [OF 2(1)] by (auto)
        with 2 show ?thesis by blast
      qed (use False in simp)
    qed
  qed
  moreover have "wt_abs ?t = wt_abs t" using e by (auto simp: wt_abs_def fun_eq_iff)
  ultimately show ?thesis using e by (simp add: AddEntryToWheel_def Let_def)
qed

lemma add_entries_ok:
  assumes "wt_ok D L t" "distinct ks" "set ks \<subseteq> L"
  shows "\<exists>t'. add_entries ks t = Inr t' \<and> wt_ok D (L - set ks) t' \<and> wt_abs t' = wt_abs t \<and>
    wt_checkTime t' = wt_checkTime t \<and> wt_timerId t' = wt_timerId t"
  using assms
proof (induction ks arbitrary: L t)
  case (Cons k ks)
  from add_entry_ok [OF Cons.prems(1), of k] Cons.prems(3) obtain t1 where t1: "AddEntryToWheel k t = Inr t1" "wt_ok D (L - {k}) t1"
    "wt_abs t1 = wt_abs t" "wt_checkTime t1 = wt_checkTime t" "wt_timerId t1 = wt_timerId t" by auto
  have "set ks \<subseteq> L - {k}" "distinct ks" "L - {k} - set ks = L - set (k # ks)" using Cons.prems by auto
  with Cons.IH [OF t1(2)] t1 show ?case by auto
qed simp

lemma clear_slot_ok:
  assumes "wt_ok D {} t" "i < 512"
  shows "wt_ok (D - {i}) (set (wt_wheels t ! i)) (clear_slot i t)"
proof -
  note ok = wt_okD [OF assms(1)]
  have nth: "wt_wheels (clear_slot i t) ! j = (if j = i then [] else wt_wheels t ! j)" if "j < 512" for j
    using that ok(1) by (simp add: clear_slot_def nth_list_update)
  have "k \<notin> set (wt_wheels t ! i)" if "j < 512" "j \<noteq> i" "k \<in> set (wt_wheels t ! j)" for j k
    using that ok(5) [OF that(1,3)] ok(5) [OF assms(2), of k] by auto
  moreover have "slot_good (D - {i}) j e c = slot_good D j e c" if "j \<noteq> i" for j e c using that by (simp add: slot_good_def)
  moreover have "wt_timers (clear_slot i t) = wt_timers t" "wt_checkTime (clear_slot i t) = wt_checkTime t"
    "length (wt_wheels (clear_slot i t)) = length (wt_wheels t)" by (simp_all add: clear_slot_def)
  ultimately show ?thesis unfolding wt_ok_def
    using ok(1,2,4) ok(5) [OF assms(2)] ok(5) ok(6) nth by (auto split: if_splits) metis+
qed

section \<open>Cascading\<close>

lemma Cascade_ok:
  assumes "wt_ok D {} t" "off + idx < 512"
  shows "\<exists>t'. Cascade off idx t = Inr (idx, t') \<and> wt_ok (D - {off + idx}) {} t' \<and> wt_abs t' = wt_abs t \<and>
    wt_checkTime t' = wt_checkTime t \<and> wt_timerId t' = wt_timerId t"
proof -
  let ?ks = "wt_wheels t ! (off + idx)"
  have "distinct ?ks" using wt_okD(4) [OF assms] .
  with add_entries_ok [OF clear_slot_ok [OF assms], of ?ks] obtain t' where
    "add_entries ?ks (clear_slot (off + idx) t) = Inr t'" "wt_ok (D - {off + idx}) {} t'"
    "wt_abs t' = wt_abs (clear_slot (off + idx) t)" "wt_checkTime t' = wt_checkTime t" "wt_timerId t' = wt_timerId t"
    by (auto simp: clear_slot_def)
  moreover have "wt_abs (clear_slot (off + idx) t) = wt_abs t" by (simp add: wt_abs_def clear_slot_def fun_eq_iff)
  ultimately show ?thesis by (simp add: Cascade_def)
qed

text \<open>A slot is emptied in tick \<open>c\<close> only if \<open>c\<close> is a multiple of its span and the slot is that of \<open>c\<close>.\<close>

lemma slot_ok_ahead:
  assumes "slot_ok i e c" "i < 256 \<or> c mod 2 ^ level_shift i \<noteq> 0 \<or> (i - 256) mod 64 \<noteq> c div 2 ^ level_shift i mod 64"
  shows "slot_ahead i e c"
proof (cases "i < 256")
  case True
  with assms(1) show ?thesis by (simp add: slot_ok_def slot_ahead_def)
next
  case False
  with assms(1) obtain b where b: "(i - 256) mod 64 = b mod 64" "c \<le> b * 2 ^ level_shift i"
    "b * 2 ^ level_shift i < c + 2 ^ (level_shift i + 6)" "b * 2 ^ level_shift i \<le> e" by (auto simp: slot_ok_def)
  have "c \<noteq> b * 2 ^ level_shift i" using assms(2) b(1) False by auto
  with b False show ?thesis by (auto simp: slot_ahead_def intro: exI [of _ b])
qed

lemma cascaded_ahead:
  assumes "slot_ok i e c" "i < 512" "\<And>n. n < m \<Longrightarrow> i \<noteq> OFFSET n + c div 2 ^ (8 + n * 6) mod 64"
    and "m < 4 \<Longrightarrow> c mod 2 ^ (8 + m * 6) \<noteq> 0"
  shows "slot_ahead i e c"
proof (rule slot_ok_ahead [OF assms(1)], rule ccontr)
  let ?n = "(i - 256) div 64"
  assume "\<not> (i < 256 \<or> c mod 2 ^ level_shift i \<noteq> 0 \<or> (i - 256) mod 64 \<noteq> c div 2 ^ level_shift i mod 64)"
  then have i: "256 \<le> i" "c mod 2 ^ (8 + ?n * 6) = 0" "(i - 256) mod 64 = c div 2 ^ (8 + ?n * 6) mod 64"
    by (auto simp: level_shift_def mult.commute)
  have "i = OFFSET ?n + (i - 256) mod 64" using i(1) by (simp add: OFFSET_def)
  then have "m \<le> ?n" using assms(3) i(3) by (metis not_less)
  moreover have "?n < 4" using assms(2) by (simp add: less_mult_imp_div_less)
  ultimately have "c mod 2 ^ (8 + m * 6) \<noteq> 0" "8 + m * 6 \<le> 8 + ?n * 6" using assms(4) by auto
  moreover have "2 ^ (8 + m * 6) dvd (2 :: nat) ^ (8 + ?n * 6)" using \<open>8 + m * 6 \<le> 8 + ?n * 6\<close> by (rule le_imp_power_dvd)
  ultimately show False using i(2) by (meson dvd_trans mod_0_imp_dvd mod_eq_0_iff_dvd)
qed

lemma wt_ok_clean:
  assumes "wt_ok D L t" "\<And>i e. i < 512 \<Longrightarrow> i \<in> D \<Longrightarrow> slot_ok i e (unat (wt_checkTime t)) \<Longrightarrow> slot_ahead i e (unat (wt_checkTime t))"
  shows "wt_ok {} L t"
proof -
  have "slot_good {} i e (unat (wt_checkTime t))" if "slot_good D i e (unat (wt_checkTime t))" "i < 512" for i e
    using that assms(2) by (auto simp: slot_good_def split: if_splits)
  with assms(1) show ?thesis unfolding wt_ok_def by fast
qed

lemma mod_next_level: "(c :: nat) mod 2 ^ (s + 6) = 2 ^ s * (c div 2 ^ s mod 64) + c mod 2 ^ s"
  by (simp add: power_add mod_mult2_eq)

lemma cascades_ok:
  assumes "wt_ok UNIV {} t"
  shows "\<exists>t'. cascades t = Inr t' \<and> wt_ok {} {} t' \<and> wt_abs t' = wt_abs t \<and> wt_checkTime t' = wt_checkTime t \<and> wt_timerId t' = wt_timerId t"
proof -
  define c where "c = unat (wt_checkTime t)"
  define ix where "ix n = c div 2 ^ (8 + n * 6) mod 64" for n
  define DD where "DD m = - {OFFSET n + ix n | n. n < m}" for m :: nat
  have INDEX: "INDEX (wt_checkTime t) n = ix n" for n by (simp add: INDEX_nat ix_def c_def)
  have step: "\<exists>t'. Cascade (OFFSET m) (INDEX (wt_checkTime t) m) u = Inr (ix m, t') \<and> wt_ok (DD (Suc m)) {} t' \<and>
      wt_abs t' = wt_abs u \<and> wt_checkTime t' = wt_checkTime u \<and> wt_timerId t' = wt_timerId u"
    if "wt_ok (DD m) {} u" "m < 4" for m u
  proof -
    have "ix m < 64" by (simp add: ix_def)
    with that(2) have "OFFSET m + ix m < 512" by (simp add: OFFSET_def)
    moreover have "DD m - {OFFSET m + ix m} = DD (Suc m)" by (auto simp: DD_def less_Suc_eq)
    ultimately show ?thesis using Cascade_ok [OF that(1)] unfolding INDEX by metis
  qed
  have fin: "wt_ok {} {} u" if "wt_ok (DD m) {} u" "wt_checkTime u = wt_checkTime t" "m < 4 \<Longrightarrow> c mod 2 ^ (8 + m * 6) \<noteq> 0" for u m
    using wt_ok_clean [OF that(1)] cascaded_ahead [of _ _ c m] that(2,3) by (auto simp: DD_def ix_def c_def)
  have low: "wt_checkTime t AND 255 \<noteq> 0 \<longleftrightarrow> c mod 2 ^ (8 + 0 * 6) \<noteq> 0"
    using low_byte_nat [of "wt_checkTime t"] by (simp add: c_def unat_eq_0 flip: unat_eq_0)
  have nxt: "c mod 2 ^ (8 + Suc m * 6) \<noteq> 0" if "ix m \<noteq> 0" for m
    using that mod_next_level [of c "8 + m * 6"] by (simp add: ix_def algebra_simps)
  have D0: "wt_ok (DD 0) {} t" using assms by (simp add: DD_def)
  show ?thesis
  proof (cases "c mod 2 ^ (8 + 0 * 6) = 0")
    case False
    then show ?thesis using fin [OF D0] low by (auto simp: cascades_def)
  next
    case True
    from step [OF D0] obtain t1 where t1: "Cascade (OFFSET 0) (INDEX (wt_checkTime t) 0) t = Inr (ix 0, t1)" "wt_ok (DD 1) {} t1"
      "wt_abs t1 = wt_abs t" "wt_checkTime t1 = wt_checkTime t" "wt_timerId t1 = wt_timerId t" by auto
    from step [OF t1(2)] obtain t2 where t2: "Cascade (OFFSET 1) (INDEX (wt_checkTime t) 1) t1 = Inr (ix 1, t2)" "wt_ok (DD 2) {} t2"
      "wt_abs t2 = wt_abs t" "wt_checkTime t2 = wt_checkTime t" "wt_timerId t2 = wt_timerId t"
      using t1 by (auto simp: numeral_2_eq_2)
    from step [OF t2(2)] obtain t3 where t3: "Cascade (OFFSET 2) (INDEX (wt_checkTime t) 2) t2 = Inr (ix 2, t3)" "wt_ok (DD 3) {} t3"
      "wt_abs t3 = wt_abs t" "wt_checkTime t3 = wt_checkTime t" "wt_timerId t3 = wt_timerId t"
      using t2 by (auto simp: numeral_3_eq_3 numeral_2_eq_2)
    from step [OF t3(2)] obtain t4 where t4: "Cascade (OFFSET 3) (INDEX (wt_checkTime t) 3) t3 = Inr (ix 3, t4)" "wt_ok (DD 4) {} t4"
      "wt_abs t4 = wt_abs t" "wt_checkTime t4 = wt_checkTime t" "wt_timerId t4 = wt_timerId t"
      using t3 by (auto simp: eval_nat_numeral)
    have "cascades t = Inr (if ix 0 \<noteq> 0 then t1 else if ix 1 \<noteq> 0 then t2 else if ix 2 \<noteq> 0 then t3 else t4)"
      using True low t1(1) t2(1) t3(1) t4(1) by (simp add: cascades_def Let_def)
    moreover have "ix 0 \<noteq> 0 \<Longrightarrow> wt_ok {} {} t1" "ix 1 \<noteq> 0 \<Longrightarrow> wt_ok {} {} t2" "ix 2 \<noteq> 0 \<Longrightarrow> wt_ok {} {} t3" "wt_ok {} {} t4"
      using fin [OF t1(2,4)] fin [OF t2(2,4)] fin [OF t3(2,4)] fin [OF t4(2,4)] nxt [of 0] nxt [of 1] nxt [of 2] by simp_all
    ultimately show ?thesis using t1(3-5) t2(3-5) t3(3-5) t4(3-5) by simp
  qed
qed

text \<open>Moving entries between slots keeps their callbacks.\<close>

definition wt_funcs :: "WheelTimer \<Rightarrow> int \<Rightarrow> nat option" where
  "wt_funcs t k = map_option we_func (wt_timers t k)"

lemma add_entry_funcs: "AddEntryToWheel k t = Inr t' \<Longrightarrow> wt_funcs t' = wt_funcs t"
  by (auto simp: AddEntryToWheel_def wt_funcs_def fun_eq_iff Let_def split: option.splits)

lemma add_entries_funcs: "add_entries ks t = Inr t' \<Longrightarrow> wt_funcs t' = wt_funcs t"
  by (induction ks arbitrary: t) (auto simp: bindE_Inr_iff dest: add_entry_funcs)

lemma Cascade_funcs:
  assumes "bindE (Cascade off idx t) f = Inr t'"
  obtains r u where "wt_funcs u = wt_funcs t" "f (r, u) = Inr t'"
proof -
  from assms obtain u where u: "add_entries (wt_wheels t ! (off + idx)) (clear_slot (off + idx) t) = Inr u" "f (idx, u) = Inr t'"
    by (auto simp: Cascade_def bindE_Inr_iff)
  then have "wt_funcs u = wt_funcs t" using add_entries_funcs [OF u(1)] by (simp add: wt_funcs_def clear_slot_def fun_eq_iff)
  with u(2) show ?thesis by (rule that [rotated])
qed

lemma cascades_funcs: "cascades t = Inr t' \<Longrightarrow> wt_funcs t' = wt_funcs t"
  by (auto simp: cascades_def Let_def split: if_splits elim!: Cascade_funcs)

section \<open>The reference timer\<close>

text \<open>In every tick, every entry whose expiry has come is called; it goes after its last repetition.\<close>

fun spec_again :: "nat \<times> nat \<times> int \<Rightarrow> (nat \<times> nat \<times> int) option" where
  "spec_again (e, i, r) = (if r = 1 then None else Some (e + i, i, if r > 0 then r - 1 else r))"

definition spec_due :: "nat \<Rightarrow> spec_timers \<Rightarrow> int set" where
  "spec_due c m = {k. \<exists>x. m k = Some x \<and> fst x \<le> c}"

definition spec_tick :: "nat \<Rightarrow> spec_timers \<Rightarrow> spec_timers" where
  "spec_tick c m k = (case m k of None \<Rightarrow> None | Some x \<Rightarrow> if fst x \<le> c then spec_again x else Some x)"

fun spec_ticks :: "nat \<Rightarrow> nat \<Rightarrow> spec_timers \<Rightarrow> spec_timers" where
  "spec_ticks c 0 m = m"
| "spec_ticks c (Suc n) m = spec_ticks (Suc c) n (spec_tick c m)"

text \<open>The ticks, from \<open>c\<close> on for \<open>n\<close> ticks, at which timer \<open>k\<close> is called.\<close>

fun spec_calls :: "int \<Rightarrow> nat \<Rightarrow> nat \<Rightarrow> spec_timers \<Rightarrow> nat list" where
  "spec_calls k c 0 m = []"
| "spec_calls k c (Suc n) m = (if k \<in> spec_due c m then [c] else []) @ spec_calls k (Suc c) n (spec_tick c m)"

section \<open>Firing\<close>

lemma loose_update:
  assumes "wt_ok D L t" "k \<in> L" "unat (we_expires x) < 2 ^ 63"
  shows "wt_ok D L (t\<lparr>wt_timers := (wt_timers t)(k \<mapsto> x)\<rparr>)"
proof -
  note ok = wt_okD [OF assms(1)]
  have "j \<noteq> k" if "i < 512" "j \<in> set (wt_wheels t ! i)" for i j using ok(5) [OF that] assms(2) by blast
  then show ?thesis using ok(1-5) assms(2,3) by (intro wt_okI) (auto split: if_splits dest: ok(6))
qed

lemma loose_erase:
  assumes "wt_ok D L t" "k \<in> L"
  shows "wt_ok D (L - {k}) (t\<lparr>wt_timers := (wt_timers t)(k := None)\<rparr>)"
proof -
  note ok = wt_okD [OF assms(1)]
  have "j \<noteq> k" if "i < 512" "j \<in> set (wt_wheels t ! i)" for i j using ok(5) [OF that] assms(2) by blast
  then show ?thesis using ok(1-5) by (intro wt_okI) (auto split: if_splits dest: ok(6))
qed

lemma unat_add_small: "unat a + unat b < 2 ^ 64 \<Longrightarrow> unat (a + b) = unat a + unat b" for a b :: u64
  by (simp add: unat_word_ariths)

lemma wheel_again_ok:
  assumes "wt_ok D L t" "k \<in> L" "wt_timers t k = Some e" "unat (we_expires e) + unat (we_interval e) < 2 ^ 63"
  shows "\<exists>t'. wheel_again k t = Inr t' \<and> wt_ok D (L - {k}) t' \<and> wt_abs t' = (wt_abs t)(k := Option.bind (wt_abs t k) spec_again) \<and>
    wt_checkTime t' = wt_checkTime t \<and> wt_timerId t' = wt_timerId t"
proof (cases "we_repeat e = 1")
  case True
  have "wt_abs (t\<lparr>wt_timers := (wt_timers t)(k := None)\<rparr>) = (wt_abs t)(k := Option.bind (wt_abs t k) spec_again)"
    using assms(3) True by (auto simp: wt_abs_def fun_eq_iff)
  then show ?thesis using loose_erase [OF assms(1,2)] assms(3) True by (simp add: wheel_again_def)
next
  case False
  let ?e = "e\<lparr>we_repeat := (if we_repeat e > 0 then we_repeat e - 1 else we_repeat e),
                   we_expires := we_expires e + ucast (we_interval e)\<rparr>"
  let ?t = "t\<lparr>wt_timers := (wt_timers t)(k \<mapsto> ?e)\<rparr>"
  have x: "unat (we_expires ?e) = unat (we_expires e) + unat (we_interval e)"
    using assms(4) by (simp add: unat_add_small word_arith)
  then have "wt_ok D L ?t" using assms(4) by (intro loose_update [OF assms(1,2)]) simp
  from add_entry_ok [OF this assms(2)] obtain t' where "AddEntryToWheel k ?t = Inr t'" "wt_ok D (L - {k}) t'"
    "wt_abs t' = wt_abs ?t" "wt_checkTime t' = wt_checkTime t" "wt_timerId t' = wt_timerId t" by auto
  moreover have "wt_abs ?t = (wt_abs t)(k := Option.bind (wt_abs t k) spec_again)"
    using assms(3) False x by (auto simp: wt_abs_def fun_eq_iff)
  ultimately show ?thesis using assms(3) False by (simp add: wheel_again_def)
qed

definition quiet :: "wheel_callback \<Rightarrow> bool" where
  "quiet cb \<longleftrightarrow> (\<forall>f now t. cb f now t = Inr t)"

lemma fire_ok:
  assumes "wt_ok D L t" "quiet cb" "distinct ks" "set ks \<subseteq> L"
    and "\<And>k e. k \<in> set ks \<Longrightarrow> wt_timers t k = Some e \<Longrightarrow> unat (we_expires e) + unat (we_interval e) < 2 ^ 63"
  shows "\<exists>t'. fire_entries cb now ks t = Inr t' \<and> wt_ok D (L - set ks) t' \<and>
    wt_abs t' = (\<lambda>k. if k \<in> set ks then Option.bind (wt_abs t k) spec_again else wt_abs t k) \<and>
    wt_checkTime t' = wt_checkTime t \<and> wt_timerId t' = wt_timerId t"
  using assms
proof (induction ks arbitrary: L t)
  case (Cons k ks)
  obtain e where e: "wt_timers t k = Some e" using wt_okD(3) [OF Cons.prems(1)] Cons.prems(4) by auto
  let ?e = "e\<lparr>we_wheelIndex := - 1\<rparr>"
  let ?t = "t\<lparr>wt_timers := (wt_timers t)(k \<mapsto> ?e)\<rparr>"
  have k: "k \<in> L" using Cons.prems(4) by simp
  have ok: "wt_ok D L ?t" using wt_okD(6) [OF Cons.prems(1) e] by (intro loose_update [OF Cons.prems(1) k]) simp
  have abs: "wt_abs ?t = wt_abs t" using e by (auto simp: wt_abs_def fun_eq_iff)
  from wheel_again_ok [OF ok k, of ?e] Cons.prems(5) [of k e] e obtain t1 where t1: "wheel_again k ?t = Inr t1" "wt_ok D (L - {k}) t1"
    "wt_abs t1 = (wt_abs t)(k := Option.bind (wt_abs t k) spec_again)" "wt_checkTime t1 = wt_checkTime t" "wt_timerId t1 = wt_timerId t"
    using abs by auto
  have bound: "unat (we_expires y) + unat (we_interval y) < 2 ^ 63" if "j \<in> set ks" "wt_timers t1 j = Some y" for j y
  proof -
    have "j \<noteq> k" using that(1) Cons.prems(3) by auto
    then have "wt_abs t1 j = wt_abs t j" using t1(3) by simp
    with that(2) obtain z where "wt_timers t j = Some z" "unat (we_expires z) = unat (we_expires y)" "unat (we_interval z) = unat (we_interval y)"
      by (cases "wt_timers t j") (auto simp: wt_abs_def)
    with Cons.prems(5) [of j z] that(1) show ?thesis by simp
  qed
  have "distinct ks" "set ks \<subseteq> L - {k}" using Cons.prems(3,4) by auto
  then have "\<exists>t'. fire_entries cb now ks t1 = Inr t' \<and> wt_ok D (L - {k} - set ks) t' \<and>
    wt_abs t' = (\<lambda>j. if j \<in> set ks then Option.bind (wt_abs t1 j) spec_again else wt_abs t1 j) \<and>
    wt_checkTime t' = wt_checkTime t1 \<and> wt_timerId t' = wt_timerId t1"
    using bound by (intro Cons.IH [OF t1(2) Cons.prems(2)])
  then obtain t2 where t2: "fire_entries cb now ks t1 = Inr t2" "wt_ok D (L - {k} - set ks) t2"
    "wt_abs t2 = (\<lambda>j. if j \<in> set ks then Option.bind (wt_abs t1 j) spec_again else wt_abs t1 j)"
    "wt_checkTime t2 = wt_checkTime t" "wt_timerId t2 = wt_timerId t" using t1(4,5) by auto
  have "L - {k} - set ks = L - set (k # ks)" by auto
  moreover have "wt_abs t2 = (\<lambda>j. if j \<in> set (k # ks) then Option.bind (wt_abs t j) spec_again else wt_abs t j)"
    using t2(3) t1(3) Cons.prems(3) by (auto simp: fun_eq_iff)
  moreover have "cb (we_func e) now ?t = Inr ?t" using Cons.prems(2) by (simp add: quiet_def)
  then have "fire_entries cb now (k # ks) t = Inr t2" using t1(1) t2(1) e by simp
  ultimately show ?case using t2(2,4,5) by auto
qed simp

section \<open>A tick of the wheel is a tick of the reference\<close>

lemma slot_ahead_due: "slot_ahead i e c \<Longrightarrow> i < 512 \<Longrightarrow> e \<le> c \<longleftrightarrow> i = c mod 256"
proof (cases "i < 256")
  case True
  assume "slot_ahead i e c"
  with True have m: "max e c < c + 256" "i = max e c mod 256" by (simp_all add: slot_ahead_def first_ok_def)
  show ?thesis
  proof (cases "e \<le> c")
    case False
    then obtain d where "e = c + d" "0 < d" using less_imp_add_positive by (metis not_le)
    moreover from this m have "d < 256" by simp
    moreover have "(c + d) mod 256 \<noteq> c mod 256"
      using \<open>0 < d\<close> \<open>d < 256\<close> mod_eq_dvd_iff_nat [of c "c + d" 256] by (auto dest: dvd_imp_le)
    ultimately show ?thesis using m(2) by (simp add: max_def)
  qed (use m in simp)
next
  case False
  assume "slot_ahead i e c"
  with False have "c < e" unfolding slot_ahead_def by (meson order_less_le_trans)
  moreover have "c mod 256 < 256" by simp
  ultimately show ?thesis using False by linarith
qed

lemma slot_ahead_next: "slot_ahead i e c \<Longrightarrow> i < 512 \<Longrightarrow> i \<noteq> c mod 256 \<Longrightarrow> slot_ok i e (Suc c)"
proof (cases "i < 256")
  case True
  assume a: "slot_ahead i e c" "i < 512" "i \<noteq> c mod 256"
  then have "c < e" using slot_ahead_due by (metis not_le)
  then have "max e c = e" "max e (Suc c) = e" by simp_all
  with a(1) True show ?thesis by (simp add: slot_ahead_def slot_ok_def first_ok_def)
next
  case False
  assume "slot_ahead i e c"
  with False show ?thesis unfolding slot_ahead_def slot_ok_def by (auto simp: Suc_le_eq intro: less_SucI)
qed

lemma wt_absE:
  assumes "wt_abs t k = Some x"
  obtains e where "wt_timers t k = Some e" "x = (unat (we_expires e), unat (we_interval e), we_repeat e)"
  using assms by (cases "wt_timers t k") (auto simp: wt_abs_def)

lemma tick_slot_due:
  assumes "wt_ok {} {} t"
  shows "set (wt_wheels t ! (unat (wt_checkTime t) mod 256)) = spec_due (unat (wt_checkTime t)) (wt_abs t)"
proof -
  note ok = wt_okD [OF assms]
  let ?c = "unat (wt_checkTime t)"
  have i: "?c mod 256 < 512" using mod_less_divisor [of 256 ?c] by linarith
  have "k \<in> spec_due ?c (wt_abs t)" if "k \<in> set (wt_wheels t ! (?c mod 256))" for k
    using ok(5) [OF i that] slot_ahead_due [OF _ i] by (auto simp: spec_due_def wt_abs_def slot_good_def)
  moreover have "k \<in> set (wt_wheels t ! (?c mod 256))" if d: "k \<in> spec_due ?c (wt_abs t)" for k
  proof -
    from d obtain e where e: "wt_timers t k = Some e" "unat (we_expires e) \<le> ?c" by (auto simp: spec_due_def elim!: wt_absE)
    with ok(6) obtain j where j: "j < 512" "k \<in> set (wt_wheels t ! j)" by blast
    with ok(5) [OF j] e slot_ahead_due [of j _ ?c] show ?thesis by (auto simp: slot_good_def)
  qed
  ultimately show ?thesis by blast
qed

lemma tick_cleared:
  assumes "wt_ok {} {} t" "unat (wt_checkTime t) + 1 < 2 ^ 63"
  shows "wt_ok UNIV (set (wt_wheels t ! (unat (wt_checkTime t) mod 256)))
     (clear_slot (unat (wt_checkTime t) mod 256) (t\<lparr>wt_checkTime := wt_checkTime t + 1\<rparr>))"
proof -
  let ?c = "unat (wt_checkTime t)" and ?i = "unat (wt_checkTime t) mod 256"
  have i: "?i < 512" using mod_less_divisor [of 256 ?c] by linarith
  note ok = wt_okD [OF clear_slot_ok [OF assms(1) i]]
  have c: "unat (wt_checkTime t + 1) = Suc ?c" using assms(2) by (simp add: unat_word_ariths)
  have good: "slot_good UNIV j e (Suc ?c)" if "j < 512" "slot_good ({} - {?i}) j e ?c" "j \<noteq> ?i" for j e
    using that slot_ahead_next by (simp add: slot_good_def)
  have "wt_wheels (clear_slot ?i t) ! ?i = []" using ok(1) i by (simp add: clear_slot_def)
  then have ne: "j \<noteq> ?i" if "k \<in> set (wt_wheels (clear_slot ?i t) ! j)" for j k using that by auto
  let ?t = "clear_slot ?i (t\<lparr>wt_checkTime := wt_checkTime t + 1\<rparr>)"
  have eq: "wt_wheels ?t = wt_wheels (clear_slot ?i t)" "wt_timers ?t = wt_timers (clear_slot ?i t)"
    "unat (wt_checkTime ?t) = Suc ?c" "unat (wt_checkTime (clear_slot ?i t)) = ?c" using c by (simp_all add: clear_slot_def)
  show ?thesis
  proof (rule wt_okI, unfold eq)
    fix j k assume jk: "j < 512" "k \<in> set (wt_wheels (clear_slot ?i t) ! j)"
    from ok(5) [OF jk] good [OF jk(1) _ ne [OF jk(2)]] show "k \<notin> set (wt_wheels t ! ?i) \<and> (\<exists>e. wt_timers (clear_slot ?i t) k = Some e \<and>
      we_wheelIndex e = int j \<and> slot_good UNIV j (unat (we_expires e)) (Suc ?c))" unfolding eq by blast
  qed (use ok assms(2) in auto)
qed

lemma wheel_tick_ok:
  assumes "wt_ok UNIV {} t" "quiet cb" "unat (wt_checkTime t) + 2 ^ 32 < 2 ^ 63"
  defines "c \<equiv> unat (wt_checkTime t)"
  shows "\<exists>ks t'. wheel_tick cb now t = Inr (ks, t') \<and> wt_ok UNIV {} t' \<and> distinct ks \<and> set ks = spec_due c (wt_abs t) \<and>
    wt_abs t' = spec_tick c (wt_abs t) \<and> unat (wt_checkTime t') = Suc c \<and> wt_timerId t' = wt_timerId t"
proof -
  from cascades_ok [OF assms(1)] obtain t1 where t1: "cascades t = Inr t1" "wt_ok {} {} t1" "wt_abs t1 = wt_abs t"
    "wt_checkTime t1 = wt_checkTime t" "wt_timerId t1 = wt_timerId t" by auto
  let ?i = "c mod 256"
  let ?ks = "wt_wheels t1 ! ?i"
  let ?t2 = "clear_slot ?i (t1\<lparr>wt_checkTime := wt_checkTime t1 + 1\<rparr>)"
  have i: "?i < 512" using mod_less_divisor [of 256 c] by linarith
  have d: "distinct ?ks" using wt_okD(4) [OF t1(2) i] .
  have due: "set ?ks = spec_due c (wt_abs t)" using tick_slot_due [OF t1(2)] t1(3,4) by (simp add: c_def)
  have ok2: "wt_ok UNIV (set ?ks) ?t2" using tick_cleared [OF t1(2)] t1(4) assms(3) by (simp add: c_def)
  have tm: "wt_timers ?t2 = wt_timers t1" and abs2: "wt_abs ?t2 = wt_abs t"
    using t1(3) by (auto simp: clear_slot_def wt_abs_def fun_eq_iff)
  have bnd: "unat (we_expires e) + unat (we_interval e) < 2 ^ 63" if "k \<in> set ?ks" "wt_timers ?t2 k = Some e" for k e
  proof -
    have "wt_abs t k = Some (unat (we_expires e), unat (we_interval e), we_repeat e)"
      using that(2) tm t1(3) by (metis (no_types, lifting) option.map(2) wt_abs_def)
    with that(1) due have "unat (we_expires e) \<le> c" by (auto simp: spec_due_def)
    then show ?thesis using assms(3) unat_u32_less [of "we_interval e"] by (simp add: c_def)
  qed
  have "\<exists>t'. fire_entries cb now ?ks ?t2 = Inr t' \<and> wt_ok UNIV (set ?ks - set ?ks) t' \<and>
    wt_abs t' = (\<lambda>k. if k \<in> set ?ks then Option.bind (wt_abs ?t2 k) spec_again else wt_abs ?t2 k) \<and>
    wt_checkTime t' = wt_checkTime ?t2 \<and> wt_timerId t' = wt_timerId ?t2"
    using bnd by (intro fire_ok [OF ok2 assms(2) d subset_refl])
  then obtain t3 where t3: "fire_entries cb now ?ks ?t2 = Inr t3"
    "wt_ok UNIV {} t3" "wt_abs t3 = (\<lambda>k. if k \<in> set ?ks then Option.bind (wt_abs t k) spec_again else wt_abs t k)"
    "wt_checkTime t3 = wt_checkTime t1 + 1" "wt_timerId t3 = wt_timerId t1" unfolding abs2 by (auto simp: clear_slot_def)
  have "wt_abs t3 = spec_tick c (wt_abs t)"
    unfolding t3(3) due by (auto simp: fun_eq_iff spec_tick_def spec_due_def split: option.splits)
  moreover have "unat (wt_checkTime t3) = Suc c" using t3(4) t1(4) assms(3) by (simp add: c_def unat_word_ariths)
  moreover have "wheel_tick cb now t = Inr (?ks, t3)"
    using t1(1,4) t3(1) by (simp add: wheel_tick_def low_byte_nat c_def Let_def)
  ultimately show ?thesis using d due t3(2,5) t1(5) by auto
qed

section \<open>The loop of DetectTimers\<close>

text \<open>The ticks at which a timer was called, from the list of calls.\<close>

definition calls_of :: "int \<Rightarrow> (u64 \<times> int) list \<Rightarrow> nat list" where
  "calls_of k calls = map (\<lambda>p. unat (fst p)) (filter (\<lambda>p. snd p = k) calls)"

lemma calls_of_tick: "distinct ks \<Longrightarrow> calls_of k (map (Pair c) ks) = (if k \<in> set ks then [unat c] else [])"
proof (induction ks)
  case (Cons j ks)
  then show ?case by (cases "j = k") (auto simp: calls_of_def)
qed (simp add: calls_of_def)

lemma wheel_loop_ok:
  assumes "wt_ok UNIV {} t" "quiet cb" "unat now + 2 ^ 32 < 2 ^ 63" "n = Suc (unat now) - unat (wt_checkTime t)"
  shows "\<exists>new t'. wheel_loop cb now old t = Some (Inr (old @ new, t')) \<and> wt_ok UNIV {} t' \<and>
    wt_abs t' = spec_ticks (unat (wt_checkTime t)) n (wt_abs t) \<and> wt_timerId t' = wt_timerId t \<and>
    (\<forall>k. calls_of k new = spec_calls k (unat (wt_checkTime t)) n (wt_abs t)) \<and>
    sorted (map (\<lambda>p. unat (fst p)) new) \<and> (\<forall>p \<in> set new. unat (wt_checkTime t) \<le> unat (fst p))"
  using assms(1,4)
proof (induction n arbitrary: t old)
  case 0
  then have "\<not> wt_checkTime t \<le> now" by (simp add: word_le_nat_alt)
  with 0 show ?case by (auto simp: wheel_loop.simps calls_of_def intro!: exI [of _ "[]"])
next
  case (Suc n)
  let ?c = "unat (wt_checkTime t)"
  have le: "wt_checkTime t \<le> now" and c: "?c + 2 ^ 32 < 2 ^ 63" using Suc.prems(2) assms(3) by (simp_all add: word_le_nat_alt)
  from wheel_tick_ok [OF Suc.prems(1) assms(2) c, of now] obtain ks t1 where t1: "wheel_tick cb now t = Inr (ks, t1)" "wt_ok UNIV {} t1"
    "distinct ks" "set ks = spec_due ?c (wt_abs t)" "wt_abs t1 = spec_tick ?c (wt_abs t)" "unat (wt_checkTime t1) = Suc ?c"
    "wt_timerId t1 = wt_timerId t" by auto
  let ?now = "map (Pair (wt_checkTime t)) ks"
  have "n = Suc (unat now) - unat (wt_checkTime t1)" using Suc.prems(2) t1(6) by simp
  from Suc.IH [OF t1(2) this, of "old @ ?now"] obtain new t2 where t2: "wheel_loop cb now (old @ ?now) t1 = Some (Inr (old @ ?now @ new, t2))"
    "wt_ok UNIV {} t2" "wt_abs t2 = spec_ticks (Suc ?c) n (spec_tick ?c (wt_abs t))" "wt_timerId t2 = wt_timerId t"
    "\<forall>k. calls_of k new = spec_calls k (Suc ?c) n (spec_tick ?c (wt_abs t))"
    "sorted (map (\<lambda>p. unat (fst p)) new)" "\<forall>p \<in> set new. Suc ?c \<le> unat (fst p)" unfolding t1(5,6,7) by auto
  have "calls_of k (?now @ new) = spec_calls k ?c (Suc n) (wt_abs t)" for k
    using t2(5) calls_of_tick [OF t1(3), of k "wt_checkTime t"] t1(4) by (simp add: calls_of_def)
  moreover have "wheel_loop cb now old t = Some (Inr (old @ ?now @ new, t2))"
    using le t1(1) t2(1) by (simp add: wheel_loop.simps)
  moreover have "sorted (map (\<lambda>p. unat (fst p)) (?now @ new))" using t2(6,7) by (auto simp: sorted_append sorted_map sorted_wrt_map)
  moreover have "\<forall>p \<in> set (?now @ new). ?c \<le> unat (fst p)" using t2(7) by auto
  ultimately show ?case using t2(2-4) by (intro exI [of _ "?now @ new"] exI [of _ t2]) simp
qed

lemma dom_wt_abs: "dom (wt_abs t) = dom (wt_timers t)"
  by (auto simp: wt_abs_def dom_def)

lemma dom_spec_ticks: "dom (spec_ticks c n m) \<subseteq> dom m"
proof (induction n arbitrary: c m)
  case (Suc n)
  have "dom (spec_tick c m) \<subseteq> dom m" by (auto simp: spec_tick_def dom_def split: option.splits)
  with Suc [of "Suc c" "spec_tick c m"] show ?case by auto
qed simp

section \<open>Registering and cancelling\<close>

lemma register_inv:
  fixes interval delay0 :: u32
  assumes "wt_inv t" "unat now + 2 ^ 32 < 2 ^ 63"
  defines "k \<equiv> wt_timerId t + 1" and "delay \<equiv> if delay0 = 0 then interval else delay0"
  shows "\<exists>t'. wheel_register_timer now f interval delay0 r t = Inr (k, t') \<and> wt_inv t' \<and> wt_checkTime t' = wt_checkTime t \<and>
    wt_abs t k = None \<and> wt_abs t' = (wt_abs t)(k \<mapsto> (unat now + unat delay, unat interval, r))"
proof -
  let ?e = "\<lparr>we_func = f, we_timerId = k, we_interval = interval, we_expires = ucast delay + now, we_repeat = r, we_wheelIndex = 0\<rparr>"
  let ?t = "t\<lparr>wt_timers := (wt_timers t)(k \<mapsto> ?e), wt_timerId := k\<rparr>"
  have ok: "wt_ok UNIV {} t" and ids: "\<And>j. j \<in> dom (wt_timers t) \<Longrightarrow> j \<le> wt_timerId t" using assms(1) by (auto simp: wt_inv_def)
  note okD = wt_okD [OF ok]
  have new: "wt_timers t k = None" using ids [of k] by (cases "wt_timers t k") (auto simp: k_def)
  have ex: "unat (we_expires ?e) = unat now + unat delay"
    using assms(2) unat_u32_less [of delay] by (simp add: unat_add_small word_arith)
  then have "unat (we_expires ?e) < 2 ^ 63" using assms(2) unat_u32_less [of delay] by simp
  moreover have "k \<notin> set (wt_wheels t ! i)" if "i < 512" for i using okD(5) [OF that, of k] new by auto
  ultimately have "wt_ok UNIV {k} ?t" using okD(1-4) okD(5) new by (intro wt_okI) (auto split: if_splits dest: okD(6))
  from add_entry_ok [OF this] obtain t' where t': "AddEntryToWheel k ?t = Inr t'" "wt_ok UNIV {} t'" "wt_abs t' = wt_abs ?t"
    "wt_checkTime t' = wt_checkTime t" "wt_timerId t' = k" by auto
  have abs: "wt_abs ?t = (wt_abs t)(k \<mapsto> (unat now + unat delay, unat interval, r))" using ex by (auto simp: wt_abs_def fun_eq_iff)
  have "j \<le> k" if "j \<in> dom (wt_timers t')" for j
    using that ids [of j] unfolding dom_wt_abs [symmetric] t'(3) abs by (auto simp: k_def dom_def wt_abs_def split: if_splits)
  then have "wt_inv t'" using t'(2,5) by (auto simp: wt_inv_def)
  then show ?thesis using t'(1,3,4) new unfolding abs by (simp add: wheel_register_timer_def Let_def k_def delay_def wt_abs_def)
qed

lemma unregister_inv:
  assumes "wt_inv t"
  shows "\<exists>t'. wheel_unregister_timer k t = Inr t' \<and> wt_inv t' \<and> wt_checkTime t' = wt_checkTime t \<and> wt_abs t' = (wt_abs t)(k := None)"
proof (cases "wt_timers t k")
  case None
  then have "(wt_abs t)(k := None) = wt_abs t" by (auto simp: wt_abs_def)
  with None assms show ?thesis by (simp add: wheel_unregister_timer_def)
next
  case (Some e)
  have ok: "wt_ok UNIV {} t" using assms by (simp add: wt_inv_def)
  note okD = wt_okD [OF ok]
  from okD(6) [OF Some] obtain i where i: "i < 512" "k \<in> set (wt_wheels t ! i)" by auto
  with okD(5) [OF i] Some have w: "we_wheelIndex e = int i" by simp
  let ?t = "t\<lparr>wt_wheels := (wt_wheels t)[i := remove1 k (wt_wheels t ! i)], wt_timers := (wt_timers t)(k := None)\<rparr>"
  have nth: "wt_wheels ?t ! j = (if j = i then remove1 k (wt_wheels t ! i) else wt_wheels t ! j)" if "j < 512" for j
    using that okD(1) by (simp add: nth_list_update)
  have sets: "set (wt_wheels ?t ! j) = set (wt_wheels t ! j) - {k}" if "j < 512" for j
    using okD(4) [OF i(1)] okD(5) [OF that, of k] Some w unfolding nth [OF that] by auto
  have "wt_ok UNIV {} ?t"
  proof (rule wt_okI)
    show "distinct (wt_wheels ?t ! j)" if "j < 512" for j using okD(4) [OF that] unfolding nth [OF that] by auto
    fix j x assume "j < 512" "x \<in> set (wt_wheels ?t ! j)"
    then show "x \<notin> {} \<and> (\<exists>e. wt_timers ?t x = Some e \<and> we_wheelIndex e = int j \<and>
      slot_good UNIV j (unat (we_expires e)) (unat (wt_checkTime ?t)))" using okD(5) [of j x] sets by auto
  next
    fix x y assume "wt_timers ?t x = Some y"
    then have "x \<noteq> k" "wt_timers t x = Some y" by (auto split: if_splits)
    then show "unat (we_expires y) < 2 ^ 63 \<and> (x \<in> {} \<or> (\<exists>i<512. x \<in> set (wt_wheels ?t ! i)))"
      using okD(6) [of x y] sets by auto
  qed (use okD in auto)
  then have "wt_inv ?t" using assms by (auto simp: wt_inv_def)
  moreover have "wheel_unregister_timer k t = Inr ?t" using Some i w by (simp add: wheel_unregister_timer_def Let_def)
  moreover have "wt_abs ?t = (wt_abs t)(k := None)" by (auto simp: wt_abs_def fun_eq_iff)
  ultimately show ?thesis by simp
qed

section \<open>When a timer is called\<close>

text \<open>The number of calls by \<open>now\<close> of a timer that first expires at \<open>e\<close>.\<close>

definition calls_until :: "nat \<Rightarrow> nat \<Rightarrow> int \<Rightarrow> nat \<Rightarrow> nat" where
  "calls_until e i r now =
     (let n = (if e \<le> now then (now - e) div i + 1 else 0) in if r > 0 then min n (nat r) else n)"

lemma calls_until_iff:
  assumes "0 < i"
  shows "j < calls_until e i r now \<longleftrightarrow> e + j * i \<le> now \<and> (r > 0 \<longrightarrow> j < nat r)"
proof (cases "e \<le> now")
  case True
  have "j \<le> (now - e) div i \<longleftrightarrow> j * i \<le> now - e" using less_eq_div_iff_mult_less_eq [OF assms] .
  with True show ?thesis by (auto simp: calls_until_def Let_def)
qed (auto simp: calls_until_def)

lemma spec_calls_None: "m k = None \<Longrightarrow> spec_calls k c n m = []"
  by (induction n arbitrary: c m) (auto simp: spec_due_def spec_tick_def)

lemma spec_calls_from: "t \<in> set (spec_calls k c n m) \<Longrightarrow> c \<le> t"
  by (induction n arbitrary: c m) (fastforce split: if_splits)+

lemma spec_calls_sorted: "sorted_wrt (<) (spec_calls k c n m)"
proof (induction n arbitrary: c m)
  case (Suc n)
  have "c < t" if "t \<in> set (spec_calls k (Suc c) n (spec_tick c m))" for t using spec_calls_from [OF that] by simp
  with Suc show ?case by auto
qed simp

lemma spec_calls_set:
  "m k = Some (e, i, r) \<Longrightarrow> c \<le> e \<Longrightarrow> 0 < i \<Longrightarrow> 0 \<le> r \<Longrightarrow>
     set (spec_calls k c n m) = {e + j * i | j. e + j * i < c + n \<and> (r > 0 \<longrightarrow> j < nat r)}"
proof (induction n arbitrary: c m e r)
  case (Suc n)
  show ?case
  proof (cases "e = c")
    case False
    then have "k \<notin> spec_due c m" "spec_tick c m k = Some (e, i, r)" "Suc c \<le> e" using Suc.prems by (auto simp: spec_due_def spec_tick_def)
    with Suc.IH [of "spec_tick c m" e r "Suc c"] Suc.prems show ?thesis by simp
  next
    case True
    let ?r = "if r > 0 then r - 1 else r"
    have due: "k \<in> spec_due c m" "spec_tick c m k = (if r = 1 then None else Some (e + i, i, ?r))"
      using Suc.prems True by (auto simp: spec_due_def spec_tick_def)
    have later: "set (spec_calls k (Suc c) n (spec_tick c m)) =
      {e + i + j * i | j. e + i + j * i < Suc c + n \<and> (r > 0 \<longrightarrow> Suc j < nat r)}"
    proof (cases "r = 1")
      case True
      then show ?thesis using spec_calls_None [of "spec_tick c m" k] due(2) by simp
    next
      case False
      have "j < nat ?r \<longleftrightarrow> Suc j < nat r" if "r > 0" for j using that by auto
      moreover have "?r > 0 \<longleftrightarrow> r > 0" using False Suc.prems(4) by auto
      moreover have "0 \<le> ?r" using Suc.prems(4) by auto
      ultimately show ?thesis using Suc.IH [of "spec_tick c m" "e + i" ?r "Suc c"] Suc.prems due(2) True False
        by (simp split del: if_split cong: conj_cong)
    qed
    have "{e + j * i | j. e + j * i < c + Suc n \<and> (r > 0 \<longrightarrow> j < nat r)} =
      insert e {e + i + j * i | j. e + i + j * i < Suc c + n \<and> (r > 0 \<longrightarrow> Suc j < nat r)}" (is "?l = ?r")
    proof (intro equalityI subsetI)
      fix x assume "x \<in> ?l"
      then obtain j where "x = e + j * i" "e + j * i < c + Suc n" "r > 0 \<longrightarrow> j < nat r" by blast
      then show "x \<in> ?r" by (cases j) (auto simp: add.assoc)
    next
      fix x assume "x \<in> ?r"
      then consider "x = e" | j where "x = e + Suc j * i" "e + Suc j * i < Suc c + n" "r > 0 \<longrightarrow> Suc j < nat r"
        by (auto simp: add.assoc)
      then show "x \<in> ?l"
      proof cases
        case (2 j)
        then show ?thesis by (intro CollectI exI [of _ "Suc j"]) auto
      qed (use True in auto)
    qed
    with later due(1) True show ?thesis by simp
  qed
qed simp

lemma spec_calls_eq:
  assumes "m k = Some (e, i, r)" "c \<le> e" "0 < i" "0 \<le> r" "n = Suc now - c"
  shows "spec_calls k c n m = map (\<lambda>j. e + j * i) [0..<calls_until e i r now]"
proof (rule strict_sorted_equal)
  show "sorted_wrt (<) (spec_calls k c n m)" by (rule spec_calls_sorted)
  show "sorted_wrt (<) (map (\<lambda>j. e + j * i) [0..<calls_until e i r now])"
    using assms(3) by (simp add: sorted_wrt_map sorted_wrt_iff_nth_less)
  have "e + j * i < c + n \<longleftrightarrow> e + j * i \<le> now" for j using assms(2,5) by auto
  with spec_calls_set [of m k e i r c n] assms(1-4) show "set (spec_calls k c n m) = set (map (\<lambda>j. e + j * i) [0..<calls_until e i r now])"
    using calls_until_iff [OF assms(3)] by (auto simp: image_iff)
qed

section \<open>Properties\<close>


lemma wheel_new_inv: "unat now < 2 ^ 63 \<Longrightarrow> wt_inv (WheelTimer_new now)"
  by (auto simp: wt_inv_def WheelTimer_new_def intro!: wt_okI)




text \<open>A callback that cancels its own timer erases the entry; the loop of \<open>DetectTimers\<close> then reads the id of the
  erased entry to find out whether the timer still exists.\<close>

theorem wheel_self_cancel:
  assumes "wt_inv t" "unat (wt_checkTime t) + 2 ^ 32 < 2 ^ 63" "spec_due (unat (wt_checkTime t)) (wt_abs t) = {k}"
    and "wt_timers t k = Some e" "cb (we_func e) now = wheel_unregister_timer k"
  shows "wheel_tick cb now t = Inl UseAfterFree"
proof -
  have "wt_ok UNIV {} t" using assms(1) by (simp add: wt_inv_def)
  from cascades_ok [OF this] obtain t1 where t1: "cascades t = Inr t1" "wt_ok {} {} t1" "wt_abs t1 = wt_abs t"
    "wt_checkTime t1 = wt_checkTime t" by auto
  let ?i = "unat (wt_checkTime t) mod 256"
  have i: "?i < 512" using mod_less_divisor [of 256 "unat (wt_checkTime t)"] by linarith
  have "set (wt_wheels t1 ! ?i) = {k}" "distinct (wt_wheels t1 ! ?i)"
    using tick_slot_due [OF t1(2)] t1(3,4) assms(3) wt_okD(4) [OF t1(2) i] by simp_all
  then have slot: "wt_wheels t1 ! ?i = [k]" by (intro distinct_single)
  let ?t2 = "clear_slot ?i (t1\<lparr>wt_checkTime := wt_checkTime t1 + 1\<rparr>)"
  from fun_cong [OF cascades_funcs [OF t1(1)], of k] assms(4) obtain e1 where
    e1: "wt_timers t1 k = Some e1" "we_func e1 = we_func e" by (auto simp: wt_funcs_def)
  have "wt_timers ?t2 k = Some e1" using e1 by (simp add: clear_slot_def)
  then have "fire_entries cb now [k] ?t2 = Inl UseAfterFree"
    using assms(5) e1(2) by (simp add: wheel_unregister_timer_def wheel_again_def)
  then show ?thesis using t1(1,4) slot by (simp add: wheel_tick_def low_byte_nat Let_def)
qed

theorem wheel_self_cancel_witness:
  "\<exists>t. wheel_register_timer 2 7 1 0 3 (WheelTimer_new 3) = Inr (1, t) \<and>
     wheel_tick (\<lambda>_ _. wheel_unregister_timer 1) 3 t = Inl UseAfterFree"
proof -
  let ?t = "WheelTimer_new 3"
  have new: "wt_timerId ?t + 1 = 1" "unat (wt_checkTime ?t) = 3" "wt_abs ?t = Map.empty"
    by (simp_all add: WheelTimer_new_def wt_abs_def fun_eq_iff)
  have "wt_inv ?t" "unat (2 :: u64) + 2 ^ 32 < 2 ^ 63" using wheel_new_inv [of 3] by simp_all
  from register_inv [OF this, of 7 1 0 3] obtain t where t: "wheel_register_timer 2 7 1 0 3 ?t = Inr (1, t)" "wt_inv t"
    "wt_checkTime t = wt_checkTime ?t" "wt_abs t = [1 \<mapsto> (3, 1, 3)]" unfolding new by auto
  from fun_cong [OF t(4), of 1] obtain e where "wt_timers t 1 = Some e" by (auto simp: wt_abs_def)
  moreover have "spec_due (unat (wt_checkTime t)) (wt_abs t) = {1}" "unat (wt_checkTime t) + 2 ^ 32 < 2 ^ 63"
    unfolding t(3) new(2) t(4) by (auto simp: spec_due_def split: if_splits)
  ultimately show ?thesis using wheel_self_cancel [of t 1 e "\<lambda>_ _. wheel_unregister_timer 1" 3] t(1,2) by auto
qed

end
