(* ===== verification/Text_Util.thy ===== *)
theory Text_Util
  imports Prelude
begin

text \<open>
  C strings and the helpers of \<open>eventservice/util/string_util.cpp\<close> and \<open>eventservice/util/file_opera.cpp\<close> that the
  watchdog and the key-value store use: comparison, bounded copies, trimming, numbers in decimal and reading lines.
\<close>

abbreviation NUL :: char where "NUL \<equiv> CHR 0x00"
abbreviation CR :: char where "CR \<equiv> CHR 0x0D"
abbreviation LF :: char where "LF \<equiv> CHR 0x0A"

text \<open>\<open>c_str()\<close> ends at the first zero.\<close>

definition cstr :: "string \<Rightarrow> string" where
  "cstr s = takeWhile (\<lambda>c. c \<noteq> NUL) s"

text \<open>The difference of two \<open>char\<close>s, which are signed.\<close>

definition schar :: "char \<Rightarrow> int" where
  "schar c = (let v = of_char c in if v < 128 then v else v - 256)"

fun compare_cstr :: "string \<Rightarrow> string \<Rightarrow> int" where
  "compare_cstr [] [] = 0"
| "compare_cstr [] (r # rs) = - schar r"
| "compare_cstr (l # ls) [] = schar l"
| "compare_cstr (l # ls) (r # rs) = (if schar l - schar r \<noteq> 0 then schar l - schar r else compare_cstr ls rs)"

definition xstr_compare :: "string \<Rightarrow> string \<Rightarrow> int" where
  "xstr_compare a b = compare_cstr (cstr a) (cstr b)"

definition safe_memcpy :: "string \<Rightarrow> nat \<Rightarrow> string \<Rightarrow> string" where
  "safe_memcpy dst dst_size src =
     (let n = min dst_size (length src) in take n src @ drop n dst)"

definition blank :: "char \<Rightarrow> bool" where
  "blank c \<longleftrightarrow> c \<in> {CHR '' '', CHR 0x09, CR, LF}"

definition chop :: "string \<Rightarrow> string" where
  "chop s = rev (dropWhile blank (rev (dropWhile blank s)))"

definition is_digit :: "char \<Rightarrow> bool" where
  "is_digit c \<longleftrightarrow> 48 \<le> (of_char c :: nat) \<and> (of_char c :: nat) \<le> 57"

fun dec_value :: "int \<Rightarrow> string \<Rightarrow> int" where
  "dec_value acc [] = acc"
| "dec_value acc (c # cs) = (if is_digit c then dec_value (10 * acc + (of_char c - 48)) cs else acc)"

text \<open>\<open>strtol\<close> with radix 10: white space, a sign, digits; the result is clamped to the range of \<open>long\<close>.\<close>

definition strtol :: "string \<Rightarrow> int" where
  "strtol s =
     (let t = dropWhile (\<lambda>c. blank c \<or> c = CHR 0x0B \<or> c = CHR 0x0C) s;
          v = (case t of [] \<Rightarrow> 0 | c # cs \<Rightarrow>
                if c = CHR ''-'' then - dec_value 0 cs else if c = CHR ''+'' then dec_value 0 cs else dec_value 0 t)
      in max (- (2 ^ 63)) (min (2 ^ 63 - 1) v))"

text \<open>The value that \<open>to_int\<close> leaves in a variable that was 0; the caller ignores its result.\<close>

definition to_int_value :: "string \<Rightarrow> u32" where
  "to_int_value s = (let t = chop s in if t = [] then 0 else word_of_int (strtol (cstr t)))"

fun read_line :: "string \<Rightarrow> string \<Rightarrow> string \<times> string" where
  "read_line acc [] = (acc, [])"
| "read_line acc (c # cs) =
     (if c = LF then (if acc \<noteq> [] \<and> last acc = CR then butlast acc else acc, cs)
      else read_line (if c = NUL then acc else acc @ [c]) cs)"

function nat_str :: "nat \<Rightarrow> string" where
  "nat_str n = (if n < 10 then [char_of (48 + n)] else nat_str (n div 10) @ [char_of (48 + n mod 10)])"
  by pat_completeness auto
termination by (relation "measure id") auto

declare nat_str.simps [simp del]

definition int_str :: "int \<Rightarrow> string" where
  "int_str i = (if i < 0 then CHR ''-'' # nat_str (nat (- i)) else nat_str (nat i))"

section \<open>C strings\<close>

lemma schar_inj: "schar a = schar b \<longleftrightarrow> a = b"
proof
  assume "schar a = schar b"
  moreover have "of_char a < (256 :: int)" "of_char b < (256 :: int)" "0 \<le> (of_char a :: int)" "0 \<le> (of_char b :: int)"
    by (simp_all add: of_char_def)
  ultimately have "(of_char a :: int) = of_char b" by (auto simp: schar_def Let_def split: if_splits)
  then show "a = b" by simp
qed simp

lemma NUL_schar: "schar c = 0 \<longleftrightarrow> c = NUL"
  using schar_inj [of c NUL] by (simp add: schar_def)

lemma compare_cstr_0: "NUL \<notin> set a \<Longrightarrow> NUL \<notin> set b \<Longrightarrow> compare_cstr a b = 0 \<longleftrightarrow> a = b"
  by (induction a b rule: compare_cstr.induct) (auto simp: schar_inj NUL_schar)

lemma NUL_cstr [simp]: "NUL \<notin> set (cstr s)"
  by (auto simp: cstr_def dest: set_takeWhileD)

lemma xstr_compare_0 [simp]: "xstr_compare a b = 0 \<longleftrightarrow> cstr a = cstr b"
  by (simp add: xstr_compare_def compare_cstr_0)

lemma cstr_id [simp]: "NUL \<notin> set s \<Longrightarrow> cstr s = s"
  by (simp add: cstr_def takeWhile_eq_all_conv) metis

lemma cstr_cstr [simp]: "cstr (cstr s) = cstr s"
  by simp

lemma cstr_append: "NUL \<notin> set n \<Longrightarrow> cstr (n @ NUL # zs) = n"
  by (induction n) (auto simp: cstr_def)

section \<open>Numbers\<close>

lemma length_nat_str: "n < 10 ^ k \<Longrightarrow> 0 < k \<Longrightarrow> length (nat_str n) \<le> k"
proof (induction n arbitrary: k rule: nat_str.induct)
  case (1 n)
  show ?case
  proof (cases "n < 10")
    case False
    then obtain j where j: "k = Suc j" "0 < j" using 1(2,3) by (cases k; cases "k - 1") auto
    then have "n div 10 < 10 ^ j" using 1(2) by (simp add: less_mult_imp_div_less mult.commute)
    with 1(1) [OF False _ j(2)] j(1) False show ?thesis by (simp add: nat_str.simps [of n])
  qed (use 1(3) in \<open>simp add: nat_str.simps\<close>)
qed

lemma length_int_str: "length (int_str (sint (w :: u32))) \<le> 11"
proof -
  have r: "- (2 ^ 31) \<le> sint w" "sint w < 2 ^ 31" using sint_range_size [of w] by (simp_all add: word_size)
  then have "nat (- sint w) < 10 ^ 10" "nat (sint w) < 10 ^ 10" by simp_all
  then show ?thesis using length_nat_str [of "nat (- sint w)" 10] length_nat_str [of "nat (sint w)" 10] by (simp add: int_str_def)
qed

lemma digit_chars: "n < 10 \<Longrightarrow> is_digit (char_of (48 + n)) \<and> of_char (char_of (48 + n) :: char) = (48 + int n)"
proof -
  assume n: "n < 10"
  then have "(of_char (char_of (48 + n) :: char) :: nat) = 48 + n" by simp
  moreover from this have "(of_char (char_of (48 + n) :: char) :: int) = 48 + int n" by (subst of_nat_of_char [symmetric]) simp
  ultimately show ?thesis using n by (simp add: is_digit_def)
qed

lemma nat_str_digits: "c \<in> set (nat_str n) \<Longrightarrow> is_digit c"
proof (induction n rule: nat_str.induct)
  case (1 n)
  have "nat_str n = (if n < 10 then [char_of (48 + n)] else nat_str (n div 10) @ [char_of (48 + n mod 10)])" by (rule nat_str.simps)
  with 1 show ?case using digit_chars [of n] digit_chars [of "n mod 10"] by (auto split: if_splits)
qed

lemma dec_value_snoc: "\<forall>c \<in> set s. is_digit c \<Longrightarrow> is_digit d \<Longrightarrow> dec_value acc (s @ [d]) = 10 * dec_value acc s + (of_char d - 48)"
  by (induction s arbitrary: acc) auto

lemma dec_value_nat_str: "dec_value 0 (nat_str n) = int n"
proof (induction n rule: nat_str.induct)
  case (1 n)
  show ?case
  proof (cases "n < 10")
    case True
    then show ?thesis using digit_chars [of n] by (simp add: nat_str.simps)
  next
    case False
    have "dec_value 0 (nat_str n) = 10 * dec_value 0 (nat_str (n div 10)) + int (n mod 10)"
      using False dec_value_snoc [of "nat_str (n div 10)" "char_of (48 + n mod 10)" 0] nat_str_digits digit_chars [of "n mod 10"]
      by (subst nat_str.simps) simp
    also have "\<dots> = int (10 * (n div 10) + n mod 10)" using 1 [OF False] by (simp only: of_nat_add of_nat_mult of_nat_numeral)
    finally show ?thesis by simp
  qed
qed

lemma not_digits: "\<not> is_digit NUL" "\<not> is_digit LF" "\<not> is_digit CR" "\<not> is_digit (CHR '';'')" "\<not> is_digit (CHR ''-'')" "\<not> is_digit (CHR ''+'')"
  "is_digit c \<Longrightarrow> \<not> blank c" "is_digit c \<Longrightarrow> c \<noteq> CHR 0x0B \<and> c \<noteq> CHR 0x0C"
  by (auto simp: is_digit_def blank_def)

lemma dropWhile_none: "\<forall>c \<in> set s. \<not> P c \<Longrightarrow> dropWhile P s = s"
  by (cases s) auto

lemma nat_str_ne: "nat_str n \<noteq> []"
  by (subst nat_str.simps) simp

lemma to_int_nat_str: "n < 2 ^ 31 \<Longrightarrow> to_int_value (nat_str n) = of_nat n"
proof -
  assume n: "n < 2 ^ 31"
  have d: "\<forall>c \<in> set (nat_str n). is_digit c" using nat_str_digits by blast
  have "chop (nat_str n) = nat_str n" using d not_digits(7) by (simp add: chop_def dropWhile_none)
  moreover have "cstr (nat_str n) = nat_str n" using d not_digits(1) by (intro cstr_id) blast
  moreover have "strtol (nat_str n) = int n"
  proof -
    have "dropWhile (\<lambda>c. blank c \<or> c = CHR 0x0B \<or> c = CHR 0x0C) (nat_str n) = nat_str n"
      using d not_digits(7,8) by (intro dropWhile_none) blast
    moreover obtain c cs where c: "nat_str n = c # cs" using nat_str_ne by (cases "nat_str n") auto
    moreover have "c \<noteq> CHR ''-''" "c \<noteq> CHR ''+''" using d c not_digits(5,6) by auto
    ultimately show ?thesis using n dec_value_nat_str [of n] by (simp add: strtol_def)
  qed
  ultimately show ?thesis using nat_str_ne [of n] by (simp add: to_int_value_def)
qed

section \<open>Lines\<close>

lemma read_line_rest: "snd (read_line acc cs) \<noteq> [] \<Longrightarrow> length (snd (read_line acc cs)) < length cs"
  by (induction acc cs rule: read_line.induct) (fastforce split: if_splits)+

lemma read_line_entry:
  "LF \<notin> set xs \<Longrightarrow> NUL \<notin> set xs \<Longrightarrow> acc @ xs = [] \<or> last (acc @ xs) \<noteq> CR \<Longrightarrow> read_line acc (xs @ LF # rest) = (acc @ xs, rest)"
  by (induction xs arbitrary: acc) auto

lemma takeWhile_to: "c \<notin> set n \<Longrightarrow> takeWhile (\<lambda>x. x \<noteq> c) (n @ c # r) = n"
  by (induction n) auto

end
