(* ===== verification/Watchdog.thy ===== *)
theory Watchdog
  imports Transition_Spec Text_Util
begin

text \<open>
  The watchdog of \<open>lib_bsp/watchdog/watchdog.cpp\<close>: modules register a name and a time limit in shared memory and
  feed the dog; a check finds the modules that have not fed it in time. The shared memory is a record with a table
  of 64 modules, \<open>None\<close> while it is not attached; the lock makes every operation atomic, so operations are functions
  on it. The clock is an argument in seconds. Names are arrays of 32 characters: reading one without a terminating
  zero runs past the array and is an error.
\<close>

section \<open>The table of modules\<close>

record TAG_MODULE =
  md_name :: string
  md_registered :: u32
  md_timeout :: u32
  md_last_feed_time :: u32

record TAG_WATCHDOG =
  wd_enable :: bool
  wd_modules :: "TAG_MODULE list"

definition zero_module :: TAG_MODULE where
  "zero_module = \<lparr>md_name = replicate 32 NUL, md_registered = 0, md_timeout = 0, md_last_feed_time = 0\<rparr>"

text \<open>A \<open>std::string\<close> from the name of a module.\<close>

definition name_string :: "TAG_MODULE \<Rightarrow> mem_error + string" where
  "name_string m = (if NUL \<in> set (md_name m) then Inr (cstr (md_name m)) else Inl OutOfBounds)"

fun find_module :: "string \<Rightarrow> nat \<Rightarrow> TAG_MODULE list \<Rightarrow> mem_error + nat option" where
  "find_module name i [] = Inr None"
| "find_module name i (m # ms) =
     bindE (name_string m) (\<lambda>s. if xstr_compare name s = 0 then Inr (Some i) else find_module name (i + 1) ms)"

fun find_free :: "nat \<Rightarrow> TAG_MODULE list \<Rightarrow> nat option" where
  "find_free i [] = None"
| "find_free i (m # ms) = (if md_registered m = 1 then find_free (i + 1) ms else Some i)"

definition wd_timeout :: "u32 \<Rightarrow> u32" where
  "wd_timeout t = (if t < 4 then 20 else t)"

definition Register :: "u32 \<Rightarrow> string \<Rightarrow> u32 \<Rightarrow> TAG_WATCHDOG option \<Rightarrow> mem_error + int \<times> TAG_WATCHDOG option" where
  "Register now mod_name mod_timeout w =
     (case w of
        None \<Rightarrow> Inr (- 1, None)
      | Some d \<Rightarrow>
          bindE (find_module mod_name 0 (wd_modules d)) (\<lambda>found.
            case found of
              Some i \<Rightarrow> Inr (int i, w)
            | None \<Rightarrow>
                (case find_free 0 (wd_modules d) of
                   None \<Rightarrow> Inr (- 1, w)
                 | Some i \<Rightarrow>
                     let m = zero_module\<lparr>md_registered := 1, md_timeout := wd_timeout mod_timeout, md_last_feed_time := now,
                               md_name := safe_memcpy (md_name zero_module) 32 mod_name\<rparr>
                     in Inr (int i, Some (d\<lparr>wd_modules := (wd_modules d)[i := m]\<rparr>)))))"

definition upd_module :: "int \<Rightarrow> (TAG_MODULE \<Rightarrow> TAG_MODULE) \<Rightarrow> TAG_WATCHDOG \<Rightarrow> TAG_WATCHDOG" where
  "upd_module key f d = d\<lparr>wd_modules := (wd_modules d)[nat key := f (wd_modules d ! nat key)]\<rparr>"

definition SetTimeout :: "int \<Rightarrow> u32 \<Rightarrow> TAG_WATCHDOG option \<Rightarrow> int \<times> TAG_WATCHDOG option" where
  "SetTimeout key mod_timeout w =
     (case w of
        None \<Rightarrow> (- 1, None)
      | Some d \<Rightarrow>
          if key < 0 \<or> 64 \<le> key then (- 1, w)
          else if md_registered (wd_modules d ! nat key) \<noteq> 0
          then (0, Some (upd_module key (\<lambda>m. m\<lparr>md_timeout := wd_timeout mod_timeout\<rparr>) d))
          else (- 1, w))"

definition Feeddog :: "u32 \<Rightarrow> int \<Rightarrow> TAG_WATCHDOG option \<Rightarrow> int \<times> TAG_WATCHDOG option" where
  "Feeddog now mod_num w =
     (case w of
        None \<Rightarrow> (- 1, None)
      | Some d \<Rightarrow>
          if mod_num < 0 \<or> 64 \<le> mod_num then (- 1, w)
          else (0, Some (upd_module mod_num (\<lambda>m. m\<lparr>md_last_feed_time := now\<rparr>) d)))"

definition wd_Enable :: "int \<Rightarrow> TAG_WATCHDOG option \<Rightarrow> int \<times> TAG_WATCHDOG option" where
  "wd_Enable enable w =
     (case w of None \<Rightarrow> (- 1, None) | Some d \<Rightarrow> (0, Some (d\<lparr>wd_enable := enable \<noteq> 0\<rparr>)))"

section \<open>The default configuration\<close>

text \<open>A line is \<open>name;timeout\<close>. Modules are stored one after the other without a check of the table's size.\<close>

definition config_line :: "u32 \<Rightarrow> string \<Rightarrow> nat \<times> TAG_MODULE list \<Rightarrow> mem_error + nat \<times> TAG_MODULE list" where
  "config_line now line s =
     (case s of (num, ms) \<Rightarrow>
        if line = [] \<or> hd line = CHR ''#'' \<or> CHR '';'' \<notin> set line then Inr (num, ms)
        else
          let mod_name = takeWhile (\<lambda>c. c \<noteq> CHR '';'') line;
              ntimeout = to_int_value (drop (length mod_name + 1) line)
          in if length mod_name < 32 \<and> 0 < sint ntimeout
             then if num < length ms
                  then Inr (num + 1, ms[num := (ms ! num)\<lparr>md_registered := 1, md_timeout := ntimeout, md_last_feed_time := now,
                                                  md_name := safe_memcpy (md_name (ms ! num)) 32 mod_name\<rparr>])
                  else Inl OutOfBounds
             else Inr (num, ms))"

function config_loop :: "u32 \<Rightarrow> string \<Rightarrow> nat \<times> TAG_MODULE list \<Rightarrow> mem_error + nat \<times> TAG_MODULE list" where
  "config_loop now input s =
     (let (line, rest) = read_line [] input
      in bindE (config_line now line s) (\<lambda>s1. if rest = [] then Inr s1 else config_loop now rest s1))"
  by pat_completeness auto
termination by (relation "measure (\<lambda>(n, i, s). length i)") (auto, metis read_line_rest snd_conv)

declare config_loop.simps [simp del]

text \<open>The file of the configuration, \<open>None\<close> when it cannot be opened.\<close>

definition OnDefaultConfig :: "u32 \<Rightarrow> string option \<Rightarrow> TAG_WATCHDOG \<Rightarrow> mem_error + TAG_WATCHDOG" where
  "OnDefaultConfig now file d =
     (case file of
        None \<Rightarrow> Inr d
      | Some input \<Rightarrow> bindE (config_loop now input (0, wd_modules d)) (\<lambda>(_, ms). Inr (d\<lparr>wd_modules := ms\<rparr>)))"

text \<open>\<open>Init\<close>: the attached memory, \<open>None\<close> when it cannot be attached, and whether the lock was created.\<close>

definition Init :: "u32 \<Rightarrow> string option \<Rightarrow> TAG_WATCHDOG option \<Rightarrow> bool \<Rightarrow> bool \<Rightarrow> mem_error + int \<times> TAG_WATCHDOG option" where
  "Init now file shm mutex_ok breset =
     (case shm of
        None \<Rightarrow> Inr (- 1, None)
      | Some d \<Rightarrow>
          if \<not> mutex_ok then Inr (- 2, None)
          else if \<not> breset then Inr (0, Some d)
          else bindE (OnDefaultConfig now file \<lparr>wd_enable = True, wd_modules = replicate 64 (zero_module\<lparr>md_timeout := 20\<rparr>)\<rparr>)
                 (\<lambda>d1. Inr (0, Some d1)))"

section \<open>Checking\<close>

definition overdue :: "u32 \<Rightarrow> TAG_MODULE \<Rightarrow> bool" where
  "overdue now m \<longleftrightarrow> md_registered m \<noteq> 0 \<and> now - md_last_feed_time m > md_timeout m"

text \<open>
  A buffer of 2048 characters with the offset and the limit that \<open>OnTimeouted\<close> keeps for it. \<open>snprintf\<close> gets the limit
  as a \<open>size_t\<close>, writes at most that many characters with the terminating zero and returns the length it would need.
\<close>

record logbuf =
  lb_text :: string
  lb_offset :: int
  lb_limit :: int

definition log_snprintf :: "string \<Rightarrow> logbuf \<Rightarrow> mem_error + logbuf" where
  "log_snprintf txt b =
     (let lim = nat (lb_limit b mod 2 ^ 64);
          out = (if lim = 0 then [] else take (lim - 1) txt)
      in if lb_offset b < 0 \<or> (0 < lim \<and> 2048 < lb_offset b + int (length out) + 1) then Inl OutOfBounds
         else Inr \<lparr>lb_text = take (nat (lb_offset b)) (lb_text b) @ out,
                   lb_offset = lb_offset b + int (length txt), lb_limit = lb_limit b - int (length txt)\<rparr>)"

definition module_entry :: "u32 \<Rightarrow> TAG_MODULE \<Rightarrow> string" where
  "module_entry now m =
     take 5 (cstr (md_name m)) @ ''['' @ int_str (sint (md_timeout m)) @ '','' @ int_str (sint (now - md_last_feed_time m)) @ ''],''"

fun log_modules :: "u32 \<Rightarrow> TAG_MODULE list \<Rightarrow> logbuf \<Rightarrow> logbuf \<Rightarrow> mem_error + logbuf \<times> logbuf" where
  "log_modules now [] out nor = Inr (out, nor)"
| "log_modules now (m # ms) out nor =
     (if md_registered m = 0 then log_modules now ms out nor
      else if now - md_last_feed_time m > md_timeout m
      then bindE (log_snprintf (module_entry now m) out) (\<lambda>out1. log_modules now ms out1 nor)
      else bindE (log_snprintf (module_entry now m) nor) (\<lambda>nor1. log_modules now ms out nor1))"

text \<open>The two texts that are logged; the final zeros are stored at the offsets.\<close>

definition OnTimeouted :: "u32 \<Rightarrow> TAG_WATCHDOG \<Rightarrow> mem_error + string \<times> string" where
  "OnTimeouted now d =
     (let b = \<lparr>lb_text = [], lb_offset = 0, lb_limit = 2047\<rparr>
      in bindE (log_snprintf ''wdg timeout mod:'' b) (\<lambda>out.
         bindE (log_snprintf ''wdg normal mod:'' b) (\<lambda>nor.
         bindE (log_modules now (wd_modules d) out nor) (\<lambda>(out, nor).
           if 2048 \<le> lb_offset out \<or> 2048 \<le> lb_offset nor then Inl OutOfBounds
           else Inr (lb_text out, lb_text nor)))))"

text \<open>The loop over the modules: the names that are reported.\<close>

fun check_modules :: "u32 \<Rightarrow> TAG_MODULE list \<Rightarrow> mem_error + string list" where
  "check_modules now [] = Inr []"
| "check_modules now (m # ms) =
     (if overdue now m then bindE (name_string m) (\<lambda>n. bindE (check_modules now ms) (\<lambda>ns. Inr (n # ns)))
      else check_modules now ms)"

text \<open>The result of the check, the names that are reported and the texts that are logged.\<close>

definition OnCheckModule :: "u32 \<Rightarrow> TAG_WATCHDOG option \<Rightarrow> mem_error + bool \<times> string list \<times> (string \<times> string) option" where
  "OnCheckModule now w =
     (case w of
        None \<Rightarrow> Inr (False, [], None)
      | Some d \<Rightarrow>
          if \<not> wd_enable d then Inr (False, [], None)
          else bindE (check_modules now (wd_modules d)) (\<lambda>names.
                 if names = [] then Inr (False, [], None)
                 else bindE (OnTimeouted now d) (\<lambda>texts. Inr (True, names, Some texts))))"

section \<open>The table on every reachable state\<close>

text \<open>
  The operations with the arguments that the interface allows: names of 1 to 31 characters without a zero. Each
  operation is one step: \<open>Register\<close> holds the lock, the others write one field of a slot or the switch, without a lock.
\<close>

definition good_name :: "string \<Rightarrow> bool" where
  "good_name n \<longleftrightarrow> n \<noteq> [] \<and> length n < 32 \<and> NUL \<notin> set n"

inductive wd_step :: "TAG_WATCHDOG \<Rightarrow> TAG_WATCHDOG \<Rightarrow> bool" where
  wd_register: "good_name n \<Longrightarrow> Register now n t (Some d) = Inr (k, Some d') \<Longrightarrow> wd_step d d'"
| wd_set_timeout: "SetTimeout k t (Some d) = (r, Some d') \<Longrightarrow> wd_step d d'"
| wd_feed: "Feeddog now k (Some d) = (r, Some d') \<Longrightarrow> wd_step d d'"
| wd_enabled: "wd_Enable e (Some d) = (r, Some d') \<Longrightarrow> wd_step d d'"

text \<open>
  Every slot has a terminated name; a slot is unregistered and without a name, or registered under a good name that
  no other slot has.
\<close>

definition module_ok :: "TAG_MODULE \<Rightarrow> bool" where
  "module_ok m \<longleftrightarrow> length (md_name m) = 32 \<and> NUL \<in> set (md_name m) \<and>
     (md_registered m = 0 \<and> cstr (md_name m) = [] \<or> md_registered m = 1 \<and> good_name (cstr (md_name m)))"

definition wd_inv :: "TAG_WATCHDOG \<Rightarrow> bool" where
  "wd_inv d \<longleftrightarrow> length (wd_modules d) = 64 \<and> (\<forall>m \<in> set (wd_modules d). module_ok m) \<and>
     (\<forall>i < 64. \<forall>j < 64. md_registered (wd_modules d ! i) = 1 \<longrightarrow> md_registered (wd_modules d ! j) = 1 \<longrightarrow>
        cstr (md_name (wd_modules d ! i)) = cstr (md_name (wd_modules d ! j)) \<longrightarrow> i = j)"

text \<open>The table after a reset without a configuration.\<close>

definition wd_start :: TAG_WATCHDOG where
  "wd_start = \<lparr>wd_enable = True, wd_modules = replicate 64 (zero_module\<lparr>md_timeout := 20\<rparr>)\<rparr>"

lemma stored_name:
  assumes "good_name n" "length dst = 32"
  shows "length (safe_memcpy dst 32 n) = 32" "dst = replicate 32 NUL \<Longrightarrow> cstr (safe_memcpy dst 32 n) = n"
    "dst = replicate 32 NUL \<Longrightarrow> NUL \<in> set (safe_memcpy dst 32 n)"
proof -
  have n: "min 32 (length n) = length n" "length n < 32" "NUL \<notin> set n" using assms by (auto simp: good_name_def)
  then show "length (safe_memcpy dst 32 n) = 32" using assms(2) by (simp add: safe_memcpy_def)
  assume dst: "dst = replicate 32 NUL"
  with n have eq: "safe_memcpy dst 32 n = n @ replicate (32 - length n) NUL" by (simp add: safe_memcpy_def)
  have r: "replicate (32 - length n) NUL = NUL # replicate (31 - length n) NUL"
    using n(2) by (cases "32 - length n") auto
  show "NUL \<in> set (safe_memcpy dst 32 n)" unfolding eq r by simp
  show "cstr (safe_memcpy dst 32 n) = n" unfolding eq r by (rule cstr_append [OF n(3)])
qed

text \<open>The searches through the table.\<close>

lemma find_module_ok:
  assumes "\<forall>m \<in> set ms. NUL \<in> set (md_name m)" "NUL \<notin> set n"
  shows "\<exists>r. find_module n i ms = Inr r \<and>
    (case r of None \<Rightarrow> \<forall>m \<in> set ms. cstr (md_name m) \<noteq> n
     | Some j \<Rightarrow> i \<le> j \<and> j - i < length ms \<and> cstr (md_name (ms ! (j - i))) = n)"
  using assms(1)
proof (induction ms arbitrary: i)
  case (Cons m ms)
  show ?case
  proof (cases "cstr (md_name m) = n")
    case True
    with Cons.prems assms(2) show ?thesis by (auto simp: name_string_def)
  next
    case False
    from Cons.IH [of "i + 1"] Cons.prems obtain r where r: "find_module n (i + 1) ms = Inr r"
      "case r of None \<Rightarrow> \<forall>m \<in> set ms. cstr (md_name m) \<noteq> n
       | Some j \<Rightarrow> i + 1 \<le> j \<and> j - (i + 1) < length ms \<and> cstr (md_name (ms ! (j - (i + 1)))) = n" by auto
    have "ms ! (j - (i + 1)) = (m # ms) ! (j - i)" if "i + 1 \<le> j" for j
      using that by (simp add: nth_Cons')
    with r False Cons.prems assms(2) show ?thesis
      by (auto simp: name_string_def split: option.splits)
  qed
qed simp

lemma find_free_ok:
  "case find_free i ms of None \<Rightarrow> \<forall>m \<in> set ms. md_registered m = 1
   | Some j \<Rightarrow> i \<le> j \<and> j - i < length ms \<and> md_registered (ms ! (j - i)) \<noteq> 1 \<and> (\<forall>l < j - i. md_registered (ms ! l) = 1)"
proof (induction ms arbitrary: i)
  case (Cons m ms)
  show ?case
  proof (cases "md_registered m = 1")
    case True
    have "(m # ms) ! (j - i) = ms ! (j - (i + 1))" if "i + 1 \<le> j" for j
      using that by (simp add: nth_Cons')
    moreover have "\<forall>l < j - i. md_registered ((m # ms) ! l) = 1" if "\<forall>l < j - (i + 1). md_registered (ms ! l) = 1" for j
    proof (intro allI impI)
      fix l assume "l < j - i"
      then show "md_registered ((m # ms) ! l) = 1" using that True by (cases l) auto
    qed
    ultimately show ?thesis using Cons [of "i + 1"] True by (auto split: option.splits)
  qed simp
qed simp

definition new_module :: "u32 \<Rightarrow> string \<Rightarrow> u32 \<Rightarrow> TAG_MODULE" where
  "new_module now n t = zero_module\<lparr>md_registered := 1, md_timeout := wd_timeout t, md_last_feed_time := now,
     md_name := safe_memcpy (md_name zero_module) 32 n\<rparr>"

lemma new_module_ok: "good_name n \<Longrightarrow> module_ok (new_module now n t) \<and> cstr (md_name (new_module now n t)) = n"
  using stored_name [of n "replicate 32 NUL"] by (simp add: new_module_def module_ok_def zero_module_def)

lemma inv_module:
  assumes "wd_inv d" "i < 64"
  shows "module_ok (wd_modules d ! i)" "length (wd_modules d) = 64"
    "md_registered (wd_modules d ! i) \<noteq> 1 \<longleftrightarrow> md_registered (wd_modules d ! i) = 0"
    "md_registered (wd_modules d ! i) = 1 \<longleftrightarrow> cstr (md_name (wd_modules d ! i)) \<noteq> []"
proof -
  show m: "module_ok (wd_modules d ! i)" "length (wd_modules d) = 64" using assms by (auto simp: wd_inv_def)
  then show "md_registered (wd_modules d ! i) \<noteq> 1 \<longleftrightarrow> md_registered (wd_modules d ! i) = 0"
    "md_registered (wd_modules d ! i) = 1 \<longleftrightarrow> cstr (md_name (wd_modules d ! i)) \<noteq> []"
    by (auto simp: module_ok_def good_name_def)
qed

lemma Register_known:
  assumes "wd_inv d" "good_name n" "i < 64" "cstr (md_name (wd_modules d ! i)) = n"
  shows "Register now n t (Some d) = Inr (int i, Some d)"
proof -
  have n: "n \<noteq> []" "NUL \<notin> set n" using assms(2) by (auto simp: good_name_def)
  have "\<forall>m \<in> set (wd_modules d). NUL \<in> set (md_name m)" using assms(1) by (auto simp: wd_inv_def module_ok_def)
  from find_module_ok [OF this n(2), of 0] obtain r where r: "find_module n 0 (wd_modules d) = Inr r"
    "case r of None \<Rightarrow> \<forall>m \<in> set (wd_modules d). cstr (md_name m) \<noteq> n
     | Some j \<Rightarrow> j < 64 \<and> cstr (md_name (wd_modules d ! j)) = n" using inv_module(2) [OF assms(1,3)] by (auto split: option.splits)
  have "wd_modules d ! i \<in> set (wd_modules d)" using inv_module(2) [OF assms(1,3)] assms(3) by simp
  with r(2) assms(4) obtain j where j: "r = Some j" "j < 64" "cstr (md_name (wd_modules d ! j)) = n" by (cases r) auto
  have "md_registered (wd_modules d ! i) = 1" "md_registered (wd_modules d ! j) = 1"
    using inv_module(4) [OF assms(1,3)] inv_module(4) [OF assms(1) j(2)] assms(4) j(3) n(1) by auto
  with j assms(1,3,4) have "i = j" unfolding wd_inv_def by blast
  with r(1) j(1) show ?thesis by (simp add: Register_def)
qed

lemma Register_unknown:
  assumes "wd_inv d" "good_name n" "\<And>i. i < 64 \<Longrightarrow> cstr (md_name (wd_modules d ! i)) \<noteq> n"
  shows "(\<exists>i < 64. md_registered (wd_modules d ! i) = 0 \<and> (\<forall>j < i. md_registered (wd_modules d ! j) = 1) \<and>
       Register now n t (Some d) = Inr (int i, Some (d\<lparr>wd_modules := (wd_modules d)[i := new_module now n t]\<rparr>))) \<or>
     ((\<forall>i < 64. md_registered (wd_modules d ! i) = 1) \<and> Register now n t (Some d) = Inr (- 1, Some d))"
proof -
  have n: "NUL \<notin> set n" using assms(2) by (auto simp: good_name_def)
  have len: "length (wd_modules d) = 64" and nul: "\<forall>m \<in> set (wd_modules d). NUL \<in> set (md_name m)"
    using assms(1) by (auto simp: wd_inv_def module_ok_def)
  from find_module_ok [OF nul n, of 0] assms(3) len have f: "find_module n 0 (wd_modules d) = Inr None"
    by (auto split: option.splits)
  show ?thesis
  proof (cases "find_free 0 (wd_modules d)")
    case None
    with find_free_ok [of "wd_modules d" 0] len f show ?thesis by (auto simp: Register_def)
  next
    case (Some i)
    with find_free_ok [of "wd_modules d" 0] len have "i < 64" "md_registered (wd_modules d ! i) \<noteq> 1"
      "\<forall>j < i. md_registered (wd_modules d ! j) = 1" by auto
    with Some f inv_module(3) [OF assms(1)] show ?thesis by (auto simp: Register_def new_module_def Let_def)
  qed
qed

lemma inv_update:
  assumes "wd_inv d" "i < 64" "module_ok m"
    and "\<And>j. j < 64 \<Longrightarrow> j \<noteq> i \<Longrightarrow> md_registered (wd_modules d ! j) = 1 \<Longrightarrow> md_registered m = 1 \<Longrightarrow> cstr (md_name (wd_modules d ! j)) \<noteq> cstr (md_name m)"
  shows "wd_inv (d\<lparr>wd_modules := (wd_modules d)[i := m]\<rparr>)"
proof -
  have "set ((wd_modules d)[i := m]) \<subseteq> insert m (set (wd_modules d))" by (rule set_update_subset_insert)
  moreover have "length (wd_modules d) = 64" using inv_module(2) [OF assms(1,2)] .
  ultimately show ?thesis using assms unfolding wd_inv_def by (auto simp: nth_list_update) metis+
qed

lemma inv_upd_module:
  assumes "wd_inv d" "0 \<le> k" "k < 64" "\<And>m. md_name (f m) = md_name m \<and> md_registered (f m) = md_registered m"
  shows "wd_inv (upd_module k f d)"
proof -
  have k: "nat k < 64" using assms(2,3) by simp
  have "module_ok (f (wd_modules d ! nat k))" using inv_module(1) [OF assms(1) k] assms(4) by (simp add: module_ok_def)
  then show ?thesis unfolding upd_module_def
    using assms(1) k by (intro inv_update) (auto simp: assms(4) wd_inv_def)
qed

interpretation watchdogs: transition_system wd_start wd_step wd_inv
proof
  have "module_ok (zero_module\<lparr>md_timeout := 20\<rparr>)"
    by (simp add: module_ok_def zero_module_def cstr_def eval_nat_numeral)
  then show "wd_inv wd_start" by (auto simp: wd_inv_def wd_start_def zero_module_def)
  fix d d' assume inv: "wd_inv d" and "wd_step d d'"
  from this(2) show "wd_inv d'"
  proof cases
    case (wd_register n now t k)
    show ?thesis
    proof (cases "\<exists>i < 64. cstr (md_name (wd_modules d ! i)) = n")
      case True
      with Register_known [OF inv wd_register(1)] wd_register(2) inv show ?thesis by auto
    next
      case False
      with Register_unknown [OF inv wd_register(1), of now t] wd_register(2) inv new_module_ok [OF wd_register(1), of now t]
      show ?thesis by (auto intro!: inv_update)
    qed
  next
    case (wd_set_timeout k t r)
    with inv inv_upd_module [OF inv] show ?thesis by (auto simp: SetTimeout_def split: if_splits)
  next
    case (wd_feed now k r)
    with inv inv_upd_module [OF inv] show ?thesis by (auto simp: Feeddog_def split: if_splits)
  next
    case (wd_enabled e r)
    with inv show ?thesis by (auto simp: wd_Enable_def wd_inv_def)
  qed
qed

section \<open>Tables with a configuration\<close>

text \<open>
  The server resets the table with \<open>Init\<close> and whatever a configuration file says: it can give two modules the same name, or
  a module an empty one. What is left of the invariant: every name is terminated, and slots that are not registered have no name.
\<close>

inductive wd_run :: "TAG_WATCHDOG \<Rightarrow> TAG_WATCHDOG \<Rightarrow> bool" where
  wd_operation: "wd_step d d' \<Longrightarrow> wd_run d d'"
| wd_reset: "Init now file (Some d) True True = Inr (0, Some d') \<Longrightarrow> wd_run d d'"

definition slot_ok :: "TAG_MODULE \<Rightarrow> bool" where
  "slot_ok m \<longleftrightarrow> length (md_name m) = 32 \<and> NUL \<in> set (md_name m) \<and> (md_registered m = 1 \<or> md_registered m = 0 \<and> cstr (md_name m) = [])"

definition wd_table :: "TAG_WATCHDOG \<Rightarrow> bool" where
  "wd_table d \<longleftrightarrow> length (wd_modules d) = 64 \<and> (\<forall>m \<in> set (wd_modules d). slot_ok m)"

definition free_module :: TAG_MODULE where
  "free_module = zero_module\<lparr>md_timeout := 20\<rparr>"

definition config_ok :: "nat \<times> TAG_MODULE list \<Rightarrow> bool" where
  "config_ok s \<longleftrightarrow> length (snd s) = 64 \<and> (\<forall>i < 64. (i < fst s \<longrightarrow> slot_ok (snd s ! i)) \<and> (fst s \<le> i \<longrightarrow> snd s ! i = free_module))"

lemma slot_ok_free: "slot_ok free_module"
  by (simp add: slot_ok_def free_module_def zero_module_def cstr_def eval_nat_numeral)

lemma slot_ok_named:
  assumes "length n < 32"
  shows "slot_ok (free_module\<lparr>md_registered := 1, md_timeout := t, md_last_feed_time := u, md_name := safe_memcpy (md_name free_module) 32 n\<rparr>)"
proof -
  have "safe_memcpy (md_name free_module) 32 n = n @ replicate (32 - length n) NUL"
    using assms by (simp add: safe_memcpy_def free_module_def zero_module_def min_def)
  then show ?thesis using assms by (simp add: slot_ok_def)
qed

lemma config_line_ok: "config_ok s \<Longrightarrow> config_line now line s = Inr s' \<Longrightarrow> config_ok s'"
  by (cases s) (auto simp: config_ok_def config_line_def Let_def nth_list_update less_Suc_eq slot_ok_named split: if_splits)

lemma config_loop_ok: "config_ok s \<Longrightarrow> config_loop now input s = Inr s' \<Longrightarrow> config_ok s'"
proof (induction now input s rule: config_loop.induct)
  case (1 now input s)
  obtain line rest where l: "read_line [] input = (line, rest)" by (cases "read_line [] input")
  obtain s1 where s1: "config_line now line s = Inr s1" using 1(3) by (cases "config_line now line s") (auto simp: config_loop.simps l)
  then have "config_ok s1" using config_line_ok 1(2) by blast
  then show ?case using 1(1) [OF l [symmetric] refl, of s1] 1(3) s1 by (simp add: config_loop.simps [of now input s] l split: if_splits)
qed

lemma config_ok_table: "config_ok s \<Longrightarrow> wd_table (d\<lparr>wd_modules := snd s\<rparr>)"
  unfolding config_ok_def wd_table_def using slot_ok_free by (auto simp: in_set_conv_nth) (metis not_le)

lemma Init_table: "Init now file (Some d) True True = Inr (0, Some d') \<Longrightarrow> wd_table d'"
proof -
  assume i: "Init now file (Some d) True True = Inr (0, Some d')"
  have start: "config_ok (0, replicate 64 free_module)" by (simp add: config_ok_def)
  show "wd_table d'"
  proof (cases "file")
    case None
    then show ?thesis using i config_ok_table [OF start, of "\<lparr>wd_enable = True, wd_modules = []\<rparr>"]
      by (simp add: Init_def OnDefaultConfig_def free_module_def)
  next
    case (Some input)
    then obtain s where s: "config_loop now input (0, replicate 64 free_module) = Inr s" "d' = \<lparr>wd_enable = True, wd_modules = snd s\<rparr>"
      using i by (cases "config_loop now input (0, replicate 64 free_module)") (auto simp: Init_def OnDefaultConfig_def free_module_def)
    show ?thesis using config_ok_table [OF config_loop_ok [OF start s(1)], of "\<lparr>wd_enable = True, wd_modules = []\<rparr>"] by (simp add: s(2))
  qed
qed

lemma find_module_first:
  "\<lbrakk>\<forall>m \<in> set ms. NUL \<in> set (md_name m); NUL \<notin> set n; j < length ms; cstr (md_name (ms ! j)) = n;
    \<forall>k < j. cstr (md_name (ms ! k)) \<noteq> n\<rbrakk> \<Longrightarrow> find_module n i ms = Inr (Some (i + j))"
proof (induction ms arbitrary: i j)
  case (Cons m ms)
  show ?case
  proof (cases j)
    case (Suc l)
    have "\<forall>k < l. cstr (md_name (ms ! k)) \<noteq> n" using Cons.prems(5) Suc by force
    moreover have "cstr (md_name m) \<noteq> n" using Cons.prems(5) Suc by force
    ultimately show ?thesis using Cons.IH [of l "i + 1"] Cons.prems(1-4) Suc by (auto simp: name_string_def)
  qed (use Cons.prems in \<open>auto simp: name_string_def\<close>)
qed simp

lemma find_module_absent:
  "\<lbrakk>\<forall>m \<in> set ms. NUL \<in> set (md_name m) \<and> cstr (md_name m) \<noteq> n; NUL \<notin> set n\<rbrakk> \<Longrightarrow> find_module n i ms = Inr None"
  by (induction ms arbitrary: i) (auto simp: name_string_def)

lemma find_free_first:
  "\<lbrakk>j < length ms; md_registered (ms ! j) \<noteq> 1; \<forall>k < j. md_registered (ms ! k) = 1\<rbrakk> \<Longrightarrow> find_free i ms = Some (i + j)"
proof (induction ms arbitrary: i j)
  case (Cons m ms)
  show ?case
  proof (cases j)
    case (Suc l)
    have "\<forall>k < l. md_registered (ms ! k) = 1" using Cons.prems(3) Suc by force
    moreover have "md_registered m = 1" using Cons.prems(3) Suc by force
    ultimately show ?thesis using Cons.IH [of l "i + 1"] Cons.prems(1,2) Suc by auto
  qed (use Cons.prems in auto)
qed simp

lemma find_free_full: "\<forall>m \<in> set ms. md_registered m = 1 \<Longrightarrow> find_free i ms = None"
  by (induction ms arbitrary: i) auto

lemma Register_table:
  assumes "wd_table d" "good_name n"
  shows "i < 64 \<Longrightarrow> cstr (md_name (wd_modules d ! i)) = n \<Longrightarrow> \<forall>j < i. cstr (md_name (wd_modules d ! j)) \<noteq> n \<Longrightarrow>
      Register now n t (Some d) = Inr (int i, Some d)"
    and "i < 64 \<Longrightarrow> \<forall>j < 64. cstr (md_name (wd_modules d ! j)) \<noteq> n \<Longrightarrow> md_registered (wd_modules d ! i) = 0 \<Longrightarrow>
      \<forall>j < i. md_registered (wd_modules d ! j) = 1 \<Longrightarrow>
      Register now n t (Some d) = Inr (int i, Some (d\<lparr>wd_modules := (wd_modules d)[i := new_module now n t]\<rparr>))"
    and "\<forall>j < 64. cstr (md_name (wd_modules d ! j)) \<noteq> n \<and> md_registered (wd_modules d ! j) = 1 \<Longrightarrow>
      Register now n t (Some d) = Inr (- 1, Some d)"
proof -
  have n: "NUL \<notin> set n" using assms(2) by (simp add: good_name_def)
  have d: "length (wd_modules d) = 64" "\<forall>m \<in> set (wd_modules d). NUL \<in> set (md_name m)"
    using assms(1) by (auto simp: wd_table_def slot_ok_def)
  show "Register now n t (Some d) = Inr (int i, Some d)"
    if "i < 64" "cstr (md_name (wd_modules d ! i)) = n" "\<forall>j < i. cstr (md_name (wd_modules d ! j)) \<noteq> n"
    using find_module_first [OF d(2) n, of i 0] that d(1) by (simp add: Register_def)
  have absent: "find_module n 0 (wd_modules d) = Inr None" if "\<forall>j < 64. cstr (md_name (wd_modules d ! j)) \<noteq> n"
  proof (rule find_module_absent [OF _ n])
    show "\<forall>m \<in> set (wd_modules d). NUL \<in> set (md_name m) \<and> cstr (md_name m) \<noteq> n"
      using that d by (metis in_set_conv_nth)
  qed
  show "Register now n t (Some d) = Inr (int i, Some (d\<lparr>wd_modules := (wd_modules d)[i := new_module now n t]\<rparr>))"
    if "i < 64" "\<forall>j < 64. cstr (md_name (wd_modules d ! j)) \<noteq> n" "md_registered (wd_modules d ! i) = 0"
      "\<forall>j < i. md_registered (wd_modules d ! j) = 1"
    using absent [OF that(2)] find_free_first [of i "wd_modules d" 0] that d(1) by (simp add: Register_def new_module_def Let_def)
  show "Register now n t (Some d) = Inr (- 1, Some d)"
    if full: "\<forall>j < 64. cstr (md_name (wd_modules d ! j)) \<noteq> n \<and> md_registered (wd_modules d ! j) = 1"
  proof -
    have "\<forall>m \<in> set (wd_modules d). md_registered m = 1" using full d(1) by (metis in_set_conv_nth)
    then show ?thesis using absent find_free_full [of "wd_modules d" 0] full by (simp add: Register_def)
  qed
qed

text \<open>Registration on any table: the three cases are all there are.\<close>

lemma register_cases:
  fixes d :: TAG_WATCHDOG
  obtains (known) i where "i < 64" "cstr (md_name (wd_modules d ! i)) = n" "\<forall>j < i. cstr (md_name (wd_modules d ! j)) \<noteq> n"
  | (new) i where "i < 64" "\<forall>j < 64. cstr (md_name (wd_modules d ! j)) \<noteq> n" "md_registered (wd_modules d ! i) \<noteq> 1"
      "\<forall>j < i. md_registered (wd_modules d ! j) = 1"
  | (full) "\<forall>j < 64. cstr (md_name (wd_modules d ! j)) \<noteq> n \<and> md_registered (wd_modules d ! j) = 1"
proof -
  let ?P = "\<lambda>i. i < 64 \<and> cstr (md_name (wd_modules d ! i)) = n" and ?Q = "\<lambda>i. i < 64 \<and> md_registered (wd_modules d ! i) \<noteq> 1"
  consider "\<exists>i. ?P i" | "\<not> (\<exists>i. ?P i)" "\<exists>i. ?Q i" | "\<not> (\<exists>i. ?P i)" "\<not> (\<exists>i. ?Q i)" by blast
  then show thesis
  proof cases
    case 1
    then obtain i where "?P i" "\<forall>j < i. \<not> ?P j" using exists_least_iff [of ?P] by blast
    then show thesis using known [of i] by auto
  next
    case 2
    from 2(2) obtain i where "?Q i" "\<forall>j < i. \<not> ?Q j" using exists_least_iff [of ?Q] by blast
    then show thesis using new [of i] 2(1) by auto
  next
    case 3
    then show thesis using full by blast
  qed
qed

lemma table_update:
  assumes "wd_table d" "slot_ok m" shows "wd_table (d\<lparr>wd_modules := (wd_modules d)[i := m]\<rparr>)"
  using assms set_update_subset_insert [of "wd_modules d" i m] by (auto simp: wd_table_def)

lemma table_upd_module:
  assumes "wd_table d" "0 \<le> k" "k < 64" "\<And>m. md_name (f m) = md_name m \<and> md_registered (f m) = md_registered m"
  shows "wd_table (upd_module k f d)"
proof -
  have "wd_modules d ! nat k \<in> set (wd_modules d)" using assms(1-3) by (simp add: wd_table_def)
  then show ?thesis using assms(1,4) unfolding upd_module_def
    by (intro table_update) (auto simp: wd_table_def slot_ok_def)
qed

lemma new_module_slot: "good_name n \<Longrightarrow> slot_ok (new_module now n t)"
  using new_module_ok [of n now t] by (auto simp: module_ok_def slot_ok_def)

interpretation wd_runs: transition_system wd_start wd_run wd_table
proof
  show "wd_table wd_start" using slot_ok_free by (simp add: wd_table_def wd_start_def free_module_def)
  fix d d' assume t: "wd_table d" and "wd_run d d'"
  from this(2) show "wd_table d'"
  proof cases
    case wd_operation
    then show ?thesis
    proof cases
      case (wd_register n now t' k)
      show ?thesis
      proof (cases rule: register_cases [of d n])
        case (known i) then show ?thesis using Register_table(1) [OF t wd_register(1)] wd_register(2) t by auto
      next
        case (new i)
        then have "md_registered (wd_modules d ! i) = 0" using t by (auto simp: wd_table_def slot_ok_def)
        then show ?thesis using Register_table(2) [OF t wd_register(1), of i now t'] new wd_register(2) new_module_slot [OF wd_register(1)] t
          by (auto intro: table_update)
      next
        case full then show ?thesis using Register_table(3) [OF t wd_register(1), of now t'] wd_register(2) t by auto
      qed
    next
      case (wd_set_timeout k t' r)
      with t table_upd_module [OF t] show ?thesis by (auto simp: SetTimeout_def split: if_splits)
    next
      case (wd_feed now k r)
      with t table_upd_module [OF t] show ?thesis by (auto simp: Feeddog_def split: if_splits)
    next
      case (wd_enabled e r)
      with t show ?thesis by (auto simp: wd_Enable_def wd_table_def)
    qed
  next
    case (wd_reset now conf)
    then show ?thesis by (rule Init_table)
  qed
qed

section \<open>The texts of a timeout fit their buffers\<close>

lemma length_module_entry: "length (module_entry now m) \<le> 31"
  using length_int_str [of "md_timeout m"] length_int_str [of "now - md_last_feed_time m"] by (simp add: module_entry_def)

definition log_ok :: "logbuf \<Rightarrow> bool" where
  "log_ok b \<longleftrightarrow> lb_offset b = int (length (lb_text b)) \<and> lb_limit b = 2047 - int (length (lb_text b))"

lemma log_snprintf_fits:
  assumes "log_ok b" "length (lb_text b) + length txt < 2047"
  shows "\<exists>b'. log_snprintf txt b = Inr b' \<and> log_ok b' \<and> lb_text b' = lb_text b @ txt"
proof -
  have "nat (lb_limit b mod 2 ^ 64) = 2047 - length (lb_text b)"
    using assms by (simp add: log_ok_def nat_eq_iff)
  with assms show ?thesis by (auto simp: log_snprintf_def log_ok_def Let_def)
qed

lemma log_modules_fit:
  assumes "log_ok out" "log_ok nor" "length (lb_text out) + 31 * length ms < 2047" "length (lb_text nor) + 31 * length ms < 2047"
  shows "\<exists>out' nor'. log_modules now ms out nor = Inr (out', nor') \<and> log_ok out' \<and> log_ok nor' \<and>
    lb_text out' = lb_text out @ concat (map (module_entry now) (filter (overdue now) ms)) \<and>
    lb_text nor' = lb_text nor @ concat (map (module_entry now) (filter (\<lambda>m. md_registered m \<noteq> 0 \<and> \<not> overdue now m) ms)) \<and>
    length (lb_text out') < 2047 \<and> length (lb_text nor') < 2047"
  using assms
proof (induction ms arbitrary: out nor)
  case (Cons m ms)
  let ?e = "module_entry now m"
  have e: "length ?e \<le> 31" by (rule length_module_entry)
  consider "md_registered m = 0" | "overdue now m" "md_registered m \<noteq> 0" | "\<not> overdue now m" "md_registered m \<noteq> 0"
    by (auto simp: overdue_def)
  then show ?case
  proof cases
    case 1
    with Cons.IH [of out nor] Cons.prems show ?thesis by (simp add: overdue_def)
  next
    case 2
    from log_snprintf_fits [OF Cons.prems(1), of ?e] e Cons.prems(3) obtain out1 where o: "log_snprintf ?e out = Inr out1" "log_ok out1"
      "lb_text out1 = lb_text out @ ?e" by auto
    from Cons.IH [OF o(2) Cons.prems(2)] e Cons.prems(3,4) o 2 show ?thesis by (auto simp: overdue_def)
  next
    case 3
    from log_snprintf_fits [OF Cons.prems(2), of ?e] e Cons.prems(4) obtain nor1 where o: "log_snprintf ?e nor = Inr nor1" "log_ok nor1"
      "lb_text nor1 = lb_text nor @ ?e" by auto
    from Cons.IH [OF Cons.prems(1) o(2)] e Cons.prems(3,4) o 3 show ?thesis by (auto simp: overdue_def)
  qed
qed simp

lemma OnTimeouted_texts:
  assumes "length (wd_modules d) = 64"
  shows "OnTimeouted now d = Inr
    (''wdg timeout mod:'' @ concat (map (module_entry now) (filter (overdue now) (wd_modules d))),
     ''wdg normal mod:'' @ concat (map (module_entry now) (filter (\<lambda>m. md_registered m \<noteq> 0 \<and> \<not> overdue now m) (wd_modules d))))"
proof -
  let ?b = "\<lparr>lb_text = [], lb_offset = 0, lb_limit = 2047\<rparr>"
  have b: "log_ok ?b" by (simp add: log_ok_def)
  from log_snprintf_fits [OF b, of "''wdg timeout mod:''"] obtain out where o: "log_snprintf ''wdg timeout mod:'' ?b = Inr out" "log_ok out"
    "lb_text out = ''wdg timeout mod:''" by auto
  from log_snprintf_fits [OF b, of "''wdg normal mod:''"] obtain nor where n: "log_snprintf ''wdg normal mod:'' ?b = Inr nor" "log_ok nor"
    "lb_text nor = ''wdg normal mod:''" by auto
  from log_modules_fit [OF o(2) n(2), of "wd_modules d" now] assms o(3) n(3) obtain out' nor' where
    l: "log_modules now (wd_modules d) out nor = Inr (out', nor')" "log_ok out'" "log_ok nor'"
    "lb_text out' = lb_text out @ concat (map (module_entry now) (filter (overdue now) (wd_modules d)))"
    "lb_text nor' = lb_text nor @ concat (map (module_entry now) (filter (\<lambda>m. md_registered m \<noteq> 0 \<and> \<not> overdue now m) (wd_modules d)))"
    "length (lb_text out') < 2047" "length (lb_text nor') < 2047" by auto
  have "\<not> (2048 \<le> lb_offset out' \<or> 2048 \<le> lb_offset nor')" using l(2,3,6,7) by (simp add: log_ok_def)
  then show ?thesis using o n l(1,4,5) by (simp add: OnTimeouted_def)
qed

lemma check_modules_names:
  "\<forall>m \<in> set ms. NUL \<in> set (md_name m) \<Longrightarrow> check_modules now ms = Inr (map (\<lambda>m. cstr (md_name m)) (filter (overdue now) ms))"
  by (induction ms) (auto simp: name_string_def)

section \<open>Properties\<close>

text \<open>C24. On every reachable table, resets with any configuration file included, \<open>Register\<close> of a name of 1 to 31 characters makes no
  access outside an array and has one of three outcomes. A name that is in the table gets the key of the first slot
  that has it, and nothing changes, not even its time limit. A new name gets the first slot that is not registered, which then has
  this name, is registered and fed now, and has the given time limit, or the default one below the minimum; no other slot changes.
  If the name is new and every slot is registered, the result is \<open>-1\<close> and nothing changes. The first two outcomes are not what the
  comment in \<open>watchdog.h\<close> says: there, registering a known name changes its limit, and keys are greater than 0.\<close>

theorem register_outcomes:
  assumes "reach wd_run wd_start d" "good_name n"
  shows "(\<exists>i < 64. cstr (md_name (wd_modules d ! i)) = n \<and> (\<forall>j < i. cstr (md_name (wd_modules d ! j)) \<noteq> n) \<and>
        Register now n t (Some d) = Inr (int i, Some d)) \<or>
     (\<exists>i < 64. (\<forall>j < 64. cstr (md_name (wd_modules d ! j)) \<noteq> n) \<and> md_registered (wd_modules d ! i) = 0 \<and>
        (\<forall>j < i. md_registered (wd_modules d ! j) = 1) \<and>
        (\<exists>m. Register now n t (Some d) = Inr (int i, Some (d\<lparr>wd_modules := (wd_modules d)[i := m]\<rparr>)) \<and> cstr (md_name m) = n \<and>
           md_registered m = 1 \<and> md_last_feed_time m = now \<and> md_timeout m = (if t < 4 then 20 else t))) \<or>
     ((\<forall>i < 64. md_registered (wd_modules d ! i) = 1 \<and> cstr (md_name (wd_modules d ! i)) \<noteq> n) \<and>
        Register now n t (Some d) = Inr (- 1, Some d))"
proof -
  have w: "wd_table d" using assms(1) by (rule wd_runs.reach_inv)
  have m: "cstr (md_name (new_module now n t)) = n" "md_registered (new_module now n t) = 1" "md_last_feed_time (new_module now n t) = now"
    "md_timeout (new_module now n t) = (if t < 4 then 20 else t)"
    using new_module_ok [OF assms(2)] by (simp_all add: new_module_def wd_timeout_def)
  show ?thesis
  proof (cases rule: register_cases [of d n])
    case (known i)
    then show ?thesis using Register_table(1) [OF w assms(2)] by blast
  next
    case (new i)
    then have z: "md_registered (wd_modules d ! i) = 0" using w by (auto simp: wd_table_def slot_ok_def)
    show ?thesis using Register_table(2) [OF w assms(2) new(1,2) z new(4), of now t] new z m by blast
  next
    case full
    then show ?thesis using Register_table(3) [OF w assms(2) full] by blast
  qed
qed

text \<open>The same name twice: the second registration gets the first key and does not change the limit.\<close>

theorem register_outcomes_witness:
  "\<exists>d. Register 7 ''nav'' 9 (Some wd_start) = Inr (0, Some d) \<and> md_timeout (wd_modules d ! 0) = 9 \<and>
     Register 8 ''nav'' 30 (Some d) = Inr (0, Some d)"
proof -
  have g: "good_name ''nav''" by (simp add: good_name_def)
  have z: "wd_modules wd_start ! i = free_module" if "i < 64" for i using that by (simp add: wd_start_def free_module_def)
  have f: "cstr (md_name free_module) = []" "md_registered free_module = 0"
    by (simp_all add: free_module_def zero_module_def cstr_def eval_nat_numeral)
  have some_slot: "\<exists>i. i < (64 :: nat)" by (rule exI [of _ 0]) simp
  obtain m i where m: "i < 64" "\<forall>j < i. md_registered (wd_modules wd_start ! j) = 1"
    "Register 7 ''nav'' 9 (Some wd_start) = Inr (int i, Some (wd_start\<lparr>wd_modules := (wd_modules wd_start)[i := m]\<rparr>))"
    "cstr (md_name m) = ''nav''" "md_timeout m = 9"
    using register_outcomes [OF reach_refl g, of 7 9] some_slot by (auto simp: z f)
  have "i = 0" using m(1,2) by (cases "i = 0") (auto simp: z f)
  let ?d = "wd_start\<lparr>wd_modules := (wd_modules wd_start)[0 := m]\<rparr>"
  have r: "Register 7 ''nav'' 9 (Some wd_start) = Inr (0, Some ?d)" using m(3) \<open>i = 0\<close> by simp
  have len: "length (wd_modules wd_start) = 64" by (simp add: wd_start_def)
  have "reach wd_run wd_start ?d" by (intro reach_step [OF reach_refl] wd_operation wd_register) (use g r in auto)
  note two = register_outcomes [OF this g, of 8 30]
  have n0: "cstr (md_name (wd_modules ?d ! 0)) = ''nav''" and "(0 :: nat) < 64" using m(4) len by simp_all
  then obtain k where k: "\<forall>j < k. cstr (md_name (wd_modules ?d ! j)) \<noteq> ''nav''" "Register 8 ''nav'' 30 (Some ?d) = Inr (int k, Some ?d)"
    using two by blast
  have "k = 0" using k(1) n0 by (cases "k = 0") auto
  then have "Register 8 ''nav'' 30 (Some ?d) = Inr (0, Some ?d)" using k(2) by simp
  then show ?thesis using r m(5) len by (intro exI [of _ ?d]) simp
qed

text \<open>C23. On every reachable table, resets with a configuration file included, the check reports exactly the registered modules that were last fed longer ago
  than their limit, by the difference of the 32-bit clock that also holds across its wrap-around, when the watchdog
  is enabled, and none when it is not. The texts that it logs name every module and never leave their buffers.\<close>

theorem check_reports_overdue:
  fixes now :: u32
  assumes "reach wd_run wd_start d"
  defines "late \<equiv> filter (\<lambda>m. md_registered m = 1 \<and> now - md_last_feed_time m > md_timeout m) (wd_modules d)"
    and "fed \<equiv> filter (\<lambda>m. md_registered m = 1 \<and> now - md_last_feed_time m \<le> md_timeout m) (wd_modules d)"
  shows "OnCheckModule now (Some d) =
    (if wd_enable d \<and> late \<noteq> []
     then Inr (True, map (\<lambda>m. cstr (md_name m)) late,
            Some (''wdg timeout mod:'' @ concat (map (module_entry now) late), ''wdg normal mod:'' @ concat (map (module_entry now) fed)))
     else Inr (False, [], None))"
proof -
  have inv: "wd_table d" using wd_runs.reach_inv [OF assms(1)] .
  then have ok: "\<forall>m \<in> set (wd_modules d). NUL \<in> set (md_name m) \<and> (md_registered m \<noteq> 0 \<longleftrightarrow> md_registered m = 1)"
    by (auto simp: wd_table_def slot_ok_def)
  have "filter (overdue now) (wd_modules d) = late"
    unfolding late_def using ok by (intro filter_cong) (auto simp: overdue_def)
  moreover have "filter (\<lambda>m. md_registered m \<noteq> 0 \<and> \<not> overdue now m) (wd_modules d) = fed"
    unfolding fed_def using ok by (intro filter_cong) (auto simp: overdue_def not_less)
  ultimately show ?thesis
    using check_modules_names [of "wd_modules d" now] ok OnTimeouted_texts [of d now] inv
    by (auto simp: OnCheckModule_def wd_table_def)
qed

theorem check_reports_overdue_witness:
  "let d = wd_start\<lparr>wd_modules := (wd_modules wd_start)[0 := new_module 0xFFFFFFFE ''nav'' 5]\<rparr>
   in (\<exists>ts. OnCheckModule 4 (Some d) = Inr (True, [''nav''], Some ts)) \<and> OnCheckModule 3 (Some d) = Inr (False, [], None)"
proof -
  let ?m = "new_module 0xFFFFFFFE ''nav'' 5"
  let ?d = "wd_start\<lparr>wd_modules := (wd_modules wd_start)[0 := ?m]\<rparr>"
  have "Register 0xFFFFFFFE ''nav'' 5 (Some wd_start) = Inr (0, Some ?d)"
  proof -
    have r: "wd_modules wd_start ! i = zero_module\<lparr>md_timeout := 20\<rparr>" if "i < 64" for i using that by (simp add: wd_start_def)
    have "cstr (md_name (zero_module\<lparr>md_timeout := 20\<rparr>)) = []" by (simp add: zero_module_def cstr_def eval_nat_numeral)
    then have "cstr (md_name (wd_modules wd_start ! i)) \<noteq> ''nav''" if "i < 64" for i using that by (simp add: r)
    moreover have "md_registered (wd_modules wd_start ! i) = 0" if "i < 64" for i using that by (simp add: r zero_module_def)
    ultimately show ?thesis
      using Register_unknown [of wd_start "''nav''" "0xFFFFFFFE" 5] watchdogs.start_inv by (fastforce simp: good_name_def)
  qed
  then have reach: "reach wd_run wd_start ?d"
    by (intro reach_step [OF reach_refl] wd_operation wd_register) (auto simp: good_name_def)
  have ms: "wd_modules ?d = ?m # replicate 63 (zero_module\<lparr>md_timeout := 20\<rparr>)" by (simp add: wd_start_def eval_nat_numeral)
  have m: "md_registered ?m = 1" "md_timeout ?m = 5" "md_last_feed_time ?m = 0xFFFFFFFE" "cstr (md_name ?m) = ''nav''"
    "md_registered (zero_module\<lparr>md_timeout := 20\<rparr>) = 0"
    using new_module_ok [of "''nav''" "0xFFFFFFFE" 5] by (simp_all add: new_module_def wd_timeout_def zero_module_def good_name_def)
  have en: "wd_enable ?d" by (simp add: wd_start_def)
  have "\<exists>ts. OnCheckModule 4 (Some ?d) = Inr (True, [''nav''], Some ts)"
    using check_reports_overdue [OF reach, of 4] en unfolding ms by (simp add: m)
  moreover have "OnCheckModule 3 (Some ?d) = Inr (False, [], None)"
    using check_reports_overdue [OF reach, of 3] en unfolding ms by (simp add: m)
  ultimately show ?thesis by simp
qed

section \<open>Writing and reading a configuration\<close>

definition config_text :: "(string \<times> nat) list \<Rightarrow> string" where
  "config_text ms = concat (map (\<lambda>(n, t). n @ '';'' @ nat_str t @ [LF]) ms)"

definition config_name :: "string \<Rightarrow> bool" where
  "config_name n \<longleftrightarrow> good_name n \<and> hd n \<noteq> CHR ''#'' \<and> CHR '';'' \<notin> set n \<and> LF \<notin> set n"

definition config_module :: "u32 \<Rightarrow> TAG_MODULE \<Rightarrow> string \<times> nat \<Rightarrow> TAG_MODULE" where
  "config_module now z p = z\<lparr>md_registered := 1, md_timeout := of_nat (snd p), md_last_feed_time := now,
     md_name := safe_memcpy (md_name z) 32 (fst p)\<rparr>"

definition config_entry :: "string \<times> nat \<Rightarrow> bool" where
  "config_entry p \<longleftrightarrow> config_name (fst p) \<and> 0 < snd p \<and> snd p < 2 ^ 31"

lemma config_line_entry:
  assumes "config_entry p"
  shows "config_line now (fst p @ '';'' @ nat_str (snd p)) (length pre, pre @ post) =
    (case post of [] \<Rightarrow> Inl OutOfBounds | z # zs \<Rightarrow> Inr (length (pre @ [z]), (pre @ [config_module now z p]) @ zs))"
proof -
  let ?n = "fst p" and ?line = "fst p @ '';'' @ nat_str (snd p)"
  have n: "?n \<noteq> []" "length ?n < 32" "hd ?n \<noteq> CHR ''#''" "CHR '';'' \<notin> set ?n" using assms by (auto simp: config_entry_def config_name_def good_name_def)
  have t: "to_int_value (nat_str (snd p)) = of_nat (snd p)" "0 < sint (of_nat (snd p) :: u32)"
    using assms to_int_nat_str [of "snd p"] by (simp_all add: config_entry_def sint_of_nat_small)
  have line: "?line \<noteq> []" "hd ?line \<noteq> CHR ''#''" "CHR '';'' \<in> set ?line" using n by simp_all
  show ?thesis using n t line by (cases post) (simp_all add: config_line_def takeWhile_to Let_def config_module_def nth_append)
qed

lemma config_loop_Nil: "config_loop now [] s = Inr s"
  by (simp add: config_loop.simps config_line_def split: prod.splits)

lemma config_loop_text:
  assumes "\<forall>p \<in> set ms. config_entry p"
  shows "config_loop now (config_text ms) (length pre, pre @ replicate k z) =
    (if length ms \<le> k then Inr (length pre + length ms, pre @ map (config_module now z) ms @ replicate (k - length ms) z)
     else Inl OutOfBounds)"
  using assms
proof (induction ms arbitrary: pre k)
  case Nil
  then show ?case by (simp add: config_text_def config_loop_Nil)
next
  case (Cons p ms)
  let ?line = "fst p @ '';'' @ nat_str (snd p)"
  have p: "config_entry p" using Cons.prems by simp
  have digits: "\<forall>c \<in> set (nat_str (snd p)). is_digit c" using nat_str_digits by blast
  then have "LF \<notin> set ?line" "NUL \<notin> set ?line" using p not_digits(1,2) by (auto simp: config_entry_def config_name_def good_name_def)
  moreover have "is_digit (last (nat_str (snd p)))" using digits last_in_set [OF nat_str_ne] by blast
  then have "last ?line \<noteq> CR" using nat_str_ne not_digits(3) by (auto simp: last_append)
  moreover have "config_text (p # ms) = ?line @ LF # config_text ms" by (cases p) (simp add: config_text_def)
  ultimately have r: "read_line [] (config_text (p # ms)) = (?line, config_text ms)" using read_line_entry [of ?line "[]"] by simp
  have step: "config_loop now (config_text (p # ms)) s = bindE (config_line now ?line s) (config_loop now (config_text ms))" for s
  proof -
    have "(\<lambda>s1. if config_text ms = [] then Inr s1 else config_loop now (config_text ms) s1) = config_loop now (config_text ms)"
      by (auto simp: fun_eq_iff config_loop_Nil)
    then show ?thesis by (subst config_loop.simps) (simp add: r)
  qed
  show ?case
  proof (cases k)
    case 0
    then show ?thesis using config_line_entry [OF p, of now pre "[]"] by (simp add: step)
  next
    case (Suc j)
    have "config_line now ?line (length pre, pre @ replicate k z) =
      Inr (length (pre @ [config_module now z p]), (pre @ [config_module now z p]) @ replicate j z)"
      using config_line_entry [OF p, of now pre "z # replicate j z"] Suc by simp
    with Cons.IH [of "pre @ [config_module now z p]" j] Cons.prems Suc show ?thesis by (simp add: step)
  qed
qed

text \<open>C25. Resetting the watchdog with a configuration file gives exactly the modules of the file, in their order, with
  their names and limits, and the other slots free; a file with more than 64 modules writes past the table.\<close>

theorem config_roundtrip:
  assumes "\<forall>p \<in> set ms. config_entry p"
  shows "(length ms \<le> 64 \<longrightarrow> (\<exists>d'. Init now (Some (config_text ms)) (Some d) True True = Inr (0, Some d') \<and> wd_enable d' \<and>
      map (\<lambda>m. (cstr (md_name m), unat (md_timeout m))) (filter (\<lambda>m. md_registered m = 1) (wd_modules d')) = ms \<and>
      length (wd_modules d') = 64)) \<and>
    (64 < length ms \<longrightarrow> Init now (Some (config_text ms)) (Some d) True True = Inl OutOfBounds)"
proof -
  let ?z = "zero_module\<lparr>md_timeout := 20\<rparr>"
  note l = config_loop_text [OF assms, of now "[]" 64 ?z, simplified]
  have z: "md_registered ?z = 0" by (simp add: zero_module_def)
  have m: "cstr (md_name (config_module now ?z p)) = fst p" "unat (md_timeout (config_module now ?z p)) = snd p"
    "md_registered (config_module now ?z p) = 1" if "p \<in> set ms" for p
    using assms that stored_name(2) [of "fst p" "replicate 32 NUL"]
    by (auto simp: config_entry_def config_name_def config_module_def zero_module_def unsigned_of_nat take_bit_nat_eq_self)
  have "filter (\<lambda>m. md_registered m = 1) (map (config_module now ?z) ms @ replicate n ?z) = map (config_module now ?z) ms" for n
    using z m(3) by (simp add: filter_replicate filter_id_conv)
  moreover have "map (\<lambda>m. (cstr (md_name m), unat (md_timeout m))) (map (config_module now ?z) ms) = ms"
    using m by (simp add: comp_def map_idI)
  ultimately show ?thesis by (simp add: Init_def OnDefaultConfig_def l)
qed

theorem config_roundtrip_witness:
  "\<exists>d'. Init 7 (Some (config_text [(''nav'', 15), (''net'', 30)])) (Some wd_start) True True = Inr (0, Some d') \<and>
     map (\<lambda>m. (cstr (md_name m), unat (md_timeout m))) (filter (\<lambda>m. md_registered m = 1) (wd_modules d')) = [(''nav'', 15), (''net'', 30)]"
  using config_roundtrip [of "[(''nav'', 15), (''net'', 30)]" 7 wd_start]
  by (auto simp: config_entry_def config_name_def good_name_def)

text \<open>A name of 32 or more characters fills the array without a terminating zero, so the next search through the
  table reads past it; the interface promises to cut such names.\<close>

lemma long_name_overreads:
  assumes "32 \<le> length n" "NUL \<notin> set n"
  shows "name_string (new_module now n t) = Inl OutOfBounds"
proof -
  have "set (take 32 n) \<subseteq> set n" by (rule set_take_subset)
  with assms show ?thesis by (auto simp: name_string_def new_module_def safe_memcpy_def zero_module_def min_def)
qed

end
