(* ===== verification/Base64.thy ===== *)
theory Base64
  imports Mem_Buffer
begin

text \<open>
  Base64 from \<open>lib_bsp/eventservice/util/base64.cpp\<close>: the encoders from an array and from the blocks of a
  \<open>MemBuffer\<close>, and the decoder with its flags. A position in the input of the decoder is the suffix of the input that
  starts there; \<open>qbuf\<close> is the list of the values accepted so far, which the code fills up with zeros at the end. All
  encoders run one loop, which reads an array of bytes from \<open>j\<close> while \<open>j < stop\<close> and looks at a following byte when its
  index is below \<open>lim\<close>; only the encoder of a whole \<open>MemBuffer\<close> has different bounds there. A read outside the array is
  an error. The reference encoder goes over the bytes three at a time.
\<close>

section \<open>Tables\<close>

abbreviation kPad :: char where "kPad \<equiv> CHR ''=''"
abbreviation pd :: byte where "pd \<equiv> 0xFD"
abbreviation sp :: byte where "sp \<equiv> 0xFE"
abbreviation il :: byte where "il \<equiv> 0xFF"

definition Base64Table :: string where
  "Base64Table = ''ABCDEFGHIJKLMNOPQRSTUVWXYZabcdefghijklmnopqrstuvwxyz0123456789+/''"

definition DecodeTable :: "byte list" where
  "DecodeTable =
    [il, il, il, il, il, il, il, il, il, sp,
     sp, sp, sp, sp, il, il, il, il, il, il,
     il, il, il, il, il, il, il, il, il, il,
     il, il, sp, il, il, il, il, il, il, il,
     il, il, il, 62, il, il, il, 63, 52, 53,
     54, 55, 56, 57, 58, 59, 60, 61, il, il,
     il, pd, il, il, il, 0, 1, 2, 3, 4,
     5, 6, 7, 8, 9, 10, 11, 12, 13, 14,
     15, 16, 17, 18, 19, 20, 21, 22, 23, 24,
     25, il, il, il, il, il, il, 26, 27, 28,
     29, 30, 31, 32, 33, 34, 35, 36, 37, 38,
     39, 40, 41, 42, 43, 44, 45, 46, 47, 48,
     49, 50, 51, il, il, il, il, il, il, il] @ replicate 126 il"

definition b64_char :: "byte \<Rightarrow> char" where
  "b64_char c = Base64Table ! unat c"

definition decode_char :: "char \<Rightarrow> byte" where
  "decode_char ch = DecodeTable ! of_char ch"

definition IsBase64Char :: "char \<Rightarrow> bool" where
  "IsBase64Char ch \<longleftrightarrow>
     (let v = (of_char ch :: nat) in 65 \<le> v \<and> v \<le> 90 \<or> 97 \<le> v \<and> v \<le> 122 \<or> 48 \<le> v \<and> v \<le> 57 \<or>
        ch = CHR ''+'' \<or> ch = CHR ''/'' \<or> ch = CHR ''='')"

text \<open>\<open>strchr\<close> finds the terminating zero too; then the byte after the array is read.\<close>

definition GetNextBase64Char :: "char \<Rightarrow> mem_error + char option" where
  "GetNextBase64Char ch =
     (if ch = CHR 0x00 then Inl OutOfBounds
      else case dropWhile (\<lambda>c. c \<noteq> ch) Base64Table of
             [] \<Rightarrow> Inr None
           | p # ps \<Rightarrow> Inr (Some (case ps of [] \<Rightarrow> Base64Table ! 0 | n # _ \<Rightarrow> n)))"

definition IsBase64Encoded :: "string \<Rightarrow> bool" where
  "IsBase64Encoded str \<longleftrightarrow> list_all IsBase64Char str"

definition CalcDstSize :: "u32 \<Rightarrow> u32" where
  "CalcDstSize n = (n + 2) div 3 * 4"

definition CalcSrcSize :: "u32 \<Rightarrow> u32" where
  "CalcSrcSize n = (let src_size = n * 3 div 4 in src_size - src_size mod 3)"

section \<open>Encoding\<close>

text \<open>One turn of the loop: the four characters of the quantum at \<open>j\<close> and the index after it.\<close>

definition enc_turn :: "nat \<Rightarrow> byte list \<Rightarrow> nat \<Rightarrow> mem_error + string \<times> nat" where
  "enc_turn lim arr j =
     (if j \<ge> length arr \<or> j + 1 < lim \<and> j + 1 \<ge> length arr \<or> j + 2 < lim \<and> j + 2 \<ge> length arr then Inl OutOfBounds
      else let c1 = drop_bit 2 (arr ! j) AND 0x3f;
               c2 = (push_bit 4 (arr ! j) AND 0x3f) OR (if j + 1 < lim then drop_bit 4 (arr ! (j + 1)) AND 0x0f else 0);
               c3 = (push_bit 2 (arr ! (j + 1)) AND 0x3f) OR (if j + 2 < lim then drop_bit 6 (arr ! (j + 2)) AND 0x03 else 0)
           in Inr ([b64_char c1, b64_char c2, if j + 1 < lim then b64_char c3 else kPad,
                    if j + 2 < lim then b64_char (arr ! (j + 2) AND 0x3f) else kPad],
                   if j + 2 < lim then j + 3 else if j + 1 < lim then j + 2 else j + 1))"

function enc_loop :: "nat \<Rightarrow> nat \<Rightarrow> byte list \<Rightarrow> nat \<Rightarrow> mem_error + string" where
  "enc_loop stop lim arr j =
     (if j < stop then (case enc_turn lim arr j of Inl e \<Rightarrow> Inl e
                        | Inr (s, j') \<Rightarrow> bindE (enc_loop stop lim arr j') (\<lambda>r. Inr (s @ r)))
      else Inr [])"
  by pat_completeness auto
termination
  by (relation "measure (\<lambda>(s, l, a, j). s - j)") (auto simp: enc_turn_def Let_def split: if_splits)

declare enc_loop.simps [simp del]

text \<open>
  \<open>EncodeFromArray\<close> into a buffer of the caller. The size that is checked is an \<open>int\<close> and is compared as a \<open>size_t\<close>; the
  buffer itself may be shorter.
\<close>

definition EncodeFromArray_buf :: "byte list option \<Rightarrow> string option \<Rightarrow> int \<Rightarrow> mem_error + int \<times> string option" where
  "EncodeFromArray_buf data result buf_size =
     (case (data, result) of
        (Some d, Some r) \<Rightarrow>
          if d = [] \<or> nat (buf_size mod 2 ^ 64) < (length d + 2) div 3 * 4 then Inr (- 1, Some r)
          else bindE (enc_loop (length d) (length d) d 0) (\<lambda>s.
                 bindE (copy_in r 0 s) (\<lambda>r'. Inr (int ((length d + 2) div 3 * 4), Some r')))
      | _ \<Rightarrow> Inr (- 1, result))"

definition EncodeFromArray_str :: "byte list \<Rightarrow> mem_error + string" where
  "EncodeFromArray_str d =
     (let buf_size = (length d + 2) div 3 * 4
      in bindE (EncodeFromArray_buf (Some d) (Some (replicate buf_size (CHR 0x00))) (to_int32 buf_size))
           (\<lambda>(r, s). Inr (the s)))"

text \<open>
  The encoder of a \<open>MemBuffer\<close> from an offset: a block is its array and the number of bytes in use. The result is the
  string after the offset; it is not longer than the size it was given.
\<close>

fun enc_blocks :: "nat \<Rightarrow> nat \<Rightarrow> (byte list \<times> nat) list \<Rightarrow> mem_error + string" where
  "enc_blocks nData i [] = Inr []"
| "enc_blocks nData i ((arr, cur_blk_size) # blks) =
     (if i < nData
      then bindE (enc_loop cur_blk_size nData arr 0) (\<lambda>s.
             bindE (enc_blocks nData (i + cur_blk_size) blks) (\<lambda>r. Inr (s @ r)))
      else Inr [])"

definition EncodeFromArray_offset :: "(byte list \<times> nat) list \<Rightarrow> string \<Rightarrow> nat \<Rightarrow> mem_error + string" where
  "EncodeFromArray_offset blks result offset =
     (let nData = sum_list (map snd blks);
          n = offset + (nData + 2) div 3 * 4
      in bindE (enc_blocks nData 0 blks) (\<lambda>s.
           copy_in (take n result @ replicate (n - length result) (CHR 0x00)) offset s))"

text \<open>The encoder of a range of blocks. The loop over the blocks ends before the first block when the range does not start there.\<close>

fun enc_range :: "nat \<Rightarrow> nat \<Rightarrow> nat \<Rightarrow> (byte list \<times> nat) list \<Rightarrow> mem_error + nat \<times> string" where
  "enc_range start_block end_block count [] = Inr (0, [])"
| "enc_range start_block end_block count ((arr, blk_size) # blks) =
     (if count < start_block \<or> count > end_block then Inr (0, [])
      else bindE (enc_loop blk_size blk_size arr 0) (\<lambda>s.
             bindE (enc_range start_block end_block (count + 1) blks) (\<lambda>(total, r). Inr (blk_size + total, s @ r))))"

definition EncodeFromArray_range :: "(byte list \<times> nat) list \<Rightarrow> nat \<Rightarrow> nat \<Rightarrow> mem_error + string" where
  "EncodeFromArray_range blks start_block end_block =
     (let blocks_len = (end_block - start_block + 1) * DEFAULT_BLOCK_SIZE
      in bindE (enc_range start_block end_block 0 blks) (\<lambda>(src_total_size, s).
           bindE (copy_in (replicate ((blocks_len + 2) div 3 * 4) (CHR 0x00)) 0 s) (\<lambda>r.
             let n = (src_total_size + 2) div 3 * 4 in Inr (take n r @ replicate (n - length r) (CHR 0x00)))))"

text \<open>The encoder into the blocks of a \<open>MemBuffer\<close>: the data pointer moves by \<open>i\<close> segments in turn \<open>i\<close>.\<close>

definition max_seg_len :: nat where
  "max_seg_len = DEFAULT_BLOCK_SIZE div 4 * 3"

fun enc_segments :: "byte list \<Rightarrow> nat list \<Rightarrow> nat \<Rightarrow> u32 \<Rightarrow> mem_error + string list" where
  "enc_segments data [] pos left_len = Inr []"
| "enc_segments data (i # is) pos left_len =
     (let pos = pos + i * max_seg_len;
          left_len = left_len - of_nat (i * max_seg_len);
          curr_seg_len = (if unat left_len > max_seg_len then max_seg_len else unat left_len)
      in bindE (enc_loop curr_seg_len curr_seg_len (drop pos data) 0) (\<lambda>block.
           bindE (enc_segments data is pos left_len) (\<lambda>blocks. Inr (block # blocks))))"

definition EncodeFromArray_mem :: "byte list \<Rightarrow> mem_error + string list" where
  "EncodeFromArray_mem data =
     (let len = length data;
          seg_num = (if len mod max_seg_len \<noteq> 0 then len div max_seg_len + 1 else len div max_seg_len)
      in enc_segments data [0..<seg_num] 0 (of_nat len))"

section \<open>Decoding\<close>

datatype parse_flag = DO_PARSE_STRICT | DO_PARSE_WHITE | DO_PARSE_ANY
datatype pad_flag = DO_PAD_YES | DO_PAD_ANY | DO_PAD_NO
datatype term_flag = DO_TERM_BUFFER | DO_TERM_CHAR | DO_TERM_ANY

fun quantum_loop :: "parse_flag \<Rightarrow> bool \<Rightarrow> byte list \<Rightarrow> nat \<Rightarrow> string \<Rightarrow> string \<Rightarrow> byte list \<times> nat \<times> string \<times> string" where
  "quantum_loop pf illegal_pads q pad_len pad_start [] = (q, pad_len, pad_start, [])"
| "quantum_loop pf illegal_pads q pad_len pad_start (ch # rest) =
     (let v = decode_char ch; stay = (q, pad_len, pad_start, ch # rest)
      in if \<not> length q < 4 then stay
         else if v = il \<or> illegal_pads \<and> v = pd
         then if pf \<noteq> DO_PARSE_ANY then stay else quantum_loop pf illegal_pads q pad_len pad_start rest
         else if v = sp
         then if pf = DO_PARSE_STRICT then stay else quantum_loop pf illegal_pads q pad_len pad_start rest
         else if v = pd
         then if length q < 2
              then if pf \<noteq> DO_PARSE_ANY then stay else quantum_loop pf illegal_pads q pad_len pad_start rest
              else if length q + pad_len \<ge> 4
              then if pf \<noteq> DO_PARSE_ANY then stay else quantum_loop pf illegal_pads q pad_len pad_start rest
              else quantum_loop pf illegal_pads q (pad_len + 1) (if pad_len = 0 then ch # rest else pad_start) rest
         else if pad_len > 0 \<and> pf \<noteq> DO_PARSE_ANY then stay
         else quantum_loop pf illegal_pads (q @ [v]) 0 pad_start rest)"

definition GetNextQuantum :: "parse_flag \<Rightarrow> bool \<Rightarrow> string \<Rightarrow> byte list \<times> bool \<times> string" where
  "GetNextQuantum pf illegal_pads data =
     (case quantum_loop pf illegal_pads [] 0 [] data of (q, pad_len, pad_start, rest) \<Rightarrow>
        let padded = (length q + pad_len = 4)
        in (q, padded, if \<not> padded \<and> pad_len > 0 then pad_start else rest))"

text \<open>The bytes of a quantum and what is left in \<open>c\<close>.\<close>

definition dec_quantum :: "byte list \<Rightarrow> byte list \<times> byte" where
  "dec_quantum q =
     (let qb = q @ replicate (4 - length q) 0; qlen = length q;
          c0 = push_bit 2 (qb ! 0) OR (drop_bit 4 (qb ! 1) AND 0x3);
          c1 = (push_bit 4 (qb ! 1) AND 0xf0) OR (drop_bit 2 (qb ! 2) AND 0xf);
          c2 = (push_bit 6 (qb ! 2) AND 0xc0) OR qb ! 3
      in if qlen \<ge> 4 then ([c0, c1, c2], 0) else if qlen = 3 then ([c0, c1], c2) else if qlen = 2 then ([c0], c1) else ([], c0))"

lemma quantum_loop_cases:
  assumes "quantum_loop pf ip q p ps (ch # cs) = R"
  obtains "R = (q, p, ps, ch # cs)"
  | "length q < 4" "quantum_loop pf ip q p ps cs = R"
  | ps' where "length q < 4" "quantum_loop pf ip q (p + 1) ps' cs = R"
  | "length q < 4" "quantum_loop pf ip (q @ [decode_char ch]) 0 ps cs = R"
proof -
  have "R = (q, p, ps, ch # cs) \<or> length q < 4 \<and> quantum_loop pf ip q p ps cs = R \<or>
      length q < 4 \<and> quantum_loop pf ip q (p + 1) (if p = 0 then ch # cs else ps) cs = R \<or>
      length q < 4 \<and> quantum_loop pf ip (q @ [decode_char ch]) 0 ps cs = R"
    using assms unfolding quantum_loop.simps Let_def by (simp only: split: if_splits) blast+
  then show ?thesis using that by blast
qed

lemma quantum_loop_shrinks:
  "quantum_loop pf ip q p ps data = (q', p', ps', rest) \<Longrightarrow> length q \<le> 4 \<Longrightarrow> (length q = 4 \<longrightarrow> p = 0) \<Longrightarrow>
     length q' \<le> 4 \<and> length q \<le> length q' \<and> (length q' = 4 \<longrightarrow> p' = 0) \<and> length rest + length q' \<le> length data + length q"
proof (induction data arbitrary: q p ps)
  case (Cons ch cs)
  from Cons.prems(1) show ?case
  proof (cases rule: quantum_loop_cases)
    case 1
    with Cons.prems show ?thesis by simp
  next
    case 2
    with Cons.IH [OF this(2)] show ?thesis by simp
  next
    case (3 ps')
    with Cons.IH [OF this(2)] show ?thesis by simp
  next
    case 4
    with Cons.IH [OF this(2)] show ?thesis by simp
  qed
qed simp

lemma GetNextQuantum_shrinks:
  assumes "GetNextQuantum pf ip data = (q, padded, rest)" "4 \<le> length q"
  shows "length rest < length data"
proof -
  obtain q' p' ps' r where l: "quantum_loop pf ip [] 0 [] data = (q', p', ps', r)" by (metis prod_cases4)
  from quantum_loop_shrinks [OF this] assms l show ?thesis by (auto simp: GetNextQuantum_def Let_def split: if_splits)
qed

function decode_loop :: "parse_flag \<Rightarrow> pad_flag \<Rightarrow> term_flag \<Rightarrow> byte list \<Rightarrow> string \<Rightarrow> bool \<times> byte list \<times> string" where
  "decode_loop pf pad tf result data =
     (if data = [] then (True, result, [])
      else case GetNextQuantum pf (pad = DO_PAD_NO) data of (q, padded, rest) \<Rightarrow>
        let (bytes, c) = dec_quantum q
        in if length q < 4
           then (\<not> (tf \<noteq> DO_TERM_ANY \<and> c \<noteq> 0) \<and> \<not> (pad = DO_PAD_YES \<and> \<not> padded), result @ bytes, rest)
           else decode_loop pf pad tf (result @ bytes) rest)"
  by pat_completeness auto
termination
  by (relation "measure (\<lambda>(pf, pad, tf, r, data). length data)") (auto dest: GetNextQuantum_shrinks [OF sym])

declare decode_loop.simps [simp del]

text \<open>The result, the decoded bytes and \<open>data_used\<close>.\<close>

definition DecodeFromArray :: "parse_flag \<Rightarrow> pad_flag \<Rightarrow> term_flag \<Rightarrow> string \<Rightarrow> bool \<times> byte list \<times> nat" where
  "DecodeFromArray pf pad tf data =
     (case decode_loop pf pad tf [] data of (success, result, rest) \<Rightarrow>
        (success \<and> \<not> (tf = DO_TERM_BUFFER \<and> rest \<noteq> []), result, length data - length rest))"

section \<open>The reference encoder\<close>

fun b64 :: "byte list \<Rightarrow> string" where
  "b64 [] = []"
| "b64 [a] = [b64_char (drop_bit 2 a AND 0x3f), b64_char (push_bit 4 a AND 0x3f), kPad, kPad]"
| "b64 [a, b] = [b64_char (drop_bit 2 a AND 0x3f), b64_char ((push_bit 4 a AND 0x3f) OR (drop_bit 4 b AND 0x0f)),
     b64_char (push_bit 2 b AND 0x3f), kPad]"
| "b64 (a # b # c # r) = [b64_char (drop_bit 2 a AND 0x3f), b64_char ((push_bit 4 a AND 0x3f) OR (drop_bit 4 b AND 0x0f)),
     b64_char ((push_bit 2 b AND 0x3f) OR (drop_bit 6 c AND 0x03)), b64_char (c AND 0x3f)] @ b64 r"

lemma length_b64: "length (b64 d) = (length d + 2) div 3 * 4"
proof (induction d rule: b64.induct)
  case (4 a b c r)
  have "(length r + 3 + 2) div 3 = (length r + 2) div 3 + 1" by simp
  with 4 show ?case by (simp add: add.commute)
qed simp_all

lemma enc_loop_b64: "n \<le> length arr \<Longrightarrow> enc_loop n n arr j = Inr (b64 (drop j (take n arr)))"
proof (induction "n - j" arbitrary: j rule: less_induct)
  case less
  show ?case
  proof (cases "j < n")
    case False
    then show ?thesis by (subst enc_loop.simps) simp
  next
    case True
    have d: "drop j (take n arr) = arr ! j # drop (j + 1) (take n arr)" using True less(2) by (simp add: Cons_nth_drop_Suc [symmetric])
    have d1: "drop (j + 1) (take n arr) = arr ! (j + 1) # drop (j + 2) (take n arr)" if "j + 1 < n"
      using that less(2) Cons_nth_drop_Suc [of "j + 1" "take n arr"] by simp
    have d2: "drop (j + 2) (take n arr) = arr ! (j + 2) # drop (j + 3) (take n arr)" if "j + 2 < n"
      using that less(2) Cons_nth_drop_Suc [of "j + 2" "take n arr"] by (simp add: numeral_3_eq_3)
    consider "j + 2 < n" | "j + 2 = n" | "j + 1 = n" using True by linarith
    then show ?thesis
    proof cases
      case 1
      have t: "enc_turn n arr j = Inr (b64 [arr ! j, arr ! (j + 1), arr ! (j + 2)], j + 3)"
        using 1 True \<open>n \<le> length arr\<close> by (simp add: enc_turn_def Let_def)
      have "enc_loop n n arr (j + 3) = Inr (b64 (drop (j + 3) (take n arr)))"
        using less(1) [of "j + 3"] 1 less(2) by simp
      then show ?thesis using True t d d1 d2 1 by (subst enc_loop.simps) simp
    next
      case 2
      then have "drop (j + 2) (take n arr) = []" using \<open>n \<le> length arr\<close> by simp
      moreover have t: "enc_turn n arr j = Inr (b64 [arr ! j, arr ! (j + 1)], j + 2)"
        using 2 True \<open>n \<le> length arr\<close> by (simp add: enc_turn_def Let_def)
      moreover have "enc_loop n n arr (j + 2) = Inr []" using 2 by (subst enc_loop.simps) simp
      ultimately show ?thesis using True d d1 2 by (subst enc_loop.simps) simp
    next
      case 3
      then have "drop (j + 1) (take n arr) = []" using \<open>n \<le> length arr\<close> by simp
      moreover have t: "enc_turn n arr j = Inr (b64 [arr ! j], j + 1)"
        using 3 True \<open>n \<le> length arr\<close> by (simp add: enc_turn_def Let_def)
      moreover have "enc_loop n n arr (j + 1) = Inr []" using 3 by (subst enc_loop.simps) simp
      ultimately show ?thesis using True d by (subst enc_loop.simps) simp
    qed
  qed
qed

section \<open>Facts about the tables\<close>

definition sextet :: "byte \<Rightarrow> bool" where
  "sextet v \<longleftrightarrow> v AND 0x3f = v"

lemma length_tables: "length DecodeTable = 256" "length Base64Table = 64"
  by (simp_all add: DecodeTable_def Base64Table_def)

lemma all_chars: "list_all (\<lambda>(n, v). P n v) (zip [0..<256 :: nat] DecodeTable) \<Longrightarrow> P (of_char ch) (decode_char ch)"
proof -
  assume h: "list_all (\<lambda>(n, v). P n v) (zip [0..<256 :: nat] DecodeTable)"
  have n: "(of_char ch :: nat) < 256" by simp
  have "(of_char ch, DecodeTable ! of_char ch) \<in> set (zip [0..<256 :: nat] DecodeTable)"
    using n by (auto simp: set_zip length_tables intro!: exI [of _ "of_char ch"])
  with h show "P (of_char ch) (decode_char ch)" by (auto simp: list_all_iff decode_char_def)
qed

lemma decode_char_kinds: "decode_char ch \<in> {il, sp, pd} \<or> sextet (decode_char ch) \<and> b64_char (decode_char ch) = ch"
proof -
  have "list_all (\<lambda>(n, v). v = il \<or> v = sp \<or> v = pd \<or> sextet v \<and> of_char (b64_char v) = n) (zip [0..<256 :: nat] DecodeTable)" by code_simp
  from all_chars [OF this, of ch] show ?thesis by (auto simp: of_char_eq_iff)
qed

lemma decode_pad: "decode_char ch = pd \<longleftrightarrow> ch = kPad"
proof -
  have "list_all (\<lambda>(n, v). (v = pd) = (n = 61)) (zip [0..<256 :: nat] DecodeTable)" by code_simp
  from all_chars [OF this, of ch] have "decode_char ch = pd \<longleftrightarrow> (of_char ch :: nat) = of_char kPad" by simp
  then show ?thesis by (simp only: of_char_eq_iff)
qed

lemma sextet_less: "sextet v \<Longrightarrow> unat v < 64"
proof -
  assume "sextet v"
  then have "v = take_bit 6 v" by (simp add: sextet_def take_bit_eq_mask mask_eq_exp_minus_1)
  then have "unat v = take_bit 6 (unat v)" by (metis unsigned_take_bit_eq)
  then show "unat v < 64" using take_bit_nat_less_exp [of 6 "unat v"] by simp
qed

lemma decode_b64_char:
  assumes "sextet v"
  shows "decode_char (b64_char v) = v"
proof -
  have h: "list_all (\<lambda>(n, ch). decode_char ch = of_nat n) (zip [0..<64 :: nat] Base64Table)" by code_simp
  have n: "unat v < 64" using sextet_less [OF assms] .
  have "(unat v, Base64Table ! unat v) \<in> set (zip [0..<64] Base64Table)"
    using n by (auto simp: set_zip length_tables intro!: exI [of _ "unat v"])
  with h show ?thesis by (auto simp: list_all_iff b64_char_def)
qed

lemma sextet_kinds: "sextet v \<Longrightarrow> v \<noteq> il \<and> v \<noteq> sp \<and> v \<noteq> pd"
  by (auto simp: sextet_def)

lemma sextet_parts [simp]:
  "sextet (x AND 0x3f)" "sextet ((x AND 0x3f) OR (y AND 0x0f))" "sextet ((x AND 0x3f) OR (y AND 0x03))"
proof -
  have m: "(0x3f :: byte) = mask 6" "(0x0f :: byte) = mask 4" "(0x03 :: byte) = mask 2" by (simp_all add: mask_eq_exp_minus_1)
  show "sextet (x AND 0x3f)" "sextet ((x AND 0x3f) OR (y AND 0x0f))" "sextet ((x AND 0x3f) OR (y AND 0x03))"
    unfolding sextet_def m by (rule bit_word_eqI; auto simp: bit_simps)+
qed

section \<open>Bits of a quantum\<close>

lemma byte_masks: "(0x3f :: byte) = mask 6" "(0x0f :: byte) = mask 4" "(0x03 :: byte) = mask 2" "(0xf0 :: byte) = push_bit 4 (mask 4)"
  "(0xc0 :: byte) = push_bit 6 (mask 2)" "(0xf :: byte) = mask 4" "(0x3 :: byte) = mask 2"
  by (simp_all add: mask_eq_exp_minus_1)

lemma byte_bits:
  "bit a 0 = bit b 0 \<Longrightarrow> bit a 1 = bit b 1 \<Longrightarrow> bit a 2 = bit b 2 \<Longrightarrow> bit a 3 = bit b 3 \<Longrightarrow> bit a 4 = bit b 4 \<Longrightarrow> bit a 5 = bit b 5 \<Longrightarrow>
     bit a 6 = bit b 6 \<Longrightarrow> bit a 7 = bit b 7 \<Longrightarrow> a = b" for a b :: byte
proof (rule bit_word_eqI)
  fix n assume b: "bit a 0 = bit b 0" "bit a 1 = bit b 1" "bit a 2 = bit b 2" "bit a 3 = bit b 3" "bit a 4 = bit b 4" "bit a 5 = bit b 5"
    "bit a 6 = bit b 6" "bit a 7 = bit b 7" and n: "n < LENGTH(8)"
  from n have "n < 8" by simp
  then have "n = 0 \<or> n = 1 \<or> n = 2 \<or> n = 3 \<or> n = 4 \<or> n = 5 \<or> n = 6 \<or> n = 7" by arith
  then show "bit a n = bit b n" using b by (elim disjE) (simp_all only:)
qed

lemma quantum_bits:
  "push_bit 2 (drop_bit 2 a AND 0x3f) OR (drop_bit 4 ((push_bit 4 a AND 0x3f) OR (drop_bit 4 b AND 0x0f)) AND 0x3) = a"
  "push_bit 2 (drop_bit 2 a AND 0x3f) OR (drop_bit 4 (push_bit 4 a AND 0x3f) AND 0x3) = a"
  "(push_bit 4 ((push_bit 4 a AND 0x3f) OR (drop_bit 4 b AND 0x0f)) AND 0xf0) OR (drop_bit 2 ((push_bit 2 b AND 0x3f) OR (drop_bit 6 c AND 0x03)) AND 0xf) = b"
  "(push_bit 4 ((push_bit 4 a AND 0x3f) OR (drop_bit 4 b AND 0x0f)) AND 0xf0) OR (drop_bit 2 (push_bit 2 b AND 0x3f) AND 0xf) = b"
  "(push_bit 6 ((push_bit 2 b AND 0x3f) OR (drop_bit 6 c AND 0x03)) AND 0xc0) OR (c AND 0x3f) = c"
  "push_bit 4 (push_bit 4 a AND 0x3f) AND 0xf0 = 0" "push_bit 6 (push_bit 2 b AND 0x3f) AND 0xc0 = 0"
  for a b c :: byte
  unfolding byte_masks by (rule byte_bits; simp add: bit_simps)+

section \<open>Quanta\<close>

declare quantum_loop.simps(2) [simp del]

lemma quantum_loop_full: "length q = 4 \<Longrightarrow> quantum_loop pf ip q p ps data = (q, p, ps, data)"
  by (cases data) (simp_all add: quantum_loop.simps(2) Let_def)

lemma quantum_loop_sextet:
  "sextet (decode_char ch) \<Longrightarrow> length q < 4 \<Longrightarrow> quantum_loop pf ip q 0 ps (ch # cs) = quantum_loop pf ip (q @ [decode_char ch]) 0 ps cs"
  using sextet_kinds [of "decode_char ch"] by (simp add: quantum_loop.simps(2) Let_def)

lemma quantum_loop_pad:
  "2 \<le> length q \<Longrightarrow> length q + p < 4 \<Longrightarrow> quantum_loop pf False q p ps (kPad # cs) = quantum_loop pf False q (p + 1) (if p = 0 then kPad # cs else ps) cs"
  using decode_pad [of kPad] by (simp add: quantum_loop.simps(2) Let_def)

lemma quantum_of_chars:
  assumes "sextet v0" "sextet v1"
  shows "sextet v2 \<Longrightarrow> sextet v3 \<Longrightarrow> GetNextQuantum pf ip ([b64_char v0, b64_char v1, b64_char v2, b64_char v3] @ rest) = ([v0, v1, v2, v3], True, rest)"
    and "sextet v2 \<Longrightarrow> GetNextQuantum pf False [b64_char v0, b64_char v1, b64_char v2, kPad] = ([v0, v1, v2], True, [])"
    and "GetNextQuantum pf False [b64_char v0, b64_char v1, kPad, kPad] = ([v0, v1], True, [])"
  using assms by (simp_all add: GetNextQuantum_def quantum_loop_sextet quantum_loop_pad quantum_loop_full decode_b64_char)

lemma dec_quantum_simps:
  "dec_quantum [v0, v1, v2, v3] = ([push_bit 2 v0 OR (drop_bit 4 v1 AND 0x3), (push_bit 4 v1 AND 0xf0) OR (drop_bit 2 v2 AND 0xf), (push_bit 6 v2 AND 0xc0) OR v3], 0)"
  "dec_quantum [v0, v1, v2] = ([push_bit 2 v0 OR (drop_bit 4 v1 AND 0x3), (push_bit 4 v1 AND 0xf0) OR (drop_bit 2 v2 AND 0xf)], push_bit 6 v2 AND 0xc0)"
  "dec_quantum [v0, v1] = ([push_bit 2 v0 OR (drop_bit 4 v1 AND 0x3)], push_bit 4 v1 AND 0xf0)"
  by (simp_all add: dec_quantum_def)

lemma dec_quantum_enc:
  "dec_quantum [drop_bit 2 a AND 0x3f, (push_bit 4 a AND 0x3f) OR (drop_bit 4 b AND 0x0f), (push_bit 2 b AND 0x3f) OR (drop_bit 6 c AND 0x03), c AND 0x3f] = ([a, b, c], 0)"
  "dec_quantum [drop_bit 2 a AND 0x3f, (push_bit 4 a AND 0x3f) OR (drop_bit 4 b AND 0x0f), push_bit 2 b AND 0x3f] = ([a, b], 0)"
  "dec_quantum [drop_bit 2 a AND 0x3f, push_bit 4 a AND 0x3f] = ([a], 0)"
  by (simp_all only: dec_quantum_simps quantum_bits)

lemma decode_loop_b64: "pad \<noteq> DO_PAD_NO \<Longrightarrow> decode_loop pf pad tf r (b64 d) = (True, r @ d, [])"
proof (induction d arbitrary: r rule: b64.induct)
  case 1
  show ?case by (subst decode_loop.simps) simp
next
  case (2 a)
  then show ?case by (subst decode_loop.simps) (simp add: quantum_of_chars(3) dec_quantum_enc)
next
  case (3 a b)
  then show ?case by (subst decode_loop.simps) (simp add: quantum_of_chars(2) dec_quantum_enc)
next
  case (4 a b c rest)
  let ?q = "[drop_bit 2 a AND 0x3f, (push_bit 4 a AND 0x3f) OR (drop_bit 4 b AND 0x0f), (push_bit 2 b AND 0x3f) OR (drop_bit 6 c AND 0x03), c AND 0x3f]"
  have "GetNextQuantum pf (pad = DO_PAD_NO) (b64 (a # b # c # rest)) = (?q, True, b64 rest)"
    using quantum_of_chars(1) [of "?q ! 0" "?q ! 1" "?q ! 2" "?q ! 3" pf "pad = DO_PAD_NO" "b64 rest"] by simp
  then have "decode_loop pf pad tf r (b64 (a # b # c # rest)) = decode_loop pf pad tf (r @ [a, b, c]) (b64 rest)"
    by (subst decode_loop.simps) (simp add: dec_quantum_enc)
  with 4 show ?case by simp
qed

section \<open>What the strict decoder accepts\<close>

text \<open>In strict mode a quantum is a run of characters of the table followed by pads.\<close>

lemma quantum_strict:
  "quantum_loop DO_PARSE_STRICT False q p ps data = (q', p', ps', rest) \<Longrightarrow> length q \<le> 4 \<Longrightarrow> (p > 0 \<longrightarrow> 2 \<le> length q) \<Longrightarrow>
     \<exists>vs. q' = q @ vs \<and> list_all sextet vs \<and> p \<le> p' \<and> (p > 0 \<longrightarrow> vs = []) \<and> (p' > 0 \<longrightarrow> 2 \<le> length q') \<and>
       data = map b64_char vs @ replicate (p' - p) kPad @ rest"
proof (induction data arbitrary: q p ps)
  case (Cons ch cs)
  let ?v = "decode_char ch"
  show ?case
  proof (cases "length q < 4 \<and> ?v \<notin> {il, sp} \<and> (if ?v = pd then 2 \<le> length q \<and> length q + p < 4 else p = 0)")
    case False
    then have "quantum_loop DO_PARSE_STRICT False q p ps (ch # cs) = (q, p, ps, ch # cs)" by (auto simp: quantum_loop.simps(2) Let_def)
    with Cons.prems show ?thesis by simp
  next
    case True
    show ?thesis
    proof (cases "?v = pd")
      case pad: True
      then have "quantum_loop DO_PARSE_STRICT False q (p + 1) (if p = 0 then ch # cs else ps) cs = (q', p', ps', rest)"
        using True Cons.prems(1) by (simp add: quantum_loop.simps(2) Let_def)
      from Cons.IH [OF this] Cons.prems(2) True pad obtain vs where "q' = q @ vs" "vs = []" "p + 1 \<le> p'" "2 \<le> length q'"
        "cs = map b64_char vs @ replicate (p' - (p + 1)) kPad @ rest" by auto
      moreover from this have "p' - p = Suc (p' - (p + 1))" by simp
      ultimately show ?thesis using decode_pad [of ch] pad by simp
    next
      case False
      then have "quantum_loop DO_PARSE_STRICT False (q @ [?v]) 0 ps cs = (q', p', ps', rest)" using True Cons.prems(1) by (auto simp: quantum_loop.simps(2) Let_def)
      from Cons.IH [OF this] True obtain vs where "q' = (q @ [?v]) @ vs" "list_all sextet vs" "p' > 0 \<longrightarrow> 2 \<le> length q'"
        "cs = map b64_char vs @ replicate p' kPad @ rest" by auto
      moreover have "sextet ?v" "b64_char ?v = ch" "p = 0" using decode_char_kinds [of ch] True False by auto
      ultimately show ?thesis by (intro exI [of _ "?v # vs"]) simp
    qed
  qed
qed simp

lemma sextet_bits: "sextet v \<Longrightarrow> \<not> bit v 6 \<and> \<not> bit v 7"
proof -
  assume "sextet v"
  then have "v = v AND mask 6" by (simp add: sextet_def byte_masks)
  moreover have "\<not> bit (v AND mask 6) 6" "\<not> bit (v AND mask 6) 7" by (simp_all add: bit_simps)
  ultimately show ?thesis by metis
qed

lemma unused_bits:
  "push_bit 4 v AND 0xf0 = 0 \<Longrightarrow> \<not> bit v 0 \<and> \<not> bit v 1 \<and> \<not> bit v 2 \<and> \<not> bit v 3" "push_bit 6 v AND 0xc0 = 0 \<Longrightarrow> \<not> bit v 0 \<and> \<not> bit v 1" for v :: byte
proof -
  have "bit (push_bit 4 v AND 0xf0) 4 = bit v 0" "bit (push_bit 4 v AND 0xf0) 5 = bit v 1" "bit (push_bit 4 v AND 0xf0) 6 = bit v 2"
    "bit (push_bit 4 v AND 0xf0) 7 = bit v 3" "bit (push_bit 6 v AND 0xc0) 6 = bit v 0" "bit (push_bit 6 v AND 0xc0) 7 = bit v 1"
    unfolding byte_masks by (simp_all add: bit_simps)
  then show "push_bit 4 v AND 0xf0 = 0 \<Longrightarrow> \<not> bit v 0 \<and> \<not> bit v 1 \<and> \<not> bit v 2 \<and> \<not> bit v 3" "push_bit 6 v AND 0xc0 = 0 \<Longrightarrow> \<not> bit v 0 \<and> \<not> bit v 1"
    by (metis bit_0_eq bot_apply bot_bool_def)+
qed

lemma bits_of_quantum:
  assumes "sextet v0" "sextet v1" "sextet v2" "sextet v3"
  shows "drop_bit 2 (push_bit 2 v0 OR (drop_bit 4 v1 AND 0x3)) AND 0x3f = v0"
    "(push_bit 4 (push_bit 2 v0 OR (drop_bit 4 v1 AND 0x3)) AND 0x3f) OR (drop_bit 4 ((push_bit 4 v1 AND 0xf0) OR (drop_bit 2 v2 AND 0xf)) AND 0x0f) = v1"
    "(push_bit 2 ((push_bit 4 v1 AND 0xf0) OR (drop_bit 2 v2 AND 0xf)) AND 0x3f) OR (drop_bit 6 ((push_bit 6 v2 AND 0xc0) OR v3) AND 0x03) = v2"
    "((push_bit 6 v2 AND 0xc0) OR v3) AND 0x3f = v3"
    "push_bit 4 v1 AND 0xf0 = 0 \<Longrightarrow> push_bit 4 (push_bit 2 v0 OR (drop_bit 4 v1 AND 0x3)) AND 0x3f = v1"
    "push_bit 6 v2 AND 0xc0 = 0 \<Longrightarrow> push_bit 2 ((push_bit 4 v1 AND 0xf0) OR (drop_bit 2 v2 AND 0xf)) AND 0x3f = v2"
  subgoal unfolding byte_masks by (rule byte_bits; simp add: bit_simps sextet_bits [OF assms(1)])
  subgoal unfolding byte_masks by (rule byte_bits; simp add: bit_simps sextet_bits [OF assms(2)])
  subgoal unfolding byte_masks by (rule byte_bits; simp add: bit_simps sextet_bits [OF assms(3)] sextet_bits [OF assms(4)])
  subgoal unfolding byte_masks by (rule byte_bits; simp add: bit_simps sextet_bits [OF assms(4)])
  subgoal premises p using unused_bits(1) [OF p] unfolding byte_masks by (intro byte_bits) (simp_all add: bit_simps sextet_bits [OF assms(2)])
  subgoal premises p using unused_bits(2) [OF p] unfolding byte_masks by (intro byte_bits) (simp_all add: bit_simps sextet_bits [OF assms(3)])
  done

lemma quantum_of_strict:
  assumes "GetNextQuantum DO_PARSE_STRICT False data = (q, padded, rest)"
  shows "4 \<le> length q \<Longrightarrow> \<exists>v0 v1 v2 v3. q = [v0, v1, v2, v3] \<and> list_all sextet q \<and> data = map b64_char q @ rest"
    and "length q < 4 \<Longrightarrow> padded \<Longrightarrow> list_all sextet q \<and> 2 \<le> length q \<and> data = map b64_char q @ replicate (4 - length q) kPad @ rest"
proof -
  obtain q' p' ps' r where l: "quantum_loop DO_PARSE_STRICT False [] 0 [] data = (q', p', ps', r)" by (metis prod_cases4)
  from quantum_strict [OF l] have s: "list_all sextet q'" "p' > 0 \<longrightarrow> 2 \<le> length q'" "data = map b64_char q' @ replicate p' kPad @ r" by auto
  have n: "length q' \<le> 4" "length q' = 4 \<longrightarrow> p' = 0" using quantum_loop_shrinks [OF l] by auto
  have q: "q = q'" "padded \<longleftrightarrow> length q' + p' = 4" "padded \<or> p' = 0 \<longrightarrow> rest = r"
    using assms l by (auto simp: GetNextQuantum_def Let_def split: if_splits)
  show "\<exists>v0 v1 v2 v3. q = [v0, v1, v2, v3] \<and> list_all sextet q \<and> data = map b64_char q @ rest" if "4 \<le> length q"
  proof -
    have "length q = Suc (Suc (Suc (Suc 0)))" using that n(1) q(1) by simp
    then obtain v0 v1 v2 v3 where "q = [v0, v1, v2, v3]" by (auto simp: length_Suc_conv)
    then show ?thesis using s n(2) q by auto
  qed
  show "list_all sextet q \<and> 2 \<le> length q \<and> data = map b64_char q @ replicate (4 - length q) kPad @ rest" if "length q < 4" padded
  proof -
    have "p' = 4 - length q" "p' > 0" using that q by auto
    then show ?thesis using that s q by auto
  qed
qed

lemma b64_of_quantum:
  assumes "list_all sextet q" "dec_quantum q = (bytes, c)" "c = 0"
  shows "length q = 4 \<Longrightarrow> b64 (bytes @ d) = map b64_char q @ b64 d" "length q < 4 \<Longrightarrow> 2 \<le> length q \<Longrightarrow> b64 bytes = map b64_char q @ replicate (4 - length q) kPad"
proof -
  have z: "sextet 0" by (simp add: sextet_def)
  show "b64 (bytes @ d) = map b64_char q @ b64 d" if "length q = 4"
  proof -
    have "length q = Suc (Suc (Suc (Suc 0)))" using that by simp
    then obtain v0 v1 v2 v3 where q: "q = [v0, v1, v2, v3]" by (auto simp: length_Suc_conv)
    then have v: "sextet v0" "sextet v1" "sextet v2" "sextet v3" using assms(1) by simp_all
    have "bytes = [push_bit 2 v0 OR (drop_bit 4 v1 AND 0x3), (push_bit 4 v1 AND 0xf0) OR (drop_bit 2 v2 AND 0xf), (push_bit 6 v2 AND 0xc0) OR v3]"
      using assms(2) unfolding q dec_quantum_simps by blast
    then show ?thesis unfolding q by (simp only: append.simps b64.simps bits_of_quantum(1-4) [OF v] list.map)
  qed
  show "b64 bytes = map b64_char q @ replicate (4 - length q) kPad" if "length q < 4" "2 \<le> length q"
  proof (cases "length q = 2")
    case True
    then have "length q = Suc (Suc 0)" by simp
    then obtain v0 v1 where q: "q = [v0, v1]" by (auto simp: length_Suc_conv)
    then have v: "sextet v0" "sextet v1" using assms(1) by simp_all
    have b: "bytes = [push_bit 2 v0 OR (drop_bit 4 v1 AND 0x3)]" "push_bit 4 v1 AND 0xf0 = 0" using assms(2,3) unfolding q dec_quantum_simps by blast+
    have "b64 bytes = [b64_char v0, b64_char v1, kPad, kPad]"
      unfolding b(1) by (simp only: b64.simps bits_of_quantum(1) [OF v z z] bits_of_quantum(5) [OF v z z b(2)])
    then show ?thesis by (simp add: q numeral_eq_Suc)
  next
    case False
    then have "length q = Suc (Suc (Suc 0))" using that by simp
    then obtain v0 v1 v2 where q: "q = [v0, v1, v2]" by (auto simp: length_Suc_conv)
    then have v: "sextet v0" "sextet v1" "sextet v2" using assms(1) by simp_all
    have b: "bytes = [push_bit 2 v0 OR (drop_bit 4 v1 AND 0x3), (push_bit 4 v1 AND 0xf0) OR (drop_bit 2 v2 AND 0xf)]" "push_bit 6 v2 AND 0xc0 = 0"
      using assms(2,3) unfolding q dec_quantum_simps by blast+
    have "b64 bytes = [b64_char v0, b64_char v1, b64_char v2, kPad]"
      unfolding b(1) by (simp only: b64.simps bits_of_quantum(1,2) [OF v z] bits_of_quantum(6) [OF v z b(2)])
    then show ?thesis by (simp add: q numeral_eq_Suc)
  qed
qed

lemma decode_strict_canonical:
  "decode_loop DO_PARSE_STRICT DO_PAD_YES DO_TERM_BUFFER r data = (True, r', []) \<Longrightarrow> \<exists>d. r' = r @ d \<and> data = b64 d"
proof (induction "length data" arbitrary: data r rule: less_induct)
  case less
  show ?case
  proof (cases "data = []")
    case True
    with less.prems have "r' = r" by (subst (asm) decode_loop.simps) simp
    with True show ?thesis by (intro exI [of _ "[]"]) simp
  next
    case False
    obtain q padded rest where g: "GetNextQuantum DO_PARSE_STRICT False data = (q, padded, rest)" by (metis prod_cases3)
    obtain bytes c where d: "dec_quantum q = (bytes, c)" by fastforce
    show ?thesis
    proof (cases "length q < 4")
      case True
      with less.prems False g d have "c = 0" "padded" "r' = r @ bytes" "rest = []" by (subst (asm) decode_loop.simps, auto)+
      moreover note quantum_of_strict(2) [OF g True]
      ultimately show ?thesis using b64_of_quantum(2) [OF _ d] True by auto
    next
      case long: False
      from quantum_of_strict(1) [OF g] long have q: "list_all sextet q" "data = map b64_char q @ rest" "length q = 4" by auto
      have "decode_loop DO_PARSE_STRICT DO_PAD_YES DO_TERM_BUFFER (r @ bytes) rest = (True, r', [])"
        using less.prems False g d long by (subst (asm) decode_loop.simps) simp
      moreover have "length rest < length data" using GetNextQuantum_shrinks [OF g] long by simp
      ultimately obtain e where "r' = (r @ bytes) @ e" "rest = b64 e" using less.hyps by blast
      moreover have "c = 0" using d q(3) by (auto simp: dec_quantum_def Let_def)
      ultimately show ?thesis using b64_of_quantum(1) [OF q(1) d _ q(3), of e] q(2) by (intro exI [of _ "bytes @ e"]) simp
    qed
  qed
qed

section \<open>Properties\<close>

lemma EncodeFromArray_str_b64:
  assumes "length d < 2 ^ 30"
  shows "EncodeFromArray_str d = Inr (b64 d)"
proof -
  define n where "n = (length d + 2) div 3 * 4"
  have n: "n < 2 ^ 31" using assms by (simp add: n_def)
  then have i: "to_int32 n = int n" by simp
  have m: "nat (int n mod 2 ^ 64) = n" using n by (simp add: nat_mod_as_int)
  have z: "\<not> n < Suc (Suc (length d)) div 3 * 4" "d = [] \<Longrightarrow> n = 0" by (simp_all add: n_def)
  have "copy_in (replicate n (CHR 0x00)) 0 (b64 d) = Inr (b64 d)" by (simp add: copy_in_0 length_b64 n_def)
  then show ?thesis
    unfolding EncodeFromArray_str_def EncodeFromArray_buf_def Let_def n_def [symmetric] using i m z
    by (cases "d = []") (simp_all add: enc_loop_b64)
qed

text \<open>C21. The decoder inverts the encoder for every choice of parse and termination flags, with padding required or
  optional, and uses the whole text; in strict mode the encoding is the only text it accepts for these bytes.\<close>

theorem base64_roundtrip:
  assumes "length d < 2 ^ 30"
  shows "\<exists>s. EncodeFromArray_str d = Inr s \<and> length s = (length d + 2) div 3 * 4 \<and>
    (\<forall>pf pad tf. pad = DO_PAD_NO \<or> DecodeFromArray pf pad tf s = (True, d, length s)) \<and>
    (\<forall>s' n. DecodeFromArray DO_PARSE_STRICT DO_PAD_YES DO_TERM_BUFFER s' = (True, d, n) \<longleftrightarrow> s' = s \<and> n = length s)"
proof (intro exI conjI allI)
  show "EncodeFromArray_str d = Inr (b64 d)" by (rule EncodeFromArray_str_b64 [OF assms])
  show "length (b64 d) = (length d + 2) div 3 * 4" by (rule length_b64)
  have dec: "DecodeFromArray pf pad tf (b64 d) = (True, d, length (b64 d))" if "pad \<noteq> DO_PAD_NO" for pf pad tf
    using decode_loop_b64 [OF that, of pf tf "[]" d] by (simp add: DecodeFromArray_def)
  show "pad = DO_PAD_NO \<or> DecodeFromArray pf pad tf (b64 d) = (True, d, length (b64 d))" for pf pad tf using dec by blast
  fix s' n
  show "DecodeFromArray DO_PARSE_STRICT DO_PAD_YES DO_TERM_BUFFER s' = (True, d, n) \<longleftrightarrow> s' = b64 d \<and> n = length (b64 d)" (is "?l \<longleftrightarrow> ?r")
  proof
    assume ?l
    then obtain rest where l: "decode_loop DO_PARSE_STRICT DO_PAD_YES DO_TERM_BUFFER [] s' = (True, d, rest)" "rest = []" "n = length s' - length rest"
      by (auto simp: DecodeFromArray_def split: prod.splits)
    with decode_strict_canonical [of "[]" s' d] show ?r by auto
  next
    assume ?r
    then show ?l using dec [of DO_PAD_YES] by simp
  qed
qed

theorem base64_roundtrip_witness:
  "EncodeFromArray_str [77, 97] = Inr ''TWE='' \<and> DecodeFromArray DO_PARSE_WHITE DO_PAD_YES DO_TERM_CHAR ''TWE='' = (True, [77, 97], 4)"
proof -
  have e: "EncodeFromArray_str [77, 97] = Inr ''TWE=''"
    by (simp add: EncodeFromArray_str_b64 b64_char_def Base64Table_def)
  have "length [77, 97 :: byte] < 2 ^ 30" by simp
  from base64_roundtrip [OF this] obtain s where "EncodeFromArray_str [77, 97] = Inr s"
    "DO_PAD_YES = DO_PAD_NO \<or> DecodeFromArray DO_PARSE_WHITE DO_PAD_YES DO_TERM_CHAR s = (True, [77, 97], length s)" by blast
  with e show ?thesis by simp
qed

lemma b64_append: "length a mod 3 = 0 \<Longrightarrow> b64 (a @ b) = b64 a @ b64 b"
proof (induction a rule: b64.induct)
  case (4 x y z r)
  have "length (x # y # z # r) = length r + 3" by simp
  then have "length r mod 3 = 0" using 4(2) by (metis mod_add_self2)
  with 4 show ?case by simp
qed simp_all

lemma seg_pos: "max_seg_len = 3456"
  by (simp add: max_seg_len_def DEFAULT_BLOCK_SIZE_def)

text \<open>The last segment is read behind the data or is empty.\<close>

lemma enc_segments_last:
  "enc_segments data (is @ [i]) pos left = Inr bs \<Longrightarrow>
     left - of_nat ((sum_list is + i) * max_seg_len) = 0 \<or> pos + (sum_list is + i) * max_seg_len < length data"
proof (induction "is" arbitrary: pos left bs)
  case Nil
  show ?case
  proof (rule ccontr)
    let ?l = "left - of_nat (i * max_seg_len)"
    let ?n = "if unat ?l > max_seg_len then max_seg_len else unat ?l"
    assume "\<not> ?case"
    then have "?l \<noteq> 0" "length data \<le> pos + i * max_seg_len" by auto
    then have "0 < ?n" "drop (pos + i * max_seg_len) data = []" by (simp_all add: seg_pos unat_gt_0)
    then have "enc_loop ?n ?n (drop (pos + i * max_seg_len) data) 0 = Inl OutOfBounds" by (subst enc_loop.simps) (simp add: enc_turn_def)
    with Nil show False by (simp add: Let_def del: of_nat_mult)
  qed
next
  case (Cons k "is")
  from Cons.prems obtain bs' where "enc_segments data (is @ [i]) (pos + k * max_seg_len) (left - of_nat (k * max_seg_len)) = Inr bs'"
    by (auto simp: Let_def bindE_Inr_iff)
  from Cons.IH [OF this] show ?case by (simp add: algebra_simps)
qed

lemma enc_segments_two:
  assumes "max_seg_len < length data" "length data \<le> 3 * max_seg_len" "length data < 2 ^ 32"
  shows "enc_segments data (0 # 1 # is) 0 (of_nat (length data)) =
    bindE (enc_segments data is max_seg_len (of_nat (length data - max_seg_len))) (\<lambda>bs.
      Inr (b64 (take max_seg_len data) # b64 (take (min max_seg_len (length data - max_seg_len)) (drop max_seg_len data)) # bs))"
proof -
  let ?n = "length data"
  have l: "(of_nat ?n :: u32) - of_nat max_seg_len = of_nat (?n - max_seg_len)" using assms(1) by (simp add: of_nat_diff)
  have u: "unat (of_nat ?n :: u32) = ?n" "unat (of_nat (?n - max_seg_len) :: u32) = ?n - max_seg_len"
    using assms(3) by (simp_all add: unat_of_nat)
  let ?b1 = "b64 (take max_seg_len data)" and ?b2 = "b64 (take (min max_seg_len (?n - max_seg_len)) (drop max_seg_len data))"
  have s0: "enc_segments data (0 # xs) 0 (of_nat ?n) = bindE (enc_segments data xs 0 (of_nat ?n)) (\<lambda>bs. Inr (?b1 # bs))" for xs
    using assms(1) u(1) by (simp add: Let_def enc_loop_b64)
  have "enc_loop (min max_seg_len (?n - max_seg_len)) (min max_seg_len (?n - max_seg_len)) (drop max_seg_len data) 0 = Inr ?b2"
    by (simp add: enc_loop_b64)
  moreover have "(if max_seg_len < ?n - max_seg_len then max_seg_len else ?n - max_seg_len) = min max_seg_len (?n - max_seg_len)" by (simp add: min_def)
  ultimately have s1: "enc_segments data (1 # is) 0 (of_nat ?n) = bindE (enc_segments data is max_seg_len (of_nat (?n - max_seg_len))) (\<lambda>bs. Inr (?b2 # bs))"
    using u(2) by (simp only: enc_segments.simps Let_def l mult_1 add_0) simp
  show ?thesis unfolding s0 s1 by (cases "enc_segments data is max_seg_len (of_nat (?n - max_seg_len))") simp_all
qed

lemma seg_count:
  fixes n m a :: nat
  assumes "n = (if a mod m \<noteq> 0 then a div m + 1 else a div m)" "0 < m"
  shows "a \<le> n * m" "0 < n \<Longrightarrow> (n - 1) * m < a"
proof -
  have d: "a = a div m * m + a mod m" "a mod m < m" using assms(2) by simp_all
  show "a \<le> n * m"
  proof (cases "a mod m = 0")
    case True
    then show ?thesis using assms(1) d(1) by simp
  next
    case False
    then have "n * m = a div m * m + m" using assms(1) by simp
    then show ?thesis using d by linarith
  qed
  assume "0 < n"
  show "(n - 1) * m < a"
  proof (cases "a mod m = 0")
    case True
    then have "n = a div m" "a = n * m" using assms(1) d(1) by simp_all
    then show ?thesis using \<open>0 < n\<close> assms(2) by simp
  next
    case False
    then have "n - 1 = a div m" "0 < a mod m" using assms(1) by simp_all
    then show ?thesis using d(1) by (metis less_add_same_cancel1)
  qed
qed

text \<open>With three segments or more the last one starts behind the data.\<close>

lemma seg_sum:
  assumes "3 \<le> n" "a \<le> n * max_seg_len" "(n - 1) * max_seg_len < a" "a \<le> 2 ^ 20" "a \<noteq> 3 * max_seg_len"
  shows "a < sum_list [0..<n] * max_seg_len" "sum_list [0..<n] * max_seg_len < 2 ^ 32"
proof -
  have "2 * sum_list [0..<k] = k * (k - 1)" for k :: nat by (induction k) (auto simp: algebra_simps)
  then have s: "2 * sum_list [0..<n] = n * (n - 1)" .
  have n: "n \<le> 305" using assms(3,4) by (simp add: seg_pos)
  have "n * (n - 1) \<le> 305 * 304" using n by (intro mult_le_mono) simp_all
  then have "sum_list [0..<n] \<le> 46360" using s by simp
  then show "sum_list [0..<n] * max_seg_len < 2 ^ 32" by (simp add: seg_pos)
  show "a < sum_list [0..<n] * max_seg_len"
  proof (cases "n = 3")
    case True
    then have "sum_list [0..<n] = 3" using s by simp
    then show ?thesis using assms(2,5) True by simp
  next
    case False
    then have "n * 3 \<le> n * (n - 1)" using assms(1) by (intro mult_le_mono) simp_all
    then have "n * 3 \<le> 2 * sum_list [0..<n]" by (simp only: s)
    then have "n < sum_list [0..<n]" using assms(1) by linarith
    then have "n * max_seg_len < sum_list [0..<n] * max_seg_len" by (simp add: seg_pos)
    then show ?thesis using assms(2) by linarith
  qed
qed

text \<open>The encoder into the blocks of a \<open>MemBuffer\<close> is right for data of at most two segments of 3456 bytes; for
  more it reads behind the data or leaves a segment out, because the offsets of the segments are added up.\<close>

theorem base64_mem_two_segments:
  assumes "length data \<le> 2 ^ 20"
  shows "(\<exists>bs. EncodeFromArray_mem data = Inr bs \<and> concat bs = b64 data) \<longleftrightarrow> length data \<le> 2 * max_seg_len"
proof -
  let ?m = max_seg_len and ?len = "length data"
  define n where "n = (if ?len mod ?m \<noteq> 0 then ?len div ?m + 1 else ?len div ?m)"
  have m: "0 < ?m" "?m mod 3 = 0" by (simp_all add: seg_pos)
  note cnt = seg_count [OF n_def m(1)]
  have e: "EncodeFromArray_mem data = enc_segments data [0..<n] 0 (of_nat ?len)" unfolding EncodeFromArray_mem_def n_def Let_def ..
  have lim: "?len < 2 ^ 32" using assms by simp
  consider (one) "?len \<le> ?m" | (two) "?m < ?len" "?len \<le> 2 * ?m" | (three) "?len = 3 * ?m" | (more) "2 * ?m < ?len" "?len \<noteq> 3 * ?m" by linarith
  then show ?thesis
  proof cases
    case one
    have "n \<le> 1" using cnt(2) one m(1) by (cases n) (auto simp: seg_pos)
    then consider "n = 0" | "n = 1" by linarith
    then have "\<exists>bs. EncodeFromArray_mem data = Inr bs \<and> concat bs = b64 data"
    proof cases
      case 1
      then show ?thesis using cnt(1) e by simp
    next
      case 2
      have "unat (of_nat ?len :: u32) = ?len" using lim by (simp add: unat_of_nat)
      then show ?thesis using one 2 e by (auto simp: Let_def enc_loop_b64)
    qed
    then show ?thesis using one by simp
  next
    case two
    have "n = 2" using cnt two by (auto simp: seg_pos)
    then have "EncodeFromArray_mem data = Inr [b64 (take ?m data), b64 (drop ?m data)]"
      using e enc_segments_two [of data "[]"] two lim by (simp add: upt_rec numeral_2_eq_2 min_def)
    moreover have "b64 (take ?m data) @ b64 (drop ?m data) = b64 data"
      using b64_append [of "take ?m data" "drop ?m data"] m(2) two by (simp add: min_def)
    ultimately show ?thesis using two by simp
  next
    case three
    have "n = 3" using cnt three by (auto simp: seg_pos)
    then have l: "[0..<n] = [0, 1, 2]" by (simp add: upt_rec numeral_3_eq_3 numeral_2_eq_2)
    have "enc_segments data [2] ?m (of_nat (?len - ?m)) = Inr [[]]"
      using three by (simp add: seg_pos Let_def enc_loop.simps)
    then have "EncodeFromArray_mem data = Inr [b64 (take ?m data), b64 (take ?m (drop ?m data)), []]"
      using e l enc_segments_two [of data "[2]"] three lim by (simp add: seg_pos)
    moreover have "length (b64 (take ?m data) @ b64 (take ?m (drop ?m data))) \<noteq> length (b64 data)"
      using three by (simp add: length_b64 seg_pos)
    then have "b64 (take ?m data) @ b64 (take ?m (drop ?m data)) \<noteq> b64 data" by metis
    ultimately have "\<not> (\<exists>bs. EncodeFromArray_mem data = Inr bs \<and> concat bs = b64 data)" by simp
    then show ?thesis using three by (simp add: seg_pos)
  next
    case more
    have n: "3 \<le> n" using cnt(1) more(1) by (auto simp: seg_pos)
    note sm = seg_sum [OF n cnt(1) cnt(2) assms more(2)]
    have l: "[0..<n] = [0..<n - 1] @ [n - 1]" using n by (simp add: upt_Suc_append [symmetric] del: upt_Suc)
    then have s: "sum_list [0..<n - 1] + (n - 1) = sum_list [0..<n]" by simp
    have "EncodeFromArray_mem data \<noteq> Inr bs" for bs
    proof
      assume "EncodeFromArray_mem data = Inr bs"
      then have "enc_segments data ([0..<n - 1] @ [n - 1]) 0 (of_nat ?len) = Inr bs" using e l by simp
      from enc_segments_last [OF this, unfolded s] have "(of_nat ?len :: u32) - of_nat (sum_list [0..<n] * ?m) = 0" using sm(1) n by linarith
      then have "(of_nat ?len :: u32) = of_nat (sum_list [0..<n] * ?m)" by (simp only: right_minus_eq)
      moreover have "unat (of_nat k :: u32) = k" if "k < 2 ^ 32" for k using that by (simp add: unat_of_nat)
      ultimately have "?len = sum_list [0..<n] * ?m" using sm(2) n lim by (metis less_le_trans zero_less_numeral)
      then show False using sm(1) n by linarith
    qed
    then show ?thesis using more by simp
  qed
qed

theorem base64_mem_two_segments_witness:
  "\<exists>bs. EncodeFromArray_mem [77, 97] = Inr bs \<and> concat bs = ''TWE=''"
  using base64_mem_two_segments [of "[77, 97]"] by (simp add: seg_pos b64_char_def Base64Table_def)

text \<open>
  The encoder from an offset looks at bytes behind the used part of a block, since it compares the index in the block
  with the size of the whole buffer; the encoder of a range of blocks gives nothing for a range that does not start
  with the first block.
\<close>

lemma offset_mixes_stale_bytes:
  "EncodeFromArray_offset [([77, 7, 7], 1), ([97, 0, 0], 1)] [] 0 = Inl OutOfBounds" "b64 [77, 97] = ''TWE=''"
  by (simp_all add: EncodeFromArray_offset_def enc_loop.simps enc_turn_def Let_def b64_char_def Base64Table_def copy_in_def)

lemma range_not_from_start: "0 < start_block \<Longrightarrow> EncodeFromArray_range blks start_block end_block = Inr []"
  by (cases blks) (auto simp: EncodeFromArray_range_def copy_in_def)

end
