(* ===== verification/Crc32.thy ===== *)
theory Crc32
  imports Prelude
begin

text \<open>
  The checksum of \<open>lib_bsp/eventservice/util/crc32.cpp\<close>, which takes one byte at a time through a table and eight bytes
  in each turn of its loop. The index of the table is cut to eight bits, so the sign of \<open>char\<close> does not matter. The
  reference shifts one bit at a time.
\<close>

definition crc_table :: "u32 list" where
  "crc_table =
    [0x00000000, 0x77073096, 0xee0e612c, 0x990951ba, 0x076dc419, 0x706af48f, 0xe963a535, 0x9e6495a3,
     0x0edb8832, 0x79dcb8a4, 0xe0d5e91e, 0x97d2d988, 0x09b64c2b, 0x7eb17cbd, 0xe7b82d07, 0x90bf1d91,
     0x1db71064, 0x6ab020f2, 0xf3b97148, 0x84be41de, 0x1adad47d, 0x6ddde4eb, 0xf4d4b551, 0x83d385c7,
     0x136c9856, 0x646ba8c0, 0xfd62f97a, 0x8a65c9ec, 0x14015c4f, 0x63066cd9, 0xfa0f3d63, 0x8d080df5,
     0x3b6e20c8, 0x4c69105e, 0xd56041e4, 0xa2677172, 0x3c03e4d1, 0x4b04d447, 0xd20d85fd, 0xa50ab56b,
     0x35b5a8fa, 0x42b2986c, 0xdbbbc9d6, 0xacbcf940, 0x32d86ce3, 0x45df5c75, 0xdcd60dcf, 0xabd13d59,
     0x26d930ac, 0x51de003a, 0xc8d75180, 0xbfd06116, 0x21b4f4b5, 0x56b3c423, 0xcfba9599, 0xb8bda50f,
     0x2802b89e, 0x5f058808, 0xc60cd9b2, 0xb10be924, 0x2f6f7c87, 0x58684c11, 0xc1611dab, 0xb6662d3d,
     0x76dc4190, 0x01db7106, 0x98d220bc, 0xefd5102a, 0x71b18589, 0x06b6b51f, 0x9fbfe4a5, 0xe8b8d433,
     0x7807c9a2, 0x0f00f934, 0x9609a88e, 0xe10e9818, 0x7f6a0dbb, 0x086d3d2d, 0x91646c97, 0xe6635c01,
     0x6b6b51f4, 0x1c6c6162, 0x856530d8, 0xf262004e, 0x6c0695ed, 0x1b01a57b, 0x8208f4c1, 0xf50fc457,
     0x65b0d9c6, 0x12b7e950, 0x8bbeb8ea, 0xfcb9887c, 0x62dd1ddf, 0x15da2d49, 0x8cd37cf3, 0xfbd44c65,
     0x4db26158, 0x3ab551ce, 0xa3bc0074, 0xd4bb30e2, 0x4adfa541, 0x3dd895d7, 0xa4d1c46d, 0xd3d6f4fb,
     0x4369e96a, 0x346ed9fc, 0xad678846, 0xda60b8d0, 0x44042d73, 0x33031de5, 0xaa0a4c5f, 0xdd0d7cc9,
     0x5005713c, 0x270241aa, 0xbe0b1010, 0xc90c2086, 0x5768b525, 0x206f85b3, 0xb966d409, 0xce61e49f,
     0x5edef90e, 0x29d9c998, 0xb0d09822, 0xc7d7a8b4, 0x59b33d17, 0x2eb40d81, 0xb7bd5c3b, 0xc0ba6cad,
     0xedb88320, 0x9abfb3b6, 0x03b6e20c, 0x74b1d29a, 0xead54739, 0x9dd277af, 0x04db2615, 0x73dc1683,
     0xe3630b12, 0x94643b84, 0x0d6d6a3e, 0x7a6a5aa8, 0xe40ecf0b, 0x9309ff9d, 0x0a00ae27, 0x7d079eb1,
     0xf00f9344, 0x8708a3d2, 0x1e01f268, 0x6906c2fe, 0xf762575d, 0x806567cb, 0x196c3671, 0x6e6b06e7,
     0xfed41b76, 0x89d32be0, 0x10da7a5a, 0x67dd4acc, 0xf9b9df6f, 0x8ebeeff9, 0x17b7be43, 0x60b08ed5,
     0xd6d6a3e8, 0xa1d1937e, 0x38d8c2c4, 0x4fdff252, 0xd1bb67f1, 0xa6bc5767, 0x3fb506dd, 0x48b2364b,
     0xd80d2bda, 0xaf0a1b4c, 0x36034af6, 0x41047a60, 0xdf60efc3, 0xa867df55, 0x316e8eef, 0x4669be79,
     0xcb61b38c, 0xbc66831a, 0x256fd2a0, 0x5268e236, 0xcc0c7795, 0xbb0b4703, 0x220216b9, 0x5505262f,
     0xc5ba3bbe, 0xb2bd0b28, 0x2bb45a92, 0x5cb36a04, 0xc2d7ffa7, 0xb5d0cf31, 0x2cd99e8b, 0x5bdeae1d,
     0x9b64c2b0, 0xec63f226, 0x756aa39c, 0x026d930a, 0x9c0906a9, 0xeb0e363f, 0x72076785, 0x05005713,
     0x95bf4a82, 0xe2b87a14, 0x7bb12bae, 0x0cb61b38, 0x92d28e9b, 0xe5d5be0d, 0x7cdcefb7, 0x0bdbdf21,
     0x86d3d2d4, 0xf1d4e242, 0x68ddb3f8, 0x1fda836e, 0x81be16cd, 0xf6b9265b, 0x6fb077e1, 0x18b74777,
     0x88085ae6, 0xff0f6a70, 0x66063bca, 0x11010b5c, 0x8f659eff, 0xf862ae69, 0x616bffd3, 0x166ccf45,
     0xa00ae278, 0xd70dd2ee, 0x4e048354, 0x3903b3c2, 0xa7672661, 0xd06016f7, 0x4969474d, 0x3e6e77db,
     0xaed16a4a, 0xd9d65adc, 0x40df0b66, 0x37d83bf0, 0xa9bcae53, 0xdebb9ec5, 0x47b2cf7f, 0x30b5ffe9,
     0xbdbdf21c, 0xcabac28a, 0x53b39330, 0x24b4a3a6, 0xbad03605, 0xcdd70693, 0x54de5729, 0x23d967bf,
     0xb3667a2e, 0xc4614ab8, 0x5d681b02, 0x2a6f2b94, 0xb40bbe37, 0xc30c8ea1, 0x5a05df1b, 0x2d02ef8d]"

definition DO1 :: "u32 \<Rightarrow> byte \<Rightarrow> u32" where
  "DO1 crc b = crc_table ! unat ((crc XOR ucast b) AND 0xff) XOR drop_bit 8 crc"

function crc_loop :: "u32 \<Rightarrow> byte list \<Rightarrow> u32" where
  "crc_loop crc buf = (if length buf \<ge> 8 then crc_loop (foldl DO1 crc (take 8 buf)) (drop 8 buf) else foldl DO1 crc buf)"
  by pat_completeness auto
termination by (relation "measure (\<lambda>(c, b). length b)") auto

declare crc_loop.simps [simp del]

definition crc32_my :: "u32 \<Rightarrow> byte list \<Rightarrow> u32" where
  "crc32_my crc buf = crc_loop (crc XOR 0xffffffff) buf XOR 0xffffffff"

section \<open>The bitwise checksum\<close>

definition crc32_bit :: "u32 \<Rightarrow> u32" where
  "crc32_bit c = drop_bit 1 c XOR (if bit c 0 then 0xedb88320 else 0)"

definition crc32_byte :: "u32 \<Rightarrow> byte \<Rightarrow> u32" where
  "crc32_byte c b = (crc32_bit ^^ 8) (c XOR ucast b)"

lemma crc_loop_foldl: "crc_loop crc buf = foldl DO1 crc buf"
proof (induction crc buf rule: crc_loop.induct)
  case (1 crc buf)
  have f: "foldl DO1 crc buf = foldl DO1 (foldl DO1 crc (take 8 buf)) (drop 8 buf)" by (metis append_take_drop_id foldl_append)
  show ?case
  proof (cases "length buf \<ge> 8")
    case True
    then have "crc_loop crc buf = crc_loop (foldl DO1 crc (take 8 buf)) (drop 8 buf)" by (subst crc_loop.simps) (simp only: if_True)
    also have "\<dots> = foldl DO1 crc buf" using 1 [OF True] f by simp
    finally show ?thesis .
  next
    case False
    then show ?thesis by (subst crc_loop.simps) (simp only: if_False)
  qed
qed

section \<open>The table\<close>

text \<open>The bitwise step is linear, so the table is determined by its entries at the powers of two.\<close>

lemma crc32_bit_xor: "crc32_bit (x XOR y) = crc32_bit x XOR crc32_bit y"
proof -
  have "drop_bit 1 (x XOR y) = drop_bit 1 x XOR drop_bit 1 y" by simp
  then show ?thesis unfolding crc32_bit_def by (simp only: bit_xor_iff) (cases "bit x 0"; cases "bit y 0"; simp add: ac_simps xor.left_commute)
qed

lemma crc_bits_xor: "(crc32_bit ^^ n) (x XOR y) = (crc32_bit ^^ n) x XOR (crc32_bit ^^ n) y"
  by (induction n) (simp_all add: crc32_bit_xor)

lemma crc32_bit_chain:
  "crc32_bit 1 = 0xedb88320" "crc32_bit 0xedb88320 = 0x76dc4190" "crc32_bit 0x76dc4190 = 0x3b6e20c8" "crc32_bit 0x3b6e20c8 = 0x1db71064"
  "crc32_bit 0x1db71064 = 0x0edb8832" "crc32_bit 0x0edb8832 = 0x076dc419" "crc32_bit 0x076dc419 = 0xee0e612c" "crc32_bit 0xee0e612c = 0x77073096"
  "crc32_bit 2 = 1" "crc32_bit 4 = 2" "crc32_bit 8 = 4" "crc32_bit 16 = 8" "crc32_bit 32 = 16" "crc32_bit 64 = 32" "crc32_bit 128 = 64"
  by (simp_all add: crc32_bit_def)

lemma length_crc_table: "length crc_table = 256"
  by (simp add: crc_table_def)

lemma crc32_bit_8: "(crc32_bit ^^ 8) x = crc32_bit (crc32_bit (crc32_bit (crc32_bit (crc32_bit (crc32_bit (crc32_bit (crc32_bit x)))))))"
  by (simp add: eval_nat_numeral)

lemma table_powers:
  "crc_table ! 1 = (crc32_bit ^^ 8) 1" "crc_table ! 2 = (crc32_bit ^^ 8) 2" "crc_table ! 4 = (crc32_bit ^^ 8) 4" "crc_table ! 8 = (crc32_bit ^^ 8) 8"
  "crc_table ! 16 = (crc32_bit ^^ 8) 16" "crc_table ! 32 = (crc32_bit ^^ 8) 32" "crc_table ! 64 = (crc32_bit ^^ 8) 64" "crc_table ! 128 = (crc32_bit ^^ 8) 128"
  unfolding crc_table_def by (simp_all add: crc32_bit_8 crc32_bit_chain)

lemma table_blocks:
  "map (\<lambda>v. v XOR crc_table ! 1) (take 1 crc_table) = take 1 (drop 1 crc_table)"
  "map (\<lambda>v. v XOR crc_table ! 2) (take 2 crc_table) = take 2 (drop 2 crc_table)"
  "map (\<lambda>v. v XOR crc_table ! 4) (take 4 crc_table) = take 4 (drop 4 crc_table)"
  "map (\<lambda>v. v XOR crc_table ! 8) (take 8 crc_table) = take 8 (drop 8 crc_table)"
  "map (\<lambda>v. v XOR crc_table ! 16) (take 16 crc_table) = take 16 (drop 16 crc_table)"
  "map (\<lambda>v. v XOR crc_table ! 32) (take 32 crc_table) = take 32 (drop 32 crc_table)"
  "map (\<lambda>v. v XOR crc_table ! 64) (take 64 crc_table) = take 64 (drop 64 crc_table)"
  "map (\<lambda>v. v XOR crc_table ! 128) (take 128 crc_table) = take 128 (drop 128 crc_table)"
  unfolding crc_table_def by simp_all

lemma table_double:
  assumes "map (\<lambda>v. v XOR crc_table ! m) (take m crc_table) = take m (drop m crc_table)" "m = 2 ^ k" "2 * m \<le> 256"
    and "crc_table ! m = (crc32_bit ^^ 8) (of_nat m)" "\<And>n. n < m \<Longrightarrow> crc_table ! n = (crc32_bit ^^ 8) (of_nat n)" "n < 2 * m"
  shows "crc_table ! n = (crc32_bit ^^ 8) (of_nat n)"
proof (cases "n < m")
  case False
  define j where "j = n - m"
  have j: "n = m + j" "j < m" using False assms(6) by (auto simp: j_def)
  have "crc_table ! n = take m (drop m crc_table) ! j" using j assms(3) by (simp add: length_crc_table)
  also have "\<dots> = crc_table ! j XOR crc_table ! m" using j assms(3) by (simp add: assms(1) [symmetric] length_crc_table)
  also have "\<dots> = (crc32_bit ^^ 8) (of_nat j XOR of_nat m)" using assms(4,5) j by (simp add: crc_bits_xor)
  also have "of_nat j XOR of_nat m = (of_nat n :: u32)"
  proof -
    have "of_nat j AND of_nat m = (0 :: u32)"
    proof (rule bit_word_eqI)
      fix i assume "i < LENGTH(32)"
      have "\<not> bit j i" if "k \<le> i"
      proof -
        have "(2 :: nat) ^ k \<le> 2 ^ i" using that by simp
        then have "j < 2 ^ i" using j(2) assms(2) by linarith
        then show ?thesis by (simp add: bit_iff_odd)
      qed
      then have "bit j i \<Longrightarrow> i < k" by (meson not_le)
      then show "bit (of_nat j AND of_nat m :: u32) i = bit 0 i" by (auto simp: bit_simps assms(2))
    qed
    then show ?thesis using j(1) by (simp add: disjunctive_add_eq_xor add.commute)
  qed
  finally show ?thesis .
qed (use assms(5) in simp)

lemma table_bitwise:
  assumes "n < 256"
  shows "crc_table ! n = (crc32_bit ^^ 8) (of_nat n)"
proof -
  have 0: "crc_table ! n = (crc32_bit ^^ 8) (of_nat n)" if "n < 1" for n using that by (simp add: crc_table_def crc32_bit_8 crc32_bit_def)
  have 1: "crc_table ! n = (crc32_bit ^^ 8) (of_nat n)" if "n < 2" for n by (rule table_double [OF table_blocks(1), of 0]) (use that 0 table_powers(1) in simp_all)
  have 2: "crc_table ! n = (crc32_bit ^^ 8) (of_nat n)" if "n < 4" for n by (rule table_double [OF table_blocks(2), of 1]) (use that 1 table_powers(2) in simp_all)
  have 3: "crc_table ! n = (crc32_bit ^^ 8) (of_nat n)" if "n < 8" for n by (rule table_double [OF table_blocks(3), of 2]) (use that 2 table_powers(3) in simp_all)
  have 4: "crc_table ! n = (crc32_bit ^^ 8) (of_nat n)" if "n < 16" for n by (rule table_double [OF table_blocks(4), of 3]) (use that 3 table_powers(4) in simp_all)
  have 5: "crc_table ! n = (crc32_bit ^^ 8) (of_nat n)" if "n < 32" for n by (rule table_double [OF table_blocks(5), of 4]) (use that 4 table_powers(5) in simp_all)
  have 6: "crc_table ! n = (crc32_bit ^^ 8) (of_nat n)" if "n < 64" for n by (rule table_double [OF table_blocks(6), of 5]) (use that 5 table_powers(6) in simp_all)
  have 7: "crc_table ! n = (crc32_bit ^^ 8) (of_nat n)" if "n < 128" for n by (rule table_double [OF table_blocks(7), of 6]) (use that 6 table_powers(7) in simp_all)
  show ?thesis by (rule table_double [OF table_blocks(8), of 7]) (use assms 7 table_powers(8) in simp_all)
qed

section \<open>Properties\<close>

lemma crc_bits_zero: "(\<And>i. i < n \<Longrightarrow> \<not> bit x i) \<Longrightarrow> (crc32_bit ^^ n) x = drop_bit n x"
proof (induction n)
  case (Suc n)
  have "\<not> bit (drop_bit n x) 0" using Suc.prems [of n] by (simp only: bit_drop_bit_eq comp_apply) simp
  with Suc show ?case by (simp add: crc32_bit_def)
qed simp

lemma DO1_bitwise: "DO1 crc b = crc32_byte crc b"
proof -
  define x where "x = crc XOR (ucast b :: u32)"
  have m: "(0xff :: u32) = mask 8" by (simp add: mask_eq_exp_minus_1)
  have split: "x = (x AND 0xff) XOR push_bit 8 (drop_bit 8 x)" unfolding m by (rule bit_word_eqI) (auto simp: bit_simps)
  have "(crc32_bit ^^ 8) (push_bit 8 (drop_bit 8 x)) = drop_bit 8 (push_bit 8 (drop_bit 8 x))"
    by (rule crc_bits_zero) (simp add: bit_simps)
  also have "\<dots> = drop_bit 8 crc" unfolding x_def by (rule bit_word_eqI) (auto simp: bit_simps dest: bit_imp_le_length)
  finally have hi: "(crc32_bit ^^ 8) (push_bit 8 (drop_bit 8 x)) = drop_bit 8 crc" .
  have "unat (x AND 0xff) < 2 ^ 8" unfolding m by (simp only: take_bit_eq_mask [symmetric] unsigned_take_bit_eq take_bit_nat_less_exp)
  then have "crc_table ! unat (x AND 0xff) = (crc32_bit ^^ 8) (x AND 0xff)" using table_bitwise [of "unat (x AND 0xff)"] by simp
  then have "DO1 crc b = (crc32_bit ^^ 8) (x AND 0xff) XOR (crc32_bit ^^ 8) (push_bit 8 (drop_bit 8 x))" by (simp only: DO1_def x_def [symmetric] hi)
  also have "\<dots> = (crc32_bit ^^ 8) x" using split by (simp only: crc_bits_xor [symmetric])
  finally show ?thesis by (simp add: crc32_byte_def x_def)
qed

lemma xor_cancel: "a XOR k = b XOR k \<Longrightarrow> a = b" for a b k :: u32
proof -
  assume "a XOR k = b XOR k"
  then have "(a XOR k) XOR k = (b XOR k) XOR k" by (simp only:)
  then show "a = b" by (simp only: xor.assoc xor_self_eq xor.right_neutral)
qed

lemma crc32_bit_inj: "crc32_bit x = crc32_bit y \<Longrightarrow> x = y"
proof -
  assume h: "crc32_bit x = crc32_bit y"
  have "\<not> bit z 32" for z :: u32 by (auto dest: bit_imp_le_length)
  then have top: "bit (crc32_bit z) 31 = bit z 0" for z by (cases "bit z 0") (simp_all add: crc32_bit_def bit_simps)
  then have b0: "bit x 0 = bit y 0" using h by metis
  then have "drop_bit 1 x = drop_bit 1 y" using h by (cases "bit x 0") (auto simp: crc32_bit_def dest: xor_cancel)
  then have "bit (drop_bit 1 x) i = bit (drop_bit 1 y) i" for i by simp
  then have "bit x (Suc i) = bit y (Suc i)" for i by (simp only: bit_drop_bit_eq comp_apply plus_1_eq_Suc)
  then show "x = y" using b0 by (intro bit_word_eqI) (metis not0_implies_Suc)
qed

lemma crc_bits_inj: "(crc32_bit ^^ n) x = (crc32_bit ^^ n) y \<Longrightarrow> x = y"
  by (induction n) (auto dest: crc32_bit_inj)

lemma crc32_byte_inj:
  "crc32_byte c b = crc32_byte c' b \<Longrightarrow> c = c'" "crc32_byte c b = crc32_byte c b' \<Longrightarrow> b = b'"
proof -
  assume "crc32_byte c b = crc32_byte c' b"
  then have "c XOR ucast b = c' XOR ucast b" unfolding crc32_byte_def by (rule crc_bits_inj)
  then show "c = c'" by (rule xor_cancel)
next
  assume "crc32_byte c b = crc32_byte c b'"
  then have "c XOR ucast b = c XOR ucast b'" unfolding crc32_byte_def by (rule crc_bits_inj)
  then have "(ucast b :: u32) = ucast b'" using xor.commute [of c] by (intro xor_cancel [of "ucast b" c "ucast b'"]) simp
  moreover have "ucast (ucast z :: u32) = z" for z :: byte by (rule bit_word_eqI) (simp add: bit_simps)
  ultimately show "b = b'" by metis
qed

lemma foldl_crc_inj: "foldl crc32_byte c bs = foldl crc32_byte c' bs \<Longrightarrow> c = c'"
  by (induction bs arbitrary: c c') (auto dest: crc32_byte_inj(1))

text \<open>C22. The table-driven checksum is the bitwise CRC-32, it can be taken piece by piece, and it changes whenever one
  byte is replaced by another.\<close>

theorem crc32_bitwise:
  "crc32_my crc buf = foldl crc32_byte (crc XOR 0xffffffff) buf XOR 0xffffffff \<and> crc32_my (crc32_my crc buf) more = crc32_my crc (buf @ more) \<and>
   (i < length buf \<and> x \<noteq> buf ! i \<longrightarrow> crc32_my crc (buf[i := x]) \<noteq> crc32_my crc buf)"
proof -
  have "DO1 = crc32_byte" by (intro ext) (rule DO1_bitwise)
  then have e: "crc32_my c bs = foldl crc32_byte (c XOR 0xffffffff) bs XOR 0xffffffff" for c bs by (simp add: crc32_my_def crc_loop_foldl)
  have xx: "(c XOR 0xffffffff) XOR 0xffffffff = c" for c :: u32 by (simp only: xor.assoc xor_self_eq xor.right_neutral)
  have "crc32_my (crc32_my crc buf) more = crc32_my crc (buf @ more)" unfolding e foldl_append xx ..
  moreover have "crc32_my crc (buf[i := x]) \<noteq> crc32_my crc buf" if h: "i < length buf" "x \<noteq> buf ! i"
  proof
    let ?s = "crc XOR 0xffffffff"
    assume "crc32_my crc (buf[i := x]) = crc32_my crc buf"
    then have "crc32_my crc (buf[i := x]) XOR 0xffffffff = crc32_my crc buf XOR 0xffffffff" by (simp only:)
    then have eq: "foldl crc32_byte ?s (buf[i := x]) = foldl crc32_byte ?s buf" unfolding e xx .
    have "foldl crc32_byte ?s buf = foldl crc32_byte ?s (take i buf @ buf ! i # drop (Suc i) buf)" by (rule arg_cong [OF id_take_nth_drop [OF h(1)]])
    with eq h(1) have "foldl crc32_byte (crc32_byte (foldl crc32_byte ?s (take i buf)) x) (drop (Suc i) buf) =
        foldl crc32_byte (crc32_byte (foldl crc32_byte ?s (take i buf)) (buf ! i)) (drop (Suc i) buf)" by (simp add: upd_conv_take_nth_drop)
    then show False using h(2) foldl_crc_inj crc32_byte_inj(2) by blast
  qed
  ultimately show ?thesis using e by blast
qed

theorem crc32_bitwise_witness: "crc32_my 0 [49, 51] \<noteq> crc32_my 0 [49, 50]"
  using crc32_bitwise [of 0 "[49, 50]" "[]" 1 51, THEN conjunct2, THEN conjunct2] by simp

end
