(* ===== verification/Kvdb_File.thy ===== *)
theory Kvdb_File
  imports Text_Util Byte_Order "HOL-Library.AList"
begin

text \<open>
  The key-value store of \<open>lib_bsp/kvdb/kvdb/kvdboperatefile.cpp\<close>: a value is a file with a mark, a length and a
  checksum before the bytes; in safe mode a second copy is kept and reads check the first. The file system is a list
  of files in the order of the directory, with the paths that cannot be written, those that cannot be read and the
  bytes that can still be stored; writes are cut when there is no room. Local variables that are read before a short
  file has filled them have the values of an argument. \<open>ReadFile\<close> calls itself after it rewrote a file of the old
  format; \<open>None\<close> stands for a recursion that does not end. The checker of parameters parses JSON with a library and
  is an argument. Paths are opaque strings, not normalised, and no key is the path of a folder. The room is a budget of
  bytes for all later writes: removing or truncating a file gives nothing back.
\<close>

section \<open>Files\<close>

datatype KvdbError =
    KVDB_ERR_OK | KVDB_ERR_OPEN_FILE | KVDB_ERR_WRITE_FILE | KVDB_ERR_READ_FILE | KVDB_ERR_PARSE_FILE
  | KVDB_ERR_INVALID_PARAM | KVDB_ERR_SEEK_NULL | KVDB_ERR_FULL | KVDB_ERR_DELETE_FILE | KVDB_ERR_OPEN_FOLD
  | KVDB_ERR_FILE_CHECK | KVDB_ERR_FILE_DONTEXIST | KVDB_ERR_UNKNOWN

record kvfs =
  fs_files :: "(string \<times> byte list) list"
  fs_dirs :: "string list"
  fs_denied :: "string list"
  fs_unreadable :: "string list"
  fs_room :: nat

abbreviation file_at :: "kvfs \<Rightarrow> string \<Rightarrow> byte list option" where
  "file_at fs p \<equiv> map_of (fs_files fs) p"

definition put_file :: "string \<Rightarrow> byte list \<Rightarrow> kvfs \<Rightarrow> kvfs" where
  "put_file p bs fs = fs\<lparr>fs_files := AList.update p bs (fs_files fs)\<rparr>"

definition del_file :: "string \<Rightarrow> kvfs \<Rightarrow> kvfs" where
  "del_file p fs = fs\<lparr>fs_files := AList.delete p (fs_files fs)\<rparr>"

text \<open>Opening a file for writing needs its folder, and fails on the path of a folder.\<close>

definition fold_of :: "string \<Rightarrow> string" where
  "fold_of p = rev (drop 1 (dropWhile (\<lambda>c. c \<noteq> CHR ''/'') (rev p)))"

definition can_write :: "kvfs \<Rightarrow> string \<Rightarrow> bool" where
  "can_write fs p \<longleftrightarrow> p \<notin> set (fs_denied fs) \<and> fold_of p \<in> set (fs_dirs fs) \<and> p \<notin> set (fs_dirs fs)"

text \<open>\<open>XFile::write_data\<close> at the end of an open file: \<open>-1\<close> for no bytes, or the number of bytes written.\<close>

definition write_data :: "string \<Rightarrow> byte list \<Rightarrow> kvfs \<Rightarrow> int \<times> kvfs" where
  "write_data p bs fs =
     (if bs = [] then (- 1, fs)
      else let n = min (length bs) (fs_room fs)
           in (int n, (put_file p ((case file_at fs p of None \<Rightarrow> [] | Some old \<Rightarrow> old) @ take n bs) fs)\<lparr>fs_room := fs_room fs - n\<rparr>))"

text \<open>\<open>XFile::read_data\<close> into a variable: the bytes of a short file replace the first bytes only.\<close>

definition read_var :: "byte list \<Rightarrow> byte list \<Rightarrow> byte list" where
  "read_var old rest = take (length old) rest @ drop (length rest) old"

definition remove_file :: "string \<Rightarrow> kvfs \<Rightarrow> bool \<times> kvfs" where
  "remove_file p fs = (if file_at fs p = None \<or> p \<in> set (fs_denied fs) then (False, fs) else (True, del_file p fs))"

section \<open>The store\<close>

record KvdbOperateFile =
  kv_foldpath :: string
  kv_property :: u32

record kv_check =
  check_param_valid :: "byte list \<Rightarrow> byte list \<Rightarrow> bool"
  get_default_param :: "byte list \<Rightarrow> byte list"

record read_junk =
  rj_flag :: "byte list"
  rj_len :: "byte list"
  rj_sum :: byte

definition KVDB_FILE_HEAD_FLAG :: u32 where
  "KVDB_FILE_HEAD_FLAG = 0x565a"

definition safe_mode :: "KvdbOperateFile \<Rightarrow> bool" where
  "safe_mode kv \<longleftrightarrow> kv_property kv AND 1 \<noteq> 0"

definition GetWholePath :: "nat \<Rightarrow> string \<Rightarrow> string \<Rightarrow> bool \<Rightarrow> string" where
  "GetWholePath maxlen parentfold endpath backupflag =
     take (maxlen - 1) (parentfold @ ''/'' @ cstr endpath @ (if backupflag then ''_bak'' else ''''))"

definition kv_checksum :: "u32 \<Rightarrow> byte list \<Rightarrow> byte" where
  "kv_checksum len bs = foldl (XOR) (foldl (XOR) 0 (map (\<lambda>i. ucast (drop_bit (i * 8) len)) [0, 1, 2, 3])) bs"

fun write_parts :: "string \<Rightarrow> byte list list \<Rightarrow> kvfs \<Rightarrow> KvdbError \<times> kvfs" where
  "write_parts p [] fs = (KVDB_ERR_OK, fs)"
| "write_parts p (bs # bss) fs =
     (case write_data p bs fs of (w_len, fs1) \<Rightarrow>
        if w_len \<noteq> int (length bs) then (KVDB_ERR_WRITE_FILE, fs1) else write_parts p bss fs1)"

definition WriteFile :: "bool \<Rightarrow> KvdbOperateFile \<Rightarrow> string \<Rightarrow> byte list \<Rightarrow> bool \<Rightarrow> kvfs \<Rightarrow> KvdbError \<times> kvfs" where
  "WriteFile big kv key buffer isbak fs =
     (let p = GetWholePath 1029 (kv_foldpath kv) key isbak;
          len = of_nat (length buffer) :: u32
      in if \<not> can_write fs p then (KVDB_ERR_OPEN_FILE, fs)
         else write_parts p
                [host_bytes big 4 KVDB_FILE_HEAD_FLAG, host_bytes big 4 len, [kv_checksum len buffer], buffer]
                (put_file p [] fs))"

text \<open>The two loops that read a file in pieces of 1024 bytes.\<close>

function read_rest :: "byte list \<Rightarrow> byte list \<Rightarrow> byte list" where
  "read_rest acc rest = (if rest = [] then acc else read_rest (acc @ take 1024 rest) (drop 1024 rest))"
  by pat_completeness auto
termination by (relation "measure (\<lambda>(a, r). length r)") auto

function read_body_loop :: "int \<Rightarrow> nat \<Rightarrow> byte list \<Rightarrow> byte list \<Rightarrow> nat \<times> byte list" where
  "read_body_loop len rdlen acc rest =
     (if int rdlen < len
      then let cur = min (nat len - rdlen) 1024; rd = length (take cur rest)
           in if rd = 0 then (rdlen, acc)
              else read_body_loop len (rdlen + rd) (acc @ take cur rest) (drop cur rest)
      else (rdlen, acc))"
  by pat_completeness auto
termination by (relation "measure (\<lambda>(l, d, a, r). length r)") auto

declare read_rest.simps [simp del] read_body_loop.simps [simp del]

definition read_body :: "bool \<Rightarrow> read_junk \<Rightarrow> KvdbOperateFile \<Rightarrow> byte list \<Rightarrow> KvdbError \<times> byte list" where
  "read_body big j kv content =
     (let len = host_word big (read_var (rj_len j) (drop 4 content)) :: u32;
          checksum = hd (read_var [rj_sum j] (drop 8 content));
          (rdlen, data) = read_body_loop (sint len) 0 [] (drop 9 content)
      in if safe_mode kv \<and> (int rdlen \<noteq> sint len \<or> kv_checksum len data \<noteq> checksum) then (KVDB_ERR_FILE_CHECK, data)
         else (KVDB_ERR_OK, data))"

partial_function (option) ReadFile ::
  "bool \<Rightarrow> read_junk \<Rightarrow> KvdbOperateFile \<Rightarrow> string \<Rightarrow> bool \<Rightarrow> byte list \<Rightarrow> kvfs \<Rightarrow> (KvdbError \<times> byte list \<times> kvfs) option" where
  "ReadFile big j kv key isbak get_data fs =
     (let p = GetWholePath 1029 (kv_foldpath kv) key isbak
      in if file_at fs p = None \<or> p \<in> set (fs_unreadable fs) then Some (KVDB_ERR_FILE_DONTEXIST, get_data, fs)
         else let content = the (file_at fs p)
              in if host_word big (read_var (rj_flag j) content) \<noteq> KVDB_FILE_HEAD_FLAG
                 then if isbak then Some (KVDB_ERR_FILE_CHECK, get_data, fs)
                      else ReadFile big j kv key isbak (read_rest get_data content)
                             (snd (WriteFile big kv key (read_rest get_data content) False fs))
                 else case read_body big j kv content of (r, data) \<Rightarrow> Some (r, data, fs))"

definition key_ok :: "string \<Rightarrow> bool" where
  "key_ok key \<longleftrightarrow> length key \<noteq> 0 \<and> length key \<le> 64"

definition WriteKey :: "bool \<Rightarrow> read_junk \<Rightarrow> kv_check \<Rightarrow> KvdbOperateFile \<Rightarrow> string \<Rightarrow> byte list \<Rightarrow> kvfs
    \<Rightarrow> (KvdbError \<times> kvfs) option" where
  "WriteKey big j c kv key value fs =
     (if \<not> key_ok key then Some (KVDB_ERR_INVALID_PARAM, fs)
      else case ReadFile big j kv (key @ ''_match'') False [] fs of
             None \<Rightarrow> None
           | Some (readret, match_value, fs1) \<Rightarrow>
               if readret = KVDB_ERR_OK \<and> \<not> check_param_valid c value match_value then Some (KVDB_ERR_FILE_CHECK, fs1)
               else case WriteFile big kv key value False fs1 of (ret, fs2) \<Rightarrow>
                      Some (if safe_mode kv then WriteFile big kv key value True fs2 else (ret, fs2)))"

definition ReadKey :: "bool \<Rightarrow> read_junk \<Rightarrow> kv_check \<Rightarrow> KvdbOperateFile \<Rightarrow> string \<Rightarrow> byte list \<Rightarrow> kvfs
    \<Rightarrow> (KvdbError \<times> byte list \<times> kvfs) option" where
  "ReadKey big j c kv key get_value fs =
     (if \<not> key_ok key then Some (KVDB_ERR_INVALID_PARAM, get_value, fs)
      else case ReadFile big j kv (key @ ''_match'') False [] fs of
             None \<Rightarrow> None
           | Some (readret, md, fs1) \<Rightarrow>
               let sdefault = get_default_param c md;
                   has_default = (readret = KVDB_ERR_OK \<and> sdefault \<noteq> []);
                   checked = (\<lambda>v. if has_default \<and> \<not> check_param_valid c v md then sdefault else v)
               in case ReadFile big j kv key False [] fs1 of
                    None \<Rightarrow> None
                  | Some (ret, v, fs2) \<Rightarrow>
                      if ret = KVDB_ERR_OK then Some (KVDB_ERR_OK, checked v, fs2)
                      else if safe_mode kv
                      then (case ReadFile big j kv key True v fs2 of
                              None \<Rightarrow> None
                            | Some (ret2, v2, fs3) \<Rightarrow>
                                if ret2 = KVDB_ERR_OK then Some (KVDB_ERR_OK, checked v2, fs3)
                                else if has_default then Some (KVDB_ERR_OK, checked sdefault, fs3)
                                else Some (ret2, v2, fs3))
                      else if has_default then Some (KVDB_ERR_OK, checked sdefault, fs2)
                      else Some (ret, v, fs2))"

definition kv_Remove :: "KvdbOperateFile \<Rightarrow> string \<Rightarrow> kvfs \<Rightarrow> KvdbError \<times> kvfs" where
  "kv_Remove kv key fs =
     (if \<not> key_ok key then (KVDB_ERR_INVALID_PARAM, fs)
      else case remove_file (GetWholePath 133 (kv_foldpath kv) key False) fs of (ok, fs1) \<Rightarrow>
             if \<not> ok then (KVDB_ERR_WRITE_FILE, fs1)
             else (KVDB_ERR_OK, snd (remove_file (GetWholePath 133 (kv_foldpath kv) key True) fs1)))"

definition SetProperty :: "u32 \<Rightarrow> KvdbOperateFile \<Rightarrow> KvdbError \<times> KvdbOperateFile" where
  "SetProperty property kv = (KVDB_ERR_OK, kv\<lparr>kv_property := property\<rparr>)"

section \<open>Basic facts\<close>

lemma put_file_simps [simp]:
  "file_at (put_file p bs fs) q = (if q = p then Some bs else file_at fs q)"
  "fs_denied (put_file p bs fs) = fs_denied fs" "fs_unreadable (put_file p bs fs) = fs_unreadable fs"
  "fs_room (put_file p bs fs) = fs_room fs" "fs_dirs (put_file p bs fs) = fs_dirs fs"
  by (simp_all add: put_file_def update_conv')

lemma del_file_simps [simp]:
  "file_at (del_file p fs) q = (if q = p then None else file_at fs q)"
  "fs_denied (del_file p fs) = fs_denied fs" "fs_unreadable (del_file p fs) = fs_unreadable fs"
  "fs_dirs (del_file p fs) = fs_dirs fs" "fs_room (del_file p fs) = fs_room fs"
  by (simp_all add: del_file_def delete_conv')

lemma read_rest_eq: "read_rest acc rest = acc @ rest"
  by (induction acc rest rule: read_rest.induct) (auto simp: read_rest.simps)

lemma read_body_loop_eq:
  "read_body_loop len k acc rest = (k + length (take (nat len - k) rest), acc @ take (nat len - k) rest)"
proof (induction len k acc rest rule: read_body_loop.induct)
  case (1 len k acc rest)
  show ?case
  proof (cases "int k < len")
    case False
    then show ?thesis by (simp add: read_body_loop.simps)
  next
    case True
    define cur where "cur = min (nat len - k) 1024"
    have cur: "0 < cur" "cur \<le> nat len - k" using True by (auto simp: cur_def)
    have step: "read_body_loop len k acc rest = (if rest = [] then (k, acc)
        else read_body_loop len (k + length (take cur rest)) (acc @ take cur rest) (drop cur rest))"
    proof -
      have "length (take cur rest) = 0 \<longleftrightarrow> rest = []" using cur(1) by (cases rest) auto
      then show ?thesis using True by (subst read_body_loop.simps) (simp only: Let_def cur_def [symmetric] if_True)
    qed
    show ?thesis
    proof (cases "rest = []")
      case False
      have "read_body_loop len (k + length (take cur rest)) (acc @ take cur rest) (drop cur rest) =
        (k + length (take cur rest) + length (take (nat len - (k + length (take cur rest))) (drop cur rest)),
         (acc @ take cur rest) @ take (nat len - (k + length (take cur rest))) (drop cur rest))"
        using 1 [OF True cur_def refl] False cur(1) by simp
      moreover have eq: "take cur rest @ take (nat len - (k + length (take cur rest))) (drop cur rest) = take (nat len - k) rest"
      proof (cases "cur \<le> length rest")
        case True
        have "cur + (nat len - (k + cur)) = nat len - k" using cur(2) by simp
        then show ?thesis using True take_add [of cur "nat len - (k + cur)" rest] by (auto simp: min_def)
      qed (use cur in auto)
      moreover from eq have "length (take cur rest) + length (take (nat len - (k + length (take cur rest))) (drop cur rest)) =
        length (take (nat len - k) rest)" by (metis length_append)
      ultimately show ?thesis using False unfolding step by simp
    qed (use step in simp)
  qed
qed

definition kv_file :: "bool \<Rightarrow> byte list \<Rightarrow> byte list" where
  "kv_file big v = host_bytes big 4 KVDB_FILE_HEAD_FLAG @ host_bytes big 4 (of_nat (length v) :: u32) @
     [kv_checksum (of_nat (length v)) v] @ v"

text \<open>Junk of the right size.\<close>

definition junk_ok :: "read_junk \<Rightarrow> bool" where
  "junk_ok j \<longleftrightarrow> length (rj_flag j) = 4 \<and> length (rj_len j) = 4"

lemma read_var_full: "length old \<le> length rest \<Longrightarrow> read_var old rest = take (length old) rest"
  by (simp add: read_var_def)

lemma read_body_flagged:
  assumes "junk_ok j" "content = host_bytes big 4 KVDB_FILE_HEAD_FLAG @ host_bytes big 4 len @ [s] @ v"
  shows "read_body big j kv content =
    (if safe_mode kv \<and> (int (length (take (nat (sint len)) v)) \<noteq> sint len \<or> kv_checksum len (take (nat (sint len)) v) \<noteq> s)
     then (KVDB_ERR_FILE_CHECK, take (nat (sint len)) v) else (KVDB_ERR_OK, take (nat (sint len)) v))"
    "host_word big (read_var (rj_flag j) content) = KVDB_FILE_HEAD_FLAG"
proof -
  have "read_var (rj_len j) (drop 4 content) = host_bytes big 4 len" "hd (read_var [rj_sum j] (drop 8 content)) = s" "drop 9 content = v"
    and f: "read_var (rj_flag j) content = host_bytes big 4 KVDB_FILE_HEAD_FLAG"
    using assms by (simp_all add: read_var_full junk_ok_def)
  then show "read_body big j kv content =
    (if safe_mode kv \<and> (int (length (take (nat (sint len)) v)) \<noteq> sint len \<or> kv_checksum len (take (nat (sint len)) v) \<noteq> s)
     then (KVDB_ERR_FILE_CHECK, take (nat (sint len)) v) else (KVDB_ERR_OK, take (nat (sint len)) v))"
    by (simp add: read_body_def host_word_bytes read_body_loop_eq)
  show "host_word big (read_var (rj_flag j) content) = KVDB_FILE_HEAD_FLAG" using f by (simp add: host_word_bytes)
qed

section \<open>Writing a file\<close>

definition frame_fs :: "string \<Rightarrow> kvfs \<Rightarrow> kvfs \<Rightarrow> bool" where
  "frame_fs p fs fs' \<longleftrightarrow> (\<forall>q. q \<noteq> p \<longrightarrow> file_at fs' q = file_at fs q) \<and> fs_denied fs' = fs_denied fs \<and>
     fs_unreadable fs' = fs_unreadable fs \<and> fs_dirs fs' = fs_dirs fs"

lemma frame_fs_refl [simp]: "frame_fs p fs fs"
  by (simp add: frame_fs_def)

lemma frame_fs_trans: "frame_fs p fs fs' \<Longrightarrow> frame_fs p fs' fs'' \<Longrightarrow> frame_fs p fs fs''"
  by (simp add: frame_fs_def)

lemma frame_fsD: "frame_fs p fs fs' \<Longrightarrow> q \<noteq> p \<Longrightarrow> file_at fs' q = file_at fs q" "frame_fs p fs fs' \<Longrightarrow> can_write fs' q = can_write fs q"
  "frame_fs p fs fs' \<Longrightarrow> fs_unreadable fs' = fs_unreadable fs"
  by (simp_all add: frame_fs_def can_write_def)

lemma write_parts_frame: "write_parts p bss fs = (r, fs') \<Longrightarrow> frame_fs p fs fs'"
proof (induction bss arbitrary: fs)
  case (Cons bs bss)
  obtain w fs1 where w: "write_data p bs fs = (w, fs1)" by (cases "write_data p bs fs")
  then have "frame_fs p fs fs1" by (auto simp: write_data_def frame_fs_def Let_def split: if_splits)
  with Cons w show ?case by (auto split: if_splits intro: frame_fs_trans)
qed simp

lemma write_parts_content:
  assumes "file_at fs p = Some c" "[] \<notin> set bss"
  shows "\<exists>fs'. write_parts p bss fs = (if length (concat bss) \<le> fs_room fs then KVDB_ERR_OK else KVDB_ERR_WRITE_FILE, fs') \<and>
    file_at fs' p = Some (c @ take (fs_room fs) (concat bss)) \<and> fs_room fs' = fs_room fs - length (concat bss)"
  using assms
proof (induction bss arbitrary: fs c)
  case (Cons bs bss)
  define n where "n = min (length bs) (fs_room fs)"
  define fs1 where "fs1 = (put_file p (c @ take n bs) fs)\<lparr>fs_room := fs_room fs - n\<rparr>"
  have w: "write_data p bs fs = (int n, fs1)" using Cons.prems by (auto simp: write_data_def n_def fs1_def Let_def)
  have fs1: "file_at fs1 p = Some (c @ take n bs)" "fs_room fs1 = fs_room fs - n" by (simp_all add: fs1_def put_file_def update_conv')
  show ?case
  proof (cases "length bs \<le> fs_room fs")
    case True
    then have "n = length bs" by (simp add: n_def)
    with w Cons.IH [OF fs1(1)] Cons.prems(2) fs1(2) True show ?thesis by (auto simp: le_diff_conv2 add.commute)
  next
    case False
    then show ?thesis using w fs1 by (auto simp: n_def)
  qed
qed simp

lemma write_parts_empty: "[] \<in> set bss \<Longrightarrow> fst (write_parts p bss fs) \<noteq> KVDB_ERR_OK"
proof (induction bss arbitrary: fs)
  case (Cons bs bss)
  then show ?case by (cases "bs = []") (auto simp: write_data_def split: prod.splits)
qed simp

declare write_parts.simps [simp del]

abbreviation kv_path :: "KvdbOperateFile \<Rightarrow> string \<Rightarrow> bool \<Rightarrow> string" where
  "kv_path kv key isbak \<equiv> GetWholePath 1029 (kv_foldpath kv) key isbak"

lemma WriteFile_frame: "WriteFile big kv key v isbak fs = (r, fs') \<Longrightarrow> frame_fs (kv_path kv key isbak) fs fs'"
proof -
  assume w: "WriteFile big kv key v isbak fs = (r, fs')"
  have "frame_fs p fs (put_file p [] fs)" for p by (simp add: frame_fs_def)
  with w show ?thesis by (auto simp: WriteFile_def Let_def split: if_splits intro: frame_fs_trans dest: write_parts_frame)
qed

lemma length_kv_file: "length (kv_file big v) = length v + 9"
  by (simp add: kv_file_def)

text \<open>A write that may open its file stores the whole file, or the part there was room for and then no room is left.\<close>

lemma WriteFile_result:
  assumes "can_write fs (kv_path kv key isbak)" "v \<noteq> []"
  shows "\<exists>fs'. WriteFile big kv key v isbak fs =
      (if length v + 9 \<le> fs_room fs then KVDB_ERR_OK else KVDB_ERR_WRITE_FILE, fs') \<and>
    file_at fs' (kv_path kv key isbak) = Some (take (fs_room fs) (kv_file big v)) \<and> fs_room fs' = fs_room fs - (length v + 9)"
proof -
  let ?p = "kv_path kv key isbak" and ?len = "of_nat (length v) :: u32"
  let ?ps = "[host_bytes big 4 KVDB_FILE_HEAD_FLAG, host_bytes big 4 ?len, [kv_checksum ?len v], v]"
  have "host_bytes big 4 w \<noteq> []" for w :: u32 using length_host_bytes [of big 4 w] by (metis list.size(3) zero_neq_numeral)
  then have "[] \<notin> set ?ps" using assms(2) by (simp add: eq_commute [of "[]"])
  moreover have ps: "concat ?ps = kv_file big v" by (simp add: kv_file_def)
  ultimately obtain fs' where
    "write_parts ?p ?ps (put_file ?p [] fs) = (if length v + 9 \<le> fs_room fs then KVDB_ERR_OK else KVDB_ERR_WRITE_FILE, fs')"
    "file_at fs' ?p = Some (take (fs_room fs) (kv_file big v))" "fs_room fs' = fs_room fs - (length v + 9)"
    using write_parts_content [of "put_file ?p [] fs" ?p "[]" ?ps] unfolding ps length_kv_file by auto
  then show ?thesis using assms(1) unfolding WriteFile_def Let_def by simp
qed

lemma WriteFile_empty: "fst (WriteFile big kv key [] isbak fs) \<noteq> KVDB_ERR_OK"
  using write_parts_empty by (simp add: WriteFile_def Let_def)

lemma WriteFile_OK:
  assumes "WriteFile big kv key v isbak fs = (KVDB_ERR_OK, fs')"
  shows "file_at fs' (kv_path kv key isbak) = Some (kv_file big v)" "v \<noteq> []" "length v + 9 \<le> fs_room fs"
    "fs_room fs' = fs_room fs - (length v + 9)"
proof -
  have d: "can_write fs (kv_path kv key isbak)" using assms by (auto simp: WriteFile_def Let_def split: if_splits)
  show v: "v \<noteq> []" using assms WriteFile_empty by (metis fst_conv)
  from WriteFile_result [OF d v, of big] assms show "length v + 9 \<le> fs_room fs" "fs_room fs' = fs_room fs - (length v + 9)"
    "file_at fs' (kv_path kv key isbak) = Some (kv_file big v)" by (auto simp: length_kv_file split: if_splits)
qed

section \<open>Reading a file\<close>

lemma ReadFile_absent:
  "file_at fs (kv_path kv key isbak) = None \<or> kv_path kv key isbak \<in> set (fs_unreadable fs) \<Longrightarrow>
     ReadFile big j kv key isbak d fs = Some (KVDB_ERR_FILE_DONTEXIST, d, fs)"
  by (subst ReadFile.simps) (simp add: Let_def)

lemma ReadFile_marked:
  assumes "file_at fs (kv_path kv key isbak) = Some content" "kv_path kv key isbak \<notin> set (fs_unreadable fs)"
    and "host_word big (read_var (rj_flag j) content) = KVDB_FILE_HEAD_FLAG"
  shows "ReadFile big j kv key isbak d fs = Some (fst (read_body big j kv content), snd (read_body big j kv content), fs)"
  using assms by (subst ReadFile.simps) (simp add: Let_def split: prod.splits)

lemma ReadFile_bad_backup:
  assumes "file_at fs (kv_path kv key True) = Some content" "kv_path kv key True \<notin> set (fs_unreadable fs)"
    and "host_word big (read_var (rj_flag j) content) \<noteq> KVDB_FILE_HEAD_FLAG"
  shows "ReadFile big j kv key True d fs = Some (KVDB_ERR_FILE_CHECK, d, fs)"
  using assms by (subst ReadFile.simps) (simp add: Let_def)

lemma ReadFile_old_format:
  assumes "file_at fs (kv_path kv key False) = Some content" "kv_path kv key False \<notin> set (fs_unreadable fs)"
    and "host_word big (read_var (rj_flag j) content) \<noteq> KVDB_FILE_HEAD_FLAG"
  shows "ReadFile big j kv key False d fs = ReadFile big j kv key False (d @ content) (snd (WriteFile big kv key (d @ content) False fs))"
  using assms by (subst ReadFile.simps) (simp add: Let_def read_rest_eq)

text \<open>A file that was written in full is read back.\<close>

lemma ReadFile_written:
  assumes "junk_ok j" "file_at fs (kv_path kv key isbak) = Some (kv_file big v)" "kv_path kv key isbak \<notin> set (fs_unreadable fs)"
    "length v < 2 ^ 31"
  shows "ReadFile big j kv key isbak d fs = Some (KVDB_ERR_OK, v, fs)"
proof -
  note b = read_body_flagged [OF assms(1) kv_file_def [of big v, unfolded append.assoc]]
  have "sint (of_nat (length v) :: u32) = int (length v)" using assms(4) by (rule sint_of_nat_small)
  then have "read_body big j kv (kv_file big v) = (KVDB_ERR_OK, v)" using b(1) by simp
  with ReadFile_marked [OF assms(2,3) b(2)] show ?thesis by simp
qed

text \<open>Reading touches only the file itself, and once it has succeeded it gives the same result again.\<close>

definition read_stable :: "bool \<Rightarrow> read_junk \<Rightarrow> KvdbOperateFile \<Rightarrow> string \<Rightarrow> bool \<Rightarrow> kvfs \<Rightarrow> KvdbError \<times> byte list \<times> kvfs \<Rightarrow> bool" where
  "read_stable big j kv key isbak fs y \<longleftrightarrow>
     (case y of (r, d1, fs1) \<Rightarrow> frame_fs (kv_path kv key isbak) fs fs1 \<and>
       (\<forall>d2 fs2. file_at fs2 (kv_path kv key isbak) = file_at fs1 (kv_path kv key isbak) \<longrightarrow> fs_unreadable fs2 = fs_unreadable fs1 \<longrightarrow>
          (\<exists>d3. ReadFile big j kv key isbak d2 fs2 = Some (r, d3, fs2) \<and> (r = KVDB_ERR_OK \<longrightarrow> d3 = d1))))"

lemma ReadFile_stable:
  assumes "ReadFile big j kv key isbak d fs = Some y"
  shows "read_stable big j kv key isbak fs y"
proof (rule ReadFile.raw_induct [where P = "\<lambda>big j kv key isbak d fs y. read_stable big j kv key isbak fs y", rotated, OF assms])
  fix f :: "bool \<Rightarrow> read_junk \<Rightarrow> KvdbOperateFile \<Rightarrow> string \<Rightarrow> bool \<Rightarrow> byte list \<Rightarrow> kvfs \<Rightarrow> (KvdbError \<times> byte list \<times> kvfs) option"
    and big j kv key isbak d fs y
  assume IH: "\<And>big j kv key isbak d fs y. f big j kv key isbak d fs = Some y \<Longrightarrow> read_stable big j kv key isbak fs y"
    and body: "(let p = kv_path kv key isbak
      in if file_at fs p = None \<or> p \<in> set (fs_unreadable fs) then Some (KVDB_ERR_FILE_DONTEXIST, d, fs)
         else let content = the (file_at fs p)
              in if host_word big (read_var (rj_flag j) content) \<noteq> KVDB_FILE_HEAD_FLAG
                 then if isbak then Some (KVDB_ERR_FILE_CHECK, d, fs)
                      else f big j kv key isbak (read_rest d content) (snd (WriteFile big kv key (read_rest d content) False fs))
                 else case read_body big j kv content of (r, data) \<Rightarrow> Some (r, data, fs)) = Some y"
  let ?p = "kv_path kv key isbak"
  consider "file_at fs ?p = None \<or> ?p \<in> set (fs_unreadable fs)"
    | content where "file_at fs ?p = Some content" "?p \<notin> set (fs_unreadable fs)" "host_word big (read_var (rj_flag j) content) = KVDB_FILE_HEAD_FLAG"
    | content where "file_at fs ?p = Some content" "?p \<notin> set (fs_unreadable fs)" "host_word big (read_var (rj_flag j) content) \<noteq> KVDB_FILE_HEAD_FLAG"
    by (cases "file_at fs ?p") blast+
  then show "read_stable big j kv key isbak fs y"
  proof cases
    case 1
    with body have "y = (KVDB_ERR_FILE_DONTEXIST, d, fs)" by (auto simp: Let_def)
    with 1 show ?thesis by (auto simp: read_stable_def ReadFile_absent)
  next
    case 2
    with body have "y = (fst (read_body big j kv content), snd (read_body big j kv content), fs)"
      by (auto simp: Let_def split: prod.splits)
    with 2 ReadFile_marked show ?thesis by (auto simp: read_stable_def)
  next
    case 3
    show ?thesis
    proof (cases isbak)
      case True
      with 3 body have "y = (KVDB_ERR_FILE_CHECK, d, fs)" by (auto simp: Let_def)
      with 3 True ReadFile_bad_backup show ?thesis by (auto simp: read_stable_def)
    next
      case False
      let ?fs = "snd (WriteFile big kv key (read_rest d content) False fs)"
      from 3 body False have "f big j kv key isbak (read_rest d content) ?fs = Some y" by (auto simp: Let_def)
      then have "read_stable big j kv key isbak ?fs y" by (rule IH)
      moreover have "frame_fs ?p fs ?fs" using WriteFile_frame False by (metis surjective_pairing)
      ultimately show ?thesis by (auto simp: read_stable_def intro: frame_fs_trans)
    qed
  qed
qed

lemma ReadFile_again:
  assumes "ReadFile big j kv key isbak d fs = Some (r, d1, fs1)"
    and "file_at fs2 (kv_path kv key isbak) = file_at fs1 (kv_path kv key isbak)" "fs_unreadable fs2 = fs_unreadable fs"
  shows "\<exists>d3. ReadFile big j kv key isbak d2 fs2 = Some (r, d3, fs2) \<and> (r = KVDB_ERR_OK \<longrightarrow> d3 = d1)"
proof -
  have s: "read_stable big j kv key isbak fs (r, d1, fs1)" using assms(1) by (rule ReadFile_stable)
  then have "fs_unreadable fs1 = fs_unreadable fs" by (simp add: read_stable_def frame_fs_def)
  with s assms(2,3) show ?thesis unfolding read_stable_def prod.case by metis
qed

section \<open>Paths\<close>

definition kv_wf :: "KvdbOperateFile \<Rightarrow> bool" where
  "kv_wf kv \<longleftrightarrow> length (kv_foldpath kv) \<le> 128"

definition plain_key :: "string \<Rightarrow> bool" where
  "plain_key key \<longleftrightarrow> key_ok key \<and> NUL \<notin> set key"

lemma kv_path_eq:
  "kv_wf kv \<Longrightarrow> NUL \<notin> set key \<Longrightarrow> length key \<le> 70 \<Longrightarrow>
     kv_path kv key isbak = kv_foldpath kv @ ''/'' @ key @ (if isbak then ''_bak'' else '''')"
  by (auto simp: GetWholePath_def kv_wf_def)

lemma paths_apart:
  assumes "kv_wf kv" "plain_key key"
  shows "kv_path kv key True \<noteq> kv_path kv key False" "kv_path kv (key @ ''_match'') False \<noteq> kv_path kv key b"
proof -
  have "length key \<le> 64" "NUL \<notin> set key" "NUL \<notin> set (key @ ''_match'')" using assms(2) by (auto simp: plain_key_def key_ok_def)
  then show "kv_path kv key True \<noteq> kv_path kv key False" "kv_path kv (key @ ''_match'') False \<noteq> kv_path kv key b"
    using kv_path_eq [OF assms(1), of key] kv_path_eq [OF assms(1), of "key @ ''_match''"] by simp_all
qed

text \<open>The files of two keys that are not each other's copy or description.\<close>

definition unrelated :: "string \<Rightarrow> string \<Rightarrow> bool" where
  "unrelated k1 k2 \<longleftrightarrow> k1 \<noteq> k2 \<and> k1 \<noteq> k2 @ ''_bak'' \<and> k2 \<noteq> k1 @ ''_bak'' \<and> k1 \<noteq> k2 @ ''_match'' \<and> k2 \<noteq> k1 @ ''_match''"

section \<open>Writing and reading a key\<close>

text \<open>What a successful write leaves: the copy in safe mode, and the main file unless it could not be opened.\<close>

lemma WriteKey_files:
  assumes "kv_wf kv" "plain_key key" "WriteKey big j c kv key v fs = Some (KVDB_ERR_OK, fs')" "can_write fs (kv_path kv key False)"
  shows "file_at fs' (kv_path kv key False) = Some (kv_file big v)" "safe_mode kv \<Longrightarrow> file_at fs' (kv_path kv key True) = Some (kv_file big v)"
    "fs_unreadable fs' = fs_unreadable fs" "v \<noteq> []"
    and "\<exists>r md fs1. ReadFile big j kv (key @ ''_match'') False [] fs = Some (r, md, fs1) \<and> (r = KVDB_ERR_OK \<longrightarrow> check_param_valid c v md) \<and>
      file_at fs' (kv_path kv (key @ ''_match'') False) = file_at fs1 (kv_path kv (key @ ''_match'') False)"
proof -
  let ?p = "kv_path kv key" and ?m = "kv_path kv (key @ ''_match'') False"
  have "key_ok key" using assms(2) by (simp add: plain_key_def)
  with assms(3) obtain r md fs1 where m: "ReadFile big j kv (key @ ''_match'') False [] fs = Some (r, md, fs1)"
    "r = KVDB_ERR_OK \<longrightarrow> check_param_valid c v md"
    "Some (if safe_mode kv then WriteFile big kv key v True (snd (WriteFile big kv key v False fs1)) else WriteFile big kv key v False fs1) =
       Some (KVDB_ERR_OK, fs')"
    by (auto simp: WriteKey_def split: option.splits prod.splits if_splits)
  obtain r2 fs2 where w: "WriteFile big kv key v False fs1 = (r2, fs2)" by (cases "WriteFile big kv key v False fs1")
  have f1: "frame_fs ?m fs fs1" using ReadFile_stable [OF m(1)] by (simp add: read_stable_def)
  have f2: "frame_fs (?p False) fs1 fs2" using WriteFile_frame [OF w] .
  have d: "can_write fs1 (?p False)" using assms(4) frame_fsD(2) [OF f1] by simp
  note apart = paths_apart [OF assms(1,2)]
  have all: "file_at fs' (?p False) = Some (kv_file big v) \<and> (safe_mode kv \<longrightarrow> file_at fs' (?p True) = Some (kv_file big v)) \<and>
    fs_unreadable fs' = fs_unreadable fs \<and> v \<noteq> [] \<and> file_at fs' ?m = file_at fs1 ?m"
  proof (cases "safe_mode kv")
    case False
    with m(3) w have "r2 = KVDB_ERR_OK" "fs2 = fs'" by auto
    with WriteFile_OK [of big kv key v False fs1 fs2] w f1 f2 apart(2) False show ?thesis by (simp add: frame_fs_def)
  next
    case True
    with m(3) w have w2: "WriteFile big kv key v True fs2 = (KVDB_ERR_OK, fs')" by simp
    note ok = WriteFile_OK [OF w2]
    from WriteFile_result [OF d ok(2), of big] w ok(3)
    have "r2 = KVDB_ERR_OK" by (auto split: if_splits)
    with w have "file_at fs2 (?p False) = Some (kv_file big v)" by (auto dest: WriteFile_OK(1))
    moreover have f3: "frame_fs (?p True) fs2 fs'" using WriteFile_frame [OF w2] .
    ultimately show ?thesis using ok f1 f2 apart by (simp add: frame_fs_def)
  qed
  then show "file_at fs' (?p False) = Some (kv_file big v)" "safe_mode kv \<Longrightarrow> file_at fs' (?p True) = Some (kv_file big v)"
    "fs_unreadable fs' = fs_unreadable fs" "v \<noteq> []" by auto
  show "\<exists>r md fs1. ReadFile big j kv (key @ ''_match'') False [] fs = Some (r, md, fs1) \<and> (r = KVDB_ERR_OK \<longrightarrow> check_param_valid c v md) \<and>
      file_at fs' ?m = file_at fs1 ?m" using m(1,2) all by auto
qed

text \<open>Reading a key whose main file, or whose copy in safe mode, holds the value.\<close>

lemma ReadKey_value:
  assumes "junk_ok j" "kv_wf kv" "plain_key key" "length v < 2 ^ 31"
    and match: "ReadFile big j kv (key @ ''_match'') False [] fs = Some (r, md, fs)" "r = KVDB_ERR_OK \<longrightarrow> check_param_valid c v md"
    and main: "ReadFile big j kv key False [] fs = Some (rm, dm, fs)"
    and "rm = KVDB_ERR_OK \<and> dm = v \<or>
      rm \<noteq> KVDB_ERR_OK \<and> safe_mode kv \<and> file_at fs (kv_path kv key True) = Some (kv_file big v) \<and> kv_path kv key True \<notin> set (fs_unreadable fs)"
  shows "ReadKey big j c kv key x fs = Some (KVDB_ERR_OK, v, fs)"
proof -
  have k: "key_ok key" using assms(3) by (simp add: plain_key_def)
  show ?thesis using assms(8)
  proof (elim disjE conjE)
    assume "rm = KVDB_ERR_OK" "dm = v"
    with k match main show ?thesis by (auto simp: ReadKey_def Let_def)
  next
    assume rm: "rm \<noteq> KVDB_ERR_OK" "safe_mode kv" "file_at fs (kv_path kv key True) = Some (kv_file big v)" "kv_path kv key True \<notin> set (fs_unreadable fs)"
    from ReadFile_written [OF assms(1) rm(3,4) assms(4)] rm(1,2) k match main show ?thesis by (auto simp: ReadKey_def Let_def)
  qed
qed

section \<open>What the checksum detects\<close>

lemma foldl_xor: "foldl (XOR) a bs = a XOR foldl (XOR) 0 bs" for a :: byte
proof (induction bs arbitrary: a)
  case (Cons b bs)
  show ?case using Cons [of "a XOR b"] Cons [of "0 XOR b"] by (simp add: xor.assoc)
qed simp

lemma foldl_xor_update:
  fixes a :: byte
  assumes "i < length bs" "x \<noteq> bs ! i"
  shows "foldl (XOR) a (bs[i := x]) \<noteq> foldl (XOR) a bs"
proof
  let ?p = "foldl (XOR) a (take i bs)" and ?q = "foldl (XOR) 0 (drop (Suc i) bs)"
  have f: "foldl (XOR) a (take i bs @ y # drop (Suc i) bs) = ?p XOR y XOR ?q" for y
    using foldl_xor [of "?p XOR y"] by (simp add: xor.assoc)
  assume "foldl (XOR) a (bs[i := x]) = foldl (XOR) a bs"
  moreover have "bs[i := x] = take i bs @ x # drop (Suc i) bs" "bs = take i bs @ bs ! i # drop (Suc i) bs"
    using assms(1) by (rule upd_conv_take_nth_drop, rule id_take_nth_drop)
  ultimately have eq: "?p XOR x XOR ?q = ?p XOR bs ! i XOR ?q" using f [of x] f [of "bs ! i"] by simp
  have "x = bs ! i"
  proof (rule bit_eqI)
    fix n show "bit x n = bit (bs ! i) n" using arg_cong [OF eq, of "\<lambda>w. bit w n"] by (auto simp: bit_xor_iff)
  qed
  with assms(2) show False ..
qed

lemma checksum_update: "i < length v \<Longrightarrow> x \<noteq> v ! i \<Longrightarrow> kv_checksum len (v[i := x]) \<noteq> kv_checksum len v"
  by (simp add: kv_checksum_def foldl_xor_update del: foldl.simps)

text \<open>A changed checksum or value byte, and a value that was cut, are noticed.\<close>

lemma damaged_body:
  assumes "junk_ok j" "safe_mode kv" "length v < 2 ^ 31"
    and "(\<exists>i x. 8 \<le> i \<and> i < length v + 9 \<and> x \<noteq> kv_file big v ! i \<and> f = (kv_file big v)[i := x]) \<or>
      (\<exists>n. 9 \<le> n \<and> n < length v + 9 \<and> f = take n (kv_file big v))"
  shows "fst (read_body big j kv f) = KVDB_ERR_FILE_CHECK" "host_word big (read_var (rj_flag j) f) = KVDB_FILE_HEAD_FLAG"
proof -
  let ?len = "of_nat (length v) :: u32"
  have len: "sint ?len = int (length v)" using assms(3) by (rule sint_of_nat_small)
  obtain s w where f: "f = host_bytes big 4 KVDB_FILE_HEAD_FLAG @ host_bytes big 4 ?len @ [s] @ w"
    and bad: "length w < length v \<or> length w = length v \<and> kv_checksum ?len w \<noteq> s"
    using assms(4)
  proof (elim disjE exE conjE)
    fix i x assume i: "8 \<le> i" "i < length v + 9" "x \<noteq> kv_file big v ! i" "f = (kv_file big v)[i := x]"
    show thesis
    proof (cases "i = 8")
      case True
      with i(3,4) show ?thesis by (intro that [of x v]) (auto simp: kv_file_def list_update_append nth_append)
    next
      case False
      define k where "k = i - 9"
      have k: "i = k + 9" "k < length v" using i(1,2) False by (auto simp: k_def)
      with i(3,4) checksum_update [of k v x ?len] show ?thesis
        by (intro that [of "kv_checksum ?len v" "v[k := x]"]) (auto simp: kv_file_def list_update_append nth_append)
    qed
  next
    fix n assume n: "9 \<le> n" "n < length v + 9" "f = take n (kv_file big v)"
    define k where "k = n - 9"
    have "n = k + 9" "k < length v" using n(1,2) by (auto simp: k_def)
    with n(3) show thesis by (intro that [of "kv_checksum ?len v" "take k v"]) (auto simp: kv_file_def)
  qed
  note b = read_body_flagged [OF assms(1) f]
  show "host_word big (read_var (rj_flag j) f) = KVDB_FILE_HEAD_FLAG" by (rule b(2))
  show "fst (read_body big j kv f) = KVDB_ERR_FILE_CHECK" unfolding b(1) len using bad assms(2) by auto
qed

section \<open>Properties\<close>

text \<open>A value that \<open>WriteKey\<close> has stored is what \<open>ReadKey\<close> returns, in either mode and with any description of the
  key that the checker accepts it under, provided the main file could be opened.\<close>

lemma kvdb_write_read:
  assumes "junk_ok j" "kv_wf kv" "plain_key key" "length v < 2 ^ 31" "WriteKey big j c kv key v fs = Some (KVDB_ERR_OK, fs')"
    and "can_write fs (kv_path kv key False)" "kv_path kv key False \<notin> set (fs_unreadable fs)"
  shows "ReadKey big j c kv key x fs' = Some (KVDB_ERR_OK, v, fs')"
proof -
  note w = WriteKey_files [OF assms(2,3,5,6)]
  from w(5) obtain r md fs1 where m: "ReadFile big j kv (key @ ''_match'') False [] fs = Some (r, md, fs1)" "r = KVDB_ERR_OK \<longrightarrow> check_param_valid c v md"
    "file_at fs' (kv_path kv (key @ ''_match'') False) = file_at fs1 (kv_path kv (key @ ''_match'') False)" by auto
  from ReadFile_again [OF m(1,3) w(3)] obtain d3 where "ReadFile big j kv (key @ ''_match'') False [] fs' = Some (r, d3, fs')"
    "r = KVDB_ERR_OK \<longrightarrow> d3 = md" by blast
  moreover have "ReadFile big j kv key False [] fs' = Some (KVDB_ERR_OK, v, fs')"
    using ReadFile_written [OF assms(1) w(1) _ assms(4)] assms(7) w(3) by simp
  ultimately show ?thesis using m(2) by (intro ReadKey_value [OF assms(1-4), where md = d3]) auto
qed

text \<open>With room for two copies and no description a write succeeds.\<close>

lemma WriteKey_succeeds:
  assumes "plain_key key" "v \<noteq> []" "2 * (length v + 9) \<le> fs_room fs" "file_at fs (kv_path kv (key @ ''_match'') False) = None"
    and "can_write fs (kv_path kv key False)" "can_write fs (kv_path kv key True)"
  shows "\<exists>fs'. WriteKey big j c kv key v fs = Some (KVDB_ERR_OK, fs')"
proof -
  have m: "ReadFile big j kv (key @ ''_match'') False [] fs = Some (KVDB_ERR_FILE_DONTEXIST, [], fs)"
    using assms(4) by (intro ReadFile_absent) simp
  from WriteFile_result [OF assms(5,2), of big] assms(3) obtain fs1 where w1: "WriteFile big kv key v False fs = (KVDB_ERR_OK, fs1)"
    "fs_room fs1 = fs_room fs - (length v + 9)" by auto
  have "can_write fs1 (kv_path kv key True)" using assms(6) frame_fsD(2) [OF WriteFile_frame [OF w1(1)]] by simp
  from WriteFile_result [OF this assms(2), of big] w1(2) assms(3) obtain fs2 where w2: "WriteFile big kv key v True fs1 = (KVDB_ERR_OK, fs2)"
    by auto
  show ?thesis using assms(1) m w1(1) w2 by (simp add: WriteKey_def plain_key_def)
qed

definition kv_sample :: KvdbOperateFile where
  "kv_sample = \<lparr>kv_foldpath = ''/kv'', kv_property = 1\<rparr>"

definition junk_sample :: read_junk where
  "junk_sample = \<lparr>rj_flag = [0, 0, 0, 0], rj_len = [0, 0, 0, 0], rj_sum = 0\<rparr>"

definition check_sample :: kv_check where
  "check_sample = \<lparr>check_param_valid = \<lambda>_ _. True, get_default_param = \<lambda>_. []\<rparr>"

definition fs_sample :: kvfs where
  "fs_sample = \<lparr>fs_files = [], fs_dirs = [''/kv''], fs_denied = [], fs_unreadable = [], fs_room = 1000\<rparr>"

lemmas kv_samples = kv_sample_def junk_sample_def check_sample_def fs_sample_def

lemma sample_facts:
  "junk_ok junk_sample" "kv_wf kv_sample" "plain_key ''vol''" "safe_mode kv_sample" "plain_key ''map''" "unrelated ''vol'' ''map''"
  by (simp_all add: kv_samples junk_ok_def kv_wf_def plain_key_def key_ok_def safe_mode_def unrelated_def)

lemma sample_can_write: "can_write fs_sample (kv_path kv_sample ''vol'' b)" "can_write fs_sample (kv_path kv_sample ''map'' b)"
  by (cases b; simp add: can_write_def fold_of_def fs_sample_def kv_sample_def GetWholePath_def)+

lemma sample_write: "\<exists>fs'. WriteKey False junk_sample check_sample kv_sample ''vol'' [5, 6] fs_sample = Some (KVDB_ERR_OK, fs')"
  using sample_facts sample_can_write by (intro WriteKey_succeeds) (simp_all add: fs_sample_def)

text \<open>C15. In safe mode a stored value survives these three kinds of damage to its main file: the file is lost; one byte of
  the checksum or of the value (position 8 and up) is changed; or the file is cut, but keeps at least the 9 bytes of mark,
  length and checksum. Then \<open>ReadKey\<close> returns the value from the copy. Damage to the mark or the length, and cuts that
  leave fewer than 9 bytes, are not covered: a main file that is empty or has lost its mark is taken for one of the old
  format and hides the copy (theorem \<open>kvdb_empty_main\<close>). The value is shorter than \<open>2 ^ 31\<close> bytes, its files can be
  read and written, and the key is a plain file name.\<close>

theorem kvdb_recovers:
  assumes "junk_ok j" "kv_wf kv" "plain_key key" "length v < 2 ^ 31" "WriteKey big j c kv key v fs = Some (KVDB_ERR_OK, fs')"
    and "safe_mode kv" "can_write fs (kv_path kv key False)" "fs_unreadable fs = []"
    and "fs'' = del_file (kv_path kv key False) fs' \<or>
      (\<exists>i x. 8 \<le> i \<and> i < length v + 9 \<and> x \<noteq> kv_file big v ! i \<and> fs'' = put_file (kv_path kv key False) ((kv_file big v)[i := x]) fs') \<or>
      (\<exists>n. 9 \<le> n \<and> n < length v + 9 \<and> fs'' = put_file (kv_path kv key False) (take n (kv_file big v)) fs')"
  shows "file_at fs' (kv_path kv key False) = Some (kv_file big v) \<and> ReadKey big j c kv key x0 fs'' = Some (KVDB_ERR_OK, v, fs'')"
proof -
  note w = WriteKey_files [OF assms(2,3,5,7)]
  note apart = paths_apart [OF assms(2,3)]
  let ?m = "kv_path kv (key @ ''_match'') False"
  have un: "fs_unreadable fs'' = fs_unreadable fs" and other: "q \<noteq> kv_path kv key False \<Longrightarrow> file_at fs'' q = file_at fs' q" for q
    using assms(9) w(3) by auto
  from w(5) obtain r md fs1 where m: "ReadFile big j kv (key @ ''_match'') False [] fs = Some (r, md, fs1)" "r = KVDB_ERR_OK \<longrightarrow> check_param_valid c v md"
    "file_at fs' ?m = file_at fs1 ?m" by auto
  have "file_at fs'' ?m = file_at fs1 ?m" using m(3) other [OF apart(2)] by simp
  from ReadFile_again [OF m(1) this un] obtain d3 where m2: "ReadFile big j kv (key @ ''_match'') False [] fs'' = Some (r, d3, fs'')"
    "r = KVDB_ERR_OK \<longrightarrow> check_param_valid c v d3" using m(2) by blast
  have "\<exists>rm dm. ReadFile big j kv key False [] fs'' = Some (rm, dm, fs'') \<and> rm \<noteq> KVDB_ERR_OK"
  proof (cases "fs'' = del_file (kv_path kv key False) fs'")
    case True
    then show ?thesis using ReadFile_absent [of fs'' kv key False big j "[]"] by simp
  next
    case False
    with assms(9) obtain f where f: "fs'' = put_file (kv_path kv key False) f fs'"
      "(\<exists>i x. 8 \<le> i \<and> i < length v + 9 \<and> x \<noteq> kv_file big v ! i \<and> f = (kv_file big v)[i := x]) \<or>
       (\<exists>n. 9 \<le> n \<and> n < length v + 9 \<and> f = take n (kv_file big v))" by blast
    note d = damaged_body [OF assms(1,6,4) f(2)]
    have "file_at fs'' (kv_path kv key False) = Some f" "kv_path kv key False \<notin> set (fs_unreadable fs'')" using f(1) un assms(8) by simp_all
    from ReadFile_marked [OF this d(2), of "[]"] d(1) show ?thesis by simp
  qed
  then obtain rm dm where "ReadFile big j kv key False [] fs'' = Some (rm, dm, fs'')" "rm \<noteq> KVDB_ERR_OK" by blast
  moreover have "file_at fs'' (kv_path kv key True) = Some (kv_file big v)" using w(2) [OF assms(6)] other [OF apart(1)] by simp
  ultimately have "ReadKey big j c kv key x0 fs'' = Some (KVDB_ERR_OK, v, fs'')"
    using m2 assms(6,8) un by (intro ReadKey_value [OF assms(1-4), where md = d3 and rm = rm and dm = dm]) auto
  with w(1) show ?thesis by simp
qed

theorem kvdb_recovers_witness:
  "\<exists>fs'. WriteKey False junk_sample check_sample kv_sample ''vol'' [5, 6] fs_sample = Some (KVDB_ERR_OK, fs') \<and>
     (let fs'' = put_file (kv_path kv_sample ''vol'' False) ((kv_file False [5, 6])[9 := 77]) fs'
      in ReadKey False junk_sample check_sample kv_sample ''vol'' [] fs'' = Some (KVDB_ERR_OK, [5, 6], fs''))"
proof -
  obtain fs' where w: "WriteKey False junk_sample check_sample kv_sample ''vol'' [5, 6] fs_sample = Some (KVDB_ERR_OK, fs')"
    using sample_write by blast
  let ?fs = "put_file (kv_path kv_sample ''vol'' False) ((kv_file False [5, 6])[9 := 77]) fs'"
  have "\<exists>i x. 8 \<le> i \<and> i < length [5, 6 :: byte] + 9 \<and> x \<noteq> kv_file False [5, 6] ! i \<and>
      ?fs = put_file (kv_path kv_sample ''vol'' False) ((kv_file False [5, 6])[i := x]) fs'"
    by (intro exI [of _ 9] exI [of _ 77]) (simp add: kv_file_def nth_append)
  then show ?thesis
    using kvdb_recovers [OF sample_facts(1-3) _ w sample_facts(4), of ?fs "[]"] w sample_can_write(1) by (auto simp: fs_sample_def Let_def)
qed

section \<open>Keys do not disturb each other\<close>

text \<open>A file that is not of the old format.\<close>

definition settled :: "bool \<Rightarrow> read_junk \<Rightarrow> KvdbOperateFile \<Rightarrow> string \<Rightarrow> kvfs \<Rightarrow> bool" where
  "settled big j kv key fs \<longleftrightarrow>
     (case file_at fs (kv_path kv key False) of None \<Rightarrow> True
      | Some content \<Rightarrow> host_word big (read_var (rj_flag j) content) = KVDB_FILE_HEAD_FLAG)"

lemma ReadFile_local:
  assumes "isbak \<or> settled big j kv key fs" "file_at fs2 (kv_path kv key isbak) = file_at fs (kv_path kv key isbak)"
    and "fs_unreadable fs2 = fs_unreadable fs"
  shows "\<exists>r d1. ReadFile big j kv key isbak d fs = Some (r, d1, fs) \<and> ReadFile big j kv key isbak d fs2 = Some (r, d1, fs2)"
proof -
  let ?p = "kv_path kv key isbak"
  consider "file_at fs ?p = None \<or> ?p \<in> set (fs_unreadable fs)"
    | content where "file_at fs ?p = Some content" "?p \<notin> set (fs_unreadable fs)" "host_word big (read_var (rj_flag j) content) = KVDB_FILE_HEAD_FLAG"
    | content where "file_at fs ?p = Some content" "?p \<notin> set (fs_unreadable fs)" "host_word big (read_var (rj_flag j) content) \<noteq> KVDB_FILE_HEAD_FLAG"
    by (cases "file_at fs ?p") blast+
  then show ?thesis
  proof cases
    case 1
    with assms(2,3) show ?thesis by (auto simp: ReadFile_absent)
  next
    case 2
    with assms(2,3) show ?thesis by (auto simp: ReadFile_marked)
  next
    case 3
    with assms(1) have isbak by (cases isbak) (auto simp: settled_def)
    with 3 assms(2,3) show ?thesis by (auto simp: ReadFile_bad_backup)
  qed
qed

lemma ReadKey_local:
  assumes "settled big j kv key fs" "settled big j kv (key @ ''_match'') fs" "fs_unreadable fs2 = fs_unreadable fs"
    and "file_at fs2 (kv_path kv (key @ ''_match'') False) = file_at fs (kv_path kv (key @ ''_match'') False)"
    and "\<And>b. file_at fs2 (kv_path kv key b) = file_at fs (kv_path kv key b)"
  shows "\<exists>e val. ReadKey big j c kv key x fs = Some (e, val, fs) \<and> ReadKey big j c kv key x fs2 = Some (e, val, fs2)"
proof -
  from ReadFile_local [of False, OF _ assms(4,3), of big j "[]"] assms(2) obtain r md where
    m: "ReadFile big j kv (key @ ''_match'') False [] fs = Some (r, md, fs)" "ReadFile big j kv (key @ ''_match'') False [] fs2 = Some (r, md, fs2)"
    by auto
  from ReadFile_local [of False, OF _ assms(5,3), of big j "[]"] assms(1) obtain r1 d1 where
    f: "ReadFile big j kv key False [] fs = Some (r1, d1, fs)" "ReadFile big j kv key False [] fs2 = Some (r1, d1, fs2)" by auto
  from ReadFile_local [of True, OF _ assms(5,3), of big j d1] obtain r2 d2 where
    b: "ReadFile big j kv key True d1 fs = Some (r2, d2, fs)" "ReadFile big j kv key True d1 fs2 = Some (r2, d2, fs2)" by auto
  show ?thesis using m f b by (simp add: ReadKey_def Let_def)
qed

lemma WriteKey_frame:
  assumes "WriteKey big j c kv key v fs = Some (r, fs')" "q \<noteq> kv_path kv (key @ ''_match'') False" "\<And>b. q \<noteq> kv_path kv key b"
  shows "file_at fs' q = file_at fs q" "fs_unreadable fs' = fs_unreadable fs"
proof -
  have "file_at fs' q = file_at fs q \<and> fs_unreadable fs' = fs_unreadable fs"
  proof (cases "key_ok key")
    case False
    with assms(1) show ?thesis by (simp add: WriteKey_def)
  next
    case True
    with assms(1) obtain rm md fs1 where m: "ReadFile big j kv (key @ ''_match'') False [] fs = Some (rm, md, fs1)"
      "fs' = fs1 \<or> fs' = snd (WriteFile big kv key v False fs1) \<or> fs' = snd (WriteFile big kv key v True (snd (WriteFile big kv key v False fs1)))"
      by (auto simp: WriteKey_def split: option.splits prod.splits if_splits)
    have f1: "frame_fs (kv_path kv (key @ ''_match'') False) fs fs1" using ReadFile_stable [OF m(1)] by (simp add: read_stable_def)
    have f2: "frame_fs (kv_path kv key b) fs0 (snd (WriteFile big kv key v b fs0))" for b fs0
      using WriteFile_frame by (metis surjective_pairing)
    show ?thesis using m(2) f1 f2 [of False fs1] f2 [of True "snd (WriteFile big kv key v False fs1)"] assms(2,3)
      by (auto simp: frame_fs_def)
  qed
  then show "file_at fs' q = file_at fs q" "fs_unreadable fs' = fs_unreadable fs" by auto
qed

text \<open>Writing a key changes nothing that is read of a key it is unrelated to, whether the write succeeds or not;
  related are a key, its copy (with the ending \<open>_bak\<close>) and its description (with the ending \<open>_match\<close>), which are
  ordinary keys as well.\<close>

theorem kvdb_keys_independent:
  assumes "kv_wf kv" "plain_key k1" "plain_key k2" "unrelated k1 k2" "WriteKey big j c kv k1 v fs = Some (r, fs')"
    and "settled big j kv k2 fs" "settled big j kv (k2 @ ''_match'') fs"
  shows "\<exists>e val. ReadKey big j c kv k2 x fs = Some (e, val, fs) \<and> ReadKey big j c kv k2 x fs' = Some (e, val, fs')"
proof -
  have l: "length k \<le> 70 \<and> NUL \<notin> set k" if "k \<in> {k1, k2, k1 @ ''_match'', k2 @ ''_match''}" for k
    using assms(2,3) that by (auto simp: plain_key_def key_ok_def)
  have p: "kv_path kv k b = kv_foldpath kv @ ''/'' @ k @ (if b then ''_bak'' else '''')" if "k \<in> {k1, k2, k1 @ ''_match'', k2 @ ''_match''}" for k b
    using kv_path_eq [OF assms(1)] l [OF that] by blast
  have "kv_path kv k2 b \<noteq> kv_path kv k1 b'" "kv_path kv k2 b \<noteq> kv_path kv (k1 @ ''_match'') False"
    "kv_path kv (k2 @ ''_match'') False \<noteq> kv_path kv k1 b" "kv_path kv (k2 @ ''_match'') False \<noteq> kv_path kv (k1 @ ''_match'') False" for b b'
    using assms(4) by (auto simp: p unrelated_def append_eq_append_conv2 Cons_eq_append_conv)
  then show ?thesis using WriteKey_frame [OF assms(5)] by (intro ReadKey_local [OF assms(6,7)]) auto
qed

theorem kvdb_keys_independent_witness:
  "\<exists>fs' e val. WriteKey False junk_sample check_sample kv_sample ''vol'' [5, 6] fs_sample = Some (KVDB_ERR_OK, fs') \<and>
     ReadKey False junk_sample check_sample kv_sample ''map'' [] fs_sample = Some (e, val, fs_sample) \<and>
     ReadKey False junk_sample check_sample kv_sample ''map'' [] fs' = Some (e, val, fs')"
proof -
  obtain fs' where w: "WriteKey False junk_sample check_sample kv_sample ''vol'' [5, 6] fs_sample = Some (KVDB_ERR_OK, fs')"
    using sample_write by blast
  have "settled False junk_sample kv_sample k fs_sample" for k by (simp add: settled_def fs_sample_def)
  with w kvdb_keys_independent [OF sample_facts(2,3,5,6) w] show ?thesis by blast
qed

section \<open>Where safe mode does not help\<close>

lemma WriteFile_empty_value:
  assumes "can_write fs (kv_path kv key isbak)" "9 \<le> fs_room fs"
  shows "\<exists>fs'. WriteFile big kv key [] isbak fs = (KVDB_ERR_WRITE_FILE, fs') \<and> file_at fs' (kv_path kv key isbak) = Some (kv_file big [])"
proof -
  let ?p = "kv_path kv key isbak"
  let ?ps = "[host_bytes big 4 KVDB_FILE_HEAD_FLAG, host_bytes big 4 (0 :: u32), [kv_checksum 0 []]]"
  have split: "write_parts p (bss @ [[]]) fs = (case write_parts p bss fs of (r, fs') \<Rightarrow> if r = KVDB_ERR_OK then (KVDB_ERR_WRITE_FILE, fs') else (r, fs'))"
    for p bss fs by (induction bss arbitrary: fs) (auto simp: write_parts.simps write_data_def split: prod.splits)
  have "host_bytes big 4 w \<noteq> []" for w :: u32 using length_host_bytes [of big 4 w] by (metis list.size(3) zero_neq_numeral)
  then have "[] \<notin> set ?ps" by (simp add: eq_commute [of "[]"])
  from write_parts_content [OF _ this, of "put_file ?p [] fs" ?p "[]"] assms(2) obtain fs' where
    "write_parts ?p ?ps (put_file ?p [] fs) = (KVDB_ERR_OK, fs')" "file_at fs' ?p = Some (kv_file big [])" by (auto simp: kv_file_def)
  then show ?thesis using assms(1) split [of ?p ?ps "put_file ?p [] fs"] by (simp add: WriteFile_def Let_def)
qed

text \<open>An empty main file, as a stop of the robot between opening and writing it leaves behind, is taken for a file
  of the old format: \<open>ReadKey\<close> reports success with an empty value and stores it, and the copy is never read.\<close>

theorem kvdb_empty_main:
  assumes "junk_ok j" "host_word big (rj_flag j) \<noteq> KVDB_FILE_HEAD_FLAG" "kv_wf kv" "plain_key key"
    and "file_at fs (kv_path kv key False) = Some []" "file_at fs (kv_path kv (key @ ''_match'') False) = None"
    and "can_write fs (kv_path kv key False)" "fs_unreadable fs = []" "9 \<le> fs_room fs"
  shows "\<exists>fs'. ReadKey big j c kv key x fs = Some (KVDB_ERR_OK, [], fs') \<and> file_at fs' (kv_path kv key False) = Some (kv_file big []) \<and>
    file_at fs' (kv_path kv key True) = file_at fs (kv_path kv key True)"
proof -
  from WriteFile_empty_value [OF assms(7,9), of big] obtain fs' where w: "WriteFile big kv key [] False fs = (KVDB_ERR_WRITE_FILE, fs')"
    "file_at fs' (kv_path kv key False) = Some (kv_file big [])" by auto
  have f: "frame_fs (kv_path kv key False) fs fs'" using WriteFile_frame [OF w(1)] .
  have "ReadFile big j kv key False [] fs = ReadFile big j kv key False [] fs'"
    using ReadFile_old_format [OF assms(5), of big j "[]"] assms(2,8) w(1) by (simp add: read_var_def)
  also have "\<dots> = Some (KVDB_ERR_OK, [], fs')" using assms(8) frame_fsD(3) [OF f] by (intro ReadFile_written [OF assms(1) w(2)]) auto
  finally have "ReadFile big j kv key False [] fs = Some (KVDB_ERR_OK, [], fs')" .
  moreover have "ReadFile big j kv (key @ ''_match'') False [] fs = Some (KVDB_ERR_FILE_DONTEXIST, [], fs)"
    using assms(6) by (intro ReadFile_absent) simp
  moreover have "file_at fs' (kv_path kv key True) = file_at fs (kv_path kv key True)"
    using frame_fsD(1) [OF f paths_apart(1) [OF assms(3,4)]] .
  ultimately show ?thesis using assms(4) w(2) by (simp add: ReadKey_def plain_key_def Let_def)
qed

theorem kvdb_empty_main_witness:
  "let p = kv_path kv_sample ''vol''; fs = put_file (p False) [] (put_file (p True) (kv_file False [5, 6]) fs_sample)
   in \<exists>fs'. ReadKey False junk_sample check_sample kv_sample ''vol'' [] fs = Some (KVDB_ERR_OK, [], fs') \<and>
     file_at fs' (p True) = Some (kv_file False [5, 6])"
proof -
  let ?p = "kv_path kv_sample ''vol''"
  let ?fs = "put_file (?p False) [] (put_file (?p True) (kv_file False [5, 6]) fs_sample)"
  note apart = paths_apart [OF sample_facts(2,3)]
  have "host_word False (rj_flag junk_sample) \<noteq> KVDB_FILE_HEAD_FLAG"
    by (simp add: junk_sample_def host_word_def KVDB_FILE_HEAD_FLAG_def)
  moreover have "file_at ?fs (?p False) = Some []" "can_write ?fs (?p False)" "fs_unreadable ?fs = []" "9 \<le> fs_room ?fs"
    using sample_can_write(1) [of False] by (simp_all add: fs_sample_def can_write_def)
  moreover have "file_at ?fs (kv_path kv_sample (''vol'' @ ''_match'') False) = None" using apart(2) by (simp add: fs_sample_def)
  moreover have "file_at ?fs (?p True) = Some (kv_file False [5, 6])" using apart(1) by simp
  ultimately show ?thesis
    using kvdb_empty_main [OF sample_facts(1) _ sample_facts(2,3), of False ?fs check_sample "[]"] by (auto simp: Let_def)
qed

text \<open>In safe mode the result of writing the main file is overwritten by that of writing the copy: when the main file
  cannot be opened the write succeeds and the old value is read.\<close>

lemma kvdb_masked_failure:
  assumes "junk_ok j" "kv_wf kv" "plain_key key" "safe_mode kv" "v \<noteq> []" "length old < 2 ^ 31"
    and "file_at fs (kv_path kv key False) = Some (kv_file big old)" "file_at fs (kv_path kv (key @ ''_match'') False) = None"
    and "\<not> can_write fs (kv_path kv key False)" "can_write fs (kv_path kv key True)" "fs_unreadable fs = []"
    and "length v + 9 \<le> fs_room fs"
  shows "\<exists>fs'. WriteKey big j c kv key v fs = Some (KVDB_ERR_OK, fs') \<and> ReadKey big j c kv key x fs' = Some (KVDB_ERR_OK, old, fs')"
proof -
  note apart = paths_apart [OF assms(2,3)]
  have m: "ReadFile big j kv (key @ ''_match'') False [] fs0 = Some (KVDB_ERR_FILE_DONTEXIST, [], fs0)"
    if "file_at fs0 (kv_path kv (key @ ''_match'') False) = None" for fs0 using that by (intro ReadFile_absent) simp
  have w1: "WriteFile big kv key v False fs = (KVDB_ERR_OPEN_FILE, fs)" using assms(9) by (simp add: WriteFile_def Let_def)
  from WriteFile_result [OF assms(10,5), of big] assms(12) obtain fs' where w2: "WriteFile big kv key v True fs = (KVDB_ERR_OK, fs')" by auto
  have f: "frame_fs (kv_path kv key True) fs fs'" using WriteFile_frame [OF w2] .
  have "file_at fs' (kv_path kv key False) = Some (kv_file big old)" "file_at fs' (kv_path kv (key @ ''_match'') False) = None"
    using frame_fsD(1) [OF f apart(1) [symmetric]] frame_fsD(1) [OF f apart(2)] assms(7,8) by simp_all
  moreover have "fs_unreadable fs' = []" using frame_fsD(3) [OF f] assms(11) by simp
  ultimately have "ReadKey big j c kv key x fs' = Some (KVDB_ERR_OK, old, fs')"
    using ReadFile_written [OF assms(1), of fs' kv key False big old] assms(6)
    by (intro ReadKey_value [OF assms(1-3) assms(6), where md = "[]" and r = KVDB_ERR_FILE_DONTEXIST]) (auto intro: m)
  moreover have "WriteKey big j c kv key v fs = Some (KVDB_ERR_OK, fs')"
    using assms(3,4) m [OF assms(8)] w1 w2 by (simp add: WriteKey_def plain_key_def)
  ultimately show ?thesis by blast
qed

section \<open>Removing a key\<close>

text \<open>The path of \<open>Remove\<close> has 132 characters: it is the path of the file or a proper prefix of it.\<close>

lemma remove_path:
  assumes "kv_wf kv" "plain_key key"
  shows "length (kv_path kv key b) \<le> 132 \<Longrightarrow> GetWholePath 133 (kv_foldpath kv) key b = kv_path kv key b"
    and "132 < length (kv_path kv key b) \<Longrightarrow> length (GetWholePath 133 (kv_foldpath kv) key b) = 132"
proof -
  have "kv_path kv key b = kv_foldpath kv @ ''/'' @ cstr key @ (if b then ''_bak'' else '''')"
    using kv_path_eq [OF assms(1)] assms(2) by (simp add: plain_key_def key_ok_def)
  then have e: "GetWholePath 133 (kv_foldpath kv) key b = take 132 (kv_path kv key b)" by (simp add: GetWholePath_def)
  show "length (kv_path kv key b) \<le> 132 \<Longrightarrow> GetWholePath 133 (kv_foldpath kv) key b = kv_path kv key b"
    and "132 < length (kv_path kv key b) \<Longrightarrow> length (GetWholePath 133 (kv_foldpath kv) key b) = 132" by (simp_all add: e)
qed

lemma remove_file_simps:
  "fst (remove_file p fs) \<longleftrightarrow> file_at fs p \<noteq> None \<and> p \<notin> set (fs_denied fs)"
  "q \<noteq> p \<Longrightarrow> file_at (snd (remove_file p fs)) q = file_at fs q"
  "fst (remove_file p fs) \<Longrightarrow> file_at (snd (remove_file p fs)) p = None"
  "fs_denied (snd (remove_file p fs)) = fs_denied fs" "fs_unreadable (snd (remove_file p fs)) = fs_unreadable fs"
  by (auto simp: remove_file_def)

lemma kv_path_lengths:
  "kv_wf kv \<Longrightarrow> plain_key key \<Longrightarrow> length (kv_path kv key b) = length (kv_foldpath kv) + length key + (if b then 5 else 1)"
  using kv_path_eq [of kv key b] by (simp add: plain_key_def key_ok_def)

text \<open>Removing a key deletes its file and its copy, and a following read reports that there is none, as long as both
  paths fit the 132 characters that \<open>Remove\<close> has for them. A longer path is cut: then the file stays, or only the
  copy stays and safe mode brings the removed value back.\<close>

theorem kvdb_remove:
  assumes "junk_ok j" "kv_wf kv" "plain_key key" "file_at fs (kv_path kv key False) \<noteq> None" "fs_denied fs = []" "fs_unreadable fs = []"
    and "file_at fs (kv_path kv (key @ ''_match'') False) = None"
  defines "n \<equiv> length (kv_foldpath kv) + length key"
  shows "(n \<le> 127 \<longrightarrow> (\<exists>fs'. kv_Remove kv key fs = (KVDB_ERR_OK, fs') \<and>
       ReadKey big j c kv key x fs' = Some (KVDB_ERR_FILE_DONTEXIST, [], fs'))) \<and>
     (127 < n \<and> n \<le> 131 \<and> safe_mode kv \<and> file_at fs (kv_path kv key True) = Some (kv_file big v) \<and> length v < 2 ^ 31 \<longrightarrow>
       (\<exists>fs'. kv_Remove kv key fs = (KVDB_ERR_OK, fs') \<and> ReadKey big j c kv key x fs' = Some (KVDB_ERR_OK, v, fs'))) \<and>
     (131 < n \<longrightarrow> file_at (snd (kv_Remove kv key fs)) (kv_path kv key False) = file_at fs (kv_path kv key False))"
proof -
  let ?p = "kv_path kv key False" and ?b = "kv_path kv key True" and ?m = "kv_path kv (key @ ''_match'') False"
  let ?rp = "GetWholePath 133 (kv_foldpath kv) key"
  have k: "key_ok key" using assms(3) by (simp add: plain_key_def)
  note apart = paths_apart [OF assms(2,3)] and len = kv_path_lengths [OF assms(2,3)] and rp = remove_path [OF assms(2,3)]
  have main: "kv_Remove kv key fs = (KVDB_ERR_OK, snd (remove_file (?rp True) (snd (remove_file ?p fs))))" if "n \<le> 131"
    using that k rp(1) [of False] assms(4,5) remove_file_simps(1) [of ?p fs] by (cases "remove_file ?p fs") (auto simp: kv_Remove_def len n_def)
  define fs' where "fs' = snd (remove_file (?rp True) (snd (remove_file ?p fs)))"
  have gone: "file_at fs' ?p = None"
    using assms(4,5) by (cases "?p = ?rp True") (auto simp: fs'_def remove_file_def)
  have nomatch: "file_at fs' ?m = None" using assms(7) by (auto simp: fs'_def remove_file_def)
  have un: "fs_unreadable fs' = []" using assms(6) by (simp add: fs'_def remove_file_simps)
  have m: "ReadFile big j kv (key @ ''_match'') False [] fs' = Some (KVDB_ERR_FILE_DONTEXIST, [], fs')"
    "ReadFile big j kv key False [] fs' = Some (KVDB_ERR_FILE_DONTEXIST, [], fs')" using nomatch gone by (simp_all add: ReadFile_absent)
  have "ReadKey big j c kv key x fs' = Some (KVDB_ERR_FILE_DONTEXIST, [], fs')" if "n \<le> 127"
  proof -
    have "file_at fs' ?b = None" using that rp(1) [of True] assms(5) by (auto simp: fs'_def remove_file_def len n_def)
    then have "ReadFile big j kv key True [] fs' = Some (KVDB_ERR_FILE_DONTEXIST, [], fs')" by (simp add: ReadFile_absent)
    then show ?thesis using k m by (simp add: ReadKey_def Let_def)
  qed
  moreover have "ReadKey big j c kv key x fs' = Some (KVDB_ERR_OK, v, fs')"
    if "127 < n" "safe_mode kv" "file_at fs ?b = Some (kv_file big v)" "length v < 2 ^ 31"
  proof -
    have "length (?rp True) = 132" "length ?b \<noteq> 132" using that(1) rp(2) [of True] by (simp_all add: len n_def)
    then have "?b \<noteq> ?rp True" by auto
    then have "file_at fs' ?b = Some (kv_file big v)" using that(3) apart(1) by (simp add: fs'_def remove_file_simps)
    then show ?thesis using m un that(2) by (intro ReadKey_value [OF assms(1-3) that(4) m(1) _ m(2)]) auto
  qed
  moreover have "file_at (snd (kv_Remove kv key fs)) ?p = file_at fs ?p" if "131 < n"
  proof -
    have "length (?rp b) = 132" "length ?p \<noteq> 132" for b using that rp(2) [of b] by (cases b; simp add: len n_def)+
    then have "?p \<noteq> ?rp b" for b by metis
    then show ?thesis using k by (simp add: kv_Remove_def remove_file_simps split: prod.splits) (metis remove_file_simps(2) snd_conv)
  qed
  ultimately show ?thesis using main by (auto simp: fs'_def)
qed

theorem kvdb_remove_witness:
  "let p = kv_path kv_sample ''vol''; fs = put_file (p False) (kv_file False [5, 6]) (put_file (p True) (kv_file False [5, 6]) fs_sample)
   in \<exists>fs'. kv_Remove kv_sample ''vol'' fs = (KVDB_ERR_OK, fs') \<and>
     ReadKey False junk_sample check_sample kv_sample ''vol'' [] fs' = Some (KVDB_ERR_FILE_DONTEXIST, [], fs')"
proof -
  let ?p = "kv_path kv_sample ''vol''"
  let ?fs = "put_file (?p False) (kv_file False [5, 6]) (put_file (?p True) (kv_file False [5, 6]) fs_sample)"
  have "file_at ?fs (?p False) \<noteq> None" "fs_denied ?fs = []" "fs_unreadable ?fs = []" by (simp_all add: fs_sample_def)
  moreover have "file_at ?fs (kv_path kv_sample (''vol'' @ ''_match'') False) = None"
    using paths_apart(2) [OF sample_facts(2,3)] by (simp add: fs_sample_def)
  moreover have "length (kv_foldpath kv_sample) + length ''vol'' \<le> 127" by (simp add: kv_sample_def)
  ultimately show ?thesis using kvdb_remove [OF sample_facts(1-3), of ?fs False check_sample "[]"] unfolding Let_def by blast
qed

text \<open>A file of the old format that cannot be rewritten is read again and again without end.\<close>

lemma ReadFile_hangs:
  assumes "file_at fs (kv_path kv key False) = Some content" "kv_path kv key False \<notin> set (fs_unreadable fs)"
    and "host_word big (read_var (rj_flag j) content) \<noteq> KVDB_FILE_HEAD_FLAG" "\<not> can_write fs (kv_path kv key False)"
  shows "ReadFile big j kv key False d fs = None"
proof -
  let ?stuck = "\<lambda>big j kv key isbak fs. \<not> isbak \<and> (\<exists>content. file_at fs (kv_path kv key False) = Some content \<and>
    host_word big (read_var (rj_flag j) content) \<noteq> KVDB_FILE_HEAD_FLAG) \<and> kv_path kv key False \<notin> set (fs_unreadable fs) \<and>
    \<not> can_write fs (kv_path kv key False)"
  have "\<not> ?stuck big j kv key False fs" if "ReadFile big j kv key False d fs = Some y" for y
  proof (rule ReadFile.raw_induct [where P = "\<lambda>big j kv key isbak d fs y. \<not> ?stuck big j kv key isbak fs", rotated, OF that], rule notI)
    fix f :: "bool \<Rightarrow> read_junk \<Rightarrow> KvdbOperateFile \<Rightarrow> string \<Rightarrow> bool \<Rightarrow> byte list \<Rightarrow> kvfs \<Rightarrow> (KvdbError \<times> byte list \<times> kvfs) option"
      and big j kv key isbak d fs y
    assume IH: "\<And>big j kv key isbak d fs y. f big j kv key isbak d fs = Some y \<Longrightarrow> \<not> ?stuck big j kv key isbak fs"
      and body: "(let p = kv_path kv key isbak
        in if file_at fs p = None \<or> p \<in> set (fs_unreadable fs) then Some (KVDB_ERR_FILE_DONTEXIST, d, fs)
           else let content = the (file_at fs p)
                in if host_word big (read_var (rj_flag j) content) \<noteq> KVDB_FILE_HEAD_FLAG
                   then if isbak then Some (KVDB_ERR_FILE_CHECK, d, fs)
                        else f big j kv key isbak (read_rest d content) (snd (WriteFile big kv key (read_rest d content) False fs))
                   else case read_body big j kv content of (r, data) \<Rightarrow> Some (r, data, fs)) = Some y"
      and st: "?stuck big j kv key isbak fs"
    have "snd (WriteFile big kv key v False fs) = fs" for v using st by (simp add: WriteFile_def Let_def)
    with body st obtain v where "f big j kv key isbak v fs = Some y" by (auto simp: Let_def)
    with IH st show False by blast
  qed
  with assms show ?thesis by (cases "ReadFile big j kv key False d fs") auto
qed

end
