(* ===== verification/Kvdb_Client.thy ===== *)
theory Kvdb_Client
  imports Kvdb_File
begin

text \<open>
  Folders of the key-value store (\<open>FoldCreate\<close>, \<open>Clear\<close>, \<open>FileCopy\<close>, \<open>FoldCopy\<close>, \<open>Backup\<close>, \<open>Restore\<close> of
  \<open>lib_bsp/kvdb/kvdb/kvdboperatefile.cpp\<close>, \<open>make_dir_p\<close> of \<open>eventservice/util/file_util.cpp\<close>) and the client of
  \<open>kvdbnetclient.cpp\<close>, which gives each database a folder and a backup folder beside it. Folders are the list
  \<open>fs_dirs\<close>; a folder is read in the order of the files and then of the folders in it. \<open>access\<close> and \<open>stat\<close> do not
  normalise paths. The properties are the round trip of the client's keys and of backup and restore.
\<close>

section \<open>Folders\<close>

definition base_of :: "string \<Rightarrow> string" where
  "base_of p = rev (takeWhile (\<lambda>c. c \<noteq> CHR ''/'') (rev p))"

definition is_fold :: "kvfs \<Rightarrow> string \<Rightarrow> bool" where
  "is_fold fs p \<longleftrightarrow> p \<in> set (fs_dirs fs) \<or> base_of p \<in> {''.'', ''..''} \<and> fold_of p \<in> set (fs_dirs fs)"

datatype file_kind = Regular | Folder

definition fs_stat :: "kvfs \<Rightarrow> string \<Rightarrow> file_kind option" where
  "fs_stat fs p = (if is_fold fs p then Some Folder else if file_at fs p \<noteq> None then Some Regular else None)"

definition readdir :: "kvfs \<Rightarrow> string \<Rightarrow> string list" where
  "readdir fs d = ''.'' # ''..'' # map base_of (filter (\<lambda>p. fold_of p = d) (map fst (fs_files fs) @ fs_dirs fs))"

definition is_sep :: "char \<Rightarrow> bool" where
  "is_sep c \<longleftrightarrow> c = CHR 0x5C \<or> c = CHR ''/''"

function split_path :: "string \<Rightarrow> string list" where
  "split_path s =
     (case dropWhile is_sep s of [] \<Rightarrow> []
      | c # cs \<Rightarrow> takeWhile (\<lambda>c. \<not> is_sep c) (c # cs) # split_path (dropWhile (\<lambda>c. \<not> is_sep c) (c # cs)))"
  by pat_completeness auto
termination
proof (relation "measure length")
  fix s c cs assume "dropWhile is_sep s = c # cs"
  moreover from this have "\<not> is_sep c" by (metis hd_dropWhile list.distinct(1) list.sel(1))
  moreover have "length (dropWhile is_sep s) \<le> length s" by (rule length_dropWhile_le)
  ultimately show "(dropWhile (\<lambda>c. \<not> is_sep c) (c # cs), s) \<in> measure length"
    using length_dropWhile_le [of "\<lambda>c. \<not> is_sep c" cs] by simp
qed simp

declare split_path.simps [simp del]

text \<open>\<open>mkdir\<close> takes a path with or without a slash at its end.\<close>

definition fold_node :: "string \<Rightarrow> string" where
  "fold_node p = (let q = cstr p in if q \<noteq> [] \<and> last q = CHR ''/'' then butlast q else q)"

definition make_dir :: "string \<Rightarrow> kvfs \<Rightarrow> bool \<times> kvfs" where
  "make_dir p fs =
     (let q = fold_node p
      in if q \<in> set (fs_dirs fs) then (True, fs)
         else if file_at fs q \<noteq> None \<or> q \<in> set (fs_denied fs) then (False, fs)
         else (True, fs\<lparr>fs_dirs := fs_dirs fs @ [q]\<rparr>))"

fun make_dirs :: "string \<Rightarrow> string list \<Rightarrow> kvfs \<Rightarrow> bool \<times> kvfs" where
  "make_dirs tmp [] fs = (True, fs)"
| "make_dirs tmp (i # is) fs =
     (case make_dir (tmp @ i @ ''/'') fs of (ok, fs1) \<Rightarrow>
        if \<not> ok then (False, fs1) else make_dirs (tmp @ i @ ''/'') is fs1)"

definition make_dir_p :: "string \<Rightarrow> kvfs \<Rightarrow> bool \<times> kvfs" where
  "make_dir_p path fs =
     (let p = chop path; items = split_path p
      in if items = [] then (True, fs) else make_dirs (if hd p = CHR ''/'' then ''/'' else '''') items fs)"

definition FoldCreate :: "string \<Rightarrow> kvfs \<Rightarrow> KvdbError \<times> kvfs" where
  "FoldCreate fold_path fs =
     (if fold_path = [] then (KVDB_ERR_INVALID_PARAM, fs)
      else case make_dir_p (take 512 fold_path @ replicate (length fold_path - 512) NUL) fs of (ret, fs1) \<Rightarrow>
             (if ret then KVDB_ERR_OK else KVDB_ERR_OPEN_FILE, fs1))"

fun clear_loop :: "string \<Rightarrow> string list \<Rightarrow> KvdbError \<Rightarrow> kvfs \<Rightarrow> KvdbError \<times> kvfs" where
  "clear_loop d [] rtn fs = (rtn, fs)"
| "clear_loop d (n # ns) rtn fs =
     (let buf = take 1023 (d @ ''/'' @ n)
      in case fs_stat fs buf of
           None \<Rightarrow> clear_loop d ns KVDB_ERR_DELETE_FILE fs
         | Some Folder \<Rightarrow> clear_loop d ns rtn fs
         | Some Regular \<Rightarrow> (case remove_file buf fs of (ok, fs1) \<Rightarrow>
             clear_loop d ns (if ok then rtn else KVDB_ERR_DELETE_FILE) fs1))"

definition kv_Clear :: "string \<Rightarrow> kvfs \<Rightarrow> KvdbError \<times> kvfs" where
  "kv_Clear d fs =
     (if d \<notin> set (fs_dirs fs) then (KVDB_ERR_OPEN_FOLD, fs) else clear_loop d (readdir fs d) KVDB_ERR_OK fs)"

text \<open>The bytes are copied one at a time, and the result of \<open>fputc\<close> is not looked at.\<close>

fun copy_chars :: "string \<Rightarrow> byte list \<Rightarrow> kvfs \<Rightarrow> kvfs" where
  "copy_chars t [] fs = fs"
| "copy_chars t (c # cs) fs = copy_chars t cs (snd (write_data t [c] fs))"

definition FileCopy :: "string \<Rightarrow> string \<Rightarrow> kvfs \<Rightarrow> KvdbError \<times> kvfs" where
  "FileCopy t s fs =
     (if file_at fs s = None \<or> s \<in> set (fs_unreadable fs) then (KVDB_ERR_OPEN_FILE, fs)
      else if \<not> can_write fs t then (KVDB_ERR_OPEN_FILE, fs)
      else let fs1 = put_file t [] fs in (KVDB_ERR_OK, copy_chars t (the (file_at fs1 s)) fs1))"

fun fold_loop :: "string \<Rightarrow> string \<Rightarrow> string list \<Rightarrow> KvdbError \<Rightarrow> kvfs \<Rightarrow> KvdbError \<times> kvfs" where
  "fold_loop t s [] rtn fs = (rtn, fs)"
| "fold_loop t s (n # ns) rtn fs =
     (let buf_src = take 1023 (s @ ''/'' @ n)
      in case fs_stat fs buf_src of
           None \<Rightarrow> fold_loop t s ns KVDB_ERR_DELETE_FILE fs
         | Some Folder \<Rightarrow> fold_loop t s ns rtn fs
         | Some Regular \<Rightarrow> (case FileCopy (take 1023 (t @ ''/'' @ n)) buf_src fs of (rtn, fs1) \<Rightarrow>
             if rtn \<noteq> KVDB_ERR_OK then (rtn, fs1) else fold_loop t s ns rtn fs1))"

definition FoldCopy :: "string \<Rightarrow> string \<Rightarrow> kvfs \<Rightarrow> KvdbError \<times> kvfs" where
  "FoldCopy target_fold src_fold fs =
     (let fs1 = snd (FoldCreate target_fold fs);
          fs2 = snd (kv_Clear target_fold fs1)
      in if src_fold \<notin> set (fs_dirs fs2) then (KVDB_ERR_OPEN_FILE, fs2)
         else fold_loop target_fold src_fold (readdir fs2 src_fold) KVDB_ERR_OK fs2)"

definition kv_Backup :: "KvdbOperateFile \<Rightarrow> string \<Rightarrow> string \<Rightarrow> kvfs \<Rightarrow> KvdbError \<times> kvfs" where
  "kv_Backup kv backup_fold name fs = FoldCopy backup_fold (GetWholePath 1024 (kv_foldpath kv) name False) fs"

definition kv_Restore :: "KvdbOperateFile \<Rightarrow> string \<Rightarrow> string \<Rightarrow> kvfs \<Rightarrow> KvdbError \<times> kvfs" where
  "kv_Restore kv backup_fold name fs = FoldCopy (GetWholePath 1024 (kv_foldpath kv) name False) backup_fold fs"

definition KvdbOperateFile_new :: "string option \<Rightarrow> u32 \<Rightarrow> kvfs \<Rightarrow> KvdbOperateFile \<times> kvfs" where
  "KvdbOperateFile_new foldpath property fs =
     (let fp = (case foldpath of None \<Rightarrow> ''/mnt/usr/kvdb'' | Some p \<Rightarrow> if length p > 128 then ''/mnt/usr/kvdb'' else p)
      in (\<lparr>kv_foldpath = fp, kv_property = property\<rparr>, snd (FoldCreate fp fs)))"

section \<open>The client\<close>

record KvdbNetClient =
  nc_name :: string
  nc_file :: "KvdbOperateFile option"

definition KVDB_PARENT_FOLD :: string where "KVDB_PARENT_FOLD = ''/mnt/usr/kvdb''"
definition KVDB_BACKUP_PARENT_FOLD :: string where "KVDB_BACKUP_PARENT_FOLD = ''/mnt/usr_backup/kvdb''"
definition KVDB_NAME_SKVDB :: string where "KVDB_NAME_SKVDB = ''skvdb''"

definition nc_Init :: "KvdbNetClient \<Rightarrow> kvfs \<Rightarrow> bool \<times> KvdbNetClient \<times> kvfs" where
  "nc_Init c fs =
     (case KvdbOperateFile_new None 1 fs of (kv, fs1) \<Rightarrow>
        (True, c\<lparr>nc_file := Some kv\<rparr>, snd (FoldCreate (GetWholePath 128 KVDB_PARENT_FOLD (nc_name c) False) fs1)))"

definition CreateKvdbClient :: "string \<Rightarrow> kvfs \<Rightarrow> KvdbNetClient option \<times> kvfs" where
  "CreateKvdbClient name fs =
     (case nc_Init \<lparr>nc_name = name, nc_file = None\<rparr> fs of (ok, c, fs1) \<Rightarrow> (if ok then Some c else None, fs1))"

definition GetRealKey :: "KvdbNetClient \<Rightarrow> string \<Rightarrow> string" where
  "GetRealKey c key = nc_name c @ ''/'' @ key"

definition SetKey :: "bool \<Rightarrow> read_junk \<Rightarrow> kv_check \<Rightarrow> KvdbNetClient \<Rightarrow> string \<Rightarrow> byte list \<Rightarrow> kvfs \<Rightarrow> (bool \<times> kvfs) option" where
  "SetKey big j ck c key value fs =
     (case nc_file c of None \<Rightarrow> Some (False, fs)
      | Some kv \<Rightarrow> map_option (\<lambda>(r, fs1). (r = KVDB_ERR_OK, fs1)) (WriteKey big j ck kv (GetRealKey c (cstr key)) value fs))"

definition GetKey :: "bool \<Rightarrow> read_junk \<Rightarrow> kv_check \<Rightarrow> KvdbNetClient \<Rightarrow> string \<Rightarrow> byte list \<Rightarrow> kvfs \<Rightarrow> (bool \<times> byte list \<times> kvfs) option" where
  "GetKey big j ck c key result fs =
     (case nc_file c of None \<Rightarrow> Some (False, result, fs)
      | Some kv \<Rightarrow> map_option (\<lambda>(r, v, fs1). (r = KVDB_ERR_OK, v, fs1)) (ReadKey big j ck kv (GetRealKey c (cstr key)) result fs))"

text \<open>\<open>GetKey\<close> into a buffer of the caller.\<close>

definition GetKey_buffer :: "bool \<Rightarrow> read_junk \<Rightarrow> kv_check \<Rightarrow> KvdbNetClient \<Rightarrow> string \<Rightarrow> byte list \<Rightarrow> kvfs \<Rightarrow> (bool \<times> byte list \<times> kvfs) option" where
  "GetKey_buffer big j ck c key buffer fs =
     map_option (\<lambda>(res, v, fs1). if \<not> res \<or> length v > length buffer then (False, buffer, fs1)
                                 else (True, v @ drop (length v) buffer, fs1)) (GetKey big j ck c key [] fs)"

definition DeleteKey :: "KvdbNetClient \<Rightarrow> string \<Rightarrow> kvfs \<Rightarrow> bool \<times> kvfs" where
  "DeleteKey c key fs =
     (case nc_file c of None \<Rightarrow> (False, fs)
      | Some kv \<Rightarrow> (case kv_Remove kv (GetRealKey c (cstr key)) fs of (r, fs1) \<Rightarrow> (r = KVDB_ERR_OK, fs1)))"

definition nc_SetProperty :: "u32 \<Rightarrow> KvdbNetClient \<Rightarrow> bool \<times> KvdbNetClient" where
  "nc_SetProperty property c =
     (case nc_file c of None \<Rightarrow> (False, c)
      | Some kv \<Rightarrow> (case SetProperty property kv of (r, kv1) \<Rightarrow> (r = KVDB_ERR_OK, c\<lparr>nc_file := Some kv1\<rparr>)))"

definition BackupDatabase :: "KvdbNetClient \<Rightarrow> kvfs \<Rightarrow> bool \<times> kvfs" where
  "BackupDatabase c fs =
     (case nc_file c of None \<Rightarrow> (False, fs)
      | Some kv \<Rightarrow> (case kv_Backup kv (GetWholePath 256 KVDB_PARENT_FOLD (nc_name c) True) (cstr (nc_name c)) fs of
                      (rslt, fs1) \<Rightarrow> (rslt = KVDB_ERR_OK, fs1)))"

definition RestoreDatabase :: "KvdbNetClient \<Rightarrow> kvfs \<Rightarrow> bool \<times> kvfs" where
  "RestoreDatabase c fs =
     (case nc_file c of None \<Rightarrow> (False, fs)
      | Some kv \<Rightarrow>
          (let fs1 = snd (kv_Restore kv (GetWholePath 256 KVDB_PARENT_FOLD (nc_name c) True) (cstr (nc_name c)) fs)
           in case kv_Clear (GetWholePath 256 KVDB_BACKUP_PARENT_FOLD (nc_name c) False) fs1 of
                (rslt, fs2) \<Rightarrow> (rslt = KVDB_ERR_OK, fs2)))"

definition nc_Clear :: "byte \<Rightarrow> KvdbNetClient \<Rightarrow> kvfs \<Rightarrow> bool \<times> kvfs" where
  "nc_Clear clear_type c fs =
     (case nc_file c of None \<Rightarrow> (False, fs)
      | Some kv \<Rightarrow>
          (let fs2 = (if clear_type AND 1 \<noteq> 0
                      then snd (kv_Clear (GetWholePath 256 KVDB_BACKUP_PARENT_FOLD (nc_name c) False)
                             (snd (kv_Clear (GetWholePath 256 KVDB_PARENT_FOLD (nc_name c) False) fs)))
                      else fs)
           in if clear_type AND 2 \<noteq> 0
              then let fs3 = snd (kv_Clear (GetWholePath 256 KVDB_BACKUP_PARENT_FOLD (nc_name c) True) fs2);
                       bak_flag = (cstr (nc_name c) \<noteq> KVDB_NAME_SKVDB)
                   in case kv_Clear (GetWholePath 256 KVDB_PARENT_FOLD (nc_name c) bak_flag) fs3 of
                        (rslt, fs4) \<Rightarrow> (rslt = KVDB_ERR_OK, fs4)
              else (True, fs2)))"

section \<open>Paths\<close>

lemma path_parts:
  assumes "CHR ''/'' \<notin> set n"
  shows "fold_of (d @ ''/'' @ n) = d" "base_of (d @ ''/'' @ n) = n"
proof -
  have "takeWhile (\<lambda>c. c \<noteq> CHR ''/'') (rev n @ CHR ''/'' # rev d) = rev n" "dropWhile (\<lambda>c. c \<noteq> CHR ''/'') (rev n @ CHR ''/'' # rev d) = CHR ''/'' # rev d"
    using assms by (auto simp: takeWhile_append dropWhile_append)
  then show "fold_of (d @ ''/'' @ n) = d" "base_of (d @ ''/'' @ n) = n" by (simp_all add: fold_of_def base_of_def)
qed

lemma base_no_slash: "CHR ''/'' \<notin> set (base_of p)"
  by (auto simp: base_of_def dest: set_takeWhileD)

lemma path_split:
  assumes "fold_of p = d" "d \<noteq> []"
  shows "d @ ''/'' @ base_of p = p"
proof -
  let ?w = "dropWhile (\<lambda>c. c \<noteq> CHR ''/'') (rev p)"
  have "fold_of p = []" if "?w = []" using that unfolding fold_of_def by (simp only: drop_Nil rev.simps)
  then have "?w \<noteq> []" using assms by blast
  then have "?w = CHR ''/'' # rev d" using assms(1) hd_dropWhile [OF \<open>?w \<noteq> []\<close>] by (cases ?w) (auto simp: fold_of_def)
  then have "rev p = rev (base_of p) @ CHR ''/'' # rev d"
    using takeWhile_dropWhile_id [of "\<lambda>c. c \<noteq> CHR ''/''" "rev p"] by (simp add: base_of_def)
  then have "rev p = rev (d @ ''/'' @ base_of p)" by simp
  then show ?thesis by (simp only: rev_is_rev_conv)
qed

lemma path_inj: "CHR ''/'' \<notin> set n \<Longrightarrow> CHR ''/'' \<notin> set m \<Longrightarrow> d @ ''/'' @ n = e @ ''/'' @ m \<longleftrightarrow> d = e \<and> n = m"
  using path_parts [of n d] path_parts [of m e] by metis

section \<open>Making folders\<close>

definition path_of :: "string list \<Rightarrow> string" where
  "path_of items = concat (map (\<lambda>i. ''/'' @ i) items)"

definition clean_item :: "string \<Rightarrow> bool" where
  "clean_item i \<longleftrightarrow> i \<noteq> [] \<and> (\<forall>c \<in> set i. \<not> is_sep c \<and> c \<noteq> NUL \<and> \<not> blank c)"

lemma split_path_of: "\<forall>i \<in> set items. clean_item i \<Longrightarrow> split_path (path_of items) = items"
proof (induction items)
  case Nil
  show ?case by (subst split_path.simps) (simp add: path_of_def)
next
  case (Cons i items)
  let ?r = "path_of items"
  have r: "?r = [] \<or> is_sep (hd ?r)" by (cases items) (simp_all add: path_of_def is_sep_def)
  obtain c cs where c: "i = c # cs" using Cons.prems by (cases i) (auto simp: clean_item_def)
  have i: "\<forall>c \<in> set i. \<not> is_sep c" using Cons.prems by (simp add: clean_item_def)
  have "dropWhile is_sep (path_of (i # items)) = c # cs @ ?r" using i c by (simp add: path_of_def is_sep_def)
  moreover have "takeWhile (\<lambda>c. \<not> is_sep c) (i @ ?r) = i" "dropWhile (\<lambda>c. \<not> is_sep c) (i @ ?r) = ?r"
    using i r by (cases ?r; auto simp: takeWhile_append dropWhile_append)+
  ultimately show ?case using Cons c by (subst split_path.simps) simp
qed

lemma fold_node_slash: "NUL \<notin> set p \<Longrightarrow> fold_node (p @ ''/'') = p"
  by (simp add: fold_node_def cstr_def takeWhile_append)

text \<open>Making folders changes no file, and the new folders are no longer than the path and no files.\<close>

definition more_dirs :: "nat \<Rightarrow> kvfs \<Rightarrow> kvfs \<Rightarrow> bool" where
  "more_dirs l fs fs' \<longleftrightarrow> fs' = fs\<lparr>fs_dirs := fs_dirs fs'\<rparr> \<and> set (fs_dirs fs) \<subseteq> set (fs_dirs fs') \<and>
     (\<forall>q \<in> set (fs_dirs fs') - set (fs_dirs fs). file_at fs q = None \<and> length q \<le> l)"

lemma more_dirs_mono: "more_dirs k fs fs' \<Longrightarrow> k \<le> l \<Longrightarrow> more_dirs l fs fs'"
  unfolding more_dirs_def by (meson le_trans)

lemma more_dirs_trans:
  assumes "more_dirs l fs fs1" "more_dirs l fs1 fs2"
  shows "more_dirs l fs fs2"
proof -
  have "fs_files fs1 = fs_files fs" using assms(1) unfolding more_dirs_def by (metis kvfs.select_convs(1) kvfs.surjective kvfs.update_convs(2))
  then show ?thesis using assms unfolding more_dirs_def by (auto intro!: kvfs.equality) (metis kvfs.select_convs kvfs.surjective kvfs.update_convs(2))+
qed

lemma make_dir_more:
  assumes "NUL \<notin> set p" "make_dir (p @ ''/'') fs = (ok, fs')"
  shows "more_dirs (length p) fs fs'" "ok \<Longrightarrow> p \<in> set (fs_dirs fs')"
  using assms by (auto simp: make_dir_def fold_node_slash more_dirs_def Let_def split: if_splits)

lemma make_dirs_more:
  "make_dirs tmp items fs = (ok, fs') \<Longrightarrow> NUL \<notin> set tmp \<Longrightarrow> \<forall>i \<in> set items. NUL \<notin> set i \<Longrightarrow>
     more_dirs (length tmp + length (path_of items) - 1) fs fs' \<and>
     (ok \<longrightarrow> items \<noteq> [] \<longrightarrow> butlast (tmp @ concat (map (\<lambda>i. i @ ''/'') items)) \<in> set (fs_dirs fs'))"
proof (induction items arbitrary: tmp fs)
  case Nil
  then show ?case by (simp add: more_dirs_def)
next
  case (Cons i items)
  obtain ok1 fs1 where m: "make_dir (tmp @ i @ ''/'') fs = (ok1, fs1)" by (cases "make_dir (tmp @ i @ ''/'') fs")
  have i: "NUL \<notin> set (tmp @ i)" using Cons.prems by simp
  have d: "more_dirs (length (tmp @ i)) fs fs1" "ok1 \<Longrightarrow> tmp @ i \<in> set (fs_dirs fs1)" using make_dir_more [OF i, of fs ok1 fs1] m by simp_all
  show ?case
  proof (cases ok1)
    case False
    with Cons.prems(1) m have "fs' = fs1" "\<not> ok" by auto
    moreover from d(1) have "more_dirs (length tmp + length (path_of (i # items)) - 1) fs fs1"
      by (rule more_dirs_mono) (simp add: path_of_def)
    ultimately show ?thesis by simp
  next
    case True
    have r: "make_dirs (tmp @ i @ ''/'') items fs1 = (ok, fs')" using Cons.prems(1) m True by simp
    have nul: "NUL \<notin> set (tmp @ i @ ''/'')" "\<forall>i \<in> set items. NUL \<notin> set i" using Cons.prems(2,3) by simp_all
    note ih = Cons.IH [OF r nul]
    have "more_dirs (length (tmp @ i @ ''/'') + length (path_of items) - 1) fs1 fs'" using ih by blast
    moreover have "more_dirs (length (tmp @ i @ ''/'') + length (path_of items) - 1) fs fs1" by (rule more_dirs_mono [OF d(1)]) simp
    ultimately have "more_dirs (length (tmp @ i @ ''/'') + length (path_of items) - 1) fs fs'" using more_dirs_trans by blast
    moreover have "butlast (tmp @ concat (map (\<lambda>i. i @ ''/'') (i # items))) \<in> set (fs_dirs fs')" if ok
    proof (cases "items = []")
      case True
      with r have "fs' = fs1" by simp
      with True d(2) \<open>ok1\<close> show ?thesis by (simp add: butlast_append)
    next
      case False
      then have "butlast ((tmp @ i @ ''/'') @ concat (map (\<lambda>i. i @ ''/'') items)) \<in> set (fs_dirs fs')" using ih that by blast
      then show ?thesis by simp
    qed
    ultimately show ?thesis by (simp add: path_of_def add.assoc)
  qed
qed

lemma FoldCreate_more:
  assumes "t = path_of items" "items \<noteq> []" "\<forall>i \<in> set items. clean_item i" "length t \<le> 512" "FoldCreate t fs = (r, fs')"
  shows "more_dirs (length t) fs fs'" "r = KVDB_ERR_OK \<Longrightarrow> t \<in> set (fs_dirs fs')"
proof -
  have t: "t \<noteq> []" "hd t = CHR ''/''" using assms(1,2) by (cases items; simp add: path_of_def)+
  have nb: "\<not> blank c" if "c \<in> set t" for c
  proof -
    have "c = CHR ''/'' \<or> (\<exists>i \<in> set items. c \<in> set i)" using that assms(1) by (auto simp: path_of_def split: if_splits)
    moreover have "\<not> blank (CHR ''/'')" by (simp add: blank_def)
    ultimately show ?thesis using assms(3) by (auto simp: clean_item_def)
  qed
  have "dropWhile blank t = t" "dropWhile blank (rev t) = rev t"
    using nb t(1) by (auto simp: dropWhile_eq_self_iff hd_rev)
  then have "chop t = t" by (simp add: chop_def)
  then have m: "make_dirs ''/'' items fs = (r = KVDB_ERR_OK, fs')"
    using assms t split_path_of [OF assms(3)] by (auto simp: FoldCreate_def make_dir_p_def split: prod.splits if_splits)
  have "CHR ''/'' # concat (map (\<lambda>i. i @ ''/'') is) = path_of is @ ''/''" for "is" by (induction "is") (simp_all add: path_of_def)
  then have "butlast (''/'' @ concat (map (\<lambda>i. i @ ''/'') items)) = t" by (simp add: assms(1))
  moreover have "\<forall>i \<in> set items. NUL \<notin> set i" using assms(3) by (auto simp: clean_item_def)
  ultimately have "more_dirs (length ''/'' + length t - 1) fs fs' \<and> (r = KVDB_ERR_OK \<longrightarrow> items \<noteq> [] \<longrightarrow> t \<in> set (fs_dirs fs'))"
    using make_dirs_more [OF m] by (simp only: assms(1)) simp
  with assms(2) show "more_dirs (length t) fs fs'" "r = KVDB_ERR_OK \<Longrightarrow> t \<in> set (fs_dirs fs')" by simp_all
qed

section \<open>Clearing and copying folders\<close>

text \<open>Well-formed file systems: files and folders are apart, and paths are far shorter than the buffers.\<close>

definition kvfs_wf :: "kvfs \<Rightarrow> bool" where
  "kvfs_wf fs \<longleftrightarrow> (\<forall>p. file_at fs p \<noteq> None \<longrightarrow> p \<notin> set (fs_dirs fs) \<and> base_of p \<notin> {''.'', ''..''} \<and> length p \<le> 900) \<and>
     (\<forall>d \<in> set (fs_dirs fs). length d \<le> 900) \<and> fs_denied fs = [] \<and> fs_unreadable fs = []"

lemma wf_not_fold: "kvfs_wf fs \<Longrightarrow> file_at fs p \<noteq> None \<Longrightarrow> \<not> is_fold fs p"
  unfolding kvfs_wf_def is_fold_def by blast

text \<open>Making folders keeps a file system well-formed.\<close>

lemma more_dirs_wf:
  assumes "more_dirs l fs fs'" "kvfs_wf fs" "l \<le> 900"
  shows "kvfs_wf fs'"
proof -
  obtain ds where ds: "fs' = fs\<lparr>fs_dirs := ds\<rparr>" using assms(1) unfolding more_dirs_def by blast
  have "q \<in> set (fs_dirs fs) \<or> file_at fs q = None \<and> length q \<le> l" if "q \<in> set ds" for q using assms(1) that by (auto simp: more_dirs_def ds)
  then show ?thesis using assms(2,3) unfolding kvfs_wf_def by (auto simp: ds) (fastforce, fastforce)
qed

lemma file_in_map: "file_at fs p \<noteq> None \<longleftrightarrow> p \<in> fst ` set (fs_files fs)"
  by (simp add: map_of_eq_None_iff)

text \<open>The entries of a folder: what they are called and what is at their paths.\<close>

lemma readdir_files:
  assumes "d \<noteq> []" "fold_of q = d" "file_at fs q \<noteq> None"
  shows "base_of q \<in> set (readdir fs d)"
  using assms file_in_map [of fs q] by (auto simp: readdir_def)

lemma readdir_entry:
  assumes "kvfs_wf fs" "d \<noteq> []" "d \<in> set (fs_dirs fs)" "n \<in> set (readdir fs d)"
  shows "CHR ''/'' \<notin> set n" "length (d @ ''/'' @ n) \<le> 903" "is_fold fs (d @ ''/'' @ n) \<or> file_at fs (d @ ''/'' @ n) \<noteq> None"
proof -
  consider "n = ''.'' \<or> n = ''..''" | p where "n = base_of p" "fold_of p = d" "p \<in> fst ` set (fs_files fs) \<union> set (fs_dirs fs)"
    using assms(4) by (auto simp: readdir_def)
  then have all: "CHR ''/'' \<notin> set n \<and> length (d @ ''/'' @ n) \<le> 903 \<and> (is_fold fs (d @ ''/'' @ n) \<or> file_at fs (d @ ''/'' @ n) \<noteq> None)"
  proof cases
    case 1
    then have s: "CHR ''/'' \<notin> set n" "length n \<le> 2" by auto
    moreover have "length d \<le> 900" using assms(1,3) by (simp add: kvfs_wf_def)
    moreover have "is_fold fs (d @ ''/'' @ n)" using 1 assms(3) path_parts [OF s(1), of d] by (auto simp: is_fold_def)
    ultimately show ?thesis by simp
  next
    case 2
    have p: "d @ ''/'' @ n = p" using path_split [OF 2(2) assms(2)] 2(1) by simp
    have "file_at fs p \<noteq> None \<or> p \<in> set (fs_dirs fs)" using 2(3) file_in_map [of fs p] by blast
    with assms(1) have "length p \<le> 900" "is_fold fs p \<or> file_at fs p \<noteq> None" unfolding kvfs_wf_def is_fold_def by blast+
    then show ?thesis using 2(1) base_no_slash p by simp
  qed
  then show "CHR ''/'' \<notin> set n" "length (d @ ''/'' @ n) \<le> 903" "is_fold fs (d @ ''/'' @ n) \<or> file_at fs (d @ ''/'' @ n) \<noteq> None" by blast+
qed

text \<open>Clearing keeps the files of other folders in their order.\<close>

definition files_outside :: "kvfs \<Rightarrow> string \<Rightarrow> (string \<times> byte list) list" where
  "files_outside fs d = filter (\<lambda>pc. fold_of (fst pc) \<noteq> d) (fs_files fs)"

lemma files_outside_del: "fold_of p = d \<Longrightarrow> files_outside (del_file p fs) d = files_outside fs d"
  by (auto simp: files_outside_def del_file_def AList.delete_eq intro: filter_cong)

lemma clear_loop_outside:
  "\<forall>n \<in> set ns. CHR ''/'' \<notin> set n \<and> length (d @ ''/'' @ n) \<le> 1023 \<Longrightarrow> files_outside (snd (clear_loop d ns r fs)) d = files_outside fs d"
proof (induction ns arbitrary: r fs)
  case (Cons n ns)
  let ?p = "d @ ''/'' @ n"
  have p: "take 1023 ?p = ?p" using Cons.prems by (intro take_all) simp
  have "fold_of ?p = d" using path_parts(1) Cons.prems by simp
  then have "files_outside (snd (remove_file ?p fs)) d = files_outside fs d" by (auto simp: remove_file_def files_outside_del)
  moreover have "files_outside (snd (clear_loop d ns r' fs')) d = files_outside fs' d" for r' fs' using Cons by simp
  ultimately show ?case by (simp only: clear_loop.simps p Let_def) (auto split: option.splits file_kind.splits prod.splits)
qed simp

lemma clear_loop_files:
  "clear_loop d ns r fs = (r', fs') \<Longrightarrow> fs_denied fs = [] \<Longrightarrow> \<forall>n \<in> set ns. length (d @ ''/'' @ n) \<le> 1023 \<Longrightarrow>
     file_at fs' q = (if (\<exists>n \<in> set ns. q = d @ ''/'' @ n) \<and> \<not> is_fold fs q then None else file_at fs q) \<and>
     fs_dirs fs' = fs_dirs fs \<and> fs_denied fs' = [] \<and> fs_unreadable fs' = fs_unreadable fs \<and> fs_room fs' = fs_room fs"
proof (induction ns arbitrary: r fs)
  case (Cons n ns)
  let ?p = "d @ ''/'' @ n"
  have p: "take 1023 ?p = ?p" using Cons.prems(3) by (intro take_all) simp
  have del: "is_fold (del_file p fs) = is_fold fs" for p by (simp add: is_fold_def del_file_def fun_eq_iff)
  consider "fs_stat fs ?p = None" | "fs_stat fs ?p = Some Folder" | "fs_stat fs ?p = Some Regular"
    by (metis file_kind.exhaust option.exhaust)
  then show ?case
  proof cases
    case 3
    then have f: "file_at fs ?p \<noteq> None" "\<not> is_fold fs ?p" by (auto simp: fs_stat_def split: if_splits)
    have "remove_file ?p fs = (True, del_file ?p fs)" using f(1) Cons.prems(2) by (auto simp: remove_file_def)
    with Cons.prems(1) 3 have "clear_loop d ns r (del_file ?p fs) = (r', fs')" by (simp only: clear_loop.simps p Let_def) simp
    from Cons.IH [OF this] Cons.prems(2,3) f(2) show ?thesis by (auto simp: del)
  next
    case 1
    with Cons.prems(1) have "clear_loop d ns KVDB_ERR_DELETE_FILE fs = (r', fs')" by (simp only: clear_loop.simps p Let_def) simp
    moreover have "file_at fs ?p = None" using 1 by (auto simp: fs_stat_def split: if_splits)
    ultimately show ?thesis using Cons.IH [of KVDB_ERR_DELETE_FILE fs] Cons.prems(2,3) by auto
  next
    case 2
    with Cons.prems(1) have "clear_loop d ns r fs = (r', fs')" by (simp only: clear_loop.simps p Let_def) simp
    moreover have "is_fold fs ?p" using 2 by (auto simp: fs_stat_def split: if_splits)
    ultimately show ?thesis using Cons.IH [of r fs] Cons.prems(2,3) by auto
  qed
qed simp

lemma Clear_files:
  assumes "kvfs_wf fs" "d \<noteq> []" "d \<in> set (fs_dirs fs)" "kv_Clear d fs = (r, fs')"
  shows "file_at fs' q = (if fold_of q = d then None else file_at fs q)"
    "fs_dirs fs' = fs_dirs fs" "fs_denied fs' = []" "fs_unreadable fs' = []" "fs_room fs' = fs_room fs" "files_outside fs' d = files_outside fs d"
proof -
  have "clear_loop d (readdir fs d) KVDB_ERR_OK fs = (r, fs')" using assms(3,4) by (simp add: kv_Clear_def)
  moreover have "\<forall>n \<in> set (readdir fs d). length (d @ ''/'' @ n) \<le> 1023" using readdir_entry(2) [OF assms(1-3)] by fastforce
  moreover have "fs_denied fs = []" "fs_unreadable fs = []" using assms(1) by (simp_all add: kvfs_wf_def)
  ultimately have c: "file_at fs' q = (if (\<exists>n \<in> set (readdir fs d). q = d @ ''/'' @ n) \<and> \<not> is_fold fs q then None else file_at fs q)"
    "fs_dirs fs' = fs_dirs fs" "fs_denied fs' = []" "fs_unreadable fs' = []" "fs_room fs' = fs_room fs" for q
    using clear_loop_files [of d "readdir fs d" KVDB_ERR_OK fs r fs'] by auto
  have in_fold: "(\<exists>n \<in> set (readdir fs d). q = d @ ''/'' @ n) \<longleftrightarrow> fold_of q = d" if "file_at fs q \<noteq> None" for q
  proof
    assume "\<exists>n \<in> set (readdir fs d). q = d @ ''/'' @ n"
    then show "fold_of q = d" using path_parts(1) [OF readdir_entry(1) [OF assms(1-3)]] by blast
  next
    assume "fold_of q = d"
    then show "\<exists>n \<in> set (readdir fs d). q = d @ ''/'' @ n"
      using readdir_files [OF assms(2) _ that] path_split [OF _ assms(2), of q] by (intro bexI [of _ "base_of q"]) simp_all
  qed
  show "file_at fs' q = (if fold_of q = d then None else file_at fs q)" for q
    using c(1) [of q] in_fold [of q] wf_not_fold [OF assms(1), of q] by (cases "file_at fs q = None") auto
  show "fs_dirs fs' = fs_dirs fs" "fs_denied fs' = []" "fs_unreadable fs' = []" "fs_room fs' = fs_room fs" by (rule c)+
  have "\<forall>n \<in> set (readdir fs d). CHR ''/'' \<notin> set n \<and> length (d @ ''/'' @ n) \<le> 1023" using readdir_entry(1,2) [OF assms(1-3)] by fastforce
  from clear_loop_outside [OF this, of KVDB_ERR_OK fs] assms(3,4) show "files_outside fs' d = files_outside fs d" by (simp add: kv_Clear_def)
qed

lemma copy_chars_content:
  "file_at fs t = Some old \<Longrightarrow> length cs \<le> fs_room fs \<Longrightarrow>
     file_at (copy_chars t cs fs) t = Some (old @ cs) \<and> fs_room (copy_chars t cs fs) = fs_room fs - length cs \<and> frame_fs t fs (copy_chars t cs fs)"
proof (induction cs arbitrary: fs old)
  case (Cons c cs)
  define fs1 where "fs1 = snd (write_data t [c] fs)"
  have "file_at fs1 t = Some (old @ [c])" "fs_room fs1 = fs_room fs - 1" "frame_fs t fs fs1"
    using Cons.prems by (simp_all add: fs1_def write_data_def Let_def frame_fs_def)
  with Cons.IH [of fs1 "old @ [c]"] Cons.prems show ?case by (auto simp: fs1_def intro: frame_fs_trans)
qed simp

lemma FileCopy_content:
  assumes "file_at fs s = Some c" "fs_unreadable fs = []" "can_write fs t" "s \<noteq> t" "length c \<le> fs_room fs"
  shows "\<exists>fs'. FileCopy t s fs = (KVDB_ERR_OK, fs') \<and> file_at fs' t = Some c \<and> fs_room fs' = fs_room fs - length c \<and> frame_fs t fs fs'"
proof -
  have f: "frame_fs t fs (put_file t [] fs)" by (simp add: frame_fs_def)
  have "FileCopy t s fs = (KVDB_ERR_OK, copy_chars t c (put_file t [] fs))" using assms by (simp add: FileCopy_def Let_def)
  moreover have "length c \<le> fs_room (put_file t [] fs)" using assms(5) by simp
  ultimately show ?thesis using copy_chars_content [of "put_file t [] fs" t "[]" c] by (auto intro: frame_fs_trans [OF f])
qed
definition fold_size :: "kvfs \<Rightarrow> string \<Rightarrow> nat" where
  "fold_size fs d = (\<Sum>p \<leftarrow> filter (\<lambda>p. fold_of p = d) (map fst (fs_files fs)). length (the (file_at fs p)))"

lemma fold_size_readdir:
  assumes "kvfs_wf fs" "d \<noteq> []" "d \<in> set (fs_dirs fs)"
  shows "(\<Sum>n \<leftarrow> readdir fs d. case file_at fs (d @ ''/'' @ n) of None \<Rightarrow> 0 | Some c \<Rightarrow> length c) = fold_size fs d"
proof -
  let ?l = "\<lambda>n. case file_at fs (d @ ''/'' @ n) of None \<Rightarrow> 0 | Some c \<Rightarrow> length c"
  have l0: "?l n = 0" if "is_fold fs (d @ ''/'' @ n)" for n
    using wf_not_fold [OF assms(1), of "d @ ''/'' @ n"] that by (cases "file_at fs (d @ ''/'' @ n) = None") auto
  have dot: "is_fold fs (d @ ''/'' @ ''.'')" "is_fold fs (d @ ''/'' @ ''..'')"
    using path_parts [of "''.''" d] path_parts [of "''..''" d] assms(3) by (simp_all add: is_fold_def)
  have sub: "is_fold fs (d @ ''/'' @ base_of p)" if "p \<in> set (fs_dirs fs)" "fold_of p = d" for p
    using that path_split [OF that(2) assms(2)] by (simp add: is_fold_def)
  have z: "?l ''.'' = 0" "?l ''..'' = 0" by (rule l0, rule dot)+
  have zd: "?l (base_of p) = 0" if "p \<in> set (fs_dirs fs)" "fold_of p = d" for p using that by (intro l0 sub)
  have "?l (base_of p) = length (the (file_at fs p))" if "p \<in> fst ` set (fs_files fs)" "fold_of p = d" for p
    using path_split [OF that(2) assms(2)] file_in_map [of fs p] that(1) by (auto split: option.splits)
  then have "map (\<lambda>p. ?l (base_of p)) (filter (\<lambda>p. fold_of p = d) (map fst (fs_files fs))) =
      map (\<lambda>p. length (the (file_at fs p))) (filter (\<lambda>p. fold_of p = d) (map fst (fs_files fs)))" by (intro map_cong) auto
  moreover have "(\<Sum>p \<leftarrow> filter (\<lambda>p. fold_of p = d) (fs_dirs fs). ?l (base_of p)) = 0" using zd by (auto simp: sum_list_eq_0_iff)
  moreover have "(\<Sum>n \<leftarrow> readdir fs d. ?l n) = ?l ''.'' + (?l ''..'' + ((\<Sum>p \<leftarrow> filter (\<lambda>p. fold_of p = d) (map fst (fs_files fs)). ?l (base_of p)) +
      (\<Sum>p \<leftarrow> filter (\<lambda>p. fold_of p = d) (fs_dirs fs). ?l (base_of p))))" by (simp add: readdir_def comp_def)
  ultimately show ?thesis by (simp only: z fold_size_def add_0 add_0_right)
qed

lemma fold_size_outside:
  assumes "d \<noteq> e" "files_outside fs' e = files_outside fs e" "\<And>q. fold_of q = d \<Longrightarrow> file_at fs' q = file_at fs q"
  shows "fold_size fs' d = fold_size fs d"
proof -
  have f: "filter (\<lambda>p. fold_of p = d) (map fst (fs_files fs)) = filter (\<lambda>p. fold_of p = d) (map fst (files_outside fs e))" for fs
  proof -
    have "filter (\<lambda>p. fold_of p = d) (map fst xs) = filter (\<lambda>p. fold_of p = d) (map fst (filter (\<lambda>pc. fold_of (fst pc) \<noteq> e) xs))"
      for xs :: "(string \<times> byte list) list" using assms(1) by (induction xs) auto
    then show ?thesis by (simp add: files_outside_def)
  qed
  have "fold_size fs' d = (\<Sum>p \<leftarrow> filter (\<lambda>p. fold_of p = d) (map fst (files_outside fs e)). length (the (file_at fs' p)))"
    using assms(2) by (simp add: fold_size_def f)
  also have "\<dots> = fold_size fs d" unfolding fold_size_def f using assms(3) by (intro arg_cong [where f = sum_list] map_cong) auto
  finally show ?thesis .
qed

lemma fold_loop_copies:
  assumes "s \<noteq> t" "t \<noteq> []"
  shows "fs_unreadable fs = [] \<Longrightarrow>
    \<forall>n \<in> set ns. CHR ''/'' \<notin> set n \<and> length (s @ ''/'' @ n) \<le> 1023 \<and> length (t @ ''/'' @ n) \<le> 1023 \<and>
      (if file_at fs (s @ ''/'' @ n) = None then is_fold fs (s @ ''/'' @ n) else \<not> is_fold fs (s @ ''/'' @ n) \<and> can_write fs (t @ ''/'' @ n)) \<Longrightarrow>
    (\<Sum>n \<leftarrow> ns. case file_at fs (s @ ''/'' @ n) of None \<Rightarrow> 0 | Some c \<Rightarrow> length c) \<le> fs_room fs \<Longrightarrow>
    \<exists>fs'. fold_loop t s ns KVDB_ERR_OK fs = (KVDB_ERR_OK, fs') \<and>
      (\<forall>q. file_at fs' q = (if fold_of q = t \<and> base_of q \<in> set ns \<and> file_at fs (s @ ''/'' @ base_of q) \<noteq> None
                            then file_at fs (s @ ''/'' @ base_of q) else file_at fs q)) \<and> fs_dirs fs' = fs_dirs fs"
proof (induction ns arbitrary: fs)
  case (Cons n ns)
  let ?p = "s @ ''/'' @ n" and ?t = "t @ ''/'' @ n"
  have n: "CHR ''/'' \<notin> set n" using Cons.prems(2) by simp
  have cut: "take 1023 ?p = ?p" "take 1023 ?t = ?t" using Cons.prems(2) by (intro take_all; simp)+
  show ?case
  proof (cases "file_at fs ?p")
    case None
    then have "fs_stat fs ?p = Some Folder" using Cons.prems(2) by (simp add: fs_stat_def)
    then have "fold_loop t s (n # ns) KVDB_ERR_OK fs = fold_loop t s ns KVDB_ERR_OK fs" by (simp only: fold_loop.simps cut Let_def) simp
    moreover have IHp: "\<forall>n \<in> set ns. CHR ''/'' \<notin> set n \<and> length (s @ ''/'' @ n) \<le> 1023 \<and> length (t @ ''/'' @ n) \<le> 1023 \<and>
      (if file_at fs (s @ ''/'' @ n) = None then is_fold fs (s @ ''/'' @ n) else \<not> is_fold fs (s @ ''/'' @ n) \<and> can_write fs (t @ ''/'' @ n))"
      using Cons.prems(2) by (rule ballI [OF bspec]) simp
    moreover have "(\<Sum>n \<leftarrow> ns. case file_at fs (s @ ''/'' @ n) of None \<Rightarrow> 0 | Some c \<Rightarrow> length c) \<le> fs_room fs" using Cons.prems(3) None by simp
    from Cons.IH [OF Cons.prems(1) IHp this] obtain fs' where fs': "fold_loop t s ns KVDB_ERR_OK fs = (KVDB_ERR_OK, fs')" "fs_dirs fs' = fs_dirs fs"
      "\<And>q. file_at fs' q = (if fold_of q = t \<and> base_of q \<in> set ns \<and> file_at fs (s @ ''/'' @ base_of q) \<noteq> None
                            then file_at fs (s @ ''/'' @ base_of q) else file_at fs q)" by blast
    have "file_at fs' q = (if fold_of q = t \<and> base_of q \<in> set (n # ns) \<and> file_at fs (s @ ''/'' @ base_of q) \<noteq> None
                            then file_at fs (s @ ''/'' @ base_of q) else file_at fs q)" for q
      using fs'(3) [of q] None by (cases "base_of q = n") simp_all
    with calculation fs'(1,2) show ?thesis by auto
  next
    case (Some c)
    have "fs_stat fs ?p = Some Regular" "can_write fs ?t" using Some Cons.prems(2) by (simp_all add: fs_stat_def)
    moreover have st: "s @ ''/'' @ m \<noteq> ?t" if "CHR ''/'' \<notin> set m" for m using path_inj [OF that n] assms(1) by blast
    moreover have "length c \<le> fs_room fs" using Cons.prems(3) Some by simp
    ultimately obtain fs1 where fs1: "FileCopy ?t ?p fs = (KVDB_ERR_OK, fs1)" "file_at fs1 ?t = Some c" "fs_room fs1 = fs_room fs - length c"
      "frame_fs ?t fs fs1" using FileCopy_content [OF Some Cons.prems(1), of ?t] n by blast
    have loop: "fold_loop t s (n # ns) KVDB_ERR_OK fs = fold_loop t s ns KVDB_ERR_OK fs1"
      using \<open>fs_stat fs ?p = Some Regular\<close> fs1(1) by (simp only: fold_loop.simps cut Let_def) simp
    have same: "file_at fs1 (s @ ''/'' @ m) = file_at fs (s @ ''/'' @ m)" if "CHR ''/'' \<notin> set m" for m
      using frame_fsD(1) [OF fs1(4) st [OF that]] .
    have dirs: "fs_dirs fs1 = fs_dirs fs" "fs_unreadable fs1 = []" using fs1(4) Cons.prems(1) by (simp_all add: frame_fs_def)
    have inv: "is_fold fs1 = is_fold fs" "can_write fs1 = can_write fs" using fs1(4) by (simp_all add: frame_fs_def is_fold_def can_write_def fun_eq_iff)
    have ns: "CHR ''/'' \<notin> set m" if "m \<in> set ns" for m using that Cons.prems(2) by simp
    have "(\<Sum>n \<leftarrow> ns. case file_at fs1 (s @ ''/'' @ n) of None \<Rightarrow> 0 | Some c \<Rightarrow> length c) =
        (\<Sum>n \<leftarrow> ns. case file_at fs (s @ ''/'' @ n) of None \<Rightarrow> 0 | Some c \<Rightarrow> length c)"
      using same ns by (intro arg_cong [where f = sum_list] map_cong) auto
    then have room: "(\<Sum>n \<leftarrow> ns. case file_at fs1 (s @ ''/'' @ n) of None \<Rightarrow> 0 | Some c \<Rightarrow> length c) \<le> fs_room fs1"
      using Cons.prems(3) Some fs1(3) by simp
    have "\<forall>n \<in> set ns. CHR ''/'' \<notin> set n \<and> length (s @ ''/'' @ n) \<le> 1023 \<and> length (t @ ''/'' @ n) \<le> 1023 \<and>
      (if file_at fs1 (s @ ''/'' @ n) = None then is_fold fs1 (s @ ''/'' @ n) else \<not> is_fold fs1 (s @ ''/'' @ n) \<and> can_write fs1 (t @ ''/'' @ n))"
    proof
      fix m assume m: "m \<in> set ns"
      then have "m \<in> set (n # ns)" by simp
      from bspec [OF Cons.prems(2) this] show "CHR ''/'' \<notin> set m \<and> length (s @ ''/'' @ m) \<le> 1023 \<and> length (t @ ''/'' @ m) \<le> 1023 \<and>
        (if file_at fs1 (s @ ''/'' @ m) = None then is_fold fs1 (s @ ''/'' @ m) else \<not> is_fold fs1 (s @ ''/'' @ m) \<and> can_write fs1 (t @ ''/'' @ m))"
        unfolding same [OF ns [OF m]] inv by blast
    qed
    from Cons.IH [OF dirs(2) this room] obtain fs' where fs': "fold_loop t s ns KVDB_ERR_OK fs1 = (KVDB_ERR_OK, fs')" "fs_dirs fs' = fs_dirs fs1"
      "\<And>q. file_at fs' q = (if fold_of q = t \<and> base_of q \<in> set ns \<and> file_at fs1 (s @ ''/'' @ base_of q) \<noteq> None
                            then file_at fs1 (s @ ''/'' @ base_of q) else file_at fs1 q)" by blast
    have "file_at fs' q = (if fold_of q = t \<and> base_of q \<in> set (n # ns) \<and> file_at fs (s @ ''/'' @ base_of q) \<noteq> None
                            then file_at fs (s @ ''/'' @ base_of q) else file_at fs q)" for q
    proof (cases "q = ?t")
      case True
      then have "fold_of q = t" "base_of q = n" using path_parts [OF n] by simp_all
      then show ?thesis using fs'(3) [of q] True fs1(2) Some same [OF n] by simp
    next
      case False
      then have "\<not> (fold_of q = t \<and> base_of q = n)" using path_split [OF _ assms(2), of q] by auto
      then show ?thesis using fs'(3) [of q] same [OF base_no_slash, of q] frame_fsD(1) [OF fs1(4) False] by auto
    qed
    then show ?thesis using loop fs'(1,2) dirs(1) by auto
  qed
qed simp

text \<open>When a folder can be copied: its files fit, and the target can be made and has no folders in it.\<close>

definition copy_ok :: "string list \<Rightarrow> string \<Rightarrow> kvfs \<Rightarrow> bool" where
  "copy_ok items s fs \<longleftrightarrow> kvfs_wf fs \<and> items \<noteq> [] \<and> (\<forall>i \<in> set items. clean_item i) \<and> length (path_of items) \<le> 100 \<and> s \<noteq> [] \<and> s \<noteq> path_of items \<and>
     s \<in> set (fs_dirs fs) \<and> fst (FoldCreate (path_of items) fs) = KVDB_ERR_OK \<and> (\<forall>d \<in> set (fs_dirs fs). fold_of d \<noteq> path_of items) \<and>
     fold_size fs s \<le> fs_room fs"

lemma FoldCopy_exact:
  assumes ok: "copy_ok items s fs"
  defines "t \<equiv> path_of items"
  shows "\<exists>fs'. FoldCopy t s fs = (KVDB_ERR_OK, fs') \<and>
    (\<forall>q. file_at fs' q = (if fold_of q = t then file_at fs (s @ ''/'' @ base_of q) else file_at fs q)) \<and> set (fs_dirs fs) \<subseteq> set (fs_dirs fs')"
proof -
  have t: "t \<noteq> []" "length t \<le> 100" and wf: "kvfs_wf fs" and s: "s \<noteq> []" "s \<noteq> t" "s \<in> set (fs_dirs fs)"
    and sub: "\<forall>d \<in> set (fs_dirs fs). fold_of d \<noteq> t" and size: "fold_size fs s \<le> fs_room fs"
    using ok by (auto simp: copy_ok_def t_def path_of_def neq_Nil_conv)
  define fs1 where "fs1 = snd (FoldCreate t fs)"
  have "FoldCreate t fs = (KVDB_ERR_OK, fs1)" using ok by (simp add: copy_ok_def t_def fs1_def prod_eq_iff)
  from FoldCreate_more [OF _ _ _ _ this] ok have m: "more_dirs (length t) fs fs1" "t \<in> set (fs_dirs fs1)" by (auto simp: copy_ok_def t_def)
  obtain ds where ds: "fs1 = fs\<lparr>fs_dirs := ds\<rparr>" using m(1) unfolding more_dirs_def by blast
  have new: "set (fs_dirs fs) \<subseteq> set ds" "\<And>q. q \<in> set ds \<Longrightarrow> q \<in> set (fs_dirs fs) \<or> file_at fs q = None \<and> length q \<le> length t"
    using m(1) by (auto simp: more_dirs_def ds)
  have wf1: "kvfs_wf fs1" using more_dirs_wf [OF m(1) wf] t(2) by simp
  obtain r2 fs2 where c: "kv_Clear t fs1 = (r2, fs2)" by (cases "kv_Clear t fs1")
  note cl = Clear_files [OF wf1 t(1) m(2) c]
  have files: "file_at fs2 q = (if fold_of q = t then None else file_at fs q)" for q using cl(1) by (simp add: ds)
  have dirs: "fs_dirs fs2 = ds" using cl(2) by (simp add: ds)
  have wf2: "kvfs_wf fs2" using wf1 cl unfolding kvfs_wf_def by (auto simp: ds split: if_splits)
  have s2: "s \<in> set (fs_dirs fs2)" using s(3) new(1) dirs by auto
  note e = readdir_entry [OF wf2 s(1) s2]
  have "fold_size fs2 s = fold_size fs1 s" using cl(1) s(2) by (intro fold_size_outside [OF s(2) cl(6)]) auto
  then have "fold_size fs2 s \<le> fs_room fs2" using size cl(5) by (simp add: ds fold_size_def)
  then have room: "(\<Sum>n \<leftarrow> readdir fs2 s. case file_at fs2 (s @ ''/'' @ n) of None \<Rightarrow> 0 | Some c \<Rightarrow> length c) \<le> fs_room fs2"
    using fold_size_readdir [OF wf2 s(1) s2] by simp
  have wr: "can_write fs2 (t @ ''/'' @ n)" if "CHR ''/'' \<notin> set n" for n
  proof -
    have "t @ ''/'' @ n \<notin> set ds" using new(2) [of "t @ ''/'' @ n"] sub path_parts(1) [OF that, of t] by auto
    then show ?thesis using cl(3) m(2) dirs path_parts(1) [OF that, of t] by (simp add: can_write_def ds)
  qed
  have "\<forall>n \<in> set (readdir fs2 s). CHR ''/'' \<notin> set n \<and> length (s @ ''/'' @ n) \<le> 1023 \<and> length (t @ ''/'' @ n) \<le> 1023 \<and>
      (if file_at fs2 (s @ ''/'' @ n) = None then is_fold fs2 (s @ ''/'' @ n) else \<not> is_fold fs2 (s @ ''/'' @ n) \<and> can_write fs2 (t @ ''/'' @ n))"
  proof
    fix n assume n: "n \<in> set (readdir fs2 s)"
    note en = e [OF n]
    have "length (s @ ''/'' @ n) \<le> 1023" "length (t @ ''/'' @ n) \<le> 1023" using en(2) t(2) by simp_all
    with en wr [OF en(1)] wf_not_fold [OF wf2, of "s @ ''/'' @ n"] show "CHR ''/'' \<notin> set n \<and> length (s @ ''/'' @ n) \<le> 1023 \<and> length (t @ ''/'' @ n) \<le> 1023 \<and>
      (if file_at fs2 (s @ ''/'' @ n) = None then is_fold fs2 (s @ ''/'' @ n) else \<not> is_fold fs2 (s @ ''/'' @ n) \<and> can_write fs2 (t @ ''/'' @ n))" by auto
  qed
  from fold_loop_copies [OF s(2) t(1) cl(4) this room] obtain fs' where fs': "fold_loop t s (readdir fs2 s) KVDB_ERR_OK fs2 = (KVDB_ERR_OK, fs')"
    "fs_dirs fs' = fs_dirs fs2"
    "\<And>q. file_at fs' q = (if fold_of q = t \<and> base_of q \<in> set (readdir fs2 s) \<and> file_at fs2 (s @ ''/'' @ base_of q) \<noteq> None
                            then file_at fs2 (s @ ''/'' @ base_of q) else file_at fs2 q)" by blast
  have "file_at fs' q = (if fold_of q = t then file_at fs (s @ ''/'' @ base_of q) else file_at fs q)" for q
  proof (cases "fold_of q = t")
    case True
    have f: "fold_of (s @ ''/'' @ base_of q) = s" "base_of (s @ ''/'' @ base_of q) = base_of q" using path_parts [OF base_no_slash] by blast+
    have "file_at fs2 (s @ ''/'' @ base_of q) = file_at fs (s @ ''/'' @ base_of q)" using files f(1) s(2) by simp
    moreover have "base_of q \<in> set (readdir fs2 s)" if "file_at fs2 (s @ ''/'' @ base_of q) \<noteq> None"
      using readdir_files [OF s(1) f(1) that] f(2) by simp
    ultimately show ?thesis using fs'(3) [of q] True files [of q] by (cases "file_at fs (s @ ''/'' @ base_of q)") auto
  next
    case False
    then show ?thesis using fs'(3) [of q] files [of q] by auto
  qed
  moreover have "FoldCopy t s fs = (KVDB_ERR_OK, fs')" using fs'(1) s2 c by (simp add: FoldCopy_def Let_def fs1_def [symmetric])
  ultimately show ?thesis using fs'(2) dirs new(1) by auto
qed
section \<open>Databases of the client\<close>

abbreviation db_items :: "string \<Rightarrow> string list" where
  "db_items name \<equiv> [''mnt'', ''usr'', ''kvdb'', name]"

abbreviation db_fold :: "string \<Rightarrow> string" where
  "db_fold name \<equiv> path_of (db_items name)"

definition db_name :: "string \<Rightarrow> bool" where
  "db_name name \<longleftrightarrow> clean_item name \<and> length name \<le> 40"

lemma db_fold_eq: "db_fold name = KVDB_PARENT_FOLD @ ''/'' @ name"
  by (simp add: path_of_def KVDB_PARENT_FOLD_def)

lemma db_cstr: "db_name name \<Longrightarrow> cstr name = name"
  by (auto simp: db_name_def clean_item_def cstr_def takeWhile_eq_all_conv)

lemma db_clean:
  assumes "db_name name"
  shows "\<forall>i \<in> set (db_items name). clean_item i" "\<forall>i \<in> set (db_items (name @ ''_bak'')). clean_item i" "CHR ''/'' \<notin> set name"
proof -
  have k: "clean_item name" using assms by (simp add: db_name_def)
  moreover have "clean_item (name @ ''_bak'')" using k by (auto simp: clean_item_def is_sep_def blank_def)
  moreover have "clean_item ''mnt''" "clean_item ''usr''" "clean_item ''kvdb''" by (simp_all add: clean_item_def is_sep_def blank_def)
  ultimately show "\<forall>i \<in> set (db_items name). clean_item i" "\<forall>i \<in> set (db_items (name @ ''_bak'')). clean_item i" by auto
  show "CHR ''/'' \<notin> set name" using k by (auto simp: clean_item_def is_sep_def)
qed

lemma db_paths:
  assumes "db_name name" "128 \<le> m"
  shows "GetWholePath m KVDB_PARENT_FOLD name False = db_fold name" "GetWholePath m KVDB_PARENT_FOLD name True = db_fold (name @ ''_bak'')"
  using assms(2) by (simp_all add: GetWholePath_def db_fold_eq db_cstr [OF assms(1)]) (use assms in \<open>auto simp: db_name_def KVDB_PARENT_FOLD_def\<close>)

lemma db_lengths: "db_name name \<Longrightarrow> length (db_fold name) \<le> 54" "db_name name \<Longrightarrow> length (db_fold (name @ ''_bak'')) \<le> 58"
  by (simp_all add: db_fold_eq KVDB_PARENT_FOLD_def db_name_def)

text \<open>What creating a client leaves behind.\<close>

lemma CreateKvdbClient_facts:
  assumes "db_name name" "kvfs_wf fs" "\<forall>d \<in> set (fs_dirs fs). fold_of d \<noteq> db_fold name"
    and "fst (FoldCreate (db_fold name) (snd (FoldCreate KVDB_PARENT_FOLD fs))) = KVDB_ERR_OK"
    and "CreateKvdbClient name fs = (oc, fs1)"
  shows "oc = Some \<lparr>nc_name = name, nc_file = Some \<lparr>kv_foldpath = KVDB_PARENT_FOLD, kv_property = 1\<rparr>\<rparr>"
    "\<exists>ds. fs1 = fs\<lparr>fs_dirs := ds\<rparr>" "CHR ''/'' \<notin> set n \<Longrightarrow> can_write fs1 (db_fold name @ ''/'' @ n)"
proof -
  define fs0 where "fs0 = snd (FoldCreate KVDB_PARENT_FOLD fs)"
  have c: "oc = Some \<lparr>nc_name = name, nc_file = Some \<lparr>kv_foldpath = KVDB_PARENT_FOLD, kv_property = 1\<rparr>\<rparr>" "fs1 = snd (FoldCreate (db_fold name) fs0)"
    using assms(5) db_paths(1) [OF assms(1), of 128]
    by (auto simp: CreateKvdbClient_def nc_Init_def KvdbOperateFile_new_def fs0_def KVDB_PARENT_FOLD_def [symmetric])
  have parent: "KVDB_PARENT_FOLD = path_of [''mnt'', ''usr'', ''kvdb'']" by (simp add: path_of_def KVDB_PARENT_FOLD_def)
  obtain r0 where r0: "FoldCreate KVDB_PARENT_FOLD fs = (r0, fs0)" by (cases "FoldCreate KVDB_PARENT_FOLD fs") (simp add: fs0_def)
  have "more_dirs (length KVDB_PARENT_FOLD) fs fs0" using db_clean(1) [OF assms(1)] r0
    by (intro FoldCreate_more(1) [OF parent]) (simp_all add: KVDB_PARENT_FOLD_def)
  then have m0: "more_dirs (length (db_fold name)) fs fs0" by (rule more_dirs_mono) (simp add: db_fold_eq)
  have "FoldCreate (db_fold name) fs0 = (KVDB_ERR_OK, fs1)" using assms(4) c(2) by (simp add: fs0_def prod_eq_iff)
  from FoldCreate_more [OF refl _ db_clean(1) [OF assms(1)] _ this] db_lengths(1) [OF assms(1)]
  have m1: "more_dirs (length (db_fold name)) fs0 fs1" "db_fold name \<in> set (fs_dirs fs1)" by simp_all
  have m: "more_dirs (length (db_fold name)) fs fs1" using more_dirs_trans [OF m0 m1(1)] .
  then obtain ds where ds: "fs1 = fs\<lparr>fs_dirs := ds\<rparr>" unfolding more_dirs_def by blast
  show "can_write fs1 (db_fold name @ ''/'' @ n)" if n: "CHR ''/'' \<notin> set n" for n
  proof -
    have "db_fold name @ ''/'' @ n \<notin> set (fs_dirs fs1)"
    proof
      assume "db_fold name @ ''/'' @ n \<in> set (fs_dirs fs1)"
      then have "db_fold name @ ''/'' @ n \<in> set (fs_dirs fs) \<or> length (db_fold name @ ''/'' @ n) \<le> length (db_fold name)"
        using m unfolding more_dirs_def by blast
      then show False using assms(3) path_parts(1) [OF n, of "db_fold name"] by auto
    qed
    then show ?thesis using m1(2) assms(2) path_parts(1) [OF n, of "db_fold name"] by (simp add: can_write_def ds kvfs_wf_def)
  qed
  show "oc = Some \<lparr>nc_name = name, nc_file = Some \<lparr>kv_foldpath = KVDB_PARENT_FOLD, kv_property = 1\<rparr>\<rparr>" "\<exists>ds. fs1 = fs\<lparr>fs_dirs := ds\<rparr>"
    using c(1) ds by blast+
qed

definition client_key :: "string \<Rightarrow> string \<Rightarrow> bool" where
  "client_key name key \<longleftrightarrow> NUL \<notin> set key \<and> CHR ''/'' \<notin> set key \<and> length name + length key \<le> 63"

lemma client_key_path:
  assumes "db_name name" "client_key name key" "kv = \<lparr>kv_foldpath = KVDB_PARENT_FOLD, kv_property = p\<rparr>"
  shows "kv_wf kv" "plain_key (name @ ''/'' @ key)" "kv_path kv (name @ ''/'' @ key) b = db_fold name @ ''/'' @ key @ (if b then ''_bak'' else '''')"
    "kv_path kv ((name @ ''/'' @ key) @ ''_match'') False = db_fold name @ ''/'' @ key @ ''_match''" "cstr key = key"
proof -
  have nul: "NUL \<notin> set name" using assms(1) by (auto simp: db_name_def clean_item_def)
  show w: "kv_wf kv" by (simp add: assms(3) kv_wf_def KVDB_PARENT_FOLD_def)
  show "plain_key (name @ ''/'' @ key)" using assms(2) nul by (simp add: plain_key_def key_ok_def client_key_def)
  show "kv_path kv (name @ ''/'' @ key) b = db_fold name @ ''/'' @ key @ (if b then ''_bak'' else '''')"
    using kv_path_eq [OF w, of "name @ ''/'' @ key" b] assms(2) nul by (simp add: assms(3) client_key_def db_fold_eq)
  show "kv_path kv ((name @ ''/'' @ key) @ ''_match'') False = db_fold name @ ''/'' @ key @ ''_match''"
    using kv_path_eq [OF w, of "(name @ ''/'' @ key) @ ''_match''" False] assms(2) nul by (simp add: assms(3) client_key_def db_fold_eq)
  show "cstr key = key" using assms(2) by (auto simp: client_key_def cstr_def takeWhile_eq_all_conv)
qed

definition fs_empty :: kvfs where
  "fs_empty = \<lparr>fs_files = [], fs_dirs = [], fs_denied = [], fs_unreadable = [], fs_room = 1000\<rparr>"


section \<open>Backup and restore\<close>

lemma readdir_no_slash: "n \<in> set (readdir fs d) \<Longrightarrow> CHR ''/'' \<notin> set n"
  using base_no_slash by (auto simp: readdir_def)

lemma cut_path:
  assumes "length d \<le> 255" "CHR ''/'' \<notin> set n"
  shows "fold_of (take 1023 (d @ ''/'' @ n)) = d"
proof -
  have "take 1023 (d @ ''/'' @ n) = d @ ''/'' @ take (1022 - length d) n" using assms(1) by (simp add: take_Cons' Suc_diff_le)
  then show ?thesis using path_parts(1) [of "take (1022 - length d) n" d] assms(2) by (auto dest: in_set_takeD)
qed

text \<open>Clearing a folder leaves the files of all others alone.\<close>

lemma Clear_other:
  assumes "length d \<le> 255" "fold_of q \<noteq> d"
  shows "file_at (snd (kv_Clear d fs)) q = file_at fs q"
proof -
  have "\<forall>n \<in> set ns. CHR ''/'' \<notin> set n \<Longrightarrow> file_at (snd (clear_loop d ns r fs)) q = file_at fs q" for ns r
  proof (induction ns arbitrary: r fs)
    case (Cons n ns)
    have "fold_of (take 1023 (d @ ''/'' @ n)) = d" using cut_path [OF assms(1)] Cons.prems by simp
    with assms(2) have ne: "q \<noteq> take 1023 (d @ ''/'' @ n)" by blast
    then have "file_at (snd (remove_file (take 1023 (d @ ''/'' @ n)) fs)) q = file_at fs q" by (rule remove_file_simps(2))
    with Cons show ?case by (auto simp: Let_def split: option.splits file_kind.splits prod.splits)
  qed simp
  then show ?thesis using readdir_no_slash by (simp add: kv_Clear_def)
qed

lemma kvfs_wf_code [code]:
  "kvfs_wf fs \<longleftrightarrow> list_all (\<lambda>p. p \<notin> set (fs_dirs fs) \<and> base_of p \<notin> {''.'', ''..''} \<and> length p \<le> 900) (map fst (fs_files fs)) \<and>
     list_all (\<lambda>d. length d \<le> 900) (fs_dirs fs) \<and> fs_denied fs = [] \<and> fs_unreadable fs = []"
  unfolding kvfs_wf_def list_all_iff by (simp add: file_in_map [simplified] image_def)

definition db_client :: KvdbNetClient where
  "db_client = \<lparr>nc_name = ''kvdb'', nc_file = Some \<lparr>kv_foldpath = KVDB_PARENT_FOLD, kv_property = 1\<rparr>\<rparr>"

definition fs_db :: "byte list \<Rightarrow> kvfs" where
  "fs_db v = \<lparr>fs_files = [(''/mnt/usr/kvdb/kvdb/vol'', v)], fs_dirs = [''/mnt'', ''/mnt/usr'', ''/mnt/usr/kvdb'', ''/mnt/usr/kvdb/kvdb''],
     fs_denied = [], fs_unreadable = [], fs_room = 1000\<rparr>"

definition fs_db_saved :: "byte list \<Rightarrow> kvfs" where
  "fs_db_saved v = \<lparr>fs_files = [(''/mnt/usr/kvdb/kvdb/vol'', v), (''/mnt/usr/kvdb/kvdb_bak/vol'', [1, 2, 3])],
     fs_dirs = [''/mnt'', ''/mnt/usr'', ''/mnt/usr/kvdb'', ''/mnt/usr/kvdb/kvdb'', ''/mnt/usr/kvdb/kvdb_bak''],
     fs_denied = [], fs_unreadable = [], fs_room = 997\<rparr>"


text \<open>Without a backup folder \<open>Restore\<close> fails after it has emptied the database; the client's result is that of clearing the
  second backup folder and does not tell.\<close>

lemma restore_without_backup:
  assumes "db_name name" "nc_name c = name" "nc_file c = Some kv" "kv_foldpath kv = KVDB_PARENT_FOLD"
    and "kvfs_wf fs" "db_fold name \<in> set (fs_dirs fs)" "db_fold (name @ ''_bak'') \<notin> set (fs_dirs fs)" "RestoreDatabase c fs = (b, fs')"
    and "fst (FoldCreate (db_fold name) fs) = KVDB_ERR_OK" "fold_of q = db_fold name"
  shows "file_at fs' q = None" "\<exists>fs1. kv_Restore kv (db_fold (name @ ''_bak'')) name fs = (KVDB_ERR_OPEN_FILE, fs1) \<and>
     b = (fst (kv_Clear (KVDB_BACKUP_PARENT_FOLD @ ''/'' @ name) fs1) = KVDB_ERR_OK)"
proof -
  let ?m = "db_fold name" and ?b = "db_fold (name @ ''_bak'')" and ?u = "KVDB_BACKUP_PARENT_FOLD @ ''/'' @ name"
  note paths = db_paths [OF assms(1)] and cn = db_cstr [OF assms(1)]
  have u: "GetWholePath 256 KVDB_BACKUP_PARENT_FOLD name False = ?u" "length ?u \<le> 255" "?u \<noteq> ?m"
    using assms(1) by (simp_all add: GetWholePath_def cn KVDB_BACKUP_PARENT_FOLD_def db_name_def db_fold_eq KVDB_PARENT_FOLD_def)
  define f1 where "f1 = snd (FoldCreate ?m fs)"
  have f: "FoldCreate ?m fs = (KVDB_ERR_OK, f1)" using assms(9) by (simp add: f1_def prod_eq_iff)
  from FoldCreate_more [OF refl _ db_clean(1) [OF assms(1)] _ f] db_lengths(1) [OF assms(1)]
  have m: "more_dirs (length ?m) fs f1" "?m \<in> set (fs_dirs f1)" by simp_all
  have wf: "kvfs_wf f1" using more_dirs_wf [OF m(1) assms(5)] db_lengths(1) [OF assms(1)] by simp
  obtain r2 f2 where cl: "kv_Clear ?m f1 = (r2, f2)" by (cases "kv_Clear ?m f1")
  have m0: "?m \<noteq> []" by (simp add: path_of_def)
  have none: "file_at f2 q = None" using Clear_files(1) [OF wf m0 m(2) cl] assms(10) by simp
  have "?b \<in> set (fs_dirs f1) \<Longrightarrow> length ?b \<le> length ?m" using m(1) assms(7) unfolding more_dirs_def by blast
  then have "?b \<notin> set (fs_dirs f2)" using Clear_files(2) [OF wf m0 m(2) cl] by (auto simp: db_fold_eq)
  then have r: "kv_Restore kv ?b name fs = (KVDB_ERR_OPEN_FILE, f2)"
    using assms(4) paths(1) [of 1024] cl by (simp add: kv_Restore_def FoldCopy_def Let_def f1_def [symmetric])
  then show "\<exists>fs1. kv_Restore kv ?b name fs = (KVDB_ERR_OPEN_FILE, fs1) \<and> b = (fst (kv_Clear ?u fs1) = KVDB_ERR_OK)"
    using assms(2,3,8) paths(2) [of 256] cn u(1) by (auto simp: RestoreDatabase_def Let_def split: prod.splits)
  have "fs' = snd (kv_Clear ?u f2)"
    using r assms(2,3,8) paths(2) [of 256] cn u(1) by (auto simp: RestoreDatabase_def Let_def split: prod.splits)
  then show "file_at fs' q = None" using Clear_other [OF u(2), of q f2] none assms(10) u(3) by simp
qed

end
