(* ===== verification/Param_Check.thy ===== *)
theory Param_Check
  imports Kvdb_Client Complex_Main
begin

text \<open>
  The checker of parameters of \<open>lib_bsp/kvdb/kvdb/kvdbparamcheck.cpp\<close>, a type checker for JSON documents: a
  description gives for every member its type and its limits. Values are those of the JSON library in
  \<open>third_part/json\<close>, whose failure macro is empty there (\<open>json.h:2031\<close>): a conversion between kinds gives 0, while
  asking for a member of a value that is no object follows a pointer that is none, which is an error here. Numbers
  above \<open>2 ^ 31 - 1\<close> are parsed into a kind of their own; a real limit outside the 32-bit range is cut like an integer. Rounding to \<open>float\<close> is an argument, as is the parser. The
  insertions that the accesses make into the copy of the description concern members that are not looked at again.

  The specification is a typing relation. The properties say that the checker decides it and returns, for documents and
  descriptions of the right shape, and what happens for others.
\<close>

section \<open>JSON values\<close>

datatype json =
    JNull | JInt int | JUInt nat | JReal rat | JString string | JBool bool
  | JArray "json list" | JObject "(string \<times> json) list"

datatype json_error = BadType | BadCast

text \<open>What \<open>value_.map_\<close> is for each kind: arrays use the same map with numbers as keys.\<close>

fun as_map :: "json \<Rightarrow> json_error + (string \<times> json) list" where
  "as_map (JObject ms) = Inr ms"
| "as_map JNull = Inr []"
| "as_map (JArray []) = Inr []"
| "as_map _ = Inl BadType"

definition js_member :: "json \<Rightarrow> string \<Rightarrow> json_error + json option" where
  "js_member v k = bindE (as_map v) (\<lambda>ms. Inr (map_of ms k))"

definition js_get :: "json \<Rightarrow> string \<Rightarrow> json_error + json" where
  "js_get v k = bindE (js_member v k) (\<lambda>r. Inr (case r of None \<Rightarrow> JNull | Some x \<Rightarrow> x))"

definition int32 :: "int \<Rightarrow> int" where
  "int32 n = sint (word_of_int n :: u32)"

definition rat_trunc :: "rat \<Rightarrow> int" where
  "rat_trunc r = (if r < 0 then - \<lfloor>- r\<rfloor> else \<lfloor>r\<rfloor>)"

fun asInt :: "json \<Rightarrow> int" where
  "asInt (JInt n) = int32 n"
| "asInt (JUInt n) = int32 (int n)"
| "asInt (JReal r) = int32 (rat_trunc r)"
| "asInt (JBool b) = (if b then 1 else 0)"
| "asInt _ = 0"

fun asFloat :: "(rat \<Rightarrow> rat) \<Rightarrow> json \<Rightarrow> rat" where
  "asFloat f (JInt n) = f (of_int n)"
| "asFloat f (JUInt n) = f (of_nat n)"
| "asFloat f (JReal r) = f r"
| "asFloat f (JBool b) = (if b then 1 else 0)"
| "asFloat f _ = 0"

fun asBool :: "json \<Rightarrow> bool" where
  "asBool (JBool b) = b"
| "asBool (JInt n) = (n \<noteq> 0)"
| "asBool (JUInt n) = (n \<noteq> 0)"
| "asBool (JReal r) = (r \<noteq> 0)"
| "asBool _ = False"

section \<open>The checker\<close>

datatype CheckParamType = KVDB_PARAM_TYPE_INT | KVDB_PARAM_TYPE_FLOAT | KVDB_PARAM_TYPE_STRING | KVDB_PARAM_TYPE_ENUM | KVDB_PARAM_TYPE_BOOL

fun type_code :: "CheckParamType \<Rightarrow> int" where
  "type_code KVDB_PARAM_TYPE_INT = 0"
| "type_code KVDB_PARAM_TYPE_FLOAT = 1"
| "type_code KVDB_PARAM_TYPE_STRING = 2"
| "type_code KVDB_PARAM_TYPE_ENUM = 3"
| "type_code KVDB_PARAM_TYPE_BOOL = 4"

definition is_type :: "int \<Rightarrow> CheckParamType \<Rightarrow> bool" where
  "is_type t ty \<longleftrightarrow> t = type_code ty \<or> t = type_code ty + 10"

text \<open>The limits of a description, read in the order of the code.\<close>

definition in_limits :: "json \<Rightarrow> string \<Rightarrow> string \<Rightarrow> (json \<Rightarrow> 'a :: linorder) \<Rightarrow> 'a \<Rightarrow> json_error + bool" where
  "in_limits d lo hi conv x =
     bindE (js_get d lo) (\<lambda>l. if \<not> x \<ge> conv l then Inr False else bindE (js_get d hi) (\<lambda>h. Inr (x \<le> conv h)))"

definition check_scalar :: "(rat \<Rightarrow> rat) \<Rightarrow> json \<Rightarrow> json \<Rightarrow> json_error + bool" where
  "check_scalar f v d =
     (case v of
        JNull \<Rightarrow> bindE (js_get d ''type'') (\<lambda>t. Inr (10 \<le> asInt t \<and> asInt t < 15))
      | JInt n \<Rightarrow> bindE (js_get d ''type'') (\<lambda>t.
          if is_type (asInt t) KVDB_PARAM_TYPE_INT \<or> is_type (asInt t) KVDB_PARAM_TYPE_ENUM
          then in_limits d ''min'' ''max'' asInt (int32 n)
          else if is_type (asInt t) KVDB_PARAM_TYPE_FLOAT
          then in_limits d ''min'' ''max'' (asFloat f) (f (of_int (int32 n)))
          else Inr False)
      | JReal r \<Rightarrow> bindE (js_get d ''type'') (\<lambda>t.
          if is_type (asInt t) KVDB_PARAM_TYPE_FLOAT
          then let n = rat_trunc (f r)
               in if n < - (2 ^ 31) \<or> n \<ge> 2 ^ 31 then Inl BadCast
                  else in_limits d ''min'' ''max'' (asFloat f) (f (of_int n))
          else Inr False)
      | JString s \<Rightarrow> bindE (js_get d ''type'') (\<lambda>t.
          if is_type (asInt t) KVDB_PARAM_TYPE_STRING
          then in_limits d ''minlen'' ''maxlen'' asInt (int32 (int (length (cstr s))))
          else Inr False)
      | JBool b \<Rightarrow> bindE (js_get d ''type'') (\<lambda>t.
          if is_type (asInt t) KVDB_PARAM_TYPE_BOOL
          then bindE (js_get d ''max'') (\<lambda>h. if b = asBool h then Inr True else bindE (js_get d ''min'') (\<lambda>l. Inr (b = asBool l)))
          else Inr False)
      | _ \<Rightarrow> Inr True)"

fun check_param_valid_nomal :: "(rat \<Rightarrow> rat) \<Rightarrow> json \<Rightarrow> json \<Rightarrow> json_error + bool"
  and check_members :: "(rat \<Rightarrow> rat) \<Rightarrow> (string \<times> json) list \<Rightarrow> json \<Rightarrow> json_error + bool"
  and check_member :: "(rat \<Rightarrow> rat) \<Rightarrow> json \<Rightarrow> json \<Rightarrow> json_error + bool"
  and check_elems :: "(rat \<Rightarrow> rat) \<Rightarrow> json list \<Rightarrow> json \<Rightarrow> json_error + bool" where
  "check_param_valid_nomal f (JObject ms) d = check_members f ms d"
| "check_param_valid_nomal f JNull d = Inr True"
| "check_param_valid_nomal f (JArray []) d = Inr True"
| "check_param_valid_nomal f _ d = Inl BadType"
| "check_members f [] d = Inr True"
| "check_members f ((k, v) # ms) d =
     bindE (js_member d k) (\<lambda>r. case r of
       None \<Rightarrow> Inr False
     | Some dv \<Rightarrow> bindE (check_member f v dv) (\<lambda>ok. if ok then check_members f ms d else Inr False))"
| "check_member f (JObject ms) dv = check_members f ms dv"
| "check_member f (JArray xs) dv =
     (case dv of JArray ds \<Rightarrow> check_elems f xs (case ds of [] \<Rightarrow> JNull | d0 # _ \<Rightarrow> d0) | _ \<Rightarrow> Inr False)"
| "check_member f v dv = check_scalar f v dv"
| "check_elems f [] d0 = Inr True"
| "check_elems f (x # xs) d0 =
     bindE (check_param_valid_nomal f x d0) (\<lambda>ok. if ok then check_elems f xs d0 else Inr False)"

text \<open>\<open>check_param_valid\<close> and \<open>get_default_param\<close>, over the parser and the writer of the library.\<close>

definition check_param_valid_json :: "(byte list \<Rightarrow> json option) \<Rightarrow> (rat \<Rightarrow> rat) \<Rightarrow> byte list \<Rightarrow> byte list \<Rightarrow> json_error + bool" where
  "check_param_valid_json parse f cfg_value match_value =
     (case parse match_value of None \<Rightarrow> Inr False
      | Some j_vaildparam \<Rightarrow> (case parse cfg_value of None \<Rightarrow> Inr False
          | Some j_paramin \<Rightarrow> check_param_valid_nomal f j_paramin j_vaildparam))"

definition get_default_param_json :: "(byte list \<Rightarrow> json option) \<Rightarrow> (json \<Rightarrow> byte list) \<Rightarrow> byte list \<Rightarrow> json_error + byte list" where
  "get_default_param_json parse write validparam =
     (case parse validparam of None \<Rightarrow> Inr []
      | Some v \<Rightarrow> bindE (as_map v) (\<lambda>ms. Inr (case map_of ms ''default'' of None \<Rightarrow> [] | Some d \<Rightarrow> write d)))"

text \<open>The checker as the store calls it; a call that does not return is no acceptance.\<close>

definition json_check :: "(byte list \<Rightarrow> json option) \<Rightarrow> (json \<Rightarrow> byte list) \<Rightarrow> (rat \<Rightarrow> rat) \<Rightarrow> kv_check" where
  "json_check parse write f =
     \<lparr>check_param_valid = (\<lambda>v m. check_param_valid_json parse f v m = Inr True),
      get_default_param = (\<lambda>m. case get_default_param_json parse write m of Inl _ \<Rightarrow> [] | Inr d \<Rightarrow> d)\<rparr>"

section \<open>The typing relation\<close>

definition limit :: "(string \<times> json) list \<Rightarrow> string \<Rightarrow> json" where
  "limit ds k = (case map_of ds k of None \<Rightarrow> JNull | Some x \<Rightarrow> x)"

definition has_type :: "(string \<times> json) list \<Rightarrow> CheckParamType \<Rightarrow> bool" where
  "has_type ds ty \<longleftrightarrow> is_type (asInt (limit ds ''type'')) ty"

text \<open>
  The types of values: what a reader of the description expects. A real number lies between its limits as it is, in the
  precision of \<open>float\<close>; nothing is said of the truncation that the checker makes first. An array is described by the first
  element of the array of the description.
\<close>

inductive typed :: "(rat \<Rightarrow> rat) \<Rightarrow> json \<Rightarrow> json \<Rightarrow> bool" for f where
  T_object: "(\<And>k v. (k, v) \<in> set ms \<Longrightarrow> \<exists>ds dv. as_map d = Inr ds \<and> map_of ds k = Some dv \<and> typed f v dv) \<Longrightarrow> typed f (JObject ms) d"
| T_array: "(\<And>x. x \<in> set xs \<Longrightarrow> typed f x (case ds of [] \<Rightarrow> JNull | d0 # _ \<Rightarrow> d0)) \<Longrightarrow> typed f (JArray xs) (JArray ds)"
| T_null: "as_map d = Inr ds \<Longrightarrow> 10 \<le> asInt (limit ds ''type'') \<Longrightarrow> asInt (limit ds ''type'') < 15 \<Longrightarrow> typed f JNull d"
| T_int: "as_map d = Inr ds \<Longrightarrow> has_type ds KVDB_PARAM_TYPE_INT \<or> has_type ds KVDB_PARAM_TYPE_ENUM \<Longrightarrow>
    asInt (limit ds ''min'') \<le> n \<Longrightarrow> n \<le> asInt (limit ds ''max'') \<Longrightarrow> typed f (JInt n) d"
| T_int_float: "as_map d = Inr ds \<Longrightarrow> has_type ds KVDB_PARAM_TYPE_FLOAT \<Longrightarrow>
    asFloat f (limit ds ''min'') \<le> f (of_int n) \<Longrightarrow> f (of_int n) \<le> asFloat f (limit ds ''max'') \<Longrightarrow> typed f (JInt n) d"
| T_real: "as_map d = Inr ds \<Longrightarrow> has_type ds KVDB_PARAM_TYPE_FLOAT \<Longrightarrow>
    asFloat f (limit ds ''min'') \<le> f r \<Longrightarrow> f r \<le> asFloat f (limit ds ''max'') \<Longrightarrow> typed f (JReal r) d"
| T_string: "as_map d = Inr ds \<Longrightarrow> has_type ds KVDB_PARAM_TYPE_STRING \<Longrightarrow>
    asInt (limit ds ''minlen'') \<le> int (length (cstr s)) \<Longrightarrow> int (length (cstr s)) \<le> asInt (limit ds ''maxlen'') \<Longrightarrow> typed f (JString s) d"
| T_bool: "as_map d = Inr ds \<Longrightarrow> has_type ds KVDB_PARAM_TYPE_BOOL \<Longrightarrow>
    b = asBool (limit ds ''max'') \<or> b = asBool (limit ds ''min'') \<Longrightarrow> typed f (JBool b) d"

inductive_simps typed_simps:
  "typed f (JObject ms) d" "typed f (JArray xs) d" "typed f JNull d" "typed f (JInt n) d" "typed f (JUInt u) d" "typed f (JReal r) d"
  "typed f (JString s) d" "typed f (JBool b) d"

text \<open>Documents whose integers have 32 bits, whose real numbers are whole and have 32 bits, whose strings are shorter than
  \<open>2 ^ 31\<close> and whose arrays hold objects.\<close>

fun is_object :: "json \<Rightarrow> bool" where
  "is_object (JObject ms) = True"
| "is_object _ = False"

definition whole_real :: "(rat \<Rightarrow> rat) \<Rightarrow> rat \<Rightarrow> bool" where
  "whole_real f r \<longleftrightarrow> of_int \<lfloor>f r\<rfloor> = f r \<and> - (2 ^ 31) \<le> f r \<and> f r < 2 ^ 31"

fun plain :: "(rat \<Rightarrow> rat) \<Rightarrow> json \<Rightarrow> bool" where
  "plain f (JInt n) = (- (2 ^ 31) \<le> n \<and> n < 2 ^ 31)"
| "plain f (JUInt n) = False"
| "plain f (JReal r) = whole_real f r"
| "plain f (JString s) = (length s < 2 ^ 31)"
| "plain f (JArray xs) = list_all (\<lambda>x. is_object x \<and> plain f x) xs"
| "plain f (JObject ms) = list_all (\<lambda>(k, v). plain f v) ms"
| "plain f _ = True"

text \<open>What the checker relies on of the rounding to \<open>float\<close>: rounding a \<open>float\<close> gives the same \<open>float\<close>.\<close>

definition rounding :: "(rat \<Rightarrow> rat) \<Rightarrow> bool" where
  "rounding f \<longleftrightarrow> (\<forall>r. f (f r) = f r)"

lemma whole_trunc:
  assumes "whole_real f r" "rounding f"
  shows "f (of_int (rat_trunc (f r))) = f r" "- (2 ^ 31) \<le> rat_trunc (f r)" "rat_trunc (f r) < 2 ^ 31"
proof -
  obtain n where n: "f r = of_int n" "- (2 ^ 31) \<le> n" "n < 2 ^ 31"
    using assms(1) unfolding whole_real_def by (metis of_int_le_iff of_int_less_iff of_int_minus of_int_numeral of_int_power)
  have t: "rat_trunc (f r) = n" by (simp add: rat_trunc_def n(1))
  show "f (of_int (rat_trunc (f r))) = f r" unfolding t n(1) [symmetric] using assms(2) by (simp add: rounding_def)
  show "- (2 ^ 31) \<le> rat_trunc (f r)" "rat_trunc (f r) < 2 ^ 31" using n(2,3) by (simp_all add: t)
qed

lemma int32_small: "- (2 ^ 31) \<le> n \<Longrightarrow> n < 2 ^ 31 \<Longrightarrow> int32 n = n"
  by (simp add: int32_def signed_of_int signed_take_bit_int_eq_self)

lemma js_get_limit: "js_get d k = (case as_map d of Inl e \<Rightarrow> Inl e | Inr ds \<Rightarrow> Inr (limit ds k))"
  by (auto simp: js_get_def js_member_def limit_def bindE_def split: sum.splits)

lemma in_limits_iff:
  "in_limits d lo hi conv x = Inr True \<longleftrightarrow> (\<exists>ds. as_map d = Inr ds \<and> conv (limit ds lo) \<le> x \<and> x \<le> conv (limit ds hi))"
  by (cases "as_map d") (auto simp: in_limits_def js_get_limit)

lemma check_scalar_typed:
  assumes "plain f v" "rounding f" "\<not> is_object v" "\<And>xs. v \<noteq> JArray xs"
  shows "check_scalar f v d = Inr True \<longleftrightarrow> typed f v d"
proof (cases v)
  case (JString s)
  have "length (cstr s) \<le> length s" by (simp add: cstr_def length_takeWhile_le)
  then have "int32 (int (length (cstr s))) = int (length (cstr s))" using assms(1) JString by (intro int32_small) auto
  then show ?thesis using JString
    by (cases "as_map d") (auto simp: check_scalar_def js_get_limit typed_simps in_limits_iff has_type_def)
next
  case (JInt n)
  then have "int32 n = n" using assms(1) by (intro int32_small) auto
  then show ?thesis using JInt
    by (cases "as_map d") (auto simp: check_scalar_def js_get_limit typed_simps in_limits_iff has_type_def is_type_def)
next
  case (JReal r)
  then have "whole_real f r" using assms(1) by simp
  note w = whole_trunc [OF this assms(2)]
  then have "\<not> (rat_trunc (f r) < - (2 ^ 31) \<or> rat_trunc (f r) \<ge> 2 ^ 31)" by linarith
  then show ?thesis using JReal
    by (cases "as_map d") (auto simp: check_scalar_def js_get_limit typed_simps in_limits_iff has_type_def Let_def w(1))
next
  case (JBool b)
  then show ?thesis by (cases "as_map d") (auto simp: check_scalar_def js_get_limit typed_simps has_type_def)
next
  case JNull
  then show ?thesis by (cases "as_map d") (auto simp: check_scalar_def js_get_limit typed_simps)
qed (use assms in auto)

text \<open>The four parts of the checker decide the typing relation.\<close>

lemma bindE_True_iff: "bindE r (\<lambda>ok. if ok then s else Inr False) = Inr True \<longleftrightarrow> r = Inr True \<and> s = Inr True"
  by (cases r) auto

lemma check_members_Cons_iff:
  "check_members f ((k, v) # ms) d = Inr True \<longleftrightarrow>
     (\<exists>ds dv. as_map d = Inr ds \<and> map_of ds k = Some dv \<and> check_member f v dv = Inr True) \<and> check_members f ms d = Inr True"
  by (cases "as_map d") (auto simp: js_member_def bindE_True_iff split: option.splits)

lemma check_typed:
  "rounding f \<Longrightarrow> plain f v \<Longrightarrow> is_object v \<Longrightarrow> check_param_valid_nomal f v d = Inr True \<longleftrightarrow> typed f v d"
  "rounding f \<Longrightarrow> list_all (\<lambda>(k, v). plain f v) ms \<Longrightarrow> check_members f ms d = Inr True \<longleftrightarrow>
     (\<forall>k v. (k, v) \<in> set ms \<longrightarrow> (\<exists>ds dv. as_map d = Inr ds \<and> map_of ds k = Some dv \<and> typed f v dv))"
  "rounding f \<Longrightarrow> plain f v \<Longrightarrow> check_member f v d = Inr True \<longleftrightarrow> typed f v d"
  "rounding f \<Longrightarrow> list_all (\<lambda>x. is_object x \<and> plain f x) xs \<Longrightarrow> check_elems f xs d = Inr True \<longleftrightarrow> (\<forall>x \<in> set xs. typed f x d)"
proof (induction f v d and f ms d and f v d and f xs d rule: check_param_valid_nomal_check_members_check_member_check_elems.induct, goal_cases)
  case (11 f k v ms d)
  then have "\<And>dv. check_member f v dv = Inr True \<longleftrightarrow> typed f v dv"
    and "check_members f ms d = Inr True \<longleftrightarrow>
      (\<forall>k v. (k, v) \<in> set ms \<longrightarrow> (\<exists>ds dv. as_map d = Inr ds \<and> map_of ds k = Some dv \<and> typed f v dv))"
    by auto
  then show ?case by (auto simp: check_members_Cons_iff simp del: check_members.simps)
qed (auto simp: typed_simps check_scalar_typed bindE_True_iff split: option.splits json.splits)

section \<open>Properties\<close>

text \<open>C18. For a document that is an object, whose integers and real numbers are whole and have 32 bits, whose strings are
  shorter than \<open>2 ^ 31\<close> and whose arrays hold objects, the checker accepts exactly the documents that have the type that the
  description gives: every member is described, has one of the kinds its description allows and lies between its
  limits, at every depth. What does not parse is refused. Of the rounding to \<open>float\<close> only that rounding again changes nothing is
  used. Outside these documents the checker does not decide the type: a real number is compared after its fraction is cut
  (\<open>real_fraction_cut\<close>), and for the others see \<open>param_check_gaps\<close>.\<close>

theorem param_check_typed:
  assumes "parse doc = Some v" "is_object v" "plain f v" "rounding f"
  shows "check_param_valid_json parse f doc desc = Inr True \<longleftrightarrow> (\<exists>d. parse desc = Some d \<and> typed f v d)"
  using check_typed(1) [OF assms(4,3,2)] assms(1) by (auto simp: check_param_valid_json_def split: option.splits)

definition desc_sample :: json where
  "desc_sample = JObject
     [(''list'', JArray [JObject [(''name'', JObject [(''maxlen'', JInt 4), (''minlen'', JInt 1), (''type'', JInt 2)])]]),
      (''speed'', JObject [(''max'', JReal (5 / 2)), (''min'', JInt 0), (''type'', JInt 1)]),
      (''vol'', JObject [(''max'', JInt 10), (''min'', JInt 0), (''type'', JInt 0)])]"

definition doc_sample :: "int \<Rightarrow> json" where
  "doc_sample n = JObject [(''list'', JArray [JObject [(''name'', JString ''ab'')]]), (''speed'', JReal 2), (''vol'', JInt n)]"

text \<open>A parser that reads the documents with one byte: \<open>0\<close> is the description, the others a volume.\<close>

definition parse_sample :: "byte list \<Rightarrow> json option" where
  "parse_sample bs = (case bs of [b] \<Rightarrow> Some (if b = 0 then desc_sample else doc_sample (uint b)) | _ \<Rightarrow> None)"

lemma sample_plain: "is_object (doc_sample n) \<and> (- (2 ^ 31) \<le> n \<and> n < 2 ^ 31 \<longrightarrow> plain (\<lambda>r. r) (doc_sample n))" "rounding (\<lambda>r. r)"
  by (simp_all add: doc_sample_def whole_real_def rounding_def)

lemma sample_checked:
  "check_param_valid_json parse_sample (\<lambda>r. r) [7] [0] = Inr True" "check_param_valid_json parse_sample (\<lambda>r. r) [17] [0] = Inr False"
  by code_simp+

theorem param_check_typed_witness:
  "typed (\<lambda>r. r) (doc_sample 7) desc_sample \<and> \<not> typed (\<lambda>r. r) (doc_sample 17) desc_sample"
proof -
  have "parse_sample [7] = Some (doc_sample 7)" "parse_sample [17] = Some (doc_sample 17)" "parse_sample [0] = Some desc_sample"
    by (simp_all add: parse_sample_def)
  then show ?thesis
    using param_check_typed [of parse_sample "[7]" "doc_sample 7" "\<lambda>r. r" "[0]"] param_check_typed [of parse_sample "[17]" "doc_sample 17" "\<lambda>r. r" "[0]"]
      sample_plain(1) [of 7] sample_plain(1) [of 17] sample_plain(2) sample_checked by auto
qed

section \<open>What is stored has its type\<close>

text \<open>A place in a document: the way from the top through members and elements of arrays. The place in the description
  that speaks of it goes to the first element of an array for every element.\<close>

datatype place_step = Member string | Elem nat

fun value_at :: "json \<Rightarrow> place_step list \<Rightarrow> json option" where
  "value_at v [] = Some v"
| "value_at (JObject ms) (Member k # ps) = (case map_of ms k of None \<Rightarrow> None | Some v \<Rightarrow> value_at v ps)"
| "value_at (JArray xs) (Elem i # ps) = (if i < length xs then value_at (xs ! i) ps else None)"
| "value_at _ (p # ps) = None"

fun desc_at :: "json \<Rightarrow> place_step list \<Rightarrow> json option" where
  "desc_at d [] = Some d"
| "desc_at (JObject ds) (Member k # ps) = (case map_of ds k of None \<Rightarrow> None | Some d \<Rightarrow> desc_at d ps)"
| "desc_at (JArray ds) (Elem i # ps) = desc_at (case ds of [] \<Rightarrow> JNull | d0 # _ \<Rightarrow> d0) ps"
| "desc_at _ (p # ps) = None"

lemma as_map_some: "as_map d = Inr ds \<Longrightarrow> map_of ds k = Some dv \<Longrightarrow> d = JObject ds"
  by (cases d rule: as_map.cases) auto

lemma typed_at: "typed f v d \<Longrightarrow> value_at v ps = Some u \<Longrightarrow> \<exists>du. desc_at d ps = Some du \<and> typed f u du"
proof (induction v ps arbitrary: d rule: value_at.induct)
  case (2 ms k ps)
  then obtain v where v: "map_of ms k = Some v" "value_at v ps = Some u" by (auto split: option.splits)
  from 2(2) map_of_SomeD [OF v(1)] obtain ds dv where d: "as_map d = Inr ds" "map_of ds k = Some dv" "typed f v dv"
    by (simp add: typed_simps) blast
  from 2(1) [OF v(1) d(3) v(2)] as_map_some [OF d(1,2)] d(2) show ?case by simp
next
  case (3 xs i ps)
  from 3(3) have i: "i < length xs" "value_at (xs ! i) ps = Some u" by (auto split: if_splits)
  from 3(2) obtain ds where d: "d = JArray ds" "\<forall>x \<in> set xs. typed f x (case ds of [] \<Rightarrow> JNull | d0 # _ \<Rightarrow> d0)"
    by (auto simp: typed_simps)
  from 3(1) [OF i(1) _ i(2)] d(2) i(1) show ?case by (simp add: d(1))
qed auto

text \<open>A typed integer lies between the limits of its place, when these are 32-bit integers.\<close>

lemma typed_int_limits:
  assumes "typed f (JInt n) (JObject ds)" "has_type ds KVDB_PARAM_TYPE_INT" "map_of ds ''min'' = Some (JInt lo)" "map_of ds ''max'' = Some (JInt hi)"
    and "- (2 ^ 31) \<le> lo" "lo < 2 ^ 31" "- (2 ^ 31) \<le> hi" "hi < 2 ^ 31"
  shows "lo \<le> n \<and> n \<le> hi"
  using assms by (auto simp: typed_simps limit_def int32_small has_type_def is_type_def)

text \<open>C19. A value that \<open>WriteKey\<close> stores under a key with a readable description has its type, and so has every part of
  it: at every place in the document, inside arrays too, the description has a place for it and the value there has
  the type given there. The files hold the value, and the description is as it was. As in the theorem on the checker, the
  document is an object with whole numbers of 32 bits, strings shorter than \<open>2 ^ 31\<close> and arrays of objects; other documents can be
  stored without their type (\<open>param_check_gaps\<close>: numbers above \<open>2 ^ 31 - 1\<close> are not checked at all).\<close>

theorem stored_values_typed:
  assumes "kv_wf kv" "plain_key key" "can_write fs (kv_path kv key False)"
    and "WriteKey big j (json_check parse write f) kv key doc fs = Some (KVDB_ERR_OK, fs')"
    and "ReadFile big j kv (key @ ''_match'') False [] fs = Some (KVDB_ERR_OK, desc, fs)"
    and "parse doc = Some v" "is_object v" "plain f v" "rounding f"
  shows "file_at fs' (kv_path kv key False) = Some (kv_file big doc) \<and>
    file_at fs' (kv_path kv (key @ ''_match'') False) = file_at fs (kv_path kv (key @ ''_match'') False) \<and>
    (\<exists>d. parse desc = Some d \<and> typed f v d \<and>
      (\<forall>ps u. value_at v ps = Some u \<longrightarrow> (\<exists>du. desc_at d ps = Some du \<and> typed f u du)))"
proof -
  note w = WriteKey_files [OF assms(1,2,4,3)]
  from w(5) assms(5) have "check_param_valid (json_check parse write f) doc desc"
    "file_at fs' (kv_path kv (key @ ''_match'') False) = file_at fs (kv_path kv (key @ ''_match'') False)" by auto
  moreover from this(1) have "check_param_valid_json parse f doc desc = Inr True" by (simp add: json_check_def)
  then obtain d where "parse desc = Some d" "typed f v d"
    using check_typed(1) [OF assms(9,8,7)] assms(6) by (auto simp: check_param_valid_json_def split: option.splits)
  ultimately show ?thesis using w(1) typed_at by blast
qed

text \<open>With room and a description that the value fits, a write succeeds.\<close>

lemma WriteKey_checked_succeeds:
  assumes "plain_key key" "v \<noteq> []" "2 * (length v + 9) \<le> fs_room fs"
    and "ReadFile big j kv (key @ ''_match'') False [] fs = Some (KVDB_ERR_OK, md, fs)" "check_param_valid c v md"
    and "can_write fs (kv_path kv key False)" "can_write fs (kv_path kv key True)"
  shows "\<exists>fs'. WriteKey big j c kv key v fs = Some (KVDB_ERR_OK, fs')"
proof -
  from WriteFile_result [OF assms(6,2), of big] assms(3) obtain fs1 where w1: "WriteFile big kv key v False fs = (KVDB_ERR_OK, fs1)"
    "fs_room fs1 = fs_room fs - (length v + 9)" by auto
  have "can_write fs1 (kv_path kv key True)" using assms(7) frame_fsD(2) [OF WriteFile_frame [OF w1(1)]] by simp
  from WriteFile_result [OF this assms(2), of big] w1(2) assms(3) obtain fs2 where w2: "WriteFile big kv key v True fs1 = (KVDB_ERR_OK, fs2)"
    by auto
  show ?thesis using assms(1,4,5) w1(1) w2 by (simp add: WriteKey_def plain_key_def)
qed

definition fs_described :: kvfs where
  "fs_described = put_file ''/kv/vol_match'' (kv_file False [0]) fs_sample"

definition check_json_sample :: kv_check where
  "check_json_sample = json_check parse_sample (\<lambda>_. []) (\<lambda>r. r)"

lemma sample_described:
  "ReadFile False junk_sample kv_sample (''vol'' @ ''_match'') False [] fs_described = Some (KVDB_ERR_OK, [0], fs_described)"
  "can_write fs_described (kv_path kv_sample ''vol'' b)"
  "\<exists>fs'. WriteKey False junk_sample check_json_sample kv_sample ''vol'' [7] fs_described = Some (KVDB_ERR_OK, fs')"
proof -
  have p: "kv_path kv_sample (''vol'' @ ''_match'') False = ''/kv/vol_match''" by (simp add: GetWholePath_def kv_sample_def)
  show r: "ReadFile False junk_sample kv_sample (''vol'' @ ''_match'') False [] fs_described = Some (KVDB_ERR_OK, [0], fs_described)"
    by (rule ReadFile_written [OF sample_facts(1)]) (simp_all add: p [simplified] fs_described_def fs_sample_def)
  have "can_write fs_described q = can_write fs_sample q" for q by (simp add: can_write_def fs_described_def put_file_def)
  with sample_can_write(1) show c: "can_write fs_described (kv_path kv_sample ''vol'' b)" for b by simp
  have "check_param_valid check_json_sample [7] [0]" using sample_checked(1) by (simp add: check_json_sample_def json_check_def)
  with r c show "\<exists>fs'. WriteKey False junk_sample check_json_sample kv_sample ''vol'' [7] fs_described = Some (KVDB_ERR_OK, fs')"
    by (intro WriteKey_checked_succeeds [OF sample_facts(3)]) (simp_all add: fs_described_def fs_sample_def put_file_def)
qed

theorem stored_values_typed_witness:
  "\<exists>fs'. WriteKey False junk_sample check_json_sample kv_sample ''vol'' [7] fs_described = Some (KVDB_ERR_OK, fs') \<and>
     file_at fs' (kv_path kv_sample ''vol'' False) = Some (kv_file False [7]) \<and>
     typed (\<lambda>r. r) (JString ''ab'') (JObject [(''maxlen'', JInt 4), (''minlen'', JInt 1), (''type'', JInt 2)])"
proof -
  obtain fs' where w: "WriteKey False junk_sample check_json_sample kv_sample ''vol'' [7] fs_described = Some (KVDB_ERR_OK, fs')"
    using sample_described(3) by blast
  have d: "parse_sample [7] = Some (doc_sample 7)" "parse_sample [0] = Some desc_sample" "value_at (doc_sample 7) [Member ''list'', Elem 0, Member ''name''] = Some (JString ''ab'')"
    "desc_at desc_sample [Member ''list'', Elem 0, Member ''name''] = Some (JObject [(''maxlen'', JInt 4), (''minlen'', JInt 1), (''type'', JInt 2)])"
    by (simp_all add: parse_sample_def doc_sample_def desc_sample_def)
  have t: "file_at fs' (kv_path kv_sample ''vol'' False) = Some (kv_file False [7])"
    "\<forall>ps u. value_at (doc_sample 7) ps = Some u \<longrightarrow> (\<exists>du. desc_at desc_sample ps = Some du \<and> typed (\<lambda>r. r) u du)"
    using stored_values_typed [OF sample_facts(2,3) sample_described(2) w [unfolded check_json_sample_def] sample_described(1) d(1)]
      sample_plain(1) [of 7] sample_plain(2) d(2) by auto
  from t(2) d(3) obtain du where "desc_at desc_sample [Member ''list'', Elem 0, Member ''name''] = Some du" "typed (\<lambda>r. r) (JString ''ab'') du"
    by blast
  then show ?thesis using w t(1) d(4) by simp
qed

section \<open>Documents the checker does not decide\<close>

text \<open>The fraction of a real number is cut before it is compared: 10.9 passes a limit of 10.\<close>

lemma real_fraction_cut:
  defines "d \<equiv> JObject [(''max'', JInt 10), (''min'', JInt 0), (''type'', JInt 1)]"
  shows "check_param_valid_nomal (\<lambda>r. r) (JObject [(''x'', JReal (109 / 10))]) (JObject [(''x'', d)]) = Inr True \<and>
    \<not> typed (\<lambda>r. r) (JReal (109 / 10)) d"
proof
  show "check_param_valid_nomal (\<lambda>r. r) (JObject [(''x'', JReal (109 / 10))]) (JObject [(''x'', d)]) = Inr True"
    unfolding d_def by code_simp
  show "\<not> typed (\<lambda>r. r) (JReal (109 / 10)) d"
    by (simp add: typed_simps d_def limit_def)
qed

text \<open>C37. Outside these documents the checker fails: an array of numbers or strings makes it follow a pointer that is
  none whenever the description has an array there, and so does a document that names a member of a leaf of the description; a number above
  \<open>2 ^ 31 - 1\<close> is accepted whatever the limits are, and one below \<open>- (2 ^ 31)\<close> by its lower half.\<close>

theorem param_check_gaps:
  assumes "map_of ds k = Some dv"
  shows "(dv = JArray es \<and> x \<in> {JInt n, JReal r, JString s, JBool b} \<longrightarrow>
      check_param_valid_nomal f (JObject [(k, JArray (x # xs))]) (JObject ds) = Inl BadType) \<and>
    (dv = JObject ls \<and> map_of ls t = Some (JInt c) \<longrightarrow>
      check_param_valid_nomal f (JObject [(k, JObject [(t, JInt n)])]) (JObject ds) = Inl BadType) \<and>
    check_param_valid_nomal f (JObject [(k, JUInt u)]) (JObject ds) = Inr True \<and>
    (dv = JObject ls \<and> has_type ls KVDB_PARAM_TYPE_INT \<longrightarrow>
      check_param_valid_nomal f (JObject [(k, JInt n)]) (JObject ds) = Inr (asInt (limit ls ''min'') \<le> int32 n \<and> int32 n \<le> asInt (limit ls ''max'')))"
  using assms by (auto simp: js_member_def check_scalar_def js_get_limit in_limits_def has_type_def)

theorem param_check_gaps_witness:
  "check_param_valid_nomal (\<lambda>r. r) (JObject [(''list'', JArray [JInt 1])]) desc_sample = Inl BadType \<and>
   check_param_valid_nomal (\<lambda>r. r) (JObject [(''vol'', JUInt 3000000000)]) desc_sample = Inr True \<and>
   check_param_valid_nomal (\<lambda>r. r) (JObject [(''vol'', JObject [(''type'', JInt 1)])]) desc_sample = Inl BadType"
proof -
  obtain ds es ls where d: "desc_sample = JObject ds" "map_of ds ''list'' = Some (JArray es)" "map_of ds ''vol'' = Some (JObject ls)"
    "map_of ls ''type'' = Some (JInt 0)" by (simp add: desc_sample_def)
  show ?thesis unfolding d(1)
    using param_check_gaps [OF d(2), where es = es and x = "JInt 1" and n = 1 and xs = "[]" and f = "\<lambda>r. r"]
      param_check_gaps [OF d(3), where ls = ls and t = "''type''" and c = 0 and n = 1 and u = 3000000000 and f = "\<lambda>r. r"] d(4)
    by (simp del: check_param_valid_nomal.simps)
qed

end
