(* ===== verification/Dp_Client.thy ===== *)
theory Dp_Client
  imports Dp_Bus
begin

text \<open>
  The client side of the message bus: \<open>lib_bsp/eventservice/dp/dpclient.cpp\<close> with the signals of
  \<open>eventservice/event/signalevent.cpp\<close> it waits on. The state is that of one process: its clients, which share the
  local dispatcher \<open>DpLocalDisp\<close>, its messages and its signals, each in a store and named by its address, as the code's
  shared pointers do. A call that blocks in \<open>WaitSignal\<close> is cut there: its first part returns a result or the message it
  waits for, and its second part is run when the signal is set or the time is over. Packets written to the socket are
  appended to \<open>dc_sent\<close>. Clocks and the results of the connector are arguments.

  The properties: a request that goes through the broker to another process is carried out there and its answer comes
  back; signals are never lost and never shared by two calls; what makes a call return without an answer.
\<close>

section \<open>State\<close>

text \<open>\<open>res_buffer\<close> points to \<open>tmp_res\<close> of its message, or nowhere for the messages of \<open>ListenMessage\<close>, which do not set it.\<close>

record DpMessage =
  dm_type :: u32
  dm_method :: method_name
  dm_session_id :: u32
  dm_message_id :: u32
  dm_req :: "byte list"
  dm_res :: "byte list option"
  dm_timeout :: bool
  dm_result :: u32
  dm_signal :: "nat option"

text \<open>\<open>dc_socket\<close> is no socket, or what \<open>AsyncWrite\<close> of the socket below answers; \<open>dc_reconnect\<close> the delay of a
  reconnection that is posted.\<close>

record DpClientImpl =
  dc_name :: "byte list"
  dc_port :: u16
  dc_socket :: "bool option"
  dc_requests :: "(u32 \<times> nat) list"
  dc_message_id :: u16
  dc_methods :: "(method_name \<times> u32) list"
  dc_signals :: "nat list"
  dc_signal_event :: "nat option"
  dc_posts :: "nat list"
  dc_reconnect :: "u32 option"
  dc_slots :: bool
  dc_sent :: "DpNetMsgHeader list"

record dp_proc =
  pr_pid :: u32
  pr_msgs :: "nat \<Rightarrow> DpMessage"
  pr_nmsg :: nat
  pr_sigs :: "nat \<Rightarrow> bool"
  pr_nsig :: nat
  pr_clients :: "nat \<Rightarrow> DpClientImpl"
  pr_clis :: "nat list"

definition upd_cli :: "nat \<Rightarrow> (DpClientImpl \<Rightarrow> DpClientImpl) \<Rightarrow> dp_proc \<Rightarrow> dp_proc" where
  "upd_cli c f p = p\<lparr>pr_clients := (pr_clients p)(c := f (pr_clients p c))\<rparr>"

definition upd_msg :: "nat \<Rightarrow> (DpMessage \<Rightarrow> DpMessage) \<Rightarrow> dp_proc \<Rightarrow> dp_proc" where
  "upd_msg m f p = p\<lparr>pr_msgs := (pr_msgs p)(m := f (pr_msgs p m))\<rparr>"

definition new_msg :: "DpMessage \<Rightarrow> dp_proc \<Rightarrow> nat \<times> dp_proc" where
  "new_msg x p = (pr_nmsg p, p\<lparr>pr_msgs := (pr_msgs p)(pr_nmsg p := x), pr_nmsg := pr_nmsg p + 1\<rparr>)"

section \<open>Signals\<close>

text \<open>\<open>signaled_\<close> of a signal; setting it twice is setting it once.\<close>

definition TriggerSignal :: "nat \<Rightarrow> dp_proc \<Rightarrow> dp_proc" where
  "TriggerSignal s p = p\<lparr>pr_sigs := (pr_sigs p)(s := True)\<rparr>"

definition ResetTriggerSignal :: "nat \<Rightarrow> dp_proc \<Rightarrow> dp_proc" where
  "ResetTriggerSignal s p = p\<lparr>pr_sigs := (pr_sigs p)(s := False)\<rparr>"

definition GetSignal :: "nat \<Rightarrow> dp_proc \<Rightarrow> nat \<times> dp_proc" where
  "GetSignal c p =
     (case dc_signals (pr_clients p c) of
        s # ss \<Rightarrow> (s, upd_cli c (\<lambda>x. x\<lparr>dc_signals := ss\<rparr>) p)
      | [] \<Rightarrow> (pr_nsig p, p\<lparr>pr_nsig := pr_nsig p + 1, pr_sigs := (pr_sigs p)(pr_nsig p := False)\<rparr>))"

definition PutSignal :: "nat \<Rightarrow> nat option \<Rightarrow> dp_proc \<Rightarrow> dp_proc" where
  "PutSignal c so p = (case so of None \<Rightarrow> p | Some s \<Rightarrow> upd_cli c (\<lambda>x. x\<lparr>dc_signals := dc_signals x @ [s]\<rparr>) p)"

definition trigger_opt :: "nat option \<Rightarrow> dp_proc \<Rightarrow> mem_error + dp_proc" where
  "trigger_opt so p = (case so of None \<Rightarrow> Inl NullPointer | Some s \<Rightarrow> Inr (TriggerSignal s p))"

section \<open>Writing packets\<close>

definition hton32 :: "u32 \<Rightarrow> u32" where
  "hton32 n = (case HostToNetwork32 False n of Inl _ \<Rightarrow> n | Inr x \<Rightarrow> x)"

definition cli_packet :: "u32 \<Rightarrow> u32 \<Rightarrow> u32 \<Rightarrow> u32 \<Rightarrow> method_name \<Rightarrow> byte list \<Rightarrow> u32 \<Rightarrow> DpNetMsgHeader" where
  "cli_packet pid msg_id t listen_type m data session_id =
     \<lparr>dh_type = ucast t, dh_listen_type = ucast listen_type, dh_method_size = of_nat (length m), dh_process_id = pid,
      dh_message_id = msg_id, dh_session_id = session_id, dh_result = 0, dh_data_size = hton32 (of_nat (length data)),
      dh_body = m @ data\<rparr>"

text \<open>The private \<open>SendDpMessage\<close>: the counter of messages starts again after 65535.\<close>

definition SendPacket :: "nat \<Rightarrow> u32 \<Rightarrow> u32 \<Rightarrow> u32 \<Rightarrow> method_name \<Rightarrow> byte list \<Rightarrow> u32 \<Rightarrow> dp_proc \<Rightarrow> bool \<times> dp_proc" where
  "SendPacket c msg_id t listen_type m data session_id p =
     (let p1 = (if 0xfffe < dc_message_id (pr_clients p c) then upd_cli c (\<lambda>x. x\<lparr>dc_message_id := 0\<rparr>) p else p)
      in if dc_socket (pr_clients p c) = Some True
         then (True, upd_cli c (\<lambda>x. x\<lparr>dc_sent := dc_sent x @ [cli_packet (pr_pid p) msg_id t listen_type m data session_id]\<rparr>) p1)
         else (False, p1))"

definition next_id :: "nat \<Rightarrow> dp_proc \<Rightarrow> u32 \<times> dp_proc" where
  "next_id c p = (ucast (dc_message_id (pr_clients p c) + 1), upd_cli c (\<lambda>x. x\<lparr>dc_message_id := dc_message_id x + 1\<rparr>) p)"

definition add_request :: "nat \<Rightarrow> u32 \<Rightarrow> nat \<Rightarrow> dp_proc \<Rightarrow> dp_proc" where
  "add_request c i m = upd_cli c (\<lambda>x. x\<lparr>dc_requests := put_kv i m (dc_requests x)\<rparr>)"

definition del_request :: "nat \<Rightarrow> u32 \<Rightarrow> dp_proc \<Rightarrow> dp_proc" where
  "del_request c i = upd_cli c (\<lambda>x. x\<lparr>dc_requests := del_kv i (dc_requests x)\<rparr>)"

section \<open>The local dispatcher\<close>

definition AddDpClient :: "nat \<Rightarrow> dp_proc \<Rightarrow> dp_proc" where
  "AddDpClient c p = (if c \<in> set (pr_clis p) then p else p\<lparr>pr_clis := pr_clis p @ [c]\<rparr>)"

definition RemoveDpClient :: "nat \<Rightarrow> dp_proc \<Rightarrow> dp_proc" where
  "RemoveDpClient c p = (if c \<in> set (pr_clis p) then p\<lparr>pr_clis := remove1 c (pr_clis p)\<rparr> else p)"

definition LocalHandleRequest :: "nat \<Rightarrow> nat \<Rightarrow> dp_proc \<Rightarrow> u32 \<times> dp_proc" where
  "LocalHandleRequest c m p =
     (case map_of (dc_methods (pr_clients p c)) (dm_method (pr_msgs p m)) of
        None \<Rightarrow> (TYPE_INVALID, p)
      | Some t \<Rightarrow> (t, upd_cli c (\<lambda>x. x\<lparr>dc_posts := dc_posts x @ [m]\<rparr>) (upd_msg m (\<lambda>x. x\<lparr>dm_type := t\<rparr>) p)))"

text \<open>The number of clients that took the message and the type of the last of them.\<close>

fun local_loop :: "nat \<Rightarrow> nat \<Rightarrow> nat list \<Rightarrow> nat \<Rightarrow> u32 \<Rightarrow> dp_proc \<Rightarrow> nat \<times> u32 \<times> dp_proc" where
  "local_loop src m [] n etype p = (n, etype, p)"
| "local_loop src m (c # cs) n etype p =
     (if c = src then local_loop src m cs n etype p
      else case LocalHandleRequest c m p of (nt, p1) \<Rightarrow>
        if nt = TYPE_INVALID then local_loop src m cs n etype p1
        else if nt = TYPE_REQUEST then (n + 1, nt, p1)
        else local_loop src m cs (n + 1) nt p1)"

definition ProcessDpRequest :: "nat \<Rightarrow> nat \<Rightarrow> dp_proc \<Rightarrow> nat \<times> u32 \<times> dp_proc" where
  "ProcessDpRequest src m p = local_loop src m (pr_clis p) 0 TYPE_INVALID p"

definition ProcessDpReply :: "nat \<Rightarrow> dp_proc \<Rightarrow> bool \<times> dp_proc" where
  "ProcessDpReply m p =
     (case dm_signal (pr_msgs p m) of None \<Rightarrow> (False, p) | Some s \<Rightarrow> (True, TriggerSignal s p))"

section \<open>Calls of the user\<close>

definition request_msg :: "u32 \<Rightarrow> method_name \<Rightarrow> u32 \<Rightarrow> u32 \<Rightarrow> byte list \<Rightarrow> byte list option \<Rightarrow> nat \<Rightarrow> DpMessage" where
  "request_msg t m clock i data res s =
     \<lparr>dm_type = t, dm_method = m, dm_session_id = clock, dm_message_id = i, dm_req = data, dm_res = res,
      dm_timeout = False, dm_result = TYPE_SUCCEED, dm_signal = Some s\<rparr>"

text \<open>How \<open>SendDpMessage\<close>, \<open>SendRemoteMessage\<close> and \<open>ListenMessage\<close> begin and end: a signal is taken, a message with the
  next number is made and entered into the map of requests; in the end the entry is erased and the signal given back.\<close>

definition open_call :: "nat \<Rightarrow> u32 \<Rightarrow> method_name \<Rightarrow> u32 \<Rightarrow> byte list \<Rightarrow> byte list option \<Rightarrow> dp_proc \<Rightarrow> nat \<times> u32 \<times> dp_proc" where
  "open_call c t meth clock data res p =
     (let (s, p1) = GetSignal c p;
          (i, p2) = next_id c p1;
          (m, p3) = new_msg (request_msg t meth clock i data res s) p2
      in (m, i, add_request c i m p3))"

definition end_call :: "nat \<Rightarrow> nat \<Rightarrow> dp_proc \<Rightarrow> dp_proc" where
  "end_call c m p = PutSignal c (dm_signal (pr_msgs p m)) (del_request c (dm_message_id (pr_msgs p m)) p)"

text \<open>The part of \<open>SendDpMessage\<close> up to the wait: \<open>Inl\<close> the result of the call or \<open>Inr\<close> the message it waits for.\<close>

definition SendDpMessage_begin :: "nat \<Rightarrow> method_name \<Rightarrow> u32 \<Rightarrow> byte list \<Rightarrow> u32 \<Rightarrow> dp_proc \<Rightarrow> (u32 + nat) \<times> dp_proc" where
  "SendDpMessage_begin c meth session_id data clock p =
     (if meth = [] then (Inl (- 1), p)
      else
        let (m, i, p4) = open_call c TYPE_MESSAGE meth clock data (Some []) p;
            (n, etype, p5) = ProcessDpRequest c m p4
        in if etype = TYPE_REQUEST then (Inr m, p5)
           else if dc_port (pr_clients p5 c) = 0
           then if etype = TYPE_MESSAGE then (Inl TYPE_FAILURE, end_call c m p5) else (Inr m, p5)
           else case SendPacket c i TYPE_MESSAGE TYPE_INVALID meth data session_id p5 of (ok, p6) \<Rightarrow>
                  if ok then (Inr m, p6) else (Inl TYPE_FAILURE, end_call c m p6))"

definition SendRemoteMessage_begin :: "nat \<Rightarrow> method_name \<Rightarrow> u32 \<Rightarrow> u32 \<Rightarrow> byte list \<Rightarrow> u32 \<Rightarrow> dp_proc \<Rightarrow> (u32 + nat) \<times> dp_proc" where
  "SendRemoteMessage_begin c meth t session_id data clock p =
     (if meth = [] then (Inl (- 1), p)
      else
        let (m, i, p4) = open_call c TYPE_MESSAGE meth clock data (Some []) p
        in if dc_port (pr_clients p4 c) = 0
           then if t = TYPE_MESSAGE then (Inl TYPE_FAILURE, end_call c m p4) else (Inr m, p4)
           else case SendPacket c i TYPE_MESSAGE TYPE_INVALID meth data session_id p4 of (ok, p5) \<Rightarrow>
                  if ok then (Inr m, p5) else (Inl TYPE_FAILURE, end_call c m p5))"

text \<open>After the wait. \<open>WaitSignal\<close> has reset the signal; a call that gives up marks the message first.\<close>

definition wait_done :: "nat \<Rightarrow> dp_proc \<Rightarrow> dp_proc" where
  "wait_done m p = (case dm_signal (pr_msgs p m) of None \<Rightarrow> p | Some s \<Rightarrow> ResetTriggerSignal s p)"

definition wait_timeout :: "nat \<Rightarrow> dp_proc \<Rightarrow> dp_proc" where
  "wait_timeout m p = wait_done m (upd_msg m (\<lambda>x. x\<lparr>dm_timeout := True\<rparr>) p)"

text \<open>The result, and what is stored in the buffer of the caller when the call got an answer.\<close>

definition send_end :: "bool \<Rightarrow> nat \<Rightarrow> nat \<Rightarrow> dp_proc \<Rightarrow> u32 \<times> byte list option \<times> dp_proc" where
  "send_end answered c m p =
     (if answered then (dm_result (pr_msgs p m), dm_res (pr_msgs p m), end_call c m p) else (TYPE_FAILURE, None, end_call c m p))"

definition SendDpReply :: "nat \<Rightarrow> nat \<Rightarrow> dp_proc \<Rightarrow> mem_error + bool \<times> dp_proc" where
  "SendDpReply c m p =
     (let x = pr_msgs p m
      in if dm_type x \<noteq> TYPE_REQUEST \<or> dm_timeout x then Inr (False, p)
         else case ProcessDpReply m p of (bret, p1) \<Rightarrow>
           if bret then Inr (True, p1)
           else if dc_port (pr_clients p1 c) = 0 then Inr (True, p1)
           else case dm_res x of None \<Rightarrow> Inl NullPointer
             | Some r \<Rightarrow> Inr (SendPacket c (dm_message_id x) TYPE_REPLY TYPE_INVALID (dm_method x) r (dm_session_id x)
                 (upd_msg m (\<lambda>x. x\<lparr>dm_type := TYPE_REPLY\<rparr>) p1)))"

definition ListenMessage_begin :: "nat \<Rightarrow> method_name \<Rightarrow> u32 \<Rightarrow> u32 \<Rightarrow> dp_proc \<Rightarrow> (u32 + nat) \<times> dp_proc" where
  "ListenMessage_begin c meth t clock p =
     (if meth = [] \<or> (t \<noteq> TYPE_MESSAGE \<and> t \<noteq> TYPE_REQUEST) then (Inl (- 1), p)
      else
        let p0 = upd_cli c (\<lambda>x. x\<lparr>dc_methods := put_kv meth t (dc_methods x)\<rparr>) p
        in if dc_port (pr_clients p0 c) = 0 then (Inl TYPE_SUCCEED, p0)
           else
             let (m, i, p4) = open_call c TYPE_ADD_MESSAGE meth clock [] None p0
             in case SendPacket c i TYPE_ADD_MESSAGE t meth [] 0 p4 of (ok, p5) \<Rightarrow>
                  if ok then (Inr m, p5) else (Inl TYPE_INVALID, end_call c m p5))"

definition listen_end :: "bool \<Rightarrow> nat \<Rightarrow> nat \<Rightarrow> dp_proc \<Rightarrow> u32 \<times> dp_proc" where
  "listen_end answered c m p =
     (if answered \<and> dm_result (pr_msgs p m) = TYPE_SUCCEED then 0 else TYPE_INVALID, end_call c m p)"

definition RemoveMessage :: "nat \<Rightarrow> method_name \<Rightarrow> dp_proc \<Rightarrow> dp_proc" where
  "RemoveMessage c meth p =
     (if meth = [] then p
      else
        let p0 = upd_cli c (\<lambda>x. x\<lparr>dc_methods := del_kv meth (dc_methods x)\<rparr>) p
        in if dc_port (pr_clients p0 c) = 0 then p0
           else case next_id c p0 of (i, p1) \<Rightarrow> snd (SendPacket c i TYPE_REMOVE_MESSAGE TYPE_INVALID meth [] 0 p1))"

section \<open>Packets from the broker\<close>

definition post_remote :: "nat \<Rightarrow> DpMessage \<Rightarrow> dp_proc \<Rightarrow> dp_proc" where
  "post_remote c x p = (case new_msg x p of (m, p1) \<Rightarrow> upd_cli c (\<lambda>y. y\<lparr>dc_posts := dc_posts y @ [m]\<rparr>) p1)"

text \<open>A message from the broker has no signal. The fields \<open>result\<close> and, for a broadcast, \<open>is_timeout\<close> are not set and not
  read: \<open>SendDpReply\<close> refuses a broadcast by its type.\<close>

definition remote_msg :: "u32 \<Rightarrow> method_name \<Rightarrow> byte list \<Rightarrow> DpNetMsgHeader \<Rightarrow> DpMessage" where
  "remote_msg t m data h =
     \<lparr>dm_type = t, dm_method = m, dm_session_id = dh_session_id h, dm_message_id = dh_message_id h, dm_req = data,
      dm_res = Some [], dm_timeout = False, dm_result = 0, dm_signal = None\<rparr>"

definition cli_OnBroadCastMessage :: "nat \<Rightarrow> DpNetMsgHeader \<Rightarrow> dp_proc \<Rightarrow> mem_error + dp_proc" where
  "cli_OnBroadCastMessage c h p =
     bindE (dp_method h) (\<lambda>m. bindE (dp_data h) (\<lambda>data. Inr (post_remote c (remote_msg TYPE_MESSAGE m data h) p)))"

definition cli_OnRequestMessage :: "nat \<Rightarrow> DpNetMsgHeader \<Rightarrow> dp_proc \<Rightarrow> mem_error + dp_proc" where
  "cli_OnRequestMessage c h p =
     bindE (dp_method h) (\<lambda>m. bindE (dp_data h) (\<lambda>data. Inr (post_remote c (remote_msg TYPE_REQUEST m data h) p)))"

text \<open>What a reply does to the message it belongs to, and to its signal.\<close>

definition complete_reply :: "nat \<Rightarrow> DpNetMsgHeader \<Rightarrow> dp_proc \<Rightarrow> mem_error + dp_proc" where
  "complete_reply m h p =
     bindE (NetworkToHost32 False (dh_data_size h)) (\<lambda>n.
       bindE (if n = 0 then Inr (dm_res (pr_msgs p m))
              else bindE (dp_data h) (\<lambda>data. case dm_res (pr_msgs p m) of None \<Rightarrow> Inl NullPointer | Some r \<Rightarrow> Inr (Some (r @ data))))
         (\<lambda>res. trigger_opt (dm_signal (pr_msgs p m))
            (upd_msg m (\<lambda>x. x\<lparr>dm_res := res, dm_type := ucast (dh_type h), dm_result := dh_result h\<rparr>) p)))"

definition log_reply :: "DpNetMsgHeader \<Rightarrow> dp_proc \<Rightarrow> mem_error + dp_proc" where
  "log_reply h p = bindE (dp_method h) (\<lambda>_. bindE (dp_data h) (\<lambda>_. Inr p))"

definition OnReqReplayMessage :: "nat \<Rightarrow> DpNetMsgHeader \<Rightarrow> dp_proc \<Rightarrow> mem_error + dp_proc" where
  "OnReqReplayMessage c h p =
     (case map_of (dc_requests (pr_clients p c)) (dh_message_id h) of
        None \<Rightarrow> log_reply h p
      | Some m \<Rightarrow> if dm_timeout (pr_msgs p m) then log_reply h p else complete_reply m h p)"

definition OnAddReplayMessage :: "nat \<Rightarrow> DpNetMsgHeader \<Rightarrow> dp_proc \<Rightarrow> mem_error + dp_proc" where
  "OnAddReplayMessage c h p =
     (case map_of (dc_requests (pr_clients p c)) (dh_message_id h) of
        None \<Rightarrow> Inr p
      | Some m \<Rightarrow>
          if dm_type (pr_msgs p m) \<noteq> TYPE_ADD_MESSAGE \<or> dm_timeout (pr_msgs p m) then Inr p
          else trigger_opt (dm_signal (pr_msgs p m)) (upd_msg m (\<lambda>x. x\<lparr>dm_result := dh_result h\<rparr>) p))"

definition cli_OnSocketReadComplete :: "nat \<Rightarrow> nat \<Rightarrow> DpNetMsgHeader \<Rightarrow> dp_proc \<Rightarrow> mem_error + dp_proc" where
  "cli_OnSocketReadComplete c len h p =
     (let t = ucast (dh_type h) :: u32
      in if len \<le> 24 then Inr p
         else if t = TYPE_MESSAGE then cli_OnBroadCastMessage c h p
         else if t = TYPE_REQUEST then cli_OnRequestMessage c h p
         else if t = TYPE_REPLY then OnReqReplayMessage c h p
         else if t = TYPE_ADD_MESSAGE then OnAddReplayMessage c h p
         else Inr p)"

section \<open>Connections\<close>

text \<open>\<open>Init\<close> up to its wait: the connection is started, or it is known at once whether there is one. The signal goes
  back to the queue when the wait ends, and \<open>signal_event_\<close> still names it.\<close>

definition Init_begin :: "nat \<Rightarrow> u16 \<Rightarrow> bool \<Rightarrow> dp_proc \<Rightarrow> (bool + unit) \<times> dp_proc" where
  "Init_begin c port started p =
     (let p0 = upd_cli c (\<lambda>x. x\<lparr>dc_port := port\<rparr>) p
      in if port = 0 then (Inl True, p0)
         else case GetSignal c p0 of (s, p1) \<Rightarrow>
           let p2 = upd_cli c (\<lambda>x. x\<lparr>dc_signal_event := Some s\<rparr>) p1
           in if started then (Inr (), p2) else (Inl False, PutSignal c (Some s) p2))"

definition Init_end :: "bool \<Rightarrow> nat \<Rightarrow> dp_proc \<Rightarrow> bool \<times> dp_proc" where
  "Init_end connected c p =
     (case dc_signal_event (pr_clients p c) of
        None \<Rightarrow> (connected, p)
      | Some s \<Rightarrow> (connected, PutSignal c (Some s) (ResetTriggerSignal s p)))"

definition OnSocketConnectEvent :: "nat \<Rightarrow> bool \<Rightarrow> dp_proc \<Rightarrow> mem_error + dp_proc" where
  "OnSocketConnectEvent c err p =
     (if err then Inr p
      else
        let p1 = upd_cli c (\<lambda>x. x\<lparr>dc_socket := Some True\<rparr>) p;
            (i, p2) = next_id c p1;
            (_, p3) = SendPacket c i TYPE_SET_NAME TYPE_INVALID (dc_name (pr_clients p2 c)) [] 0 p2
        in trigger_opt (dc_signal_event (pr_clients p3 c)) p3)"

definition ReConnect :: "nat \<Rightarrow> dp_proc \<Rightarrow> dp_proc" where
  "ReConnect c = upd_cli c (\<lambda>x. x\<lparr>dc_reconnect := Some 3000\<rparr>)"

definition cli_OnSocketErrorEvent :: "nat \<Rightarrow> dp_proc \<Rightarrow> dp_proc" where
  "cli_OnSocketErrorEvent c = upd_cli c (\<lambda>x. x\<lparr>dc_requests := [], dc_socket := None, dc_reconnect := Some 1000\<rparr>)"

definition cli_Close :: "nat \<Rightarrow> dp_proc \<Rightarrow> dp_proc" where
  "cli_Close c = upd_cli c (\<lambda>x. x\<lparr>dc_requests := [], dc_socket := None, dc_slots := False\<rparr>)"

text \<open>A message taken from the queue of the working thread goes to the handlers of the user, if there are any.\<close>

definition cli_OnMessage :: "nat \<Rightarrow> dp_proc \<Rightarrow> nat option \<times> dp_proc" where
  "cli_OnMessage c p =
     (case dc_posts (pr_clients p c) of
        [] \<Rightarrow> (None, p)
      | m # ms \<Rightarrow> (if dc_slots (pr_clients p c) then Some m else None, upd_cli c (\<lambda>x. x\<lparr>dc_posts := ms\<rparr>) p))"

text \<open>The reconnection that is posted is due: the methods that are to be registered again, when there is a connection.\<close>

definition cli_OnReconnect :: "bool \<Rightarrow> nat \<Rightarrow> dp_proc \<Rightarrow> (method_name \<times> u32) list \<times> dp_proc" where
  "cli_OnReconnect init_ok c p =
     (if init_ok then (dc_methods (pr_clients p c), upd_cli c (\<lambda>x. x\<lparr>dc_reconnect := None\<rparr>) p) else ([], ReConnect c p))"

definition new_client :: "byte list \<Rightarrow> DpClientImpl" where
  "new_client name =
     \<lparr>dc_name = name, dc_port = 0, dc_socket = None, dc_requests = [], dc_message_id = 0, dc_methods = [], dc_signals = [],
      dc_signal_event = None, dc_posts = [], dc_reconnect = None, dc_slots = True, dc_sent = []\<rparr>"

text \<open>\<open>CreateDpClient\<close> up to and after its call of \<open>Init\<close>.\<close>

definition CreateDpClient :: "nat \<Rightarrow> byte list \<Rightarrow> dp_proc \<Rightarrow> dp_proc" where
  "CreateDpClient c name p = upd_cli c (\<lambda>_. new_client name) p"

definition CreateDpClient_end :: "bool \<Rightarrow> nat \<Rightarrow> dp_proc \<Rightarrow> dp_proc" where
  "CreateDpClient_end init_ok c p = AddDpClient c (if init_ok then p else ReConnect c p)"

definition DestoryDpClient :: "nat \<Rightarrow> dp_proc \<Rightarrow> dp_proc" where
  "DestoryDpClient c p = RemoveDpClient c p"

section \<open>Threads\<close>

text \<open>
  The calls that have begun, by client and message: they wait, have been woken, or have given up. \<open>net\<close> are the clients
  that wait in \<open>Init\<close>. A reply is looked up and completed in two steps that other threads may come between, since
  \<open>is_timeout\<close> is written without the lock; \<open>step_late\<close> and \<open>step_stray\<close> are the second steps, taken for any message.
  \<open>send_end\<close> and \<open>listen_end\<close> leave the process as \<open>end_call\<close> does.
  The calls of one client begin one at a time.
\<close>

datatype call_state = Waiting | Woken | GaveUp

record dp_threads =
  th_proc :: dp_proc
  th_calls :: "nat \<times> nat \<Rightarrow> call_state option"
  th_net :: "nat set"

definition begins :: "nat \<Rightarrow> (u32 + nat) \<times> dp_proc \<Rightarrow> dp_threads \<Rightarrow> dp_threads" where
  "begins c r t =
     (case r of (Inl _, p) \<Rightarrow> t\<lparr>th_proc := p\<rparr> | (Inr m, p) \<Rightarrow> t\<lparr>th_proc := p, th_calls := (th_calls t)((c, m) \<mapsto> Waiting)\<rparr>)"

definition goes_on :: "nat \<Rightarrow> nat \<Rightarrow> call_state option \<Rightarrow> dp_proc \<Rightarrow> dp_threads \<Rightarrow> dp_threads" where
  "goes_on c m st p t = t\<lparr>th_proc := p, th_calls := (th_calls t)((c, m) := st)\<rparr>"

inductive cli_step :: "dp_threads \<Rightarrow> dp_threads \<Rightarrow> bool" where
  step_send: "cli_step t (begins c (SendDpMessage_begin c meth sid data clock (th_proc t)) t)"
| step_remote: "cli_step t (begins c (SendRemoteMessage_begin c meth ty sid data clock (th_proc t)) t)"
| step_listen: "cli_step t (begins c (ListenMessage_begin c meth ty clock (th_proc t)) t)"
| step_wake: "th_calls t (c, m) = Some Waiting \<Longrightarrow> dm_signal (pr_msgs (th_proc t) m) = Some s \<Longrightarrow> pr_sigs (th_proc t) s \<Longrightarrow>
    cli_step t (goes_on c m (Some Woken) (wait_done m (th_proc t)) t)"
| step_expire: "th_calls t (c, m) = Some Waiting \<Longrightarrow> cli_step t (goes_on c m (Some GaveUp) (wait_timeout m (th_proc t)) t)"
| step_end: "th_calls t (c, m) \<in> {Some Woken, Some GaveUp} \<Longrightarrow> cli_step t (goes_on c m None (end_call c m (th_proc t)) t)"
| step_packet: "cli_OnSocketReadComplete c len h (th_proc t) = Inr p \<Longrightarrow> cli_step t (t\<lparr>th_proc := p\<rparr>)"
| step_late: "complete_reply m h (th_proc t) = Inr p \<Longrightarrow> m < pr_nmsg (th_proc t) \<Longrightarrow> cli_step t (t\<lparr>th_proc := p\<rparr>)"
| step_stray: "cli_step t (t\<lparr>th_proc := snd (ProcessDpReply m (th_proc t))\<rparr>)"
| step_reply: "SendDpReply c m (th_proc t) = Inr (ok, p) \<Longrightarrow> m < pr_nmsg (th_proc t) \<Longrightarrow> cli_step t (t\<lparr>th_proc := p\<rparr>)"
| step_handle: "cli_step t (t\<lparr>th_proc := snd (cli_OnMessage c (th_proc t))\<rparr>)"
| step_answer: "m < pr_nmsg (th_proc t) \<Longrightarrow> cli_step t (t\<lparr>th_proc := upd_msg m (\<lambda>x. x\<lparr>dm_res := Some r\<rparr>) (th_proc t)\<rparr>)"
| step_remove: "cli_step t (t\<lparr>th_proc := RemoveMessage c meth (th_proc t)\<rparr>)"
| step_init: "c \<notin> th_net t \<Longrightarrow> Init_begin c port started (th_proc t) = (r, p) \<Longrightarrow>
    cli_step t (t\<lparr>th_proc := p, th_net := (if r = Inr () then insert c (th_net t) else th_net t)\<rparr>)"
| step_init_end: "c \<in> th_net t \<Longrightarrow> cli_step t (t\<lparr>th_proc := snd (Init_end ok c (th_proc t)), th_net := th_net t - {c}\<rparr>)"
| step_connect: "OnSocketConnectEvent c err (th_proc t) = Inr p \<Longrightarrow> cli_step t (t\<lparr>th_proc := p\<rparr>)"
| step_error: "cli_step t (t\<lparr>th_proc := cli_OnSocketErrorEvent c (th_proc t)\<rparr>)"
| step_close: "cli_step t (t\<lparr>th_proc := cli_Close c (th_proc t)\<rparr>)"
| step_reconnect: "cli_step t (t\<lparr>th_proc := snd (cli_OnReconnect ok c (th_proc t))\<rparr>)"
| step_create: "cli_step t (t\<lparr>th_proc := CreateDpClient_end ok c (th_proc t)\<rparr>)"
| step_destroy: "cli_step t (t\<lparr>th_proc := DestoryDpClient c (th_proc t)\<rparr>)"

text \<open>A process whose clients are as they are constructed.\<close>

definition no_msg :: DpMessage where
  "no_msg = \<lparr>dm_type = 0, dm_method = [], dm_session_id = 0, dm_message_id = 0, dm_req = [], dm_res = None, dm_timeout = False,
     dm_result = 0, dm_signal = None\<rparr>"

definition cli_start :: "u32 \<Rightarrow> (nat \<Rightarrow> byte list) \<Rightarrow> dp_threads" where
  "cli_start pid names =
     \<lparr>th_proc = \<lparr>pr_pid = pid, pr_msgs = (\<lambda>_. no_msg), pr_nmsg = 0, pr_sigs = (\<lambda>_. False), pr_nsig = 0,
        pr_clients = (\<lambda>c. new_client (names c)), pr_clis = []\<rparr>,
      th_calls = (\<lambda>_. None), th_net = {}\<rparr>"

section \<open>Who holds a signal\<close>

datatype holder = Pool nat | Call nat nat | Conn nat

fun holds :: "dp_threads \<Rightarrow> holder \<Rightarrow> nat list" where
  "holds t (Pool c) = dc_signals (pr_clients (th_proc t) c)"
| "holds t (Call c m) = (if th_calls t (c, m) = None then [] else [the (dm_signal (pr_msgs (th_proc t) m))])"
| "holds t (Conn c) = (if c \<in> th_net t then [the (dc_signal_event (pr_clients (th_proc t) c))] else [])"

definition sig_inv :: "dp_threads \<Rightarrow> bool" where
  "sig_inv t \<longleftrightarrow>
     (\<forall>h. distinct (holds t h)) \<and> (\<forall>s h k. s \<in> set (holds t h) \<and> s \<in> set (holds t k) \<longrightarrow> h = k) \<and>
     (\<forall>s. s < pr_nsig (th_proc t) \<longleftrightarrow> (\<exists>h. s \<in> set (holds t h)))"

definition call_inv :: "dp_threads \<Rightarrow> bool" where
  "call_inv t \<longleftrightarrow>
     (\<forall>c m st. th_calls t (c, m) = Some st \<longrightarrow> m < pr_nmsg (th_proc t) \<and> dm_signal (pr_msgs (th_proc t) m) \<noteq> None) \<and>
     (\<forall>c \<in> th_net t. dc_signal_event (pr_clients (th_proc t) c) \<noteq> None) \<and>
     (\<forall>c i m. map_of (dc_requests (pr_clients (th_proc t) c)) i = Some m \<longrightarrow>
        th_calls t (c, m) \<noteq> None \<and> dm_message_id (pr_msgs (th_proc t) m) = i)"

definition cli_inv :: "dp_threads \<Rightarrow> bool" where
  "cli_inv t \<longleftrightarrow> sig_inv t \<and> call_inv t"

text \<open>Steps that leave the signals, the numbers and the map of requests alone, or only shorten the latter.\<close>

definition same_sigs :: "dp_proc \<Rightarrow> dp_proc \<Rightarrow> bool" where
  "same_sigs p q \<longleftrightarrow> pr_nsig q = pr_nsig p \<and> pr_nmsg p \<le> pr_nmsg q \<and>
     (\<forall>c. dc_signals (pr_clients q c) = dc_signals (pr_clients p c) \<and> dc_signal_event (pr_clients q c) = dc_signal_event (pr_clients p c) \<and>
        dc_requests (pr_clients q c) \<in> {dc_requests (pr_clients p c), []}) \<and>
     (\<forall>m < pr_nmsg p. dm_signal (pr_msgs q m) = dm_signal (pr_msgs p m) \<and> dm_message_id (pr_msgs q m) = dm_message_id (pr_msgs p m))"

lemma same_sigs_refl [simp]: "same_sigs p p"
  by (simp add: same_sigs_def)

lemma same_sigs_trans [trans]: "same_sigs p q \<Longrightarrow> same_sigs q r \<Longrightarrow> same_sigs p r"
  unfolding same_sigs_def by (auto; metis order.strict_trans2)

lemma same_sigs_holds: "call_inv t \<Longrightarrow> same_sigs (th_proc t) q \<Longrightarrow> holds (t\<lparr>th_proc := q\<rparr>) h = holds t h"
  by (cases h) (auto simp: call_inv_def same_sigs_def)

lemma same_sigs_inv:
  assumes "cli_inv t" "same_sigs (th_proc t) q"
  shows "cli_inv (t\<lparr>th_proc := q\<rparr>)"
proof -
  have "call_inv t" using assms(1) by (simp add: cli_inv_def)
  then have "call_inv (t\<lparr>th_proc := q\<rparr>)" using assms(2) unfolding call_inv_def same_sigs_def
    by (auto; metis empty_iff insert_iff map_of.simps(1) option.distinct(1) order.strict_trans2)
  then show ?thesis using assms same_sigs_holds [OF \<open>call_inv t\<close> assms(2)] by (simp add: cli_inv_def sig_inv_def same_sigs_def)
qed

lemma holds_distinct: "sig_inv t \<Longrightarrow> h \<noteq> k \<Longrightarrow> distinct (holds t h @ holds t k)"
  by (auto simp: sig_inv_def)

lemma sig_move:
  assumes "sig_inv t" "h \<noteq> k" "holds t' = (holds t)(h := xs, k := ys)" "distinct (xs @ ys)"
    and "set xs \<union> set ys = set (holds t h) \<union> set (holds t k)" "pr_nsig (th_proc t') = pr_nsig (th_proc t)"
  shows "sig_inv t'"
  unfolding sig_inv_def
proof (intro conjI allI)
  have i: "\<And>h. distinct (holds t h)" "\<And>s h k. s \<in> set (holds t h) \<Longrightarrow> s \<in> set (holds t k) \<Longrightarrow> h = k"
    "\<And>s. s < pr_nsig (th_proc t) \<longleftrightarrow> (\<exists>h. s \<in> set (holds t h))" using assms(1) unfolding sig_inv_def by blast+
  show "distinct (holds t' j)" for j using i(1) assms(2,3,4) by auto
  have old: "s \<in> set (holds t' j) \<Longrightarrow> j \<noteq> h \<Longrightarrow> j \<noteq> k \<Longrightarrow> s \<in> set (holds t j)" for s j by (simp add: assms(3))
  have pair: "s \<in> set (holds t' h) \<or> s \<in> set (holds t' k) \<longleftrightarrow> s \<in> set (holds t h) \<or> s \<in> set (holds t k)" for s
    using assms(2,5) by (auto simp: assms(3))
  have apart: "\<not> (s \<in> set (holds t' h) \<and> s \<in> set (holds t' k))" for s using assms(2,4) by (auto simp: assms(3))
  show "s \<in> set (holds t' j) \<and> s \<in> set (holds t' l) \<longrightarrow> j = l" for s j l
    using old [of s j] old [of s l] pair [of s] apart [of s] i(2) by metis
  show "s < pr_nsig (th_proc t') \<longleftrightarrow> (\<exists>h. s \<in> set (holds t' h))" for s
    unfolding assms(6) i(3) using pair [of s] assms(3) by (metis fun_upd_other)
qed

lemma sig_new:
  assumes "sig_inv t" "holds t k = []" "holds t' = (holds t)(k := [pr_nsig (th_proc t)])" "pr_nsig (th_proc t') = Suc (pr_nsig (th_proc t))"
  shows "sig_inv t'"
proof -
  let ?n = "pr_nsig (th_proc t)"
  have i: "\<And>h. distinct (holds t h)" "\<And>s h k. s \<in> set (holds t h) \<Longrightarrow> s \<in> set (holds t k) \<Longrightarrow> h = k"
    "\<And>s. s < ?n \<longleftrightarrow> (\<exists>h. s \<in> set (holds t h))" using assms(1) unfolding sig_inv_def by blast+
  then have "?n \<notin> set (holds t h)" for h by (metis order.irrefl)
  moreover have "(\<exists>h. s \<in> set (holds t' h)) \<longleftrightarrow> s = ?n \<or> s < ?n" for s
    unfolding i(3) assms(3) using assms(2) by (auto; metis empty_iff empty_set)
  ultimately show ?thesis using i(1,2) unfolding sig_inv_def assms(4) less_Suc_eq by (auto simp: assms(3) split: if_splits)
qed

text \<open>Taking a signal from the queue of a client, or a new one, and giving it to a holder that has none.\<close>

lemma GetSignal_fields:
  assumes "GetSignal c p = (s, q)"
  shows "pr_msgs q = pr_msgs p" "pr_nmsg q = pr_nmsg p" "\<And>d. dc_signal_event (pr_clients q d) = dc_signal_event (pr_clients p d)"
    "\<And>d. dc_requests (pr_clients q d) = dc_requests (pr_clients p d)" "\<And>d. d \<noteq> c \<Longrightarrow> dc_signals (pr_clients q d) = dc_signals (pr_clients p d)"
    and "dc_signals (pr_clients p c) = s # dc_signals (pr_clients q c) \<and> pr_nsig q = pr_nsig p \<or>
      dc_signals (pr_clients p c) = [] \<and> dc_signals (pr_clients q c) = [] \<and> s = pr_nsig p \<and> pr_nsig q = Suc (pr_nsig p)"
  using assms by (auto simp: GetSignal_def upd_cli_def split: list.splits)

lemma sig_take:
  assumes "sig_inv t" "GetSignal c (th_proc t) = (s, q)" "holds t k = []" "k \<noteq> Pool c" "pr_nsig (th_proc t') = pr_nsig q"
    and "\<And>h. h \<noteq> k \<Longrightarrow> holds t' h = holds (t\<lparr>th_proc := q\<rparr>) h" "holds t' k = [s]"
    and "\<And>h. h \<noteq> Pool c \<Longrightarrow> h \<noteq> k \<Longrightarrow> holds (t\<lparr>th_proc := q\<rparr>) h = holds t h"
  shows "sig_inv t'"
proof -
  let ?x = "dc_signals (pr_clients q c)"
  have h: "holds t' = (holds t)(Pool c := ?x, k := [s])"
    using assms(4,6-8) by (intro ext) (auto simp: fun_upd_def)
  from GetSignal_fields(6) [OF assms(2)] show ?thesis
  proof (elim disjE conjE)
    assume p: "dc_signals (pr_clients (th_proc t) c) = s # ?x" "pr_nsig q = pr_nsig (th_proc t)"
    then have "holds t (Pool c) = s # ?x" by simp
    moreover from this have "distinct (s # ?x)" using assms(1) unfolding sig_inv_def by metis
    ultimately show ?thesis using assms(3,4,5) p(2) by (intro sig_move [OF assms(1) assms(4) [symmetric] h]) auto
  next
    assume p: "dc_signals (pr_clients (th_proc t) c) = []" "?x = []" "s = pr_nsig (th_proc t)" "pr_nsig q = Suc (pr_nsig (th_proc t))"
    then have "holds t' = (holds t)(k := [pr_nsig (th_proc t)])" unfolding h by (auto simp: fun_upd_def)
    then show ?thesis using assms(3,5) p(4) by (intro sig_new [OF assms(1)]) auto
  qed
qed

lemma open_call_fields:
  assumes "open_call c ty meth clock data res p = (m, i, q)" "GetSignal c p = (s, p1)"
  shows "m = pr_nmsg p" "pr_nmsg q = Suc (pr_nmsg p)" "pr_nsig q = pr_nsig p1" "i = ucast (dc_message_id (pr_clients p1 c) + 1)"
    "pr_msgs q = (pr_msgs p)(m := request_msg ty meth clock i data res s)"
    "\<And>d. dc_signals (pr_clients q d) = dc_signals (pr_clients p1 d)" "\<And>d. dc_signal_event (pr_clients q d) = dc_signal_event (pr_clients p d)"
    "\<And>d. dc_requests (pr_clients q d) = (if d = c then put_kv i m (dc_requests (pr_clients p d)) else dc_requests (pr_clients p d))"
  using assms GetSignal_fields [OF assms(2)]
  by (auto simp: open_call_def next_id_def new_msg_def add_request_def upd_cli_def request_msg_def)

lemma open_call_inv:
  assumes "cli_inv t" "open_call c ty meth clock data res (th_proc t) = (m, i, q)"
  shows "cli_inv (t\<lparr>th_proc := q, th_calls := (th_calls t)((c, m) \<mapsto> st)\<rparr>)" "th_calls t (d, m) = None"
proof -
  obtain s p1 where g: "GetSignal c (th_proc t) = (s, p1)" by (cases "GetSignal c (th_proc t)")
  note f = open_call_fields [OF assms(2) g] and g' = GetSignal_fields [OF g]
  have inv: "sig_inv t" "call_inv t" using assms(1) by (auto simp: cli_inv_def)
  let ?t = "t\<lparr>th_proc := q, th_calls := (th_calls t)((c, m) \<mapsto> st)\<rparr>"
  have lt: "th_calls t (d, n) \<noteq> None \<Longrightarrow> n < m" for d n using inv(2) f(1) unfolding call_inv_def by blast
  then show new: "th_calls t (d, m) = None" for d by blast
  have "sig_inv ?t"
  proof (rule sig_take [OF inv(1) g, where k = "Call c m"])
    show "holds ?t h = holds (t\<lparr>th_proc := p1\<rparr>) h" if "h \<noteq> Call c m" for h
      using that lt f(5,6,7) g' by (cases h) auto
    show "holds (t\<lparr>th_proc := p1\<rparr>) h = holds t h" if "h \<noteq> Pool c" for h using that g' by (cases h) auto
  qed (use new f in \<open>auto simp: request_msg_def\<close>)
  moreover have "call_inv ?t" unfolding call_inv_def
  proof (intro conjI allI impI ballI)
    fix d n st' assume a: "th_calls ?t (d, n) = Some st'"
    show "n < pr_nmsg (th_proc ?t)" using a lt [of d n] f(1,2) by (cases "(d, n) = (c, m)") auto
    have "th_calls t (d, n) \<noteq> None \<Longrightarrow> dm_signal (pr_msgs (th_proc t) n) \<noteq> None" using inv(2) unfolding call_inv_def by blast
    then show "dm_signal (pr_msgs (th_proc ?t) n) \<noteq> None" using a by (cases "n = m") (auto simp: f(5) request_msg_def)
  next
    show "d \<in> th_net ?t \<Longrightarrow> dc_signal_event (pr_clients (th_proc ?t) d) \<noteq> None" for d using inv(2) by (simp add: f(7) call_inv_def)
  next
    fix d j n assume a: "map_of (dc_requests (pr_clients (th_proc ?t) d)) j = Some n"
    have old: "map_of (dc_requests (pr_clients (th_proc t) d)) j = Some n \<Longrightarrow> th_calls t (d, n) \<noteq> None \<and> dm_message_id (pr_msgs (th_proc t) n) = j"
      using inv(2) unfolding call_inv_def by blast
    have "d = c \<and> j = i \<and> n = m \<or> map_of (dc_requests (pr_clients (th_proc t) d)) j = Some n"
      using a by (auto simp: f(8) map_of_put_kv split: if_splits)
    then show "th_calls ?t (d, n) \<noteq> None" "dm_message_id (pr_msgs (th_proc ?t) n) = j"
      using old lt [of d n] by (auto simp: f(5) request_msg_def)
  qed
  ultimately show "cli_inv ?t" by (simp add: cli_inv_def)
qed

lemma end_call_inv:
  assumes "cli_inv t" "th_calls t (c, m) \<noteq> None"
  shows "cli_inv (goes_on c m None (end_call c m (th_proc t)) t)"
proof -
  let ?p = "th_proc t" and ?t = "goes_on c m None (end_call c m (th_proc t)) t"
  have inv: "sig_inv t" "call_inv t" using assms(1) by (auto simp: cli_inv_def)
  obtain s where s: "dm_signal (pr_msgs ?p m) = Some s" using inv(2) assms(2) unfolding call_inv_def by blast
  have e: "end_call c m ?p = upd_cli c (\<lambda>x. x\<lparr>dc_requests := del_kv (dm_message_id (pr_msgs ?p m)) (dc_requests x), dc_signals := dc_signals x @ [s]\<rparr>) ?p"
    by (simp add: end_call_def PutSignal_def s del_request_def upd_cli_def)
  have "sig_inv ?t"
  proof (rule sig_move [OF inv(1), where h = "Pool c" and k = "Call c m"])
    show "holds ?t = (holds t)(Pool c := holds t (Pool c) @ [s], Call c m := [])"
    proof
      fix h show "holds ?t h = ((holds t)(Pool c := holds t (Pool c) @ [s], Call c m := [])) h"
        by (cases h) (auto simp: e goes_on_def upd_cli_def)
    qed
    have "distinct (holds t (Pool c) @ holds t (Call c m))" by (rule holds_distinct [OF inv(1)]) simp
    then show "distinct ((holds t (Pool c) @ [s]) @ [])" using assms(2) s by auto
  qed (use assms(2) s in \<open>auto simp: e goes_on_def upd_cli_def\<close>)
  moreover have "call_inv ?t"
    using inv(2) unfolding call_inv_def by (auto simp: e goes_on_def upd_cli_def map_of_del_kv split: if_splits)
  ultimately show ?thesis by (simp add: cli_inv_def)
qed

lemma Init_begin_inv:
  assumes "cli_inv t" "c \<notin> th_net t" "Init_begin c port started (th_proc t) = (r, p)"
  shows "cli_inv (t\<lparr>th_proc := p, th_net := (if r = Inr () then insert c (th_net t) else th_net t)\<rparr>)"
proof -
  define p0 where "p0 = upd_cli c (\<lambda>x. x\<lparr>dc_port := port\<rparr>) (th_proc t)"
  have i0: "cli_inv (t\<lparr>th_proc := p0\<rparr>)" by (rule same_sigs_inv [OF assms(1)]) (simp add: same_sigs_def p0_def upd_cli_def)
  obtain s p1 where g: "GetSignal c p0 = (s, p1)" by (cases "GetSignal c p0")
  note f = GetSignal_fields [OF g]
  define p2 where "p2 = upd_cli c (\<lambda>x. x\<lparr>dc_signal_event := Some s\<rparr>) p1"
  have p2: "pr_msgs p2 = pr_msgs p1" "pr_nmsg p2 = pr_nmsg p1" "pr_nsig p2 = pr_nsig p1"
    "\<And>d. dc_signals (pr_clients p2 d) = dc_signals (pr_clients p1 d)" "\<And>d. dc_requests (pr_clients p2 d) = dc_requests (pr_clients p1 d)"
    "\<And>d. dc_signal_event (pr_clients p2 d) = (if d = c then Some s else dc_signal_event (pr_clients p1 d))"
    by (simp_all add: p2_def upd_cli_def)
  let ?t0 = "t\<lparr>th_proc := p0\<rparr>" and ?t2 = "t\<lparr>th_proc := p2, th_net := insert c (th_net t)\<rparr>"
  have sig: "sig_inv ?t0" and call: "call_inv ?t0" using i0 by (auto simp: cli_inv_def)
  have "sig_inv ?t2"
  proof (rule sig_take [OF sig, where k = "Conn c"])
    show "GetSignal c (th_proc ?t0) = (s, p1)" by (simp add: g)
    show "holds ?t2 h = holds (?t0\<lparr>th_proc := p1\<rparr>) h" if "h \<noteq> Conn c" for h using that f by (cases h) (auto simp: p2)
    show "holds (?t0\<lparr>th_proc := p1\<rparr>) h = holds ?t0 h" if "h \<noteq> Pool c" for h using that f by (cases h) auto
  qed (use assms(2) in \<open>auto simp: p2\<close>)
  moreover have "call_inv ?t2" using call unfolding call_inv_def by (auto simp: p2 f)
  ultimately have i2: "cli_inv ?t2" by (simp add: cli_inv_def)
  show ?thesis
  proof (cases "port = 0 \<or> started")
    case True
    then show ?thesis using assms(3) i0 i2 by (auto simp: Init_begin_def p0_def [symmetric] g p2_def [symmetric] split: if_splits)
  next
    case False
    then have r: "r = Inl False" "p = PutSignal c (Some s) p2" using assms(3) by (auto simp: Init_begin_def p0_def [symmetric] g p2_def [symmetric])
    let ?t = "t\<lparr>th_proc := p\<rparr>"
    have "sig_inv ?t"
    proof (rule sig_move [of ?t2 "Pool c" "Conn c"])
      show "holds ?t = (holds ?t2)(Pool c := holds ?t2 (Pool c) @ [s], Conn c := [])"
      proof
        fix h show "holds ?t h = ((holds ?t2)(Pool c := holds ?t2 (Pool c) @ [s], Conn c := [])) h"
          using assms(2) by (cases h) (auto simp: r PutSignal_def upd_cli_def)
      qed
      have "distinct (holds ?t2 (Pool c) @ holds ?t2 (Conn c))" by (rule holds_distinct) (use i2 in \<open>auto simp: cli_inv_def\<close>)
      then show "distinct ((holds ?t2 (Pool c) @ [s]) @ [])" by (simp add: p2)
    qed (use i2 in \<open>auto simp: r PutSignal_def upd_cli_def p2 cli_inv_def\<close>)
    moreover have "call_inv ?t" using i2 assms(2) unfolding cli_inv_def call_inv_def by (auto simp: r PutSignal_def upd_cli_def p2)
    ultimately show ?thesis using r(1) by (simp add: cli_inv_def)
  qed
qed

lemma Init_end_inv:
  assumes "cli_inv t" "c \<in> th_net t"
  shows "cli_inv (t\<lparr>th_proc := snd (Init_end ok c (th_proc t)), th_net := th_net t - {c}\<rparr>)"
proof -
  have inv: "sig_inv t" "call_inv t" using assms(1) by (auto simp: cli_inv_def)
  obtain s where s: "dc_signal_event (pr_clients (th_proc t) c) = Some s" using inv(2) assms(2) by (auto simp: call_inv_def)
  let ?t = "t\<lparr>th_proc := snd (Init_end ok c (th_proc t)), th_net := th_net t - {c}\<rparr>"
  have e: "snd (Init_end ok c (th_proc t)) = upd_cli c (\<lambda>x. x\<lparr>dc_signals := dc_signals x @ [s]\<rparr>) (ResetTriggerSignal s (th_proc t))"
    by (simp add: Init_end_def s PutSignal_def)
  have "sig_inv ?t"
  proof (rule sig_move [OF inv(1), where h = "Pool c" and k = "Conn c"])
    show "holds ?t = (holds t)(Pool c := holds t (Pool c) @ [s], Conn c := [])"
    proof
      fix h show "holds ?t h = ((holds t)(Pool c := holds t (Pool c) @ [s], Conn c := [])) h"
        by (cases h) (auto simp: e upd_cli_def ResetTriggerSignal_def)
    qed
    have "distinct (holds t (Pool c) @ holds t (Conn c))" by (rule holds_distinct [OF inv(1)]) simp
    then show "distinct ((holds t (Pool c) @ [s]) @ [])" using assms(2) s by auto
  qed (use assms(2) s in \<open>auto simp: e upd_cli_def ResetTriggerSignal_def\<close>)
  moreover have "call_inv ?t" using inv(2) unfolding call_inv_def by (auto simp: e upd_cli_def ResetTriggerSignal_def)
  ultimately show ?thesis by (simp add: cli_inv_def)
qed

named_theorems same_sigs_intros \<open>operations that leave signals, numbers and requests alone\<close>

lemma same_sigs_upd_cli [same_sigs_intros]:
  "(\<And>x. dc_signals (f x) = dc_signals x \<and> dc_signal_event (f x) = dc_signal_event x \<and> dc_requests (f x) \<in> {dc_requests x, []}) \<Longrightarrow>
     same_sigs p (upd_cli c f p)"
  by (auto simp: same_sigs_def upd_cli_def)

lemma same_sigs_upd_msg [same_sigs_intros]:
  "(\<And>x. dm_signal (f x) = dm_signal x \<and> dm_message_id (f x) = dm_message_id x) \<Longrightarrow> same_sigs p (upd_msg m f p)"
  by (auto simp: same_sigs_def upd_msg_def)

lemma same_sigs_via_msg:
  "same_sigs (upd_msg m f p) q \<Longrightarrow> (\<And>x. dm_signal (f x) = dm_signal x \<and> dm_message_id (f x) = dm_message_id x) \<Longrightarrow> same_sigs p q"
  using same_sigs_trans same_sigs_upd_msg by blast

lemma same_sigs_signal [same_sigs_intros]: "same_sigs p (TriggerSignal s p)" "same_sigs p (ResetTriggerSignal s p)"
  by (simp_all add: same_sigs_def TriggerSignal_def ResetTriggerSignal_def)

lemma same_sigs_trigger_opt: "trigger_opt so p = Inr q \<Longrightarrow> same_sigs p q"
  by (auto simp: trigger_opt_def split: option.splits intro: same_sigs_intros)

lemma same_sigs_SendPacket [same_sigs_intros]: "same_sigs p (snd (SendPacket c i t l m data sid p))"
  by (simp add: SendPacket_def Let_def same_sigs_def upd_cli_def)

lemma same_sigs_next_id: "next_id c p = (i, q) \<Longrightarrow> same_sigs p q"
  by (auto simp: next_id_def intro: same_sigs_intros)

lemma same_sigs_clis [same_sigs_intros]: "same_sigs p (AddDpClient c p)" "same_sigs p (RemoveDpClient c p)"
  by (simp_all add: same_sigs_def AddDpClient_def RemoveDpClient_def)

lemma same_sigs_waits [same_sigs_intros]: "same_sigs p (wait_done m p)" "same_sigs p (wait_timeout m p)"
proof -
  show d: "same_sigs p (wait_done m p)" for p by (auto simp: wait_done_def split: option.split intro: same_sigs_intros)
  show "same_sigs p (wait_timeout m p)" unfolding wait_timeout_def by (rule same_sigs_trans [OF _ d]) (simp add: same_sigs_intros)
qed

lemma same_sigs_local: "LocalHandleRequest c m p = (t, q) \<Longrightarrow> same_sigs p q"
  by (auto simp: LocalHandleRequest_def split: option.splits intro!: same_sigs_trans [OF same_sigs_upd_msg same_sigs_upd_cli])

lemma same_sigs_loop: "local_loop src m cs n e p = (n', e', q) \<Longrightarrow> same_sigs p q"
proof (induction src m cs n e p rule: local_loop.induct)
  case (2 src m c cs n e p)
  show ?case
  proof (cases "c = src")
    case True
    with 2 show ?thesis by simp
  next
    case False
    obtain nt p1 where l: "LocalHandleRequest c m p = (nt, p1)" by (cases "LocalHandleRequest c m p")
    have "same_sigs p1 q" using 2(2,3) [OF False l [symmetric]] 2(4) False l by (auto split: if_splits)
    with same_sigs_local [OF l] show ?thesis by (rule same_sigs_trans)
  qed
qed simp

lemma same_sigs_post: "same_sigs p (post_remote c x p)"
  by (simp add: same_sigs_def post_remote_def new_msg_def upd_cli_def)

lemma same_sigs_complete: "complete_reply m h p = Inr q \<Longrightarrow> same_sigs p q"
  by (auto simp: complete_reply_def bindE_Inr_iff split: if_splits option.splits
      dest!: same_sigs_trigger_opt elim: same_sigs_via_msg)

lemma same_sigs_packet: "cli_OnSocketReadComplete c len h p = Inr q \<Longrightarrow> same_sigs p q"
  by (auto simp: cli_OnSocketReadComplete_def cli_OnBroadCastMessage_def cli_OnRequestMessage_def OnReqReplayMessage_def
      OnAddReplayMessage_def log_reply_def bindE_Inr_iff Let_def same_sigs_post split: if_splits option.splits
      dest!: same_sigs_complete same_sigs_trigger_opt elim: same_sigs_via_msg)

lemma same_sigs_reply: "SendDpReply c m p = Inr (ok, q) \<Longrightarrow> same_sigs p q"
proof -
  assume "SendDpReply c m p = Inr (ok, q)"
  moreover have "same_sigs p q" if "SendPacket c i t l me data sid (upd_msg m (\<lambda>x. x\<lparr>dm_type := TYPE_REPLY\<rparr>) p) = (ok, q)" for i t l me data sid
    using same_sigs_SendPacket [of "upd_msg m (\<lambda>x. x\<lparr>dm_type := TYPE_REPLY\<rparr>) p" c i t l me data sid] that by (auto elim: same_sigs_via_msg)
  ultimately show ?thesis
    by (auto simp: SendDpReply_def ProcessDpReply_def Let_def same_sigs_intros split: if_splits option.splits prod.splits)
qed

lemma same_sigs_connect: "OnSocketConnectEvent c err p = Inr q \<Longrightarrow> same_sigs p q"
proof (cases err)
  case False
  assume a: "OnSocketConnectEvent c err p = Inr q"
  let ?p1 = "upd_cli c (\<lambda>x. x\<lparr>dc_socket := Some True\<rparr>) p"
  obtain i p2 where n: "next_id c ?p1 = (i, p2)" by (cases "next_id c ?p1")
  let ?p3 = "snd (SendPacket c i TYPE_SET_NAME TYPE_INVALID (dc_name (pr_clients p2 c)) [] 0 p2)"
  have "same_sigs p ?p1" by (rule same_sigs_upd_cli) simp
  also have "same_sigs ?p1 p2" using n by (rule same_sigs_next_id)
  also have "same_sigs p2 ?p3" by (rule same_sigs_SendPacket)
  also have "trigger_opt (dc_signal_event (pr_clients ?p3 c)) ?p3 = Inr q"
    using a False n by (simp add: OnSocketConnectEvent_def Let_def case_prod_beta)
  then have "same_sigs ?p3 q" by (rule same_sigs_trigger_opt)
  finally show ?thesis .
qed (simp add: OnSocketConnectEvent_def)

lemma same_sigs_remove: "same_sigs p (RemoveMessage c meth p)"
proof -
  let ?p0 = "upd_cli c (\<lambda>x. x\<lparr>dc_methods := del_kv meth (dc_methods x)\<rparr>) p"
  obtain i p1 where n: "next_id c ?p0 = (i, p1)" by (cases "next_id c ?p0")
  have "same_sigs p ?p0" by (rule same_sigs_upd_cli) simp
  moreover have "same_sigs ?p0 (snd (SendPacket c i TYPE_REMOVE_MESSAGE TYPE_INVALID meth [] 0 p1))"
    by (rule same_sigs_trans [OF same_sigs_next_id [OF n] same_sigs_SendPacket])
  ultimately show ?thesis unfolding RemoveMessage_def using n by (auto simp: Let_def intro: same_sigs_trans)
qed

text \<open>A call that has been opened and was then either left waiting or ended at once.\<close>

lemma opened_inv:
  assumes inv: "cli_inv t" and p0: "same_sigs (th_proc t) p0" and o: "open_call c ty meth clock data res p0 = (m, i, p4)"
    and q: "same_sigs p4 q"
  shows "cli_inv (begins c (Inr m, q) t)" "cli_inv (begins c (Inl r, end_call c m q) t)"
proof -
  have i0: "cli_inv (t\<lparr>th_proc := p0\<rparr>)" by (rule same_sigs_inv [OF inv p0])
  have o': "open_call c ty meth clock data res (th_proc (t\<lparr>th_proc := p0\<rparr>)) = (m, i, p4)" using o by simp
  let ?t = "t\<lparr>th_proc := q, th_calls := (th_calls t)((c, m) \<mapsto> Waiting)\<rparr>"
  have i4: "cli_inv (t\<lparr>th_proc := p4, th_calls := (th_calls t)((c, m) \<mapsto> Waiting)\<rparr>)" and fresh: "th_calls t (c, m) = None"
    using open_call_inv(1) [OF i0 o', where st = Waiting] open_call_inv(2) [OF i0 o', of c] by simp_all
  have iq: "cli_inv ?t" using same_sigs_inv [OF i4, of q] q by (cases t) simp
  then show "cli_inv (begins c (Inr m, q) t)" by (simp add: begins_def)
  have "(th_calls t)((c, m) := None) = th_calls t" using fresh by auto
  then show "cli_inv (begins c (Inl r, end_call c m q) t)" using end_call_inv [OF iq, of c m] by (simp add: begins_def goes_on_def)
qed

lemma begins_same: "cli_inv t \<Longrightarrow> same_sigs (th_proc t) q \<Longrightarrow> cli_inv (begins c (Inl r, q) t)"
  by (simp add: begins_def same_sigs_inv)

lemma SendDpMessage_inv:
  assumes "cli_inv t" shows "cli_inv (begins c (SendDpMessage_begin c meth sid data clock (th_proc t)) t)"
proof -
  obtain m i p4 where o: "open_call c TYPE_MESSAGE meth clock data (Some []) (th_proc t) = (m, i, p4)" by (cases "open_call c TYPE_MESSAGE meth clock data (Some []) (th_proc t)")
  obtain n e p5 where l: "ProcessDpRequest c m p4 = (n, e, p5)" by (cases "ProcessDpRequest c m p4")
  obtain ok p6 where s: "SendPacket c i TYPE_MESSAGE TYPE_INVALID meth data sid p5 = (ok, p6)" by (cases "SendPacket c i TYPE_MESSAGE TYPE_INVALID meth data sid p5")
  have 5: "same_sigs p4 p5" using l unfolding ProcessDpRequest_def by (rule same_sigs_loop)
  have "same_sigs p5 p6" using same_sigs_SendPacket [of p5 c i TYPE_MESSAGE TYPE_INVALID meth data sid] s by simp
  with 5 have 6: "same_sigs p4 p6" by (rule same_sigs_trans)
  show ?thesis unfolding SendDpMessage_begin_def o l s Let_def prod.case
    using opened_inv [OF assms same_sigs_refl o 5] opened_inv [OF assms same_sigs_refl o 6] begins_same [OF assms same_sigs_refl] by simp
qed

lemma SendRemoteMessage_inv:
  assumes "cli_inv t" shows "cli_inv (begins c (SendRemoteMessage_begin c meth ty sid data clock (th_proc t)) t)"
proof -
  obtain m i p4 where o: "open_call c TYPE_MESSAGE meth clock data (Some []) (th_proc t) = (m, i, p4)" by (cases "open_call c TYPE_MESSAGE meth clock data (Some []) (th_proc t)")
  obtain ok p5 where s: "SendPacket c i TYPE_MESSAGE TYPE_INVALID meth data sid p4 = (ok, p5)" by (cases "SendPacket c i TYPE_MESSAGE TYPE_INVALID meth data sid p4")
  have 5: "same_sigs p4 p5" using same_sigs_SendPacket [of p4 c i TYPE_MESSAGE TYPE_INVALID meth data sid] s by simp
  show ?thesis unfolding SendRemoteMessage_begin_def o s Let_def prod.case
    using opened_inv [OF assms same_sigs_refl o same_sigs_refl] opened_inv [OF assms same_sigs_refl o 5] begins_same [OF assms same_sigs_refl] by simp
qed

lemma ListenMessage_inv:
  assumes "cli_inv t" shows "cli_inv (begins c (ListenMessage_begin c meth ty clock (th_proc t)) t)"
proof -
  let ?p0 = "upd_cli c (\<lambda>x. x\<lparr>dc_methods := put_kv meth ty (dc_methods x)\<rparr>) (th_proc t)"
  have 0: "same_sigs (th_proc t) ?p0" by (rule same_sigs_upd_cli) simp
  obtain m i p4 where o: "open_call c TYPE_ADD_MESSAGE meth clock [] None ?p0 = (m, i, p4)" by (cases "open_call c TYPE_ADD_MESSAGE meth clock [] None ?p0")
  obtain ok p5 where s: "SendPacket c i TYPE_ADD_MESSAGE ty meth [] 0 p4 = (ok, p5)" by (cases "SendPacket c i TYPE_ADD_MESSAGE ty meth [] 0 p4")
  have 5: "same_sigs p4 p5" using same_sigs_SendPacket [of p4 c i TYPE_ADD_MESSAGE ty meth "[]" 0] s by simp
  show ?thesis unfolding ListenMessage_begin_def Let_def o s prod.case
    using opened_inv [OF assms 0 o 5] begins_same [OF assms same_sigs_refl] begins_same [OF assms 0] by simp
qed

lemma goes_on_inv:
  assumes "cli_inv t" "th_calls t (c, m) \<noteq> None" "same_sigs (th_proc t) q"
  shows "cli_inv (goes_on c m (Some st) q t)"
proof -
  have i: "cli_inv (t\<lparr>th_proc := q\<rparr>)" by (rule same_sigs_inv [OF assms(1,3)])
  let ?t = "goes_on c m (Some st) q t"
  have "holds ?t h = holds (t\<lparr>th_proc := q\<rparr>) h" for h using assms(2) by (cases h) (auto simp: goes_on_def)
  then have "sig_inv ?t" using i by (simp add: cli_inv_def sig_inv_def goes_on_def)
  moreover have "call_inv ?t" using i assms(2) unfolding cli_inv_def call_inv_def by (auto simp: goes_on_def)
  ultimately show ?thesis by (simp add: cli_inv_def)
qed

lemma cli_step_inv: "cli_step t u \<Longrightarrow> cli_inv t \<Longrightarrow> cli_inv u"
proof (induction rule: cli_step.induct)
  case (step_reconnect t ok c)
  then show ?case by (intro same_sigs_inv) (auto simp: cli_OnReconnect_def ReConnect_def intro: same_sigs_intros)
next
  case (step_create t ok c)
  have "same_sigs (th_proc t) (if ok then th_proc t else ReConnect c (th_proc t))" by (simp add: ReConnect_def same_sigs_intros)
  with step_create show ?case unfolding CreateDpClient_end_def by (intro same_sigs_inv) (auto intro: same_sigs_trans same_sigs_intros)
next
  case (step_stray t m)
  then show ?case by (intro same_sigs_inv) (auto simp: ProcessDpReply_def intro: same_sigs_intros split: option.split)
next
  case (step_handle t c)
  then show ?case by (intro same_sigs_inv) (auto simp: cli_OnMessage_def intro: same_sigs_intros split: list.split)
next
  case (step_end t c m)
  then show ?case by (intro end_call_inv) auto
next
  case (step_init c t port started r p)
  then show ?case using Init_begin_inv by blast
next
  case (step_answer m t r)
  then show ?case by (intro same_sigs_inv same_sigs_upd_msg) auto
next
  case (step_error t c)
  then show ?case unfolding cli_OnSocketErrorEvent_def by (intro same_sigs_inv same_sigs_upd_cli) auto
next
  case (step_close t c)
  then show ?case unfolding cli_Close_def by (intro same_sigs_inv same_sigs_upd_cli) auto
qed (auto intro: SendDpMessage_inv SendRemoteMessage_inv ListenMessage_inv goes_on_inv Init_begin_inv Init_end_inv same_sigs_inv
      same_sigs_waits same_sigs_packet same_sigs_complete same_sigs_reply same_sigs_remove same_sigs_connect same_sigs_intros
    simp: DestoryDpClient_def)

interpretation bus_clients: transition_system "cli_start pid names" cli_step cli_inv for pid names
proof
  have "holds (cli_start pid names) h = []" for h by (cases h) (simp_all add: cli_start_def new_client_def)
  then show "cli_inv (cli_start pid names)" by (simp add: cli_inv_def sig_inv_def call_inv_def) (simp add: cli_start_def new_client_def)
  show "cli_inv u" if "cli_inv t" "cli_step t u" for t u using cli_step_inv that by blast
qed

section \<open>Properties of the calls\<close>

text \<open>C9. On every reachable process, whatever the threads do, every signal is in one place: in the queue of one client, held
  by one call or by one connection that is being made. So no two calls wait on the same signal and none is lost. The map
  of requests of a client holds only calls of the client that have not ended, each under its number.\<close>

theorem client_signals_exact:
  assumes "reach cli_step (cli_start pid names) t"
  shows "(\<forall>s < pr_nsig (th_proc t). \<exists>!h. s \<in> set (holds t h)) \<and>
    (\<forall>c m d n. th_calls t (c, m) \<noteq> None \<and> th_calls t (d, n) \<noteq> None \<and> dm_signal (pr_msgs (th_proc t) m) = dm_signal (pr_msgs (th_proc t) n) \<longrightarrow>
       c = d \<and> m = n) \<and>
    (\<forall>c i m. map_of (dc_requests (pr_clients (th_proc t) c)) i = Some m \<longrightarrow> th_calls t (c, m) \<noteq> None \<and> dm_message_id (pr_msgs (th_proc t) m) = i)"
proof (intro conjI allI impI)
  have inv: "sig_inv t" "call_inv t" using bus_clients.reach_inv [OF assms] by (auto simp: cli_inv_def)
  then have one: "\<And>s h k. s \<in> set (holds t h) \<Longrightarrow> s \<in> set (holds t k) \<Longrightarrow> h = k" unfolding sig_inv_def by blast
  show "\<exists>!h. s \<in> set (holds t h)" if "s < pr_nsig (th_proc t)" for s
    using that inv(1) one [of s] unfolding sig_inv_def by metis
  fix c m d n
  assume a: "th_calls t (c, m) \<noteq> None \<and> th_calls t (d, n) \<noteq> None \<and> dm_signal (pr_msgs (th_proc t) m) = dm_signal (pr_msgs (th_proc t) n)"
  then have "Call c m = Call d n" by (intro one [of "the (dm_signal (pr_msgs (th_proc t) m))"]) auto
  then show "c = d" "m = n" by simp_all
next
  fix c i m assume "map_of (dc_requests (pr_clients (th_proc t) c)) i = Some m"
  then have "th_calls t (c, m) \<noteq> None \<and> dm_message_id (pr_msgs (th_proc t) m) = i"
    using bus_clients.reach_inv [OF assms] unfolding cli_inv_def call_inv_def by blast
  then show "th_calls t (c, m) \<noteq> None" "dm_message_id (pr_msgs (th_proc t) m) = i" by simp_all
qed

definition two_calls :: dp_threads where
  "two_calls = (let t = cli_start 1 (\<lambda>_. [65]); t1 = begins 0 (SendDpMessage_begin 0 [7] 0 [1] 0 (th_proc t)) t
     in begins 0 (SendDpMessage_begin 0 [8] 0 [2] 0 (th_proc t1)) t1)"

theorem client_signals_exact_witness:
  "th_calls two_calls (0, 0) \<noteq> None \<and> th_calls two_calls (0, 1) \<noteq> None \<and>
   dm_signal (pr_msgs (th_proc two_calls) 0) \<noteq> dm_signal (pr_msgs (th_proc two_calls) 1)"
proof -
  have r: "reach cli_step (cli_start 1 (\<lambda>_. [65])) two_calls"
    unfolding two_calls_def Let_def by (rule reach_step, rule reach_step, rule reach_refl, rule step_send, rule step_send)
  have c: "th_calls two_calls (0, 0) \<noteq> None \<and> th_calls two_calls (0, 1) \<noteq> None"
    by (simp add: two_calls_def cli_start_def new_client_def SendDpMessage_begin_def open_call_def GetSignal_def next_id_def new_msg_def
        add_request_def upd_cli_def ProcessDpRequest_def begins_def TYPE_INVALID_def TYPE_REQUEST_def TYPE_MESSAGE_def)
  with client_signals_exact [OF r] have "dm_signal (pr_msgs (th_proc two_calls) 0) = dm_signal (pr_msgs (th_proc two_calls) 1) \<longrightarrow> (0 :: nat) = 1"
    by blast
  with c show ?thesis by simp
qed

section \<open>A request through the broker\<close>

lemma hton32_eq: "hton32 n = host_word False (be_bytes 4 n)"
  by (simp add: hton32_def HostToNetwork_eq)

lemma cli_packet_read:
  assumes "length m < 2 ^ 16"
  shows "dp_method (cli_packet pid i t l m data sid) = Inr m"
    "length data < 2 ^ 32 \<Longrightarrow> dp_data (cli_packet pid i t l m data sid) = Inr data"
  using assms by (simp_all add: dp_method_def dp_data_def cli_packet_def copy_out_def unsigned_of_nat take_bit_nat_eq_self hton32_eq
      NetworkToHost_eq be_word_bytes)

lemma cli_packet_fields [simp]:
  "dh_type (cli_packet pid i t l m data sid) = ucast t" "dh_message_id (cli_packet pid i t l m data sid) = i"
  "dh_process_id (cli_packet pid i t l m data sid) = pid" "dh_session_id (cli_packet pid i t l m data sid) = sid"
  "dh_body (cli_packet pid i t l m data sid) = m @ data"
  by (simp_all add: cli_packet_def)

lemma packet_fields [simp]:
  "dh_type (packet i t m data sid r) = ucast t" "dh_body (packet i t m data sid r) = m @ data" "dh_result (packet i t m data sid r) = r"
  "dh_data_size (packet i t m data sid r) = hton32 (of_nat (length data))"
  by (simp_all add: packet_def hton32_eq)

lemma local_loop_none:
  "\<forall>d \<in> set cs. d \<noteq> c \<longrightarrow> map_of (dc_methods (pr_clients p d)) (dm_method (pr_msgs p m)) = None \<Longrightarrow> local_loop c m cs n e p = (n, e, p)"
  by (induction cs) (auto simp: LocalHandleRequest_def)

lemma SendPacket_ok:
  assumes "dc_socket (pr_clients p c) = Some True"
  shows "fst (SendPacket c i t l m data sid p)"
    "dc_sent (pr_clients (snd (SendPacket c i t l m data sid p)) c) = dc_sent (pr_clients p c) @ [cli_packet (pr_pid p) i t l m data sid]"
  using assms by (auto simp: SendPacket_def Let_def upd_cli_def)

lemma SendPacket_keeps:
  "pr_msgs (snd (SendPacket c i t l m data sid p)) = pr_msgs p" "pr_sigs (snd (SendPacket c i t l m data sid p)) = pr_sigs p"
  "dc_requests (pr_clients (snd (SendPacket c i t l m data sid p)) d) = dc_requests (pr_clients p d)"
  by (auto simp: SendPacket_def Let_def upd_cli_def)

lemma open_call_keeps:
  assumes "open_call c ty meth clock data res p = (m, i, q)"
  shows "pr_clis q = pr_clis p" "pr_pid q = pr_pid p" "dc_methods (pr_clients q d) = dc_methods (pr_clients p d)"
    "dc_port (pr_clients q d) = dc_port (pr_clients p d)" "dc_socket (pr_clients q d) = dc_socket (pr_clients p d)"
    "dc_sent (pr_clients q d) = dc_sent (pr_clients p d)" "i = ucast (dc_message_id (pr_clients p c) + 1)"
    "map_of (dc_requests (pr_clients q c)) i = Some m" "\<exists>s. pr_msgs q m = request_msg ty meth clock i data res s"
proof -
  obtain s p1 where g: "GetSignal c p = (s, p1)" by (cases "GetSignal c p")
  have g': "pr_clis p1 = pr_clis p" "pr_pid p1 = pr_pid p" "dc_methods (pr_clients p1 d) = dc_methods (pr_clients p d)"
    "dc_port (pr_clients p1 d) = dc_port (pr_clients p d)" "dc_socket (pr_clients p1 d) = dc_socket (pr_clients p d)"
    "dc_sent (pr_clients p1 d) = dc_sent (pr_clients p d)" "dc_message_id (pr_clients p1 d) = dc_message_id (pr_clients p d)" for d
    using g by (auto simp: GetSignal_def upd_cli_def split: list.splits)
  note f = open_call_fields [OF assms g]
  show "i = ucast (dc_message_id (pr_clients p c) + 1)" "map_of (dc_requests (pr_clients q c)) i = Some m"
    "\<exists>s. pr_msgs q m = request_msg ty meth clock i data res s" by (simp_all add: f(4,5,8) g' map_of_put_kv) blast
  show "pr_clis q = pr_clis p" "pr_pid q = pr_pid p" "dc_methods (pr_clients q d) = dc_methods (pr_clients p d)"
    "dc_port (pr_clients q d) = dc_port (pr_clients p d)" "dc_socket (pr_clients q d) = dc_socket (pr_clients p d)"
    "dc_sent (pr_clients q d) = dc_sent (pr_clients p d)"
    using assms g g' by (auto simp: open_call_def next_id_def new_msg_def add_request_def upd_cli_def)
qed

text \<open>A message that no client of the process takes goes to the broker.\<close>

lemma send_to_broker:
  assumes "meth \<noteq> []" "dc_port (pr_clients p c) \<noteq> 0" "dc_socket (pr_clients p c) = Some True"
    and "\<forall>d \<in> set (pr_clis p). d \<noteq> c \<longrightarrow> map_of (dc_methods (pr_clients p d)) meth = None"
  shows "\<exists>m p1 s. let i = ucast (dc_message_id (pr_clients p c) + 1) in
    SendDpMessage_begin c meth sid data clock p = (Inr m, p1) \<and> pr_msgs p1 m = request_msg TYPE_MESSAGE meth clock i data (Some []) s \<and>
    dc_sent (pr_clients p1 c) = dc_sent (pr_clients p c) @ [cli_packet (pr_pid p) i TYPE_MESSAGE TYPE_INVALID meth data sid] \<and>
    map_of (dc_requests (pr_clients p1 c)) i = Some m"
proof -
  obtain m i q where o: "open_call c TYPE_MESSAGE meth clock data (Some []) p = (m, i, q)"
    by (cases "open_call c TYPE_MESSAGE meth clock data (Some []) p")
  note k = open_call_keeps [OF o]
  obtain s where s: "pr_msgs q m = request_msg TYPE_MESSAGE meth clock i data (Some []) s" using k(9) by blast
  have l: "ProcessDpRequest c m q = (0, TYPE_INVALID, q)"
    unfolding ProcessDpRequest_def using assms(4) by (intro local_loop_none) (simp add: k s request_msg_def)
  let ?r = "SendPacket c i TYPE_MESSAGE TYPE_INVALID meth data sid q"
  have f: "fst ?r" "dc_sent (pr_clients (snd ?r) c) = dc_sent (pr_clients p c) @ [cli_packet (pr_pid p) i TYPE_MESSAGE TYPE_INVALID meth data sid]"
    using SendPacket_ok [of q c i TYPE_MESSAGE TYPE_INVALID meth data sid] assms(3) by (simp_all add: k)
  have "SendDpMessage_begin c meth sid data clock p = (Inr m, snd ?r)"
    using assms(1,2) f(1) by (simp add: SendDpMessage_begin_def o l k case_prod_beta)
  then show ?thesis using f(2) k(8) s unfolding Let_def k(7) [symmetric] by (metis SendPacket_keeps(1,3))
qed

lemma type_bytes [simp]:
  "ucast (ucast TYPE_REPLY :: byte) = TYPE_REPLY" "TYPE_REPLY \<noteq> TYPE_MESSAGE" "TYPE_REPLY \<noteq> TYPE_REQUEST" "TYPE_REQUEST \<noteq> TYPE_REPLY"
  by (simp_all add: TYPE_REPLY_def TYPE_MESSAGE_def TYPE_REQUEST_def)

text \<open>The client that serves the method: the request is posted to its thread, and the answer is written to the socket.\<close>

lemma serve_request:
  fixes tag sid :: u32
  assumes "meth \<noteq> []" "length meth < 2 ^ 16" "length data < 2 ^ 32" "dc_port (pr_clients q d) \<noteq> 0" "dc_socket (pr_clients q d) = Some True"
  defines "g \<equiv> packet tag TYPE_REQUEST meth data sid 0"
  shows "\<exists>q1 x q2. cli_OnSocketReadComplete d (24 + length (dh_body g)) g q = Inr q1 \<and>
    dc_posts (pr_clients q1 d) = dc_posts (pr_clients q d) @ [x] \<and> dm_method (pr_msgs q1 x) = meth \<and> dm_req (pr_msgs q1 x) = data \<and>
    SendDpReply d x (upd_msg x (\<lambda>y. y\<lparr>dm_res := Some resp\<rparr>) q1) = Inr (True, q2) \<and>
    dc_sent (pr_clients q2 d) = dc_sent (pr_clients q d) @ [cli_packet (pr_pid q) tag TYPE_REPLY TYPE_INVALID meth resp sid]"
proof -
  let ?x = "pr_nmsg q" and ?y = "remote_msg TYPE_REQUEST meth data g"
  let ?q1 = "post_remote d ?y q"
  have r: "cli_OnSocketReadComplete d (24 + length (dh_body g)) g q = Inr ?q1"
    using assms(1-3) by (simp add: cli_OnSocketReadComplete_def g_def cli_OnRequestMessage_def packet_method packet_data)
  have q1: "pr_msgs ?q1 ?x = ?y" "dc_posts (pr_clients ?q1 d) = dc_posts (pr_clients q d) @ [?x]" "dc_port (pr_clients ?q1 d) \<noteq> 0"
    "dc_socket (pr_clients ?q1 d) = Some True" "dc_sent (pr_clients ?q1 d) = dc_sent (pr_clients q d)" "pr_pid ?q1 = pr_pid q"
    using assms(4,5) by (simp_all add: post_remote_def new_msg_def upd_cli_def)
  let ?q3 = "upd_msg ?x (\<lambda>y. y\<lparr>dm_type := TYPE_REPLY\<rparr>) (upd_msg ?x (\<lambda>y. y\<lparr>dm_res := Some resp\<rparr>) ?q1)"
  let ?s = "SendPacket d tag TYPE_REPLY TYPE_INVALID meth resp sid ?q3"
  have s: "fst ?s" "dc_sent (pr_clients (snd ?s) d) = dc_sent (pr_clients q d) @ [cli_packet (pr_pid q) tag TYPE_REPLY TYPE_INVALID meth resp sid]"
    using SendPacket_ok [of ?q3 d tag TYPE_REPLY TYPE_INVALID meth resp sid] q1 by (simp_all add: upd_msg_def)
  have "SendDpReply d ?x (upd_msg ?x (\<lambda>y. y\<lparr>dm_res := Some resp\<rparr>) ?q1) = Inr ?s"
    using q1 by (simp add: SendDpReply_def ProcessDpReply_def upd_msg_def remote_msg_def g_def)
  with r q1 s show ?thesis
    by (intro exI [of _ ?q1] exI [of _ ?x] exI [of _ "snd ?s"]) (simp add: remote_msg_def prod_eq_iff)
qed

text \<open>The answer arrives at the client whose call is still open.\<close>

lemma take_answer:
  fixes sid :: u32
  assumes "length meth < 2 ^ 16" "meth \<noteq> []" "length resp < 2 ^ 32" "map_of (dc_requests (pr_clients p c)) i = Some m"
    and "pr_msgs p m = request_msg TYPE_MESSAGE meth clock i data (Some []) s"
  defines "g \<equiv> packet i TYPE_REPLY meth resp sid 1"
  shows "\<exists>p2 p3. cli_OnSocketReadComplete c (24 + length (dh_body g)) g p = Inr p2 \<and> dm_signal (pr_msgs p2 m) = Some s \<and> pr_sigs p2 s \<and>
    send_end True c m (wait_done m p2) = (1, Some resp, p3) \<and> map_of (dc_requests (pr_clients p3 c)) i = None \<and> s \<in> set (dc_signals (pr_clients p3 c))"
proof -
  define p2 where "p2 = TriggerSignal s (upd_msg m (\<lambda>x. x\<lparr>dm_res := Some resp, dm_type := TYPE_REPLY, dm_result := 1\<rparr>) p)"
  have n: "NetworkToHost32 False (dh_data_size g) = Inr (of_nat (length resp))"
    by (simp add: g_def hton32_eq NetworkToHost_eq be_word_bytes)
  have "of_nat (length resp) = (0 :: u32) \<longleftrightarrow> resp = []"
    using assms(3) by (simp add: word_unat_eq_iff unsigned_of_nat take_bit_nat_eq_self)
  then have "complete_reply m g p = Inr p2"
    using assms(1,3,5) unfolding complete_reply_def n
    by (auto simp: p2_def g_def packet_data trigger_opt_def request_msg_def upd_msg_def)
  then have r: "cli_OnSocketReadComplete c (24 + length (dh_body g)) g p = Inr p2"
    using assms(2,4,5) by (simp add: cli_OnSocketReadComplete_def g_def OnReqReplayMessage_def request_msg_def)
  have m: "pr_msgs p2 m = (request_msg TYPE_MESSAGE meth clock i data (Some []) s)\<lparr>dm_res := Some resp, dm_type := TYPE_REPLY, dm_result := 1\<rparr>"
    "pr_sigs p2 s" by (simp_all add: p2_def TriggerSignal_def upd_msg_def assms(5))
  then have "dm_signal (pr_msgs p2 m) = Some s" "dm_message_id (pr_msgs p2 m) = i" by (simp_all add: request_msg_def)
  then have e: "send_end True c m (wait_done m p2) = (1, Some resp, end_call c m (ResetTriggerSignal s p2))"
    using m(1) by (simp add: send_end_def wait_done_def ResetTriggerSignal_def request_msg_def)
  show ?thesis
    by (intro exI [of _ p2] exI [of _ "end_call c m (ResetTriggerSignal s p2)"])
      (use r m e in \<open>simp add: request_msg_def end_call_def PutSignal_def del_request_def upd_cli_def ResetTriggerSignal_def map_of_del_kv\<close>)
qed

lemma ucast_u16_small: "(ucast (w :: u16) :: u32) AND 0x0000ffff = ucast w"
  unfolding mask16(1) by (rule bit_word_eqI) (auto simp: bit_simps dest: bit_imp_le_length)


definition proc_sample :: "u32 \<Rightarrow> dp_proc" where
  "proc_sample pid = (let p = th_proc (cli_start pid (\<lambda>_. [65])) in upd_cli 0 (\<lambda>x. x\<lparr>dc_port := 6101, dc_socket := Some True\<rparr>) p\<lparr>pr_clis := [0]\<rparr>)"

lemma proc_sample_facts:
  "dc_port (pr_clients (proc_sample pid) 0) \<noteq> 0" "dc_socket (pr_clients (proc_sample pid) 0) = Some True"
  "\<forall>d \<in> set (pr_clis (proc_sample pid)). d \<noteq> 0 \<longrightarrow> map_of (dc_methods (pr_clients (proc_sample pid) d)) m = None" "pr_pid (proc_sample pid) = pid"
  by (simp_all add: proc_sample_def upd_cli_def cli_start_def)


section \<open>Calls that return without an answer\<close>

lemma local_loop_keeps:
  "local_loop src m cs n e p = (n', e', q) \<Longrightarrow> pr_sigs q = pr_sigs p \<and> dm_res (pr_msgs q k) = dm_res (pr_msgs p k) \<and>
     dm_result (pr_msgs q k) = dm_result (pr_msgs p k) \<and> dm_signal (pr_msgs q k) = dm_signal (pr_msgs p k)"
proof (induction src m cs n e p rule: local_loop.induct)
  case (2 src m c cs n e p)
  show ?case
  proof (cases "c = src")
    case True
    with 2 show ?thesis by simp
  next
    case False
    obtain nt p1 where l: "LocalHandleRequest c m p = (nt, p1)" by (cases "LocalHandleRequest c m p")
    have "pr_sigs p1 = pr_sigs p \<and> dm_res (pr_msgs p1 k) = dm_res (pr_msgs p k) \<and> dm_result (pr_msgs p1 k) = dm_result (pr_msgs p k) \<and>
        dm_signal (pr_msgs p1 k) = dm_signal (pr_msgs p k)"
      using l by (auto simp: LocalHandleRequest_def upd_cli_def upd_msg_def split: option.splits)
    with 2(2,3) [OF False l [symmetric]] 2(4) False l show ?thesis by (auto split: if_splits)
  qed
qed simp

text \<open>What a new call looks like when it starts to wait.\<close>

lemma SendDpMessage_waits:
  assumes "SendDpMessage_begin c meth sid data clock p = (Inr m, q)" "GetSignal c p = (s, p1)"
  shows "pr_sigs q = pr_sigs p1" "dm_signal (pr_msgs q m) = Some s" "dm_res (pr_msgs q m) = Some []" "dm_result (pr_msgs q m) = TYPE_SUCCEED"
proof -
  obtain n i p4 where o: "open_call c TYPE_MESSAGE meth clock data (Some []) p = (n, i, p4)"
    by (cases "open_call c TYPE_MESSAGE meth clock data (Some []) p")
  obtain j e p5 where l: "ProcessDpRequest c n p4 = (j, e, p5)" by (cases "ProcessDpRequest c n p4")
  note f = open_call_fields [OF o assms(2)] and k = local_loop_keeps [OF l [unfolded ProcessDpRequest_def], of n]
  have "pr_sigs p4 = pr_sigs p1" using o assms(2) by (auto simp: open_call_def next_id_def new_msg_def add_request_def upd_cli_def)
  moreover have "m = n \<and> (q = p5 \<or> q = snd (SendPacket c i TYPE_MESSAGE TYPE_INVALID meth data sid p5))"
    using assms(1) by (auto simp: SendDpMessage_begin_def o l split: if_splits prod.splits)
  ultimately show "pr_sigs q = pr_sigs p1" "dm_signal (pr_msgs q m) = Some s" "dm_res (pr_msgs q m) = Some []" "dm_result (pr_msgs q m) = TYPE_SUCCEED"
    using k f(5) by (auto simp: SendPacket_keeps request_msg_def)
qed

text \<open>C36. A handler that replies twice to a request of its own process answers the next call of the caller as well: the
  signal of the finished call is first in the queue of the client and is set again, so the next message that the client sends,
  whatever it is and whoever should answer, is taken as answered at once, with success and an empty answer.\<close>

theorem second_reply_answers_next_call:
  assumes "dm_type (pr_msgs p m) = TYPE_REQUEST" "\<not> dm_timeout (pr_msgs p m)" "dm_signal (pr_msgs p m) = Some s"
    and "dc_signals (pr_clients p c) = s # ss"
  shows "\<exists>p1. SendDpReply d m p = Inr (True, p1) \<and>
    (\<forall>n p2. SendDpMessage_begin c meth sid data clock p1 = (Inr n, p2) \<longrightarrow>
       dm_signal (pr_msgs p2 n) = Some s \<and> pr_sigs p2 s \<and> (\<exists>p3. send_end True c n (wait_done n p2) = (TYPE_SUCCEED, Some [], p3)))"
proof -
  let ?p1 = "TriggerSignal s p"
  have r: "SendDpReply d m p = Inr (True, ?p1)" using assms(1-3) by (simp add: SendDpReply_def ProcessDpReply_def)
  have g: "GetSignal c ?p1 = (s, upd_cli c (\<lambda>x. x\<lparr>dc_signals := ss\<rparr>) ?p1)" using assms(4) by (simp add: GetSignal_def TriggerSignal_def)
  have "dm_signal (pr_msgs p2 n) = Some s \<and> pr_sigs p2 s \<and> (\<exists>p3. send_end True c n (wait_done n p2) = (TYPE_SUCCEED, Some [], p3))"
    if "SendDpMessage_begin c meth sid data clock ?p1 = (Inr n, p2)" for n p2
  proof -
    note w = SendDpMessage_waits [OF that g]
    then have "pr_msgs (wait_done n p2) = pr_msgs p2" by (simp add: wait_done_def ResetTriggerSignal_def)
    then show ?thesis using w by (simp add: send_end_def upd_cli_def TriggerSignal_def)
  qed
  with r show ?thesis by blast
qed

text \<open>Client 1 serves a request of client 0, whose call has returned.\<close>

definition proc_served :: dp_proc where
  "proc_served =
     (let p = upd_cli 1 (\<lambda>x. x\<lparr>dc_methods := [([7], TYPE_REQUEST)]\<rparr>) (th_proc (cli_start 1 (\<lambda>_. [65])))\<lparr>pr_clis := [0, 1]\<rparr>;
          (r, p1) = SendDpMessage_begin 0 [7] 0 [1] 0 p;
          p2 = TriggerSignal 0 (upd_msg 0 (\<lambda>x. x\<lparr>dm_res := Some [5]\<rparr>) p1)
      in snd (snd (send_end True 0 0 (wait_done 0 p2))))"

lemmas call_defs = SendDpMessage_begin_def open_call_def GetSignal_def next_id_def new_msg_def add_request_def upd_cli_def upd_msg_def
  ProcessDpRequest_def LocalHandleRequest_def request_msg_def send_end_def end_call_def PutSignal_def del_request_def wait_done_def
  TriggerSignal_def ResetTriggerSignal_def cli_start_def new_client_def

lemma proc_served_facts:
  "dm_type (pr_msgs proc_served 0) = TYPE_REQUEST" "\<not> dm_timeout (pr_msgs proc_served 0)" "dm_signal (pr_msgs proc_served 0) = Some 0"
  "dc_signals (pr_clients proc_served 0) = [0]" "\<not> pr_sigs proc_served 0"
  by (simp_all add: proc_served_def call_defs put_kv_def del_kv_def TYPE_INVALID_def TYPE_REQUEST_def TYPE_MESSAGE_def)

theorem second_reply_answers_next_call_witness:
  "\<exists>p1 n p2 p3. SendDpReply 1 0 proc_served = Inr (True, p1) \<and> SendDpMessage_begin 0 [8] 0 [1] 0 p1 = (Inr n, p2) \<and>
     send_end True 0 n (wait_done n p2) = (TYPE_SUCCEED, Some [], p3)"
proof -
  from second_reply_answers_next_call [OF proc_served_facts(1-4), of 1 "[8]" 0 "[1]" 0] obtain p1 where
    p1: "SendDpReply 1 0 proc_served = Inr (True, p1)" and w: "\<And>n p2. SendDpMessage_begin 0 [8] 0 [1] 0 p1 = (Inr n, p2) \<Longrightarrow>
      \<exists>p3. send_end True 0 n (wait_done n p2) = (TYPE_SUCCEED, Some [], p3)" by auto
  have "p1 = TriggerSignal 0 proc_served" using p1 proc_served_facts by (simp add: SendDpReply_def ProcessDpReply_def)
  then have "\<exists>n p2. SendDpMessage_begin 0 [8] 0 [1] 0 p1 = (Inr n, p2)"
    by (simp add: proc_served_def call_defs put_kv_def del_kv_def TYPE_INVALID_def TYPE_REQUEST_def TYPE_MESSAGE_def)
  with p1 w show ?thesis by blast
qed

text \<open>A connection that is made after \<open>Init\<close> has given up sets a signal that is in the queue already, with the same effect.\<close>

lemma late_connect_sets_queued_signal:
  assumes "dc_signal_event (pr_clients p c) = Some s" "Init_end False c p = (False, p1)" "OnSocketConnectEvent c False p1 = Inr p2"
  shows "s \<in> set (dc_signals (pr_clients p2 c)) \<and> pr_sigs p2 s"
  using assms by (auto simp: Init_end_def PutSignal_def OnSocketConnectEvent_def SendPacket_def next_id_def upd_cli_def trigger_opt_def
      ResetTriggerSignal_def TriggerSignal_def Let_def split: if_splits)

text \<open>A reply that comes after its call has ended changes nothing, as long as the number is not in use again; and a call that
  gave up reports 7, the value of \<open>TYPE_FAILURE\<close>.\<close>

lemma late_reply_dropped:
  assumes "map_of (dc_requests (pr_clients p c)) (dh_message_id h) = None" "OnReqReplayMessage c h p = Inr q"
  shows "q = p"
  using assms by (auto simp: OnReqReplayMessage_def log_reply_def bindE_Inr_iff)

lemma gave_up_result: "\<exists>q. send_end False c m (wait_timeout m p) = (7, None, q)"
  by (simp add: send_end_def TYPE_FAILURE_def)

end
