(* ===== verification/Kvdb_Server.thy ===== *)
theory Kvdb_Server
  imports Param_Check Dp_Client
begin

text \<open>
  The server of the key-value store on the message bus, \<open>lib_bsp/kvdb/kvdb/kvdbserver.cpp\<close>: it answers requests to read and
  to write a key with JSON documents, over the clients of \<open>Kvdb_Client\<close> and the values of \<open>Param_Check\<close>. The names of
  members, methods and results come from headers that are not part of the repository and are an argument, as are the
  parser, the writer and the printing of numbers. The reply is what \<open>res_buffer\<close> holds when \<open>SendDpReply\<close> is called;
  \<open>None\<close> is no reply, or a read that does not return.
\<close>

record kv_words =
  kw_key :: string
  kw_type :: string
  kw_value :: string
  kw_state :: string
  kw_err_msg :: string
  kw_ok :: int
  kw_err :: int
  kw_get :: method_name
  kw_set :: method_name

record kv_json =
  kj_parse :: "byte list \<Rightarrow> json option"
  kj_write :: "json \<Rightarrow> byte list"
  kj_number :: "json \<Rightarrow> string"

record KvdbServer =
  ks_kvdb :: "KvdbNetClient option"
  ks_skvdb :: "KvdbNetClient option"
  ks_usr_kvdb :: "KvdbNetClient option"

section \<open>Members of a document\<close>

text \<open>The order of \<open>strcmp\<close>, in which an object keeps its members.\<close>

fun key_less :: "string \<Rightarrow> string \<Rightarrow> bool" where
  "key_less _ [] = False"
| "key_less [] (_ # _) = True"
| "key_less (c # cs) (d # ds) = ((of_char c :: nat) < of_char d \<or> c = d \<and> key_less cs ds)"

fun put_member :: "string \<Rightarrow> json \<Rightarrow> (string \<times> json) list \<Rightarrow> (string \<times> json) list" where
  "put_member k x [] = [(k, x)]"
| "put_member k x ((l, y) # ms) =
     (if k = l then (k, x) # ms else if key_less k l then (k, x) # (l, y) # ms else (l, y) # put_member k x ms)"

definition js_put :: "string \<Rightarrow> json \<Rightarrow> json \<Rightarrow> json_error + json" where
  "js_put k x v = bindE (as_map v) (\<lambda>ms. Inr (JObject (put_member k x ms)))"

fun asString :: "kv_json \<Rightarrow> json \<Rightarrow> string" where
  "asString J JNull = ''''"
| "asString J (JString s) = cstr s"
| "asString J (JBool b) = (if b then ''true'' else ''false'')"
| "asString J (JArray xs) = ''''"
| "asString J (JObject ms) = ''''"
| "asString J v = kj_number J v"

section \<open>The server\<close>

definition KVDB_NAME_KVDB :: string where "KVDB_NAME_KVDB = ''kvdb''"
definition KVDB_NAME_USRKVDB :: string where "KVDB_NAME_USRKVDB = ''usr_data_kvdb''"

fun start_client :: "KvdbNetClient option \<Rightarrow> string \<Rightarrow> kvfs \<Rightarrow> KvdbNetClient option \<times> kvfs" where
  "start_client (Some c) name fs = (Some c, fs)"
| "start_client None name fs = CreateKvdbClient name fs"

definition Start :: "KvdbServer \<Rightarrow> kvfs \<Rightarrow> bool \<times> KvdbServer \<times> kvfs" where
  "Start srv fs =
     (case start_client (ks_kvdb srv) KVDB_NAME_KVDB fs of (k, fs1) \<Rightarrow>
        let srv1 = srv\<lparr>ks_kvdb := k\<rparr> in
        if k = None then (False, srv1, fs1)
        else case start_client (ks_skvdb srv) KVDB_NAME_SKVDB fs1 of (s, fs2) \<Rightarrow>
          let srv2 = srv1\<lparr>ks_skvdb := s\<rparr> in
          if s = None then (False, srv2, fs2)
          else case start_client (ks_usr_kvdb srv) KVDB_NAME_USRKVDB fs2 of (u, fs3) \<Rightarrow>
            (u \<noteq> None, srv2\<lparr>ks_usr_kvdb := u\<rparr>, fs3))"

definition select_kvdb :: "KvdbServer \<Rightarrow> string \<Rightarrow> KvdbNetClient option" where
  "select_kvdb srv t =
     (if t = KVDB_NAME_KVDB then ks_kvdb srv else if t = KVDB_NAME_SKVDB then ks_skvdb srv
      else if t = KVDB_NAME_USRKVDB then ks_usr_kvdb srv else ks_kvdb srv)"

text \<open>An answer with a state and a message only.\<close>

definition state_reply :: "kv_words \<Rightarrow> int \<Rightarrow> string \<Rightarrow> json" where
  "state_reply W n msg = JObject (put_member (kw_err_msg W) (JString msg) (put_member (kw_state W) (JInt n) []))"

definition get_value :: "bool \<Rightarrow> read_junk \<Rightarrow> kv_check \<Rightarrow> KvdbNetClient \<Rightarrow> string \<Rightarrow> kvfs \<Rightarrow> (byte list \<times> kvfs) option" where
  "get_value big j ck c key fs =
     (if length key > 0 then map_option (\<lambda>(_, v, fs1). (v, fs1)) (GetKey big j ck c key [] fs) else Some ([], fs))"

definition OnDpMessage :: "kv_words \<Rightarrow> kv_json \<Rightarrow> bool \<Rightarrow> read_junk \<Rightarrow> kv_check \<Rightarrow> KvdbServer \<Rightarrow> method_name \<Rightarrow> byte list \<Rightarrow> byte list \<Rightarrow> kvfs
    \<Rightarrow> json_error + (byte list option \<times> kvfs) option" where
  "OnDpMessage W J big j ck srv meth req_buffer res_buffer fs =
     (case kj_parse J req_buffer of
        None \<Rightarrow> Inr (Some (Some (kj_write J (state_reply W (kw_err W) ''json is error'')), fs))
      | Some req \<Rightarrow>
          bindE (js_get req (kw_key W)) (\<lambda>k. bindE (js_get req (kw_type W)) (\<lambda>t.
            let kvdb_key = asString J k in
            case select_kvdb srv (asString J t) of
              None \<Rightarrow> Inr (Some (Some (kj_write J (state_reply W (kw_err W) ''kvdb is error'')), fs))
            | Some op_kvdb \<Rightarrow>
                if meth = kw_get W
                then (case get_value big j ck op_kvdb kvdb_key fs of
                        None \<Rightarrow> Inr None
                      | Some (kvdb_value, fs1) \<Rightarrow>
                          (case kj_parse J kvdb_value of
                             None \<Rightarrow> Inr (Some (Some res_buffer, fs1))
                           | Some res \<Rightarrow>
                               bindE (js_put (kw_state W) (JInt (kw_ok W)) res) (\<lambda>r1.
                                 bindE (js_put (kw_err_msg W) (JString ''All Done'') r1) (\<lambda>r2. Inr (Some (Some (kj_write J r2), fs1))))))
                else if meth = kw_set W
                then bindE (js_get req (kw_value W)) (\<lambda>x.
                  let kvdb_value = kj_write J x in
                  if length kvdb_key > 0 \<and> length kvdb_value > 0
                  then (case SetKey big j ck op_kvdb kvdb_key kvdb_value fs of
                          None \<Rightarrow> Inr None
                        | Some (_, fs1) \<Rightarrow> Inr (Some (Some (kj_write J (state_reply W (kw_ok W) ''All Done'')), fs1)))
                  else Inr (Some (Some (kj_write J (state_reply W (kw_err W) ''kvdb is error'')), fs)))
                else Inr (Some (None, fs)))))"

text \<open>\<open>InitDPClient\<close> asks for both methods as requests; it is run when the message to connect again arrives.\<close>

definition listened :: "kv_words \<Rightarrow> (method_name \<times> u32) list" where
  "listened W = [(kw_get W, TYPE_REQUEST), (kw_set W, TYPE_REQUEST)]"

section \<open>Properties\<close>

lemma client_write_read:
  assumes "junk_ok j" "nc_file c = Some kv" "kv_wf kv" "plain_key (nc_name c @ ''/'' @ cstr key)" "length v < 2 ^ 31"
    and "SetKey big j ck c key v fs = Some (True, fs')" "can_write fs (kv_path kv (nc_name c @ ''/'' @ cstr key) False)"
    and "kv_path kv (nc_name c @ ''/'' @ cstr key) False \<notin> set (fs_unreadable fs)"
  shows "GetKey big j ck c key x fs' = Some (True, v, fs')"
proof -
  have "WriteKey big j ck kv (nc_name c @ ''/'' @ cstr key) v fs = Some (KVDB_ERR_OK, fs')"
    using assms(2,6) by (auto simp: SetKey_def GetRealKey_def)
  from kvdb_write_read [OF assms(1,3,4,5) this assms(7,8), of x] assms(2) show ?thesis by (simp add: GetKey_def GetRealKey_def)
qed

lemma put_member_map: "map_of (put_member k x ms) = (map_of ms)(k \<mapsto> x)"
  by (induction k x ms rule: put_member.induct) auto

lemma js_put_object: "js_put k x (JObject ms) = Inr (JObject (put_member k x ms))"
  by (simp add: js_put_def)

text \<open>C20. A document that a client stores through the server is what the server answers when the key is read, with the
  state and the message added: for an object that the writer prints as the parser reads it, provided the file could be
  written. A description of the key does not matter: it was checked when the value was stored.\<close>

theorem kvdb_server_roundtrip:
  assumes "junk_ok j" "ks_kvdb srv = Some c" "nc_file c = Some kv" "kv_wf kv" "plain_key (nc_name c @ ''/'' @ cstr key)"
    and "can_write fs (kv_path kv (nc_name c @ ''/'' @ cstr key) False)" "kv_path kv (nc_name c @ ''/'' @ cstr key) False \<notin> set (fs_unreadable fs)"
    and "kj_parse J setreq = Some (JObject sms)" "map_of sms (kw_key W) = Some (JString key)" "map_of sms (kw_type W) = None"
    and "map_of sms (kw_value W) = Some (JObject ms)" "kj_parse J getreq = Some (JObject gms)" "map_of gms (kw_key W) = Some (JString key)"
    and "map_of gms (kw_type W) = None" "kj_parse J (kj_write J (JObject ms)) = Some (JObject ms)" "kj_write J (JObject ms) \<noteq> []"
    and "length (kj_write J (JObject ms)) < 2 ^ 31" "cstr key \<noteq> []" "kw_get W \<noteq> kw_set W"
    and "SetKey big j ck c (cstr key) (kj_write J (JObject ms)) fs = Some (True, fs')"
  shows "OnDpMessage W J big j ck srv (kw_set W) setreq r1 fs = Inr (Some (Some (kj_write J (state_reply W (kw_ok W) ''All Done'')), fs')) \<and>
    (\<exists>ans. OnDpMessage W J big j ck srv (kw_get W) getreq r2 fs' = Inr (Some (Some (kj_write J (JObject ans)), fs')) \<and>
      map_of ans = (map_of ms)(kw_state W \<mapsto> JInt (kw_ok W), kw_err_msg W \<mapsto> JString ''All Done''))"
proof
  have sel: "select_kvdb srv (asString J JNull) = Some c" using assms(2) by (simp add: select_kvdb_def KVDB_NAME_KVDB_def KVDB_NAME_SKVDB_def KVDB_NAME_USRKVDB_def)
  show "OnDpMessage W J big j ck srv (kw_set W) setreq r1 fs = Inr (Some (Some (kj_write J (state_reply W (kw_ok W) ''All Done'')), fs'))"
    using assms(8-11,16,18,19,20) sel by (simp add: OnDpMessage_def js_get_def js_member_def Let_def)
  have cc: "cstr (cstr key) = cstr key" by (simp add: cstr_def)
  have "GetKey big j ck c (cstr key) [] fs' = Some (True, kj_write J (JObject ms), fs')"
    using client_write_read [OF assms(1,3,4) _ assms(17,20)] assms(5-7) by (simp add: cc)
  then have "get_value big j ck c (cstr key) fs' = Some (kj_write J (JObject ms), fs')" using assms(18) by (simp add: get_value_def)
  then show "\<exists>ans. OnDpMessage W J big j ck srv (kw_get W) getreq r2 fs' = Inr (Some (Some (kj_write J (JObject ans)), fs')) \<and>
      map_of ans = (map_of ms)(kw_state W \<mapsto> JInt (kw_ok W), kw_err_msg W \<mapsto> JString ''All Done'')"
    using assms(12-15) sel
    by (intro exI [of _ "put_member (kw_err_msg W) (JString ''All Done'') (put_member (kw_state W) (JInt (kw_ok W)) ms)"])
      (simp add: OnDpMessage_def js_get_def js_member_def Let_def js_put_object put_member_map)
qed

text \<open>Words, a parser and a writer for the witnesses: \<open>1\<close> is the empty object, \<open>2\<close> and \<open>3\<close> the requests.\<close>

definition words_sample :: kv_words where
  "words_sample = \<lparr>kw_key = ''key'', kw_type = ''type'', kw_value = ''value'', kw_state = ''state'', kw_err_msg = ''err_msg'', kw_ok = 0, kw_err = 1,
     kw_get = [1], kw_set = [2]\<rparr>"

definition json_sample :: kv_json where
  "json_sample =
     \<lparr>kj_parse = (\<lambda>bs. if bs = [1] then Some (JObject []) else if bs = [2] then Some (JObject [(''key'', JString ''vol''), (''value'', JObject [])])
          else if bs = [3] then Some (JObject [(''key'', JString ''vol'')]) else if bs = [4] then Some (JInt 5) else None),
      kj_write = (\<lambda>v. case v of JObject [] \<Rightarrow> [1] | JInt n \<Rightarrow> [4] | _ \<Rightarrow> [9]), kj_number = (\<lambda>_. ''5'')\<rparr>"

definition server_sample :: KvdbServer where
  "server_sample = \<lparr>ks_kvdb = Some \<lparr>nc_name = ''kv1'', nc_file = Some kv_sample\<rparr>, ks_skvdb = None, ks_usr_kvdb = None\<rparr>"

definition fs_server :: kvfs where
  "fs_server = fs_sample\<lparr>fs_dirs := [''/kv/kv1'']\<rparr>"

lemma server_paths: "kv_path kv_sample ''kv1/vol'' b = ''/kv/kv1/vol'' @ (if b then ''_bak'' else [])" "cstr ''vol'' = ''vol''"
  by (simp_all add: GetWholePath_def kv_sample_def cstr_def)

lemma server_write:
  "\<exists>fs'. SetKey False junk_sample check_sample \<lparr>nc_name = ''kv1'', nc_file = Some kv_sample\<rparr> ''vol'' [1] fs_server = Some (True, fs')"
proof -
  have "\<exists>fs'. WriteKey False junk_sample check_sample kv_sample ''kv1/vol'' [1] fs_server = Some (KVDB_ERR_OK, fs')"
    by (rule WriteKey_succeeds) (simp_all add: plain_key_def key_ok_def fs_server_def fs_sample_def can_write_def server_paths fold_of_def)
  then show ?thesis by (auto simp: SetKey_def GetRealKey_def server_paths)
qed

theorem kvdb_server_roundtrip_witness:
  "\<exists>fs' ans. OnDpMessage words_sample json_sample False junk_sample check_sample server_sample [2] [2] [] fs_server = Inr (Some (Some [9], fs')) \<and>
     OnDpMessage words_sample json_sample False junk_sample check_sample server_sample [1] [3] [] fs' = Inr (Some (Some (kj_write json_sample (JObject ans)), fs')) \<and>
     map_of ans ''state'' = Some (JInt 0)"
proof -
  let ?c = "\<lparr>nc_name = ''kv1'', nc_file = Some kv_sample\<rparr>"
  obtain fs' where w: "SetKey False junk_sample check_sample ?c ''vol'' [1] fs_server = Some (True, fs')"
    using server_write by blast
  have "can_write fs_server (kv_path kv_sample ''kv1/vol'' False)" "kv_path kv_sample ''kv1/vol'' False \<notin> set (fs_unreadable fs_server)" "plain_key ''kv1/vol''"
    by (simp_all add: plain_key_def key_ok_def fs_server_def fs_sample_def can_write_def server_paths fold_of_def)
  then show ?thesis
    using kvdb_server_roundtrip [OF sample_facts(1), of server_sample ?c kv_sample "''vol''" fs_server json_sample "[2]"
        "[(''key'', JString ''vol''), (''value'', JObject [])]" words_sample "[]" "[3]" "[(''key'', JString ''vol'')]" False check_sample fs' "[]" "[]"]
      w sample_facts(2)
    by (auto simp: server_sample_def json_sample_def words_sample_def server_paths state_reply_def)
qed

text \<open>What the server does not report: a write that was refused or failed is answered with \<open>All Done\<close>; reading a key
  whose value does not parse is answered with the buffer as it was; and a document that is no object, as a request or as
  a stored value that is read, makes the server use a pointer that is none.\<close>

theorem kvdb_server_gaps:
  assumes "kj_parse J req = Some (JObject rms)" "map_of rms (kw_key W) = Some (JString key)" "map_of rms (kw_type W) = None" "ks_kvdb srv = Some c"
    and "cstr key \<noteq> []" "kw_get W \<noteq> kw_set W"
  shows "(map_of rms (kw_value W) = Some x \<and> kj_write J x \<noteq> [] \<and> SetKey big j ck c (cstr key) (kj_write J x) fs = Some (False, fs') \<longrightarrow>
      OnDpMessage W J big j ck srv (kw_set W) req buf fs = Inr (Some (Some (kj_write J (state_reply W (kw_ok W) ''All Done'')), fs'))) \<and>
    (GetKey big j ck c (cstr key) [] fs = Some (ok, v, fs') \<longrightarrow>
      (kj_parse J v = None \<longrightarrow> OnDpMessage W J big j ck srv (kw_get W) req buf fs = Inr (Some (Some buf, fs'))) \<and>
      (kj_parse J v = Some (JInt n) \<longrightarrow> OnDpMessage W J big j ck srv (kw_get W) req buf fs = Inl BadType)) \<and>
    (kj_parse J req' = Some (JInt n) \<longrightarrow> OnDpMessage W J big j ck srv m req' buf fs = Inl BadType)"
proof -
  have sel: "select_kvdb srv [] = Some c" using assms(4) by (simp add: select_kvdb_def KVDB_NAME_KVDB_def KVDB_NAME_SKVDB_def KVDB_NAME_USRKVDB_def)
  show ?thesis using assms sel by (auto simp: OnDpMessage_def js_get_def js_member_def js_put_def Let_def get_value_def)
qed

theorem kvdb_server_gaps_witness:
  "OnDpMessage words_sample json_sample False junk_sample check_sample server_sample [1] [3] [] fs_server = Inr (Some (Some [], fs_server)) \<and>
   OnDpMessage words_sample json_sample False junk_sample check_sample server_sample [1] [4] [] fs_server = Inl BadType"
proof -
  let ?c = "\<lparr>nc_name = ''kv1'', nc_file = Some kv_sample\<rparr>"
  have "ReadFile False junk_sample kv_sample ''kv1/vol_match'' False [] fs_server = Some (KVDB_ERR_FILE_DONTEXIST, [], fs_server)"
    "ReadFile False junk_sample kv_sample ''kv1/vol'' b [] fs_server = Some (KVDB_ERR_FILE_DONTEXIST, [], fs_server)" for b
    by (rule ReadFile_absent, simp add: fs_server_def fs_sample_def)+
  then have g: "GetKey False junk_sample check_sample ?c ''vol'' [] fs_server = Some (False, [], fs_server)"
    by (simp add: GetKey_def GetRealKey_def server_paths ReadKey_def key_ok_def Let_def sample_facts)
  show ?thesis
    using kvdb_server_gaps [of json_sample "[3]" "[(''key'', JString ''vol'')]" words_sample "''vol''" server_sample ?c JNull False junk_sample
        check_sample fs_server fs_server "[]" False "[]" 5 "[4]" "[1]"] g
    by (auto simp: server_sample_def json_sample_def words_sample_def server_paths)
qed

end
