(* ===== verification/Log_Stack.thy ===== *)
theory Log_Stack
  imports Transition_Spec
begin

text \<open>
  A memory stack of the log cache, \<open>lib_bsp/eventservice/log/log_cache.cpp\<close>: blocks of one size that the threads of
  several processes take and give back without locks. The blocks that are free form a list in shared memory; one word
  holds the index of its first block and a count of the blocks taken, and is changed by compare-and-swap. The steps of
  \<open>Log_CacheMalloc\<close> and \<open>Log_CacheFree\<close> are their single reads, writes and swaps. Indices are checked against the
  number of blocks; an access outside stops the thread.

  The properties: whatever the interleaving, a block is in the list, in use or held by one thread that is taking it or giving it
  back, and never in two of these places, so no block is given out twice; and the read that leaves the array of blocks.
\<close>

section \<open>State\<close>

record MEM_STACK_NODE_S =
  nd_next :: nat
  nd_used :: bool

record MEM_STACK_S =
  ms_cnt :: u16
  ms_size :: u16
  ms_used :: u32
  ms_used_max :: u32
  ms_top :: u32
  ms_node :: "MEM_STACK_NODE_S list"

definition MEM_STACK_NODE_INVALID :: nat where "MEM_STACK_NODE_INVALID = 0xFFFF"

definition top_of :: "u32 \<Rightarrow> nat" where
  "top_of w = unat (drop_bit 16 w)"

definition ref_of :: "u32 \<Rightarrow> u32" where
  "ref_of w = w AND mask 16"

definition mk_top :: "nat \<Rightarrow> u32 \<Rightarrow> u32" where
  "mk_top i r = push_bit 16 (of_nat i) OR (r AND mask 16)"

text \<open>The nodes of a stack with all its blocks free, as \<open>Log_CacheCreate\<close> and \<open>Log_CacheReset\<close> link them; the latter
  leaves \<open>bUsedFlag\<close> as it is. With no blocks the write to the last node is outside the array.\<close>

definition link_nodes :: "bool list \<Rightarrow> mem_error + MEM_STACK_NODE_S list" where
  "link_nodes used =
     (if used = [] then Inl OutOfBounds
      else Inr (map (\<lambda>j. \<lparr>nd_next = (if j = length used - 1 then MEM_STACK_NODE_INVALID else j + 1), nd_used = used ! j\<rparr>) [0..<length used]))"

definition stack_init :: "u16 \<Rightarrow> u16 \<Rightarrow> mem_error + MEM_STACK_S" where
  "stack_init cnt sz = bindE (link_nodes (replicate (unat cnt) False)) (\<lambda>ns.
     Inr \<lparr>ms_cnt = cnt, ms_size = sz, ms_used = 0, ms_used_max = 0, ms_top = 0, ms_node = ns\<rparr>)"

definition stack_reset :: "MEM_STACK_S \<Rightarrow> mem_error + MEM_STACK_S" where
  "stack_reset s = bindE (link_nodes (map nd_used (ms_node s))) (\<lambda>ns. Inr (s\<lparr>ms_top := 0, ms_used := 0, ms_used_max := 0, ms_node := ns\<rparr>))"

section \<open>The steps of a thread\<close>

definition upd_node :: "nat \<Rightarrow> (MEM_STACK_NODE_S \<Rightarrow> MEM_STACK_NODE_S) \<Rightarrow> MEM_STACK_S \<Rightarrow> MEM_STACK_S" where
  "upd_node i f s = s\<lparr>ms_node := (ms_node s)[i := f (ms_node s ! i)]\<rparr>"

definition cas_top :: "u32 \<Rightarrow> u32 \<Rightarrow> MEM_STACK_S \<Rightarrow> bool \<times> MEM_STACK_S" where
  "cas_top old new s = (if ms_top s = old then (True, s\<lparr>ms_top := new\<rparr>) else (False, s))"

text \<open>The word that \<open>Log_CacheMalloc\<close> wants to store after it has read \<open>old\<close>.\<close>

definition malloc_new :: "u32 \<Rightarrow> MEM_STACK_S \<Rightarrow> mem_error + u32" where
  "malloc_new old s = (if top_of old < length (ms_node s) then Inr (mk_top (nd_next (ms_node s ! top_of old)) (ref_of old + 1)) else Inl OutOfBounds)"

definition malloc_link :: "nat \<Rightarrow> MEM_STACK_S \<Rightarrow> MEM_STACK_S" where
  "malloc_link i s = upd_node i (\<lambda>n. n\<lparr>nd_next := unat (ms_cnt s)\<rparr>) s"

definition malloc_flag :: "nat \<Rightarrow> MEM_STACK_S \<Rightarrow> MEM_STACK_S" where
  "malloc_flag i s = upd_node i (\<lambda>n. n\<lparr>nd_used := True\<rparr>) s"

definition malloc_count :: "MEM_STACK_S \<Rightarrow> u32 \<times> MEM_STACK_S" where
  "malloc_count s = (ms_used s + 1, s\<lparr>ms_used := ms_used s + 1\<rparr>)"

definition malloc_max :: "u32 \<Rightarrow> MEM_STACK_S \<Rightarrow> MEM_STACK_S" where
  "malloc_max n s = s\<lparr>ms_used_max := n\<rparr>"

definition free_flag :: "nat \<Rightarrow> MEM_STACK_S \<Rightarrow> bool \<times> MEM_STACK_S" where
  "free_flag i s = (if nd_used (ms_node s ! i) then (True, upd_node i (\<lambda>n. n\<lparr>nd_used := False\<rparr>) s) else (False, s))"

definition free_link :: "nat \<Rightarrow> u32 \<Rightarrow> MEM_STACK_S \<Rightarrow> MEM_STACK_S" where
  "free_link i old s = upd_node i (\<lambda>n. n\<lparr>nd_next := top_of old\<rparr>) s"

definition free_new :: "nat \<Rightarrow> u32 \<Rightarrow> u32" where
  "free_new i old = mk_top i old"

definition free_count :: "MEM_STACK_S \<Rightarrow> MEM_STACK_S" where
  "free_count s = s\<lparr>ms_used := ms_used s - 1\<rparr>"

text \<open>Both operations for a thread that runs alone: the first swap succeeds. \<open>None\<close> is a full stack.\<close>

definition stack_malloc :: "MEM_STACK_S \<Rightarrow> mem_error + nat option \<times> MEM_STACK_S" where
  "stack_malloc s =
     (let old = ms_top s
      in if top_of old = MEM_STACK_NODE_INVALID then Inr (None, s)
         else bindE (malloc_new old s) (\<lambda>new.
           let s1 = snd (cas_top old new s);
               s2 = malloc_flag (top_of old) (malloc_link (top_of old) s1);
               (n, s3) = malloc_count s2
           in Inr (Some (top_of old), if n > ms_used_max s3 then malloc_max n s3 else s3)))"

definition stack_free :: "nat \<Rightarrow> MEM_STACK_S \<Rightarrow> mem_error + MEM_STACK_S" where
  "stack_free i s =
     (if \<not> i < length (ms_node s) then Inl OutOfBounds
      else case free_flag i s of (False, s1) \<Rightarrow> Inr s1
        | (True, s1) \<Rightarrow> Inr (free_count (snd (cas_top (ms_top s1) (free_new i (ms_top s1)) (free_link i (ms_top s1) s1)))))"

section \<open>Threads\<close>

text \<open>Where a thread is. \<open>Got\<close>, \<open>Checked\<close> and \<open>Next\<close> also keep how many blocks had been taken when the word was read, which is no part of
  the program. \<open>Fault\<close> is a thread that has read outside the array.\<close>

datatype pc = Idle | Got u32 nat | Checked u32 nat | Next u32 u32 nat | Popped nat | Linked nat | Counting | Counted u32 | Storing u32
  | Freeing nat | FreeGot nat u32 | FreeLinked nat u32 | Freed | Fault

record stack_run =
  sr_stack :: MEM_STACK_S
  sr_pc :: "nat \<Rightarrow> pc"
  sr_pops :: nat

definition go :: "nat \<Rightarrow> pc \<Rightarrow> MEM_STACK_S \<Rightarrow> stack_run \<Rightarrow> stack_run" where
  "go t k s r = r\<lparr>sr_stack := s, sr_pc := (sr_pc r)(t := k)\<rparr>"

text \<open>The swap of a thread that read the word is tried before 65536 further blocks have been taken.\<close>

inductive stack_step :: "stack_run \<Rightarrow> stack_run \<Rightarrow> bool" where
  m_read: "sr_pc r t = Idle \<Longrightarrow> stack_step r (go t (Got (ms_top (sr_stack r)) (sr_pops r)) (sr_stack r) r)"
| m_full: "sr_pc r t = Got old k \<Longrightarrow> top_of old = MEM_STACK_NODE_INVALID \<Longrightarrow> old = ms_top (sr_stack r) \<Longrightarrow> stack_step r (go t Idle (sr_stack r) r)"
| m_check: "sr_pc r t = Got old k \<Longrightarrow> \<not> (top_of old = MEM_STACK_NODE_INVALID \<and> old = ms_top (sr_stack r)) \<Longrightarrow>
    stack_step r (go t (Checked old k) (sr_stack r) r)"
| m_next: "sr_pc r t = Checked old k \<Longrightarrow> malloc_new old (sr_stack r) = Inr new \<Longrightarrow> stack_step r (go t (Next old new k) (sr_stack r) r)"
| m_fault: "sr_pc r t = Checked old k \<Longrightarrow> malloc_new old (sr_stack r) = Inl e \<Longrightarrow> stack_step r (go t Fault (sr_stack r) r)"
| m_retry: "sr_pc r t = Next old new k \<Longrightarrow> cas_top old new (sr_stack r) = (False, s) \<Longrightarrow> stack_step r (go t Idle s r)"
| m_pop: "sr_pc r t = Next old new k \<Longrightarrow> cas_top old new (sr_stack r) = (True, s) \<Longrightarrow> sr_pops r < k + 2 ^ 16 \<Longrightarrow>
    stack_step r ((go t (Popped (top_of old)) s r)\<lparr>sr_pops := sr_pops r + 1\<rparr>)"
| m_link: "sr_pc r t = Popped i \<Longrightarrow> stack_step r (go t (Linked i) (malloc_link i (sr_stack r)) r)"
| m_flag: "sr_pc r t = Linked i \<Longrightarrow> stack_step r (go t Counting (malloc_flag i (sr_stack r)) r)"
| m_count: "sr_pc r t = Counting \<Longrightarrow> malloc_count (sr_stack r) = (n, s) \<Longrightarrow> stack_step r (go t (Counted n) s r)"
| m_max: "sr_pc r t = Counted n \<Longrightarrow> stack_step r (go t (if n > ms_used_max (sr_stack r) then Storing n else Idle) (sr_stack r) r)"
| m_store: "sr_pc r t = Storing n \<Longrightarrow> stack_step r (go t Idle (malloc_max n (sr_stack r)) r)"
| f_flag: "sr_pc r t = Idle \<Longrightarrow> i < length (ms_node (sr_stack r)) \<Longrightarrow> free_flag i (sr_stack r) = (ok, s) \<Longrightarrow>
    stack_step r (go t (if ok then Freeing i else Idle) s r)"
| f_read: "sr_pc r t = Freeing i \<Longrightarrow> stack_step r (go t (FreeGot i (ms_top (sr_stack r))) (sr_stack r) r)"
| f_link: "sr_pc r t = FreeGot i old \<Longrightarrow> stack_step r (go t (FreeLinked i old) (free_link i old (sr_stack r)) r)"
| f_push: "sr_pc r t = FreeLinked i old \<Longrightarrow> cas_top old (free_new i old) (sr_stack r) = (ok, s) \<Longrightarrow>
    stack_step r (go t (if ok then Freed else Freeing i) s r)"
| f_count: "sr_pc r t = Freed \<Longrightarrow> stack_step r (go t Idle (free_count (sr_stack r)) r)"

definition stack_start :: "MEM_STACK_S \<Rightarrow> stack_run" where
  "stack_start s = \<lparr>sr_stack = s, sr_pc = (\<lambda>_. Idle), sr_pops = 0\<rparr>"

section \<open>The word of the list\<close>

lemma drop_mk_top: "drop_bit 16 (push_bit 16 w OR (r AND mask 16)) = take_bit 16 (w :: u32)"
  by (rule bit_word_eqI) (auto simp: bit_simps)

lemma top_of_mk_top: "i < 2 ^ 16 \<Longrightarrow> top_of (mk_top i r) = i"
  unfolding top_of_def mk_top_def drop_mk_top unsigned_take_bit_eq by (simp add: take_bit_eq_mod unat_of_nat)

lemma unat_ref_of: "unat (ref_of w) = unat w mod 2 ^ 16"
  by (simp add: ref_of_def unsigned_take_bit_eq flip: take_bit_eq_mask) (simp add: take_bit_eq_mod)

lemma ref_of_mk_top: "ref_of (mk_top i r) = ref_of r"
  unfolding ref_of_def mk_top_def by (rule bit_word_eqI) (auto simp: bit_simps)

lemma ref_of_next:
  assumes "unat (ref_of w) = k mod 2 ^ 16"
  shows "unat (ref_of (mk_top i (ref_of w + 1))) = Suc k mod 2 ^ 16"
proof -
  have "unat (ref_of w + 1) = Suc (k mod 2 ^ 16)"
    using assms by (simp add: unat_word_ariths)
  then show ?thesis
    by (simp add: ref_of_mk_top unat_ref_of[of "ref_of w + 1"] mod_Suc_eq)
qed

section \<open>The list of free blocks\<close>

abbreviation nxt :: "MEM_STACK_S \<Rightarrow> nat \<Rightarrow> nat" where "nxt s i \<equiv> nd_next (ms_node s ! i)"
abbreviation in_use :: "MEM_STACK_S \<Rightarrow> nat \<Rightarrow> bool" where "in_use s i \<equiv> nd_used (ms_node s ! i)"

fun free_chain :: "MEM_STACK_S \<Rightarrow> nat \<Rightarrow> nat list \<Rightarrow> bool" where
  "free_chain s a [] \<longleftrightarrow> a = MEM_STACK_NODE_INVALID"
| "free_chain s a (x # xs) \<longleftrightarrow> a = x \<and> x < length (ms_node s) \<and> free_chain s (nxt s x) xs"

definition free_list :: "MEM_STACK_S \<Rightarrow> nat list \<Rightarrow> bool" where
  "free_list s fl \<longleftrightarrow> length (ms_node s) = unat (ms_cnt s) \<and> free_chain s (top_of (ms_top s)) fl \<and> distinct fl"

lemma chain_cong: "free_chain s a fl \<Longrightarrow> length (ms_node s') = length (ms_node s) \<Longrightarrow> (\<And>i. i \<in> set fl \<Longrightarrow> nxt s' i = nxt s i) \<Longrightarrow> free_chain s' a fl"
  by (induction s a fl rule: free_chain.induct) auto

lemma chain_bound: "free_chain s a fl \<Longrightarrow> set fl \<subseteq> {..<length (ms_node s)}"
  by (induction s a fl rule: free_chain.induct) auto

lemma chain_head: "free_chain s a fl \<Longrightarrow> length (ms_node s) \<le> 2 ^ 16 \<Longrightarrow> a < 2 ^ 16"
  by (cases fl) (auto simp: MEM_STACK_NODE_INVALID_def)

lemma chain_valid: "free_chain s a fl \<Longrightarrow> length (ms_node s) = unat (ms_cnt s) \<Longrightarrow> fl = [] \<longleftrightarrow> a = MEM_STACK_NODE_INVALID"
  using unat_u16_less[of "ms_cnt s"] by (cases fl) (auto simp: MEM_STACK_NODE_INVALID_def)

section \<open>The invariant\<close>

text \<open>The block that a thread is taking or giving back.\<close>

fun held :: "pc \<Rightarrow> nat option" where
  "held (Popped i) = Some i"
| "held (Linked i) = Some i"
| "held (Freeing i) = Some i"
| "held (FreeGot i old) = Some i"
| "held (FreeLinked i old) = Some i"
| "held _ = None"

text \<open>What a thread knows of the list from the word it has read, as long as no block has been taken since.\<close>

fun reader_ok :: "MEM_STACK_S \<Rightarrow> nat \<Rightarrow> nat list \<Rightarrow> pc \<Rightarrow> bool" where
  "reader_ok s n fl (Got old k) \<longleftrightarrow> k \<le> n \<and> unat (ref_of old) = k mod 2 ^ 16 \<and> (k = n \<longrightarrow> top_of old = MEM_STACK_NODE_INVALID \<or> top_of old \<in> set fl)"
| "reader_ok s n fl (Checked old k) \<longleftrightarrow> k \<le> n \<and> unat (ref_of old) = k mod 2 ^ 16 \<and> (k = n \<longrightarrow> top_of old = MEM_STACK_NODE_INVALID \<or> top_of old \<in> set fl)"
| "reader_ok s n fl (Next old new k) \<longleftrightarrow> k \<le> n \<and> unat (ref_of old) = k mod 2 ^ 16 \<and>
     (k = n \<longrightarrow> top_of old \<in> set fl \<and> new = mk_top (nxt s (top_of old)) (ref_of old + 1))"
| "reader_ok s n fl (FreeLinked i old) \<longleftrightarrow> nxt s i = top_of old"
| "reader_ok s n fl _ \<longleftrightarrow> True"

definition stack_ok :: "stack_run \<Rightarrow> nat list \<Rightarrow> bool" where
  "stack_ok r fl \<longleftrightarrow>
     free_list (sr_stack r) fl \<and>
     unat (ref_of (ms_top (sr_stack r))) = sr_pops r mod 2 ^ 16 \<and>
     (\<forall>t i. held (sr_pc r t) = Some i \<longrightarrow> i < length (ms_node (sr_stack r)) \<and> i \<notin> set fl \<and> \<not> in_use (sr_stack r) i) \<and>
     (\<forall>t u i. held (sr_pc r t) = Some i \<and> held (sr_pc r u) = Some i \<longrightarrow> t = u) \<and>
     (\<forall>i < length (ms_node (sr_stack r)). in_use (sr_stack r) i \<longrightarrow> i \<notin> set fl) \<and>
     (\<forall>i < length (ms_node (sr_stack r)). i \<in> set fl \<or> in_use (sr_stack r) i \<or> (\<exists>t. held (sr_pc r t) = Some i)) \<and>
     (\<forall>t. reader_ok (sr_stack r) (sr_pops r) fl (sr_pc r t))"

definition stack_inv :: "stack_run \<Rightarrow> bool" where
  "stack_inv r \<longleftrightarrow> (\<exists>fl. stack_ok r fl)"

lemma reader_ok_mono:
  assumes "reader_ok s n fl p"
    and "set fl \<subseteq> set fl'" and "\<And>i. i \<in> set fl \<Longrightarrow> nxt s' i = nxt s i" and "\<And>i. held p = Some i \<Longrightarrow> nxt s' i = nxt s i"
  shows "reader_ok s' n fl' p"
  using assms by (cases p) auto

lemma reader_ok_pop:
  assumes "reader_ok s n fl p" and "\<And>i. held p = Some i \<Longrightarrow> nxt s' i = nxt s i"
  shows "reader_ok s' (Suc n) fl' p"
  using assms by (cases p) auto

text \<open>A step that leaves the word of the list and the flags alone, and links at most the block that its thread holds.\<close>

definition same_list :: "MEM_STACK_S \<Rightarrow> MEM_STACK_S \<Rightarrow> nat option \<Rightarrow> bool" where
  "same_list s s' h \<longleftrightarrow>
     ms_cnt s' = ms_cnt s \<and> ms_top s' = ms_top s \<and> length (ms_node s') = length (ms_node s) \<and>
     (\<forall>j < length (ms_node s). in_use s' j = in_use s j) \<and>
     (\<forall>j < length (ms_node s). h \<noteq> Some j \<longrightarrow> nxt s' j = nxt s j)"

lemma stack_ok_local:
  assumes ok: "stack_ok r fl" and h: "held p = held (sr_pc r t)"
    and same: "same_list (sr_stack r) s' (held p)" and rd: "reader_ok s' (sr_pops r) fl p"
  shows "stack_ok (go t p s' r) fl"
proof -
  have bound: "\<And>i. i \<in> set fl \<Longrightarrow> i < length (ms_node (sr_stack r))"
    using ok chain_bound unfolding stack_ok_def free_list_def by fastforce
  have nf: "\<And>i. i \<in> set fl \<Longrightarrow> nxt s' i = nxt (sr_stack r) i"
    using same ok h bound unfolding same_list_def stack_ok_def by metis
  have fl: "free_list s' fl"
    using ok same chain_cong[OF _ _ nf] unfolding stack_ok_def free_list_def same_list_def by metis
  have other: "reader_ok s' (sr_pops r) fl (sr_pc r u)" if "u \<noteq> t" for u
  proof (rule reader_ok_mono[of "sr_stack r" _ fl])
    show "reader_ok (sr_stack r) (sr_pops r) fl (sr_pc r u)" using ok by (simp add: stack_ok_def)
    show "nxt s' i = nxt (sr_stack r) i" if "held (sr_pc r u) = Some i" for i
      using that \<open>u \<noteq> t\<close> ok h same unfolding stack_ok_def same_list_def by metis
  qed (auto simp: nf)
  have hd: "held (sr_pc (go t p s' r) u) = held (sr_pc r u)" for u
    by (simp add: go_def h)
  show ?thesis
    unfolding stack_ok_def hd using ok fl same rd other
    by (simp add: stack_ok_def same_list_def go_def)
qed

lemma stack_okD:
  assumes "stack_ok r fl"
  shows "free_chain (sr_stack r) (top_of (ms_top (sr_stack r))) fl" and "distinct fl"
    and "length (ms_node (sr_stack r)) = unat (ms_cnt (sr_stack r))"
    and "length (ms_node (sr_stack r)) < 2 ^ 16"
    and "unat (ref_of (ms_top (sr_stack r))) = sr_pops r mod 2 ^ 16"
    and "i \<in> set fl \<Longrightarrow> i < length (ms_node (sr_stack r))"
    and "held (sr_pc r t) = Some i \<Longrightarrow> i < length (ms_node (sr_stack r)) \<and> i \<notin> set fl \<and> \<not> in_use (sr_stack r) i"
    and "held (sr_pc r t) = Some i \<Longrightarrow> held (sr_pc r u) = Some i \<Longrightarrow> t = u"
    and "i < length (ms_node (sr_stack r)) \<Longrightarrow> in_use (sr_stack r) i \<Longrightarrow> i \<notin> set fl"
    and "reader_ok (sr_stack r) (sr_pops r) fl (sr_pc r t)"
    and "i < length (ms_node (sr_stack r)) \<Longrightarrow> held (sr_pc r t) \<noteq> Some i \<Longrightarrow>
      i \<in> set fl \<or> in_use (sr_stack r) i \<or> (\<exists>u. u \<noteq> t \<and> held (sr_pc r u) = Some i)"
  using assms chain_bound[of "sr_stack r" _ fl] unat_u16_less[of "ms_cnt (sr_stack r)"]
  unfolding stack_ok_def free_list_def by (auto simp: subset_iff, metis)

text \<open>A step that moves block \<open>b\<close> to another place: the list, use or the hands of its thread \<open>t\<close>.\<close>

lemma stack_ok_move:
  assumes ok: "stack_ok r fl" and b: "b < length (ms_node (sr_stack r))"
    and len: "length (ms_node s') = length (ms_node (sr_stack r))" and fl: "free_list s' fl'" and ref: "unat (ref_of (ms_top s')) = n mod 2 ^ 16"
    and others: "set fl' - {b} = set fl - {b}" "\<And>j. j \<noteq> b \<Longrightarrow> in_use s' j = in_use (sr_stack r) j"
    and thread: "held (sr_pc r t) \<in> {None, Some b}" "held p \<in> {None, Some b}"
    and before: "held (sr_pc r t) = Some b \<or> b \<in> set fl \<or> in_use (sr_stack r) b"
    and after: "[held p = Some b, b \<in> set fl', in_use s' b] \<in> {[True, False, False], [False, True, False], [False, False, True]}"
    and rd: "reader_ok s' n fl' p" "\<And>u. u \<noteq> t \<Longrightarrow> reader_ok s' n fl' (sr_pc r u)"
  shows "stack_ok ((go t p s' r)\<lparr>sr_pops := n\<rparr>) fl'"
proof -
  note D = stack_okD[OF ok]
  have free: "held (sr_pc r u) \<noteq> Some b" if "u \<noteq> t" for u
    using before D(7)[of u b] D(8)[of t b u] that by blast
  have fl_iff: "j \<in> set fl' \<longleftrightarrow> j \<in> set fl" if "j \<noteq> b" for j using others(1) that by blast
  show ?thesis
    unfolding stack_ok_def
  proof (intro conjI allI impI, goal_cases)
    case (3 u i) then show ?case using D(7)[of u i] b thread len by (auto simp: go_def split: if_splits)
  next
    case (4 u i) then show ?case
      using D(7)[of u i] free[of u] fl_iff[of i] thread after by (auto simp: go_def split: if_splits)
  next
    case (5 u i) then show ?case
      using D(7)[of u i] free[of u] others(2)[of i] thread after by (auto simp: go_def split: if_splits)
  next
    case (6 u v i) then show ?case
      using D(8)[of u i v] free[of u] free[of v] thread by (auto simp: go_def split: if_splits)
  next
    case (7 i) then show ?case using D(9)[of i] fl_iff[of i] others(2)[of i] after len by (cases "i = b") (auto simp: go_def)
  next
    case (8 i)
    show ?case
    proof (cases "i = b")
      case True then show ?thesis using after by (auto simp: go_def)
    next
      case False
      then have "i \<in> set fl \<or> in_use (sr_stack r) i \<or> (\<exists>u. u \<noteq> t \<and> held (sr_pc r u) = Some i)"
        using 8 D(11)[of i t] thread(1) len by (auto simp: go_def)
      then show ?thesis using False fl_iff[of i] others(2)[of i] by (auto simp: go_def)
    qed
  qed (use fl ref rd in \<open>auto simp: go_def\<close>)
qed

lemma mod_recent:
  assumes "k \<le> n" "n < k + m" "n mod m = k mod m"
  shows "n = (k :: nat)"
proof -
  have "m dvd n - k" using assms mod_eq_dvd_iff_nat[of k n m] by simp
  then show ?thesis using assms nat_dvd_not_less[of "n - k" m] by linarith
qed

text \<open>The four steps that move a block: out of the list, into use, out of use and back into the list.\<close>

lemma stack_ok_pop:
  assumes ok: "stack_ok r fl" and pc: "sr_pc r t = Next (ms_top (sr_stack r)) new k"
    and recent: "sr_pops r < k + 2 ^ 16"
  shows "stack_ok ((go t (Popped (top_of (ms_top (sr_stack r)))) ((sr_stack r)\<lparr>ms_top := new\<rparr>) r)\<lparr>sr_pops := sr_pops r + 1\<rparr>) (tl fl)"
proof -
  let ?s = "sr_stack r" and ?i = "top_of (ms_top (sr_stack r))"
  note D = stack_okD[OF ok]
  have rd: "k \<le> sr_pops r" "unat (ref_of (ms_top ?s)) = k mod 2 ^ 16"
    "k = sr_pops r \<Longrightarrow> ?i \<in> set fl \<and> new = mk_top (nxt ?s ?i) (ref_of (ms_top ?s) + 1)"
    using D(10)[of t] by (auto simp: pc)
  have "sr_pops r = k"
    using mod_recent[OF rd(1) recent] rd(2) D(5) by simp
  then have new: "?i \<in> set fl" "new = mk_top (nxt ?s ?i) (ref_of (ms_top ?s) + 1)" using rd(3) by auto
  then obtain xs where fl: "fl = ?i # xs"
    using D(1) by (cases fl) auto
  have ch: "free_chain ?s (nxt ?s ?i) xs" and ni: "?i \<notin> set xs" "distinct xs"
    using D(1,2) fl by (metis free_chain.simps(2), (metis distinct.simps(2))+)
  have top: "top_of new = nxt ?s ?i"
    using chain_head[OF ch] D(4) by (simp add: new(2) top_of_mk_top)
  have tl: "tl fl = xs" "set fl = insert ?i (set xs)" using fl by (metis list.sel(3), metis list.simps(15))
  have iu: "?i < length (ms_node ?s)" "\<not> in_use ?s ?i" using D(6)[OF new(1)] D(9)[of ?i] new(1) by blast+
  show ?thesis
  proof (rule stack_ok_move[OF ok iu(1)])
    show "free_list (?s\<lparr>ms_top := new\<rparr>) (tl fl)"
      using D(3) ni chain_cong[OF ch, of "?s\<lparr>ms_top := new\<rparr>"] top tl by (simp add: free_list_def)
    show "unat (ref_of (ms_top (?s\<lparr>ms_top := new\<rparr>))) = (sr_pops r + 1) mod 2 ^ 16"
      using ref_of_next[OF D(5)] by (simp add: new(2))
    show "reader_ok (?s\<lparr>ms_top := new\<rparr>) (sr_pops r + 1) (tl fl) (sr_pc r u)" for u
      using reader_ok_pop[OF D(10)[of u]] by simp
  qed (use iu ni tl pc in auto)
qed

lemma stack_ok_push:
  assumes ok: "stack_ok r fl" and pc: "sr_pc r t = FreeLinked i (ms_top (sr_stack r))"
  shows "stack_ok (go t Freed ((sr_stack r)\<lparr>ms_top := free_new i (ms_top (sr_stack r))\<rparr>) r) (i # fl)"
proof -
  let ?s' = "(sr_stack r)\<lparr>ms_top := free_new i (ms_top (sr_stack r))\<rparr>"
  note D = stack_okD[OF ok]
  have i: "i < length (ms_node (sr_stack r))" "i \<notin> set fl" "\<not> in_use (sr_stack r) i"
    using D(7)[of t i] pc by auto
  have nx: "nxt (sr_stack r) i = top_of (ms_top (sr_stack r))" using D(10)[of t] pc by simp
  have "stack_ok ((go t Freed ?s' r)\<lparr>sr_pops := sr_pops r\<rparr>) (i # fl)"
  proof (rule stack_ok_move[OF ok i(1)])
    show "free_list ?s' (i # fl)"
      using D(2,3,4) i nx chain_cong[OF D(1), of ?s'] by (simp add: free_list_def free_new_def top_of_mk_top)
    show "unat (ref_of (ms_top ?s')) = sr_pops r mod 2 ^ 16"
      using D(5) by (simp add: free_new_def ref_of_mk_top)
    show "reader_ok ?s' (sr_pops r) (i # fl) (sr_pc r u)" for u
      by (rule reader_ok_mono[OF D(10)[of u]]) auto
  qed (use i pc in auto)
  then show ?thesis by (simp add: go_def)
qed

lemma stack_ok_flag:
  assumes ok: "stack_ok r fl" and i: "i < length (ms_node (sr_stack r))"
    and h: "held (sr_pc r t) = (if v then Some i else None)" "held p = (if v then None else Some i)"
    and p: "p = Counting \<or> p = Freeing i" and use: "in_use (sr_stack r) i = (\<not> v)"
  shows "stack_ok (go t p (upd_node i (\<lambda>n. n\<lparr>nd_used := v\<rparr>) (sr_stack r)) r) fl"
proof -
  let ?s' = "upd_node i (\<lambda>n. n\<lparr>nd_used := v\<rparr>) (sr_stack r)"
  note D = stack_okD[OF ok]
  have nx: "nxt ?s' j = nxt (sr_stack r) j" for j by (cases "j = i") (simp_all add: upd_node_def i)
  have "stack_ok ((go t p ?s' r)\<lparr>sr_pops := sr_pops r\<rparr>) fl"
  proof (rule stack_ok_move[OF ok i])
    show "free_list ?s' fl"
      using D(2,3) chain_cong[OF D(1), of ?s'] nx by (simp add: free_list_def) (simp add: upd_node_def)
    show "reader_ok ?s' (sr_pops r) fl (sr_pc r u)" for u
      by (rule reader_ok_mono[OF D(10)[of u]]) (auto simp: nx)
    show "[held p = Some i, i \<in> set fl, in_use ?s' i] \<in> {[True, False, False], [False, True, False], [False, False, True]}"
      using i h use D(7)[of t i] D(9)[OF i] by (auto simp: upd_node_def)
  qed (use i h use p D(5) in \<open>auto simp: upd_node_def\<close>)
  then show ?thesis by (simp add: go_def)
qed

inductive_cases stack_stepE: "stack_step r r'"

lemma same_list_refl [simp]: "same_list s s h"
  by (simp add: same_list_def)

lemma same_list_link: "same_list s (upd_node i (\<lambda>n. n\<lparr>nd_next := v\<rparr>) s) (Some i)"
  by (cases "i < length (ms_node s)") (auto simp: same_list_def upd_node_def nth_list_update)

lemma stack_step_ok:
  assumes "stack_step r r'" and ok: "stack_ok r fl"
  shows "\<exists>fl'. stack_ok r' fl'"
proof -
  note D = stack_okD[OF ok] and loc = stack_ok_local[OF ok]
  from assms(1) show ?thesis
  proof cases
    case (m_read t)
    have "reader_ok (sr_stack r) (sr_pops r) fl (Got (ms_top (sr_stack r)) (sr_pops r))"
      using D(1,5) by (cases fl) auto
    with m_read loc[of "Got (ms_top (sr_stack r)) (sr_pops r)" t "sr_stack r"] show ?thesis by auto
  next
    case (m_check t old k) with loc[of "Checked old k" t "sr_stack r"] D(10)[of t] show ?thesis by auto
  next
    case (m_next t old k new)
    have "length (ms_node (sr_stack r)) \<le> MEM_STACK_NODE_INVALID" using D(4) by (simp add: MEM_STACK_NODE_INVALID_def)
    with m_next loc[of "Next old new k" t "sr_stack r"] D(10)[of t] show ?thesis
      by (auto simp: malloc_new_def split: if_splits)
  next
    case (m_pop t old new k s)
    then have "old = ms_top (sr_stack r)" "s = (sr_stack r)\<lparr>ms_top := new\<rparr>"
      by (auto simp: cas_top_def split: if_splits)
    with m_pop stack_ok_pop[OF ok, of t new k] show ?thesis by auto
  next
    case (m_link t i) then show ?thesis
      by (auto intro!: exI[of _ fl] loc simp: malloc_link_def same_list_link)
  next
    case (m_flag t i) with stack_ok_flag[OF ok, of i t True Counting] D(7)[of t i] show ?thesis
      by (auto simp: malloc_flag_def)
  next
    case (m_count t n s) with loc[of "Counted n" t s] show ?thesis
      by (auto simp: malloc_count_def same_list_def)
  next
    case (f_flag t i k s)
    show ?thesis
    proof (cases "in_use (sr_stack r) i")
      case True with f_flag stack_ok_flag[OF ok, of i t False "Freeing i"] show ?thesis by (auto simp: free_flag_def)
    next
      case False with f_flag loc[of Idle t "sr_stack r"] show ?thesis by (auto simp: free_flag_def)
    qed
  next
    case (f_link t i old)
    then have "nxt (free_link i old (sr_stack r)) i = top_of old" using D(7)[of t i] by (simp add: free_link_def upd_node_def)
    with f_link show ?thesis by (auto intro!: exI[of _ fl] loc simp: free_link_def same_list_link)
  next
    case (f_push t i old k s)
    show ?thesis
    proof (cases "ms_top (sr_stack r) = old")
      case True with f_push stack_ok_push[OF ok, of t i] show ?thesis by (auto simp: cas_top_def)
    next
      case False with f_push loc[of "Freeing i" t s] show ?thesis by (auto simp: cas_top_def)
    qed
  qed (auto intro!: exI[of _ fl] loc simp: same_list_def cas_top_def malloc_max_def free_count_def split: if_splits)
qed

lemma stack_step_cnt: "stack_step r r' \<Longrightarrow> ms_cnt (sr_stack r') = ms_cnt (sr_stack r)"
  by (elim stack_stepE)
    (auto simp: go_def cas_top_def malloc_link_def malloc_flag_def malloc_count_def malloc_max_def free_flag_def free_link_def free_count_def upd_node_def
      split: if_splits)

lemma link_nodes_nth:
  assumes "link_nodes us = Inr ns"
  shows "length ns = length us"
    and "j < length us \<Longrightarrow> ns ! j = \<lparr>nd_next = (if Suc j = length us then MEM_STACK_NODE_INVALID else Suc j), nd_used = us ! j\<rparr>"
  using assms by (auto simp: link_nodes_def split: if_splits)

lemma link_nodes_chain:
  assumes "link_nodes us = Inr ns" and "ms_node s = ns" and "a \<le> length us" and "length us \<le> MEM_STACK_NODE_INVALID"
  shows "free_chain s (if a = length us then MEM_STACK_NODE_INVALID else a) [a..<length us]"
  using assms(3)
proof (induction a rule: inc_induct)
  case (step a)
  then have "nxt s a = (if Suc a = length us then MEM_STACK_NODE_INVALID else Suc a)" "a < length (ms_node s)"
    using assms(2) link_nodes_nth[OF assms(1)] by auto
  with step show ?case by (simp add: upt_conv_Cons)
qed simp

lemma stack_init_ok:
  assumes "stack_init cnt sz = Inr s"
  shows "stack_ok (stack_start s) [0..<unat cnt]" and "ms_cnt s = cnt"
proof -
  obtain ns where ns: "link_nodes (replicate (unat cnt) False) = Inr ns"
    and s: "s = \<lparr>ms_cnt = cnt, ms_size = sz, ms_used = 0, ms_used_max = 0, ms_top = 0, ms_node = ns\<rparr>"
    using assms by (auto simp: stack_init_def bindE_def split: sum.splits)
  have len: "length ns = unat cnt" and unused: "\<And>i. i < unat cnt \<Longrightarrow> \<not> nd_used (ns ! i)" and pos: "0 < unat cnt"
    using ns link_nodes_nth[OF ns] by (auto simp: link_nodes_def split: if_splits)
  have "free_chain s 0 [0..<unat cnt]"
    using link_nodes_chain[OF ns, of s 0] unat_u16_less[of cnt] pos by (simp add: s MEM_STACK_NODE_INVALID_def)
  then show "stack_ok (stack_start s) [0..<unat cnt]" and "ms_cnt s = cnt"
    using len unused by (auto simp: stack_ok_def stack_start_def free_list_def s top_of_def ref_of_def)
qed

interpretation stacks: transition_system "stack_start (projr (stack_init cnt sz))" stack_step
  "\<lambda>r. cnt \<noteq> 0 \<longrightarrow> stack_inv r \<and> ms_cnt (sr_stack r) = cnt" for cnt sz
proof
  show "cnt \<noteq> 0 \<longrightarrow> stack_inv (stack_start (projr (stack_init cnt sz))) \<and> ms_cnt (sr_stack (stack_start (projr (stack_init cnt sz)))) = cnt"
  proof
    assume "cnt \<noteq> 0"
    then obtain s where "stack_init cnt sz = Inr s"
      by (auto simp: stack_init_def link_nodes_def bindE_def unat_eq_0)
    then show "stack_inv (stack_start (projr (stack_init cnt sz))) \<and> ms_cnt (sr_stack (stack_start (projr (stack_init cnt sz)))) = cnt"
      using stack_init_ok[of cnt sz s] by (auto simp: stack_inv_def) (simp add: stack_start_def)
  qed
  show "cnt \<noteq> 0 \<longrightarrow> stack_inv r' \<and> ms_cnt (sr_stack r') = cnt"
    if "cnt \<noteq> 0 \<longrightarrow> stack_inv r \<and> ms_cnt (sr_stack r) = cnt" "stack_step r r'" for r r'
    using that stack_step_ok stack_step_cnt by (metis stack_inv_def)
qed

section \<open>Running threads\<close>

text \<open>The next step of thread \<open>t\<close>, which frees \<open>i\<close> if it is idle and \<open>fr = Some i\<close>.\<close>

definition next_state :: "nat \<Rightarrow> nat option \<Rightarrow> stack_run \<Rightarrow> stack_run option" where
  "next_state t fr r =
     (let s = sr_stack r
      in case sr_pc r t of
        Idle \<Rightarrow> (case fr of None \<Rightarrow> Some (go t (Got (ms_top s) (sr_pops r)) s r)
                  | Some i \<Rightarrow> if i < length (ms_node s) then (case free_flag i s of (ok, s') \<Rightarrow> Some (go t (if ok then Freeing i else Idle) s' r)) else None)
      | Got old k \<Rightarrow> Some (go t (if top_of old = MEM_STACK_NODE_INVALID \<and> old = ms_top s then Idle else Checked old k) s r)
      | Checked old k \<Rightarrow> (case malloc_new old s of Inl e \<Rightarrow> Some (go t Fault s r) | Inr new \<Rightarrow> Some (go t (Next old new k) s r))
      | Next old new k \<Rightarrow> (case cas_top old new s of (False, s') \<Rightarrow> Some (go t Idle s' r)
                  | (True, s') \<Rightarrow> if sr_pops r < k + 2 ^ 16 then Some ((go t (Popped (top_of old)) s' r)\<lparr>sr_pops := sr_pops r + 1\<rparr>) else None)
      | Popped i \<Rightarrow> Some (go t (Linked i) (malloc_link i s) r)
      | Linked i \<Rightarrow> Some (go t Counting (malloc_flag i s) r)
      | Counting \<Rightarrow> (case malloc_count s of (n, s') \<Rightarrow> Some (go t (Counted n) s' r))
      | Counted n \<Rightarrow> Some (go t (if n > ms_used_max s then Storing n else Idle) s r)
      | Storing n \<Rightarrow> Some (go t Idle (malloc_max n s) r)
      | Freeing i \<Rightarrow> Some (go t (FreeGot i (ms_top s)) s r)
      | FreeGot i old \<Rightarrow> Some (go t (FreeLinked i old) (free_link i old s) r)
      | FreeLinked i old \<Rightarrow> (case cas_top old (free_new i old) s of (ok, s') \<Rightarrow> Some (go t (if ok then Freed else Freeing i) s' r))
      | Freed \<Rightarrow> Some (go t Idle (free_count s) r)
      | Fault \<Rightarrow> None)"

lemma m_max_steps:
  "sr_pc r t = Counted n \<Longrightarrow> n > ms_used_max (sr_stack r) \<Longrightarrow> stack_step r (go t (Storing n) (sr_stack r) r)"
  "sr_pc r t = Counted n \<Longrightarrow> \<not> n > ms_used_max (sr_stack r) \<Longrightarrow> stack_step r (go t Idle (sr_stack r) r)"
  using m_max[of r t n] by auto

lemmas branch_steps = m_pop[simplified] m_max_steps f_flag[where ok = True, simplified] f_flag[where ok = False, simplified]
  f_push[where ok = True, simplified] f_push[where ok = False, simplified]

lemma next_state_step: "next_state t fr r = Some r' \<Longrightarrow> stack_step r r'"
  by (cases "sr_pc r t")
    (auto simp: next_state_def Let_def intro: stack_step.intros branch_steps split: option.splits sum.splits prod.splits if_splits bool.splits)

fun run_threads :: "(nat \<times> nat option) list \<Rightarrow> stack_run \<Rightarrow> stack_run option" where
  "run_threads [] r = Some r"
| "run_threads ((t, fr) # xs) r = Option.bind (next_state t fr r) (run_threads xs)"

lemma run_threads_reach: "run_threads xs r = Some r' \<Longrightarrow> reach stack_step r r'"
proof (induction xs r rule: run_threads.induct)
  case (2 t fr xs r)
  then obtain q where "next_state t fr r = Some q" "run_threads xs q = Some r'" by (auto simp: bind_eq_Some_conv)
  then show ?case using 2 next_state_step reach_trans[OF _ reach_step[OF reach_refl]] by metis
qed (simp add: reach_refl)

section \<open>A thread that is not disturbed\<close>

lemma stack_malloc_list:
  assumes "free_list s fl"
  shows "stack_malloc s = Inr (None, s) \<and> fl = [] \<or>
    (\<exists>i xs s'. fl = i # xs \<and> stack_malloc s = Inr (Some i, s') \<and> free_list s' xs \<and> length (ms_node s') = length (ms_node s) \<and>
       in_use s' i \<and> (\<forall>j. j \<noteq> i \<longrightarrow> in_use s' j = in_use s j) \<and> ms_used s' = ms_used s + 1 \<and> ms_used_max s' = max (ms_used_max s) (ms_used s + 1))"
proof (cases fl)
  case Nil then show ?thesis using assms by (simp add: stack_malloc_def free_list_def Let_def)
next
  case (Cons i xs)
  let ?old = "ms_top s"
  let ?s1 = "s\<lparr>ms_top := mk_top (nxt s i) (ref_of ?old + 1)\<rparr>"
  have i: "top_of ?old = i" "i < length (ms_node s)" "free_chain s (nxt s i) xs" "i \<notin> set xs" "distinct xs" "length (ms_node s) = unat (ms_cnt s)"
    using assms Cons by (auto simp: free_list_def)
  have n16: "length (ms_node s) < 2 ^ 16" using i(6) unat_u16_less[of "ms_cnt s"] by simp
  then have valid: "i \<noteq> MEM_STACK_NODE_INVALID" and nx: "nxt s i < 2 ^ 16"
    using i(2,6) unat_u16_less[of "ms_cnt s"] chain_head[OF i(3)] by (auto simp: MEM_STACK_NODE_INVALID_def)
  let ?s2 = "malloc_flag i (malloc_link i ?s1)"
  let ?s' = "?s2\<lparr>ms_used := ms_used s + 1, ms_used_max := max (ms_used_max s) (ms_used s + 1)\<rparr>"
  have run: "stack_malloc s = Inr (Some i, ?s')"
    using i(1,2) valid
    by (auto simp: stack_malloc_def Let_def malloc_new_def bindE_def cas_top_def malloc_count_def malloc_max_def malloc_link_def malloc_flag_def upd_node_def
        max_def not_less intro!: order.antisym)
  have same: "nxt ?s' j = nxt s j" if "j \<noteq> i" for j
    using that by (simp add: malloc_flag_def malloc_link_def upd_node_def)
  have "free_chain ?s' (nxt s i) xs"
  proof (rule chain_cong[OF i(3)])
    show "nxt ?s' j = nxt s j" if "j \<in> set xs" for j using that i(4) by (intro same) auto
  qed (simp add: malloc_flag_def malloc_link_def upd_node_def)
  then have "free_list ?s' xs"
    using i nx by (simp add: free_list_def malloc_flag_def malloc_link_def upd_node_def top_of_mk_top)
  moreover have "in_use ?s' i" "\<forall>j. j \<noteq> i \<longrightarrow> in_use ?s' j = in_use s j" "length (ms_node ?s') = length (ms_node s)"
    using i(2) by (simp_all add: malloc_flag_def malloc_link_def upd_node_def)
  ultimately show ?thesis using Cons run by auto
qed

lemma stack_free_list:
  assumes "free_list s fl" and i: "i < length (ms_node s)" "i \<notin> set fl" "in_use s i"
  obtains s' where "stack_free i s = Inr s'" "free_list s' (i # fl)" "length (ms_node s') = length (ms_node s)" "ms_used s' = ms_used s - 1"
    "\<not> in_use s' i" "\<forall>j. j \<noteq> i \<longrightarrow> in_use s' j = in_use s j"
proof
  let ?s1 = "upd_node i (\<lambda>n. n\<lparr>nd_used := False\<rparr>) s"
  let ?s2 = "free_link i (ms_top s) ?s1"
  let ?s' = "?s2\<lparr>ms_top := mk_top i (ms_top s), ms_used := ms_used s - 1\<rparr>"
  show "stack_free i s = Inr ?s'"
    using i by (simp add: stack_free_def free_flag_def free_link_def free_count_def free_new_def cas_top_def upd_node_def)
  have "i < 2 ^ 16" using i(1) assms(1) unat_u16_less[of "ms_cnt s"] by (simp add: free_list_def)
  moreover have "free_chain ?s' (top_of (ms_top s)) fl"
    by (rule chain_cong) (use assms i in \<open>auto simp: free_list_def free_link_def upd_node_def nth_list_update\<close>)
  ultimately show "free_list ?s' (i # fl)"
    using assms i by (simp add: free_list_def free_link_def upd_node_def top_of_mk_top)
qed (use i in \<open>auto simp: free_link_def upd_node_def\<close>)

lemma stack_free_unused: "i < length (ms_node s) \<Longrightarrow> \<not> in_use s i \<Longrightarrow> stack_free i s = Inr s"
  by (simp add: stack_free_def free_flag_def)

text \<open>The operations of an undisturbed thread are runs of its steps.\<close>

lemma go_pc [simp]: "sr_pc (go t p s r) t = p" "sr_stack (go t p s r) = s" "sr_pops (go t p s r) = sr_pops r" "go t q s' (go t p s r) = go t q s' r"
  by (simp_all add: go_def)

lemma go_pops [simp]: "go t p s (r\<lparr>sr_pops := n\<rparr>) = (go t p s r)\<lparr>sr_pops := n\<rparr>"
  by (simp add: go_def)

lemma go_idle: "sr_pc r t = Idle \<Longrightarrow> go t Idle s r = r\<lparr>sr_stack := s\<rparr>"
  by (simp add: go_def fun_upd_idem)

lemma stack_malloc_run:
  assumes "sr_pc r t = Idle" and "stack_malloc (sr_stack r) = Inr (Some i, s')"
  shows "reach stack_step r (r\<lparr>sr_stack := s', sr_pops := sr_pops r + 1\<rparr>)"
proof -
  obtain new where new: "malloc_new (ms_top (sr_stack r)) (sr_stack r) = Inr new"
    and top: "top_of (ms_top (sr_stack r)) \<noteq> MEM_STACK_NODE_INVALID" "top_of (ms_top (sr_stack r)) = i"
    using assms(2) by (auto simp: stack_malloc_def Let_def bindE_def split: if_splits sum.splits prod.splits)
  define s2 where "s2 = malloc_flag i (malloc_link i ((sr_stack r)\<lparr>ms_top := new\<rparr>))"
  define n where "n = ms_used s2 + 1"
  let ?s3 = "s2\<lparr>ms_used := n\<rparr>"
  have s': "s' = (if n > ms_used_max ?s3 then malloc_max n ?s3 else ?s3)"
    using assms(2) new top by (auto simp: stack_malloc_def Let_def bindE_def cas_top_def malloc_count_def n_def s2_def split: if_splits)
  have "run_threads [(t, None), (t, None), (t, None), (t, None), (t, None), (t, None), (t, None), (t, None)] r = Some ((go t (if n > ms_used_max ?s3 then Storing n else Idle) ?s3 r)\<lparr>sr_pops := sr_pops r + 1\<rparr>)"
    using assms(1) new top
    by (simp add: next_state_def Let_def cas_top_def malloc_count_def n_def s2_def)
  note run = run_threads_reach[OF this]
  show ?thesis
  proof (cases "n > ms_used_max ?s3")
    case True
    have "run_threads [(t, None)] ((go t (Storing n) ?s3 r)\<lparr>sr_pops := sr_pops r + 1\<rparr>) = Some (r\<lparr>sr_stack := s', sr_pops := sr_pops r + 1\<rparr>)"
      using True s' assms(1) by (simp add: next_state_def go_idle)
    with run True show ?thesis using run_threads_reach reach_trans by fastforce
  qed (use run s' assms(1) in \<open>simp add: go_idle\<close>)
qed

lemma stack_free_run:
  assumes "sr_pc r t = Idle" and "stack_free i (sr_stack r) = Inr s'" and "in_use (sr_stack r) i"
  shows "reach stack_step r (r\<lparr>sr_stack := s'\<rparr>)"
proof -
  have "run_threads [(t, Some i), (t, None), (t, None), (t, None), (t, None)] r = Some (r\<lparr>sr_stack := s'\<rparr>)"
    using assms by (auto simp: next_state_def Let_def stack_free_def free_flag_def cas_top_def go_idle free_link_def upd_node_def split: if_splits)
  then show ?thesis by (rule run_threads_reach)
qed

section \<open>Properties\<close>

text \<open>Two runs. In the first, two threads read the same word of a stack with two blocks; thread 0 takes block 0, the swap of thread 1 fails and
  it takes block 1 on its second try. In the second, thread 0 takes the only block, thread 1 reads that the list is empty, and thread 0 gives
  the block back before thread 1 reads the word again.\<close>

definition two_takers :: "(nat \<times> nat option) list" where
  "two_takers = [(0, None), (1, None), (0, None), (1, None), (0, None), (1, None), (0, None), (1, None), (0, None), (1, None), (1, None), (1, None), (1, None)]"

definition take_and_free :: "(nat \<times> nat option) list" where
  "take_and_free = [(0, None), (0, None), (0, None), (0, None), (0, None), (0, None), (0, None), (0, None), (0, None)] @ [(1, None)] @ [(0, Some 0), (0, None), (0, None), (0, None)] @ [(1, None), (1, None)]"

lemmas stack_eval = stack_start_def stack_init_def link_nodes_def bindE_def next_state_def go_def malloc_new_def cas_top_def malloc_link_def
  malloc_flag_def malloc_count_def malloc_max_def free_flag_def free_link_def free_new_def free_count_def upd_node_def
  top_of_def ref_of_def mk_top_def MEM_STACK_NODE_INVALID_def mask_eq_exp_minus_1 Let_def

lemma two_takers_run:
  "map_option (\<lambda>r. (sr_pc r 0, sr_pc r 1, sr_stack r)) (run_threads two_takers (stack_start (projr (stack_init 2 64)))) =
   Some (Linked 0, Popped 1, \<lparr>ms_cnt = 2, ms_size = 64, ms_used = 0, ms_used_max = 0, ms_top = 0xFFFF0002,
     ms_node = [\<lparr>nd_next = 2, nd_used = False\<rparr>, \<lparr>nd_next = 0xFFFF, nd_used = False\<rparr>]\<rparr>)"
  by (simp add: two_takers_def stack_eval upt_rec)

lemma take_and_free_run:
  "map_option (\<lambda>r. (sr_pc r 1, sr_stack r)) (run_threads take_and_free (stack_start (projr (stack_init 1 64)))) =
   Some (Fault, \<lparr>ms_cnt = 1, ms_size = 64, ms_used = 1, ms_used_max = 1, ms_top = 1, ms_node = [\<lparr>nd_next = 0xFFFF, nd_used = False\<rparr>]\<rparr>)"
  by (simp add: take_and_free_def stack_eval)

text \<open>C3. Whatever threads take blocks from a stack and give blocks back, in whatever interleaving of their reads, writes and swaps, the
  free list stays a list without repetition that ends in the invalid index, and every block of the stack is in exactly one place: in the list, in use,
  or in the hands of one thread that is between the swap and the flag. So no block is given to two threads and none is lost. Each swap of
  \<open>Log_CacheMalloc\<close> is tried before 65536 further blocks have been taken, which the step relation requires.\<close>

theorem stack_exclusive:
  assumes "stack_init cnt sz = Inr s" and "reach stack_step (stack_start s) r"
  shows "\<exists>fl. free_chain (sr_stack r) (top_of (ms_top (sr_stack r))) fl \<and> distinct fl \<and>
    (\<forall>i < unat cnt. of_bool (i \<in> set fl) + of_bool (in_use (sr_stack r) i) + card {t. held (sr_pc r t) = Some i} = (1 :: nat))"
proof -
  have "cnt \<noteq> 0" using assms(1) by (auto simp: stack_init_def link_nodes_def bindE_def)
  then obtain fl where ok: "stack_ok r fl" and cnt: "ms_cnt (sr_stack r) = cnt"
    using stacks.reach_inv[of cnt sz r] assms by (auto simp: stack_inv_def)
  note D = stack_okD[OF ok]
  have "of_bool (i \<in> set fl) + of_bool (in_use (sr_stack r) i) + card {t. held (sr_pc r t) = Some i} = (1 :: nat)" if "i < unat cnt" for i
  proof (cases "\<exists>t. held (sr_pc r t) = Some i")
    case True
    then obtain t where t: "held (sr_pc r t) = Some i" by blast
    then have "{u. held (sr_pc r u) = Some i} = {t}" using D(8) by blast
    then show ?thesis using D(7)[OF t] by simp
  next
    case False
    then show ?thesis using D(9)[of i] D(11)[of i] D(3) cnt that by (auto simp: of_bool_def)
  qed
  then show ?thesis using D(1,2) by blast
qed

theorem stack_exclusive_witness:
  "\<exists>r fl. run_threads two_takers (stack_start (projr (stack_init 2 64))) = Some r \<and> sr_pc r 0 = Linked 0 \<and> sr_pc r 1 = Popped 1 \<and>
     free_chain (sr_stack r) (top_of (ms_top (sr_stack r))) fl \<and>
     (\<forall>i < 2. of_bool (i \<in> set fl) + of_bool (in_use (sr_stack r) i) + card {t. held (sr_pc r t) = Some i} = (1 :: nat))"
proof -
  have s: "stack_init 2 64 = Inr (projr (stack_init 2 64))" by (simp add: stack_eval)
  obtain r where r: "run_threads two_takers (stack_start (projr (stack_init 2 64))) = Some r" "sr_pc r 0 = Linked 0" "sr_pc r 1 = Popped 1"
    using two_takers_run by auto
  have two: "unat (2 :: u16) = 2" by simp
  obtain fl where "free_chain (sr_stack r) (top_of (ms_top (sr_stack r))) fl"
    "\<forall>i < 2. of_bool (i \<in> set fl) + of_bool (in_use (sr_stack r) i) + card {t. held (sr_pc r t) = Some i} = (1 :: nat)"
    using stack_exclusive[OF s run_threads_reach[OF r(1)]] unfolding two by blast
  with r show ?thesis by blast
qed

lemma stack_reads_outside:
  "\<exists>r. reach stack_step (stack_start (projr (stack_init 1 64))) r \<and> sr_pc r 1 = Fault \<and> top_of (ms_top (sr_stack r)) = 0 \<and> \<not> in_use (sr_stack r) 0"
proof -
  obtain r where "run_threads take_and_free (stack_start (projr (stack_init 1 64))) = Some r" "sr_pc r 1 = Fault"
    "ms_top (sr_stack r) = 1" "\<not> in_use (sr_stack r) 0"
    using take_and_free_run by auto
  then show ?thesis using run_threads_reach[of take_and_free] by (intro exI[of _ r]) (simp add: top_of_def)
qed

end
