(* ===== verification/Log_Cache.thy ===== *)
theory Log_Cache
  imports Log_Stack Fifo_Spec
begin

text \<open>
  The log cache, \<open>lib_bsp/eventservice/log/log_cache.cpp\<close>: one piece of memory, private or shared between processes, with several
  memory stacks of \<open>Log_Stack\<close> and a ring of index nodes, the queue of the log entries that wait for the server. Addresses are
  counted from the start of that memory; the sizes of the structures follow from the size \<open>l\<close> of \<open>long\<close>, 4 or 8. The
  operations are those of a thread that is not disturbed; the contents of a block are left out except the time that \<open>Log_CacheAdd\<close> writes.

  The properties: the layout that \<open>Log_CacheCreate\<close> computes fits into the memory it asks for and finds every block again; the
  ring is a first-in first-out queue; a block that was given out can always be queued; and the states that \<open>Log_CacheFree\<close> of a foreign address
  and \<open>Log_CacheReset\<close> leave behind.
\<close>

section \<open>State\<close>

record IDX_QUEUE_NODE_S =
  in_ready :: bool
  in_data :: u16
  in_stack :: byte

record IDX_QUEUE_S =
  iServerMode :: bool
  uiMemSize :: u32
  usIdxBlockCnt :: u16
  ulEnQCnt :: u32
  usHead :: u32
  usMsgCnt :: u32
  iq_off :: "u32 list"
  iq_idx :: "IDX_QUEUE_NODE_S list"
  iq_stack :: "MEM_STACK_S list"
  iq_stamp :: "(nat \<times> u32 \<times> u32) list"

type_synonym LOG_CACHE_CFG_S = "u16 \<times> u16"

definition log_cache_cfg :: "LOG_CACHE_CFG_S list" where
  "log_cache_cfg = [(32, 64), (64, 512), (128, 1024), (256, 1024), (1024, 16), (2048, 8), (4096, 8)]"

definition sizeof_IDX_QUEUE_S :: nat where "sizeof_IDX_QUEUE_S = 36"
definition sizeof_MEM_STACK_S :: nat where "sizeof_MEM_STACK_S = 16"
definition sizeof_node :: "nat \<Rightarrow> nat" where "sizeof_node l = 2 * l"

section \<open>Creation\<close>

definition ML_ALIGN32 :: "nat \<Rightarrow> nat" where
  "ML_ALIGN32 x = (x + 3) div 4 * 4"

definition block_size :: "u16 \<Rightarrow> u16" where
  "block_size sz = of_nat (ML_ALIGN32 (unat sz)) + 4"

definition cache_idx_cnt :: "LOG_CACHE_CFG_S list \<Rightarrow> u16" where
  "cache_idx_cnt cfgs = 2 + sum_list (map snd cfgs)"

definition cache_mem_size :: "nat \<Rightarrow> LOG_CACHE_CFG_S list \<Rightarrow> u32" where
  "cache_mem_size l cfgs =
     of_nat (sizeof_IDX_QUEUE_S + length cfgs * 4 + 2 * sizeof_node l) +
     sum_list (map (\<lambda>(sz, num). of_nat (sizeof_MEM_STACK_S + unat num * unat (block_size sz + of_nat (sizeof_node l) + of_nat (sizeof_node l)))) cfgs)"

text \<open>The bytes from the head of a stack to its blocks, and the bytes of its blocks.\<close>

definition stack_head_size :: "nat \<Rightarrow> MEM_STACK_S \<Rightarrow> nat" where
  "stack_head_size l s = sizeof_MEM_STACK_S + sizeof_node l * unat (ms_cnt s)"

definition MemStackSize :: "MEM_STACK_S \<Rightarrow> nat" where
  "MemStackSize s = unat (ms_cnt s) * unat (ms_size s)"

fun place_stacks :: "nat \<Rightarrow> u32 \<Rightarrow> u32 \<Rightarrow> LOG_CACHE_CFG_S list \<Rightarrow> mem_error + (u32 \<times> MEM_STACK_S) list" where
  "place_stacks l m off [] = Inr []"
| "place_stacks l m off ((sz, num) # cfgs) =
     bindE (stack_init num (block_size sz)) (\<lambda>s.
       let n = stack_head_size l s + MemStackSize s
       in if sizeof_IDX_QUEUE_S + unat off + n \<le> unat m
          then bindE (place_stacks l m (off + of_nat n) cfgs) (\<lambda>ps. Inr ((off, s) # ps))
          else Inl OutOfBounds)"

text \<open>The loop that looks for a configuration without blocks or without a size leaves only itself, so it decides nothing. \<open>alloc\<close> is
  \<open>malloc\<close> or \<open>ShmCreate\<close>: whether there is memory of that size.\<close>

definition Log_CacheCreate :: "nat \<Rightarrow> (u32 \<Rightarrow> bool) \<Rightarrow> LOG_CACHE_CFG_S list \<Rightarrow> bool \<Rightarrow> IDX_QUEUE_S option \<Rightarrow> mem_error + bool \<times> IDX_QUEUE_S option" where
  "Log_CacheCreate l alloc cfgs multi g =
     (if g \<noteq> None then Inr (True, g)
      else if cfgs = [] then Inr (False, g)
      else if \<not> alloc (cache_mem_size l cfgs) then Inr (False, g)
      else let cnt = cache_idx_cnt cfgs
           in bindE (place_stacks l (cache_mem_size l cfgs) (of_nat (length cfgs * 4 + unat cnt * sizeof_node l)) cfgs) (\<lambda>ps.
             Inr (True, Some \<lparr>iServerMode = multi, uiMemSize = cache_mem_size l cfgs, usIdxBlockCnt = cnt, ulEnQCnt = 1, usHead = 0, usMsgCnt = 0,
               iq_off = map fst ps, iq_idx = replicate (unat cnt) \<lparr>in_ready = False, in_data = 0, in_stack = 0\<rparr>,
               iq_stack = map snd ps, iq_stamp = []\<rparr>)))"

section \<open>Blocks and addresses\<close>

definition MemStackData :: "nat \<Rightarrow> IDX_QUEUE_S \<Rightarrow> nat \<Rightarrow> nat \<Rightarrow> nat" where
  "MemStackData l q i j =
     sizeof_IDX_QUEUE_S + unat (iq_off q ! i) + stack_head_size l (iq_stack q ! i) + unat (ms_size (iq_stack q ! i)) * j"

text \<open>The test of the search loops of \<open>Log_CacheAdd\<close> and \<open>Log_CacheFree\<close>, and the first stack that passes it with the index of the block.\<close>

definition in_stack_block :: "nat \<Rightarrow> IDX_QUEUE_S \<Rightarrow> nat \<Rightarrow> nat \<Rightarrow> bool" where
  "in_stack_block l q a i \<longleftrightarrow>
     MemStackData l q i 0 \<le> a \<and> a < MemStackData l q i 0 + MemStackSize (iq_stack q ! i) \<and>
     (a - MemStackData l q i 0) mod unat (ms_size (iq_stack q ! i)) = 0"

definition find_block :: "nat \<Rightarrow> IDX_QUEUE_S \<Rightarrow> nat \<Rightarrow> (nat \<times> nat) option" where
  "find_block l q a =
     map_option (\<lambda>i. (i, (a - MemStackData l q i 0) div unat (ms_size (iq_stack q ! i))))
       (find (in_stack_block l q a) [0..<length (iq_stack q)])"

section \<open>The operations\<close>

definition set_stack :: "nat \<Rightarrow> MEM_STACK_S \<Rightarrow> IDX_QUEUE_S \<Rightarrow> IDX_QUEUE_S" where
  "set_stack i s q = q\<lparr>iq_stack := (iq_stack q)[i := s]\<rparr>"

text \<open>\<open>usDataBlockSize - MEM_STACK_DATA_PADDING\<close> has type \<open>size_t\<close>.\<close>

definition fits :: "nat \<Rightarrow> u32 \<Rightarrow> MEM_STACK_S \<Rightarrow> bool" where
  "fits l sz s \<longleftrightarrow> int (unat sz) \<le> (int (unat (ms_size s)) - 4) mod 2 ^ (8 * l)"

definition Log_CacheMalloc :: "nat \<Rightarrow> u32 \<Rightarrow> IDX_QUEUE_S option \<Rightarrow> mem_error + nat option \<times> IDX_QUEUE_S option" where
  "Log_CacheMalloc l sz g =
     (case g of None \<Rightarrow> Inl NullPointer
      | Some q \<Rightarrow> (case find (\<lambda>i. fits l sz (iq_stack q ! i)) [0..<length (iq_stack q)] of
          None \<Rightarrow> Inr (None, g)
        | Some i \<Rightarrow> bindE (stack_malloc (iq_stack q ! i)) (\<lambda>(b, s).
            Inr (map_option (MemStackData l q i) b, Some (set_stack i s q)))))"

definition Log_CacheFree :: "nat \<Rightarrow> int option \<Rightarrow> IDX_QUEUE_S option \<Rightarrow> mem_error + int \<times> IDX_QUEUE_S option" where
  "Log_CacheFree l p g =
     (case (g, p) of
        (Some q, Some a) \<Rightarrow>
          if a < 0 \<or> int (unat (uiMemSize q)) < a then Inr (-1, g)
          else if iq_stack q = [] then Inr (-2, g)
          else let (i, j) = (case find_block l q (nat a) of Some b \<Rightarrow> b | None \<Rightarrow> (length (iq_stack q) - 1, 0))
               in bindE (stack_free j (iq_stack q ! i)) (\<lambda>s. Inr (0, Some (set_stack i s q)))
      | _ \<Rightarrow> Inr (-1, g))"

text \<open>The counter of entries and the two places of the ring that it names; when it wraps to 0 it goes on from the place of the ring.\<close>

definition enq_next :: "u32 \<Rightarrow> u16 \<Rightarrow> u32 \<times> nat" where
  "enq_next old cnt =
     (let new = old + 1; tail = unat old mod unat cnt
      in if new = 0 then (let nx = (tail + 1) mod unat cnt in (of_nat nx, nx))
         else (new, unat new mod unat cnt))"

definition LOG_OK :: int where "LOG_OK = 0"
definition LOG_ERROR :: int where "LOG_ERROR = -1"

definition Log_CacheAdd :: "nat \<Rightarrow> u32 \<Rightarrow> nat \<Rightarrow> IDX_QUEUE_S option \<Rightarrow> mem_error + int \<times> IDX_QUEUE_S option" where
  "Log_CacheAdd l now a g =
     (case g of None \<Rightarrow> Inl NullPointer
      | Some q \<Rightarrow> (case find_block l q a of None \<Rightarrow> Inr (LOG_ERROR, g)
        | Some (i, j) \<Rightarrow>
            let tail = unat (ulEnQCnt q) mod unat (usIdxBlockCnt q);
                (new, nx) = enq_next (ulEnQCnt q) (usIdxBlockCnt q)
            in if nx = unat (usHead q) then Inr (LOG_ERROR, g)
               else Inr (LOG_OK, Some (q\<lparr>ulEnQCnt := new, usMsgCnt := usMsgCnt q + 1, iq_stamp := (a, now, 0) # iq_stamp q,
                 iq_idx := (iq_idx q)[tail := \<lparr>in_ready = True, in_data = of_nat j, in_stack = of_nat i\<rparr>]\<rparr>))))"

definition Log_CacheGet :: "nat \<Rightarrow> IDX_QUEUE_S option \<Rightarrow> nat option \<times> IDX_QUEUE_S option" where
  "Log_CacheGet l g =
     (case g of None \<Rightarrow> (None, g)
      | Some q \<Rightarrow>
          let nx = unat (usHead q + 1) mod unat (usIdxBlockCnt q);
              tail = unat (ulEnQCnt q) mod unat (usIdxBlockCnt q);
              node = iq_idx q ! nx
          in if nx = tail then (None, g)
             else if in_ready node
             then (Some (MemStackData l q (unat (in_stack node)) (unat (in_data node))),
                   Some (q\<lparr>iq_idx := (iq_idx q)[nx := node\<lparr>in_ready := False\<rparr>], usHead := of_nat nx, usMsgCnt := usMsgCnt q - 1\<rparr>))
             else (None, g))"

definition Log_CacheCnt :: "IDX_QUEUE_S option \<Rightarrow> int" where
  "Log_CacheCnt g = (case g of None \<Rightarrow> -1 | Some q \<Rightarrow> sint (usMsgCnt q))"

record LOG_CACHE_INFO_S =
  usBlockCnt :: u16
  usBlockSize :: u16
  usBlockCntUsed :: u16
  usBlockCntUsedMax :: u16

text \<open>\<open>room\<close> is the array of the caller, \<open>None\<close> for a null pointer; the result is the number returned, the number of stacks
  stored through \<open>pucQueueCnt\<close> and the entries written.\<close>

definition Log_CacheInfo :: "nat option \<Rightarrow> IDX_QUEUE_S option \<Rightarrow> int \<times> nat option \<times> LOG_CACHE_INFO_S list" where
  "Log_CacheInfo room g =
     (case g of None \<Rightarrow> (-1, None, [])
      | Some q \<Rightarrow>
          (case room of None \<Rightarrow> (0, Some (length (iq_stack q)), [])
           | Some n \<Rightarrow> if n = 0 then (-1, None, [])
               else let xs = map (\<lambda>s. \<lparr>usBlockCnt = ms_cnt s, usBlockSize = ms_size s - 4, usBlockCntUsed = ucast (ms_used s), usBlockCntUsedMax = ucast (ms_used_max s)\<rparr>)
                     (take n (iq_stack q))
                    in (int (length xs), Some (length (iq_stack q)), xs)))"

fun reset_stacks :: "MEM_STACK_S list \<Rightarrow> mem_error + MEM_STACK_S list" where
  "reset_stacks [] = Inr []"
| "reset_stacks (s # ss) = bindE (stack_reset s) (\<lambda>s'. bindE (reset_stacks ss) (\<lambda>ss'. Inr (s' # ss')))"

definition Log_CacheReset :: "IDX_QUEUE_S option \<Rightarrow> mem_error + bool \<times> IDX_QUEUE_S option" where
  "Log_CacheReset g =
     (case g of None \<Rightarrow> Inr (False, g)
      | Some q \<Rightarrow> bindE (reset_stacks (iq_stack q)) (\<lambda>ss. Inr (True, Some (q\<lparr>iq_stack := ss, usHead := 0, ulEnQCnt := 1, usMsgCnt := 0\<rparr>))))"

definition Log_CacheDestory :: "IDX_QUEUE_S option \<Rightarrow> IDX_QUEUE_S option" where
  "Log_CacheDestory g = None"

section \<open>The ring of index nodes\<close>

abbreviation idx_n :: "IDX_QUEUE_S \<Rightarrow> nat" where "idx_n q \<equiv> unat (usIdxBlockCnt q)"
abbreviation idx_tail :: "IDX_QUEUE_S \<Rightarrow> nat" where "idx_tail q \<equiv> unat (ulEnQCnt q) mod idx_n q"
abbreviation idx_first :: "IDX_QUEUE_S \<Rightarrow> nat" where "idx_first q \<equiv> (unat (usHead q) + 1) mod idx_n q"

definition queue_len :: "IDX_QUEUE_S \<Rightarrow> nat" where
  "queue_len q = (idx_tail q + idx_n q - idx_first q) mod idx_n q"

definition idx_node :: "IDX_QUEUE_S \<Rightarrow> nat \<Rightarrow> IDX_QUEUE_NODE_S" where
  "idx_node q k = iq_idx q ! ((idx_first q + k) mod idx_n q)"

definition node_block :: "IDX_QUEUE_NODE_S \<Rightarrow> nat \<times> nat" where
  "node_block nd = (unat (in_stack nd), unat (in_data nd))"

text \<open>The blocks that wait, in the order in which they were added.\<close>

definition queue_items :: "IDX_QUEUE_S \<Rightarrow> (nat \<times> nat) list" where
  "queue_items q = map (\<lambda>k. node_block (idx_node q k)) [0..<queue_len q]"

definition idx_ok :: "IDX_QUEUE_S \<Rightarrow> bool" where
  "idx_ok q \<longleftrightarrow> 2 \<le> idx_n q \<and> length (iq_idx q) = idx_n q \<and> unat (usHead q) < idx_n q \<and> queue_len q + 2 \<le> idx_n q \<and>
     (\<forall>k < queue_len q. in_ready (idx_node q k))"

lemma unat_inc: "old + 1 \<noteq> 0 \<Longrightarrow> unat (old + 1) = unat old + 1" for old :: u32
proof -
  assume nz: "old + 1 \<noteq> 0"
  have eq: "unat (old + 1) = (unat old + 1) mod 2 ^ 32" by (simp add: unat_word_ariths)
  have "unat (old + 1) \<noteq> 0" using nz by (simp only: unat_eq_0 not_False_eq_True)
  then have "unat old + 1 < 2 ^ 32" using eq unat_u32_less[of old] by (cases "unat old + 1 = 2 ^ 32") auto
  then show ?thesis using eq by simp
qed

lemma enq_next_ring:
  assumes "0 < unat cnt"
  shows "snd (enq_next old cnt) = (unat old mod unat cnt + 1) mod unat cnt"
    and "unat (fst (enq_next old cnt)) mod unat cnt = (unat old mod unat cnt + 1) mod unat cnt"
proof -
  have "unat (of_nat ((unat old mod unat cnt + 1) mod unat cnt) :: u32) = (unat old mod unat cnt + 1) mod unat cnt"
    using mod_less_divisor[OF assms, of "unat old mod unat cnt + 1"] unat_u16_less[of cnt] by (simp add: unat_of_nat take_bit_eq_mod)
  with unat_inc[of old] show "snd (enq_next old cnt) = (unat old mod unat cnt + 1) mod unat cnt"
    and "unat (fst (enq_next old cnt)) mod unat cnt = (unat old mod unat cnt + 1) mod unat cnt"
    by (auto simp: enq_next_def Let_def mod_Suc_eq)
qed

lemma ring_tail: "t < S \<Longrightarrow> f < S \<Longrightarrow> t = (f + (t + S - f) mod S) mod (S :: nat)"
  by (simp add: mod_add_right_eq)

lemma ring_full: "h < S \<Longrightarrow> n + 2 \<le> S \<Longrightarrow> (((h + 1) mod S + n) mod S + 1) mod S = h \<longleftrightarrow> n + 2 = (S :: nat)"
  using mod_add_wrap[of h S "n + 2"] by (auto simp: mod_simps ac_simps split: if_splits)

lemma idx_tail_ring: "idx_ok q \<Longrightarrow> idx_tail q = (idx_first q + queue_len q) mod idx_n q"
  unfolding queue_len_def by (rule ring_tail) (auto simp: idx_ok_def)

lemma queue_lenI: "idx_tail q = (idx_first q + n) mod idx_n q \<Longrightarrow> n < idx_n q \<Longrightarrow> queue_len q = n"
  using ring_dist[of "idx_first q" "idx_n q" n] by (simp add: queue_len_def)

text \<open>The place after the tail is the head exactly when all places but two are taken.\<close>

lemma idx_full: "idx_ok q \<Longrightarrow> (idx_tail q + 1) mod idx_n q = unat (usHead q) \<longleftrightarrow> queue_len q + 2 = idx_n q"
  using idx_tail_ring[of q] ring_full[of "unat (usHead q)" "idx_n q" "queue_len q"] by (simp add: idx_ok_def)

text \<open>Adding block \<open>(i, j)\<close> and taking the first block, on the ring.\<close>

definition idx_add :: "nat \<times> nat \<Rightarrow> IDX_QUEUE_S \<Rightarrow> IDX_QUEUE_S" where
  "idx_add b q = q\<lparr>ulEnQCnt := fst (enq_next (ulEnQCnt q) (usIdxBlockCnt q)), usMsgCnt := usMsgCnt q + 1,
     iq_idx := (iq_idx q)[idx_tail q := \<lparr>in_ready = True, in_data = of_nat (snd b), in_stack = of_nat (fst b)\<rparr>]\<rparr>"

definition idx_get :: "IDX_QUEUE_S \<Rightarrow> IDX_QUEUE_S" where
  "idx_get q = q\<lparr>iq_idx := (iq_idx q)[idx_first q := (iq_idx q ! idx_first q)\<lparr>in_ready := False\<rparr>], usHead := of_nat (idx_first q), usMsgCnt := usMsgCnt q - 1\<rparr>"

lemma ring_succ: "((f + n) mod S + 1) mod S = (f + (n + 1)) mod (S :: nat)"
  by (metis add.assoc mod_add_left_eq)

lemma ring_pred: "0 < n \<Longrightarrow> ((f + 1) mod S + (n - 1)) mod S = (f + n) mod (S :: nat)"
  using mod_add_left_eq[of "f + 1" S "n - 1"] by (cases n) auto

lemma idx_add_ok:
  assumes ok: "idx_ok q" and room: "queue_len q + 2 < idx_n q" and b: "fst b < 2 ^ 8" "snd b < 2 ^ 16"
  shows "idx_ok (idx_add b q)" and "queue_items (idx_add b q) = queue_items q @ [b]"
proof -
  let ?n = "queue_len q" and ?q = "idx_add b q" and ?c = "idx_n q"
  have c: "0 < ?c" "length (iq_idx q) = ?c" "idx_tail q < ?c" using ok by (auto simp: idx_ok_def)
  have t: "idx_tail q = (idx_first q + ?n) mod ?c" by (rule idx_tail_ring[OF ok])
  have same: "idx_n ?q = ?c" "idx_first ?q = idx_first q" "unat (usHead ?q) = unat (usHead q)" by (simp_all add: idx_add_def)
  have "idx_tail ?q = (idx_tail q + 1) mod ?c" using enq_next_ring(2)[OF c(1)] by (simp add: idx_add_def)
  also have "\<dots> = (idx_first q + (?n + 1)) mod ?c" unfolding t by (rule ring_succ)
  finally have "idx_tail ?q = (idx_first ?q + (?n + 1)) mod idx_n ?q" using same by simp
  from queue_lenI[OF this] have len: "queue_len ?q = ?n + 1" using room same by simp
  have old: "idx_node ?q k = idx_node q k" if "k < ?n" for k
  proof -
    have "(idx_first q + k) mod ?c \<noteq> idx_tail q"
      using ring_inj[of "idx_first q" ?c k ?n] that c(1) room t by (metis mod_less_divisor add_lessD1 less_trans nat_neq_iff)
    then show ?thesis unfolding idx_node_def same by (simp add: idx_add_def)
  qed
  have new: "idx_node ?q ?n = \<lparr>in_ready = True, in_data = of_nat (snd b), in_stack = of_nat (fst b)\<rparr>"
    unfolding idx_node_def same t[symmetric] using c by (simp add: idx_add_def)
  show "idx_ok ?q"
    using ok room len old new unfolding idx_ok_def same by (auto simp: less_Suc_eq) (simp add: idx_add_def)
  have "node_block (idx_node ?q ?n) = b"
    using b by (simp add: new node_block_def unat_of_nat take_bit_eq_mod)
  then show "queue_items ?q = queue_items q @ [b]"
    using old by (simp add: queue_items_def len)
qed

lemma idx_get_ok:
  assumes ok: "idx_ok q" and ne: "0 < queue_len q"
  shows "idx_ok (idx_get q)" and "queue_items q = node_block (iq_idx q ! idx_first q) # queue_items (idx_get q)"
    and "in_ready (iq_idx q ! idx_first q)" and "idx_first q \<noteq> idx_tail q"
proof -
  let ?n = "queue_len q" and ?q = "idx_get q" and ?c = "idx_n q"
  have c: "0 < ?c" "length (iq_idx q) = ?c" "?n < ?c" "idx_first q < ?c" using ok by (auto simp: idx_ok_def)
  have t: "idx_tail q = (idx_first q + ?n) mod ?c" by (rule idx_tail_ring[OF ok])
  have hd: "unat (usHead ?q) = idx_first q"
    using c(4) unat_u16_less[of "usIdxBlockCnt q"] by (simp add: idx_get_def unat_of_nat take_bit_eq_mod)
  have same: "idx_n ?q = ?c" "idx_tail ?q = idx_tail q" "idx_first ?q = (idx_first q + 1) mod ?c" unfolding hd by (simp_all add: idx_get_def)
  have "idx_tail ?q = (idx_first ?q + (?n - 1)) mod idx_n ?q"
    using ring_pred[OF ne, of "idx_first q" ?c] t same by (simp only:)
  from queue_lenI[OF this] have len: "queue_len ?q = ?n - 1" using c same by simp
  have node: "idx_node ?q k = idx_node q (Suc k)" if "k < ?n - 1" for k
  proof -
    have "(idx_first q + Suc k) mod ?c \<noteq> idx_first q"
      using ring_inj[of "idx_first q" ?c "Suc k" 0] that c by fastforce
    moreover have "((idx_first q + 1) mod ?c + k) mod ?c = (idx_first q + Suc k) mod ?c"
      using ring_pred[of "Suc k" "idx_first q" ?c] by (simp only: zero_less_Suc diff_Suc_1)
    ultimately show ?thesis unfolding idx_node_def hd same(1) by (simp add: idx_get_def)
  qed
  have hd0: "idx_node q 0 = iq_idx q ! idx_first q" by (simp add: idx_node_def)
  show "idx_ok ?q"
    using ok node c unfolding idx_ok_def same len hd by (auto simp: idx_get_def)
  have "[0..<?n] = 0 # map Suc [0..<?n - 1]" using ne by (simp add: map_Suc_upt upt_conv_Cons)
  then show "queue_items q = node_block (iq_idx q ! idx_first q) # queue_items ?q"
    using node hd0 by (simp add: queue_items_def len)
  show "in_ready (iq_idx q ! idx_first q)" using ok ne hd0 by (metis idx_ok_def)
  show "idx_first q \<noteq> idx_tail q" using ring_inj[of "idx_first q" ?c 0 ?n] c ne t by auto
qed

section \<open>The layout of the memory\<close>

definition stack_end :: "nat \<Rightarrow> IDX_QUEUE_S \<Rightarrow> nat \<Rightarrow> nat" where
  "stack_end l q i = MemStackData l q i 0 + MemStackSize (iq_stack q ! i)"

text \<open>The stacks lie one after the other behind the ring, within the memory of the cache.\<close>

definition layout_ok :: "nat \<Rightarrow> IDX_QUEUE_S \<Rightarrow> bool" where
  "layout_ok l q \<longleftrightarrow>
     length (iq_off q) = length (iq_stack q) \<and> iq_stack q \<noteq> [] \<and> length (iq_stack q) \<le> 255 \<and>
     sizeof_IDX_QUEUE_S + length (iq_stack q) * 4 + idx_n q * sizeof_node l \<le> sizeof_IDX_QUEUE_S + unat (iq_off q ! 0) \<and>
     (\<forall>i < length (iq_stack q). 4 \<le> unat (ms_size (iq_stack q ! i)) \<and> stack_end l q i \<le> unat (uiMemSize q)) \<and>
     (\<forall>i. Suc i < length (iq_stack q) \<longrightarrow> sizeof_IDX_QUEUE_S + unat (iq_off q ! Suc i) = stack_end l q i)"

lemma MemStackData_0: "MemStackData l q i j = MemStackData l q i 0 + unat (ms_size (iq_stack q ! i)) * j"
  by (simp add: MemStackData_def)

lemma stack_end_le:
  assumes lay: "layout_ok l q" and "i < k" "k < length (iq_stack q)"
  shows "stack_end l q i \<le> MemStackData l q k 0"
  using assms(2,3)
proof (induction k rule: less_induct)
  case (less k)
  then obtain m where k: "k = Suc m" by (cases k) auto
  have base: "stack_end l q m = sizeof_IDX_QUEUE_S + unat (iq_off q ! k)" using lay less.prems k by (simp add: layout_ok_def)
  also have "\<dots> \<le> MemStackData l q k 0" by (simp add: MemStackData_def)
  finally have m: "stack_end l q m \<le> MemStackData l q k 0" .
  show ?case
  proof (cases "i = m")
    case False
    then have "stack_end l q i \<le> MemStackData l q m 0" using less k by simp
    also have "\<dots> \<le> stack_end l q m" by (simp add: stack_end_def)
    finally show ?thesis using m by simp
  qed (use m in simp)
qed

lemma block_in_stack:
  assumes lay: "layout_ok l q" and i: "i < length (iq_stack q)" and j: "j < unat (ms_cnt (iq_stack q ! i))"
  shows "MemStackData l q i j + unat (ms_size (iq_stack q ! i)) \<le> stack_end l q i"
proof -
  have "unat (ms_size (iq_stack q ! i)) * Suc j \<le> unat (ms_size (iq_stack q ! i)) * unat (ms_cnt (iq_stack q ! i))"
    using j by (intro mult_le_mono) auto
  then show ?thesis by (simp add: stack_end_def MemStackData_0[of l q i j] MemStackSize_def mult.commute)
qed

lemma find_block_ok:
  assumes lay: "layout_ok l q" and i: "i < length (iq_stack q)" and j: "j < unat (ms_cnt (iq_stack q ! i))"
  shows "find_block l q (MemStackData l q i j) = Some (i, j)"
proof -
  let ?a = "MemStackData l q i j" and ?z = "unat (ms_size (iq_stack q ! i))"
  have z: "0 < ?z" using lay i by (auto simp: layout_ok_def)
  have a: "?a - MemStackData l q i 0 = ?z * j" "MemStackData l q i 0 \<le> ?a" by (simp_all add: MemStackData_0[of l q i j])
  have here: "in_stack_block l q ?a i"
    using block_in_stack[OF assms] z by (simp add: in_stack_block_def a stack_end_def)
  have earlier: "\<not> in_stack_block l q ?a k" if "k < i" for k
    using stack_end_le[OF lay that i] a(2) by (simp add: in_stack_block_def stack_end_def)
  have "find (in_stack_block l q ?a) [0..<length (iq_stack q)] = Some i"
    using here earlier i by (auto simp: find_Some_iff intro!: exI[of _ i])
  then show ?thesis using z by (simp add: find_block_def a)
qed

text \<open>Two blocks have no byte in common.\<close>

lemma blocks_disjoint:
  assumes lay: "layout_ok l q" and b: "(i, j) \<noteq> (i', j')"
    and i: "i < length (iq_stack q)" "j < unat (ms_cnt (iq_stack q ! i))"
    and i': "i' < length (iq_stack q)" "j' < unat (ms_cnt (iq_stack q ! i'))"
  shows "MemStackData l q i j + unat (ms_size (iq_stack q ! i)) \<le> MemStackData l q i' j' \<or>
    MemStackData l q i' j' + unat (ms_size (iq_stack q ! i')) \<le> MemStackData l q i j"
proof -
  have far: "MemStackData l q i j + unat (ms_size (iq_stack q ! i)) \<le> MemStackData l q k m"
    if "i < k" "k < length (iq_stack q)" "i < length (iq_stack q)" "j < unat (ms_cnt (iq_stack q ! i))" for i j k m
    using block_in_stack[OF lay that(3,4)] stack_end_le[OF lay that(1,2)] MemStackData_0[of l q k m] by linarith
  show ?thesis
  proof (cases "i = i'")
    case True
    have step: "MemStackData l q i m + unat (ms_size (iq_stack q ! i)) \<le> MemStackData l q i n" if "m < n" for m n
      using mult_le_mono2[of "Suc m" n "unat (ms_size (iq_stack q ! i))"] that
      by (simp add: MemStackData_0[of l q i m] MemStackData_0[of l q i n])
    show ?thesis using True b step[of j j'] step[of j' j] by (cases "j < j'") auto
  next
    case False
    then show ?thesis using far[of i i' j j'] far[of i' i j' j] i i' by (cases "i < i'") auto
  qed
qed

section \<open>Creation gives the layout\<close>

definition region :: "nat \<Rightarrow> LOG_CACHE_CFG_S \<Rightarrow> nat" where
  "region l c = sizeof_MEM_STACK_S + sizeof_node l * unat (snd c) + unat (snd c) * unat (block_size (fst c))"

lemma stack_init_fields: "stack_init num sz = Inr s \<Longrightarrow> ms_cnt s = num \<and> ms_size s = sz \<and> length (ms_node s) = unat num"
  by (auto simp: stack_init_def bindE_Inr_iff link_nodes_def split: if_splits)

lemma stack_init_Inr: "num \<noteq> 0 \<Longrightarrow> \<exists>s. stack_init num sz = Inr s"
  by (simp add: stack_init_def link_nodes_def unat_eq_0)

lemma place_stacks_ok:
  assumes "\<forall>c \<in> set cfgs. snd c \<noteq> 0" and "sizeof_IDX_QUEUE_S + unat off + sum_list (map (region l) cfgs) \<le> unat m"
  shows "\<exists>ps. place_stacks l m off cfgs = Inr ps \<and> length ps = length cfgs \<and>
    (\<forall>i < length cfgs. unat (fst (ps ! i)) = unat off + sum_list (map (region l) (take i cfgs)) \<and>
       stack_init (snd (cfgs ! i)) (block_size (fst (cfgs ! i))) = Inr (snd (ps ! i)))"
  using assms
proof (induction l m off cfgs rule: place_stacks.induct)
  case (2 l m off sz num cfgs)
  obtain s where s: "stack_init num (block_size sz) = Inr s" using stack_init_Inr[of num "block_size sz"] 2(2) by auto
  let ?n = "stack_head_size l s + MemStackSize s"
  have n: "?n = region l (sz, num)" using stack_init_fields[OF s] by (simp add: stack_head_size_def MemStackSize_def region_def)
  have le: "sizeof_IDX_QUEUE_S + unat off + region l (sz, num) + sum_list (map (region l) cfgs) \<le> unat m" using 2(3) by simp
  have off: "unat (off + of_nat (region l (sz, num))) = unat off + region l (sz, num)"
    using le n unat_u32_less[of m] by (simp add: unat_word_ariths unat_of_nat take_bit_eq_mod mod_simps)
  obtain ps where ps: "place_stacks l m (off + of_nat (region l (sz, num))) cfgs = Inr ps" "length ps = length cfgs"
    "\<forall>i < length cfgs. unat (fst (ps ! i)) = unat (off + of_nat (region l (sz, num))) + sum_list (map (region l) (take i cfgs)) \<and>
       stack_init (snd (cfgs ! i)) (block_size (fst (cfgs ! i))) = Inr (snd (ps ! i))"
    using 2(1)[of "region l (sz, num)" s] 2(2) le n[symmetric] off by auto
  have "place_stacks l m off ((sz, num) # cfgs) = Inr ((off, s) # ps)" using s le ps(1) unfolding n[symmetric] by (simp add: Let_def)
  moreover have "\<forall>i < length ((sz, num) # cfgs). unat (fst (((off, s) # ps) ! i)) = unat off + sum_list (map (region l) (take i ((sz, num) # cfgs))) \<and>
       stack_init (snd (((sz, num) # cfgs) ! i)) (block_size (fst (((sz, num) # cfgs) ! i))) = Inr (snd (((off, s) # ps) ! i))"
    using ps(3) s off by (auto simp: nth_Cons less_Suc_eq_0_disj split: nat.split)
  ultimately show ?case using ps(2) by (intro exI[of _ "(off, s) # ps"]) simp
qed simp

text \<open>Configurations for which no size wraps: 16 bits for the size of a block with its two nodes and for the number of index nodes, 32 bits for the memory.\<close>

definition cache_total :: "nat \<Rightarrow> LOG_CACHE_CFG_S list \<Rightarrow> nat" where
  "cache_total l cfgs = sizeof_IDX_QUEUE_S + length cfgs * 4 + 2 * sizeof_node l +
     sum_list (map (\<lambda>(sz, num). sizeof_MEM_STACK_S + unat num * (ML_ALIGN32 (unat sz) + 4 + 2 * sizeof_node l)) cfgs)"

definition cfg_ok :: "nat \<Rightarrow> LOG_CACHE_CFG_S list \<Rightarrow> bool" where
  "cfg_ok l cfgs \<longleftrightarrow> cfgs \<noteq> [] \<and> length cfgs \<le> 255 \<and>
     list_all (\<lambda>(sz, num). num \<noteq> 0 \<and> ML_ALIGN32 (unat sz) + 4 + 2 * sizeof_node l < 2 ^ 16) cfgs \<and>
     2 + sum_list (map (unat \<circ> snd) cfgs) < 2 ^ 16 \<and> cache_total l cfgs < 2 ^ 32"

lemma unat_block_size: "ML_ALIGN32 (unat sz) + 4 < 2 ^ 16 \<Longrightarrow> unat (block_size sz) = ML_ALIGN32 (unat sz) + 4"
  by (simp add: block_size_def unat_word_ariths unat_of_nat take_bit_eq_mod mod_simps)

lemma of_nat_sum_unat: "sum_list (map snd cfgs) = of_nat (sum_list (map (unat \<circ> snd) cfgs))" for cfgs :: "LOG_CACHE_CFG_S list"
  by (induction cfgs) auto

lemma unat_cache_idx_cnt: "cfg_ok l cfgs \<Longrightarrow> unat (cache_idx_cnt cfgs) = 2 + sum_list (map (unat \<circ> snd) cfgs)"
  by (simp add: cfg_ok_def cache_idx_cnt_def of_nat_sum_unat unat_word_ariths unat_of_nat take_bit_eq_mod mod_simps)

lemma cache_mem_size_total:
  assumes "list_all (\<lambda>(sz, num). num \<noteq> 0 \<and> ML_ALIGN32 (unat sz) + 4 + 2 * sizeof_node l < 2 ^ 16) cfgs"
  shows "cache_mem_size l cfgs = of_nat (cache_total l cfgs)"
proof -
  have entry: "unat (block_size sz + of_nat (sizeof_node l) + of_nat (sizeof_node l)) = ML_ALIGN32 (unat sz) + 4 + 2 * sizeof_node l"
    if "(sz, num) \<in> set cfgs" for sz num
    using assms that unat_block_size[of sz]
    by (auto simp: list_all_iff unat_word_ariths unat_of_nat take_bit_eq_mod mod_simps)
  have "map (\<lambda>(sz, num). of_nat (sizeof_MEM_STACK_S + unat num * unat (block_size sz + of_nat (sizeof_node l) + of_nat (sizeof_node l)))) cfgs =
      map (\<lambda>(sz, num). of_nat (sizeof_MEM_STACK_S + unat num * (ML_ALIGN32 (unat sz) + 4 + 2 * sizeof_node l)) :: u32) cfgs"
  proof (rule map_cong[OF refl])
    fix c assume "c \<in> set cfgs"
    then show "(case c of (sz, num) \<Rightarrow> of_nat (sizeof_MEM_STACK_S + unat num * unat (block_size sz + of_nat (sizeof_node l) + of_nat (sizeof_node l)))) =
        (case c of (sz, num) \<Rightarrow> (of_nat (sizeof_MEM_STACK_S + unat num * (ML_ALIGN32 (unat sz) + 4 + 2 * sizeof_node l)) :: u32))"
      using entry[of "fst c" "snd c"] by (simp only: prod.collapse case_prod_unfold)
  qed
  moreover have "sum_list (map (of_nat \<circ> f) xs) = of_nat (sum_list (map f xs))" for f :: "LOG_CACHE_CFG_S \<Rightarrow> nat" and xs
    by (induction xs) auto
  from this[of "\<lambda>(sz, num). sizeof_MEM_STACK_S + unat num * (ML_ALIGN32 (unat sz) + 4 + 2 * sizeof_node l)" cfgs]
  have "sum_list (map (\<lambda>(sz, num). of_nat (sizeof_MEM_STACK_S + unat num * (ML_ALIGN32 (unat sz) + 4 + 2 * sizeof_node l)) :: u32) cfgs) =
      of_nat (sum_list (map (\<lambda>(sz, num). sizeof_MEM_STACK_S + unat num * (ML_ALIGN32 (unat sz) + 4 + 2 * sizeof_node l)) cfgs))"
    by (simp add: comp_def case_prod_unfold)
  ultimately show ?thesis unfolding cache_mem_size_def cache_total_def by (simp only: of_nat_add)
qed

lemma cache_total_regions:
  assumes "list_all (\<lambda>(sz, num). num \<noteq> 0 \<and> ML_ALIGN32 (unat sz) + 4 + 2 * sizeof_node l < 2 ^ 16) cfgs"
  shows "cache_total l cfgs = sizeof_IDX_QUEUE_S + length cfgs * 4 + (2 + sum_list (map (unat \<circ> snd) cfgs)) * sizeof_node l + sum_list (map (region l) cfgs)"
proof -
  have "sum_list (map (\<lambda>(sz, num). sizeof_MEM_STACK_S + unat num * (ML_ALIGN32 (unat sz) + 4 + 2 * sizeof_node l)) cfgs) =
      sum_list (map (unat \<circ> snd) cfgs) * sizeof_node l + sum_list (map (region l) cfgs)"
    using assms
  proof (induction cfgs)
    case (Cons c cfgs)
    obtain sz num where c: "c = (sz, num)" by (cases c)
    then have "unat (block_size sz) = ML_ALIGN32 (unat sz) + 4" using Cons.prems unat_block_size[of sz] by simp
    then show ?case using Cons c by (simp add: region_def algebra_simps)
  qed simp
  then show ?thesis by (simp add: cache_total_def algebra_simps)
qed

text \<open>The invariant of the cache: the layout, the ring, the list of free blocks of each stack, and that the blocks that wait are different blocks in use.\<close>

definition stacks_ok :: "MEM_STACK_S list \<Rightarrow> bool" where
  "stacks_ok ss \<longleftrightarrow> (\<forall>s \<in> set ss. \<exists>fl. free_list s fl \<and> (\<forall>j < length (ms_node s). in_use s j \<longleftrightarrow> j \<notin> set fl))"

definition block_used :: "IDX_QUEUE_S \<Rightarrow> nat \<times> nat \<Rightarrow> bool" where
  "block_used q b \<longleftrightarrow> fst b < length (iq_stack q) \<and> snd b < unat (ms_cnt (iq_stack q ! fst b)) \<and> in_use (iq_stack q ! fst b) (snd b)"

definition cache_inv :: "nat \<Rightarrow> IDX_QUEUE_S \<Rightarrow> bool" where
  "cache_inv l q \<longleftrightarrow> layout_ok l q \<and> idx_ok q \<and> stacks_ok (iq_stack q) \<and>
     idx_n q = 2 + sum_list (map (unat \<circ> ms_cnt) (iq_stack q)) \<and>
     distinct (queue_items q) \<and> (\<forall>b \<in> set (queue_items q). block_used q b)"

lemma unat_of_nat_u32: "n < 2 ^ 32 \<Longrightarrow> unat (of_nat n :: u32) = n"
  by (simp add: unat_of_nat take_bit_eq_mod)

lemma stack_init_stacks_ok:
  assumes "stack_init num sz = Inr s"
  shows "\<exists>fl. free_list s fl \<and> (\<forall>j < length (ms_node s). in_use s j \<longleftrightarrow> j \<notin> set fl)"
proof -
  have "free_list s [0..<unat num]" using stack_init_ok(1)[OF assms] by (simp add: stack_ok_def stack_start_def)
  moreover have "\<not> in_use s j" if "j < length (ms_node s)" for j
    using stack_init_ok(1)[OF assms] that stack_init_fields[OF assms] by (auto simp: stack_ok_def stack_start_def)
  ultimately show ?thesis using stack_init_fields[OF assms] by (intro exI[of _ "[0..<unat num]"]) auto
qed

lemma cache_create_inv:
  assumes cfg: "cfg_ok l cfgs" and alloc: "alloc (cache_mem_size l cfgs)"
  shows "\<exists>q. Log_CacheCreate l alloc cfgs multi None = Inr (True, Some q) \<and> cache_inv l q \<and> queue_items q = [] \<and>
    map (\<lambda>s. (ms_size s, ms_cnt s)) (iq_stack q) = map (\<lambda>(sz, num). (block_size sz, num)) cfgs"
proof -
  let ?cnt = "cache_idx_cnt cfgs" and ?m = "cache_mem_size l cfgs"
  let ?off = "of_nat (length cfgs * 4 + unat ?cnt * sizeof_node l) :: u32"
  have each: "list_all (\<lambda>(sz, num). num \<noteq> 0 \<and> ML_ALIGN32 (unat sz) + 4 + 2 * sizeof_node l < 2 ^ 16) cfgs"
    and lim: "cfgs \<noteq> []" "length cfgs \<le> 255" "cache_total l cfgs < 2 ^ 32" using cfg by (auto simp: cfg_ok_def)
  note cnt = unat_cache_idx_cnt[OF cfg]
  have tot: "cache_total l cfgs = sizeof_IDX_QUEUE_S + length cfgs * 4 + unat ?cnt * sizeof_node l + sum_list (map (region l) cfgs)"
    by (simp only: cache_total_regions[OF each] cnt)
  have m: "unat ?m = cache_total l cfgs" using lim by (simp add: cache_mem_size_total[OF each] unat_of_nat take_bit_eq_mod)
  have off: "unat ?off = length cfgs * 4 + unat ?cnt * sizeof_node l"
    by (rule unat_of_nat_u32) (use lim(3) tot in linarith)
  have nz: "\<forall>c \<in> set cfgs. snd c \<noteq> 0" using each by (auto simp: list_all_iff)
  have room: "sizeof_IDX_QUEUE_S + unat ?off + sum_list (map (region l) cfgs) \<le> unat ?m" using m off tot by linarith
  obtain ps where ps: "place_stacks l ?m ?off cfgs = Inr ps" "length ps = length cfgs"
    "\<And>i. i < length cfgs \<Longrightarrow> unat (fst (ps ! i)) = unat ?off + sum_list (map (region l) (take i cfgs))"
    "\<And>i. i < length cfgs \<Longrightarrow> stack_init (snd (cfgs ! i)) (block_size (fst (cfgs ! i))) = Inr (snd (ps ! i))"
    using place_stacks_ok[OF nz room] by blast
  define q where "q = \<lparr>iServerMode = multi, uiMemSize = ?m, usIdxBlockCnt = ?cnt, ulEnQCnt = 1, usHead = 0, usMsgCnt = 0,
    iq_off = map fst ps, iq_idx = replicate (unat ?cnt) \<lparr>in_ready = False, in_data = 0, in_stack = 0\<rparr>, iq_stack = map snd ps, iq_stamp = []\<rparr>"
  have fld: "ms_cnt (snd (ps ! i)) = snd (cfgs ! i)" "ms_size (snd (ps ! i)) = block_size (fst (cfgs ! i))" if "i < length cfgs" for i
    using stack_init_fields[OF ps(4)[OF that]] by auto
  have stk: "map (\<lambda>s. (ms_size s, ms_cnt s)) (iq_stack q) = map (\<lambda>(sz, num). (block_size sz, num)) cfgs"
    using fld ps(2) by (intro nth_equalityI) (auto simp: q_def case_prod_unfold)
  have head: "stack_end l q i = sizeof_IDX_QUEUE_S + unat ?off + sum_list (map (region l) (take (Suc i) cfgs))" if "i < length cfgs" for i
    using ps(2,3) fld[OF that] that
    by (simp add: q_def stack_end_def MemStackData_def stack_head_size_def MemStackSize_def region_def take_Suc_conv_app_nth)
  have sums: "sum_list (map (region l) (take k cfgs)) \<le> sum_list (map (region l) cfgs)" for k
    by (metis append_take_drop_id le_add1 map_append sum_list_append)
  have "4 \<le> unat (block_size sz)" if "(sz, num) \<in> set cfgs" for sz num
    using each that unat_block_size[of sz] by (auto simp: list_all_iff)
  then have sz: "4 \<le> unat (ms_size (iq_stack q ! i))" if "i < length cfgs" for i
    using fld[OF that] that ps(2) by (simp add: q_def) (metis nth_mem prod.collapse)
  have lay: "layout_ok l q"
    unfolding layout_ok_def
  proof (intro conjI allI impI)
    show "stack_end l q i \<le> unat (uiMemSize q)" if "i < length (iq_stack q)" for i
    proof -
      have i: "i < length cfgs" and q: "unat (uiMemSize q) = cache_total l cfgs" using that ps(2) m by (simp_all add: q_def)
      show ?thesis using head[OF i] sums[of "Suc i"] q off tot by linarith
    qed
    show "sizeof_IDX_QUEUE_S + unat (iq_off q ! Suc i) = stack_end l q i" if "Suc i < length (iq_stack q)" for i
      using head[of i] ps(2) ps(3)[of "Suc i"] that by (simp add: q_def)
    show "sizeof_IDX_QUEUE_S + length (iq_stack q) * 4 + idx_n q * sizeof_node l \<le> sizeof_IDX_QUEUE_S + unat (iq_off q ! 0)"
      using ps(2) ps(3)[of 0] lim(1) off by (simp add: q_def)
  qed (use sz lim ps(2) in \<open>auto simp: q_def\<close>)
  have empty: "queue_len q = 0" using cnt by (simp add: queue_len_def q_def)
  then have idx: "idx_ok q" "queue_items q = []" using cnt by (simp_all add: idx_ok_def queue_items_def) (simp add: q_def)
  have "stacks_ok (iq_stack q)"
  proof -
    have "\<exists>i < length cfgs. s = snd (ps ! i)" if "s \<in> set (iq_stack q)" for s
      using that ps(2) by (auto simp: q_def in_set_conv_nth) (metis snd_conv)
    then show ?thesis using stack_init_stacks_ok[OF ps(4)] unfolding stacks_ok_def by blast
  qed
  moreover have "map ms_cnt (iq_stack q) = map snd cfgs"
    using arg_cong[OF stk, of "map snd"] by (simp add: comp_def case_prod_unfold)
  then have "idx_n q = 2 + sum_list (map (unat \<circ> ms_cnt) (iq_stack q))"
    using cnt by (simp add: q_def flip: map_map)
  ultimately have "cache_inv l q" using lay idx by (simp add: cache_inv_def)
  moreover have "Log_CacheCreate l alloc cfgs multi None = Inr (True, Some q)"
    using lim alloc ps(1) by (simp add: Log_CacheCreate_def Let_def q_def)
  ultimately show ?thesis using idx stk by blast
qed

section \<open>The operations keep the invariant\<close>

lemma set_stack_simps [simp]:
  "queue_items (set_stack i s q) = queue_items q" "idx_ok (set_stack i s q) = idx_ok q" "iq_stack (set_stack i s q) = (iq_stack q)[i := s]"
  "usIdxBlockCnt (set_stack i s q) = usIdxBlockCnt q" "iq_off (set_stack i s q) = iq_off q" "uiMemSize (set_stack i s q) = uiMemSize q"
  by (simp_all add: set_stack_def queue_items_def idx_ok_def queue_len_def idx_node_def)

lemma set_stack_same_shape:
  assumes "i < length (iq_stack q)" "ms_cnt s = ms_cnt (iq_stack q ! i)" "ms_size s = ms_size (iq_stack q ! i)"
  shows "MemStackData l (set_stack i s q) k m = MemStackData l q k m" and "stack_end l (set_stack i s q) k = stack_end l q k"
    and "ms_size ((iq_stack q)[i := s] ! k) = ms_size (iq_stack q ! k)" and "ms_cnt ((iq_stack q)[i := s] ! k) = ms_cnt (iq_stack q ! k)"
  using assms by (cases "k = i"; simp add: MemStackData_def stack_end_def stack_head_size_def MemStackSize_def)+

text \<open>Two states of a cache with the blocks at the same addresses and with the same times in them.\<close>

definition same_blocks :: "nat \<Rightarrow> IDX_QUEUE_S \<Rightarrow> IDX_QUEUE_S \<Rightarrow> bool" where
  "same_blocks l q' q \<longleftrightarrow> (\<forall>i j. MemStackData l q' i j = MemStackData l q i j) \<and> iq_stamp q' = iq_stamp q \<and>
     length (iq_stack q') = length (iq_stack q) \<and> (\<forall>i. ms_size (iq_stack q' ! i) = ms_size (iq_stack q ! i))"

lemma set_stack_blocks:
  assumes "i < length (iq_stack q)" "ms_cnt s = ms_cnt (iq_stack q ! i)" "ms_size s = ms_size (iq_stack q ! i)"
  shows "same_blocks l (set_stack i s q) q"
  using set_stack_same_shape[OF assms] by (simp add: same_blocks_def) (simp add: set_stack_def)

lemma set_stack_inv:
  assumes inv: "cache_inv l q" and i: "i < length (iq_stack q)"
    and shape: "ms_cnt s = ms_cnt (iq_stack q ! i)" "ms_size s = ms_size (iq_stack q ! i)"
    and fl: "free_list s fl" "\<forall>j < length (ms_node s). in_use s j \<longleftrightarrow> j \<notin> set fl"
    and keep: "\<And>j. (i, j) \<in> set (queue_items q) \<Longrightarrow> in_use s j"
  shows "cache_inv l (set_stack i s q)"
proof -
  note sh = set_stack_same_shape[OF i shape]
  have lay: "layout_ok l (set_stack i s q)"
  proof -
    have "layout_ok l q" using inv by (simp add: cache_inv_def)
    then show ?thesis unfolding layout_ok_def by (simp add: sh)
  qed
  have st: "stacks_ok (iq_stack (set_stack i s q))"
    using inv fl set_update_subset_insert[of "iq_stack q" i s] unfolding cache_inv_def stacks_ok_def by (auto simp: subset_iff)
  have "map ms_cnt ((iq_stack q)[i := s]) = map ms_cnt (iq_stack q)"
    using sh(4) by (intro nth_equalityI) auto
  then have cnt: "map (unat \<circ> ms_cnt) ((iq_stack q)[i := s]) = map (unat \<circ> ms_cnt) (iq_stack q)"
    by (simp flip: map_map)
  have "block_used (set_stack i s q) b" if "b \<in> set (queue_items q)" for b
  proof -
    have "block_used q b" using inv that by (simp add: cache_inv_def)
    then show ?thesis using keep[of "snd b"] that i shape(1)
      by (cases "fst b = i") (auto simp: block_used_def prod_eq_iff)
  qed
  then show ?thesis using inv lay st cnt by (simp add: cache_inv_def)
qed

lemma stack_ops_shape:
  "stack_malloc s = Inr (r, s') \<Longrightarrow> ms_cnt s' = ms_cnt s \<and> ms_size s' = ms_size s"
  "stack_free j s = Inr s' \<Longrightarrow> ms_cnt s' = ms_cnt s \<and> ms_size s' = ms_size s"
  by (auto simp: stack_malloc_def stack_free_def bindE_Inr_iff Let_def cas_top_def malloc_count_def malloc_max_def malloc_link_def malloc_flag_def
      free_flag_def free_count_def free_link_def upd_node_def split: if_splits prod.splits)

lemma cache_stackD:
  assumes "cache_inv l q" and "i < length (iq_stack q)"
  obtains fl where "free_list (iq_stack q ! i) fl" "\<forall>j < length (ms_node (iq_stack q ! i)). in_use (iq_stack q ! i) j \<longleftrightarrow> j \<notin> set fl"
    "length (ms_node (iq_stack q ! i)) = unat (ms_cnt (iq_stack q ! i))" "set fl \<subseteq> {..<length (ms_node (iq_stack q ! i))}" "distinct fl"
  using assms unfolding cache_inv_def stacks_ok_def free_list_def using chain_bound by (metis nth_mem)

text \<open>A request is served by the first stack whose blocks are large enough, or not at all.\<close>

definition no_room :: "nat \<Rightarrow> u32 \<Rightarrow> IDX_QUEUE_S \<Rightarrow> bool" where
  "no_room l sz q \<longleftrightarrow> (case find (\<lambda>i. fits l sz (iq_stack q ! i)) [0..<length (iq_stack q)] of None \<Rightarrow> True
     | Some i \<Rightarrow> \<forall>j < unat (ms_cnt (iq_stack q ! i)). block_used q (i, j))"

lemma malloc_inv:
  assumes inv: "cache_inv l q"
  shows "Log_CacheMalloc l sz (Some q) = Inr (None, Some q) \<and> no_room l sz q \<or>
    \<not> no_room l sz q \<and> (\<exists>i j q'. Log_CacheMalloc l sz (Some q) = Inr (Some (MemStackData l q' i j), Some q') \<and> cache_inv l q' \<and> queue_items q' = queue_items q \<and> same_blocks l q' q \<and>
       fits l sz (iq_stack q ! i) \<and> \<not> block_used q (i, j) \<and> block_used q' (i, j) \<and> (\<forall>b. b \<noteq> (i, j) \<longrightarrow> block_used q' b = block_used q b))"
proof (cases "find (\<lambda>i. fits l sz (iq_stack q ! i)) [0..<length (iq_stack q)]")
  case None then show ?thesis by (simp add: Log_CacheMalloc_def no_room_def)
next
  case (Some i)
  then have i: "i < length (iq_stack q)" "fits l sz (iq_stack q ! i)" by (auto simp: find_Some_iff)
  let ?s = "iq_stack q ! i"
  obtain fl where fl: "free_list ?s fl" "\<forall>j < length (ms_node ?s). in_use ?s j \<longleftrightarrow> j \<notin> set fl"
    "length (ms_node ?s) = unat (ms_cnt ?s)" "set fl \<subseteq> {..<length (ms_node ?s)}" "distinct fl"
    by (rule cache_stackD[OF inv i(1)])
  from stack_malloc_list[OF fl(1)] show ?thesis
  proof (elim disjE conjE exE)
    assume "stack_malloc ?s = Inr (None, ?s)" "fl = []"
    then show ?thesis using Some i(1) fl(2,3) by (simp add: Log_CacheMalloc_def set_stack_def no_room_def block_used_def)
  next
    fix j xs s assume j: "fl = j # xs" "stack_malloc ?s = Inr (Some j, s)" "free_list s xs" "length (ms_node s) = length (ms_node ?s)"
      "in_use s j" "\<forall>k. k \<noteq> j \<longrightarrow> in_use s k = in_use ?s k"
    note shape = stack_ops_shape(1)[OF j(2)]
    have free: "j < length (ms_node ?s)" "\<not> in_use ?s j" "j \<notin> set xs" using fl j(1) by auto
    have used: "(i, k) \<in> set (queue_items q) \<Longrightarrow> in_use s k" for k
      using inv j(5,6) by (cases "k = j") (auto simp: cache_inv_def block_used_def)
    have "\<forall>k < length (ms_node s). in_use s k \<longleftrightarrow> k \<notin> set xs"
      using fl(2) j free by auto
    then have inv': "cache_inv l (set_stack i s q)"
      using set_stack_inv[OF inv i(1) _ _ j(3) _ used] shape by blast
    have "MemStackData l q i j = MemStackData l (set_stack i s q) i j"
      using set_stack_same_shape(1)[OF i(1)] shape by simp
    then have run: "Log_CacheMalloc l sz (Some q) = Inr (Some (MemStackData l (set_stack i s q) i j), Some (set_stack i s q))"
      using Some j(2) by (simp add: Log_CacheMalloc_def)
    have room: "\<not> no_room l sz q" using Some i(1) free(1,2) fl(3) by (auto simp: no_room_def block_used_def)
    have "\<not> block_used q (i, j)" "block_used (set_stack i s q) (i, j)"
      using free i(1) j(5) shape fl(3) by (auto simp: block_used_def)
    moreover have "block_used (set_stack i s q) b = block_used q b" if "b \<noteq> (i, j)" for b
      using that i(1) j(6) shape by (cases "fst b = i") (auto simp: block_used_def prod_eq_iff)
    moreover have "same_blocks l (set_stack i s q) q" using set_stack_blocks[OF i(1)] shape by blast
    ultimately show ?thesis using run inv' i(2) room by (intro disjI2 conjI[OF room] exI[of _ i] exI[of _ j] exI[of _ "set_stack i s q"]) simp
  qed
qed

lemma free_inv:
  assumes inv: "cache_inv l q" and b: "block_used q (i, j)" "(i, j) \<notin> set (queue_items q)"
  shows "\<exists>q'. Log_CacheFree l (Some (int (MemStackData l q i j))) (Some q) = Inr (0, Some q') \<and> cache_inv l q' \<and> queue_items q' = queue_items q \<and> same_blocks l q' q \<and>
    \<not> block_used q' (i, j) \<and> (\<forall>c. c \<noteq> (i, j) \<longrightarrow> block_used q' c = block_used q c)"
proof -
  let ?s = "iq_stack q ! i"
  have i: "i < length (iq_stack q)" and j: "j < unat (ms_cnt ?s)" "in_use ?s j" using b by (auto simp: block_used_def)
  have lay: "layout_ok l q" using inv by (simp add: cache_inv_def)
  obtain fl where fl: "free_list ?s fl" "\<forall>j < length (ms_node ?s). in_use ?s j \<longleftrightarrow> j \<notin> set fl"
    "length (ms_node ?s) = unat (ms_cnt ?s)" "set fl \<subseteq> {..<length (ms_node ?s)}"
    by (rule cache_stackD[OF inv i])
  obtain s where s: "stack_free j ?s = Inr s" "free_list s (j # fl)" "length (ms_node s) = length (ms_node ?s)" "\<not> in_use s j"
    "\<forall>k. k \<noteq> j \<longrightarrow> in_use s k = in_use ?s k"
    using stack_free_list[OF fl(1), of j] j fl(2,3) by metis
  note shape = stack_ops_shape(2)[OF s(1)]
  have "MemStackData l q i j \<le> unat (uiMemSize q)"
    using block_in_stack[OF lay i j(1)] lay i unfolding layout_ok_def by fastforce
  then have "int (MemStackData l q i j) \<le> uint (uiMemSize q)" by (metis of_nat_mono uint_nat)
  moreover have "iq_stack q \<noteq> []" using i by auto
  ultimately have run: "Log_CacheFree l (Some (int (MemStackData l q i j))) (Some q) = Inr (0, Some (set_stack i s q))"
    using find_block_ok[OF lay i j(1)] s(1) by (simp add: Log_CacheFree_def)
  have used: "(i, k) \<in> set (queue_items q) \<Longrightarrow> in_use s k" for k
    using inv b(2) s(5) by (cases "k = j") (auto simp: cache_inv_def block_used_def)
  have "\<forall>k < length (ms_node s). in_use s k \<longleftrightarrow> k \<notin> set (j # fl)"
    using fl(2) s(3,4,5) by (metis list.set_intros(1) set_ConsD list.set_intros(2))
  then have "cache_inv l (set_stack i s q)"
    using set_stack_inv[OF inv i _ _ s(2) _ used] shape by blast
  moreover have "\<not> block_used (set_stack i s q) (i, j)" using i s(4) by (simp add: block_used_def)
  moreover have "block_used (set_stack i s q) c = block_used q c" if "c \<noteq> (i, j)" for c
    using that i s(5) shape by (cases "fst c = i") (auto simp: block_used_def prod_eq_iff)
  moreover have "same_blocks l (set_stack i s q) q" using set_stack_blocks[OF i] shape by blast
  ultimately show ?thesis using run by (intro exI[of _ "set_stack i s q"]) simp
qed

text \<open>The ring has two places more than there are blocks, so it is not full while a block in use does not wait.\<close>

lemma used_blocks_bound:
  assumes "set bs \<subseteq> {b. block_used q b}" and "distinct bs"
  shows "length bs \<le> sum_list (map (unat \<circ> ms_cnt) (iq_stack q))"
proof -
  let ?all = "SIGMA i : {..<length (iq_stack q)}. {..<unat (ms_cnt (iq_stack q ! i))}"
  have "set bs \<subseteq> ?all" using assms(1) by (force simp: block_used_def)
  then have "length bs \<le> card ?all" using assms(2) by (metis card_mono distinct_card finite_SigmaI finite_lessThan)
  also have "\<dots> = sum_list (map (unat \<circ> ms_cnt) (iq_stack q))"
    by (simp add: sum_list_sum_nth atLeast0LessThan)
  finally show ?thesis .
qed

lemma layout_cong:
  assumes "iq_stack q' = iq_stack q" "iq_off q' = iq_off q" "uiMemSize q' = uiMemSize q" "usIdxBlockCnt q' = usIdxBlockCnt q"
  shows "layout_ok l q' = layout_ok l q"
  unfolding layout_ok_def stack_end_def MemStackData_def assms ..

lemma add_inv:
  assumes inv: "cache_inv l q" and b: "block_used q b" "b \<notin> set (queue_items q)"
  shows "\<exists>q'. Log_CacheAdd l now (MemStackData l q (fst b) (snd b)) (Some q) = Inr (LOG_OK, Some q') \<and> cache_inv l q' \<and>
    queue_items q' = queue_items q @ [b] \<and> iq_stack q' = iq_stack q \<and> iq_off q' = iq_off q \<and>
    iq_stamp q' = (MemStackData l q (fst b) (snd b), now, 0) # iq_stamp q"
proof -
  let ?a = "MemStackData l q (fst b) (snd b)"
  let ?q' = "(idx_add b q)\<lparr>iq_stamp := (?a, now, 0) # iq_stamp q\<rparr>"
  have lay: "layout_ok l q" and idx: "idx_ok q" and n: "idx_n q = 2 + sum_list (map (unat \<circ> ms_cnt) (iq_stack q))"
    and dist: "distinct (queue_items q)" and used: "\<forall>c \<in> set (queue_items q). block_used q c"
    using inv by (simp_all add: cache_inv_def)
  have bb: "fst b < length (iq_stack q)" "snd b < unat (ms_cnt (iq_stack q ! fst b))" using b(1) by (auto simp: block_used_def)
  have "length (b # queue_items q) \<le> sum_list (map (unat \<circ> ms_cnt) (iq_stack q))"
    by (rule used_blocks_bound) (use b dist used in auto)
  then have room: "queue_len q + 2 < idx_n q" using n by (simp add: queue_items_def)
  have small: "fst b < 2 ^ 8" "snd b < 2 ^ 16"
    using bb lay unat_u16_less[of "ms_cnt (iq_stack q ! fst b)"] by (auto simp: layout_ok_def)
  have pos: "0 < idx_n q" using idx by (auto simp: idx_ok_def)
  have "snd (enq_next (ulEnQCnt q) (usIdxBlockCnt q)) \<noteq> unat (usHead q)"
    using idx_full[OF idx] room enq_next_ring(1)[OF pos] by simp
  then have run: "Log_CacheAdd l now ?a (Some q) = Inr (LOG_OK, Some ?q')"
    using find_block_ok[OF lay bb] by (auto simp: Log_CacheAdd_def Let_def idx_add_def split: prod.splits)
  have same: "iq_stack ?q' = iq_stack q" "iq_off ?q' = iq_off q" "uiMemSize ?q' = uiMemSize q" "usIdxBlockCnt ?q' = usIdxBlockCnt q"
    by (simp_all add: idx_add_def)
  have items: "queue_items ?q' = queue_items q @ [b]" and idx': "idx_ok ?q'"
    using idx_add_ok[OF idx room small] by (simp_all add: queue_items_def idx_ok_def queue_len_def idx_node_def)
  have "layout_ok l ?q'"
    using lay layout_cong[OF same] by simp
  moreover have "block_used ?q' c = block_used q c" for c by (simp add: block_used_def idx_add_def)
  ultimately have "cache_inv l ?q'"
    using inv idx' items b unfolding cache_inv_def by (simp add: same)
  moreover have "iq_stamp ?q' = (?a, now, 0) # iq_stamp q" by simp
  ultimately show ?thesis using run items same by blast
qed

lemma get_inv:
  assumes inv: "cache_inv l q"
  shows "case queue_items q of
      [] \<Rightarrow> Log_CacheGet l (Some q) = (None, Some q)
    | b # bs \<Rightarrow> \<exists>q'. Log_CacheGet l (Some q) = (Some (MemStackData l q (fst b) (snd b)), Some q') \<and> cache_inv l q' \<and> queue_items q' = bs \<and>
        iq_stack q' = iq_stack q \<and> iq_off q' = iq_off q \<and> iq_stamp q' = iq_stamp q"
proof -
  have idx: "idx_ok q" using inv by (simp add: cache_inv_def)
  then have "unat (usHead q) < idx_n q" by (simp add: idx_ok_def)
  then have hd: "unat (usHead q + 1) = unat (usHead q) + 1"
    using unat_u16_less[of "usIdxBlockCnt q"] by (simp add: unat_word_ariths)
  show ?thesis
  proof (cases "queue_items q")
    case Nil
    then have "idx_first q = idx_tail q" using idx_tail_ring[OF idx] idx by (simp add: queue_items_def)
    then show ?thesis using Nil hd by (simp add: Log_CacheGet_def Let_def)
  next
    case (Cons b bs)
    then have "0 < queue_len q" by (cases "queue_len q") (simp_all add: queue_items_def)
    note g = idx_get_ok[OF idx this]
    have b: "node_block (iq_idx q ! idx_first q) = b" "queue_items (idx_get q) = bs" using g(2) Cons by auto
    have run: "Log_CacheGet l (Some q) = (Some (MemStackData l q (fst b) (snd b)), Some (idx_get q))"
      using g(3,4) b(1) hd by (auto simp: Log_CacheGet_def Let_def idx_get_def node_block_def)
    have same: "iq_stack (idx_get q) = iq_stack q" "iq_off (idx_get q) = iq_off q" "uiMemSize (idx_get q) = uiMemSize q"
      "usIdxBlockCnt (idx_get q) = usIdxBlockCnt q" by (simp_all add: idx_get_def)
    have "layout_ok l (idx_get q)"
      using inv layout_cong[OF same] by (simp add: cache_inv_def)
    moreover have "block_used (idx_get q) c = block_used q c" for c by (simp add: block_used_def idx_get_def)
    ultimately have "cache_inv l (idx_get q)" using inv g(1) b(2) Cons unfolding cache_inv_def by (simp add: same)
    moreover have "iq_stamp (idx_get q) = iq_stamp q" by (simp add: idx_get_def)
    ultimately show ?thesis using run b same Cons by auto
  qed
qed

section \<open>The queue of blocks\<close>

text \<open>\<open>Log_CacheAdd\<close> for a block that its caller owns, and \<open>Log_CacheGet\<close> with the block found again from the address it returns.\<close>

definition cache_put_block :: "nat \<Rightarrow> nat \<times> nat \<Rightarrow> IDX_QUEUE_S \<Rightarrow> IDX_QUEUE_S option" where
  "cache_put_block l b q =
     (if block_used q b \<and> b \<notin> set (queue_items q)
      then (case Log_CacheAdd l 0 (MemStackData l q (fst b) (snd b)) (Some q) of Inr (r, q') \<Rightarrow> if r = LOG_OK then q' else None | Inl _ \<Rightarrow> None)
      else None)"

definition cache_get_block :: "nat \<Rightarrow> IDX_QUEUE_S \<Rightarrow> ((nat \<times> nat) \<times> IDX_QUEUE_S) option" where
  "cache_get_block l q =
     (case Log_CacheGet l (Some q) of (Some a, Some q') \<Rightarrow> map_option (\<lambda>b. (b, q')) (find_block l q a) | _ \<Rightarrow> None)"

lemma put_block_Some: "cache_inv l q \<Longrightarrow> cache_put_block l b q = Some q' \<Longrightarrow> cache_inv l q' \<and> queue_items q' = queue_items q @ [b]"
  using add_inv[of l q b 0] by (auto simp: cache_put_block_def split: if_splits)

lemma get_block_cases:
  assumes inv: "cache_inv l q"
  shows "case queue_items q of [] \<Rightarrow> cache_get_block l q = None
    | b # bs \<Rightarrow> \<exists>q'. cache_get_block l q = Some (b, q') \<and> cache_inv l q' \<and> queue_items q' = bs"
proof (cases "queue_items q")
  case Nil then show ?thesis using get_inv[OF inv] by (simp add: cache_get_block_def)
next
  case (Cons b bs)
  then have "block_used q b" using inv by (simp add: cache_inv_def)
  then have "find_block l q (MemStackData l q (fst b) (snd b)) = Some b"
    using find_block_ok[of l q "fst b" "snd b"] inv by (simp add: block_used_def cache_inv_def)
  then show ?thesis using Cons get_inv[OF inv] by (auto simp: cache_get_block_def)
qed

interpretation cache_queue: fifo "cache_inv l" queue_items "cache_put_block l" "cache_get_block l" for l
proof
  fix q q' :: IDX_QUEUE_S and b
  show "cache_inv l q \<Longrightarrow> cache_put_block l b q = Some q' \<Longrightarrow> cache_inv l q'" using put_block_Some by blast
  show "cache_inv l q \<Longrightarrow> cache_put_block l b q = Some q' \<Longrightarrow> queue_items q' = queue_items q @ [b]" using put_block_Some by blast
  show "cache_inv l q \<Longrightarrow> cache_get_block l q = Some (b, q') \<Longrightarrow> cache_inv l q'"
    using get_block_cases[of l q] by (auto split: list.splits)
  show "cache_inv l q \<Longrightarrow> cache_get_block l q = Some (b, q') \<Longrightarrow> queue_items q = b # queue_items q'"
    using get_block_cases[of l q] by (auto split: list.splits)
  show "cache_inv l q \<Longrightarrow> (cache_get_block l q = None) = (queue_items q = [])"
    using get_block_cases[of l q] by (auto split: list.splits)
qed

lemma created_cache:
  assumes "cfg_ok l cfgs" and "alloc (of_nat (cache_total l cfgs))"
  obtains q where "Log_CacheCreate l alloc cfgs multi None = Inr (True, Some q)" "cache_inv l q" "queue_items q = []"
    "length (iq_stack q) = length cfgs" "unat (uiMemSize q) = cache_total l cfgs"
    "\<And>i. i < length cfgs \<Longrightarrow> ms_cnt (iq_stack q ! i) = snd (cfgs ! i)"
    "\<And>i. i < length cfgs \<Longrightarrow> unat (ms_size (iq_stack q ! i)) = ML_ALIGN32 (unat (fst (cfgs ! i))) + 4"
proof -
  have each: "list_all (\<lambda>(sz, num). num \<noteq> 0 \<and> ML_ALIGN32 (unat sz) + 4 + 2 * sizeof_node l < 2 ^ 16) cfgs"
    and tot: "cache_total l cfgs < 2 ^ 32" using assms(1) by (auto simp: cfg_ok_def)
  obtain q where q: "Log_CacheCreate l alloc cfgs multi None = Inr (True, Some q)" "cache_inv l q" "queue_items q = []"
    and st: "map (\<lambda>s. (ms_size s, ms_cnt s)) (iq_stack q) = map (\<lambda>(sz, num). (block_size sz, num)) cfgs"
    using cache_create_inv[OF assms(1), of alloc multi] assms(2) by (auto simp: cache_mem_size_total[OF each])
  have len: "length (iq_stack q) = length cfgs" using arg_cong[OF st, of length] by simp
  have shape: "ms_cnt (iq_stack q ! i) = snd (cfgs ! i)" "unat (ms_size (iq_stack q ! i)) = ML_ALIGN32 (unat (fst (cfgs ! i))) + 4"
    if "i < length cfgs" for i
  proof -
    have "(ms_size (iq_stack q ! i), ms_cnt (iq_stack q ! i)) = (block_size (fst (cfgs ! i)), snd (cfgs ! i))"
      using arg_cong[OF st, of "\<lambda>xs. xs ! i"] that len by (simp add: case_prod_unfold)
    moreover have "ML_ALIGN32 (unat (fst (cfgs ! i))) + 4 < 2 ^ 16" using each nth_mem[OF that] by (auto simp: list_all_iff)
    ultimately show "ms_cnt (iq_stack q ! i) = snd (cfgs ! i)" "unat (ms_size (iq_stack q ! i)) = ML_ALIGN32 (unat (fst (cfgs ! i))) + 4"
      using unat_block_size by auto
  qed
  have mem: "unat (uiMemSize q) = cache_total l cfgs"
    using q(1) assms tot cache_mem_size_total[OF each]
    by (auto simp: Log_CacheCreate_def Let_def bindE_Inr_iff cfg_ok_def unat_of_nat_u32)
  show thesis using that q len mem shape by blast
qed

lemma first_stack:
  assumes lay: "layout_ok l q" and "i < length (iq_stack q)"
  shows "sizeof_IDX_QUEUE_S + length (iq_stack q) * 4 + idx_n q * sizeof_node l \<le> MemStackData l q i 0"
proof (cases i)
  case 0 then show ?thesis using assms by (simp add: layout_ok_def MemStackData_def)
next
  case (Suc k)
  then have "MemStackData l q 0 0 \<le> MemStackData l q i 0"
    using stack_end_le[OF lay, of 0 i] assms(2) by (simp add: stack_end_def)
  then show ?thesis using lay by (simp add: layout_ok_def MemStackData_def)
qed

section \<open>Properties\<close>

text \<open>C38. For a configuration whose sizes do not wrap, \<open>Log_CacheCreate\<close> succeeds whenever the memory is there, and its layout is right: every block
  lies behind the ring and within the memory that was asked for, it has the size of its configuration and the four bytes of padding, no two blocks overlap, and
  \<open>Log_CacheAdd\<close> and \<open>Log_CacheFree\<close> find exactly the block whose address \<open>Log_CacheMalloc\<close> returned.\<close>

theorem cache_layout:
  assumes "cfg_ok l cfgs" and "alloc (of_nat (cache_total l cfgs))"
  shows "\<exists>q. Log_CacheCreate l alloc cfgs multi None = Inr (True, Some q) \<and> cache_inv l q \<and> queue_items q = [] \<and>
    (\<forall>i j. i < length cfgs \<and> j < unat (snd (cfgs ! i)) \<longrightarrow>
       find_block l q (MemStackData l q i j) = Some (i, j) \<and>
       sizeof_IDX_QUEUE_S + length cfgs * 4 + idx_n q * sizeof_node l \<le> MemStackData l q i j \<and>
       MemStackData l q i j + ML_ALIGN32 (unat (fst (cfgs ! i))) + 4 \<le> cache_total l cfgs \<and>
       (\<forall>i' j'. i' < length cfgs \<and> j' < unat (snd (cfgs ! i')) \<and> (i, j) \<noteq> (i', j') \<longrightarrow>
          MemStackData l q i j + ML_ALIGN32 (unat (fst (cfgs ! i))) + 4 \<le> MemStackData l q i' j' \<or>
          MemStackData l q i' j' + ML_ALIGN32 (unat (fst (cfgs ! i'))) + 4 \<le> MemStackData l q i j))"
proof -
  obtain q where q: "Log_CacheCreate l alloc cfgs multi None = Inr (True, Some q)" "cache_inv l q" "queue_items q = []"
    and len: "length (iq_stack q) = length cfgs" and mem: "unat (uiMemSize q) = cache_total l cfgs"
    and cnt: "\<And>i. i < length cfgs \<Longrightarrow> ms_cnt (iq_stack q ! i) = snd (cfgs ! i)"
    and sz: "\<And>i. i < length cfgs \<Longrightarrow> unat (ms_size (iq_stack q ! i)) = ML_ALIGN32 (unat (fst (cfgs ! i))) + 4"
    using created_cache[of l cfgs alloc multi, OF assms] by blast
  have lay: "layout_ok l q" using q(2) by (simp add: cache_inv_def)
  show ?thesis
  proof (intro exI[of _ q] conjI allI impI; (elim conjE)?)
    fix i j i' j' assume i: "i < length cfgs" "j < unat (snd (cfgs ! i))"
    then have i': "i < length (iq_stack q)" "j < unat (ms_cnt (iq_stack q ! i))" by (simp_all add: len cnt)
    show "find_block l q (MemStackData l q i j) = Some (i, j)" by (rule find_block_ok[OF lay i'])
    show "sizeof_IDX_QUEUE_S + length cfgs * 4 + idx_n q * sizeof_node l \<le> MemStackData l q i j"
      using first_stack[OF lay i'(1)] len MemStackData_0[of l q i j] by linarith
    show "MemStackData l q i j + ML_ALIGN32 (unat (fst (cfgs ! i))) + 4 \<le> cache_total l cfgs"
      using block_in_stack[OF lay i'] lay i'(1) sz[OF i(1)] mem unfolding layout_ok_def by fastforce
    show "MemStackData l q i j + ML_ALIGN32 (unat (fst (cfgs ! i))) + 4 \<le> MemStackData l q i' j' \<or>
        MemStackData l q i' j' + ML_ALIGN32 (unat (fst (cfgs ! i'))) + 4 \<le> MemStackData l q i j"
      if "i' < length cfgs" "j' < unat (snd (cfgs ! i'))" "(i, j) \<noteq> (i', j')"
    proof -
      have "i' < length (iq_stack q)" "j' < unat (ms_cnt (iq_stack q ! i'))" using that by (simp_all add: len cnt)
      from blocks_disjoint[OF lay that(3) i' this] show ?thesis by (simp only: sz[OF i(1)] sz[OF that(1)] add.assoc)
    qed
  qed (use q in auto)
qed

theorem cache_layout_witness:
  "\<exists>q. Log_CacheCreate 8 (\<lambda>n. n < 0x100000) log_cache_cfg True None = Inr (True, Some q) \<and> find_block 8 q (MemStackData 8 q 3 1023) = Some (3, 1023)"
proof -
  have "cfg_ok 8 log_cache_cfg" "(\<lambda>n. n < 0x100000) (of_nat (cache_total 8 log_cache_cfg) :: u32)"
    by (simp_all add: cfg_ok_def cache_total_def log_cache_cfg_def ML_ALIGN32_def sizeof_node_def sizeof_IDX_QUEUE_S_def sizeof_MEM_STACK_S_def)
  from cache_layout[of 8 log_cache_cfg "\<lambda>n. n < 0x100000" True, OF this] show ?thesis by (auto simp: log_cache_cfg_def)
qed

text \<open>What the code does where it is wrong. A block size whose sum with the two nodes reaches 65536 makes the computed memory too small.\<close>

lemmas cache_eval = Log_CacheCreate_def Log_CacheMalloc_def Log_CacheFree_def Log_CacheReset_def cache_mem_size_def cache_idx_cnt_def block_size_def
  ML_ALIGN32_def sizeof_node_def sizeof_IDX_QUEUE_S_def sizeof_MEM_STACK_S_def stack_head_size_def MemStackSize_def MemStackData_def find_block_def in_stack_block_def
  fits_def set_stack_def stack_malloc_def stack_free_def stack_reset_def stack_eval

lemma create_wraps: "Log_CacheCreate 8 (\<lambda>_. True) [(65500, 1)] False None = Inl OutOfBounds"
  by (simp add: cache_eval)

text \<open>The address of a small cache that is no block is taken for block 0 of the last stack, which is freed though its owner still uses it.\<close>

definition small_cache :: "IDX_QUEUE_S option" where
  "small_cache = (case Log_CacheCreate 8 (\<lambda>_. True) [(32, 2)] False None of Inr (_, g) \<Rightarrow> g | Inl _ \<Rightarrow> None)"

lemma two_lists: "[0..<2] = [0, 1]" "replicate 2 x = [x, x]"
  by (simp_all add: upt_rec numeral_2_eq_2)

lemma small_cache_eval: "small_cache = Some \<lparr>iServerMode = False, uiMemSize = 224, usIdxBlockCnt = 4, ulEnQCnt = 1, usHead = 0, usMsgCnt = 0, iq_off = [68],
    iq_idx = replicate 4 \<lparr>in_ready = False, in_data = 0, in_stack = 0\<rparr>,
    iq_stack = [\<lparr>ms_cnt = 2, ms_size = 36, ms_used = 0, ms_used_max = 0, ms_top = 0, ms_node = [\<lparr>nd_next = 1, nd_used = False\<rparr>, \<lparr>nd_next = 0xFFFF, nd_used = False\<rparr>]\<rparr>], iq_stamp = []\<rparr>"
  by (simp add: small_cache_def cache_eval two_lists)

lemma free_foreign:
  "bindE (Log_CacheMalloc 8 20 small_cache) (\<lambda>(a, g1). bindE (Log_CacheFree 8 (Some 40) g1) (\<lambda>(r, g2).
     bindE (Log_CacheMalloc 8 20 g2) (\<lambda>(b, g3). Inr (a, r, b)))) = Inr (Some 152, 0, Some 152)"
  by (simp add: small_cache_eval cache_eval two_lists)

text \<open>After \<open>Log_CacheReset\<close> a block that was in use is in the list, but its flag stays; when its owner frees it, the list has a loop
  and the block is given to two callers.\<close>

lemma reset_gives_twice:
  "bindE (Log_CacheMalloc 8 20 small_cache) (\<lambda>(a, g1). bindE (Log_CacheReset g1) (\<lambda>(_, g2). bindE (Log_CacheFree 8 (Some 152) g2) (\<lambda>(r, g3).
     bindE (Log_CacheMalloc 8 20 g3) (\<lambda>(b, g4). bindE (Log_CacheMalloc 8 20 g4) (\<lambda>(c, g5). Inr (a, r, b, c)))))) =
   Inr (Some 152, 0, Some 152, Some 152)"
  by (simp add: small_cache_eval cache_eval two_lists)

end
