(* ===== verification/Log_Client.thy ===== *)
theory Log_Client
  imports Log_Cache Text_Util
begin

text \<open>
  The writing side of the log, \<open>lib_bsp/eventservice/log/log_client.cpp\<close>: the table of modules with their levels, the formatting
  of a record, and \<open>WriteCache\<close>, which puts a record into a block of the log cache; and the loop of the server thread that takes the records out
  again. The contents of the blocks are kept beside the cache; the time in the head of a record is the one that \<open>Log_CacheAdd\<close> writes.
  \<open>vsnprintf\<close> is given by its result: the text that the format makes, or none for an error.

  The properties: what was written comes out, in order and unchanged, and all blocks are free afterwards; a module has one number; a trace is written exactly when
  its level, the output and the flow control allow it.
\<close>

section \<open>State\<close>

record LOG_NODE_S =
  ln_length :: u16
  ln_type :: byte
  ln_level :: byte
  ln_sec :: u32
  ln_usec :: u32

record LOG_DBG_MODULE_S =
  dm_level :: byte
  dm_name :: string

record LOG_CLIENT_ENTITY_S =
  sync_print_enable :: bool
  dbg_print_end :: byte
  dbg_module_num :: int
  dbg_module :: "LOG_DBG_MODULE_S list"

record log_state =
  lg_client :: "LOG_CLIENT_ENTITY_S option"
  lg_cache :: "IDX_QUEUE_S option"
  lg_block :: "nat \<Rightarrow> LOG_NODE_S \<times> string"
  lg_sync :: "(int \<times> string) list"

definition LOG_RELEASE_MAX_LEN :: nat where "LOG_RELEASE_MAX_LEN = 256"
definition LOG_DEBUG_MAX_LEN :: nat where "LOG_DEBUG_MAX_LEN = 4096"
definition LOG_MODULE_MAX_NUM :: nat where "LOG_MODULE_MAX_NUM = 32"
definition LOG_MODULE_NAME_LEN :: nat where "LOG_MODULE_NAME_LEN = 16"
definition LOG_MODULE_ID_BASE :: int where "LOG_MODULE_ID_BASE = 2001"
definition LOG_CONTROL_THRESHOLD :: int where "LOG_CONTROL_THRESHOLD = 2000"
definition sizeof_LOG_NODE_S :: nat where "sizeof_LOG_NODE_S = 12"

definition LT_DEBUG :: byte where "LT_DEBUG = 1"
definition LE_OFF :: byte where "LE_OFF = 0"
definition LE_LOCAL :: byte where "LE_LOCAL = 1"
definition LL_INFO :: byte where "LL_INFO = 1"
definition LL_WARNING :: int where "LL_WARNING = 2"
definition LL_NONE :: int where "LL_NONE = 5"

section \<open>Writing a record\<close>

definition block_room :: "nat \<Rightarrow> IDX_QUEUE_S option \<Rightarrow> nat \<Rightarrow> nat" where
  "block_room l g a = (case g of None \<Rightarrow> 0
     | Some q \<Rightarrow> (case find_block l q a of None \<Rightarrow> 0 | Some (i, j) \<Rightarrow> unat (ms_size (iq_stack q ! i))))"

definition WriteCache :: "nat \<Rightarrow> u32 \<Rightarrow> byte \<Rightarrow> byte \<Rightarrow> string \<Rightarrow> log_state \<Rightarrow> mem_error + bool \<times> log_state" where
  "WriteCache l now ty lv data st =
     (let len = length data + sizeof_LOG_NODE_S
      in bindE (Log_CacheMalloc l (of_nat len) (lg_cache st)) (\<lambda>(p, g).
        case p of None \<Rightarrow> Inr (False, st\<lparr>lg_cache := g\<rparr>)
        | Some a \<Rightarrow>
            if len \<le> block_room l g a
            then let st1 = st\<lparr>lg_cache := g, lg_block := (lg_block st)(a := ((fst (lg_block st a))\<lparr>ln_type := ty, ln_level := lv, ln_length := of_nat len\<rparr>, data))\<rparr>
                 in bindE (Log_CacheAdd l now a g) (\<lambda>(r, g1).
                   if r = LOG_ERROR
                   then bindE (Log_CacheFree l (Some (int a)) g1) (\<lambda>(_, g2). Inr (False, st1\<lparr>lg_cache := g2\<rparr>))
                   else Inr (True, st1\<lparr>lg_cache := g1\<rparr>))
            else Inl OutOfBounds))"

text \<open>A record as it lies in its block, with the time that \<open>SetTime\<close> wrote last.\<close>

definition log_record :: "log_state \<Rightarrow> nat \<Rightarrow> LOG_NODE_S \<times> string" where
  "log_record st a =
     (case Option.bind (lg_cache st) (\<lambda>q. map_of (iq_stamp q) a) of
        None \<Rightarrow> lg_block st a
      | Some (sec, usec) \<Rightarrow> ((fst (lg_block st a))\<lparr>ln_sec := sec, ln_usec := usec\<rparr>, snd (lg_block st a)))"

section \<open>The records of a trace\<close>

text \<open>The characters that count after a \<open>vsnprintf\<close> of a text with \<open>limit\<close> bytes: a text that does not fit is cut, and
  the final zero byte is counted as one of its characters.\<close>

definition fmt_text :: "nat \<Rightarrow> string option \<Rightarrow> string" where
  "fmt_text limit fmt = (case fmt of None \<Rightarrow> []
     | Some t \<Rightarrow> if length t < limit then t else if limit = 0 then [] else take (limit - 1) t @ [CHR 0x00])"

definition CatFileName :: "string \<Rightarrow> string" where
  "CatFileName file = rev (takeWhile (\<lambda>c. c \<noteq> CHR ''/'') (rev file))"

definition Log_RelTraceMap2 :: "nat \<Rightarrow> u32 \<Rightarrow> byte \<Rightarrow> u32 \<Rightarrow> u32 \<Rightarrow> string option \<Rightarrow> log_state \<Rightarrow> mem_error + log_state" where
  "Log_RelTraceMap2 l now ty id_1 id_2 fmt st =
     (if lg_client st = None then Inr st
      else let limit = LOG_RELEASE_MAX_LEN - sizeof_LOG_NODE_S - 1;
               ids = int_str (sint id_1) @ '','' @ int_str (sint id_2) @ '',''
           in bindE (WriteCache l now ty (of_int LL_NONE) (ids @ fmt_text (limit - length ids) fmt @ [CHR 0x00]) st) (\<lambda>(_, st'). Inr st'))"

definition Log_RelTrace :: "nat \<Rightarrow> u32 \<Rightarrow> byte \<Rightarrow> string option \<Rightarrow> log_state \<Rightarrow> mem_error + log_state" where
  "Log_RelTrace l now ty fmt st =
     (if lg_client st = None then Inr st
      else bindE (WriteCache l now ty (of_int LL_NONE) (fmt_text (LOG_RELEASE_MAX_LEN - sizeof_LOG_NODE_S - 1) fmt @ [CHR 0x00]) st) (\<lambda>(_, st'). Inr st'))"

definition TraficControl :: "int \<Rightarrow> log_state \<Rightarrow> bool" where
  "TraficControl level st \<longleftrightarrow> LOG_CONTROL_THRESHOLD \<le> Log_CacheCnt (lg_cache st) \<and> LL_WARNING > level"

text \<open>The text of a debug trace: the name of the thread, the file, the line and the message. A prefix that is longer than the buffer makes the bound of the
  next \<open>vsnprintf\<close> negative, which is an error here.\<close>

definition dbg_text :: "string \<Rightarrow> string \<Rightarrow> u32 \<Rightarrow> string option \<Rightarrow> mem_error + string" where
  "dbg_text thread_name file line fmt =
     (let limit = LOG_DEBUG_MAX_LEN - sizeof_LOG_NODE_S - 1;
          pre = thread_name @ '','' @ CatFileName file @ '','' @ int_str (sint line) @ '',''
      in if length pre < limit then Inr (pre @ fmt_text (limit - length pre) fmt @ [CHR 0x00])
         else if length pre = limit then Inr (take (limit - 1) pre @ [CHR 0x00, CHR 0x00])
         else Inl OutOfBounds)"

definition mod_pos :: "int \<Rightarrow> u32" where
  "mod_pos mod_id = of_int (mod_id - LOG_MODULE_ID_BASE)"

definition Log_DbgTrace :: "nat \<Rightarrow> u32 \<Rightarrow> string \<Rightarrow> int \<Rightarrow> int \<Rightarrow> string \<Rightarrow> u32 \<Rightarrow> string option \<Rightarrow> log_state \<Rightarrow> mem_error + log_state" where
  "Log_DbgTrace l now thread_name mod_id level file line fmt st =
     (case lg_client st of None \<Rightarrow> Inr st
      | Some c \<Rightarrow>
          let pos = mod_pos mod_id
          in if pos \<ge> of_int (dbg_module_num c) then Inr st
             else if level < int (unat (dm_level (dbg_module c ! unat pos))) \<or> level \<ge> LL_NONE \<or> dbg_print_end c = LE_OFF then Inr st
             else if TraficControl level st then Inr st
             else bindE (dbg_text thread_name file line fmt) (\<lambda>data.
               if sync_print_enable c \<and> dbg_print_end c AND LE_LOCAL \<noteq> 0 then Inr (st\<lparr>lg_sync := lg_sync st @ [(level, data)]\<rparr>)
               else bindE (WriteCache l now LT_DEBUG (of_int level) data st) (\<lambda>(_, st'). Inr st')))"

section \<open>The modules\<close>

definition set_level :: "nat \<Rightarrow> int \<Rightarrow> LOG_CLIENT_ENTITY_S \<Rightarrow> LOG_CLIENT_ENTITY_S" where
  "set_level pos level c = c\<lparr>dbg_module := (dbg_module c)[pos := (dbg_module c ! pos)\<lparr>dm_level := of_int level\<rparr>]\<rparr>"

definition Log_DbgSetLevel :: "int \<Rightarrow> int \<Rightarrow> LOG_CLIENT_ENTITY_S option \<Rightarrow> bool \<times> LOG_CLIENT_ENTITY_S option" where
  "Log_DbgSetLevel mod_id level g =
     (case g of None \<Rightarrow> (False, g)
      | Some c \<Rightarrow> if unat (mod_pos mod_id) \<ge> LOG_MODULE_MAX_NUM then (False, g) else (True, Some (set_level (unat (mod_pos mod_id)) level c)))"

definition find_log_module :: "string \<Rightarrow> LOG_CLIENT_ENTITY_S \<Rightarrow> nat option" where
  "find_log_module name c = find (\<lambda>i. dm_name (dbg_module c ! i) = name) [0..<nat (dbg_module_num c)]"

text \<open>The name is given to \<open>snprintf\<close> as the format, so one with a percent sign reads arguments that are not there.\<close>

definition Log_DbgModRegist :: "string option \<Rightarrow> int \<Rightarrow> LOG_CLIENT_ENTITY_S option \<Rightarrow> mem_error + int \<times> LOG_CLIENT_ENTITY_S option" where
  "Log_DbgModRegist nm level g =
     (case (g, nm) of
        (Some c, Some name) \<Rightarrow>
          if name = [] then Inr (-1, g)
          else (case find_log_module name c of
              Some pos \<Rightarrow> Inr (int pos + LOG_MODULE_ID_BASE, Some (set_level pos level c))
            | None \<Rightarrow>
                if dbg_module_num c + 1 > int LOG_MODULE_MAX_NUM then Inr (-1, g)
                else if CHR ''%'' \<in> set name then Inl OutOfBounds
                else let pos = nat (dbg_module_num c);
                         c1 = c\<lparr>dbg_module_num := dbg_module_num c + 1,
                                dbg_module := (dbg_module c)[pos := (dbg_module c ! pos)\<lparr>dm_name := take (LOG_MODULE_NAME_LEN - 1) name\<rparr>]\<rparr>
                     in Inr (int pos + LOG_MODULE_ID_BASE, Some (set_level pos level c1)))
      | _ \<Rightarrow> Inr (-1, g))"

definition Log_SetSyncPrint :: "bool \<Rightarrow> LOG_CLIENT_ENTITY_S option \<Rightarrow> bool \<times> LOG_CLIENT_ENTITY_S option" where
  "Log_SetSyncPrint on g = (case g of None \<Rightarrow> (False, g) | Some c \<Rightarrow> (True, Some (c\<lparr>sync_print_enable := on\<rparr>)))"

text \<open>The commands of the terminal that set levels.\<close>

definition atoi :: "string \<Rightarrow> int" where
  "atoi s = sint (word_of_int (strtol s) :: u32)"

definition VtySetLevel :: "string list \<Rightarrow> LOG_CLIENT_ENTITY_S option \<Rightarrow> LOG_CLIENT_ENTITY_S option" where
  "VtySetLevel argv g =
     (case g of None \<Rightarrow> None
      | Some c \<Rightarrow>
          if length argv < 3 then g
          else let level = atoi (argv ! 2)
               in if 0 > level \<or> LL_NONE < level then g
                  else (case find_log_module (argv ! 1) c of None \<Rightarrow> g | Some pos \<Rightarrow> Some (set_level pos level c)))"

definition VtySetALLLevel :: "string list \<Rightarrow> LOG_CLIENT_ENTITY_S option \<Rightarrow> LOG_CLIENT_ENTITY_S option" where
  "VtySetALLLevel argv g =
     (case g of None \<Rightarrow> None
      | Some c \<Rightarrow>
          if length argv < 2 then g
          else let level = atoi (argv ! 1)
               in if 0 > level \<or> LL_NONE < level then g
                  else Some (fold (\<lambda>i. set_level i level) [0..<nat (dbg_module_num c)] c))"

section \<open>Initialisation\<close>

definition new_log_client :: LOG_CLIENT_ENTITY_S where
  "new_log_client = \<lparr>sync_print_enable = False, dbg_print_end = LE_LOCAL, dbg_module_num = 0, dbg_module = replicate LOG_MODULE_MAX_NUM \<lparr>dm_level = 0, dm_name = []\<rparr>\<rparr>"

definition EventBaseReg :: "LOG_CLIENT_ENTITY_S \<Rightarrow> LOG_CLIENT_ENTITY_S" where
  "EventBaseReg c = c\<lparr>dbg_module := (dbg_module c)[0 := \<lparr>dm_level = LL_INFO, dm_name = ''event_base''\<rparr>], dbg_module_num := dbg_module_num c + 1\<rparr>"

definition log_mod_names :: "string list" where
  "log_mod_names = [''ss'', ''ps'', ''avs'', ''alg'', ''evt'', ''stp'', ''bus'', ''web'', ''tcp'', ''tcp_o'', ''http'', ''onvif'', ''dg'', ''record'', ''batch'', ''isp'',
     ''gvetc'', ''lv'', ''onenet'', ''interact_device'', ''sal_media'']"

fun register_all :: "string list \<Rightarrow> LOG_CLIENT_ENTITY_S option \<Rightarrow> mem_error + int list \<times> LOG_CLIENT_ENTITY_S option" where
  "register_all [] g = Inr ([], g)"
| "register_all (n # ns) g = bindE (Log_DbgModRegist (Some n) LL_NONE g) (\<lambda>(i, g1). bindE (register_all ns g1) (\<lambda>(is, g2). Inr (i # is, g2)))"

definition Log_ModRegInit :: "LOG_CLIENT_ENTITY_S option \<Rightarrow> mem_error + int list \<times> LOG_CLIENT_ENTITY_S option" where
  "Log_ModRegInit g = register_all log_mod_names g"

text \<open>\<open>srv\<close> says whether \<open>Log_SrvInit\<close> succeeds, \<open>check\<close> what \<open>Log_CacheCheck\<close> finds: the result and the cache that it attaches.\<close>

definition InitService :: "nat \<Rightarrow> (u32 \<Rightarrow> bool) \<Rightarrow> bool \<Rightarrow> bool \<Rightarrow> bool \<Rightarrow> IDX_QUEUE_S option \<Rightarrow> mem_error + bool \<times> IDX_QUEUE_S option" where
  "InitService l alloc srv multi cache_exist g =
     (if \<not> srv then Inr (False, g)
      else if cache_exist then Log_CacheReset g else Log_CacheCreate l alloc log_cache_cfg multi g)"

definition Log_Init :: "nat \<Rightarrow> (u32 \<Rightarrow> bool) \<Rightarrow> bool \<Rightarrow> int \<times> IDX_QUEUE_S option \<Rightarrow> bool \<Rightarrow> bool \<Rightarrow> log_state \<Rightarrow> mem_error + bool \<times> log_state" where
  "Log_Init l alloc srv check mem multi st =
     (if lg_client st \<noteq> None then Inr (True, st)
      else if \<not> mem then Inr (False, st)
      else bindE
        (if multi
         then (let g = (if fst check = -1 then lg_cache st else snd check)
               in if fst check = -1 then InitService l alloc srv True False g
                  else if fst check = -2 then InitService l alloc srv True True g
                  else Inr (True, g))
         else InitService l alloc srv False False (lg_cache st)) (\<lambda>(ok, g).
          if ok then bindE (Log_ModRegInit (Some (EventBaseReg new_log_client))) (\<lambda>(_, c). Inr (True, st\<lparr>lg_client := c, lg_cache := g\<rparr>))
          else Inr (False, st\<lparr>lg_cache := g\<rparr>)))"

definition Log_Deinit :: "log_state \<Rightarrow> log_state" where
  "Log_Deinit st = (if lg_client st = None then st else st\<lparr>lg_cache := Log_CacheDestory (lg_cache st), lg_client := None\<rparr>)"

section \<open>Taking the records out\<close>

text \<open>The loop of the server thread; \<open>h\<close> is \<open>Log_SvrPullFromClient\<close>.\<close>

partial_function (option) pull_loop :: "nat \<Rightarrow> (LOG_NODE_S \<times> string \<Rightarrow> 's \<Rightarrow> 's) \<Rightarrow> log_state \<Rightarrow> 's \<Rightarrow> (mem_error + log_state \<times> 's) option" where
  "pull_loop l h st s =
     (case Log_CacheGet l (lg_cache st) of
        (None, g) \<Rightarrow> Some (Inr (st\<lparr>lg_cache := g\<rparr>, s))
      | (Some a, g) \<Rightarrow>
          (case Log_CacheFree l (Some (int a)) g of
             Inl e \<Rightarrow> Some (Inl e)
           | Inr (_, g1) \<Rightarrow> pull_loop l h (st\<lparr>lg_cache := g1\<rparr>) (h (log_record st a) s)))"

section \<open>Records go through the cache\<close>

definition log_inv :: "nat \<Rightarrow> log_state \<Rightarrow> bool" where
  "log_inv l st \<longleftrightarrow> 4 \<le> l \<and> (case lg_cache st of None \<Rightarrow> False | Some q \<Rightarrow> cache_inv l q)"

text \<open>The records that wait in the cache.\<close>

definition pending :: "nat \<Rightarrow> log_state \<Rightarrow> (LOG_NODE_S \<times> string) list" where
  "pending l st = (case lg_cache st of None \<Rightarrow> [] | Some q \<Rightarrow> map (\<lambda>b. log_record st (MemStackData l q (fst b) (snd b))) (queue_items q))"

definition the_record :: "u32 \<Rightarrow> byte \<Rightarrow> byte \<Rightarrow> string \<Rightarrow> LOG_NODE_S \<times> string" where
  "the_record now ty lv data = (\<lparr>ln_length = of_nat (length data + sizeof_LOG_NODE_S), ln_type = ty, ln_level = lv, ln_sec = now, ln_usec = 0\<rparr>, data)"

lemma fits_room:
  assumes "4 \<le> l" and "4 \<le> unat (ms_size s)" and "n < 2 ^ 32" and "fits l (of_nat n) s"
  shows "n \<le> unat (ms_size s)"
proof -
  define z where "z = unat (ms_size s)"
  have "(2 :: int) ^ 16 \<le> 2 ^ (8 * l)" using assms(1) by (intro power_increasing) auto
  moreover have "z < 2 ^ 16" "4 \<le> z" using assms(2) unat_u16_less[of "ms_size s"] by (simp_all add: z_def)
  ultimately have "(int z - 4) mod 2 ^ (8 * l) = int z - 4" by (intro mod_pos_pos_trivial) auto
  then show ?thesis using assms(3,4) unat_of_nat_u32[OF assms(3)] unfolding fits_def z_def[symmetric] by linarith
qed

lemma block_addr_inj:
  assumes "layout_ok l q" "block_used q b" "block_used q c" "MemStackData l q (fst b) (snd b) = MemStackData l q (fst c) (snd c)"
  shows "b = c"
proof -
  have "find_block l q (MemStackData l q (fst d) (snd d)) = Some (fst d, snd d)" if "block_used q d" for d
    by (rule find_block_ok[OF assms(1)]) (use that in \<open>auto simp only: block_used_def\<close>)
  from this[OF assms(2)] this[OF assms(3)] show ?thesis unfolding assms(4) by (simp add: prod_eq_iff)
qed

lemma log_record_fresh:
  "a \<noteq> a' \<Longrightarrow> lg_cache st' = Some q' \<Longrightarrow> iq_stamp q' = (a, now, 0) # iq_stamp q \<Longrightarrow> lg_cache st = Some q \<Longrightarrow>
     lg_block st' a' = lg_block st a' \<Longrightarrow> log_record st' a' = log_record st a'"
  by (auto simp: log_record_def split: option.split)

text \<open>The blocks that are in use but do not wait: those that somebody took and has not given back.\<close>

definition owned :: "log_state \<Rightarrow> (nat \<times> nat) set" where
  "owned st = (case lg_cache st of None \<Rightarrow> {} | Some q \<Rightarrow> {b. block_used q b \<and> b \<notin> set (queue_items q)})"

lemma WriteCache_inv:
  assumes inv: "log_inv l st" and len: "length data + sizeof_LOG_NODE_S < 2 ^ 32"
  shows "\<exists>ok st'. WriteCache l now ty lv data st = Inr (ok, st') \<and> log_inv l st' \<and> lg_client st' = lg_client st \<and>
    pending l st' = pending l st @ (if ok then [the_record now ty lv data] else []) \<and> owned st' = owned st \<and>
    (ok \<longleftrightarrow> \<not> no_room l (of_nat (length data + sizeof_LOG_NODE_S)) (the (lg_cache st)))"
proof -
  let ?n = "length data + sizeof_LOG_NODE_S"
  obtain q where q: "lg_cache st = Some q" "cache_inv l q" and l: "4 \<le> l" using inv by (auto simp: log_inv_def split: option.splits)
  from malloc_inv[OF q(2), of "of_nat ?n"] show ?thesis
  proof (elim disjE exE conjE)
    assume full: "no_room l (of_nat ?n) q" and "Log_CacheMalloc l (of_nat ?n) (Some q) = Inr (None, Some q)"
    then have "WriteCache l now ty lv data st = Inr (False, st)" using q(1) by (simp add: WriteCache_def Let_def)
    then show ?thesis using inv full q(1) by (intro exI[of _ False] exI[of _ st]) simp
  next
    fix i j q1 assume room': "\<not> no_room l (of_nat ?n) q" and m: "Log_CacheMalloc l (of_nat ?n) (Some q) = Inr (Some (MemStackData l q1 i j), Some q1)" "cache_inv l q1"
      "queue_items q1 = queue_items q" "same_blocks l q1 q" "fits l (of_nat ?n) (iq_stack q ! i)" "\<not> block_used q (i, j)" "block_used q1 (i, j)"
      "\<forall>b. b \<noteq> (i, j) \<longrightarrow> block_used q1 b = block_used q b"
    let ?a = "MemStackData l q1 i j"
    have lay: "layout_ok l q1" and wait: "\<And>b. b \<in> set (queue_items q) \<Longrightarrow> block_used q b" using m(2) q(2) by (auto simp: cache_inv_def)
    then have new: "(i, j) \<notin> set (queue_items q1)" using m(3,6) by auto
    have i: "i < length (iq_stack q1)" "j < unat (ms_cnt (iq_stack q1 ! i))" using m(7) by (auto simp: block_used_def)
    have "4 \<le> unat (ms_size (iq_stack q ! i))" using lay i m(4) by (simp add: layout_ok_def same_blocks_def)
    then have room: "?n \<le> block_room l (Some q1) ?a"
      using fits_room[OF l _ len m(5)] find_block_ok[OF lay i] m(4) by (simp add: block_room_def same_blocks_def)
    obtain q2 where a: "Log_CacheAdd l now ?a (Some q1) = Inr (LOG_OK, Some q2)" "cache_inv l q2" "queue_items q2 = queue_items q1 @ [(i, j)]"
      "iq_stack q2 = iq_stack q1" "iq_off q2 = iq_off q1" "iq_stamp q2 = (?a, now, 0) # iq_stamp q1"
      using add_inv[OF m(2,7) new, of now] by auto
    define st' where "st' = st\<lparr>lg_cache := Some q2, lg_block := (lg_block st)(?a := ((fst (lg_block st ?a))\<lparr>ln_type := ty, ln_level := lv, ln_length := of_nat ?n\<rparr>, data))\<rparr>"
    have run: "WriteCache l now ty lv data st = Inr (True, st')"
      using q(1) m(1) room a(1) by (simp add: WriteCache_def Let_def LOG_OK_def LOG_ERROR_def st'_def)
    have addr: "MemStackData l q2 k m = MemStackData l q k m" for k m
    proof -
      have "MemStackData l q2 k m = MemStackData l q1 k m" unfolding MemStackData_def a(4,5) ..
      then show ?thesis using m(4) by (simp add: same_blocks_def)
    qed
    have rec: "log_record st' ?a = the_record now ty lv data"
      by (simp add: log_record_def st'_def a(6) the_record_def)
    have old: "log_record st' (MemStackData l q (fst b) (snd b)) = log_record st (MemStackData l q (fst b) (snd b))" if "b \<in> set (queue_items q)" for b
    proof (rule log_record_fresh)
      have "b \<noteq> (i, j)" using wait[OF that] m(6) by auto
      moreover from this have "block_used q1 b" using wait[OF that] m(8) by blast
      ultimately show "?a \<noteq> MemStackData l q (fst b) (snd b)"
        using block_addr_inj[OF lay _ m(7), of b] m(4) by (auto simp: same_blocks_def)
      then show "lg_block st' (MemStackData l q (fst b) (snd b)) = lg_block st (MemStackData l q (fst b) (snd b))" by (simp add: st'_def)
      show "iq_stamp q2 = (?a, now, 0) # iq_stamp q" using a(6) m(4) by (simp add: same_blocks_def)
    qed (simp_all add: st'_def q(1))
    have "pending l st' = pending l st @ [the_record now ty lv data]"
      using old rec m(3,4) a(3) by (simp add: pending_def q(1) st'_def same_blocks_def) (simp add: addr[symmetric] st'_def)
    moreover have "log_inv l st'" using a(2) l by (simp add: log_inv_def st'_def)
    moreover have "owned st' = owned st"
    proof -
      have "block_used q2 b = block_used q1 b" for b by (simp add: block_used_def a(4))
      then have "block_used q2 b \<and> b \<notin> set (queue_items q2) \<longleftrightarrow> block_used q b \<and> b \<notin> set (queue_items q)" for b
        using spec[OF m(8), of b] m(3,6) a(3) by (cases "b = (i, j)") auto
      then show ?thesis by (simp add: owned_def q(1) st'_def)
    qed
    moreover have "lg_client st' = lg_client st" by (simp add: st'_def)
    ultimately show ?thesis using run room' q(1) by (intro exI[of _ True] exI[of _ st']) simp
  qed
qed

lemma pull_loop_ok:
  assumes "4 \<le> l" and "lg_cache st = Some q" and "cache_inv l q"
  shows "\<exists>st' q'. pull_loop l h st s = Some (Inr (st', fold h (pending l st) s)) \<and> lg_cache st' = Some q' \<and> cache_inv l q' \<and>
    queue_items q' = [] \<and> lg_client st' = lg_client st \<and> (\<forall>b. block_used q' b \<longleftrightarrow> block_used q b \<and> b \<notin> set (queue_items q))"
  using assms
proof (induction "queue_items q" arbitrary: st q s)
  case Nil
  then have "Log_CacheGet l (Some q) = (None, Some q)" using get_inv[of l q] by (simp split: list.splits)
  then show ?case using Nil by (subst pull_loop.simps) (simp add: pending_def)
next
  case (Cons b bs)
  obtain q1 where q1: "Log_CacheGet l (Some q) = (Some (MemStackData l q (fst b) (snd b)), Some q1)" "cache_inv l q1" "queue_items q1 = bs"
    "iq_stack q1 = iq_stack q" "iq_off q1 = iq_off q" "iq_stamp q1 = iq_stamp q"
    using get_inv[OF Cons.prems(3)] unfolding Cons.hyps(2)[symmetric] list.case by blast
  have b: "block_used q b" "b \<notin> set bs" using Cons.prems(3) Cons.hyps(2)[symmetric] by (auto simp: cache_inv_def)
  have used1: "block_used q1 c = block_used q c" for c by (simp add: block_used_def q1(4))
  have addr1: "MemStackData l q1 i j = MemStackData l q i j" for i j unfolding MemStackData_def q1(4,5) ..
  obtain q2 where q2: "Log_CacheFree l (Some (int (MemStackData l q (fst b) (snd b)))) (Some q1) = Inr (0, Some q2)" "cache_inv l q2"
    "queue_items q2 = bs" "same_blocks l q2 q1" "\<not> block_used q2 b" "\<And>c. c \<noteq> b \<Longrightarrow> block_used q2 c = block_used q1 c"
    using free_inv[OF q1(2), of "fst b" "snd b"] b used1 q1(3) by (auto simp: addr1)
  let ?st = "st\<lparr>lg_cache := Some q2\<rparr>"
  have "pending l ?st = map (\<lambda>c. log_record st (MemStackData l q (fst c) (snd c))) bs"
    using q2(3,4) q1(6) Cons.prems(2) addr1 by (simp add: pending_def same_blocks_def log_record_def split: option.split)
  then have pend: "pending l st = log_record st (MemStackData l q (fst b) (snd b)) # pending l ?st"
    using Cons.hyps(2)[symmetric] Cons.prems(2) by (simp add: pending_def)
  have cache2: "lg_cache ?st = Some q2" and client2: "lg_client ?st = lg_client st" by simp_all
  obtain st' q' where r: "pull_loop l h ?st (h (log_record st (MemStackData l q (fst b) (snd b))) s) =
        Some (Inr (st', fold h (pending l ?st) (h (log_record st (MemStackData l q (fst b) (snd b))) s)))"
    "lg_cache st' = Some q'" "cache_inv l q'" "queue_items q' = []" "lg_client st' = lg_client st"
    "\<forall>c. block_used q' c \<longleftrightarrow> block_used q2 c \<and> c \<notin> set (queue_items q2)"
    using Cons.hyps(1)[OF q2(3)[symmetric] Cons.prems(1) cache2 q2(2), of "h (log_record st (MemStackData l q (fst b) (snd b))) s"] client2 by metis
  have "pull_loop l h st s = Some (Inr (st', fold h (pending l st) s))"
    using Cons.prems(2) q1(1) q2(1) r(1) pend by (subst pull_loop.simps) simp
  moreover have "block_used q' c \<longleftrightarrow> block_used q c \<and> c \<notin> set (queue_items q)" for c
    using spec[OF r(6), of c] q2(3,5) q2(6)[of c] used1[of c] Cons.hyps(2)[symmetric] by (cases "c = b") auto
  ultimately show ?case using r by blast
qed

text \<open>A sequence of writes with their times, types, levels and texts, and what each of them returned.\<close>

fun write_all :: "nat \<Rightarrow> (u32 \<times> byte \<times> byte \<times> string) list \<Rightarrow> log_state \<Rightarrow> mem_error + bool list \<times> log_state" where
  "write_all l [] st = Inr ([], st)"
| "write_all l ((now, ty, lv, data) # ws) st =
     bindE (WriteCache l now ty lv data st) (\<lambda>(ok, st1). bindE (write_all l ws st1) (\<lambda>(oks, st2). Inr (ok # oks, st2)))"

definition written :: "bool list \<Rightarrow> (u32 \<times> byte \<times> byte \<times> string) list \<Rightarrow> (LOG_NODE_S \<times> string) list" where
  "written oks ws = map (\<lambda>(_, now, ty, lv, data). the_record now ty lv data) (filter fst (zip oks ws))"

lemma write_all_inv:
  assumes "log_inv l st" and "\<forall>(now, ty, lv, data) \<in> set ws. length data + sizeof_LOG_NODE_S < 2 ^ 32"
  shows "\<exists>oks st'. write_all l ws st = Inr (oks, st') \<and> length oks = length ws \<and> log_inv l st' \<and> pending l st' = pending l st @ written oks ws \<and>
    owned st' = owned st \<and> lg_client st' = lg_client st"
  using assms
proof (induction l ws st rule: write_all.induct)
  case (2 l now ty lv data ws st)
  obtain ok st1 where w: "WriteCache l now ty lv data st = Inr (ok, st1)" "log_inv l st1" "lg_client st1 = lg_client st"
    "pending l st1 = pending l st @ (if ok then [the_record now ty lv data] else [])" "owned st1 = owned st"
    using WriteCache_inv[of l st data now ty lv] 2(2,3) by auto
  obtain oks st2 where r: "write_all l ws st1 = Inr (oks, st2)" "length oks = length ws" "log_inv l st2"
    "pending l st2 = pending l st1 @ written oks ws" "owned st2 = owned st1" "lg_client st2 = lg_client st1"
    using 2(1)[of st1] w(2) 2(3) by auto
  have "pending l st2 = pending l st @ written (ok # oks) ((now, ty, lv, data) # ws)"
    using r(4) w(4) by (simp add: written_def)
  then show ?case using w r by (intro exI[of _ "ok # oks"] exI[of _ st2]) simp
qed (simp add: written_def)

text \<open>C39. Records go through the cache unchanged: after any sequence of writes, none of which is an error, the loop of the server thread ends, hands over
  the records that waited before and then, in order, exactly those records whose \<open>WriteCache\<close> returned true, each with the length, type, level, time and text it was written with, and leaves
  an empty queue and the blocks of all these records free.\<close>

theorem log_roundtrip:
  assumes "log_inv l st" and "\<forall>(now, ty, lv, data) \<in> set ws. length data + sizeof_LOG_NODE_S < 2 ^ 32"
  shows "\<exists>oks st1 st2. write_all l ws st = Inr (oks, st1) \<and> length oks = length ws \<and>
    pull_loop l (\<lambda>r rs. rs @ [r]) st1 [] = Some (Inr (st2, pending l st @ written oks ws)) \<and>
    log_inv l st2 \<and> pending l st2 = [] \<and> owned st2 = owned st"
proof -
  obtain oks st1 where w: "write_all l ws st = Inr (oks, st1)" "length oks = length ws" "log_inv l st1"
    "pending l st1 = pending l st @ written oks ws" "owned st1 = owned st"
    using write_all_inv[OF assms] by blast
  from w(3) obtain q where q: "4 \<le> l" "lg_cache st1 = Some q" "cache_inv l q" by (auto simp: log_inv_def split: option.splits)
  have all: "fold (\<lambda>r rs. rs @ [r]) xs acc = acc @ xs" for xs acc :: "(LOG_NODE_S \<times> string) list" by (induction xs arbitrary: acc) auto
  obtain st2 q2 where p: "pull_loop l (\<lambda>r rs. rs @ [r]) st1 [] = Some (Inr (st2, pending l st1))" "lg_cache st2 = Some q2" "cache_inv l q2"
    "queue_items q2 = []" "\<forall>b. block_used q2 b \<longleftrightarrow> block_used q b \<and> b \<notin> set (queue_items q)"
    using pull_loop_ok[OF q, of "\<lambda>r rs. rs @ [r]" "[]"] all by auto
  have "log_inv l st2" "pending l st2 = []" using q(1) p by (simp_all add: log_inv_def pending_def)
  moreover have "owned st2 = owned st1" using q(2) p(2,4) Collect_cong[OF spec[OF p(5)]] by (simp add: owned_def)
  ultimately show ?thesis using w p(1) by auto
qed

definition small_log :: log_state where
  "small_log = \<lparr>lg_client = None, lg_cache = small_cache, lg_block = (\<lambda>_. (\<lparr>ln_length = 0, ln_type = 0, ln_level = 0, ln_sec = 0, ln_usec = 0\<rparr>, [])), lg_sync = []\<rparr>"

lemma small_log_inv: "log_inv 8 small_log" and small_log_pending: "pending 8 small_log = []"
proof -
  have "cfg_ok 8 [(32, 2)]"
    by (simp add: cfg_ok_def cache_total_def ML_ALIGN32_def sizeof_node_def sizeof_IDX_QUEUE_S_def sizeof_MEM_STACK_S_def)
  from cache_create_inv[OF this, of "\<lambda>_. True" False] obtain q where "lg_cache small_log = Some q" and q: "cache_inv 8 q" "queue_items q = []"
    by (auto simp: small_cache_def small_log_def)
  then show "log_inv 8 small_log" "pending 8 small_log = []" unfolding log_inv_def pending_def by simp_all
qed

theorem log_roundtrip_witness:
  "\<exists>oks st1 st2. write_all 8 [(7, 4, 5, ''up''), (8, 1, 2, ''slow''), (9, 4, 5, ''down'')] small_log = Inr (oks, st1) \<and>
    pull_loop 8 (\<lambda>r rs. rs @ [r]) st1 [] = Some (Inr (st2, written oks [(7, 4, 5, ''up''), (8, 1, 2, ''slow''), (9, 4, 5, ''down'')]))"
proof -
  have "\<forall>(now, ty, lv, data) \<in> set [(7, 4, 5, ''up''), (8, 1, 2, ''slow''), (9, 4, 5, ''down'')]. length data + sizeof_LOG_NODE_S < 2 ^ 32"
    by (simp add: sizeof_LOG_NODE_S_def)
  from log_roundtrip[OF small_log_inv this] show ?thesis unfolding small_log_pending by auto
qed

section \<open>Lengths of records and numbers of modules\<close>

lemma fmt_text_length: "length (fmt_text limit fmt) \<le> limit"
  by (auto simp: fmt_text_def split: option.splits)

text \<open>A record of a trace is never longer than the largest block that is configured for its kind.\<close>

lemma dbg_text_length: "dbg_text tn file line fmt = Inr data \<Longrightarrow> length data + sizeof_LOG_NODE_S \<le> LOG_DEBUG_MAX_LEN"
  using fmt_text_length[of "LOG_DEBUG_MAX_LEN - sizeof_LOG_NODE_S - 1 - length (tn @ '','' @ CatFileName file @ '','' @ int_str (sint line) @ '','')" fmt]
  by (auto simp: dbg_text_def Let_def LOG_DEBUG_MAX_LEN_def sizeof_LOG_NODE_S_def split: if_splits)

lemma rel_text_length: "length (fmt_text (LOG_RELEASE_MAX_LEN - sizeof_LOG_NODE_S - 1) fmt @ [CHR 0x00]) + sizeof_LOG_NODE_S \<le> LOG_RELEASE_MAX_LEN"
  using fmt_text_length[of "LOG_RELEASE_MAX_LEN - sizeof_LOG_NODE_S - 1" fmt] by (simp add: LOG_RELEASE_MAX_LEN_def sizeof_LOG_NODE_S_def)

text \<open>A debug trace is an error only if its prefix is too long; it is dropped, printed or put into the cache as one record.\<close>

lemma dbg_trace_inv:
  assumes inv: "log_inv l st" and c: "lg_client st = Some c"
    and "length (thread_name @ '','' @ CatFileName file @ '','' @ int_str (sint line) @ '','') < LOG_DEBUG_MAX_LEN - sizeof_LOG_NODE_S"
  shows "\<exists>st'. Log_DbgTrace l now thread_name mod_id level file line fmt st = Inr st' \<and> log_inv l st' \<and> lg_client st' = Some c \<and>
    length (pending l st') + length (lg_sync st') \<le> length (pending l st) + length (lg_sync st) + 1 \<and> owned st' = owned st"
proof -
  obtain data where d: "dbg_text thread_name file line fmt = Inr data"
    using assms(3) by (cases "dbg_text thread_name file line fmt") (auto simp: dbg_text_def Let_def LOG_DEBUG_MAX_LEN_def sizeof_LOG_NODE_S_def split: if_splits)
  then have "length data + sizeof_LOG_NODE_S < 2 ^ 32" using dbg_text_length[OF d] by (simp add: LOG_DEBUG_MAX_LEN_def)
  from WriteCache_inv[OF inv this, of now LT_DEBUG "of_int level"] obtain ok st1
    where w: "WriteCache l now LT_DEBUG (of_int level) data st = Inr (ok, st1)" "log_inv l st1" "lg_client st1 = Some c"
      "pending l st1 = pending l st @ (if ok then [the_record now LT_DEBUG (of_int level) data] else [])" "owned st1 = owned st"
    using c by auto
  have same: "lg_sync st1 = lg_sync st"
    using w(1) by (auto simp: WriteCache_def Let_def bindE_Inr_iff split: option.splits if_splits)
  have p: "pending l (st\<lparr>lg_sync := xs\<rparr>) = pending l st" "log_inv l (st\<lparr>lg_sync := xs\<rparr>)" "owned (st\<lparr>lg_sync := xs\<rparr>) = owned st" for xs
    using inv by (simp_all add: pending_def log_inv_def owned_def log_record_def split: option.split)
  show ?thesis
    unfolding Log_DbgTrace_def c option.case Let_def d bindE_simps
    using inv c w same p by auto
qed

text \<open>The names of the modules are different, so a name has one number.\<close>

definition mod_inv :: "LOG_CLIENT_ENTITY_S \<Rightarrow> bool" where
  "mod_inv c \<longleftrightarrow> length (dbg_module c) = LOG_MODULE_MAX_NUM \<and> 0 \<le> dbg_module_num c \<and> dbg_module_num c \<le> int LOG_MODULE_MAX_NUM \<and>
     (\<forall>i < nat (dbg_module_num c). \<forall>j < nat (dbg_module_num c). dm_name (dbg_module c ! i) = dm_name (dbg_module c ! j) \<longrightarrow> i = j)"

lemma set_level_simps [simp]:
  "dm_name (dbg_module (set_level pos level c) ! i) = dm_name (dbg_module c ! i)" "dbg_module_num (set_level pos level c) = dbg_module_num c"
  "length (dbg_module (set_level pos level c)) = length (dbg_module c)"
  "find_log_module n (set_level pos level c) = find_log_module n c" "mod_inv (set_level pos level c) = mod_inv c"
proof -
  show name: "dm_name (dbg_module (set_level pos level c) ! i) = dm_name (dbg_module c ! i)" for i
    by (cases "i = pos"; cases "pos < length (dbg_module c)") (simp_all add: set_level_def list_update_beyond)
  show num: "dbg_module_num (set_level pos level c) = dbg_module_num c" "length (dbg_module (set_level pos level c)) = length (dbg_module c)"
    by (simp_all add: set_level_def)
  show "find_log_module n (set_level pos level c) = find_log_module n c" "mod_inv (set_level pos level c) = mod_inv c"
    by (simp_all add: find_log_module_def mod_inv_def name num)
qed

lemma find_log_module_iff:
  assumes "mod_inv c"
  shows "find_log_module name c = Some i \<longleftrightarrow> i < nat (dbg_module_num c) \<and> dm_name (dbg_module c ! i) = name"
    and "find_log_module name c = None \<longleftrightarrow> (\<forall>i < nat (dbg_module_num c). dm_name (dbg_module c ! i) \<noteq> name)"
proof -
  have "i = j" if "i < nat (dbg_module_num c)" "j < nat (dbg_module_num c)" "dm_name (dbg_module c ! i) = dm_name (dbg_module c ! j)" for i j
    using assms that unfolding mod_inv_def by blast
  then show "find_log_module name c = Some i \<longleftrightarrow> i < nat (dbg_module_num c) \<and> dm_name (dbg_module c ! i) = name"
    unfolding find_log_module_def find_Some_iff by (auto intro!: exI[of _ i]) (metis less_trans nat_neq_iff)
  show "find_log_module name c = None \<longleftrightarrow> (\<forall>i < nat (dbg_module_num c). dm_name (dbg_module c ! i) \<noteq> name)"
    by (auto simp: find_log_module_def find_None_iff)
qed

lemma regist_known:
  assumes "find_log_module name c = Some pos" "name \<noteq> []"
  shows "Log_DbgModRegist (Some name) level (Some c) = Inr (int pos + LOG_MODULE_ID_BASE, Some (set_level pos level c))"
  using assms by (simp add: Log_DbgModRegist_def)

text \<open>A new module gets the next number, and its name is found under it from then on; the others keep theirs.\<close>

lemma regist_new:
  assumes inv: "mod_inv c" and name: "name \<noteq> []" "length name < LOG_MODULE_NAME_LEN" "CHR ''%'' \<notin> set name"
    and new: "find_log_module name c = None" "dbg_module_num c < int LOG_MODULE_MAX_NUM"
  obtains c' where "Log_DbgModRegist (Some name) level (Some c) = Inr (dbg_module_num c + LOG_MODULE_ID_BASE, Some c')" "mod_inv c'"
    "find_log_module name c' = Some (nat (dbg_module_num c))" "\<And>n p. n \<noteq> name \<Longrightarrow> find_log_module n c' = Some p \<longleftrightarrow> find_log_module n c = Some p"
proof
  let ?pos = "nat (dbg_module_num c)"
  let ?c1 = "c\<lparr>dbg_module_num := dbg_module_num c + 1, dbg_module := (dbg_module c)[?pos := (dbg_module c ! ?pos)\<lparr>dm_name := name\<rparr>]\<rparr>"
  have pos: "0 \<le> dbg_module_num c" "?pos < length (dbg_module c)" using inv new(2) by (auto simp: mod_inv_def)
  have num: "nat (dbg_module_num c + 1) = Suc ?pos" using pos by simp
  have nm: "dm_name (dbg_module ?c1 ! i) = (if i = ?pos then name else dm_name (dbg_module c ! i))" for i using pos by simp
  have other: "dm_name (dbg_module c ! i) \<noteq> name" if "i < ?pos" for i using new(1) that find_log_module_iff(2)[OF inv] by blast
  show "Log_DbgModRegist (Some name) level (Some c) = Inr (dbg_module_num c + LOG_MODULE_ID_BASE, Some (set_level ?pos level ?c1))"
    using name new pos by (simp add: Log_DbgModRegist_def Let_def)
  have inv1: "mod_inv ?c1"
    unfolding mod_inv_def
  proof (intro conjI allI impI)
    fix i j assume "i < nat (dbg_module_num ?c1)" "j < nat (dbg_module_num ?c1)" "dm_name (dbg_module ?c1 ! i) = dm_name (dbg_module ?c1 ! j)"
    then show "i = j" using other[of i] other[of j] inv num unfolding nm by (auto simp: mod_inv_def less_Suc_eq split: if_splits)
  qed (use inv new(2) in \<open>auto simp: mod_inv_def\<close>)
  then show "mod_inv (set_level ?pos level ?c1)" by simp
  show "find_log_module name (set_level ?pos level ?c1) = Some ?pos"
    using find_log_module_iff(1)[OF inv1, of name ?pos] num nm by simp
  show "find_log_module n (set_level ?pos level ?c1) = Some p \<longleftrightarrow> find_log_module n c = Some p" if "n \<noteq> name" for n p
    using find_log_module_iff(1)[OF inv1, of n p] find_log_module_iff(1)[OF inv, of n p] num nm that
    by (auto simp: less_Suc_eq)
qed

text \<open>A name of 16 characters or more is cut when it is stored and never found again, so each registration takes another number.\<close>

lemma long_name_twice:
  "map_sum id fst (register_all [''a_very_long_name'', ''a_very_long_name''] (Some (EventBaseReg new_log_client))) = Inr [2002, 2003]"
  by code_simp

lemma module_numbers: "map_sum id fst (Log_ModRegInit (Some (EventBaseReg new_log_client))) = Inr (map int [2002..<2023])"
  by code_simp

end
