(* ===== verification/Log_Server.thy ===== *)
theory Log_Server
  imports Log_Client Byte_Order
begin

text \<open>
  The log server, \<open>lib_bsp/eventservice/log/log_server.cpp\<close>: it takes the records out of the log cache, prints them or collects them in a second cache for
  each type of log, and writes that cache to a pair of files for the type, a data file and an index of the positions of its records. When a file is full the server goes on with
  the other of two files. At its start it checks the files, rebuilds an index and finds the last number given to a record.

  The arrays over the types of logs, in the configuration and in the status, are one record for each type here, together with the two pairs of files of that type.
  A file is its bytes or absent; opening a file for update fails exactly when it is absent, and reads and writes do not fail. The machine is little endian.

  The properties: files and indexes always describe the same records; what is taken from the clients is appended to the log and only whole files of the oldest records are dropped;
  the check at the start keeps a log that is in order; and the states in which long records, a missing index or a change of the size of the cache leave the server.
\<close>

section \<open>State\<close>

record log_file =
  print_end :: byte
  file_maxlen :: u32
  cache_maxsize :: u32
  cfg_overtime :: u16
  overtime_cnt :: u16
  next_need_write :: bool
  cur_file_id :: nat
  cur_file_len :: u32
  cache_len :: u32
  fcache :: "byte list"
  f_data :: "byte list option list"
  f_index :: "byte list option list"

record log_server =
  sv_file :: "log_file list"
  sv_flush_cache :: bool
  sv_cur_log_id :: u32
  sv_last_time :: "u32 \<times> u32"
  sv_pull_wait_ms :: u16
  sv_ip :: u32
  sv_output_buf :: string
  sv_stdout :: "string list"
  sv_udp :: "string list"
  sv_udp_id :: nat

definition LOG_FILE_NODE_HEAD :: byte where "LOG_FILE_NODE_HEAD = 0x47"
definition LOG_FILF_GROUP_MAXCNT :: nat where "LOG_FILF_GROUP_MAXCNT = 2"
definition LOG_SRV_FILE_TYPE_MAX :: nat where "LOG_SRV_FILE_TYPE_MAX = 8"
definition LE_REMOTE :: byte where "LE_REMOTE = 2"
definition LE_FILE :: byte where "LE_FILE = 4"

definition Log_SrvGetFileType :: "byte \<Rightarrow> nat option" where
  "Log_SrvGetFileType ty =
     (if ty = 0x01 then Some 0 else if ty = 0x02 then Some 1 else if ty = 0x04 then Some 2 else if ty = 0x08 then Some 3
      else if ty = 0x10 then Some 4 else if ty = 0x20 then Some 5 else if ty = 0x40 then Some 6 else if ty = 0x80 then Some 7 else None)"

definition Log_SrvGetType :: "nat \<Rightarrow> byte \<times> bool" where
  "Log_SrvGetType fid =
     (if fid = 1 then (0x02, True) else if fid = 2 then (0x04, True) else if fid = 3 then (0x08, True) else if fid = 4 then (0x10, True)
      else if fid = 5 then (0x20, True) else if fid = 6 then (0x40, True) else if fid = 7 then (0x80, True) else (0x01, False))"

section \<open>Writing a file\<close>

text \<open>The positions that go into the index: the loop steps over the records by the length in their heads and stops at a byte that is no head.\<close>

function index_loop :: "byte list \<Rightarrow> nat \<Rightarrow> nat \<Rightarrow> u32 \<Rightarrow> mem_error + u32 list" where
  "index_loop buf n i base =
     (if i < n then
        (if length buf \<le> i then Inl OutOfBounds
         else if buf ! i \<noteq> LOG_FILE_NODE_HEAD then Inr []
         else if length buf < i + 7 then Inl OutOfBounds
         else bindE (index_loop buf n (i + 7 + unat (le_word (take 2 (drop (i + 5) buf)) :: u16)) base) (\<lambda>es. Inr ((base + of_nat i) # es)))
      else Inr [])"
  by pat_completeness auto
termination by (relation "measure (\<lambda>(buf, n, i, base). n - i)") auto

declare index_loop.simps [simp del]

text \<open>Entries are appended from the last multiple of four bytes.\<close>

definition append_index :: "byte list \<Rightarrow> u32 list \<Rightarrow> byte list" where
  "append_index idx es = (if es = [] then idx else take (length idx div 4 * 4) idx @ concat (map (le_bytes 4) es))"

definition Log_SvrWrite :: "log_file \<Rightarrow> mem_error + int \<times> log_file" where
  "Log_SvrWrite f =
     (if cache_len f = 0 then Inr (0, f)
      else let w = next_need_write f;
               f0 = (if w then f\<lparr>next_need_write := False, cur_file_len := 0\<rparr> else f);
               k = cur_file_id f
           in case (if w then Some [] else f_data f ! k) of
                None \<Rightarrow> Inr (-2, f0)
              | Some data \<Rightarrow>
                  let f1 = f0\<lparr>cur_file_len := of_nat (length data), f_data := (f_data f)[k := Some data]\<rparr>
                  in (case (if w then Some [] else f_index f ! k) of
                        None \<Rightarrow> Inr (-5, f1)
                      | Some idx \<Rightarrow>
                          if length (fcache f) < unat (cache_len f) then Inl OutOfBounds
                          else bindE (index_loop (fcache f) (unat (cache_len f)) 0 (cur_file_len f1)) (\<lambda>es.
                            Inr (0, f1\<lparr>f_data := (f_data f)[k := Some (data @ take (unat (cache_len f)) (fcache f))],
                              f_index := (f_index f)[k := Some (append_index idx es)],
                              cur_file_len := cur_file_len f1 + cache_len f, cache_len := 0, overtime_cnt := cfg_overtime f\<rparr>))))"

text \<open>\<open>Log_SvrClear\<close>: all files are emptied and the numbers start again.\<close>

definition clear_file :: "log_file \<Rightarrow> log_file" where
  "clear_file f = f\<lparr>f_data := map (\<lambda>_. Some []) (f_data f), f_index := map (\<lambda>_. Some []) (f_index f), cur_file_len := 0, cache_len := 0\<rparr>"

definition Log_SvrClear :: "log_server \<Rightarrow> log_server" where
  "Log_SvrClear s = s\<lparr>sv_cur_log_id := 1, sv_file := map clear_file (sv_file s)\<rparr>"

section \<open>Taking a record from a client\<close>

definition node_bytes :: "LOG_NODE_S \<times> string \<Rightarrow> byte list" where
  "node_bytes r = (case r of (n, body) \<Rightarrow> le_bytes 2 (ln_length n) @ [ln_type n, ln_level n] @ le_bytes 4 (ln_sec n) @ le_bytes 4 (ln_usec n) @ map of_char body)"

text \<open>A record that is too long is cut in its block: the length in its head becomes 256 and its last byte 0.\<close>

definition cut_node :: "LOG_NODE_S \<times> string \<Rightarrow> byte list" where
  "cut_node r =
     (let bs = node_bytes r
      in if unat (ln_length (fst r)) > LOG_RELEASE_MAX_LEN
         then (le_bytes 2 (of_nat LOG_RELEASE_MAX_LEN :: u16) @ drop 2 bs)[LOG_RELEASE_MAX_LEN - 1 := 0] else bs)"

definition cut_length :: "LOG_NODE_S \<times> string \<Rightarrow> nat" where
  "cut_length r = min (unat (ln_length (fst r))) LOG_RELEASE_MAX_LEN"

text \<open>The text of a record with its time and level, at most 1019 characters; a level that does not exist leaves the buffer as it is. \<open>line\<close> is the
  formatted line of the bytes of a record.\<close>

definition Log_SvrReadyOutputString :: "(byte list \<Rightarrow> string) \<Rightarrow> LOG_NODE_S \<times> string \<Rightarrow> log_server \<Rightarrow> log_server" where
  "Log_SvrReadyOutputString line r s = (if unat (ln_level (fst r)) \<le> 5 then s\<lparr>sv_output_buf := take 1019 (line (cut_node r))\<rparr> else s)"

text \<open>The buffer has 1024 bytes; the line with its number is cut to 1023 characters before a newline and a zero are added.\<close>

definition Log_SvrUdpSendNode :: "log_server \<Rightarrow> mem_error + log_server" where
  "Log_SvrUdpSendNode s =
     (if sv_ip s = 0 then Inr s
      else let k = sv_udp_id s + 1;
               t = take 1023 (nat_str k @ '':'' @ sv_output_buf s)
           in if length t + 1 < 1024 then Inr (s\<lparr>sv_udp_id := k, sv_output_buf := t @ [LF], sv_udp := sv_udp s @ [t @ [LF, NUL]]\<rparr>)
              else Inl OutOfBounds)"

definition set_file :: "nat \<Rightarrow> log_file \<Rightarrow> log_server \<Rightarrow> log_server" where
  "set_file fid f s = s\<lparr>sv_file := (sv_file s)[fid := f]\<rparr>"

definition show_node :: "(byte list \<Rightarrow> string) \<Rightarrow> nat \<Rightarrow> LOG_NODE_S \<times> string \<Rightarrow> log_server \<Rightarrow> mem_error + log_server" where
  "show_node line fid r s =
     (let pe = print_end (sv_file s ! fid)
      in if pe AND (LE_LOCAL OR LE_REMOTE) = 0 then Inr s
         else let s1 = Log_SvrReadyOutputString line r s;
                  s2 = (if pe AND LE_LOCAL \<noteq> 0 then s1\<lparr>sv_stdout := sv_stdout s1 @ [sv_output_buf s1]\<rparr> else s1)
              in if pe AND LE_REMOTE \<noteq> 0 then Log_SvrUdpSendNode s2 else Inr s2)"

text \<open>The number of bytes counted for a record is computed before the record is cut.\<close>

definition rotate_file :: "u32 \<Rightarrow> log_file \<Rightarrow> log_file" where
  "rotate_file n f =
     (if cur_file_len f + cache_len f + n > file_maxlen f
      then f\<lparr>cur_file_id := (cur_file_id f + 1) mod LOG_FILF_GROUP_MAXCNT, next_need_write := True, cur_file_len := 0\<rparr> else f)"

definition put_node :: "u32 \<Rightarrow> byte list \<Rightarrow> u32 \<Rightarrow> log_file \<Rightarrow> mem_error + log_file" where
  "put_node rid bs n f =
     bindE (copy_in (fcache f) (unat (cache_len f)) (LOG_FILE_NODE_HEAD # le_bytes 4 rid @ bs @ le_bytes 2 (of_nat (length bs) :: u16))) (\<lambda>c.
       Inr (f\<lparr>fcache := c, cache_len := cache_len f + n\<rparr>))"

definition Log_SvrPullFromClient :: "(byte list \<Rightarrow> string) \<Rightarrow> LOG_NODE_S \<times> string \<Rightarrow> log_server \<Rightarrow> mem_error + log_server" where
  "Log_SvrPullFromClient line r s =
     (let file_node_size = of_nat (1 + 4 + unat (ln_length (fst r)) + 2) :: u32
      in case Log_SrvGetFileType (ln_type (fst r)) of
           None \<Rightarrow> Inr s
         | Some fid \<Rightarrow>
             bindE (show_node line fid r s) (\<lambda>s1.
               if print_end (sv_file s1 ! fid) AND LE_FILE = 0 then Inr s1
               else let f1 = rotate_file file_node_size (sv_file s1 ! fid)
                    in if cache_len f1 + file_node_size > cache_maxsize f1 \<and> cache_len f1 = 0 then Inr (set_file fid f1 s1)
                       else bindE (if cache_len f1 + file_node_size > cache_maxsize f1
                                   then bindE (Log_SvrWrite f1) (\<lambda>(_, f2). Inr (f2\<lparr>cache_len := 0\<rparr>)) else Inr f1) (\<lambda>f2.
                         let s2 = set_file fid f2 s1;
                             s3 = (if sv_cur_log_id s2 > 0xfffffff0 then Log_SvrClear s2 else s2);
                             rid = sv_cur_log_id s3 + 1
                         in bindE (put_node rid (take (cut_length r) (cut_node r)) file_node_size (sv_file s3 ! fid)) (\<lambda>f3.
                           Inr ((set_file fid f3 s3)\<lparr>sv_cur_log_id := rid, sv_last_time := (ln_sec (fst r), ln_usec (fst r))\<rparr>)))))"

section \<open>The thread of the server\<close>

fun tick_files :: "log_file list \<Rightarrow> mem_error + log_file list" where
  "tick_files [] = Inr []"
| "tick_files (f # fs) =
     bindE (if overtime_cnt f = 0
            then (if cache_len f > 0 then bindE (Log_SvrWrite f) (\<lambda>(_, f1). Inr (f1\<lparr>cache_len := 0, overtime_cnt := cfg_overtime f1\<rparr>)) else Inr f)
            else Inr (f\<lparr>overtime_cnt := overtime_cnt f - 1\<rparr>)) (\<lambda>f1. bindE (tick_files fs) (\<lambda>fs1. Inr (f1 # fs1)))"

definition server_tick :: "log_server \<Rightarrow> mem_error + log_server" where
  "server_tick s =
     (let s1 = (if sv_flush_cache s then s\<lparr>sv_flush_cache := False, sv_file := map (\<lambda>f. f\<lparr>overtime_cnt := 0\<rparr>) (sv_file s)\<rparr> else s)
      in bindE (tick_files (sv_file s1)) (\<lambda>fs. Inr (s1\<lparr>sv_file := fs\<rparr>)))"

text \<open>One round of \<open>ThreadProc\<close>: the records of the clients, then the files whose time is over.\<close>

definition server_round :: "nat \<Rightarrow> (byte list \<Rightarrow> string) \<Rightarrow> log_state \<Rightarrow> log_server \<Rightarrow> (mem_error + log_state \<times> log_server) option" where
  "server_round l line st s =
     map_option (\<lambda>x. bindE x (\<lambda>(st', s1). bindE (bindE s1 server_tick) (\<lambda>s2. Inr (st', s2))))
       (pull_loop l (\<lambda>r sr. bindE sr (Log_SvrPullFromClient line r)) st (Inr s))"

section \<open>The check of the files at the start\<close>

text \<open>The head of the record at a position: its number and length, if seven bytes are there and the first is the mark.\<close>

definition read_head :: "byte list \<Rightarrow> nat \<Rightarrow> (u32 \<times> nat) option" where
  "read_head data a =
     (if length data < a + 7 \<or> data ! a \<noteq> LOG_FILE_NODE_HEAD then None
      else Some (le_word (take 4 (drop (a + 1) data)), unat (le_word (take 2 (drop (a + 5) data)) :: u16)))"

text \<open>A record is whole if its length is large enough and is repeated behind it.\<close>

definition whole_record :: "byte list \<Rightarrow> nat \<Rightarrow> nat option" where
  "whole_record data a =
     (case read_head data a of None \<Rightarrow> None
      | Some (_, len) \<Rightarrow>
          if len < sizeof_LOG_NODE_S then None
          else let t = a + 7 + len - 2
               in if length data < t + 2 then None
                  else if unat (le_word (take 2 (drop t data)) :: u16) = len then Some (t + 2) else None)"

definition Log_SvrIsGoodFileData :: "byte list \<Rightarrow> bool" where
  "Log_SvrIsGoodFileData data \<longleftrightarrow> data = [] \<or> whole_record data 0 \<noteq> None"

text \<open>Each entry of the index must name a position with a mark.\<close>

fun Log_SvrIsGoodFileIndex :: "byte list \<Rightarrow> byte list \<Rightarrow> bool" where
  "Log_SvrIsGoodFileIndex data [] = True"
| "Log_SvrIsGoodFileIndex data (b0 # b1 # b2 # b3 # rest) =
     (let a = unat (le_word [b0, b1, b2, b3] :: u32)
      in a < length data \<and> data ! a = LOG_FILE_NODE_HEAD \<and> Log_SvrIsGoodFileIndex data rest)"
| "Log_SvrIsGoodFileIndex data _ = False"

function Log_SvrRebuildIndex :: "byte list \<Rightarrow> nat \<Rightarrow> byte list" where
  "Log_SvrRebuildIndex data a =
     (case whole_record data a of None \<Rightarrow> [] | Some e \<Rightarrow> le_bytes 4 (of_nat a :: u32) @ Log_SvrRebuildIndex data e)"
  by pat_completeness auto
termination
  by (relation "measure (\<lambda>(data, a). length data - a)")
    (auto simp: whole_record_def read_head_def Let_def sizeof_LOG_NODE_S_def split: option.splits if_splits)

declare Log_SvrRebuildIndex.simps [simp del]

definition Log_SvrGetMaxId :: "byte list option \<Rightarrow> byte list option \<Rightarrow> u32 \<times> u32" where
  "Log_SvrGetMaxId data idx =
     (case (data, idx) of
        (Some d, Some x) \<Rightarrow>
          (if length x < 4 then 0
           else case read_head d (unat (le_word (drop (length x - 4) x) :: u32)) of None \<Rightarrow> 0 | Some (rid, _) \<Rightarrow> rid, of_nat (length d))
      | (Some d, None) \<Rightarrow> (0, of_nat (length d))
      | (None, _) \<Rightarrow> (0, 0))"

text \<open>The data is looked at only if there is an index file; both files are emptied when the data is not found to be good.\<close>

definition Log_SvrCheckSingleFile :: "byte list option \<Rightarrow> byte list option \<Rightarrow> (u32 \<times> u32) \<times> byte list option \<times> byte list option" where
  "Log_SvrCheckSingleFile data idx =
     (let good_data = (case (data, idx) of (Some d, Some x) \<Rightarrow> Log_SvrIsGoodFileData d | _ \<Rightarrow> False);
          good_index = (case (data, idx) of (Some d, Some x) \<Rightarrow> good_data \<and> Log_SvrIsGoodFileIndex d x | _ \<Rightarrow> False);
          (data1, idx1) = (if \<not> good_data then (Some [], Some []) else if \<not> good_index then (data, Some (Log_SvrRebuildIndex (the data) 0)) else (data, idx))
      in (Log_SvrGetMaxId data1 idx1, data1, idx1))"

text \<open>The file with the largest number is the current one. The variable for it is not reset from one type to the next.\<close>

definition check_type :: "log_file \<Rightarrow> nat \<times> u32 \<Rightarrow> log_file \<times> nat \<times> u32" where
  "check_type f acc =
     (case acc of (fid, logid) \<Rightarrow>
        let ((id0, len0), d0, x0) = Log_SvrCheckSingleFile (f_data f ! 0) (f_index f ! 0);
            ((id1, len1), d1, x1) = Log_SvrCheckSingleFile (f_data f ! 1) (f_index f ! 1);
            (idmax, fid0) = (if id0 > 0 then (id0, 0) else (0, fid));
            fid1 = (if id1 > idmax then 1 else fid0)
        in (f\<lparr>f_data := [d0, d1], f_index := [x0, x1], cur_file_id := fid1, cur_file_len := (if fid1 = 0 then len0 else len1)\<rparr>,
            fid1, max logid (max id0 id1)))"

fun check_types :: "log_file list \<Rightarrow> nat \<times> u32 \<Rightarrow> log_file list \<times> nat \<times> u32" where
  "check_types [] acc = ([], acc)"
| "check_types (f # fs) acc = (let (f1, acc1) = check_type f acc; (fs1, acc2) = check_types fs acc1 in (f1 # fs1, acc2))"

definition Log_SrvCheckFileIndex :: "log_server \<Rightarrow> log_server" where
  "Log_SrvCheckFileIndex s = (let (fs, _, logid) = check_types (sv_file s) (0, 0) in s\<lparr>sv_file := fs, sv_cur_log_id := logid\<rparr>)"

section \<open>The configuration\<close>

text \<open>The limits of a type of log: the largest file, the cache, the rounds until a cache is written and the outputs.\<close>

definition Log_SrvConfigDefaultGet :: "(u32 \<times> u32 \<times> u16 \<times> byte) list" where
  "Log_SrvConfigDefaultGet =
     [(512 * 1024, 10 * 1024, 6000, LE_LOCAL), (5 * 1024 * 1024, 10 * 1024, 6000, LE_FILE), (64 * 1024, 3 * 1024, 10, LE_FILE), (128 * 1024, 3 * 1024, 6000, LE_FILE),
      (128 * 1024, 3 * 1024, 6000, LE_FILE), (128 * 1024, 3 * 1024, 6000, LE_FILE), (128 * 1024, 3 * 1024, 6000, LE_FILE), (128 * 1024, 3 * 1024, 6000, LE_FILE)]"

text \<open>\<open>Log_SrvConfigSet\<close> with memory for every cache; \<open>junk\<close> are the bytes of fresh memory.\<close>

definition config_file :: "(nat \<Rightarrow> byte list) \<Rightarrow> u32 \<times> u32 \<times> u16 \<times> byte \<Rightarrow> log_file \<Rightarrow> log_file" where
  "config_file junk c f =
     (case c of (maxlen, maxsize, overtime, pe) \<Rightarrow>
        let ot = (if overtime = 0 then 1 else overtime)
        in f\<lparr>file_maxlen := maxlen, cache_maxsize := maxsize, cfg_overtime := ot, overtime_cnt := ot, print_end := pe,
             fcache := take (unat maxsize) (junk (unat maxsize) @ replicate (unat maxsize) 0)\<rparr>)"

definition Log_SrvConfigSet :: "(nat \<Rightarrow> byte list) \<Rightarrow> (u32 \<times> u32 \<times> u16 \<times> byte) list \<Rightarrow> u16 \<Rightarrow> u32 \<Rightarrow> log_server \<Rightarrow> log_server" where
  "Log_SrvConfigSet junk cfg wait ip s =
     Log_SrvCheckFileIndex (s\<lparr>sv_ip := ip, sv_pull_wait_ms := (if wait < 10 then 10 else wait), sv_file := map2 (config_file junk) cfg (sv_file s)\<rparr>)"

definition Log_SrvSetPrintEnd :: "byte \<Rightarrow> byte \<Rightarrow> log_server option \<Rightarrow> bool \<times> log_server option" where
  "Log_SrvSetPrintEnd ty pe g =
     (case g of None \<Rightarrow> (False, g)
      | Some s \<Rightarrow> (case Log_SrvGetFileType ty of None \<Rightarrow> (False, g)
          | Some fid \<Rightarrow> (True, Some (set_file fid ((sv_file s ! fid)\<lparr>print_end := pe\<rparr>) s))))"

definition Log_SetPrintEnd :: "byte \<Rightarrow> byte \<Rightarrow> LOG_CLIENT_ENTITY_S option \<Rightarrow> log_server option \<Rightarrow> bool \<times> LOG_CLIENT_ENTITY_S option \<times> log_server option" where
  "Log_SetPrintEnd ty pe c g =
     (case c of None \<Rightarrow> (False, c, g)
      | Some e \<Rightarrow>
          let c1 = Some (if ty = LT_DEBUG then e\<lparr>dbg_print_end := pe\<rparr> else e);
              (ok, g1) = Log_SrvSetPrintEnd ty pe g
          in (ok, c1, g1))"

text \<open>The new buffer is asked for with the old size; then the new size is noted.\<close>

definition Log_RelCacheCfg :: "(nat \<Rightarrow> byte list) \<Rightarrow> bool \<Rightarrow> byte \<Rightarrow> u16 \<Rightarrow> u16 \<Rightarrow> log_server option \<Rightarrow> bool \<times> log_server option" where
  "Log_RelCacheCfg junk mem ty cache_size time_out g =
     (case g of None \<Rightarrow> (False, g)
      | Some s \<Rightarrow> (case Log_SrvGetFileType ty of None \<Rightarrow> (False, g)
          | Some fid \<Rightarrow>
              let f = sv_file s ! fid;
                  old = unat (cache_maxsize f);
                  f1 = (if cache_maxsize f = ucast cache_size then f
                        else if mem then f\<lparr>fcache := take old (junk old @ replicate old 0), cache_maxsize := ucast cache_size\<rparr>
                        else f\<lparr>fcache := [], cache_maxsize := 0\<rparr>);
                  t = ucast time_out * 1000 div ucast (sv_pull_wait_ms s) :: u32;
                  t1 = (if t > 0xffff then 0xffff else ucast t)
              in (True, Some (set_file fid (f1\<lparr>cfg_overtime := t1, overtime_cnt := t1\<rparr>) s))))"

definition Log_FlushCache :: "log_server option \<Rightarrow> log_server option" where
  "Log_FlushCache g = map_option (\<lambda>s. s\<lparr>sv_flush_cache := True\<rparr>) g"

section \<open>Records in files\<close>

text \<open>An entry of a log: the number and the bytes of a record. Its bytes in a file, and the positions of a list of entries.\<close>

definition entry_bytes :: "u32 \<times> byte list \<Rightarrow> byte list" where
  "entry_bytes e = LOG_FILE_NODE_HEAD # le_bytes 4 (fst e) @ snd e @ le_bytes 2 (of_nat (length (snd e)) :: u16)"

definition good_entry :: "u32 \<times> byte list \<Rightarrow> bool" where
  "good_entry e \<longleftrightarrow> sizeof_LOG_NODE_S \<le> length (snd e) \<and> length (snd e) \<le> LOG_RELEASE_MAX_LEN \<and> take 2 (snd e) = le_bytes 2 (of_nat (length (snd e)) :: u16)"

definition entries_bytes :: "(u32 \<times> byte list) list \<Rightarrow> byte list" where
  "entries_bytes es = concat (map entry_bytes es)"

fun positions :: "nat \<Rightarrow> (u32 \<times> byte list) list \<Rightarrow> nat list" where
  "positions p [] = []"
| "positions p (e # es) = p # positions (p + length (entry_bytes e)) es"

definition index_bytes :: "nat list \<Rightarrow> byte list" where
  "index_bytes ps = concat (map (\<lambda>p. le_bytes 4 (of_nat p :: u32)) ps)"

lemma length_entry_bytes [simp]: "length (entry_bytes e) = 7 + length (snd e)"
  by (simp add: entry_bytes_def)

lemma entries_bytes_simps [simp]:
  "entries_bytes [] = []" "entries_bytes (e # es) = entry_bytes e @ entries_bytes es" "entries_bytes (es @ fs) = entries_bytes es @ entries_bytes fs"
  by (simp_all add: entries_bytes_def)

lemma positions_append: "positions p (es @ fs) = positions p es @ positions (p + length (entries_bytes es)) fs"
  by (induction es arbitrary: p) (simp_all add: add.assoc)

lemma positions_shift: "positions (p + k) es = map ((+) k) (positions p es)"
proof (induction es arbitrary: p)
  case (Cons e es)
  have "positions (p + k + length (entry_bytes e)) es = positions (p + length (entry_bytes e) + k) es" by (simp add: ac_simps)
  then show ?case using Cons[of "p + length (entry_bytes e)"] by (simp add: ac_simps)
qed simp

lemma index_bytes_append [simp]: "index_bytes (ps @ qs) = index_bytes ps @ index_bytes qs"
  by (simp add: index_bytes_def)

lemma length_index_bytes: "length (index_bytes ps) = 4 * length ps"
  by (induction ps) (simp_all add: index_bytes_def)

lemma read_head_entry:
  assumes "good_entry e"
  shows "read_head (pre @ entry_bytes e @ rest) (length pre) = Some (fst e, length (snd e))"
    and "le_word (take 2 (drop (length pre + 5) (pre @ entry_bytes e @ rest))) = (of_nat (length (snd e)) :: u16)"
    and "(pre @ entry_bytes e @ rest) ! length pre = LOG_FILE_NODE_HEAD"
proof -
  have len: "2 \<le> length (snd e)" "length (snd e) < 2 ^ 16" and tk: "take 2 (snd e) = le_bytes 2 (of_nat (length (snd e)) :: u16)"
    using assms by (auto simp: good_entry_def sizeof_LOG_NODE_S_def LOG_RELEASE_MAX_LEN_def)
  show l: "le_word (take 2 (drop (length pre + 5) (pre @ entry_bytes e @ rest))) = (of_nat (length (snd e)) :: u16)"
    using len tk by (simp add: entry_bytes_def le_word_bytes)
  show h: "(pre @ entry_bytes e @ rest) ! length pre = LOG_FILE_NODE_HEAD" by (simp add: entry_bytes_def nth_append)
  have "le_word (take 4 (drop (length pre + 1) (pre @ entry_bytes e @ rest))) = fst e" by (simp add: entry_bytes_def le_word_bytes)
  then show "read_head (pre @ entry_bytes e @ rest) (length pre) = Some (fst e, length (snd e))"
    using l h len by (simp add: read_head_def unat_of_nat take_bit_eq_mod)
qed

lemma whole_record_entry:
  assumes "good_entry e"
  shows "whole_record (pre @ entry_bytes e @ rest) (length pre) = Some (length pre + length (entry_bytes e))"
proof -
  have len: "sizeof_LOG_NODE_S \<le> length (snd e)" "length (snd e) < 2 ^ 16" using assms by (auto simp: good_entry_def LOG_RELEASE_MAX_LEN_def)
  have "take 2 (drop (length pre + 7 + length (snd e) - 2) (pre @ entry_bytes e @ rest)) = le_bytes 2 (of_nat (length (snd e)) :: u16)"
  proof -
    define xs where "xs = pre @ LOG_FILE_NODE_HEAD # le_bytes 4 (fst e) @ snd e"
    have "length xs = length pre + 7 + length (snd e) - 2" "pre @ entry_bytes e @ rest = xs @ le_bytes 2 (of_nat (length (snd e)) :: u16) @ rest"
      by (simp_all add: xs_def entry_bytes_def)
    then show ?thesis by (metis append_eq_conv_conj length_le_bytes)
  qed
  then show ?thesis using len by (simp add: whole_record_def read_head_entry(1)[OF assms] Let_def le_word_bytes unat_of_nat take_bit_eq_mod)
qed

lemma index_loop_step:
  assumes "good_entry e" and "length pre < n"
  shows "index_loop (pre @ entry_bytes e @ rest) n (length pre) base =
    bindE (index_loop ((pre @ entry_bytes e) @ rest) n (length (pre @ entry_bytes e)) base) (\<lambda>es. Inr ((base + of_nat (length pre)) # es))"
proof -
  let ?buf = "pre @ entry_bytes e @ rest"
  have "length (snd e) < 2 ^ 16" using assms(1) by (auto simp: good_entry_def LOG_RELEASE_MAX_LEN_def)
  then have next_pos: "length pre + 7 + unat (le_word (take 2 (drop (length pre + 5) ?buf)) :: u16) = length (pre @ entry_bytes e)"
    unfolding read_head_entry(2)[OF assms(1)] by (simp add: unat_of_nat take_bit_eq_mod)
  moreover have "\<not> length ?buf \<le> length pre" "\<not> length ?buf < length pre + 7" by simp_all
  ultimately show ?thesis
    unfolding index_loop.simps[of ?buf n "length pre"] next_pos using assms(2) read_head_entry(3)[OF assms(1)] by simp
qed

lemma index_loop_entries:
  assumes "\<forall>e \<in> set es. good_entry e" and "n = length pre + length (entries_bytes es)"
  shows "index_loop (pre @ entries_bytes es @ rest) n (length pre) base = Inr (map (\<lambda>p. base + of_nat p) (positions (length pre) es))"
  using assms
proof (induction es arbitrary: pre)
  case Nil then show ?case by (subst index_loop.simps) simp
next
  case (Cons e es)
  then show ?case using index_loop_step[of e pre n "entries_bytes es @ rest" base] Cons.IH[of "pre @ entry_bytes e"] by simp
qed

lemma rebuild_entries:
  assumes "\<forall>e \<in> set es. good_entry e"
  shows "Log_SvrRebuildIndex (pre @ entries_bytes es) (length pre) = index_bytes (positions (length pre) es)"
  using assms
proof (induction es arbitrary: pre)
  case Nil then show ?case by (subst Log_SvrRebuildIndex.simps) (simp add: whole_record_def read_head_def index_bytes_def)
next
  case (Cons e es)
  have w: "whole_record (pre @ entries_bytes (e # es)) (length pre) = Some (length (pre @ entry_bytes e))"
    using whole_record_entry[of e pre "entries_bytes es"] Cons.prems by simp
  have "Log_SvrRebuildIndex (pre @ entries_bytes (e # es)) (length (pre @ entry_bytes e)) = index_bytes (positions (length (pre @ entry_bytes e)) es)"
    using Cons.IH[of "pre @ entry_bytes e"] Cons.prems by simp
  then show ?case unfolding Log_SvrRebuildIndex.simps[of "pre @ entries_bytes (e # es)" "length pre"] w by (simp add: index_bytes_def)
qed

section \<open>Files that are in order\<close>

definition pair_ok :: "byte list option \<Rightarrow> byte list option \<Rightarrow> (u32 \<times> byte list) list \<Rightarrow> bool" where
  "pair_ok data idx es \<longleftrightarrow> data = Some (entries_bytes es) \<and> idx = Some (index_bytes (positions 0 es)) \<and> (\<forall>e \<in> set es. good_entry e)"

text \<open>The two pairs of files hold \<open>E 0\<close> and \<open>E 1\<close>, the cache holds \<open>C\<close>.\<close>

definition file_ok :: "log_file \<Rightarrow> (nat \<Rightarrow> (u32 \<times> byte list) list) \<Rightarrow> (u32 \<times> byte list) list \<Rightarrow> bool" where
  "file_ok f E C \<longleftrightarrow>
     length (f_data f) = 2 \<and> length (f_index f) = 2 \<and> cur_file_id f < 2 \<and>
     (\<forall>k < 2. pair_ok (f_data f ! k) (f_index f ! k) (E k)) \<and>
     (\<forall>e \<in> set C. good_entry e) \<and> unat (cache_len f) = length (entries_bytes C) \<and>
     unat (cache_len f) \<le> length (fcache f) \<and> length (fcache f) = unat (cache_maxsize f) \<and> take (unat (cache_len f)) (fcache f) = entries_bytes C \<and>
     cur_file_len f = (if next_need_write f then 0 else of_nat (length (entries_bytes (E (cur_file_id f)))))"

lemma append_index_entries:
  "append_index (index_bytes ps) (map of_nat qs) = index_bytes (ps @ qs)"
  by (cases qs) (simp_all add: append_index_def index_bytes_def length_index_bytes[unfolded index_bytes_def] comp_def)

lemma SvrWrite_ok:
  assumes ok: "file_ok f E C"
  shows "\<exists>f'. Log_SvrWrite f = Inr (0, f') \<and> cache_len f' = 0 \<and> print_end f' = print_end f \<and> file_maxlen f' = file_maxlen f \<and> cache_maxsize f' = cache_maxsize f \<and>
    cur_file_id f' = cur_file_id f \<and> next_need_write f' = (next_need_write f \<and> C = []) \<and>
    file_ok f' (if C = [] then E else E(cur_file_id f := (if next_need_write f then C else E (cur_file_id f) @ C))) []"
proof (cases "cache_len f = 0")
  case True
  then have "C = []" using ok by (cases C) (auto simp: file_ok_def)
  then show ?thesis using True ok by (simp add: Log_SvrWrite_def)
next
  case False
  let ?k = "cur_file_id f" and ?w = "next_need_write f" and ?n = "unat (cache_len f)"
  define D where "D = (if ?w then [] else E ?k)"
  have k: "?k < 2" and len: "length (f_data f) = 2" "length (f_index f) = 2" and pk: "\<forall>k < 2. pair_ok (f_data f ! k) (f_index f ! k) (E k)"
    and C: "\<forall>e \<in> set C. good_entry e" and n: "?n = length (entries_bytes C)" "?n \<le> length (fcache f)" "take ?n (fcache f) = entries_bytes C"
    using ok by (auto simp: file_ok_def)
  have cl: "cache_len f = of_nat (length (entries_bytes C))" by (simp flip: n(1))
  have ne: "C \<noteq> []" using False n(1) by (auto simp: unat_eq_0)
  have data: "(if ?w then Some [] else f_data f ! ?k) = Some (entries_bytes D)"
    and idx: "(if ?w then Some [] else f_index f ! ?k) = Some (index_bytes (positions 0 D))" and D: "\<forall>e \<in> set D. good_entry e"
    using pk k by (auto simp: D_def pair_ok_def index_bytes_def)
  have split: "fcache f = [] @ entries_bytes C @ drop ?n (fcache f)" using n by (metis append_Nil append_take_drop_id)
  let ?base = "of_nat (length (entries_bytes D)) :: u32"
  have loop: "index_loop (fcache f) ?n 0 ?base = Inr (map of_nat (positions (length (entries_bytes D)) C))"
  proof -
    have "index_loop (fcache f) ?n (length ([] :: byte list)) ?base = Inr (map (\<lambda>p. ?base + of_nat p) (positions (length ([] :: byte list)) C))"
      by (subst split, rule index_loop_entries) (use C n in auto)
    moreover have "map (\<lambda>p. ?base + of_nat p) (positions 0 C) = map of_nat (positions (length (entries_bytes D)) C)"
      using positions_shift[of 0 "length (entries_bytes D)" C] by simp
    ultimately show ?thesis by simp
  qed
  have ix: "append_index (index_bytes (positions 0 D)) (map of_nat (positions (length (entries_bytes D)) C)) = index_bytes (positions 0 (D @ C))"
    by (simp add: append_index_entries positions_append)
  define f' where "f' = f\<lparr>next_need_write := False, cur_file_len := ?base + cache_len f, cache_len := 0, overtime_cnt := cfg_overtime f,
    f_data := (f_data f)[?k := Some (entries_bytes (D @ C))], f_index := (f_index f)[?k := Some (index_bytes (positions 0 (D @ C)))]\<rparr>"
  have "Log_SvrWrite f = Inr (0, f')"
    using False n(2,3) unfolding Log_SvrWrite_def Let_def data idx option.case
    by (simp add: loop ix f'_def)
  moreover have "file_ok f' (E(?k := D @ C)) []"
    using ok k len pk C D n(1) cl unfolding file_ok_def
    by (auto simp: f'_def pair_ok_def nth_list_update less_Suc_eq numeral_2_eq_2)
  ultimately show ?thesis using ne by (intro exI[of _ f']) (auto simp: f'_def D_def)
qed

section \<open>The log of a type\<close>

text \<open>The entries from the oldest to the newest: the other file, the current one unless it is about to be emptied, and the cache.\<close>

definition history :: "log_file \<Rightarrow> (nat \<Rightarrow> (u32 \<times> byte list) list) \<Rightarrow> (u32 \<times> byte list) list \<Rightarrow> (u32 \<times> byte list) list" where
  "history f E C = E (1 - cur_file_id f) @ (if next_need_write f then [] else E (cur_file_id f)) @ C"

text \<open>A cache takes at least one record, and a file more than a full cache and a record.\<close>

definition file_limits :: "log_file \<Rightarrow> bool" where
  "file_limits f \<longleftrightarrow> 263 \<le> unat (cache_maxsize f) \<and> unat (cache_maxsize f) + 263 \<le> unat (file_maxlen f)"

definition same_limits :: "log_file \<Rightarrow> log_file \<Rightarrow> bool" where
  "same_limits f' f \<longleftrightarrow> print_end f' = print_end f \<and> file_maxlen f' = file_maxlen f \<and> cache_maxsize f' = cache_maxsize f"

lemma unat_sum_le: "unat (a + b) \<le> unat a + unat (b :: u32)"
  by (simp add: unat_word_ariths)

lemma rotate_ok:
  assumes ok: "file_ok f E C" and lim: "file_limits f" and n: "unat n \<le> 263"
  shows "file_ok (rotate_file n f) E C \<and> same_limits (rotate_file n f) f \<and>
    (\<exists>k. history (rotate_file n f) E C = drop k (history f E C) \<and>
      (k = 0 \<or> unat (file_maxlen f) < length (entries_bytes (history (rotate_file n f) E C)) + unat n))"
proof (cases "cur_file_len f + cache_len f + n > file_maxlen f")
  case False then show ?thesis using ok by (auto simp: rotate_file_def same_limits_def intro!: exI[of _ 0])
next
  case True
  have c: "unat (cache_len f) \<le> unat (cache_maxsize f)" and id: "cur_file_id f < 2" using ok by (auto simp: file_ok_def)
  have nn: "\<not> next_need_write f"
  proof
    assume "next_need_write f"
    then have "cur_file_len f = 0" using ok by (simp add: file_ok_def)
    moreover have "unat (cache_len f + n) = unat (cache_len f) + unat n"
      using c lim n unat_u32_less[of "file_maxlen f"] by (simp add: file_limits_def unat_word_ariths)
    ultimately show False using True c lim n by (simp add: word_less_nat_alt file_limits_def)
  qed
  have id': "(cur_file_id f + 1) mod LOG_FILF_GROUP_MAXCNT = 1 - cur_file_id f" "1 - (1 - cur_file_id f) = cur_file_id f"
    using id by (cases "cur_file_id f"; simp add: LOG_FILF_GROUP_MAXCNT_def)+
  have rot: "rotate_file n f = f\<lparr>cur_file_id := 1 - cur_file_id f, next_need_write := True, cur_file_len := 0\<rparr>"
    using True id' by (simp add: rotate_file_def)
  have "file_ok (rotate_file n f) E C" using ok id by (auto simp: rot file_ok_def)
  moreover have "history (rotate_file n f) E C = drop (length (E (1 - cur_file_id f))) (history f E C)"
    using nn id' by (simp add: history_def rot)
  moreover have "unat (file_maxlen f) < length (entries_bytes (history (rotate_file n f) E C)) + unat n"
  proof -
    have "unat (file_maxlen f) < unat (cur_file_len f + cache_len f + n)" using True by (simp add: word_less_nat_alt)
    also have "\<dots> \<le> unat (cur_file_len f) + unat (cache_len f) + unat n" using unat_sum_le[of "cur_file_len f + cache_len f" n] unat_sum_le[of "cur_file_len f" "cache_len f"] by simp
    also have "unat (cur_file_len f) \<le> length (entries_bytes (E (cur_file_id f)))" using ok nn by (simp add: file_ok_def unat_of_nat take_bit_eq_mod)
    finally show ?thesis using ok nn id' by (simp add: history_def rot file_ok_def)
  qed
  ultimately show ?thesis by (auto simp: rot same_limits_def)
qed

lemma put_ok:
  assumes ok: "file_ok f E C" and e: "good_entry (rid, bs)" and room: "unat (cache_len f) + 7 + length bs \<le> unat (cache_maxsize f)"
  shows "\<exists>f'. put_node rid bs (of_nat (7 + length bs)) f = Inr f' \<and> file_ok f' E (C @ [(rid, bs)]) \<and> same_limits f' f \<and> history f' E (C @ [(rid, bs)]) = history f E C @ [(rid, bs)]"
proof -
  let ?n = "unat (cache_len f)" and ?e = "entry_bytes (rid, bs)"
  define f' where "f' = f\<lparr>fcache := take ?n (fcache f) @ ?e @ drop (?n + length ?e) (fcache f), cache_len := cache_len f + of_nat (7 + length bs)\<rparr>"
  have len: "?n + length ?e \<le> length (fcache f)" using ok room by (simp add: file_ok_def)
  then have "put_node rid bs (of_nat (7 + length bs)) f = Inr f'"
    using copy_in_ok[of ?n ?e "fcache f"] by (simp add: put_node_def entry_bytes_def f'_def)
  moreover have "unat (cache_len f + of_nat (7 + length bs)) = ?n + 7 + length bs"
    using room unat_u32_less[of "cache_maxsize f"] by (simp add: unat_word_ariths unat_of_nat take_bit_eq_mod mod_simps)
  then have "file_ok f' E (C @ [(rid, bs)])"
    using ok e room len by (auto simp: file_ok_def f'_def)
  ultimately show ?thesis by (intro exI[of _ f']) (simp add: f'_def history_def same_limits_def)
qed

lemma write_history:
  assumes "file_ok f E C"
  obtains f' E' where "Log_SvrWrite f = Inr (0, f')" "file_ok f' E' []" "same_limits f' f" "history f' E' [] = history f E C" "f'\<lparr>cache_len := 0\<rparr> = f'"
    "cfg_overtime f' = cfg_overtime f"
proof -
  let ?E' = "if C = [] then E else E(cur_file_id f := (if next_need_write f then C else E (cur_file_id f) @ C))"
  have id: "1 - cur_file_id f \<noteq> cur_file_id f" by (cases "cur_file_id f") auto
  obtain f' where f': "Log_SvrWrite f = Inr (0, f')" "cache_len f' = 0" "print_end f' = print_end f" "file_maxlen f' = file_maxlen f" "cache_maxsize f' = cache_maxsize f"
    "cur_file_id f' = cur_file_id f" "next_need_write f' = (next_need_write f \<and> C = [])" "file_ok f' ?E' []"
    using SvrWrite_ok[OF assms] by blast
  have "history f' ?E' [] = history f E C" using f'(6,7) id by (simp add: history_def)
  moreover have "f'\<lparr>cache_len := 0\<rparr> = f'" using f'(2) by simp
  moreover have "cfg_overtime f' = cfg_overtime f"
    using f'(1) by (auto simp: Log_SvrWrite_def Let_def bindE_Inr_iff split: if_splits option.splits)
  ultimately show thesis using that f' by (simp add: same_limits_def)
qed

text \<open>A record of a client as \<open>WriteCache\<close> writes it, no longer than the release logs are.\<close>

definition short_record :: "LOG_NODE_S \<times> string \<Rightarrow> bool" where
  "short_record r \<longleftrightarrow> unat (ln_length (fst r)) = length (snd r) + sizeof_LOG_NODE_S \<and> unat (ln_length (fst r)) \<le> LOG_RELEASE_MAX_LEN"

lemma short_record_bytes:
  assumes "short_record r"
  shows "cut_length r = length (node_bytes r)" "take (cut_length r) (cut_node r) = node_bytes r" "good_entry (rid, node_bytes r)"
    "1 + 4 + unat (ln_length (fst r)) + 2 = 7 + length (node_bytes r)" "length (node_bytes r) \<le> 256"
proof -
  obtain n body where r: "r = (n, body)" by (cases r)
  have len: "length (node_bytes r) = unat (ln_length n)" using assms by (simp add: node_bytes_def r short_record_def sizeof_LOG_NODE_S_def)
  have le: "unat (ln_length n) \<le> 256" "12 \<le> unat (ln_length n)" using assms by (simp_all add: short_record_def r LOG_RELEASE_MAX_LEN_def sizeof_LOG_NODE_S_def)
  show "cut_length r = length (node_bytes r)" using len le by (simp add: cut_length_def r LOG_RELEASE_MAX_LEN_def)
  then show "take (cut_length r) (cut_node r) = node_bytes r" using le by (simp add: cut_node_def Let_def r LOG_RELEASE_MAX_LEN_def)
  have "take 2 (node_bytes r) = le_bytes 2 (ln_length n)" by (simp add: node_bytes_def r)
  then show "good_entry (rid, node_bytes r)" using len le by (simp add: good_entry_def sizeof_LOG_NODE_S_def LOG_RELEASE_MAX_LEN_def)
  show "1 + 4 + unat (ln_length (fst r)) + 2 = 7 + length (node_bytes r)" "length (node_bytes r) \<le> 256" using len le by (simp_all add: r)
qed

lemma show_node_ok:
  assumes "print_end (sv_file s ! fid) AND LE_REMOTE = 0 \<or> sv_ip s = 0"
  shows "\<exists>s1. show_node line fid r s = Inr s1 \<and> sv_file s1 = sv_file s \<and> sv_cur_log_id s1 = sv_cur_log_id s \<and> sv_ip s1 = sv_ip s \<and> sv_flush_cache s1 = sv_flush_cache s"
  using assms by (auto simp: show_node_def Let_def Log_SvrReadyOutputString_def Log_SvrUdpSendNode_def)

lemma pull_history:
  assumes r: "short_record r" "Log_SrvGetFileType (ln_type (fst r)) = Some fid" and fid: "fid < length (sv_file s)"
    and ok: "file_ok (sv_file s ! fid) E C" "file_limits (sv_file s ! fid)"
    and out: "print_end (sv_file s ! fid) AND LE_FILE \<noteq> 0" "print_end (sv_file s ! fid) AND LE_REMOTE = 0 \<or> sv_ip s = 0"
    and ids: "sv_cur_log_id s \<le> 0xfffffff0"
  shows "\<exists>s' E' C' k. Log_SvrPullFromClient line r s = Inr s' \<and> file_ok (sv_file s' ! fid) E' C' \<and> same_limits (sv_file s' ! fid) (sv_file s ! fid) \<and>
    sv_cur_log_id s' = sv_cur_log_id s + 1 \<and> sv_ip s' = sv_ip s \<and> sv_flush_cache s' = sv_flush_cache s \<and> (\<exists>f. sv_file s' = (sv_file s)[fid := f]) \<and>
    history (sv_file s' ! fid) E' C' = drop k (history (sv_file s ! fid) E C) @ [(sv_cur_log_id s + 1, node_bytes r)] \<and>
    (k = 0 \<or> unat (file_maxlen (sv_file s ! fid)) < length (entries_bytes (history (sv_file s' ! fid) E' C')))"
proof -
  note b = short_record_bytes[OF r(1)]
  let ?f = "sv_file s ! fid" and ?n = "of_nat (7 + length (node_bytes r)) :: u32" and ?rid = "sv_cur_log_id s + 1"
  obtain s1 where s1: "show_node line fid r s = Inr s1" "sv_file s1 = sv_file s" "sv_cur_log_id s1 = sv_cur_log_id s" "sv_ip s1 = sv_ip s" "sv_flush_cache s1 = sv_flush_cache s"
    using show_node_ok[OF out(2)] by blast
  have n: "unat ?n = 7 + length (node_bytes r)" using b(5) by (intro unat_of_nat_u32) simp
  then have "unat ?n \<le> 263" using b(5) by simp
  from rotate_ok[OF ok this] obtain k where ro: "file_ok (rotate_file ?n ?f) E C" "same_limits (rotate_file ?n ?f) ?f"
    "history (rotate_file ?n ?f) E C = drop k (history ?f E C)"
    "k = 0 \<or> unat (file_maxlen ?f) < length (entries_bytes (history (rotate_file ?n ?f) E C)) + unat ?n" by blast
  let ?f1 = "rotate_file ?n ?f"
  have size: "263 \<le> unat (cache_maxsize ?f1)" "unat (cache_maxsize ?f1) + 263 < 2 ^ 32"
    using ok(2) ro(2) unat_u32_less[of "file_maxlen ?f"] by (auto simp: file_limits_def same_limits_def)
  have cl: "unat (cache_len ?f1) \<le> unat (cache_maxsize ?f1)" using ro(1) by (simp add: file_ok_def)
  then have sum: "unat (cache_len ?f1 + ?n) = unat (cache_len ?f1) + unat ?n" using size n b(5) by (simp add: unat_word_ariths)
  then have gt: "cache_len ?f1 + ?n > cache_maxsize ?f1 \<longleftrightarrow> unat (cache_maxsize ?f1) < unat (cache_len ?f1) + 7 + length (node_bytes r)"
    by (simp only: word_less_nat_alt n add.assoc)
  then have nz: "\<not> (cache_len ?f1 + ?n > cache_maxsize ?f1 \<and> cache_len ?f1 = 0)" using size b(5) by auto
  obtain f2 E2 C2 where w: "(if cache_len ?f1 + ?n > cache_maxsize ?f1 then bindE (Log_SvrWrite ?f1) (\<lambda>(_, f2). Inr (f2\<lparr>cache_len := 0\<rparr>)) else Inr ?f1) = Inr f2"
    "file_ok f2 E2 C2" "same_limits f2 ?f1" "history f2 E2 C2 = history ?f1 E C" "unat (cache_len f2) + 7 + length (node_bytes r) \<le> unat (cache_maxsize f2)"
  proof (cases "cache_len ?f1 + ?n > cache_maxsize ?f1")
    case True
    obtain f' E' where f': "Log_SvrWrite ?f1 = Inr (0, f')" "file_ok f' E' []" "same_limits f' ?f1" "history f' E' [] = history ?f1 E C" "f'\<lparr>cache_len := 0\<rparr> = f'"
      using write_history[OF ro(1)] by blast
    show thesis by (rule that[of f' E' "[]"]) (use True f' size b(5) in \<open>auto simp: same_limits_def file_ok_def\<close>)
  next
    case False then show thesis using that[of ?f1 E C] ro gt by (auto simp: same_limits_def)
  qed
  obtain f3 where f3: "put_node ?rid (node_bytes r) ?n f2 = Inr f3" "file_ok f3 E2 (C2 @ [(?rid, node_bytes r)])" "same_limits f3 f2"
    "history f3 E2 (C2 @ [(?rid, node_bytes r)]) = history f2 E2 C2 @ [(?rid, node_bytes r)]"
    using put_ok[OF w(2) b(3) w(5)] by blast
  let ?s' = "(set_file fid f3 s1)\<lparr>sv_cur_log_id := ?rid, sv_last_time := (ln_sec (fst r), ln_usec (fst r))\<rparr>"
  have noclear: "\<not> sv_cur_log_id (set_file fid f2 s1) > 0xfffffff0" using ids s1(3) by (simp add: set_file_def)
  have "Log_SvrPullFromClient line r s = Inr ?s'"
    unfolding Log_SvrPullFromClient_def b(4) r(2) option.case Let_def s1(1) bindE_simps s1(2) if_not_P[OF out(1)] if_not_P[OF nz] w(1) if_not_P[OF noclear] b(2)
    using f3(1) fid s1(2,3) by (simp add: set_file_def)
  moreover have "sv_file ?s' ! fid = f3" using fid s1(2) by (simp add: set_file_def)
  moreover have "k = 0 \<or> unat (file_maxlen ?f) < length (entries_bytes (history f3 E2 (C2 @ [(?rid, node_bytes r)])))"
    using ro(4) f3(4) w(4) n by auto
  ultimately show ?thesis using f3 w ro(1-3) s1 by (intro exI[of _ ?s'] exI[of _ E2] exI[of _ "C2 @ [(?rid, node_bytes r)]"] exI[of _ k])
      (auto simp: set_file_def same_limits_def)
qed

section \<open>All the logs of a server\<close>

text \<open>The files of every type of log are in order and \<open>H fid\<close> is the history of a type; nothing is sent to a remote host.\<close>

definition server_logs :: "log_server \<Rightarrow> (nat \<Rightarrow> (u32 \<times> byte list) list) \<Rightarrow> bool" where
  "server_logs s H \<longleftrightarrow> length (sv_file s) = LOG_SRV_FILE_TYPE_MAX \<and>
     (\<forall>fid < LOG_SRV_FILE_TYPE_MAX. \<exists>E C. file_ok (sv_file s ! fid) E C \<and> history (sv_file s ! fid) E C = H fid \<and> file_limits (sv_file s ! fid) \<and>
        (print_end (sv_file s ! fid) AND LE_REMOTE = 0 \<or> sv_ip s = 0))"

fun numbered :: "u32 \<Rightarrow> (LOG_NODE_S \<times> string) list \<Rightarrow> (u32 \<times> LOG_NODE_S \<times> string) list" where
  "numbered n [] = []"
| "numbered n (r # rs) = (n + 1, r) # numbered (n + 1) rs"

text \<open>The log a record goes to: that of its type, if the type is known and is configured to go to files.\<close>

definition file_of :: "log_server \<Rightarrow> LOG_NODE_S \<times> string \<Rightarrow> nat option" where
  "file_of s r =
     (case Log_SrvGetFileType (ln_type (fst r)) of None \<Rightarrow> None
      | Some fid \<Rightarrow> if print_end (sv_file s ! fid) AND LE_FILE = 0 then None else Some fid)"

text \<open>The entries of log \<open>fid\<close> for the records \<open>rs\<close>, when the last number given was \<open>n\<close>: every record that goes to a file takes the next number.\<close>

definition new_entries :: "(LOG_NODE_S \<times> string \<Rightarrow> nat option) \<Rightarrow> nat \<Rightarrow> u32 \<Rightarrow> (LOG_NODE_S \<times> string) list \<Rightarrow> (u32 \<times> byte list) list" where
  "new_entries F fid n rs =
     map (\<lambda>(i, r). (i, node_bytes r)) (filter (\<lambda>(i, r). F r = Some fid) (numbered n (filter (\<lambda>r. F r \<noteq> None) rs)))"

lemma new_entries_simps:
  "new_entries F fid n [] = []"
  "F r = None \<Longrightarrow> new_entries F fid n (r # rs) = new_entries F fid n rs"
  "F r = Some fd \<Longrightarrow> new_entries F fid n (r # rs) = (if fid = fd then [(n + 1, node_bytes r)] else []) @ new_entries F fid (n + 1) rs"
  by (simp_all add: new_entries_def)

lemma file_of_cong:
  "\<forall>j. print_end (sv_file s' ! j) = print_end (sv_file s ! j) \<Longrightarrow> file_of s' = file_of s"
  by (auto simp: file_of_def fun_eq_iff split: option.split)

lemma file_type_less: "Log_SrvGetFileType ty = Some fid \<Longrightarrow> fid < LOG_SRV_FILE_TYPE_MAX"
  by (auto simp: Log_SrvGetFileType_def LOG_SRV_FILE_TYPE_MAX_def split: if_splits)

text \<open>A record that goes to no file changes no file and takes no number.\<close>

lemma pull_skip:
  assumes logs: "server_logs s H" and none: "file_of s r = None"
  shows "\<exists>s'. Log_SvrPullFromClient line r s = Inr s' \<and> sv_file s' = sv_file s \<and> sv_cur_log_id s' = sv_cur_log_id s \<and> sv_ip s' = sv_ip s"
proof (cases "Log_SrvGetFileType (ln_type (fst r))")
  case (Some fid)
  then have pe: "print_end (sv_file s ! fid) AND LE_FILE = 0" using none by (simp add: file_of_def split: if_splits)
  have "print_end (sv_file s ! fid) AND LE_REMOTE = 0 \<or> sv_ip s = 0"
    using logs file_type_less[OF Some] unfolding server_logs_def by blast
  then show ?thesis using show_node_ok[of s fid line r] pe by (auto simp: Log_SvrPullFromClient_def Some Let_def)
qed (simp add: Log_SvrPullFromClient_def Let_def)

lemma pull_logs:
  assumes logs: "server_logs s H" and r: "short_record r" and fo: "file_of s r = Some fid" and ids: "sv_cur_log_id s \<le> 0xfffffff0"
  shows "\<exists>s' k. Log_SvrPullFromClient line r s = Inr s' \<and> sv_cur_log_id s' = sv_cur_log_id s + 1 \<and> (\<forall>j. file_maxlen (sv_file s' ! j) = file_maxlen (sv_file s ! j)) \<and> (\<forall>j. print_end (sv_file s' ! j) = print_end (sv_file s ! j)) \<and>
    (k = 0 \<or> unat (file_maxlen (sv_file s ! fid)) < length (entries_bytes (drop k (H fid) @ [(sv_cur_log_id s + 1, node_bytes r)]))) \<and> server_logs s' (H(fid := drop k (H fid) @ [(sv_cur_log_id s + 1, node_bytes r)]))"
proof -
  have ty: "Log_SrvGetFileType (ln_type (fst r)) = Some fid" and pe: "print_end (sv_file s ! fid) AND LE_FILE \<noteq> 0"
    using fo by (auto simp: file_of_def split: option.splits if_splits)
  have fid: "fid < LOG_SRV_FILE_TYPE_MAX" "fid < length (sv_file s)" using file_type_less[OF ty] logs by (auto simp: server_logs_def)
  obtain E C where f: "file_ok (sv_file s ! fid) E C" "history (sv_file s ! fid) E C = H fid" "file_limits (sv_file s ! fid)"
    "print_end (sv_file s ! fid) AND LE_REMOTE = 0 \<or> sv_ip s = 0"
    using logs fid(1) unfolding server_logs_def by blast
  obtain s' E' C' k g where p: "Log_SvrPullFromClient line r s = Inr s'" "file_ok (sv_file s' ! fid) E' C'" "same_limits (sv_file s' ! fid) (sv_file s ! fid)"
    "sv_cur_log_id s' = sv_cur_log_id s + 1" "sv_ip s' = sv_ip s" "sv_file s' = (sv_file s)[fid := g]"
    "history (sv_file s' ! fid) E' C' = drop k (H fid) @ [(sv_cur_log_id s + 1, node_bytes r)]"
    "k = 0 \<or> unat (file_maxlen (sv_file s ! fid)) < length (entries_bytes (history (sv_file s' ! fid) E' C'))"
    using pull_history[OF r ty fid(2) f(1,3) pe f(4) ids, of line] unfolding f(2) by blast
  have max: "file_maxlen (sv_file s' ! j) = file_maxlen (sv_file s ! j)" "print_end (sv_file s' ! j) = print_end (sv_file s ! j)" for j
    using p(3,6) by (cases "j = fid", simp_all add: same_limits_def)+
  have "server_logs s' (H(fid := drop k (H fid) @ [(sv_cur_log_id s + 1, node_bytes r)]))"
    unfolding server_logs_def
  proof (intro conjI allI impI)
    show "length (sv_file s') = LOG_SRV_FILE_TYPE_MAX" using logs p(6) by (simp add: server_logs_def)
    fix j assume j: "j < LOG_SRV_FILE_TYPE_MAX"
    show "\<exists>E C. file_ok (sv_file s' ! j) E C \<and> history (sv_file s' ! j) E C = (H(fid := drop k (H fid) @ [(sv_cur_log_id s + 1, node_bytes r)])) j \<and>
        file_limits (sv_file s' ! j) \<and> (print_end (sv_file s' ! j) AND LE_REMOTE = 0 \<or> sv_ip s' = 0)"
    proof (cases "j = fid")
      case True then show ?thesis using p f(3,4) by (intro exI[of _ E'] exI[of _ C']) (simp add: same_limits_def file_limits_def)
    next
      case False
      then have "sv_file s' ! j = sv_file s ! j" using p(6) by simp
      then show ?thesis using logs j False p(5) unfolding server_logs_def by simp
    qed
  qed
  then show ?thesis using p(1,4,8) max unfolding p(7) by blast
qed

lemma fold_pull:
  assumes "server_logs s H" and "\<forall>r \<in> set rs. file_of s r \<noteq> None \<longrightarrow> short_record r" and "unat (sv_cur_log_id s) + length rs \<le> 0xfffffff0"
  shows "\<exists>s' H'. fold (\<lambda>r sr. bindE sr (Log_SvrPullFromClient line r)) rs (Inr s) = Inr s' \<and> server_logs s' H' \<and>
    (\<forall>fid. \<exists>k. H' fid = drop k (H fid @ new_entries (file_of s) fid (sv_cur_log_id s) rs) \<and> (k = 0 \<or> unat (file_maxlen (sv_file s ! fid)) < length (entries_bytes (H' fid))))"
  using assms
proof (induction rs arbitrary: s H)
  case Nil then show ?case by (auto simp: new_entries_simps intro!: exI[of _ H] exI[of _ "0 :: nat"])
next
  case (Cons r rs)
  show ?case
  proof (cases "file_of s r")
    case None
    obtain s1 where s1: "Log_SvrPullFromClient line r s = Inr s1" "sv_file s1 = sv_file s" "sv_cur_log_id s1 = sv_cur_log_id s" "sv_ip s1 = sv_ip s"
      using pull_skip[OF Cons.prems(1) None] by blast
    have l1: "server_logs s1 H" using Cons.prems(1) s1(2,4) by (simp add: server_logs_def)
    have fo: "file_of s1 = file_of s" using s1(2) by (intro file_of_cong) simp
    show ?thesis using Cons.IH[OF l1] Cons.prems(2,3) s1 unfolding fo by (simp add: new_entries_simps None)
  next
    case fd: (Some fd)
    have id: "sv_cur_log_id s \<le> 0xfffffff0" using Cons.prems(3) by (simp add: word_le_nat_alt)
    have short: "short_record r" using Cons.prems(2) fd by simp
    obtain s1 k where p: "Log_SvrPullFromClient line r s = Inr s1" "sv_cur_log_id s1 = sv_cur_log_id s + 1"
      "server_logs s1 (H(fd := drop k (H fd) @ [(sv_cur_log_id s + 1, node_bytes r)]))" "\<forall>j. file_maxlen (sv_file s1 ! j) = file_maxlen (sv_file s ! j)"
      "\<forall>j. print_end (sv_file s1 ! j) = print_end (sv_file s ! j)"
      "k = 0 \<or> unat (file_maxlen (sv_file s ! fd)) < length (entries_bytes (drop k (H fd) @ [(sv_cur_log_id s + 1, node_bytes r)]))"
      using pull_logs[OF Cons.prems(1) short fd id, of line] by blast
    let ?H1 = "H(fd := drop k (H fd) @ [(sv_cur_log_id s + 1, node_bytes r)])"
    have "unat (sv_cur_log_id s1) + length rs \<le> 0xfffffff0" using Cons.prems(3) p(2) by (simp add: unat_word_ariths)
    then obtain s' H' where ih: "fold (\<lambda>r sr. bindE sr (Log_SvrPullFromClient line r)) rs (Inr s1) = Inr s'" "server_logs s' H'"
      "\<forall>fid. \<exists>k. H' fid = drop k (?H1 fid @ new_entries (file_of s) fid (sv_cur_log_id s + 1) rs) \<and> (k = 0 \<or> unat (file_maxlen (sv_file s ! fid)) < length (entries_bytes (H' fid)))"
      using Cons.IH[OF p(3)] Cons.prems(2) p(2,4) unfolding file_of_cong[OF p(5)] by auto
    have "\<exists>k. H' fid = drop k (H fid @ new_entries (file_of s) fid (sv_cur_log_id s) (r # rs)) \<and> (k = 0 \<or> unat (file_maxlen (sv_file s ! fid)) < length (entries_bytes (H' fid)))" for fid
    proof -
      let ?i = "if fid = fd then min k (length (H fd)) else 0"
      obtain j where j: "H' fid = drop j (?H1 fid @ new_entries (file_of s) fid (sv_cur_log_id s + 1) rs)" "j = 0 \<or> unat (file_maxlen (sv_file s ! fid)) < length (entries_bytes (H' fid))"
        using ih(3) by blast
      have i: "?H1 fid @ new_entries (file_of s) fid (sv_cur_log_id s + 1) rs = drop ?i (H fid @ new_entries (file_of s) fid (sv_cur_log_id s) (r # rs))"
        by (cases "k \<le> length (H fd)") (auto simp: new_entries_simps fd)
      have "H' fid = drop (j + ?i) (H fid @ new_entries (file_of s) fid (sv_cur_log_id s) (r # rs))" unfolding j(1) i by simp
      moreover have "j + ?i = 0 \<or> unat (file_maxlen (sv_file s ! fid)) < length (entries_bytes (H' fid))"
        using j p(6) by (cases "j = 0"; cases "fid = fd"; cases "k = 0") auto
      ultimately show ?thesis by blast
    qed
    then show ?thesis using ih(1,2) p(1) by auto
  qed
qed

text \<open>Writing a cache because its time is over moves entries from the cache to the file and changes nothing else of the log.\<close>

lemma overtime_ok [simp]:
  "file_ok (f\<lparr>overtime_cnt := n\<rparr>) E C = file_ok f E C" "history (f\<lparr>overtime_cnt := n\<rparr>) E C = history f E C" "same_limits (f\<lparr>overtime_cnt := n\<rparr>) g = same_limits f g"
  by (simp_all add: file_ok_def history_def same_limits_def)

lemma tick_files_ok:
  assumes "\<forall>f \<in> set fs. \<exists>E C. file_ok f E C"
  shows "\<exists>fs'. tick_files fs = Inr fs' \<and> list_all2 (\<lambda>f' f. same_limits f' f \<and>
    (\<forall>E C. file_ok f E C \<longrightarrow> (\<exists>E' C'. file_ok f' E' C' \<and> history f' E' C' = history f E C))) fs' fs"
  using assms
proof (induction fs rule: tick_files.induct)
  case (2 f fs)
  obtain E0 C0 where f: "file_ok f E0 C0" using 2(2) by auto
  obtain f1 where f1: "(if overtime_cnt f = 0
      then (if cache_len f > 0 then bindE (Log_SvrWrite f) (\<lambda>(_, f1). Inr (f1\<lparr>cache_len := 0, overtime_cnt := cfg_overtime f1\<rparr>)) else Inr f)
      else Inr (f\<lparr>overtime_cnt := overtime_cnt f - 1\<rparr>)) = Inr f1" "same_limits f1 f"
    "\<forall>E C. file_ok f E C \<longrightarrow> (\<exists>E' C'. file_ok f1 E' C' \<and> history f1 E' C' = history f E C)"
  proof (cases "overtime_cnt f = 0 \<and> cache_len f > 0")
    case True
    obtain g where g: "Log_SvrWrite f = Inr (0, g)" "same_limits g f" "g\<lparr>cache_len := 0\<rparr> = g"
      using write_history[OF f] by blast
    have "\<exists>E' C'. file_ok g E' C' \<and> history g E' C' = history f E C" if "file_ok f E C" for E C
      using write_history[OF that] g(1) by (metis Inr_inject prod.inject)
    then show thesis using that[of "g\<lparr>overtime_cnt := cfg_overtime g\<rparr>"] g True by simp
  next
    case False
    show thesis by (rule that[of "if overtime_cnt f = 0 then f else f\<lparr>overtime_cnt := overtime_cnt f - 1\<rparr>"])
      (use False in \<open>auto simp: same_limits_def\<close>)
  qed
  obtain fs' where fs': "tick_files fs = Inr fs'" "list_all2 (\<lambda>f' f. same_limits f' f \<and>
    (\<forall>E C. file_ok f E C \<longrightarrow> (\<exists>E' C'. file_ok f' E' C' \<and> history f' E' C' = history f E C))) fs' fs"
    using 2 by auto
  show ?case unfolding tick_files.simps f1(1) bindE_simps fs'(1) using f1(2,3) fs'(2) by auto
qed simp

lemma tick_logs:
  assumes logs: "server_logs s H"
  shows "\<exists>s'. server_tick s = Inr s' \<and> server_logs s' H"
proof -
  let ?s1 = "if sv_flush_cache s then s\<lparr>sv_flush_cache := False, sv_file := map (\<lambda>f. f\<lparr>overtime_cnt := 0\<rparr>) (sv_file s)\<rparr> else s"
  have logs1: "server_logs ?s1 H" using logs unfolding server_logs_def by (auto simp: file_limits_def)
  have "\<forall>f \<in> set (sv_file ?s1). \<exists>E C. file_ok f E C"
    using logs1 unfolding server_logs_def by (metis in_set_conv_nth)
  from tick_files_ok[OF this] obtain fs where fs: "tick_files (sv_file ?s1) = Inr fs" "list_all2 (\<lambda>f' f. same_limits f' f \<and>
    (\<forall>E C. file_ok f E C \<longrightarrow> (\<exists>E' C'. file_ok f' E' C' \<and> history f' E' C' = history f E C))) fs (sv_file ?s1)" by blast
  have "server_logs (?s1\<lparr>sv_file := fs\<rparr>) H"
    unfolding server_logs_def
  proof (intro conjI allI impI)
    show "length (sv_file (?s1\<lparr>sv_file := fs\<rparr>)) = LOG_SRV_FILE_TYPE_MAX" using logs1 list_all2_lengthD[OF fs(2)] by (simp add: server_logs_def)
    fix j assume j: "j < LOG_SRV_FILE_TYPE_MAX"
    then have len: "j < length (sv_file ?s1)" using logs1 by (simp add: server_logs_def)
    have nth: "same_limits (fs ! j) (sv_file ?s1 ! j)"
      "\<And>E C. file_ok (sv_file ?s1 ! j) E C \<Longrightarrow> \<exists>E' C'. file_ok (fs ! j) E' C' \<and> history (fs ! j) E' C' = history (sv_file ?s1 ! j) E C"
      using list_all2_nthD2[OF fs(2) len] by blast+
    obtain E C where f: "file_ok (sv_file ?s1 ! j) E C" "history (sv_file ?s1 ! j) E C = H j" "file_limits (sv_file ?s1 ! j)"
      "print_end (sv_file ?s1 ! j) AND LE_REMOTE = 0 \<or> sv_ip ?s1 = 0"
      using logs1 j unfolding server_logs_def by blast
    obtain E' C' where "file_ok (fs ! j) E' C'" "history (fs ! j) E' C' = H j" using nth(2)[OF f(1)] f(2) by auto
    then show "\<exists>E C. file_ok (sv_file (?s1\<lparr>sv_file := fs\<rparr>) ! j) E C \<and> history (sv_file (?s1\<lparr>sv_file := fs\<rparr>) ! j) E C = H j \<and>
        file_limits (sv_file (?s1\<lparr>sv_file := fs\<rparr>) ! j) \<and>
        (print_end (sv_file (?s1\<lparr>sv_file := fs\<rparr>) ! j) AND LE_REMOTE = 0 \<or> sv_ip (?s1\<lparr>sv_file := fs\<rparr>) = 0)"
      using nth(1) f(3,4) by (intro exI[of _ E'] exI[of _ C']) (auto simp: same_limits_def file_limits_def)
  qed
  then show ?thesis using fs(1) by (simp add: server_tick_def Let_def)
qed

section \<open>Starting again\<close>

lemma positions_marks:
  assumes "\<forall>e \<in> set es. good_entry e" and "p \<in> set (positions (length pre) es)"
  shows "p < length (pre @ entries_bytes es) \<and> (pre @ entries_bytes es) ! p = LOG_FILE_NODE_HEAD"
  using assms
proof (induction es arbitrary: pre)
  case (Cons e es)
  show ?case
  proof (cases "p = length pre")
    case True then show ?thesis using read_head_entry(3)[of e pre "entries_bytes es"] Cons.prems(1) by simp
  next
    case False then show ?thesis using Cons.IH[of "pre @ entry_bytes e"] Cons.prems by simp
  qed
qed simp

lemma good_index_entries:
  assumes "\<forall>p \<in> set ps. p < length data \<and> data ! p = LOG_FILE_NODE_HEAD" and "length data < 2 ^ 32"
  shows "Log_SvrIsGoodFileIndex data (index_bytes ps)"
  using assms(1)
proof (induction ps)
  case (Cons p ps)
  obtain b0 b1 b2 b3 r where r: "le_bytes 4 (of_nat p :: u32) = b0 # b1 # b2 # b3 # r"
    using at_least_4[of "le_bytes 4 (of_nat p :: u32)"] by auto
  have "r = []" using arg_cong[OF r, of length] by simp
  then have b: "le_bytes 4 (of_nat p :: u32) = [b0, b1, b2, b3]" using r by simp
  have "unat (le_word [b0, b1, b2, b3] :: u32) = p"
    using Cons.prems assms(2) unat_of_nat_u32[of p] le_word_bytes[of 4 "of_nat p :: u32"] by (simp add: b)
  then show ?case using Cons by (simp add: index_bytes_def b Let_def)
qed (simp add: index_bytes_def)

definition last_id :: "(u32 \<times> byte list) list \<Rightarrow> u32" where
  "last_id es = (if es = [] then 0 else fst (last es))"

lemma max_id_entries:
  assumes good: "\<forall>e \<in> set es. good_entry e" and len: "length (entries_bytes es) < 2 ^ 32"
  shows "Log_SvrGetMaxId (Some (entries_bytes es)) (Some (index_bytes (positions 0 es))) = (last_id es, of_nat (length (entries_bytes es)))"
proof (cases es rule: rev_cases)
  case Nil then show ?thesis by (simp add: Log_SvrGetMaxId_def index_bytes_def last_id_def)
next
  case (snoc ds e)
  let ?p = "length (entries_bytes ds)" and ?x = "index_bytes (positions 0 ds)"
  have x: "index_bytes (positions 0 es) = ?x @ le_bytes 4 (of_nat ?p :: u32)" by (simp add: snoc positions_append) (simp add: index_bytes_def)
  have "unat (le_word (le_bytes 4 (of_nat ?p :: u32)) :: u32) = ?p" using len snoc by (simp add: le_word_bytes unat_of_nat_u32)
  moreover have "read_head (entries_bytes es) ?p = Some (fst e, length (snd e))"
    using read_head_entry(1)[of e "entries_bytes ds" "[]"] good snoc by simp
  ultimately show ?thesis unfolding Log_SvrGetMaxId_def x by (simp add: last_id_def snoc)
qed

lemma good_data_entries: "\<forall>e \<in> set es. good_entry e \<Longrightarrow> Log_SvrIsGoodFileData (entries_bytes es)"
  using whole_record_entry[of "hd es" "[]" "entries_bytes (tl es)"] by (cases es) (simp_all add: Log_SvrIsGoodFileData_def)

text \<open>C40. A log that is in order survives a restart: the check of a data file of whole records with its exact index changes neither file and returns the number of the last record, from which
  the server goes on counting, and the length of the file; and whatever else an index file holds, if the check refuses it, the index is rebuilt to exactly the positions of the records, with the same result.\<close>

theorem restart_keeps_log:
  assumes "\<forall>e \<in> set es. good_entry e" and "length (entries_bytes es) < 2 ^ 32"
    and "idx = index_bytes (positions 0 es) \<or> \<not> Log_SvrIsGoodFileIndex (entries_bytes es) idx"
  shows "Log_SvrCheckSingleFile (Some (entries_bytes es)) (Some idx) =
    ((last_id es, of_nat (length (entries_bytes es))), Some (entries_bytes es), Some (index_bytes (positions 0 es)))"
proof -
  have "Log_SvrIsGoodFileIndex (entries_bytes es) (index_bytes (positions 0 es))"
    using good_index_entries[OF _ assms(2)] positions_marks[of es _ "[]"] assms(1) by simp
  moreover have "Log_SvrRebuildIndex (entries_bytes es) 0 = index_bytes (positions 0 es)"
    using rebuild_entries[OF assms(1), of "[]"] by simp
  ultimately show ?thesis
    using assms(3) good_data_entries[OF assms(1)] max_id_entries[OF assms(1,2)] by (auto simp: Log_SvrCheckSingleFile_def Let_def)
qed

definition sample_entry :: "u32 \<times> byte list" where
  "sample_entry = (41, node_bytes (the_record 7 4 5 ''up''))"

lemma sample_entry_good: "good_entry sample_entry"
  using short_record_bytes(3)[of "the_record 7 4 5 ''up''" 41]
  by (simp add: sample_entry_def short_record_def the_record_def sizeof_LOG_NODE_S_def LOG_RELEASE_MAX_LEN_def)

theorem restart_keeps_log_witness:
  "Log_SvrCheckSingleFile (Some (entries_bytes [sample_entry])) (Some [1, 2]) =
    ((41, 21), Some (entries_bytes [sample_entry]), Some [0, 0, 0, 0])"
proof -
  have len: "length (snd sample_entry) = 14" by (simp add: sample_entry_def node_bytes_def the_record_def)
  have "index_bytes (positions 0 [sample_entry]) = [0, 0, 0, 0]" by (simp add: index_bytes_def le_bytes_def upt_rec)
  with restart_keeps_log[of "[sample_entry]" "[1, 2]"] sample_entry_good len show ?thesis
    by (simp add: last_id_def) (simp add: sample_entry_def)
qed

section \<open>From the clients to the files\<close>

text \<open>C4. What the clients put into the cache gets into the logs: one round of the server thread ends without an error, leaves the cache of the clients empty and its blocks free, and numbers the records
  that go to files in the order in which they were written; afterwards the log of each type is its former log followed by the new records of that type. Only the oldest entries of a log are ever lost,
  and only if what is left is still longer than the configured size of a file. Every data file is then the bytes of its entries and every index file the positions of these entries. Records of a type that is
  not configured to go to files (DEBUG in the default configuration) or that is unknown change no log and take no number, whatever their length.

  The conditions are: the files are in order and each type has a cache of at least 263 bytes and a file limit at least 263 bytes above it, as in the default configuration; no type is sent to a remote host; the numbers stay below
  \<open>0xfffffff0\<close>, where the server clears its files; and a pending record that goes to a file has the length its head says, at most \<open>LOG_RELEASE_MAX_LEN\<close> (256) bytes, as the release logs and traces have
  (lemma \<open>rel_text_length\<close>). The last condition is needed: a longer record is cut while its full length is counted, which hides the records behind it (lemma \<open>gap_hides_records\<close>).\<close>

theorem log_end_to_end:
  assumes "log_inv l st" and "server_logs s H"
    and "\<forall>r \<in> set (pending l st). file_of s r \<noteq> None \<longrightarrow> short_record r"
    and "unat (sv_cur_log_id s) + length (pending l st) \<le> 0xfffffff0"
  shows "\<exists>st' s' H'. server_round l line st s = Some (Inr (st', s')) \<and> log_inv l st' \<and> pending l st' = [] \<and> owned st' = owned st \<and> server_logs s' H' \<and>
    (\<forall>fid. \<exists>k. H' fid = drop k (H fid @ new_entries (file_of s) fid (sv_cur_log_id s) (pending l st)) \<and> (k = 0 \<or> unat (file_maxlen (sv_file s ! fid)) < length (entries_bytes (H' fid))))"
proof -
  from assms(1) obtain q where q: "4 \<le> l" "lg_cache st = Some q" "cache_inv l q" by (auto simp: log_inv_def split: option.splits)
  let ?h = "\<lambda>r sr. bindE sr (Log_SvrPullFromClient line r)"
  obtain st' q' where p: "pull_loop l ?h st (Inr s) = Some (Inr (st', fold ?h (pending l st) (Inr s)))" "lg_cache st' = Some q'" "cache_inv l q'"
    "queue_items q' = []" "\<forall>b. block_used q' b \<longleftrightarrow> block_used q b \<and> b \<notin> set (queue_items q)"
    using pull_loop_ok[OF q, of ?h "Inr s"] by blast
  obtain s1 H' where f: "fold ?h (pending l st) (Inr s) = Inr s1" "server_logs s1 H'"
    "\<forall>fid. \<exists>k. H' fid = drop k (H fid @ new_entries (file_of s) fid (sv_cur_log_id s) (pending l st)) \<and> (k = 0 \<or> unat (file_maxlen (sv_file s ! fid)) < length (entries_bytes (H' fid)))"
    using fold_pull[OF assms(2,3,4)] by blast
  obtain s2 where t: "server_tick s1 = Inr s2" "server_logs s2 H'" using tick_logs[OF f(2)] by blast
  have "server_round l line st s = Some (Inr (st', s2))" using p(1) f(1) t(1) by (simp add: server_round_def)
  moreover have "log_inv l st'" "pending l st' = []" using q(1) p by (simp_all add: log_inv_def pending_def)
  moreover have "owned st' = owned st" using q(2) p(2,4) Collect_cong[OF spec[OF p(5)]] by (simp add: owned_def)
  ultimately show ?thesis using t(2) f(3) by blast
qed

text \<open>A server whose files are new, with the default configuration.\<close>

definition new_log_file :: "u32 \<times> u32 \<times> u16 \<times> byte \<Rightarrow> log_file" where
  "new_log_file c = config_file (\<lambda>_. []) c \<lparr>print_end = 0, file_maxlen = 0, cache_maxsize = 0, cfg_overtime = 0, overtime_cnt = 0, next_need_write = False, cur_file_id = 0,
     cur_file_len = 0, cache_len = 0, fcache = [], f_data = [Some [], Some []], f_index = [Some [], Some []]\<rparr>"

definition new_log_server :: log_server where
  "new_log_server = \<lparr>sv_file = map new_log_file Log_SrvConfigDefaultGet, sv_flush_cache = True, sv_cur_log_id = 0, sv_last_time = (0, 0),
     sv_pull_wait_ms = 10, sv_ip = 0, sv_output_buf = [], sv_stdout = [], sv_udp = [], sv_udp_id = 0\<rparr>"

lemma new_log_file_ok: "file_ok (new_log_file (a, b, c, d)) (\<lambda>_. []) []" "history (new_log_file (a, b, c, d)) (\<lambda>_. []) [] = []"
  by (auto simp: file_ok_def new_log_file_def config_file_def Let_def pair_ok_def index_bytes_def history_def less_Suc_eq numeral_2_eq_2)

lemma new_log_file_limits:
  assumes "263 \<le> unat b" and "unat b + 263 \<le> unat a"
  shows "file_limits (new_log_file (a, b, c, d))" "print_end (new_log_file (a, b, c, d)) = d"
  using assms by (simp_all add: file_limits_def new_log_file_def config_file_def Let_def)

lemma new_log_server_logs: "server_logs new_log_server (\<lambda>_. [])"
proof -
  have "\<forall>f \<in> set (sv_file new_log_server). file_ok f (\<lambda>_. []) [] \<and> history f (\<lambda>_. []) [] = [] \<and> file_limits f"
    by (simp add: new_log_server_def Log_SrvConfigDefaultGet_def new_log_file_ok new_log_file_limits)
  moreover have "length (sv_file new_log_server) = LOG_SRV_FILE_TYPE_MAX" "sv_ip new_log_server = 0"
    by (simp_all add: new_log_server_def Log_SrvConfigDefaultGet_def LOG_SRV_FILE_TYPE_MAX_def)
  ultimately show ?thesis unfolding server_logs_def by (metis nth_mem)
qed

theorem log_end_to_end_witness:
  "\<exists>st st' s' H'. WriteCache 8 7 4 5 ''up'' small_log = Inr (True, st) \<and> server_round 8 (\<lambda>_. []) st new_log_server = Some (Inr (st', s')) \<and> server_logs s' H' \<and>
     H' 2 = [(1, node_bytes (the_record 7 4 5 ''up''))]"
proof -
  have room: "\<not> no_room 8 (of_nat (length ''up'' + sizeof_LOG_NODE_S)) (the (lg_cache small_log))"
    by (simp add: small_log_def small_cache_eval no_room_def fits_def block_used_def sizeof_LOG_NODE_S_def) (rule exI[of _ 0], simp)
  obtain st where st: "WriteCache 8 7 4 5 ''up'' small_log = Inr (True, st)" "log_inv 8 st" "pending 8 st = [the_record 7 4 5 ''up'']"
    using WriteCache_inv[OF small_log_inv, of "''up''" 7 4 5] room small_log_pending by (auto simp: sizeof_LOG_NODE_S_def)
  have r: "short_record (the_record 7 4 5 ''up'')" "Log_SrvGetFileType (ln_type (fst (the_record 7 4 5 ''up''))) = Some 2"
    by (simp_all add: short_record_def the_record_def sizeof_LOG_NODE_S_def LOG_RELEASE_MAX_LEN_def Log_SrvGetFileType_def)
  have id: "sv_cur_log_id new_log_server = 0" by (simp add: new_log_server_def)
  have fo: "file_of new_log_server (the_record 7 4 5 ''up'') = Some 2"
    by (simp add: file_of_def r(2)) (simp add: new_log_server_def Log_SrvConfigDefaultGet_def new_log_file_limits(2) LE_FILE_def)
  have e: "new_entries (file_of new_log_server) 2 0 [the_record 7 4 5 ''up''] = [(1, node_bytes (the_record 7 4 5 ''up''))]"
    by (simp add: new_entries_simps fo)
  have short: "\<forall>x \<in> set (pending 8 st). file_of new_log_server x \<noteq> None \<longrightarrow> short_record x" using st(3) r by simp
  have room': "unat (sv_cur_log_id new_log_server) + length (pending 8 st) \<le> 0xfffffff0" using st(3) id by simp
  obtain st' s' H' where o: "server_round 8 (\<lambda>_. []) st new_log_server = Some (Inr (st', s'))" "server_logs s' H'"
    "\<forall>fid. \<exists>k. H' fid = drop k ([] @ new_entries (file_of new_log_server) fid (sv_cur_log_id new_log_server) (pending 8 st)) \<and>
      (k = 0 \<or> unat (file_maxlen (sv_file new_log_server ! fid)) < length (entries_bytes (H' fid)))"
    using log_end_to_end[OF st(2) new_log_server_logs short room', of "\<lambda>_. []"] by blast
  have max: "unat (file_maxlen (sv_file new_log_server ! 2)) = 65536"
    by (simp add: new_log_server_def Log_SrvConfigDefaultGet_def new_log_file_def config_file_def Let_def)
  obtain k where k: "H' 2 = drop k [(1, node_bytes (the_record 7 4 5 ''up''))]" "k = 0 \<or> 65536 < length (entries_bytes (H' 2))"
    using spec[OF o(3), of 2] st(3) id e max by auto
  have "length (node_bytes (the_record 7 4 5 ''up'')) \<le> 256" using short_record_bytes(5)[OF r(1)] .
  then have "H' 2 = [(1, node_bytes (the_record 7 4 5 ''up''))]" using k by (cases k) auto
  with st(1) o(1,2) show ?thesis by blast
qed

section \<open>Where records are lost\<close>

text \<open>A data file without its index file is emptied, whatever it holds.\<close>

lemma missing_index_clears: "Log_SvrCheckSingleFile (Some d) None = ((0, 0), Some [], Some [])"
  by (simp add: Log_SvrCheckSingleFile_def Log_SvrGetMaxId_def Let_def)

text \<open>The bytes that were counted for a record but not stored, as for a record that was cut, hide every record that follows in the cache: the index names none of them.\<close>

lemma gap_hides_records:
  assumes "\<forall>e \<in> set es. good_entry e" and "b \<noteq> LOG_FILE_NODE_HEAD" and "length (entries_bytes es) < n"
  shows "index_loop (entries_bytes es @ b # rest) n 0 base = Inr (map (\<lambda>p. base + of_nat p) (positions 0 es))"
proof -
  have "index_loop (pre @ entries_bytes es @ b # rest) n (length pre) base = Inr (map (\<lambda>p. base + of_nat p) (positions (length pre) es))"
    if "length pre + length (entries_bytes es) < n" for pre using assms(1) that
  proof (induction es arbitrary: pre)
    case Nil then show ?case using assms(2) by (subst index_loop.simps) simp
  next
    case (Cons e es)
    then show ?case using index_loop_step[of e pre n "entries_bytes es @ b # rest" base] Cons.IH[of "pre @ entry_bytes e"] by simp
  qed
  from this[of "[]"] show ?thesis using assms(3) by simp
qed

text \<open>Enlarging the cache of a type asks for memory of the old size: a cache that was full to its old limit then leaves its buffer with the next record.\<close>

lemma enlarged_cache_overflows:
  assumes "Log_SrvGetFileType ty = Some fid" and "fid < length (sv_file s)" and "cache_maxsize (sv_file s ! fid) < ucast csize"
    and "length bs + 7 > unat (cache_maxsize (sv_file s ! fid)) - unat (cache_len (sv_file s ! fid))" and "cache_len (sv_file s ! fid) \<le> cache_maxsize (sv_file s ! fid)"
  shows "\<exists>s'. Log_RelCacheCfg junk True ty csize t (Some s) = (True, Some s') \<and> cache_maxsize (sv_file s' ! fid) = ucast csize \<and>
    put_node rid bs n (sv_file s' ! fid) = Inl OutOfBounds"
  using assms by (auto simp: Log_RelCacheCfg_def Let_def set_file_def put_node_def copy_in_def word_le_nat_alt)

end
