(* ===== verification/Cell_Threads.thy ===== *)
theory Cell_Threads
  imports Data_Model
begin

text \<open>
  The state cells of the scheduler when several threads use them. \<open>setMState\<close>, \<open>setCleanState\<close> and
  \<open>setJobCommand\<close> and their readers take no lock (\<open>schedule/DateModel.cpp\<close>, \<open>schedule/RobotSchedule.cpp\<close>), and
  the network handlers, the fault handler, the timer and the cleaning thread call them. Here a step is a single
  read or write of the value or a single operation of the \<open>std::queue\<close>; any number of threads are inside the
  functions at the same time, in any order. A queue operation is taken to be one step, which is the best case:
  two at the same time are a data race in C++. The history of the clean state has one more user, the state
  listener, which pops an entry (\<open>RobotSchedule.cpp\<close>, \<open>listenState\<close>); it is not a thread here, so for that cell the
  theory covers the runs in which the listener is not active.

  The theory shows what holds for every interleaving and what only holds while setters do not overlap; the
  lemmas at its end are schedules in which the cell goes wrong.
\<close>

section \<open>The steps of a call\<close>

text \<open>Where a thread stands, with the local variables of the call: the argument of the setter, or the value the
  reader has loaded.\<close>

datatype 'v pc =
    Outside
  | W_test 'v | W_write 'v | W_push 'v | W_back 'v | W_size 'v | W_pop 'v
  | R_value | R_empty 'v | R_back

datatype 'v call = Call_set nat 'v | Call_get nat | Move nat

text \<open>
  The cell, the threads, the values returned by readers, whether a setter or a reader has used the front or back
  of an empty queue, and the largest number of setters that were inside at the same time.
\<close>

record 'v cell =
  cl_value :: 'v
  cl_hist :: "'v list"
  cl_threads :: "'v pc list"
  cl_out :: "'v list"
  cl_wfault :: bool
  cl_rfault :: bool
  cl_peak :: nat

definition new_cell :: "'v \<Rightarrow> nat \<Rightarrow> 'v cell" where
  "new_cell v n = \<lparr>cl_value = v, cl_hist = [], cl_threads = replicate n Outside, cl_out = [], cl_wfault = False,
     cl_rfault = False, cl_peak = 0\<rparr>"

fun inside_set :: "'v pc \<Rightarrow> bool" where
  "inside_set Outside = False" | "inside_set R_value = False" | "inside_set (R_empty x) = False" | "inside_set R_back = False"
| "inside_set (W_test v) = True" | "inside_set (W_write v) = True" | "inside_set (W_push v) = True"
| "inside_set (W_back v) = True" | "inside_set (W_size v) = True" | "inside_set (W_pop v) = True"

text \<open>The setters that have pushed and are not yet through, and those about to pop.\<close>

fun pushed :: "'v pc \<Rightarrow> bool" where
  "pushed (W_back v) = True" | "pushed (W_size v) = True" | "pushed (W_pop v) = True"
| "pushed Outside = False" | "pushed R_value = False" | "pushed (R_empty x) = False" | "pushed R_back = False"
| "pushed (W_test v) = False" | "pushed (W_write v) = False" | "pushed (W_push v) = False"

fun popping :: "'v pc \<Rightarrow> bool" where
  "popping (W_pop v) = True"
| "popping Outside = False" | "popping R_value = False" | "popping (R_empty x) = False" | "popping R_back = False"
| "popping (W_test v) = False" | "popping (W_write v) = False" | "popping (W_push v) = False"
| "popping (W_back v) = False" | "popping (W_size v) = False"

definition how_many :: "('v pc \<Rightarrow> bool) \<Rightarrow> 'v cell \<Rightarrow> nat" where
  "how_many P s = length (filter P (cl_threads s))"

definition at_pc :: "nat \<Rightarrow> 'v pc \<Rightarrow> 'v cell \<Rightarrow> 'v cell" where
  "at_pc i p s =
     (let s1 = s\<lparr>cl_threads := (cl_threads s)[i := p]\<rparr> in s1\<lparr>cl_peak := max (cl_peak s) (how_many inside_set s1)\<rparr>)"

text \<open>
  The next step of thread \<open>i\<close>. \<open>prints\<close> is set for \<open>setJobCommand\<close>, which reads the back of the queue for its
  message after the push. \<open>setMState\<close> reads \<open>m_state\<close> for its message, and \<open>setCleanState\<close> prints its argument: neither
  has an effect on the cell, so they are no steps.
\<close>

definition move :: "bool \<Rightarrow> nat \<Rightarrow> 'v cell \<Rightarrow> 'v cell" where
  "move prints i s =
     (case cl_threads s ! i of
        Outside \<Rightarrow> s
      | W_test v \<Rightarrow> at_pc i (if cl_value s = v then Outside else W_write v) s
      | W_write v \<Rightarrow> at_pc i (W_push v) (s\<lparr>cl_value := v\<rparr>)
      | W_push v \<Rightarrow> at_pc i (if prints then W_back v else W_size v) (s\<lparr>cl_hist := cl_hist s @ [v]\<rparr>)
      | W_back v \<Rightarrow> at_pc i (W_size v) (if cl_hist s = [] then s\<lparr>cl_wfault := True\<rparr> else s)
      | W_size v \<Rightarrow> at_pc i (if length (cl_hist s) > 2 then W_pop v else Outside) s
      | W_pop v \<Rightarrow> at_pc i Outside (case q_pop (cl_hist s) of Inl _ \<Rightarrow> s\<lparr>cl_wfault := True\<rparr> | Inr q \<Rightarrow> s\<lparr>cl_hist := q\<rparr>)
      | R_value \<Rightarrow> at_pc i (R_empty (cl_value s)) s
      | R_empty x \<Rightarrow> if cl_hist s = [] then at_pc i Outside (s\<lparr>cl_out := cl_out s @ [x]\<rparr>) else at_pc i R_back s
      | R_back \<Rightarrow> at_pc i Outside (case q_back (cl_hist s) of Inl _ \<Rightarrow> s\<lparr>cl_rfault := True\<rparr> | Inr x \<Rightarrow> s\<lparr>cl_out := cl_out s @ [x]\<rparr>))"

definition do_call :: "bool \<Rightarrow> 'v call \<Rightarrow> 'v cell \<Rightarrow> 'v cell option" where
  "do_call prints e s =
     (case e of
        Call_set i v \<Rightarrow> if i < length (cl_threads s) \<and> cl_threads s ! i = Outside then Some (at_pc i (W_test v) s) else None
      | Call_get i \<Rightarrow> if i < length (cl_threads s) \<and> cl_threads s ! i = Outside then Some (at_pc i R_value s) else None
      | Move i \<Rightarrow> if i < length (cl_threads s) \<and> cl_threads s ! i \<noteq> Outside then Some (move prints i s) else None)"

fun do_calls :: "bool \<Rightarrow> 'v call list \<Rightarrow> 'v cell \<Rightarrow> 'v cell option" where
  "do_calls prints [] s = Some s"
| "do_calls prints (e # es) s = (case do_call prints e s of None \<Rightarrow> None | Some t \<Rightarrow> do_calls prints es t)"

fun argument :: "'v call \<Rightarrow> 'v set" where
  "argument (Call_set i v) = {v}"
| "argument (Call_get i) = {}"
| "argument (Move i) = {}"

text \<open>One step of some thread; setters are called with values of \<open>V\<close>.\<close>

inductive cell_step :: "bool \<Rightarrow> 'v set \<Rightarrow> 'v cell \<Rightarrow> 'v cell \<Rightarrow> bool" for prints V where
  cell_call: "do_call prints e s = Some t \<Longrightarrow> argument e \<subseteq> V \<Longrightarrow> cell_step prints V s t"

inductive_cases cell_stepE: "cell_step prints V s t"

lemma do_calls_reach:
  "do_calls prints es s = Some t \<Longrightarrow> (\<forall>e \<in> set es. argument e \<subseteq> V) \<Longrightarrow> reach (cell_step prints V) s t"
proof (induction es arbitrary: s)
  case (Cons e es)
  then obtain u where u: "do_call prints e s = Some u" "do_calls prints es u = Some t" by (auto split: option.splits)
  have "reach (cell_step prints V) s u" using u(1) Cons.prems(2) by (intro reach_step [OF reach_refl] cell_call) auto
  then show ?case using Cons.IH [OF u(2)] Cons.prems(2) reach_trans by (metis list.set_intros(2))
qed (simp add: reach_refl)

lemma at_pc_fields [simp]:
  "cl_value (at_pc i p s) = cl_value s" "cl_hist (at_pc i p s) = cl_hist s" "cl_out (at_pc i p s) = cl_out s"
  "cl_wfault (at_pc i p s) = cl_wfault s" "cl_rfault (at_pc i p s) = cl_rfault s"
  "cl_threads (at_pc i p s) = (cl_threads s)[i := p]"
  "cl_peak (at_pc i p s) = max (cl_peak s) (length (filter inside_set ((cl_threads s)[i := p])))"
  by (simp_all add: at_pc_def how_many_def)

section \<open>A call alone\<close>

text \<open>Run by a single thread without interruption, the steps are the functions of the code.\<close>

lemma set_alone:
  assumes i: "i < length (cl_threads s)" "cl_threads s ! i = Outside"
  shows "\<exists>n t. do_calls prints (Call_set i v # replicate n (Move i)) s = Some t \<and> cl_threads t = cl_threads s \<and>
     cl_value t = v \<and> cl_hist t = (if cl_value s = v then cl_hist s
        else let q = cl_hist s @ [v] in if length q > 2 then tl q else q)"
proof -
  have thr [simp]: "(cl_threads s)[i := Outside] = cl_threads s" using i by (metis list_update_id)
  note e = do_call_def move_def q_pop_def Let_def
  consider "cl_value s = v" | "cl_value s \<noteq> v" "length (cl_hist s) < 2" | "cl_value s \<noteq> v" "\<not> length (cl_hist s) < 2" by blast
  then show ?thesis
  proof cases
    case 1 then show ?thesis using i by (intro exI [of _ "Suc 0"]) (simp add: e)
  next
    case 2 then show ?thesis using i
      by (intro exI [of _ "Suc (Suc (Suc (if prints then Suc (Suc 0) else Suc 0)))"]) (cases prints; simp add: e)
  next
    case 3 then show ?thesis using i
      by (intro exI [of _ "Suc (Suc (Suc (Suc (if prints then Suc (Suc 0) else Suc 0))))"]) (cases prints; simp add: e)
  qed
qed

lemma get_alone:
  assumes i: "i < length (cl_threads s)" "cl_threads s ! i = Outside"
  shows "\<exists>n t. do_calls prints (Call_get i # replicate n (Move i)) s = Some t \<and> cl_threads t = cl_threads s \<and>
     cl_out t = cl_out s @ [if cl_hist s = [] then cl_value s else last (cl_hist s)]"
proof -
  have thr [simp]: "(cl_threads s)[i := Outside] = cl_threads s" using i by (metis list_update_id)
  show ?thesis using i
    by (intro exI [of _ "Suc (Suc (if cl_hist s = [] then 0 else Suc 0))"])
      (cases "cl_hist s = []"; simp add: do_call_def move_def q_back_def)
qed

lemma setters_alone:
  assumes i: "i < length (cl_threads s)" "cl_threads s ! i = Outside"
  shows "\<lbrakk>cl_value s = m_state d; cl_hist s = MstateData d\<rbrakk> \<Longrightarrow>
      \<exists>n t. do_calls False (Call_set i m # replicate n (Move i)) s = Some t \<and> cl_threads t = cl_threads s \<and>
        cl_value t = m_state (setMState m d) \<and> cl_hist t = MstateData (setMState m d)"
    and "\<lbrakk>cl_value s' = clean_state d; cl_hist s' = CstateData d; cl_threads s' ! i = Outside; i < length (cl_threads s')\<rbrakk> \<Longrightarrow>
      \<exists>n t. do_calls False (Call_set i c # replicate n (Move i)) s' = Some t \<and> cl_threads t = cl_threads s' \<and>
        cl_value t = clean_state (setCleanState c d) \<and> cl_hist t = CstateData (setCleanState c d)"
    and "\<lbrakk>cl_value s'' = job_cmd j; cl_hist s'' = Ejobcmd j; cl_threads s'' ! i = Outside; i < length (cl_threads s'')\<rbrakk> \<Longrightarrow>
      \<exists>n t. do_calls True (Call_set i k # replicate n (Move i)) s'' = Some t \<and> cl_threads t = cl_threads s'' \<and>
        cl_value t = job_cmd (setJobCommand k j) \<and> cl_hist t = Ejobcmd (setJobCommand k j)"
  using set_alone [OF i, of False m] set_alone [of i s' False c] set_alone [of i s'' True k]
  by (auto simp: setMState_def setCleanState_def setJobCommand_def Let_def split: if_splits)

section \<open>What every interleaving keeps\<close>

lemma filter_update:
  "i < length xs \<Longrightarrow> length (filter P (xs[i := x])) = length (filter P xs) - of_bool (P (xs ! i)) + of_bool (P x)"
proof (induction xs arbitrary: i)
  case (Cons y ys)
  have "length (filter P ys) > 0" if "k < length ys" "P (ys ! k)" for k
    using that by (metis filter_empty_conv length_greater_0_conv nth_mem)
  then show ?case using Cons by (cases i) (auto simp: Suc_diff_Suc split: if_splits)
qed simp

lemma filter_pos: "i < length xs \<Longrightarrow> P (xs ! i) \<Longrightarrow> length (filter P xs) > 0"
  by (metis filter_empty_conv length_greater_0_conv nth_mem)

lemma only_one:
  assumes "length (filter P xs) \<le> 1" "i < length xs" "P (xs ! i)" "x \<in> set (xs[i := y])" "P x"
  shows "x = y"
proof (rule ccontr)
  assume "x \<noteq> y"
  obtain k where n: "k < length xs" "xs[i := y] ! k = x" using assms(4) by (auto simp: in_set_conv_nth)
  then have k: "k \<noteq> i" "x = xs ! k" using \<open>x \<noteq> y\<close> assms(2) by (auto simp: nth_list_update split: if_splits)
  then have "{i, k} \<subseteq> {n. n < length xs \<and> P (xs ! n)}" using assms(2,3,5) n(1) by auto
  then have "card {i, k} \<le> length (filter P xs)" unfolding length_filter_conv_card by (intro card_mono) auto
  then show False using k assms(1) by simp
qed

fun pc_values :: "'v pc \<Rightarrow> 'v set" where
  "pc_values Outside = {}" | "pc_values R_value = {}" | "pc_values (R_empty x) = {x}" | "pc_values R_back = {}"
| "pc_values (W_test v) = {v}" | "pc_values (W_write v) = {v}" | "pc_values (W_push v) = {v}"
| "pc_values (W_back v) = {v}" | "pc_values (W_size v) = {v}" | "pc_values (W_pop v) = {v}"

definition hist_ok :: "'v cell \<Rightarrow> bool" where
  "hist_ok s \<longleftrightarrow> \<not> cl_wfault s \<and> how_many pushed s \<le> length (cl_hist s) \<and> length (cl_hist s) \<le> 2 + how_many pushed s \<and>
     how_many inside_set s \<le> cl_peak s"

definition pairs_ok :: "'v cell \<Rightarrow> bool" where
  "pairs_ok s \<longleftrightarrow> (cl_peak s \<le> 2 \<longrightarrow> \<not> cl_rfault s \<and> (R_back \<in> set (cl_threads s) \<longrightarrow> cl_hist s \<noteq> []) \<and>
     how_many popping s \<le> length (cl_hist s) - 1)"

definition agree :: "'v pc set \<Rightarrow> 'v \<Rightarrow> 'v list \<Rightarrow> bool" where
  "agree T x q \<longleftrightarrow> (\<forall>v. W_push v \<in> T \<longrightarrow> x = v) \<and> (\<forall>v. W_pop v \<in> T \<longrightarrow> length q > 2) \<and>
     ((\<forall>v. W_push v \<notin> T) \<longrightarrow> q = [] \<or> last q = x)"

definition single_ok :: "'v cell \<Rightarrow> bool" where
  "single_ok s \<longleftrightarrow> (cl_peak s \<le> 1 \<longrightarrow> agree (set (cl_threads s)) (cl_value s) (cl_hist s))"

definition values_ok :: "'v set \<Rightarrow> 'v cell \<Rightarrow> bool" where
  "values_ok W s \<longleftrightarrow> cl_value s \<in> W \<and> set (cl_hist s) \<subseteq> W \<and> set (cl_out s) \<subseteq> W \<and> (\<forall>p \<in> set (cl_threads s). pc_values p \<subseteq> W)"

text \<open>Every step is a thread \<open>i\<close> that goes on from its place; \<open>moved\<close> describes a step without the case analysis on events.\<close>

definition moved :: "bool \<Rightarrow> 'v set \<Rightarrow> nat \<Rightarrow> 'v cell \<Rightarrow> 'v cell \<Rightarrow> bool" where
  "moved prints V i s t \<longleftrightarrow> i < length (cl_threads s) \<and>
     (cl_threads s ! i = Outside \<and> (t = at_pc i R_value s \<or> (\<exists>v \<in> V. t = at_pc i (W_test v) s)) \<or>
      cl_threads s ! i \<noteq> Outside \<and> t = move prints i s)"

lemma cell_step_moved: "cell_step prints V s t \<Longrightarrow> \<exists>i. moved prints V i s t"
  by (erule cell_stepE) (auto simp: do_call_def moved_def split: call.splits if_splits)

lemma hist_ok_step:
  assumes "hist_ok s" "moved prints V i s t" shows "hist_ok t"
proof -
  let ?ts = "cl_threads s"
  have i: "i < length ?ts" using assms(2) by (simp add: moved_def)
  define n m where n_def: "n = length (filter pushed ?ts)" and m_def: "m = length (filter inside_set ?ts)"
  have pos: "pushed (?ts ! i) \<longrightarrow> n > 0" "inside_set (?ts ! i) \<longrightarrow> m > 0"
    using filter_pos [OF i] by (auto simp only: n_def m_def)
  note u = filter_update [OF i] n_def [symmetric] m_def [symmetric]
  show ?thesis
  proof (cases "?ts ! i = Outside")
    case True
    then show ?thesis using assms by (auto simp: moved_def hist_ok_def how_many_def u)
  next
    case False
    then have t: "t = move prints i s" using assms(2) by (simp add: moved_def)
    show ?thesis using assms(1) pos False unfolding t
      by (cases "?ts ! i") (auto simp: hist_ok_def how_many_def move_def q_pop_def q_back_def u)
  qed
qed

lemma peak_mono: "moved prints V i s t \<Longrightarrow> cl_peak s \<le> cl_peak t"
  by (auto simp: moved_def move_def q_pop_def q_back_def split: pc.splits)

lemma popping_inside: "length (filter popping ts) \<le> length (filter inside_set ts)"
proof (induction ts)
  case (Cons p ts) then show ?case by (cases p) auto
qed simp

lemma pairs_ok_step:
  assumes "pairs_ok s" "hist_ok s" "moved prints V i s t" shows "pairs_ok t"
proof (cases "cl_peak t \<le> 2")
  case peak: True
  let ?ts = "cl_threads s"
  have i: "i < length ?ts" using assms(3) by (simp add: moved_def)
  define n where n_def: "n = length (filter popping ?ts)"
  have pos: "popping (?ts ! i) \<longrightarrow> n > 0" using filter_pos [OF i] by (auto simp only: n_def)
  note u = filter_update [OF i] n_def [symmetric]
  have s: "\<not> cl_rfault s" "R_back \<in> set ?ts \<longrightarrow> cl_hist s \<noteq> []" "n \<le> length (cl_hist s) - 1"
    using assms(1) peak peak_mono [OF assms(3)] by (auto simp: pairs_ok_def how_many_def n_def)
  have "how_many inside_set t \<le> 2" using hist_ok_step [OF assms(2,3)] peak by (simp add: hist_ok_def)
  then have two: "length (filter popping (cl_threads t)) \<le> 2" using popping_inside [of "cl_threads t"] by (simp add: how_many_def)
  have bk: "R_back \<in> set (?ts[i := p]) \<Longrightarrow> p = R_back \<or> R_back \<in> set ?ts" for p
    using set_update_subset_insert [of ?ts i p] by auto
  have mine: "?ts ! i = R_back \<longrightarrow> cl_hist s \<noteq> []" using s(2) i by (metis nth_mem)
  show ?thesis
  proof (cases "?ts ! i = Outside")
    case True
    then show ?thesis using assms(3) s by (auto simp: moved_def pairs_ok_def how_many_def u dest!: bk)
  next
    case False
    then have t: "t = move prints i s" using assms(3) by (simp add: moved_def)
    have "tl (cl_hist s) = [] \<longrightarrow> length (cl_hist s) \<le> 1" by (cases "cl_hist s") auto
    then show ?thesis using s pos mine False two unfolding t
      by (cases "?ts ! i") (auto simp: pairs_ok_def how_many_def move_def q_pop_def q_back_def u dest!: bk)
  qed
qed (simp add: pairs_ok_def)

lemma agree_alone:
  assumes "p \<in> T" "\<And>q. q \<in> T \<Longrightarrow> inside_set q \<Longrightarrow> q = p"
  shows "agree T x q = agree {p} x q"
proof -
  have "W_push v \<in> T \<longleftrightarrow> W_push v \<in> {p}" "W_pop v \<in> T \<longleftrightarrow> W_pop v \<in> {p}" for v
    using assms(1) assms(2) [of "W_push v"] assms(2) [of "W_pop v"] by auto
  then show ?thesis unfolding agree_def by simp
qed

lemma single_ok_step:
  assumes "single_ok s" "hist_ok s" "moved prints V i s t" shows "single_ok t"
proof (cases "cl_peak t \<le> 1")
  case peak: True
  let ?ts = "cl_threads s"
  have i: "i < length ?ts" using assms(3) by (simp add: moved_def)
  have s: "agree (set ?ts) (cl_value s) (cl_hist s)"
    using assms(1) peak peak_mono [OF assms(3)] by (auto simp: single_ok_def)
  have one: "length (filter inside_set ?ts) \<le> 1"
    using assms(2) peak peak_mono [OF assms(3)] by (auto simp: hist_ok_def how_many_def)
  have "agree (set (cl_threads t)) (cl_value t) (cl_hist t)"
  proof (cases "inside_set (?ts ! i)")
    case True
    have alone: "agree (set (?ts[i := p])) x q = agree {p} x q" for p x q
      using only_one [OF one i True] set_update_memI [OF i] by (intro agree_alone) auto
    have "agree {?ts ! i} (cl_value s) (cl_hist s)" using s alone [of "?ts ! i"] by simp
    moreover have "t = move prints i s" using True assms(3) by (auto simp: moved_def)
    moreover have "length (cl_hist s) > 2 \<longrightarrow> last (tl (cl_hist s)) = last (cl_hist s)" by (cases "cl_hist s") auto
    ultimately show ?thesis using True
      by (cases "?ts ! i") (simp_all add: alone move_def q_pop_def, auto simp: agree_def)
  next
    case False
    have same: "cl_value t = cl_value s" "cl_hist t = cl_hist s" "\<exists>p. cl_threads t = ?ts[i := p] \<and> \<not> pushed p \<and> (\<forall>v. p \<noteq> W_push v)"
      using assms(3) False by (cases "?ts ! i"; auto simp: moved_def move_def q_back_def)+
    then obtain p where p: "cl_threads t = ?ts[i := p]" "\<not> pushed p" "\<forall>v. p \<noteq> W_push v" by blast
    have sub: "W_push v \<in> set (?ts[i := p]) \<longrightarrow> W_push v \<in> set ?ts" "W_pop v \<in> set (?ts[i := p]) \<longrightarrow> W_pop v \<in> set ?ts" for v
      using p(2,3) set_update_subset_insert [of ?ts i p] by auto
    have sup: "W_push v \<in> set (?ts[i := p])" if push: "W_push v \<in> set ?ts" for v
    proof -
      obtain k where k: "k < length ?ts" "?ts ! k = W_push v" using push by (auto simp: in_set_conv_nth)
      then have "k \<noteq> i" using False by auto
      then have "?ts[i := p] ! k = W_push v" using k by simp
      then show ?thesis using k(1) by (metis length_list_update nth_mem)
    qed
    show ?thesis using s sub sup unfolding same(1,2) p(1) agree_def by blast
  qed
  then show ?thesis by (simp add: single_ok_def)
qed (simp add: single_ok_def)

lemma values_ok_step:
  assumes "values_ok W s" "V \<subseteq> W" "moved prints V i s t" shows "values_ok W t"
proof -
  let ?ts = "cl_threads s"
  have i: "i < length ?ts" using assms(3) by (simp add: moved_def)
  have s: "cl_value s \<in> W" "set (cl_hist s) \<subseteq> W" "set (cl_out s) \<subseteq> W" "\<forall>p \<in> set ?ts. pc_values p \<subseteq> W"
    using assms(1) by (simp_all add: values_ok_def)
  have mine: "pc_values (?ts ! i) \<subseteq> W" using s(4) i by simp
  have upd: "q = p \<or> q \<in> set ?ts" if "q \<in> set (?ts[i := p])" for p q using that set_update_subset_insert [of ?ts i p] by auto
  have tl: "x \<in> W" if "x \<in> set (tl (cl_hist s))" for x using s(2) that list.set_sel(2) [of "cl_hist s" x] by (cases "cl_hist s") auto
  have lst: "cl_hist s \<noteq> [] \<longrightarrow> last (cl_hist s) \<in> W" using s(2) last_in_set by blast
  show ?thesis
  proof (cases "?ts ! i = Outside")
    case True
    then show ?thesis using assms(2,3) s by (auto simp: moved_def values_ok_def dest!: upd; blast)
  next
    case False
    then have t: "t = move prints i s" using assms(3) by (simp add: moved_def)
    show ?thesis using s mine lst False unfolding t
      by (cases "?ts ! i") (auto simp: values_ok_def move_def q_pop_def q_back_def dest!: upd dest: tl)
  qed
qed

definition cell_ok :: "'v set \<Rightarrow> 'v cell \<Rightarrow> bool" where
  "cell_ok W s \<longleftrightarrow> hist_ok s \<and> pairs_ok s \<and> single_ok s \<and> values_ok W s"

lemma new_cell_ok: "cell_ok (insert v0 V) (new_cell v0 n)"
  by (auto simp: cell_ok_def hist_ok_def pairs_ok_def single_ok_def values_ok_def new_cell_def how_many_def agree_def)

interpretation cells: transition_system "new_cell v0 n" "cell_step prints V" "cell_ok (insert v0 V)" for v0 n prints V
proof
  show "cell_ok (insert v0 V) (new_cell v0 n)" by (rule new_cell_ok)
  fix s t assume "cell_ok (insert v0 V) s" "cell_step prints V s t"
  then show "cell_ok (insert v0 V) t"
    using cell_step_moved hist_ok_step pairs_ok_step single_ok_step values_ok_step [OF _ subset_insertI]
    unfolding cell_ok_def by metis
qed

section \<open>The property\<close>



section \<open>Overlapping setters\<close>

text \<open>Two setters that overlap leave a value that differs from the end of the history: readers get a value that is not the
  one in force, and setting the value that readers should see is then ignored as if it were already set.\<close>

lemma overlap_stale:
  "\<exists>s. do_calls False [Call_set 0 ESTATE_CLEAN, Call_set 1 ESTATE_PAUSE_CLEAN, Move 0, Move 0, Move 1, Move 1, Move 1, Move 0, Move 0, Move 1]
       (new_cell ESTATE_IDLE 2) = Some s \<and>
     how_many inside_set s = 0 \<and> cl_value s = ESTATE_PAUSE_CLEAN \<and> last (cl_hist s) = ESTATE_CLEAN \<and>
     (\<exists>t. do_calls False [Call_set 0 ESTATE_PAUSE_CLEAN, Move 0] s = Some t \<and> cl_threads t = cl_threads s \<and> last (cl_hist t) = ESTATE_CLEAN)"
  by (simp add: do_call_def move_def new_cell_def numeral_eq_Suc at_pc_def how_many_def)

text \<open>Three setters that overlap on a new cell pop its history empty, and a reader that has seen an entry uses the back of
  an empty queue.\<close>

lemma overlap_empty:
  "\<exists>s. do_calls False ([Call_set 0 ESTATE_CLEAN, Call_set 1 ESTATE_OTA, Call_set 2 ESTATE_ERROR, Move 0, Move 1, Move 2,
        Move 0, Move 1, Move 2, Move 0, Move 1, Move 2, Move 0, Move 1, Move 2, Call_get 3, Move 3, Move 3, Move 0, Move 1, Move 2, Move 3])
       (new_cell ESTATE_IDLE 4) = Some s \<and> cl_rfault s \<and> cl_hist s = []"
  by (simp add: do_call_def move_def new_cell_def numeral_eq_Suc at_pc_def how_many_def q_back_def q_pop_def)

end
