(* ===== verification/Spec2Isabelle.thy ===== *)
theory Spec2Isabelle
  imports Ring_Buffer Cycle_Queue Msg_Queue Heap_Timer Nav_Link Packet_Socket Message_Queue Dp_Bus Robot_Schedule Wheel_Timer Watchdog
    Base64 Crc32 Kvdb_Server Log_Server Cell_Threads
begin

text \<open>
  A verification library for the robot software under \<open>src/src\<close>: the board support library \<open>lib_bsp\<close> and the
  applications \<open>lib_app\<close>, which run as several processes on a cleaning robot.

  \<^bold>\<open>The program.\<close> Processes talk over a message bus. A process connects a packet socket
  (\<open>eventservice/net\<close>) to the broker (\<open>eventservice/dp\<close>), which keeps who listens to which method and routes
  broadcasts, requests and replies. Inside a process an event service (\<open>eventservice/event\<close>) runs a message queue with
  immediate and delayed messages; bytes are kept in chained blocks (\<open>eventservice/mem\<close>) and integers are stored by
  \<open>eventservice/base/byteorder.h\<close>. The robot application (\<open>lib_app/robot_schedule\<close>) takes commands from the
  network, the keys and the sensors into the cells of a data model and a job queue, and its work loop carries them out; it exchanges frames
  with the navigation process over two sockets (\<open>socket/navigate.cpp\<close>, \<open>socket/serialize.cpp\<close>), passes messages
  between threads by a linked queue (\<open>socket/msgqueue.cpp\<close>) and has two timers (\<open>schedule/heap_timer.cpp\<close>,
  \<open>schedule/wheel_timer.cpp\<close>). Settings are kept in files by a key-value store (\<open>kvdb\<close>), a watchdog
  (\<open>watchdog\<close>) in shared memory finds processes that hang, and logs (\<open>log\<close>) go through a cache in shared memory to
  the thread that writes them to files.

  \<^bold>\<open>Shared theories.\<close>
  \<^item> \<open>Prelude\<close>: machine types, wrap-around of \<open>size_t\<close> and \<open>int\<close>, memory errors as values,
    \<open>memcpy\<close>, list lemmas.
  \<^item> \<open>Text_Util\<close>: C strings and the helpers of \<open>util/string_util.cpp\<close> and \<open>util/file_opera.cpp\<close>
    the components call.
  \<^item> \<open>Fifo_Spec\<close>, \<open>Byte_Stream_Spec\<close>, \<open>Transition_Spec\<close>: the interfaces, as locales with their
    client lemmas. The queues are interpretations of the first, the chained buffer of the second, broker, bus clients, scheduler, its state
    cells, watchdog and the stacks of the log cache of the third. Further locales stand beside their components: \<open>byte_codec\<close>,
    \<open>block_reader\<close>, \<open>block_copier\<close>, \<open>history_cell\<close>.

  \<^bold>\<open>Components.\<close> The state is a record with the members of the class, an operation is a function of the name of the
  method (with a prefix where names clash), errors are values of a sum or an enumeration, and an access outside a buffer, a null pointer or
  an erased element is an error too.
  \<^item> \<open>Byte_Order\<close>, \<open>Ring_Buffer\<close>, \<open>Cycle_Queue\<close>, \<open>Mem_Buffer\<close>: storage. Round
    trips, refinement of a byte stream and of bounded lists, what stays in bounds and where the code leaves it.
  \<^item> \<open>Base64\<close>, \<open>Crc32\<close>: the encoders and the decoder with its options (\<open>util/base64.cpp\<close>) and
    the checksum (\<open>util/crc32.cpp\<close>). The decoder inverts the encoder, and the unrolled table-driven checksum is the bitwise
    one.
  \<^item> \<open>Packet_Socket\<close> over \<open>Mem_Buffer\<close>: framing of the bus. However the stream is cut, exactly the complete
    packets are signalled; a stream without the mark closes the connection.
  \<^item> \<open>Message_Queue\<close>: posting, delayed posting and retrieval of the event service, and its clock arithmetic. Every
    sequence of operations returns what an abstract queue (a list of messages, and delayed messages with unbounded times) returns.
  \<^item> \<open>Dp_Bus\<close>: every handler of the broker as a function on the store of agents, and the reachable buses as a step
    relation. The registries agree with the clients; broadcasts and requests are delivered and answered.
  \<^item> \<open>Dp_Client\<close>: the clients of one process (\<open>dp/dpclient.cpp\<close>) with their local dispatcher, messages and
    signals; calls that block are cut at the wait. A request is followed through client, broker and the client of another process and back;
    over every interleaving of the threads each signal has one holder and the map of requests only open calls.
  \<^item> \<open>Msg_Queue\<close>, \<open>Serialize\<close>, \<open>Nav_Link\<close>: the navigation link. Frames built by the sender are
    parsed by the reader threads; lengths that the readers trust overrun their buffers.
  \<^item> \<open>Array_Heap\<close>, \<open>Heap_Timer\<close>, \<open>Wheel_Timer\<close>: the timers. The heap invariant, which timers
    are called and when, also with callbacks that register and cancel timers; the wheel is equivalent to a scan of all timers in every
    millisecond.
  \<^item> \<open>Data_Model\<close>, \<open>Robot_Schedule\<close>: the scheduler. Its invariant over every order of whole handlers and
    passes, and what commands, keys and faults do.
  \<^item> \<open>Cell_Threads\<close>: the setters and readers of the states and of the job command (\<open>DateModel.cpp\<close>,
    \<open>RobotSchedule.cpp\<close>) when threads use them at the same time. They take no lock; what holds for every interleaving of their
    reads and writes, and what is lost when setters overlap.
  \<^item> \<open>Watchdog\<close>: the shared table, its configuration file and the check, over every run of operations and of resets with
    any configuration.
  \<^item> \<open>Kvdb_File\<close>, \<open>Kvdb_Client\<close>: the store on a file system of paths, folders, refused paths and limited
    room, and its client. Round trips of keys, of copies in safe mode and of backup and restore.
  \<^item> \<open>Param_Check\<close>: the checker of parameters (\<open>kvdbparamcheck.cpp\<close>) as a type checker for JSON values. On
    documents with whole numbers of 32 bits and arrays of objects it decides a typing relation, and with it in place of the checker that is
    an argument of \<open>Kvdb_File\<close>, what is stored is typed.
  \<^item> \<open>Kvdb_Server\<close>: the server of the store on the bus (\<open>kvdbserver.cpp\<close>), over the client and JSON values.
  \<^item> \<open>Log_Stack\<close>, \<open>Log_Cache\<close>: the first cache of the logs (\<open>log/log_cache.cpp\<close>) in memory that
    processes may share. The blocks are taken from lock-free stacks, whose reads, writes and swaps are the steps of a relation: over every
    interleaving a block has one holder. Creation lays stacks and blocks out without overlap, and the ring of index nodes is a bounded
    queue.
  \<^item> \<open>Log_Client\<close>: traces, modules and levels (\<open>log/log_client.cpp\<close>). What is written to the cache is what
    the server takes out.
  \<^item> \<open>Log_Server\<close>: the thread, the files of each type of log and their indexes (\<open>log/log_server.cpp\<close>). A
    round takes the records of the clients to the files; a log keeps its newest entries, and the check at the start keeps a log in order.

  \<^bold>\<open>Loops.\<close> Loops over data are structural recursion or have a termination proof. A loop that may not end in the code is
  \<open>partial_function (option)\<close>, and \<open>None\<close> is not returning: \<open>advance\<close> and \<open>detect_loop\<close>
  of the heap timer, \<open>wheel_loop\<close>, \<open>new_loop\<close> of the chained buffer, \<open>analysis_loop\<close> of the packet
  socket, \<open>ReadFile\<close> and \<open>pull_loop\<close> of the logs. The theorems about them show that they return, or when they do
  not. The waiting of \<open>get_loop\<close> and the work loop \<open>schedule_loop\<close> run over lists that the environment gives, of
  waits and of runs of \<open>house_clean\<close>; where the list ends, the loop is still running, and \<open>get_loop\<close> says so in
  its result. No definition has fuel.

  \<^bold>\<open>Environment.\<close> Clocks, random values, uninitialised variables, callbacks, the byte order of the host, the parser and
  the writer of JSON documents and names from headers outside the repository are arguments. Threads appear as step relations. In the linked
  queue, the stacks of the log cache and the state cells, whose users share no lock, a step is a single read, write or queue operation.
  Elsewhere steps are coarser, and the theorems about reachable states say nothing about threads inside one step: in
  \<open>Robot_Schedule\<close> a step is a whole handler, or the command step or a pass of the work loop, though the code takes no lock
  there (only the race of a stop with the command step is cut finer); in \<open>Dp_Client\<close> the beginning of a call up to its wait is
  one step, though it increments \<open>message_id_\<close> and \<open>ListenMessage\<close> uses \<open>request_map_\<close> without a
  lock; in \<open>Watchdog\<close> an operation is one step, though \<open>Feeddog\<close> takes no lock, and the check has one value of the
  clock for both of its reads. A pop of a stack is assumed to be overtaken by fewer than \<open>2 ^ 16\<close> others, the range of the
  counter beside its top.

  \<^bold>\<open>Not modelled.\<close> Third-party code (\<open>third_part\<close>), apart from the accessors of JSON values that the
  checker and the server call, and the closed motion control behind \<open>house_clean\<close>; device drivers, the network, RPC, HTTP and
  VTY services and the database process, which adapt libraries and hardware; of the logs the search (\<open>log_query.cpp\<close>), the
  start of the thread and its sockets, and what is printed to consoles; the shared-memory containers (\<open>shmc\<close>), an external
  library that the watchdog uses through one typed pointer; the socket server and thread start-up of the event service; getters that only
  report; code of other platforms.
\<close>

end
